(* ===== verification/Zorba_Prelude.thy ===== *)
theory Zorba_Prelude
  imports Main "HOL-Library.Word" "HOL-Library.List_Lexorder"
begin

text \<open>
  Shared vocabulary of the development: the machine integers the C++ sources use, the outcome
  type of operations that throw or run into undefined behaviour, bit strings (most significant
  bit first) and the reading of a byte buffer as a bit string. The lemmas here are generic; they
  are collected in \<open>bits_simps\<close> (rewriting) and \<open>bits_lt_rules\<close> (the order on bit strings), which the
  component theories pass to the simplifier.
\<close>

unbundle bit_operations_syntax

named_theorems bits_simps \<open>rewriting of bit strings and byte buffers\<close>
named_theorems bits_lt_rules \<open>introduction rules for the order on bit strings\<close>

section \<open>Machine integers and outcomes\<close>

type_synonym byte = "8 word"
type_synonym u32 = "32 word"
type_synonym u64 = "64 word"

definition INT32_MAX :: int where
  "INT32_MAX = 2147483647"

text \<open>
  The ways an operation can end other than by returning. \<open>NODEID_ERROR\<close> and
  \<open>INVALID_NODE_URI\<close> are the two exceptions of the node-id code (\<open>ZSTR0030\<close>, \<open>ZAPI0028\<close>),
  \<open>Invalid_byte\<close> is the exception of the UTF-8 functions, \<open>INVALID_UTF8\<close> that of the UTF-8 stream buffer
  (\<open>ZXQD0006\<close>, with the bytes it reports), \<open>Base64_exception\<close> (the character and its position) and
  \<open>Invalid_argument\<close> are those of the Base64 functions, \<open>RANGE_EXCEPTION\<close> is \<open>ZSTR0060\<close>,
  \<open>Assertion\<close> a failed \<open>ZORBA_ASSERT\<close> or \<open>ZORBA_FATAL\<close>, \<open>Undefined\<close> an access outside of an
  array or an overflowing signed operation, \<open>Diverges\<close> a loop that does not end.
\<close>

datatype zerr = NODEID_ERROR | INVALID_NODE_URI | Invalid_byte byte | INVALID_UTF8 "byte list" | RANGE_EXCEPTION | Base64_exception byte nat | Invalid_argument
  | Assertion | Undefined | Diverges

type_synonym 'a outcome = "zerr + 'a"

text \<open>Sequencing for any type of errors.\<close>

definition bindE :: "'e + 'a \<Rightarrow> ('a \<Rightarrow> 'e + 'b) \<Rightarrow> 'e + 'b" where
  "bindE m f = (case m of Inl e \<Rightarrow> Inl e | Inr x \<Rightarrow> f x)"

lemma bindE_simps [simp]: "bindE (Inl e) f = Inl e" "bindE (Inr x) f = f x"
  by (simp_all add: bindE_def)

lemma bindE_eq_Inr: "bindE m f = Inr y \<longleftrightarrow> (\<exists>x. m = Inr x \<and> f x = Inr y)"
  by (cases m) simp_all

text \<open>For recursion under a bind; the theories that need it declare it.\<close>

lemma bindE_cong: "m = m' \<Longrightarrow> (\<And>x. m' = Inr x \<Longrightarrow> f x = f' x) \<Longrightarrow> bindE m f = bindE m' f'"
  by (cases m') simp_all

text \<open>Reading and writing one cell of an array: out of range is undefined behaviour.\<close>

definition rd :: "'a list \<Rightarrow> nat \<Rightarrow> 'a outcome" where
  "rd xs i = (if i < length xs then Inr (xs ! i) else Inl Undefined)"

definition wr :: "'a list \<Rightarrow> nat \<Rightarrow> 'a \<Rightarrow> 'a list outcome" where
  "wr xs i v = (if i < length xs then Inr (xs[i := v]) else Inl Undefined)"

lemma rd_in [simp]: "i < length xs \<Longrightarrow> rd xs i = Inr (xs ! i)"
  by (simp add: rd_def)

lemma wr_in [simp]: "i < length xs \<Longrightarrow> wr xs i v = Inr (xs[i := v])"
  by (simp add: wr_def)


lemma rd_error: "rd xs i = Inl e \<Longrightarrow> e = Undefined"
  by (simp add: rd_def split: if_splits)

lemma length_filter_mono: "(\<And>x. P x \<Longrightarrow> Q x) \<Longrightarrow> length (filter P xs) \<le> length (filter Q xs)"
  by (induction xs) (auto intro: le_SucI)


section \<open>Bit strings\<close>

primrec nat_bits :: "nat \<Rightarrow> nat \<Rightarrow> bool list" where
  "nat_bits 0 n = []"
| "nat_bits (Suc k) n = bit n k # nat_bits k n"

definition bits_val :: "bool list \<Rightarrow> nat" where
  "bits_val = foldl (\<lambda>a b. 2 * a + of_bool b) 0"

lemma length_nat_bits [simp]: "length (nat_bits k n) = k"
  by (induction k) simp_all

lemma nth_nat_bits [bits_simps]: "i < k \<Longrightarrow> nat_bits k n ! i = bit n (k - 1 - i)"
proof (induction k arbitrary: i)
  case (Suc k)
  then show ?case by (cases i) simp_all
qed simp

declare bit_Suc_0_iff [simp]

lemma nat_bits_numeral:
  "nat_bits (numeral k) n = bit n (pred_numeral k) # nat_bits (pred_numeral k) n"
  by (simp add: numeral_eq_Suc)

lemma bits_val_Nil [simp]: "bits_val [] = 0"
  by (simp add: bits_val_def)

lemma bits_val_snoc [simp]: "bits_val (xs @ [b]) = 2 * bits_val xs + of_bool b"
  by (simp add: bits_val_def)

lemma bits_val_append: "bits_val (xs @ ys) = bits_val xs * 2 ^ length ys + bits_val ys"
proof (induction ys rule: rev_induct)
  case (snoc y ys)
  then show ?case
    unfolding append_assoc [symmetric] bits_val_snoc by (simp add: algebra_simps)
qed simp

lemma bits_val_Cons: "bits_val (b # xs) = of_bool b * 2 ^ length xs + bits_val xs"
  using bits_val_append [of "[b]" xs] by (simp add: bits_val_def)

lemma bits_val_nat_bits [simp]: "bits_val (nat_bits k n) = take_bit k n"
proof (induction k)
  case (Suc k)
  then show ?case
    by (simp add: bits_val_Cons take_bit_Suc_from_most)
qed simp

lemma bits_val_less: "bits_val bs < 2 ^ length bs"
  by (induction bs) (auto simp: bits_val_Cons)

lemma bit_bits_val: "bit (bits_val xs) j \<longleftrightarrow> j < length xs \<and> xs ! (length xs - 1 - j)"
proof (induction xs arbitrary: j rule: rev_induct)
  case (snoc x xs)
  show ?case
  proof (cases j)
    case 0
    then show ?thesis by (simp add: bit_0)
  next
    case (Suc i)
    have "length (xs @ [x]) - 1 - Suc i = length xs - 1 - i" by simp
    moreover have "bit (bits_val (xs @ [x])) (Suc i) = bit (bits_val xs) i" by (simp add: bit_Suc)
    ultimately show ?thesis unfolding Suc using snoc [of i] by (cases "xs = []") (simp_all add: nth_append)
  qed
qed simp

lemma last_nat_bits: "0 < n \<Longrightarrow> last (nat_bits n m) = odd m"
proof -
  assume "0 < n"
  moreover then have "nat_bits n m \<noteq> []" using length_nat_bits [of n m] by fastforce
  ultimately show ?thesis by (simp add: last_conv_nth nth_nat_bits bit_0)
qed

lemma nat_bits_take_bit [simp]: "nat_bits k (take_bit k n) = nat_bits k n"
  by (rule nth_equalityI) (auto simp: bits_simps bit_take_bit_iff)


section \<open>The order on bit strings\<close>

text \<open>
  \<open>bits_lt xs ys\<close>: the two strings differ, and at the first difference \<open>xs\<close> has the zero. Unlike
  the lexicographic order it does not relate a string to its own extensions.
\<close>

fun bits_lt :: "bool list \<Rightarrow> bool list \<Rightarrow> bool" where
  "bits_lt (x # xs) (y # ys) = (if x = y then bits_lt xs ys else y)"
| "bits_lt _ _ = False"

lemma bits_lt_same_prefix [simp]: "bits_lt (p @ xs) (p @ ys) = bits_lt xs ys"
  by (induction p) simp_all

lemma bits_lt_append [bits_lt_rules]: "bits_lt xs ys \<Longrightarrow> bits_lt (xs @ as) (ys @ bs)"
  by (induction xs ys rule: bits_lt.induct) (auto split: if_splits)

lemma bits_lt_irrefl [simp]: "\<not> bits_lt xs xs"
  by (induction xs) simp_all

lemma bits_lt_asym: "bits_lt xs ys \<Longrightarrow> \<not> bits_lt ys xs"
  by (induction xs ys rule: bits_lt.induct) (auto split: if_splits)

lemma bits_lt_not_prefix:
  assumes "bits_lt xs ys" shows "xs @ as \<noteq> ys @ bs"
proof
  assume "xs @ as = ys @ bs"
  with bits_lt_append [OF assms, of as bs] show False by simp
qed

lemma bits_lt_nth:
  "bits_lt xs ys \<longleftrightarrow>
     (\<exists>i. i < length xs \<and> i < length ys \<and> take i xs = take i ys \<and> \<not> xs ! i \<and> ys ! i)"
  (is "?l \<longleftrightarrow> ?r")
proof
  show "?l \<Longrightarrow> ?r"
  proof (induction xs ys rule: bits_lt.induct)
    case (1 x xs y ys)
    show ?case
    proof (cases "x = y")
      case True
      with 1 obtain i where "i < length xs" "i < length ys" "take i xs = take i ys"
        "\<not> xs ! i" "ys ! i"
        by auto
      with True show ?thesis by (intro exI [of _ "Suc i"]) simp
    next
      case False
      with 1 show ?thesis by (intro exI [of _ 0]) simp
    qed
  qed simp_all
  assume ?r
  then obtain i where i: "i < length xs" "i < length ys" "take i xs = take i ys" "\<not> xs ! i" "ys ! i"
    by blast
  have "bits_lt (take i xs @ xs ! i # drop (Suc i) xs) (take i ys @ ys ! i # drop (Suc i) ys)"
    using i by simp
  then show ?l using i(1,2) by (simp add: id_take_nth_drop [symmetric])
qed

lemma bits_lt_nat_bits [bits_lt_rules]:
  "m < n \<Longrightarrow> n < 2 ^ k \<Longrightarrow> bits_lt (nat_bits k m) (nat_bits k n)"
proof (induction k arbitrary: m n)
  case (Suc k)
  have split: "x = of_bool (bit x k) * 2 ^ k + take_bit k x" if "x < 2 ^ Suc k" for x :: nat
    using take_bit_Suc_from_most [of k x] take_bit_nat_eq_self [OF that] by (simp add: mult.commute)
  have less: "take_bit k x < 2 ^ k" for x :: nat by simp
  show ?case
  proof (cases "bit m k = bit n k")
    case True
    then have "take_bit k m < take_bit k n"
      using split [of m] split [of n] Suc.prems by (auto split: if_splits)
    then have "bits_lt (nat_bits k (take_bit k m)) (nat_bits k (take_bit k n))"
      using less by (intro Suc.IH) auto
    with True show ?thesis by simp
  next
    case False
    have "bit n k"
    proof (rule ccontr)
      assume n: "\<not> bit n k"
      with split [of n] Suc.prems(2) have "n = take_bit k n" by simp
      moreover from n False split [of m] Suc.prems have "2 ^ k \<le> m" by simp
      ultimately show False using less [of n] Suc.prems(1) by linarith
    qed
    with False show ?thesis by simp
  qed
qed simp


lemma unat_drop_bit_1_less:
  fixes b :: byte
  assumes "drop_bit (Suc 0) b \<noteq> 0" shows "unat (drop_bit (Suc 0) b) < unat b"
proof -
  have "unat b div 2 \<noteq> 0" using assms by (simp add: drop_bit_eq_div unat_div flip: unat_eq_0)
  then show ?thesis by (simp add: drop_bit_eq_div unat_div)
qed


section \<open>A byte buffer as a bit string\<close>

definition buf_bit :: "byte list \<Rightarrow> nat \<Rightarrow> bool" where
  "buf_bit d i = (i < 8 * length d \<and> bit (d ! (i div 8)) (7 - i mod 8))"

text \<open>\<open>padded d bs\<close>: the buffer holds the bit string, and zeros after it.\<close>

definition padded :: "byte list \<Rightarrow> bool list \<Rightarrow> bool" where
  "padded d bs \<longleftrightarrow> length bs \<le> 8 * length d
     \<and> (\<forall>i < 8 * length d. buf_bit d i = (i < length bs \<and> bs ! i))"

lemma buf_bit_beyond [simp]: "8 * length d \<le> i \<Longrightarrow> \<not> buf_bit d i"
  by (simp add: buf_bit_def)

lemma padded_bit: "padded d bs \<Longrightarrow> buf_bit d i = (i < length bs \<and> bs ! i)"
  by (cases "i < 8 * length d") (auto simp: padded_def)

lemma padded_length: "padded d bs \<Longrightarrow> length bs \<le> 8 * length d"
  by (simp add: padded_def)

lemma paddedI:
  "length bs \<le> 8 * length d \<Longrightarrow> (\<And>i. buf_bit d i = (i < length bs \<and> bs ! i)) \<Longrightarrow> padded d bs"
  by (simp add: padded_def)

lemma buf_bit_byte: "k < 8 \<Longrightarrow> i < length d \<Longrightarrow> buf_bit d (8 * i + k) = bit (d ! i) (7 - k)"
  by (simp add: buf_bit_def div_mult_self4 mod_mult_self4)

lemma byte_bit_buf: "i < length d \<Longrightarrow> k < 8 \<Longrightarrow> bit (d ! i) k = buf_bit d (8 * i + 7 - k)"
  using buf_bit_byte [of "7 - k" i d] by simp

lemma byte_zero_iff: "i < length d \<Longrightarrow> d ! i = 0 \<longleftrightarrow> (\<forall>k < 8. \<not> buf_bit d (8 * i + k))"
proof
  assume i: "i < length d" and z: "\<forall>k < 8. \<not> buf_bit d (8 * i + k)"
  have "\<not> bit (d ! i) k" if "k < 8" for k
    using z [rule_format, of "7 - k"] that byte_bit_buf [OF i that] by simp
  then show "d ! i = 0" by (intro bit_word_eqI) simp
qed (simp add: buf_bit_byte)

lemma buf_bit_or:
  assumes "j < length d"
  shows "buf_bit (d[j := d ! j OR b]) i = (buf_bit d i \<or> (i div 8 = j \<and> bit b (7 - i mod 8)))"
  using assms by (auto simp: buf_bit_def nth_list_update bit_or_iff)

lemma buf_bit_and:
  assumes "j < length d"
  shows "buf_bit (d[j := d ! j AND b]) i = (buf_bit d i \<and> (i div 8 = j \<longrightarrow> bit b (7 - i mod 8)))"
  using assms by (auto simp: buf_bit_def nth_list_update bit_and_iff)

lemma buf_eqI:
  assumes "length d = length e" "\<And>i. buf_bit d i = buf_bit e i"
  shows "d = e"
proof (rule nth_equalityI)
  fix i assume i: "i < length d"
  show "d ! i = e ! i"
    using byte_bit_buf [OF i] byte_bit_buf [of i e] i assms by (intro bit_word_eqI) simp
qed (rule assms(1))

text \<open>The \<open>n\<close> bits of a buffer from position \<open>s\<close> on.\<close>

definition buf_slice :: "byte list \<Rightarrow> nat \<Rightarrow> nat \<Rightarrow> bool list" where
  "buf_slice d s n = map (buf_bit d) [s..<s + n]"

lemma length_buf_slice [simp]: "length (buf_slice d s n) = n"
  by (simp add: buf_slice_def)

lemma nth_buf_slice [simp]: "i < n \<Longrightarrow> buf_slice d s n ! i = buf_bit d (s + i)"
  by (simp add: buf_slice_def)

lemma buf_slice_append: "buf_slice d s n @ buf_slice d (s + n) m = buf_slice d s (n + m)"
  using upt_add_eq_append [of s "s + n" m] by (simp add: buf_slice_def add.assoc)

lemma buf_slice_take: "k \<le> n \<Longrightarrow> buf_slice d s k = take k (buf_slice d s n)"
  by (simp add: buf_slice_def take_map)

lemma bit_ff_byte: "bit (0xff :: byte) j \<longleftrightarrow> j < 8"
proof -
  have "(0xff :: byte) = mask 8" by (simp add: mask_eq_exp_minus_1)
  then have "bit (0xff :: byte) j \<longleftrightarrow> bit (mask 8 :: byte) j" by simp
  then show ?thesis by (simp only: bit_mask_iff) simp
qed

lemma bit_high_mask:
  assumes "r \<le> 8" "k < 8" shows "bit (push_bit (8 - r) 0xff :: byte) (7 - k) \<longleftrightarrow> k < r"
proof -
  have "possible_bit TYPE(byte) (7 - k)" by (simp add: possible_bit_def)
  then show ?thesis unfolding bit_push_bit_iff bit_ff_byte using assms by auto
qed

lemma and_ff_byte: "b AND 0xff = b" for b :: byte
  by (rule bit_word_eqI) (simp only: bit_and_iff bit_ff_byte, simp)

section \<open>Data refinement\<close>

text \<open>
  Running a list of commands on a data structure and on its specification, with the results of all of
  them. A structure refines its specification if each single command does; then every run does.
\<close>

fun run_cmds :: "('c \<Rightarrow> 'm \<Rightarrow> ('r \<times> 'm) outcome) \<Rightarrow> 'c list \<Rightarrow> 'm \<Rightarrow> ('r list \<times> 'm) outcome" where
  "run_cmds exec [] m = Inr ([], m)"
| "run_cmds exec (c # cs) m =
    bindE (exec c m) (\<lambda>(r, m'). bindE (run_cmds exec cs m') (\<lambda>(rs, m''). Inr (r # rs, m'')))"

fun run_spec :: "('c \<Rightarrow> 'a \<Rightarrow> 'r \<times> 'a) \<Rightarrow> 'c list \<Rightarrow> 'a \<Rightarrow> 'r list \<times> 'a" where
  "run_spec spec [] a = ([], a)"
| "run_spec spec (c # cs) a =
    (case spec c a of (r, a') \<Rightarrow> case run_spec spec cs a' of (rs, a'') \<Rightarrow> (r # rs, a''))"

locale data_refinement =
  fixes exec :: "'c \<Rightarrow> 'm \<Rightarrow> ('r \<times> 'm) outcome" and spec :: "'c \<Rightarrow> 'a \<Rightarrow> 'r \<times> 'a"
    and inv :: "'m \<Rightarrow> bool" and abs :: "'m \<Rightarrow> 'a"
  assumes refine_step: "inv m \<Longrightarrow>
    \<exists>m'. exec c m = Inr (fst (spec c (abs m)), m') \<and> inv m' \<and> abs m' = snd (spec c (abs m))"
begin

lemma refine_run:
  "inv m \<Longrightarrow> \<exists>m'. run_cmds exec cs m = Inr (fst (run_spec spec cs (abs m)), m')
    \<and> inv m' \<and> abs m' = snd (run_spec spec cs (abs m))"
proof (induction cs arbitrary: m)
  case (Cons c cs)
  obtain m1 where m1: "exec c m = Inr (fst (spec c (abs m)), m1)" "inv m1" "abs m1 = snd (spec c (abs m))"
    using refine_step [OF Cons.prems] by blast
  obtain m2 where "run_cmds exec cs m1 = Inr (fst (run_spec spec cs (abs m1)), m2)"
    "inv m2" "abs m2 = snd (run_spec spec cs (abs m1))" using Cons.IH [OF m1(2)] by blast
  with m1 show ?case by (auto split: prod.split)
qed simp

end

end
