(* ===== verification/OrdPath_Code.thy ===== *)
theory OrdPath_Code
  imports Zorba_Prelude
begin

text \<open>
  The component code of node ids (\<open>store/naive/ordpath.cpp\<close>), stated once as a reference: an
  integer is written as the prefix of its range followed by its distance from the start of the
  range. The ranges, prefixes and widths are those the comments of \<open>thePosV2EVMap\<close>,
  \<open>theNegV2EVMap\<close> and \<open>bitsNeeded\<close> list. What makes the code usable for node ids is stated as the
  locale \<open>ordered_code\<close>: it keeps the order of the integers. Everything the node-id component needs
  of whole ids (that they can be decoded, and that comparing bit strings is comparing ids in
  document order) is proved in the locale from this and interpreted for the code.
\<close>

section \<open>Codes that keep the order\<close>

locale ordered_code =
  fixes enc :: "'a::linorder \<Rightarrow> bool list" and cdom :: "'a \<Rightarrow> bool"
  assumes enc_less: "cdom v \<Longrightarrow> cdom w \<Longrightarrow> v < w \<Longrightarrow> bits_lt (enc v) (enc w)"
    and enc_one: "cdom v \<Longrightarrow> True \<in> set (enc v)"
begin

lemma enc_nonempty: "cdom v \<Longrightarrow> enc v \<noteq> []"
  using enc_one by fastforce

lemma enc_prefix_free:
  assumes "cdom v" "cdom w" "enc v @ xs = enc w @ ys"
  shows "v = w \<and> xs = ys"
proof -
  have "v = w"
    using assms enc_less bits_lt_not_prefix by (metis linorder_neqE)
  with assms(3) show ?thesis by simp
qed

lemma stream_nonempty:
  "list_all cdom ds \<Longrightarrow> ds \<noteq> [] \<Longrightarrow> True \<in> set (concat (map enc ds))"
  using enc_one by (cases ds) auto

lemma stream_prefix:
  assumes "list_all cdom ds" "list_all cdom es"
    and "concat (map enc ds) @ xs = concat (map enc es)"
  shows "\<exists>zs. es = ds @ zs \<and> xs = concat (map enc zs)"
  using assms
proof (induction ds arbitrary: es)
  case (Cons d ds)
  from Cons.prems enc_nonempty obtain e es' where es: "es = e # es'"
    by (cases es) auto
  with Cons.prems have "enc d @ concat (map enc ds) @ xs = enc e @ concat (map enc es')"
    by simp
  with Cons.prems es enc_prefix_free have "d = e" "concat (map enc ds) @ xs = concat (map enc es')"
    by auto
  with Cons es show ?case by auto
qed simp

lemma stream_inj:
  assumes "list_all cdom ds" "list_all cdom es" "concat (map enc ds) = concat (map enc es)"
  shows "ds = es"
proof -
  from assms stream_prefix [of ds es "[]"] obtain zs
    where zs: "es = ds @ zs" "[] = concat (map enc zs)" by auto
  with assms(2) stream_nonempty [of zs] show ?thesis by (cases "zs = []") auto
qed

lemma stream_prefix_zeros:
  assumes "list_all cdom ds" "list_all cdom es"
    and "concat (map enc ds) @ xs = concat (map enc es) @ replicate k False"
  shows "\<exists>zs. es = ds @ zs \<and> xs = concat (map enc zs) @ replicate k False"
  using assms
proof (induction ds arbitrary: es)
  case (Cons d ds)
  have "es \<noteq> []"
  proof
    assume "es = []"
    with Cons.prems(3) have "set (enc d @ concat (map enc ds) @ xs) = set (replicate k False)" by simp
    with enc_one [of d] Cons.prems(1) show False by (auto split: if_splits)
  qed
  then obtain e es' where es: "es = e # es'" by (cases es) auto
  with Cons.prems have "enc d @ concat (map enc ds) @ xs = enc e @ concat (map enc es') @ replicate k False"
    by simp
  with Cons.prems es enc_prefix_free have "d = e"
    "concat (map enc ds) @ xs = concat (map enc es') @ replicate k False"
    by auto
  with Cons es show ?case by auto
qed simp

lemma stream_less:
  assumes "list_all cdom ds" "list_all cdom es" "ds < es"
  shows "bits_lt (concat (map enc ds)) (concat (map enc es)) \<or> (\<exists>zs. zs \<noteq> [] \<and> es = ds @ zs)"
  using assms
proof (induction ds arbitrary: es)
  case Nil
  then show ?case by (cases es) auto
next
  case (Cons d ds)
  from Cons.prems obtain e es' where es: "es = e # es'" by (cases es) auto
  show ?case
  proof (cases "d < e")
    case True
    with Cons.prems es enc_less show ?thesis by (auto intro: bits_lt_append)
  next
    case False
    with Cons es show ?thesis by auto
  qed
qed

lemma stream_bits_lt:
  assumes "list_all cdom ds" "list_all cdom es"
    and "bits_lt (concat (map enc ds)) (concat (map enc es))"
  shows "ds < es"
proof (rule ccontr)
  assume "\<not> ds < es"
  then consider "ds = es" | "es < ds" by (meson linorder_neqE)
  then show False
  proof cases
    case 2
    with stream_less assms bits_lt_asym bits_lt_not_prefix [OF assms(3), of "[]"] show False
      by (metis append.assoc append_Nil2 concat_append map_append)
  qed (use assms in simp)
qed

end


section \<open>The component code\<close>

text \<open>Prefix length, prefix, number of data bits and first value of every range, in order.\<close>

definition comp_classes :: "(nat \<times> nat \<times> nat \<times> int) list" where
  "comp_classes =
    [(10, 1, 32, - INT32_MAX), (9, 1, 20, - 1118484), (8, 1, 16, - 69908), (7, 1, 12, - 4372),
     (6, 1, 8, - 276), (5, 1, 4, - 20), (4, 1, 2, - 4), (3, 1, 0, 0), (2, 1, 0, 1), (2, 2, 1, 2),
     (3, 6, 2, 4), (4, 14, 4, 8), (5, 30, 8, 24), (6, 62, 12, 280), (7, 126, 16, 4376),
     (8, 254, 20, 69912), (9, 510, 32, 1118488)]"

definition comp_rank :: "int \<Rightarrow> nat" where
  "comp_rank v = length (filter (\<lambda>(l, p, n, b). b \<le> v) (tl comp_classes))"

definition comp_class :: "int \<Rightarrow> nat \<times> nat \<times> nat \<times> int" where
  "comp_class v = comp_classes ! comp_rank v"

definition class_bits :: "nat \<times> nat \<times> nat \<times> int \<Rightarrow> int \<Rightarrow> bool list" where
  "class_bits = (\<lambda>(l, p, n, b) v. nat_bits l p @ nat_bits n (nat (v - b)))"

definition comp_bits :: "int \<Rightarrow> bool list" where
  "comp_bits v = class_bits (comp_class v) v"

definition comp_int32 :: "int \<Rightarrow> bool" where
  "comp_int32 v \<longleftrightarrow> - INT32_MAX \<le> v \<and> v \<le> INT32_MAX"

text \<open>The bit string of a whole node id.\<close>

abbreviation dewey_bits :: "int list \<Rightarrow> bool list" where
  "dewey_bits ds \<equiv> concat (map comp_bits ds)"

lemma comp_class_cases:
  "comp_class v =
    (if v < - 1118484 then (10, 1, 32, - INT32_MAX) else
     if v < - 69908 then (9, 1, 20, - 1118484) else
     if v < - 4372 then (8, 1, 16, - 69908) else
     if v < - 276 then (7, 1, 12, - 4372) else
     if v < - 20 then (6, 1, 8, - 276) else
     if v < - 4 then (5, 1, 4, - 20) else
     if v < 0 then (4, 1, 2, - 4) else
     if v = 0 then (3, 1, 0, 0) else
     if v = 1 then (2, 1, 0, 1) else
     if v < 4 then (2, 2, 1, 2) else
     if v < 8 then (3, 6, 2, 4) else
     if v < 24 then (4, 14, 4, 8) else
     if v < 280 then (5, 30, 8, 24) else
     if v < 4376 then (6, 62, 12, 280) else
     if v < 69912 then (7, 126, 16, 4376) else
     if v < 1118488 then (8, 254, 20, 69912) else (9, 510, 32, 1118488))"
  by (simp add: comp_class_def comp_rank_def comp_classes_def)

lemma comp_class_bounds:
  assumes "comp_int32 v" "comp_class v = (l, p, n, b)"
  shows "b \<le> v" "nat (v - b) < 2 ^ n"
  using assms by (auto simp: comp_class_cases comp_int32_def INT32_MAX_def split: if_splits)

lemma comp_rank_mono: "v \<le> w \<Longrightarrow> comp_rank v \<le> comp_rank w"
  unfolding comp_rank_def by (rule length_filter_mono) auto

lemma comp_rank_less: "comp_rank v < 17"
proof -
  have "comp_rank v \<le> length (tl comp_classes)"
    unfolding comp_rank_def by (rule length_filter_le)
  then show ?thesis by (simp add: comp_classes_def)
qed

text \<open>The prefixes of two ranges differ, and the lower range has the zero.\<close>

definition class_prefix :: "nat \<Rightarrow> bool list" where
  "class_prefix r = (case comp_classes ! r of (l, p, n, b) \<Rightarrow> nat_bits l p)"

lemma class_prefix_less: "sorted_wrt bits_lt (map class_prefix [0..<17])"
  by (simp add: class_prefix_def comp_classes_def upt_rec nat_bits_numeral)

lemma comp_bits_less:
  assumes "comp_int32 v" "comp_int32 w" "v < w"
  shows "bits_lt (comp_bits v) (comp_bits w)"
proof (cases "comp_rank v = comp_rank w")
  case True
  obtain l p n b where c: "comp_class v = (l, p, n, b)" by (metis prod_cases4)
  with True have d: "comp_class w = (l, p, n, b)" by (simp add: comp_class_def)
  have "b \<le> v" "nat (w - b) < 2 ^ n"
    using comp_class_bounds(1) [OF assms(1) c] comp_class_bounds(2) [OF assms(2) d] by auto
  moreover from this assms(3) have "nat (v - b) < nat (w - b)" by simp
  ultimately show ?thesis using c d by (simp add: comp_bits_def class_bits_def bits_lt_nat_bits)
next
  case False
  then have "comp_rank v < comp_rank w" using comp_rank_mono [of v w] assms(3) by simp
  then have "bits_lt (class_prefix (comp_rank v)) (class_prefix (comp_rank w))"
    using class_prefix_less comp_rank_less [of v] comp_rank_less [of w]
    by (simp add: sorted_wrt_iff_nth_less)
  then show ?thesis
    by (auto simp: comp_bits_def class_bits_def comp_class_def class_prefix_def bits_lt_append
        split: prod.splits)
qed

lemma class_bits_one: "(l, p, n, b) \<in> set comp_classes \<Longrightarrow> True \<in> set (nat_bits l p)"
proof -
  have "list_all (\<lambda>(l, p, n, b). True \<in> set (nat_bits l p)) comp_classes"
    by (simp add: comp_classes_def nat_bits_numeral)
  then show "(l, p, n, b) \<in> set comp_classes \<Longrightarrow> True \<in> set (nat_bits l p)"
    by (auto simp: list_all_iff)
qed

lemma comp_class_in: "comp_class v \<in> set comp_classes"
proof -
  have "comp_rank v < length comp_classes" using comp_rank_less [of v] by (simp add: comp_classes_def)
  then show ?thesis unfolding comp_class_def by (rule nth_mem)
qed

lemma comp_bits_one: "True \<in> set (comp_bits v)"
proof -
  obtain l p n b where "comp_class v = (l, p, n, b)" by (metis prod_cases4)
  with comp_class_in [of v] class_bits_one show ?thesis
    by (auto simp: comp_bits_def class_bits_def)
qed

interpretation comp: ordered_code comp_bits comp_int32
  by unfold_locales (use comp_bits_less comp_bits_one in auto)


section \<open>Node ids as lists of components\<close>

text \<open>
  A node id is a non-empty list of components that ends with an odd one: an odd component is a
  position among siblings, an even one (a "caret") opens room between two positions. Components
  below \<open>- 1118484\<close> are excluded: an odd component of the lowest range ends with a zero bit, so its
  end cannot be told from the padding, and the decoder mistakes its range (see \<open>OrdPath_Decode\<close>).
\<close>

definition comp_ok :: "int \<Rightarrow> bool" where
  "comp_ok v \<longleftrightarrow> - 1118484 \<le> v \<and> v \<le> INT32_MAX"

definition dewey_ok :: "int list \<Rightarrow> bool" where
  "dewey_ok ds \<longleftrightarrow> ds \<noteq> [] \<and> list_all comp_ok ds \<and> odd (last ds)"

lemma comp_ok_int32: "comp_ok v \<Longrightarrow> comp_int32 v"
  by (simp add: comp_ok_def comp_int32_def INT32_MAX_def)

lemma comps_ok_int32: "list_all comp_ok ds \<Longrightarrow> list_all comp_int32 ds"
  by (auto simp: list_all_iff comp_ok_int32)

lemma dewey_ok_int32: "dewey_ok ds \<Longrightarrow> list_all comp_int32 ds"
  by (simp add: dewey_ok_def comps_ok_int32)

lemma comp_bits_nonempty [simp]: "comp_bits v \<noteq> []"
  using comp_bits_one [of v] by fastforce

lemma last_comp_bits:
  assumes "comp_ok v" "odd v" shows "last (comp_bits v)"
proof -
  obtain l p n b where c: "comp_class v = (l, p, n, b)" by (metis prod_cases4)
  show ?thesis
  proof (cases "n = 0")
    case True
    with c assms show ?thesis
      by (auto simp: comp_bits_def class_bits_def comp_class_cases comp_ok_def nat_bits_numeral split: if_splits)
  next
    case False
    have "even b" "b \<le> v"
      using c False assms by (auto simp: comp_class_cases comp_ok_def nat_bits_numeral split: if_splits)
    then have "odd (nat (v - b))" using assms(2) by (simp add: even_nat_iff)
    moreover have "nat_bits n (nat (v - b)) \<noteq> []" using False length_nat_bits by (metis list.size(3))
    ultimately show ?thesis
      using c False by (simp add: comp_bits_def class_bits_def last_nat_bits)
  qed
qed

lemma dewey_bits_last: "dewey_ok ds \<Longrightarrow> dewey_bits ds \<noteq> [] \<and> last (dewey_bits ds)"
  by (cases ds rule: rev_cases) (auto simp: dewey_ok_def last_comp_bits)

lemma dewey_bits_less:
  assumes "list_all comp_int32 ds" "list_all comp_int32 es"
  shows "ds < es \<longleftrightarrow> bits_lt (dewey_bits ds) (dewey_bits es) \<or> (\<exists>zs. zs \<noteq> [] \<and> es = ds @ zs)"
proof
  show "ds < es \<Longrightarrow> bits_lt (dewey_bits ds) (dewey_bits es) \<or> (\<exists>zs. zs \<noteq> [] \<and> es = ds @ zs)"
    using comp.stream_less assms by blast
  have "ds < ds @ zs" if "zs \<noteq> []" for zs
    using that by (induction ds) (auto simp: neq_Nil_conv)
  then show "bits_lt (dewey_bits ds) (dewey_bits es) \<or> (\<exists>zs. zs \<noteq> [] \<and> es = ds @ zs) \<Longrightarrow> ds < es"
    using comp.stream_bits_lt assms by blast
qed

lemma length_comp_bits:
  "length (comp_bits v) = (case comp_class v of (l, p, n, b) \<Rightarrow> l + n)"
  by (auto simp: comp_bits_def class_bits_def split: prod.splits)

lemma length_comp_bits_ge: "2 \<le> length (comp_bits v)"
  by (auto simp: length_comp_bits comp_class_cases)

lemma length_dewey_bits_ge: "2 * length ds \<le> length (dewey_bits ds)"
proof (induction ds)
  case (Cons d ds)
  with length_comp_bits_ge [of d] show ?case by simp
qed simp

end
