(* ===== verification/OrdPath_Encode.thy ===== *)
theory OrdPath_Encode
  imports OrdPath_Code
begin

text \<open>
  Writing node ids: the tables, \<open>bitsNeeded\<close>, \<open>appendEncodedComp\<close>, \<open>pushComp\<close>, \<open>compress\<close> and
  \<open>appendComp\<close> of \<open>store/naive/ordpath.cpp\<close>, and the two representations of an \<open>OrdPath\<close>. The lemmas
  show that every routine writes the bits of the reference code of \<open>OrdPath_Code\<close> and nothing else,
  that an id is embedded exactly when it fits in 63 bits, and that ids of more than 255 bytes are
  refused with \<open>ZSTR0030\<close>.
\<close>

section \<open>Representation\<close>

text \<open>
  \<open>theBuffer\<close> is a union of eight embedded bytes and a pointer; the lowest bit of the last embedded
  byte is set in an embedded id and clear in a pointer. A remote buffer starts with its length (one
  byte), which the model keeps as the length of the list.
\<close>

datatype ordpath = Local "byte list" | Remote "byte list"

definition MAX_BYTE_LEN :: nat where "MAX_BYTE_LEN = 255"
definition MAX_BIT_LEN :: nat where "MAX_BIT_LEN = MAX_BYTE_LEN * 8"
definition MAX_EMBEDDED_BYTE_LEN :: nat where "MAX_EMBEDDED_BYTE_LEN = 8"
definition MAX_EMBEDDED_BIT_LEN :: nat where "MAX_EMBEDDED_BIT_LEN = MAX_EMBEDDED_BYTE_LEN * 8 - 1"
definition MAX_EMBEDDED_BYTE :: nat where "MAX_EMBEDDED_BYTE = MAX_EMBEDDED_BYTE_LEN - 1"
definition MAX_NUM_COMPS :: nat where "MAX_NUM_COMPS = MAX_BYTE_LEN * 4"
definition DEFAULT_FAN_OUT :: int where "DEFAULT_FAN_OUT = 32"

lemmas ordpath_consts = MAX_BYTE_LEN_def MAX_BIT_LEN_def MAX_EMBEDDED_BYTE_LEN_def
  MAX_EMBEDDED_BIT_LEN_def MAX_EMBEDDED_BYTE_def MAX_NUM_COMPS_def DEFAULT_FAN_OUT_def

definition markLocal :: "byte list \<Rightarrow> byte list" where
  "markLocal l = l[MAX_EMBEDDED_BYTE := l ! MAX_EMBEDDED_BYTE OR 1]"

definition markRemote :: "byte list \<Rightarrow> byte list" where
  "markRemote l = l[MAX_EMBEDDED_BYTE := l ! MAX_EMBEDDED_BYTE AND 0xFE]"

text \<open>The embedded bytes after \<open>reset()\<close>: all zero but for the mark.\<close>

definition reset :: "byte list" where
  "reset = markLocal (replicate MAX_EMBEDDED_BYTE_LEN 0)"

text \<open>The data bytes after \<open>initRemote(byteLen)\<close>.\<close>

definition initRemote :: "nat \<Rightarrow> byte list" where
  "initRemote byteLen = replicate byteLen 0"


section \<open>Tables\<close>

definition theValueMasks :: "u32 list" where
  "theValueMasks = [0x00000000, 0x80000000, 0xC0000000, 0xE0000000, 0xF0000000, 0xF8000000,
     0xFC000000, 0xFE000000, 0xFF000000]"

definition thePosV2LMap :: "nat list" where
  "thePosV2LMap = [3, 2, 3, 3, 5, 5, 5, 5,
     8, 8, 8, 8, 8, 8, 8, 8, 8, 8, 8, 8, 8, 8, 8, 8, 13, 13, 13, 13, 13, 13, 13, 13]"

definition theNegV2LMap :: "nat list" where
  "theNegV2LMap = [3, 6, 6, 6, 6, 9, 9, 9, 9, 9, 9, 9, 9, 9, 9, 9, 9, 9, 9, 9, 9,
     14, 14, 14, 14, 14, 14, 14, 14, 14, 14, 14]"

definition thePosV2EVMap :: "16 word list" where
  "thePosV2EVMap = [0x2000, 0x4000, 0x8000, 0xA000, 0xC000, 0xC800, 0xD000, 0xD800,
     0xE000, 0xE100, 0xE200, 0xE300, 0xE400, 0xE500, 0xE600, 0xE700,
     0xE800, 0xE900, 0xEA00, 0xEB00, 0xEC00, 0xED00, 0xEE00, 0xEF00,
     0xF000, 0xF008, 0xF010, 0xF018, 0xF020, 0xF028, 0xF030, 0xF038]"

definition theNegV2EVMap :: "16 word list" where
  "theNegV2EVMap = [0x2000, 0x1C00, 0x1800, 0x1400, 0x1000,
     0x0F80, 0x0F00, 0x0E80, 0x0E00, 0x0D80, 0x0D00, 0x0C80, 0x0C00,
     0x0B80, 0x0B00, 0x0A80, 0x0A00, 0x0980, 0x0900, 0x0880, 0x0800,
     0x07FC, 0x07F8, 0x07F4, 0x07F0, 0x07EC, 0x07E8, 0x07E4, 0x07E0, 0x07DC, 0x07D8, 0x07D4]"


section \<open>Encoding one component\<close>

text \<open>
  The number of bits and the left-aligned code of a component: \<open>eval\<close> for codes of at most 32 bits,
  and \<open>eval2\<close>, otherwise 0, for the two codes that need more (there the source leaves \<open>eval\<close>
  unset and its callers overwrite it; the model has 0).
\<close>

definition bitsNeeded :: "int \<Rightarrow> nat \<times> u32 \<times> u64" where
  "bitsNeeded value =
    (if value < 0 then
       if value > - DEFAULT_FAN_OUT then
         (theNegV2LMap ! nat (- value), push_bit 16 (ucast (theNegV2EVMap ! nat (- value))), 0)
       else if value > - 277 then
         (14, drop_bit 6 (push_bit 24 (word_of_int (276 + value))) OR 0x04000000, 0)
       else if value > - 4373 then
         (19, drop_bit 7 (push_bit 20 (word_of_int (4372 + value))) OR 0x02000000, 0)
       else if value > - 69909 then
         (24, drop_bit 8 (push_bit 16 (word_of_int (69908 + value))) OR 0x01000000, 0)
       else if value > - 1118485 then
         (29, drop_bit 9 (push_bit 12 (word_of_int (1118484 + value))) OR 0x00800000, 0)
       else
         (42, 0, push_bit 32 0x00400000 OR word_of_int (INT32_MAX + value))
     else if value < DEFAULT_FAN_OUT then
       (thePosV2LMap ! nat value, push_bit 16 (ucast (thePosV2EVMap ! nat value)), 0)
     else if value < 280 then
       (13, drop_bit 5 (push_bit 24 (word_of_int (value - 24))) OR 0xF0000000, 0)
     else if value < 4376 then
       (18, drop_bit 6 (push_bit 20 (word_of_int (value - 280))) OR 0xF8000000, 0)
     else if value < 69912 then
       (23, drop_bit 7 (push_bit 16 (word_of_int (value - 4376))) OR 0xFC000000, 0)
     else if value < 1118488 then
       (28, drop_bit 8 (push_bit 12 (word_of_int (value - 69912))) OR 0xFE000000, 0)
     else
       (41, 0, push_bit 32 0xFF000000 OR word_of_int (value - 1118488)))"

text \<open>
  The loop that ors \<open>bitsNeeded\<close> bits of \<open>eval\<close> into the buffer. It is entered with between one and
  eight free bits in the current byte; with none the shift by 32 would be undefined.
\<close>

function appendEncodedComp :: "u32 \<Rightarrow> nat \<Rightarrow> nat \<Rightarrow> nat \<Rightarrow> byte list \<Rightarrow> byte list outcome" where
  "appendEncodedComp eval bits byteIndex bitsAvailable data =
    (if bitsAvailable = 0 then Inl Undefined else
     let bitsToUse = (if bits < bitsAvailable then bits else bitsAvailable);
         byte = ucast (drop_bit (32 - bitsAvailable) (eval AND theValueMasks ! bitsToUse))
     in bindE (rd data byteIndex) (\<lambda>old.
        bindE (wr data byteIndex (old OR byte)) (\<lambda>data'.
          if bits - bitsToUse > 0
          then appendEncodedComp (push_bit bitsToUse eval) (bits - bitsToUse)
                 (Suc byteIndex) 8 data'
          else Inr data')))"
  by pat_completeness auto
termination
  by (relation "measure (\<lambda>(eval, bits, byteIndex, bitsAvailable, data). bits)")
    (auto split: if_splits)

declare appendEncodedComp.simps [simp del]

text \<open>
  The part \<open>pushComp\<close> and \<open>appendComp\<close> have in common: write the code of \<open>value\<close> at bit position
  \<open>8 * byteIndex + (8 - bitsAvailable)\<close>, in two pieces when it has more than 32 bits.
\<close>

definition writeComp ::
  "int \<Rightarrow> nat \<times> u32 \<times> u64 \<Rightarrow> nat \<Rightarrow> nat \<Rightarrow> byte list \<Rightarrow> byte list outcome" where
  "writeComp value = (\<lambda>(bits, eval, eval2) byteIndex bitsAvailable data.
    (if eval2 \<noteq> 0 then
       let hi = ucast (drop_bit 32 eval2); lo = ucast eval2 in
       if value \<ge> 0 then
         bindE (appendEncodedComp hi 9 byteIndex bitsAvailable data) (\<lambda>data.
           let byteIndex = byteIndex + 1; bitsAvailable = bitsAvailable - 1 in
           if bitsAvailable = 0
           then appendEncodedComp lo 32 (byteIndex + 1) 8 data
           else appendEncodedComp lo 32 byteIndex bitsAvailable data)
       else
         bindE (appendEncodedComp hi 10 byteIndex bitsAvailable data) (\<lambda>data.
           if bitsAvailable \<le> 2
           then appendEncodedComp lo 32 (byteIndex + 2) (bitsAvailable + 6) data
           else appendEncodedComp lo 32 (byteIndex + 1) (bitsAvailable - 2) data)
     else appendEncodedComp eval bits byteIndex bitsAvailable data))"

definition pushComp ::
  "byte list \<Rightarrow> nat \<Rightarrow> int \<Rightarrow> nat \<Rightarrow> (bool \<times> byte list \<times> nat) outcome" where
  "pushComp data maxBitLen value bitLen =
    (let code = bitsNeeded value;
         bits = fst code;
         byteIndex = bitLen div 8;
         bitsAvailable = 8 - bitLen mod 8;
         bytesNeeded = byteIndex + (bits + 15 - bitsAvailable) div 8
     in if bytesNeeded > MAX_BYTE_LEN then Inl NODEID_ERROR
        else if bitLen + bits > maxBitLen then Inr (False, data, bitLen)
        else bindE (writeComp value code byteIndex bitsAvailable data) (\<lambda>data'.
               Inr (True, data', bitLen + bits)))"


section \<open>Compressing a dewey id\<close>

fun pushComps :: "byte list \<Rightarrow> nat \<Rightarrow> int list \<Rightarrow> nat \<Rightarrow> (bool \<times> byte list \<times> nat) outcome" where
  "pushComps data maxBitLen [] bitLen = Inr (True, data, bitLen)"
| "pushComps data maxBitLen (v # dewey) bitLen =
    bindE (pushComp data maxBitLen v bitLen) (\<lambda>(success, data', bitLen').
      if success then pushComps data' maxBitLen dewey bitLen' else Inr (False, data', bitLen'))"

definition compressLocal :: "int list \<Rightarrow> (bool \<times> ordpath) outcome" where
  "compressLocal dewey =
    bindE (pushComps reset MAX_EMBEDDED_BIT_LEN dewey 0) (\<lambda>(success, data, bitLen).
      Inr (success, Local data))"

definition compressRemote :: "int list \<Rightarrow> ordpath outcome" where
  "compressRemote dewey =
    bindE (pushComps (replicate MAX_BYTE_LEN 0) MAX_BIT_LEN dewey 0) (\<lambda>(success, databuf, bitLen).
      if \<not> success then Inl Assertion
      else Inr (Remote (take ((bitLen + 7) div 8) databuf)))"

definition compress :: "int list \<Rightarrow> ordpath outcome" where
  "compress dewey =
    bindE (compressLocal dewey) (\<lambda>(success, p). if success then Inr p else compressRemote dewey)"


section \<open>Lengths\<close>

fun scanLength :: "byte list \<Rightarrow> nat \<Rightarrow> nat" where
  "scanLength l 0 = 0"
| "scanLength l (Suc i) = (if l ! i \<noteq> 0 then Suc i else scanLength l i)"

definition getLocalByteLength :: "byte list \<Rightarrow> nat" where
  "getLocalByteLength l =
    (if l ! MAX_EMBEDDED_BYTE \<noteq> 1 then MAX_EMBEDDED_BYTE_LEN else scanLength l MAX_EMBEDDED_BYTE)"

text \<open>
  The loop that drops the zero bits at the end of the last byte. In an embedded id a byte that
  becomes zero fails an assertion; in a remote one the loop would not end.
\<close>

function trimBits :: "zerr \<Rightarrow> byte \<Rightarrow> nat \<Rightarrow> nat outcome" where
  "trimBits stuck lastByte bitLen =
    (if lastByte AND 1 \<noteq> 0 then Inr bitLen
     else let lastByte' = drop_bit 1 lastByte in
       if lastByte' = 0 then Inl stuck else trimBits stuck lastByte' (bitLen - 1))"
  by pat_completeness auto
termination
  by (relation "measure (\<lambda>(stuck, lastByte, bitLen). unat lastByte)")
    (auto simp: unat_drop_bit_1_less)

declare trimBits.simps [simp del]

definition getLocalBitLength :: "byte list \<Rightarrow> nat outcome" where
  "getLocalBitLength l =
    (let byteLen = getLocalByteLength l in
     if byteLen = 0 then Inr 0
     else let lastByte = l ! (byteLen - 1);
              lastByte = (if byteLen = MAX_EMBEDDED_BYTE_LEN then lastByte AND 0xFE else lastByte)
          in trimBits Assertion lastByte (byteLen * 8))"

definition getRemoteBitLength :: "byte list \<Rightarrow> nat outcome" where
  "getRemoteBitLength d =
    (let byteLen = length d in
     if byteLen = 0 then Inr 0 else trimBits Diverges (d ! (byteLen - 1)) (byteLen * 8))"

fun getBitLength :: "ordpath \<Rightarrow> nat outcome" where
  "getBitLength (Local l) = getLocalBitLength l"
| "getBitLength (Remote d) = getRemoteBitLength d"


section \<open>Appending a component\<close>

definition appendComp :: "ordpath \<Rightarrow> int \<Rightarrow> ordpath outcome" where
  "appendComp p value =
    bindE (getBitLength p) (\<lambda>bitLen.
      let code = bitsNeeded value;
          bits = fst code;
          byteIndex = bitLen div 8;
          bitsAvailable = 8 - bitLen mod 8;
          bytesNeeded = byteIndex + (bits + 15 - bitsAvailable) div 8
      in if bytesNeeded > MAX_BYTE_LEN then Inl NODEID_ERROR
         else case p of
           Local l \<Rightarrow>
             if bitLen + bits \<le> MAX_EMBEDDED_BIT_LEN
             then bindE (writeComp value code byteIndex bitsAvailable l) (\<lambda>l'. Inr (Local l'))
             else let byteLen = getLocalByteLength l;
                      data = take byteLen (markRemote l) @ replicate (bytesNeeded - byteLen) 0
                  in bindE (writeComp value code byteIndex bitsAvailable data) (\<lambda>d'. Inr (Remote d'))
         | Remote d \<Rightarrow>
             if bitLen + bits \<le> MAX_EMBEDDED_BIT_LEN
             then Inl Undefined \<comment> \<open>the code would write over the pointer; a remote id is longer\<close>
             else let data = (if bytesNeeded > length d
                         then d @ replicate (bytesNeeded - length d) 0 else d)
             in bindE (writeComp value code byteIndex bitsAvailable data) (\<lambda>d'. Inr (Remote d')))"

section \<open>The code of a component\<close>

text \<open>The first bits of a left-aligned 32-bit code, most significant first.\<close>

definition top_bits :: "nat \<Rightarrow> u32 \<Rightarrow> bool list" where
  "top_bits n e = map (\<lambda>i. bit e (31 - i)) [0..<n]"

lemma top_bits_code:
  assumes "p + n \<le> 32" "0 \<le> d" "nat d < 2 ^ n" "P < 2 ^ p"
  shows "top_bits (p + n) (drop_bit p (push_bit (32 - n) (word_of_int d)) OR push_bit (32 - p) (of_nat P))
    = nat_bits p P @ nat_bits n (nat d)"
proof (rule nth_equalityI)
  fix i assume "i < length (top_bits (p + n) (drop_bit p (push_bit (32 - n) (word_of_int d)) OR push_bit (32 - p) (of_nat P)))"
  then have i: "i < p + n" by (simp add: top_bits_def)
  show "top_bits (p + n) (drop_bit p (push_bit (32 - n) (word_of_int d)) OR push_bit (32 - p) (of_nat P)) ! i
    = (nat_bits p P @ nat_bits n (nat d)) ! i"
    using i assms
    by (auto simp: top_bits_def nth_append bits_simps bit_simps bit_word_of_int_iff bit_nat_iff add.commute [of n p])
qed (simp add: top_bits_def)

lemma small_codes: "list_all (\<lambda>v. case bitsNeeded v of (n, e, e2) \<Rightarrow> e2 = 0 \<and> n \<le> 32 \<and> comp_bits v = top_bits n e) [- 31..31]"
  by (simp add: bitsNeeded_def comp_bits_def class_bits_def comp_class_cases top_bits_def theNegV2LMap_def theNegV2EVMap_def
    thePosV2LMap_def thePosV2EVMap_def upto.simps upt_rec DEFAULT_FAN_OUT_def nat_bits_numeral)

lemma length_top_bits [simp]: "length (top_bits n e) = n"
  by (simp add: top_bits_def)

lemma top_bits_32: "0 \<le> d \<Longrightarrow> d < 2 ^ 32 \<Longrightarrow> top_bits 32 (word_of_int d) = nat_bits 32 (nat d)"
  by (rule nth_equalityI) (auto simp: top_bits_def nth_nat_bits bit_word_of_int_iff bit_nat_iff)

lemma wide_code:
  fixes x :: u32
  assumes "0 \<le> d" "d < 2 ^ 32" "x \<noteq> 0"
  defines "e2 \<equiv> push_bit 32 (ucast x) OR word_of_int d :: u64"
  shows "e2 \<noteq> 0" "(ucast e2 :: u32) = word_of_int d" "(ucast (drop_bit 32 e2) :: u32) = x"
proof -
  have high: "\<not> bit d n" if "32 \<le> n" for n
  proof -
    have "take_bit 32 d = d" using assms(1,2) by (simp add: take_bit_int_eq_self)
    then show ?thesis using that by (metis bit_take_bit_iff leD)
  qed
  show lo: "(ucast e2 :: u32) = word_of_int d"
    by (rule bit_word_eqI) (auto simp: e2_def bit_simps bit_word_of_int_iff)
  show hi: "(ucast (drop_bit 32 e2) :: u32) = x"
    by (rule bit_word_eqI) (auto simp: e2_def bit_simps bit_word_of_int_iff high)
  show "e2 \<noteq> 0" using hi assms(3) by auto
qed

lemma bitsNeeded_small:
  assumes "- 31 \<le> v" "v \<le> 31" "bitsNeeded v = (n, e, e2)"
  shows "e2 = 0" "comp_bits v = top_bits n e" "n \<le> 32"
proof -
  have "v \<in> set [- 31..31]" using assms(1,2) unfolding set_upto by (simp only: atLeastAtMost_iff)
  then have "case bitsNeeded v of (n, e, e2) \<Rightarrow> e2 = 0 \<and> n \<le> 32 \<and> comp_bits v = top_bits n e"
    by (rule bspec [OF small_codes [unfolded list_all_iff]])
  with assms(3) show "e2 = 0" "comp_bits v = top_bits n e" "n \<le> 32" by simp_all
qed

lemma bitsNeeded_mid:
  assumes "v < - 31 \<or> 31 < v" "- 1118484 \<le> v" "v < 1118488" "comp_class v = (p, c, k, b)"
  shows "bitsNeeded v = (p + k, drop_bit p (push_bit (32 - k) (word_of_int (v - b)))
           OR push_bit (32 - p) (of_nat c), 0)" "p + k \<le> 32" "c < 2 ^ p"
  using assms
  by (auto simp: bitsNeeded_def comp_class_cases DEFAULT_FAN_OUT_def add.commute split: if_splits)

lemma bitsNeeded_wide:
  assumes "comp_int32 v" "v < - 1118484 \<or> 1118488 \<le> v" "bitsNeeded v = (n, e, e2)"
  shows "e2 \<noteq> 0"
    and "comp_bits v = top_bits (if 0 \<le> v then 9 else 10) (ucast (drop_bit 32 e2))
            @ top_bits 32 (ucast e2)" and "n = (if 0 \<le> v then 41 else 42)"
proof -
  let ?x = "if 0 \<le> v then 0xFF000000 else 0x00400000 :: u32"
  let ?d = "if 0 \<le> v then v - 1118488 else INT32_MAX + v"
  have d: "0 \<le> ?d" "?d < 2 ^ 32"
    using assms(1,2) by (auto simp: comp_int32_def INT32_MAX_def)
  have b: "n = (if 0 \<le> v then 41 else 42)" "e2 = push_bit 32 (ucast ?x) OR word_of_int ?d"
    using assms(2,3) by (auto simp: bitsNeeded_def DEFAULT_FAN_OUT_def split: if_splits)
  note w = wide_code [OF d, of ?x, folded b(2)]
  show "e2 \<noteq> 0" using w(1) by (simp split: if_splits)
  show "n = (if 0 \<le> v then 41 else 42)" by (rule b(1))
  have "comp_bits v = top_bits (if 0 \<le> v then 9 else 10) ?x @ nat_bits 32 (nat ?d)"
    using assms(1,2)
    by (auto simp: comp_bits_def class_bits_def comp_class_cases comp_int32_def INT32_MAX_def add.commute)
      (simp_all add: top_bits_def nat_bits_numeral upt_rec)
  then show "comp_bits v = top_bits (if 0 \<le> v then 9 else 10) (ucast (drop_bit 32 e2))
            @ top_bits 32 (ucast e2)"
    using w(2,3) top_bits_32 [OF d] by simp
qed

lemma bitsNeeded_spec:
  assumes "comp_int32 v" "bitsNeeded v = (n, e, e2)"
  shows "n = length (comp_bits v)"
    and "e2 = 0 \<Longrightarrow> comp_bits v = top_bits n e \<and> n \<le> 32"
    and "e2 \<noteq> 0 \<Longrightarrow> comp_bits v = top_bits (if 0 \<le> v then 9 else 10) (ucast (drop_bit 32 e2))
            @ top_bits 32 (ucast e2)"
proof -
  consider "- 31 \<le> v" "v \<le> 31" | "v < - 31 \<or> 31 < v" "- 1118484 \<le> v" "v < 1118488"
    | "v < - 1118484 \<or> 1118488 \<le> v" by linarith
  then have "n = length (comp_bits v) \<and> (e2 = 0 \<longrightarrow> comp_bits v = top_bits n e \<and> n \<le> 32)
    \<and> (e2 \<noteq> 0 \<longrightarrow> comp_bits v = top_bits (if 0 \<le> v then 9 else 10) (ucast (drop_bit 32 e2))
            @ top_bits 32 (ucast e2))"
  proof cases
    case 1
    from bitsNeeded_small [OF this assms(2)] show ?thesis by simp
  next
    case 2
    obtain p c k b where c: "comp_class v = (p, c, k, b)" by (metis prod_cases4)
    have "comp_bits v = top_bits n e \<and> n \<le> 32 \<and> e2 = 0"
      using bitsNeeded_mid [OF 2 c] comp_class_bounds [OF assms(1) c] assms(2)
        top_bits_code [of p k "v - b" c] c
      by (simp add: comp_bits_def class_bits_def)
    then show ?thesis by simp
  next
    case 3
    from bitsNeeded_wide [OF assms(1) 3 assms(2)] show ?thesis by simp
  qed
  then show "n = length (comp_bits v)" "e2 = 0 \<Longrightarrow> comp_bits v = top_bits n e \<and> n \<le> 32"
    "e2 \<noteq> 0 \<Longrightarrow> comp_bits v = top_bits (if 0 \<le> v then 9 else 10) (ucast (drop_bit 32 e2))
            @ top_bits 32 (ucast e2)" by blast+
qed

section \<open>Writing bits\<close>

lemma theValueMasks_bit:
  "u \<le> 8 \<Longrightarrow> bit (theValueMasks ! u) k = (32 - u \<le> k \<and> k < 32)"
proof -
  have eq: "theValueMasks = map (\<lambda>u. push_bit (32 - u) (mask u)) [0..<9]"
    by (simp add: theValueMasks_def upt_rec mask_eq_exp_minus_1)
  assume "u \<le> 8"
  then have "theValueMasks ! u = push_bit (32 - u) (mask u)"
    unfolding eq by (simp del: upt_Suc)
  then show ?thesis by (auto simp: bit_simps)
qed

lemma append_byte_bit:
  assumes "1 \<le> av" "av \<le> 8" "u \<le> av" "k < 8"
  shows "bit (ucast (drop_bit (32 - av) (e AND theValueMasks ! u)) :: byte) (7 - k)
     = (8 - av \<le> k \<and> k < 8 - av + u \<and> bit e (31 - (k - (8 - av))))"
proof (cases "8 - av \<le> k")
  case True
  define m where "m = k - (8 - av)"
  have m: "32 - av + (7 - k) = 31 - m" "m < 32" "7 - k < 8" "k < 8 - av + u \<longleftrightarrow> m < u"
    using assms True by (auto simp: m_def)
  have "32 - u \<le> 31 - m \<longleftrightarrow> m < u" using m(2) assms(2,3) by linarith
  with True m show ?thesis
    using theValueMasks_bit [of u "31 - m"] assms(2,3)
    by (auto simp: bit_unsigned_iff bit_drop_bit_eq bit_and_iff m_def [symmetric])
next
  case False
  then have "32 \<le> 32 - av + (7 - k)" using assms by linarith
  then have "\<not> bit e (32 - av + (7 - k))" using bit_imp_le_length [of e] by fastforce
  with False show ?thesis by (simp add: bit_unsigned_iff bit_drop_bit_eq bit_and_iff)
qed

text \<open>One byte: the first \<open>u\<close> bits of the code go to the low bits of the byte.\<close>

lemma append_one_byte:
  assumes av: "1 \<le> av" "av \<le> 8" "u \<le> av" and bi: "bi < length d"
  shows "buf_bit (d[bi := d ! bi OR ucast (drop_bit (32 - av) (e AND theValueMasks ! u))]) i = (buf_bit d i \<or>
      (8 * bi + (8 - av) \<le> i \<and> i < 8 * bi + (8 - av) + u \<and> bit e (31 - (i - (8 * bi + (8 - av))))))"
proof (cases "i div 8 = bi")
  case True
  define k where "k = i mod 8"
  have k: "k < 8" "i = 8 * bi + k" using True by (auto simp: k_def)
  have "bit (ucast (drop_bit (32 - av) (e AND theValueMasks ! u)) :: byte) (7 - k) = (8 - av \<le> k \<and> k < 8 - av + u \<and> bit e (31 - (k - (8 - av))))"
    using av k(1) by (rule append_byte_bit)
  then show ?thesis unfolding buf_bit_or [OF bi] k_def [symmetric] using True by (simp add: k(2))
next
  case False
  have "i = 8 * (i div 8) + i mod 8" "i mod 8 < 8" by simp_all
  with False av have "\<not> (8 * bi + (8 - av) \<le> i \<and> i < 8 * bi + (8 - av) + u)" by linarith
  with False show ?thesis unfolding buf_bit_or [OF bi] by blast
qed

text \<open>The bits after the first byte are those of the shifted code.\<close>

lemma append_next_bits:
  fixes e :: u32
  assumes av: "1 \<le> av" "av \<le> 8" "av < n" "n \<le> 32"
  shows "(8 * bi + (8 - av) \<le> i \<and> i < 8 * bi + (8 - av) + av \<and> bit e (31 - (i - (8 * bi + (8 - av))))
      \<or> 8 * Suc bi \<le> i \<and> i < 8 * Suc bi + (n - av) \<and> bit (push_bit av e) (31 - (i - 8 * Suc bi)))
    \<longleftrightarrow> 8 * bi + (8 - av) \<le> i \<and> i < 8 * bi + (8 - av) + n \<and> bit e (31 - (i - (8 * bi + (8 - av))))"
proof (cases "8 * Suc bi \<le> i")
  case True
  then obtain j where i: "i = 8 * Suc bi + j" by (metis le_Suc_ex)
  have shift: "bit (push_bit av e) (31 - j) = bit e (31 - (j + av))" if "j < n - av"
  proof -
    have "31 - (j + av) = 31 - j - av" "av \<le> 31 - j" "31 - j < 32" using that av(4) by auto
    then show ?thesis by (simp add: bit_push_bit_iff bit_imp_le_length)
  qed
  have pos: "i - (8 * bi + (8 - av)) = j + av" "8 * bi + (8 - av) \<le> i" "i < 8 * bi + (8 - av) + n \<longleftrightarrow> j < n - av" "\<not> i < 8 * bi + (8 - av) + av"
    "i - 8 * Suc bi = j" "i < 8 * Suc bi + (n - av) \<longleftrightarrow> j < n - av" using i av by auto
  show ?thesis unfolding pos(1,3,5,6) using True pos(2,4) shift by blast
next
  case False
  then show ?thesis using av by auto
qed

lemma append_spec:
  assumes "1 \<le> av" "av \<le> 8" "n \<le> 32" "8 * bi + (8 - av) + n \<le> 8 * length d" "0 < n"
  shows "\<exists>d'. appendEncodedComp e n bi av d = Inr d' \<and> length d' = length d
     \<and> (\<forall>i. buf_bit d' i = (buf_bit d i \<or>
            (8 * bi + (8 - av) \<le> i \<and> i < 8 * bi + (8 - av) + n
             \<and> bit e (31 - (i - (8 * bi + (8 - av)))))))"
  using assms
proof (induction e n bi av d rule: appendEncodedComp.induct)
  case (1 e n bi av d)
  define u where "u = (if n < av then n else av)"
  define b where "b = (ucast (drop_bit (32 - av) (e AND theValueMasks ! u)) :: byte)"
  define d1 where "d1 = d[bi := d ! bi OR b]"
  have bi: "bi < length d" using "1.prems" by linarith
  have u: "u \<le> av" "0 < u" "u \<le> n" using "1.prems" by (auto simp: u_def)
  note d1 = append_one_byte [OF "1.prems"(1,2) u(1) bi, of e, folded b_def, folded d1_def]
  have step: "appendEncodedComp e n bi av d = (if n - u > 0 then appendEncodedComp (push_bit u e) (n - u) (Suc bi) 8 d1 else Inr d1)"
    using "1.prems"(1) bi unfolding appendEncodedComp.simps [of e n bi av d] by (simp add: u_def b_def d1_def Let_def)
  show ?case
  proof (cases "n - u > 0")
    case False
    with u have "n = u" by simp
    with False step d1 show ?thesis by (auto simp: d1_def)
  next
    case True
    then have uav: "u = av" "av < n" by (simp_all add: u_def split: if_splits)
    have "\<exists>d'. appendEncodedComp (push_bit u e) (n - u) (Suc bi) 8 d1 = Inr d' \<and> length d' = length d1
     \<and> (\<forall>i. buf_bit d' i = (buf_bit d1 i \<or> (8 * Suc bi + (8 - 8) \<le> i \<and> i < 8 * Suc bi + (8 - 8) + (n - u)
             \<and> bit (push_bit u e) (31 - (i - (8 * Suc bi + (8 - 8)))))))"
      by (rule "1.IH" [OF _ u_def b_def]) (use "1.prems" True bi u uav in \<open>auto simp: d1_def\<close>)
    then obtain d' where d': "appendEncodedComp (push_bit u e) (n - u) (Suc bi) 8 d1 = Inr d'" "length d' = length d1"
      "\<And>i. buf_bit d' i = (buf_bit d1 i \<or> (8 * Suc bi \<le> i \<and> i < 8 * Suc bi + (n - u) \<and> bit (push_bit u e) (31 - (i - 8 * Suc bi))))" by auto
    have "buf_bit d' i = (buf_bit d i \<or> (8 * bi + (8 - av) \<le> i \<and> i < 8 * bi + (8 - av) + n \<and> bit e (31 - (i - (8 * bi + (8 - av))))))" for i
      unfolding d'(3) d1 uav(1) append_next_bits [OF "1.prems"(1,2) uav(2) "1.prems"(3), of bi i e, symmetric] by blast
    with d' step True show ?thesis by (auto simp: d1_def)
  qed
qed

text \<open>
  \<open>bits_written d d' s bs\<close>: the buffer \<open>d'\<close> is \<open>d\<close> with the bits \<open>bs\<close> or-ed in at position \<open>s\<close>.
\<close>

definition bits_written :: "byte list \<Rightarrow> byte list \<Rightarrow> nat \<Rightarrow> bool list \<Rightarrow> bool" where
  "bits_written d d' s bs \<longleftrightarrow> length d' = length d
     \<and> (\<forall>i. buf_bit d' i = (buf_bit d i \<or> (s \<le> i \<and> i < s + length bs \<and> bs ! (i - s))))"

lemma bits_written_append:
  assumes "bits_written d d1 s xs" "bits_written d1 d2 (s + length xs) ys"
  shows "bits_written d d2 s (xs @ ys)"
proof -
  have "buf_bit d2 i = (buf_bit d i \<or>
      (s \<le> i \<and> i < s + length (xs @ ys) \<and> (xs @ ys) ! (i - s)))" for i
  proof (cases "i < s + length xs")
    case True
    then have "s \<le> i \<Longrightarrow> (xs @ ys) ! (i - s) = xs ! (i - s)" by (simp add: nth_append less_diff_conv2)
    with True assms show ?thesis unfolding bits_written_def by force
  next
    case False
    then have "(xs @ ys) ! (i - s) = ys ! (i - (s + length xs))" "s \<le> i" "s + length xs \<le> i"
      by (auto simp: nth_append)
    with False assms show ?thesis unfolding bits_written_def by force
  qed
  with assms show ?thesis by (simp add: bits_written_def)
qed

lemma append_written:
  assumes "1 \<le> av" "av \<le> 8" "n \<le> 32" "s = 8 * bi + (8 - av)" "s + n \<le> 8 * length d" "0 < n"
  shows "\<exists>d'. appendEncodedComp e n bi av d = Inr d' \<and> bits_written d d' s (top_bits n e)"
  using append_spec [of av n bi d e] assms by (auto simp: bits_written_def top_bits_def)

lemma div8: "s = 8 * q + r \<Longrightarrow> r < 8 \<Longrightarrow> s div 8 = q \<and> s mod 8 = (r :: nat)"
  by simp

text \<open>A code of more than 32 bits is written in two parts, the second where the first ends.\<close>

lemma writeComp_two:
  fixes e2 :: u64
  defines "hi \<equiv> (ucast (drop_bit 32 e2) :: u32)" and "lo \<equiv> (ucast e2 :: u32)"
  assumes b: "bitsNeeded v = (n, e, e2)" "e2 \<noteq> 0" and av: "1 \<le> av" "av \<le> 8" and m: "m = (if 0 \<le> v then 9 else 10)" and s: "s = 8 * bi + (8 - av)"
    and d1: "appendEncodedComp hi m bi av d = Inr d1"
  shows "writeComp v (bitsNeeded v) bi av d = appendEncodedComp lo 32 ((s + m) div 8) (8 - (s + m) mod 8) d1"
proof -
  consider (Last) "0 \<le> v" "av = 1" | (Pos) "0 \<le> v" "av \<noteq> 1" | (Two) "v < 0" "av \<le> 2" | (Neg) "v < 0" "2 < av" by linarith
  then show ?thesis
  proof cases
    case Last
    then show ?thesis using d1 s b by (simp add: writeComp_def hi_def lo_def m)
  next
    case Pos
    then have "s + m = 8 * (bi + 1) + (9 - av)" "9 - av < 8" using av s by (auto simp: m)
    from div8 [OF this] Pos av have "(s + m) div 8 = bi + 1" "8 - (s + m) mod 8 = av - 1" by auto
    then show ?thesis using Pos b d1 av(1) by (simp add: writeComp_def hi_def lo_def m Let_def)
  next
    case Two
    then have "s + m = 8 * (bi + 2) + (2 - av)" "2 - av < 8" using av s by (auto simp: m)
    from div8 [OF this] Two av have "(s + m) div 8 = bi + 2" "8 - (s + m) mod 8 = av + 6" by auto
    then show ?thesis using Two b d1 by (simp add: writeComp_def hi_def lo_def m Let_def)
  next
    case Neg
    then have "s + m = 8 * (bi + 1) + (10 - av)" "10 - av < 8" using av s by (auto simp: m)
    from div8 [OF this] Neg av have "(s + m) div 8 = bi + 1" "8 - (s + m) mod 8 = av - 2" by auto
    then show ?thesis using Neg b d1 by (simp add: writeComp_def hi_def lo_def m Let_def)
  qed
qed

lemma writeComp_spec:
  assumes "comp_int32 v" "1 \<le> av" "av \<le> 8" "s = 8 * bi + (8 - av)"
    and "s + length (comp_bits v) \<le> 8 * length d"
  shows "\<exists>d'. writeComp v (bitsNeeded v) bi av d = Inr d' \<and> bits_written d d' s (comp_bits v)"
proof -
  obtain n e e2 where b: "bitsNeeded v = (n, e, e2)" by (metis prod_cases3)
  note spec = bitsNeeded_spec [OF assms(1) b]
  show ?thesis
  proof (cases "e2 = 0")
    case True
    with spec(1,2) assms append_written [of av n s bi d e] length_comp_bits_ge [of v]
    show ?thesis by (auto simp: b writeComp_def)
  next
    case False
    define m :: nat where "m = (if 0 \<le> v then 9 else 10)"
    define hi where "hi = (ucast (drop_bit 32 e2) :: u32)"
    define lo where "lo = (ucast e2 :: u32)"
    have m: "m \<le> 32" "0 < m" by (auto simp: m_def)
    have c: "comp_bits v = top_bits m hi @ top_bits 32 lo" using spec(3) [OF False] by (simp add: m_def hi_def lo_def)
    with assms(5) have len: "s + m + 32 \<le> 8 * length d" by simp
    then obtain d1 where d1: "appendEncodedComp hi m bi av d = Inr d1" "bits_written d d1 s (top_bits m hi)"
      using append_written [OF assms(2,3) _ assms(4), of m d hi] m by auto
    have pos: "1 \<le> 8 - (s + m) mod 8" "8 - (s + m) mod 8 \<le> 8" "s + m = 8 * ((s + m) div 8) + (8 - (8 - (s + m) mod 8))" by auto
    obtain d2 where d2: "appendEncodedComp lo 32 ((s + m) div 8) (8 - (s + m) mod 8) d1 = Inr d2" "bits_written d1 d2 (s + m) (top_bits 32 lo)"
      using append_written [OF pos(1,2) _ pos(3), of 32 d1 lo] len d1(2) by (auto simp: bits_written_def)
    from writeComp_two [OF b False assms(2,3) m_def assms(4) d1(1) [unfolded hi_def]] d2 d1 bits_written_append [OF d1(2)] show ?thesis by (simp add: c lo_def)
  qed
qed

section \<open>Pushing components\<close>

lemma bytesNeeded_eq:
  fixes bitLen n :: nat
  shows "bitLen div 8 + (n + 15 - (8 - bitLen mod 8)) div 8 = (bitLen + n + 7) div 8"
proof -
  have "bitLen + n + 7 = 8 * (bitLen div 8) + (n + 15 - (8 - bitLen mod 8))"
    using mod_less_divisor [of 8 bitLen] mult_div_mod_eq [of 8 bitLen] by linarith
  then show ?thesis by (metis div_mult_self4 zero_neq_numeral)
qed

lemma fst_bitsNeeded: "comp_int32 v \<Longrightarrow> fst (bitsNeeded v) = length (comp_bits v)"
  by (cases "bitsNeeded v") (simp add: bitsNeeded_spec(1))

lemma pushComp_cases:
  assumes "comp_int32 v"
  shows "pushComp d maxBits v k =
    (if k + length (comp_bits v) > 2040 then Inl NODEID_ERROR
     else if k + length (comp_bits v) > maxBits then Inr (False, d, k)
     else bindE (writeComp v (bitsNeeded v) (k div 8) (8 - k mod 8) d) (\<lambda>d'.
            Inr (True, d', k + length (comp_bits v))))"
proof -
  have "MAX_BYTE_LEN < (k + length (comp_bits v) + 7) div 8 \<longleftrightarrow> k + length (comp_bits v) > 2040"
    by (simp add: MAX_BYTE_LEN_def) linarith
  then show ?thesis
    unfolding pushComp_def Let_def fst_bitsNeeded [OF assms] bytesNeeded_eq by simp
qed

lemma pushComp_written:
  assumes "comp_int32 v" "k + length (comp_bits v) \<le> maxBits" "k + length (comp_bits v) \<le> 2040"
    and "k + length (comp_bits v) \<le> 8 * length d"
  shows "\<exists>d'. pushComp d maxBits v k = Inr (True, d', k + length (comp_bits v))
           \<and> bits_written d d' k (comp_bits v)"
proof -
  have "1 \<le> 8 - k mod 8" "8 - k mod 8 \<le> 8" "k = 8 * (k div 8) + (8 - (8 - k mod 8))" by auto
  from writeComp_spec [OF assms(1) this assms(4)] show ?thesis
    using assms by (auto simp: pushComp_cases)
qed

lemma bits_written_Nil [simp]: "bits_written d d k []"
  by (auto simp: bits_written_def)

lemma bits_written_length: "bits_written d d' k bs \<Longrightarrow> length d' = length d"
  by (simp add: bits_written_def)

lemma pushComps_written:
  assumes "list_all comp_int32 ds" "k + length (dewey_bits ds) \<le> maxBits"
    and "k + length (dewey_bits ds) \<le> 2040" "k + length (dewey_bits ds) \<le> 8 * length d"
  shows "\<exists>d'. pushComps d maxBits ds k = Inr (True, d', k + length (dewey_bits ds))
           \<and> bits_written d d' k (dewey_bits ds)"
  using assms
proof (induction ds arbitrary: d k)
  case (Cons v ds)
  then obtain d1 where d1: "pushComp d maxBits v k = Inr (True, d1, k + length (comp_bits v))"
    "bits_written d d1 k (comp_bits v)"
    using pushComp_written [of v k maxBits d] by auto
  with Cons obtain d2 where
    "pushComps d1 maxBits ds (k + length (comp_bits v)) = Inr (True, d2, k + length (dewey_bits (v # ds)))"
    "bits_written d1 d2 (k + length (comp_bits v)) (dewey_bits ds)"
    using bits_written_length [OF d1(2)] Cons.IH [of "k + length (comp_bits v)" d1] by (auto simp: add.assoc)
  with d1 bits_written_append [OF d1(2)] show ?case by (simp add: add.assoc)
qed simp

lemma length_comp_bits_le: "length (comp_bits v) \<le> 42"
  by (auto simp: length_comp_bits comp_class_cases)

lemma pushComps_full:
  assumes "list_all comp_int32 ds" "k \<le> maxBits" "maxBits + 42 \<le> 2040" "maxBits < k + length (dewey_bits ds)"
    "maxBits \<le> 8 * length d"
  shows "\<exists>d' k'. pushComps d maxBits ds k = Inr (False, d', k')"
  using assms
proof (induction ds arbitrary: d k)
  case (Cons v ds)
  show ?case
  proof (cases "k + length (comp_bits v) > maxBits")
    case True
    with Cons.prems length_comp_bits_le [of v] show ?thesis by (simp add: pushComp_cases)
  next
    case False
    then obtain d1 where "pushComp d maxBits v k = Inr (True, d1, k + length (comp_bits v))"
      "bits_written d d1 k (comp_bits v)"
      using pushComp_written [of v k maxBits d] Cons.prems by auto
    with False Cons show ?thesis using bits_written_length by (simp add: add.assoc)
  qed
qed simp

lemma pushComps_too_long:
  assumes "list_all comp_int32 ds" "k \<le> 2040" "2040 < k + length (dewey_bits ds)" "2040 \<le> 8 * length d"
  shows "pushComps d 2040 ds k = Inl NODEID_ERROR"
  using assms
proof (induction ds arbitrary: d k)
  case (Cons v ds)
  show ?case
  proof (cases "k + length (comp_bits v) > 2040")
    case True
    with Cons.prems show ?thesis by (simp add: pushComp_cases)
  next
    case False
    then obtain d1 where "pushComp d 2040 v k = Inr (True, d1, k + length (comp_bits v))"
      "bits_written d d1 k (comp_bits v)"
      using pushComp_written [of v k 2040 d] Cons.prems by auto
    with False Cons show ?thesis using bits_written_length by (simp add: add.assoc)
  qed
qed simp

section \<open>What an id holds\<close>

text \<open>
  An embedded id holds at most 63 bits, padded with zeros, and the mark; a remote id holds at least
  64 bits in the least number of bytes. A bit string has at most one such id (\<open>holds_unique\<close>).
\<close>

definition marked :: "byte list \<Rightarrow> bool list \<Rightarrow> bool" where
  "marked l bs \<longleftrightarrow> length l = 8 \<and> length bs \<le> 63
     \<and> (\<forall>i < 64. buf_bit l i = (i < length bs \<and> bs ! i \<or> i = 63))"

fun holds :: "ordpath \<Rightarrow> bool list \<Rightarrow> bool" where
  "holds (Local l) bs \<longleftrightarrow> marked l bs"
| "holds (Remote d) bs \<longleftrightarrow> 64 \<le> length bs \<and> length bs \<le> 2040
     \<and> length d = (length bs + 7) div 8 \<and> padded d bs"

lemma reset_eq: "reset = [0, 0, 0, 0, 0, 0, 0, 1]"
  by (simp add: reset_def markLocal_def ordpath_consts numeral_eq_Suc)

lemma marked_reset: "marked reset []"
proof -
  have "list_all (\<lambda>i. buf_bit reset i = (i = 63)) [0..<64]"
    by (simp add: reset_eq buf_bit_def upt_rec)
  then show ?thesis by (simp add: marked_def list_all_iff reset_eq)
qed

lemma marked_written:
  assumes "marked l bs" "bits_written l l' (length bs) cs" "length bs + length cs \<le> 63"
  shows "marked l' (bs @ cs)"
  using assms by (auto simp: marked_def bits_written_def nth_append)

lemma padded_zeros: "padded (replicate n 0) []"
  by (auto simp: padded_def buf_bit_def)

lemma padded_written:
  assumes "padded d bs" "bits_written d d' (length bs) cs" "length bs + length cs \<le> 8 * length d"
  shows "padded d' (bs @ cs)"
proof (rule paddedI)
  fix i
  show "buf_bit d' i = (i < length (bs @ cs) \<and> (bs @ cs) ! i)"
    using assms padded_bit [OF assms(1), of i] by (auto simp: bits_written_def nth_append)
qed (use assms in \<open>simp add: bits_written_def\<close>)

lemma padded_take:
  assumes "padded d bs" "n \<le> length d" "length bs \<le> 8 * n"
  shows "padded (take n d) bs"
proof (rule paddedI)
  fix i
  have "i < 8 * n \<Longrightarrow> i div 8 < n" by linarith
  then have "buf_bit (take n d) i = (i < 8 * n \<and> buf_bit d i)"
    using assms(2) by (auto simp: buf_bit_def)
  then show "buf_bit (take n d) i = (i < length bs \<and> bs ! i)"
    using assms by (auto simp: padded_bit)
qed (use assms in simp)

theorem compress_holds:
  assumes "list_all comp_int32 ds" "length (dewey_bits ds) \<le> MAX_BIT_LEN"
  shows "\<exists>p. compress ds = Inr p \<and> holds p (dewey_bits ds)"
proof (cases "length (dewey_bits ds) \<le> 63")
  case True
  then obtain d where "pushComps reset 63 ds 0 = Inr (True, d, length (dewey_bits ds))"
    "bits_written reset d 0 (dewey_bits ds)"
    using pushComps_written [of ds 0 63 reset] assms by (auto simp: reset_eq)
  with marked_written [OF marked_reset, of d "dewey_bits ds"] True show ?thesis
    by (simp add: compress_def compressLocal_def ordpath_consts)
next
  case False
  let ?n = "length (dewey_bits ds)"
  obtain d k where f: "pushComps reset 63 ds 0 = Inr (False, d, k)"
    using pushComps_full [of ds 0 63 reset] False assms by (auto simp: reset_eq)
  from assms obtain d' where d': "pushComps (replicate 255 0) 2040 ds 0 = Inr (True, d', ?n)"
    "bits_written (replicate 255 0) d' 0 (dewey_bits ds)"
    using pushComps_written [of ds 0 2040 "replicate 255 0"] by (auto simp: ordpath_consts)
  have len: "length d' = 255" using bits_written_length [OF d'(2)] by simp
  have "padded d' (dewey_bits ds)"
    using padded_written [OF padded_zeros, of 255 d' "dewey_bits ds"] d'(2) assms
    by (simp add: ordpath_consts)
  then have "padded (take ((?n + 7) div 8) d') (dewey_bits ds)"
    using assms len by (intro padded_take) (auto simp: ordpath_consts)
  with f d'(1) False assms len show ?thesis
    by (simp add: compress_def compressLocal_def compressRemote_def ordpath_consts)
qed

theorem compress_too_long:
  assumes "list_all comp_int32 ds" "MAX_BIT_LEN < length (dewey_bits ds)"
  shows "compress ds = Inl NODEID_ERROR"
proof -
  obtain d k where f: "pushComps reset 63 ds 0 = Inr (False, d, k)"
    using pushComps_full [of ds 0 63 reset] assms by (auto simp: reset_eq ordpath_consts)
  moreover have "pushComps (replicate 255 0) 2040 ds 0 = Inl NODEID_ERROR"
    using pushComps_too_long [of ds 0 "replicate 255 0"] assms by (simp add: ordpath_consts)
  ultimately show ?thesis
    by (simp add: compress_def compressLocal_def compressRemote_def ordpath_consts)
qed

section \<open>Reading the length back\<close>

lemma trimBits_spec:
  assumes "bit b t" "\<And>j. j < t \<Longrightarrow> \<not> bit b j"
  shows "trimBits stuck b n = Inr (n - t)"
  using assms
proof (induction t arbitrary: b n)
  case 0
  then have "b AND 1 \<noteq> 0" by (metis bit_0_eq bit_1_iff bit_and_iff bot_apply bot_bool_def)
  then show ?case by (simp add: trimBits.simps)
next
  case (Suc t)
  have "b AND 1 = 0"
  proof (rule bit_word_eqI)
    show "bit (b AND 1) n = bit 0 n" for n
      using Suc.prems(2) [of 0] by (cases "n = 0") (simp_all add: bit_simps)
  qed
  moreover have b': "bit (drop_bit 1 b) t" "\<And>j. j < t \<Longrightarrow> \<not> bit (drop_bit 1 b) j"
    using Suc.prems by (auto simp: bit_drop_bit_eq)
  moreover from b'(1) have "drop_bit 1 b \<noteq> 0" by (metis bit_0_eq bot_apply bot_bool_def)
  ultimately show ?case
    using Suc.IH [of "drop_bit 1 b" "n - 1"] by (subst trimBits.simps) simp
qed

text \<open>The position of the last set bit of a buffer gives its bit length.\<close>

lemma trimBits_last:
  assumes "n = 8 * q + r" "1 \<le> r" "r \<le> 8" "bit b (8 - r)"
    and "\<And>j. j < 8 - r \<Longrightarrow> \<not> bit b j"
  shows "trimBits stuck b (8 * Suc q) = Inr n"
  using trimBits_spec [OF assms(4,5), of stuck "8 * Suc q"] assms(1-3) by simp

lemma last_byte_bits:
  assumes "n = 8 * q + r" "1 \<le> r" "r \<le> 8" "q < length d"
    and last: "buf_bit d (n - 1)" and zero: "\<And>i. n \<le> i \<Longrightarrow> i < 8 * Suc q \<Longrightarrow> \<not> buf_bit d i"
  shows "bit (d ! q) (8 - r)" "\<And>j. j < 8 - r \<Longrightarrow> \<not> bit (d ! q) j"
proof -
  have "n - 1 = 8 * q + (r - 1)" "r - 1 < 8" "7 - (r - 1) = 8 - r" using assms(1-3) by auto
  with buf_bit_byte [of "r - 1" q d] last assms(4) show "bit (d ! q) (8 - r)" by simp
  fix j assume j: "j < 8 - r"
  then have "7 - j < 8" "7 - (7 - j) = j" "n \<le> 8 * q + (7 - j)" "8 * q + (7 - j) < 8 * Suc q"
    using assms(1) by auto
  with buf_bit_byte [of "7 - j" q d] zero [of "8 * q + (7 - j)"] assms(4) show "\<not> bit (d ! q) j"
    by simp
qed

lemma split_length: "0 < (n :: nat) \<Longrightarrow> \<exists>q r. n = 8 * q + r \<and> 1 \<le> r \<and> r \<le> 8 \<and> (n + 7) div 8 = Suc q"
  by (intro exI [of _ "(n - 1) div 8"] exI [of _ "(n - 1) mod 8 + 1"]) auto

lemma getRemoteBitLength_spec:
  assumes "padded d bs" "length d = (length bs + 7) div 8" "bs \<noteq> []" "last bs"
  shows "getRemoteBitLength d = Inr (length bs)"
proof -
  obtain q r where q: "length bs = 8 * q + r" "1 \<le> r" "r \<le> 8" "(length bs + 7) div 8 = Suc q"
    using split_length [of "length bs"] assms(3) by auto
  have "buf_bit d (length bs - 1)"
    using assms(3,4) padded_bit [OF assms(1)] by (simp add: last_conv_nth)
  with last_byte_bits [OF q(1-3)] q(4) assms(1,2) trimBits_last [OF q(1-3), of "d ! q"]
  show ?thesis by (simp add: getRemoteBitLength_def padded_bit Let_def mult.commute)
qed

lemma scanLength_spec:
  assumes "q < n" "n \<le> length l" "l ! q \<noteq> 0" "\<And>i. q < i \<Longrightarrow> i < n \<Longrightarrow> l ! i = 0"
  shows "scanLength l n = Suc q"
  using assms
proof (induction n)
  case (Suc n)
  then show ?case by (cases "q = n") auto
qed simp

lemma getLocalByteLength_spec:
  assumes "marked l bs" "bs \<noteq> []" "last bs"
  shows "getLocalByteLength l = (length bs + 7) div 8"
proof -
  obtain q r where q: "length bs = 8 * q + r" "1 \<le> r" "r \<le> 8" "(length bs + 7) div 8 = Suc q"
    using split_length [of "length bs"] assms(2) by auto
  have len: "length l = 8" and b: "\<And>i. i < 64 \<Longrightarrow> buf_bit l i = (i < length bs \<and> bs ! i \<or> i = 63)"
    and le: "length bs \<le> 63"
    using assms(1) by (auto simp: marked_def)
  have lastb: "buf_bit l (length bs - 1)"
    using b [of "length bs - 1"] le assms(2,3) by (simp add: last_conv_nth)
  have one: "l ! 7 = 1 \<longleftrightarrow> (\<forall>k < 7. \<not> buf_bit l (56 + k))"
  proof
    assume "l ! 7 = 1"
    then show "\<forall>k < 7. \<not> buf_bit l (56 + k)"
      using buf_bit_byte [of _ 7 l] len by (auto simp: bit_1_iff)
  next
    assume z: "\<forall>k < 7. \<not> buf_bit l (56 + k)"
    have top: "bit (l ! 7) 0" using byte_bit_buf [of 7 l 0] b [of 63] len by simp
    have rest: "\<not> bit (l ! 7) n" if "0 < n" "n < 8" for n
      using z [rule_format, of "7 - n"] that byte_bit_buf [of 7 l n] len by simp
    show "l ! 7 = 1"
    proof (rule bit_word_eqI)
      fix n assume "n < LENGTH(8)"
      then have "n < 8" by simp
      then show "bit (l ! 7) n = bit (1 :: byte) n"
        using top rest by (cases "n = 0") (simp_all add: bit_1_iff)
    qed
  qed
  show ?thesis
  proof (cases "q = 7")
    case True
    then have "l ! 7 \<noteq> 1" using one lastb q le by (auto intro!: exI [of _ "r - 1"])
    with True q show ?thesis by (simp add: getLocalByteLength_def ordpath_consts)
  next
    case False
    then have "l ! 7 = 1" unfolding one using q le b by auto
    moreover have "l ! q \<noteq> 0"
    proof -
      have "length bs - 1 = 8 * q + (r - 1)" "r - 1 < 8" using q by auto
      with lastb show ?thesis using byte_zero_iff [of q l] len q le by auto
    qed
    moreover have "l ! i = 0" if "q < i" "i < 7" for i
      using that byte_zero_iff [of i l] len q b by auto
    ultimately show ?thesis
      using scanLength_spec [of q 7 l] len q le False
      by (simp add: getLocalByteLength_def ordpath_consts)
  qed
qed

lemma padded_markRemote:
  assumes "marked l bs" shows "padded (markRemote l) bs"
proof (rule paddedI)
  have len: "length l = 8" and b: "\<And>i. i < 64 \<Longrightarrow> buf_bit l i = (i < length bs \<and> bs ! i \<or> i = 63)"
    and le: "length bs \<le> 63"
    using assms by (auto simp: marked_def)
  have fe: "bit (0xFE :: byte) k \<longleftrightarrow> 1 \<le> k \<and> k < 8" for k
  proof -
    have "list_all (\<lambda>k. bit (0xFE :: byte) k = (1 \<le> k)) [0..<8]" by (simp add: upt_rec)
    then show ?thesis using bit_imp_le_length [of "0xFE :: byte" k] by (auto simp: list_all_iff)
  qed
  show "length bs \<le> 8 * length (markRemote l)" using len le by (simp add: markRemote_def)
  fix i
  have *: "buf_bit (markRemote l) i = (buf_bit l i \<and> (i div 8 = 7 \<longrightarrow> i mod 8 \<noteq> 7))"
  proof -
    have "bit (0xFE :: byte) (7 - i mod 8) \<longleftrightarrow> i mod 8 \<noteq> 7"
      unfolding fe using mod_less_divisor [of 8 i] by linarith
    then show ?thesis
      using buf_bit_and [of 7 l "0xFE" i] len by (simp add: markRemote_def ordpath_consts)
  qed
  show "buf_bit (markRemote l) i = (i < length bs \<and> bs ! i)"
  proof (cases "i < 64")
    case True
    moreover have "i div 8 = 7 \<and> i mod 8 = 7 \<longleftrightarrow> i = 63" by presburger
    ultimately show ?thesis unfolding * using b [OF True] le by auto
  next
    case False
    with len le show ?thesis by (simp add: markRemote_def)
  qed
qed

lemma getLocalBitLength_spec:
  assumes "marked l bs" "bs \<noteq> []" "last bs"
  shows "getLocalBitLength l = Inr (length bs)"
proof -
  obtain q r where q: "length bs = 8 * q + r" "1 \<le> r" "r \<le> 8" "(length bs + 7) div 8 = Suc q"
    using split_length [of "length bs"] assms(2) by auto
  have p: "padded (markRemote l) bs" using assms(1) by (rule padded_markRemote)
  have len: "length l = 8" "q < 8" using assms(1) q by (auto simp: marked_def)
  let ?b = "if Suc q = 8 then l ! q AND 0xFE else l ! q"
  have "?b = markRemote l ! q" using len by (auto simp: markRemote_def ordpath_consts)
  moreover have "buf_bit (markRemote l) (length bs - 1)"
    using assms(2,3) padded_bit [OF p] by (simp add: last_conv_nth)
  moreover have "q < length (markRemote l)" using len by (simp add: markRemote_def)
  ultimately have "bit ?b (8 - r)" "\<And>j. j < 8 - r \<Longrightarrow> \<not> bit ?b j"
    using last_byte_bits [OF q(1-3), of "markRemote l"] padded_bit [OF p] by auto
  with trimBits_last [OF q(1-3), of ?b Assertion] show ?thesis
    using getLocalByteLength_spec [OF assms] q(4)
    by (simp add: getLocalBitLength_def ordpath_consts Let_def mult.commute)
qed

lemma getBitLength_spec:
  assumes "holds p bs" "bs \<noteq> []" "last bs"
  shows "getBitLength p = Inr (length bs)"
  using assms by (cases p) (simp_all add: getLocalBitLength_spec getRemoteBitLength_spec)

section \<open>Appending in place\<close>

lemma padded_append_zeros: "padded d bs \<Longrightarrow> padded (d @ replicate n 0) bs"
proof (rule paddedI)
  assume p: "padded d bs"
  then show "length bs \<le> 8 * length (d @ replicate n 0)" using padded_length by fastforce
  fix i
  have "i < 8 * length d \<longleftrightarrow> i div 8 < length d" by linarith
  then have "buf_bit (d @ replicate n 0) i = buf_bit d i"
    by (auto simp: buf_bit_def nth_append)
  with padded_bit [OF p] show "buf_bit (d @ replicate n 0) i = (i < length bs \<and> bs ! i)" by simp
qed

text \<open>What \<open>appendComp\<close> does with an id that holds \<open>k\<close> bits and a component of \<open>n\<close> bits.\<close>

lemma appendComp_eq:
  assumes bs: "holds p bs" "bs \<noteq> []" "last bs" and v: "comp_int32 v" and k: "k = length bs" and n: "n = length (comp_bits v)"
  shows "appendComp p v =
    (if k + n > 2040 then Inl NODEID_ERROR else case p of
       Local l \<Rightarrow>
         if k + n \<le> 63 then bindE (writeComp v (bitsNeeded v) (k div 8) (8 - k mod 8) l) (\<lambda>l'. Inr (Local l'))
         else bindE (writeComp v (bitsNeeded v) (k div 8) (8 - k mod 8)
               (take (getLocalByteLength l) (markRemote l) @ replicate ((k + n + 7) div 8 - getLocalByteLength l) 0)) (\<lambda>d'. Inr (Remote d'))
     | Remote d \<Rightarrow>
         if k + n \<le> 63 then Inl Undefined
         else bindE (writeComp v (bitsNeeded v) (k div 8) (8 - k mod 8)
               (if (k + n + 7) div 8 > length d then d @ replicate ((k + n + 7) div 8 - length d) 0 else d)) (\<lambda>d'. Inr (Remote d')))"
proof -
  have big: "MAX_BYTE_LEN < (k + n + 7) div 8 \<longleftrightarrow> k + n > 2040" by (simp add: MAX_BYTE_LEN_def) linarith
  show ?thesis unfolding appendComp_def getBitLength_spec [OF bs] k [symmetric] bindE_simps Let_def fst_bitsNeeded [OF v] n [symmetric] bytesNeeded_eq big
    by (cases p) (simp_all add: ordpath_consts)
qed

theorem appendComp_holds:
  assumes "holds p (dewey_bits ds)" "dewey_ok ds" "comp_int32 v"
  shows "if length (dewey_bits (ds @ [v])) \<le> MAX_BIT_LEN
         then \<exists>q. appendComp p v = Inr q \<and> holds q (dewey_bits (ds @ [v]))
         else appendComp p v = Inl NODEID_ERROR"
proof -
  define bs where "bs = dewey_bits ds"
  define n where "n = length (comp_bits v)"
  have bs: "holds p bs" "bs \<noteq> []" "last bs" using assms(1,2) dewey_bits_last by (auto simp: bs_def)
  define k where "k = length bs"
  have pos: "1 \<le> 8 - k mod 8" "8 - k mod 8 \<le> 8" "k = 8 * (k div 8) + (8 - (8 - k mod 8))" by auto
  note w = writeComp_spec [OF assms(3) pos, folded n_def]
  note app = appendComp_eq [OF bs assms(3) k_def n_def]
  have total: "dewey_bits (ds @ [v]) = bs @ comp_bits v" by (simp add: bs_def)
  show ?thesis
  proof (cases "k + n > 2040")
    case True
    then show ?thesis using app by (simp add: bs_def [symmetric] k_def n_def ordpath_consts)
  next
    case False
    have "\<exists>q. appendComp p v = Inr q \<and> holds q (bs @ comp_bits v)"
    proof (cases p)
      case (Local l)
      with bs have l: "marked l bs" "length l = 8" by (auto simp: marked_def)
      show ?thesis
      proof (cases "k + n \<le> 63")
        case True
        with w [of l] l(2) obtain l' where l': "bits_written l l' k (comp_bits v)"
          "writeComp v (bitsNeeded v) (k div 8) (8 - k mod 8) l = Inr l'" by auto
        with True marked_written [OF l(1), of l' "comp_bits v"] app False Local
        show ?thesis by (simp add: k_def n_def)
      next
        case rem: False
        let ?d = "take (getLocalByteLength l) (markRemote l)
                    @ replicate ((k + n + 7) div 8 - getLocalByteLength l) 0"
        have gl: "getLocalByteLength l = (k + 7) div 8"
          using getLocalByteLength_spec [OF l(1) bs(2,3)] by (simp add: k_def)
        have k63: "k \<le> 63" using l(1) by (simp add: marked_def k_def)
        have "length ?d = (k + n + 7) div 8"
          using gl k63 l(2) rem by (simp add: markRemote_def min_def) linarith
        moreover have "padded ?d bs"
          using padded_take [OF padded_markRemote [OF l(1)], of "(k + 7) div 8"] gl k63 l(2)
          by (auto simp: markRemote_def k_def intro!: padded_append_zeros)
        ultimately show ?thesis
          using w [of ?d] padded_written [of ?d bs _ "comp_bits v"] app False Local rem
          by (fastforce simp: k_def n_def bits_written_def)
      qed
    next
      case (Remote d)
      with bs have d: "padded d bs" "length d = (k + 7) div 8" "64 \<le> k" by (auto simp: k_def)
      let ?d = "if (k + n + 7) div 8 > length d then d @ replicate ((k + n + 7) div 8 - length d) 0 else d"
      have "(k + 7) div 8 \<le> (k + n + 7) div 8" by (rule div_le_mono) simp
      then have "length ?d = (k + n + 7) div 8" using d(2) by simp
      moreover have "padded ?d bs" using d(1) by (simp add: padded_append_zeros)
      ultimately show ?thesis
        using w [of ?d] padded_written [of ?d bs _ "comp_bits v"] app False Remote d(3)
        by (fastforce simp: k_def n_def bits_written_def)
    qed
    with False show ?thesis by (simp add: bs_def [symmetric] k_def n_def ordpath_consts)
  qed
qed

lemma holds_unique: "holds p bs \<Longrightarrow> holds q bs \<Longrightarrow> p = q"
proof (cases p; cases q)
  fix l l' assume "holds p bs" "holds q bs" "p = Local l" "q = Local l'"
  then have "l = l'" by (intro buf_eqI) (auto simp: marked_def buf_bit_def)
  with \<open>p = Local l\<close> \<open>q = Local l'\<close> show ?thesis by simp
next
  fix d d' assume "holds p bs" "holds q bs" "p = Remote d" "q = Remote d'"
  then have "d = d'" by (intro buf_eqI) (auto simp: padded_bit)
  with \<open>p = Remote d\<close> \<open>q = Remote d'\<close> show ?thesis by simp
qed (auto simp: marked_def)


section \<open>Properties\<close>

text \<open>What the simplifier needs to evaluate the encoder on a given id.\<close>

lemmas encode_eval = compress_def compressLocal_def compressRemote_def pushComp_def writeComp_def
  bitsNeeded_def reset_eq appendEncodedComp.simps thePosV2LMap_def thePosV2EVMap_def theNegV2LMap_def
  theNegV2EVMap_def theValueMasks_def rd_def wr_def INT32_MAX_def ordpath_consts

text \<open>
  C16: \<open>compress\<close> is total on lists of 32-bit components: when the reference code of the id has at
  most 255 bytes the result holds exactly those bits (embedded when at most 63, remote otherwise),
  and in every other case the result is the error \<open>ZSTR0030\<close>.
\<close>

theorem compress_spec:
  assumes "list_all comp_int32 ds"
  shows "if length (dewey_bits ds) \<le> MAX_BIT_LEN
         then \<exists>p. compress ds = Inr p \<and> holds p (dewey_bits ds)
         else compress ds = Inl NODEID_ERROR"
  using compress_holds [OF assms] compress_too_long [OF assms] by simp

theorem compress_spec_witness:
  "compress [1, 2, 3] = Inr (Local [0x65, 0, 0, 0, 0, 0, 0, 1])
    \<and> (\<exists>p. compress [1, 2, 3] = Inr p \<and> holds p (dewey_bits [1, 2, 3]))"
proof -
  have "length (dewey_bits [1, 2, 3]) \<le> MAX_BIT_LEN"
    by (simp add: length_comp_bits comp_class_cases ordpath_consts)
  moreover have "list_all comp_int32 [1, 2, 3]" by (simp add: comp_int32_def INT32_MAX_def)
  ultimately have "\<exists>p. compress [1, 2, 3] = Inr p \<and> holds p (dewey_bits [1, 2, 3])"
    using compress_spec [of "[1, 2, 3]"] by (simp only: if_True)
  moreover have "compress [1, 2, 3] = Inr (Local [0x65, 0, 0, 0, 0, 0, 0, 1])"
    by (simp add: encode_eval)
  ultimately show ?thesis by simp
qed

text \<open>
  C18: Appending a component in place, whatever the representation before and after, gives the
  same id as compressing the longer list of components, and fails when that fails.
\<close>

theorem appendComp_compress:
  assumes "dewey_ok ds" "comp_int32 v" "compress ds = Inr p"
  shows "appendComp p v = compress (ds @ [v])"
proof -
  have ds: "list_all comp_int32 ds" using assms(1) by (rule dewey_ok_int32)
  have all: "list_all comp_int32 (ds @ [v])" using ds assms(2) by simp
  have "length (dewey_bits ds) \<le> MAX_BIT_LEN"
    using compress_too_long [OF ds] assms(3) by fastforce
  with compress_holds [OF ds] assms(3) have "holds p (dewey_bits ds)" by auto
  note app = appendComp_holds [OF this assms(1,2)]
  show ?thesis
  proof (cases "length (dewey_bits (ds @ [v])) \<le> MAX_BIT_LEN")
    case True
    with app compress_holds [OF all True] holds_unique show ?thesis by (metis (no_types))
  next
    case False
    with app compress_too_long [OF all] show ?thesis by simp
  qed
qed

theorem appendComp_compress_witness:
  "appendComp (Local [0x45, 0, 0, 0, 0, 0, 0, 1]) 7 = compress ([1, - 3] @ [7])
    \<and> compress ([1, - 3] @ [7]) = Inr (Local [0x45, 0xD8, 0, 0, 0, 0, 0, 1])"
proof -
  have "compress [1, - 3] = Inr (Local [0x45, 0, 0, 0, 0, 0, 0, 1])" by (simp add: encode_eval)
  moreover have "dewey_ok [1, - 3]" "comp_int32 7"
    by (simp_all add: dewey_ok_def comp_ok_def comp_int32_def INT32_MAX_def)
  moreover have "compress ([1, - 3] @ [7]) = Inr (Local [0x45, 0xD8, 0, 0, 0, 0, 0, 1])"
    by (simp add: encode_eval)
  ultimately show ?thesis using appendComp_compress [of "[1, - 3]" 7] by simp
qed

text \<open>
  C26: The bit length read back from a compressed id is the length of its code, so the end of
  an id is found again although no length is stored.
\<close>

theorem getBitLength_compress:
  assumes "dewey_ok ds" "compress ds = Inr p"
  shows "getBitLength p = Inr (length (dewey_bits ds))"
proof -
  have ds: "list_all comp_int32 ds" using assms(1) by (rule dewey_ok_int32)
  have "length (dewey_bits ds) \<le> MAX_BIT_LEN"
    using compress_too_long [OF ds] assms(2) by fastforce
  with compress_holds [OF ds] assms(2) have "holds p (dewey_bits ds)" by auto
  with dewey_bits_last [OF assms(1)] show ?thesis by (auto intro: getBitLength_spec)
qed

theorem getBitLength_compress_witness:
  "getBitLength (Local [0x65, 0, 0, 0, 0, 0, 0, 1]) = Inr (length (dewey_bits [1, 2, 3]))"
proof -
  have "compress [1, 2, 3] = Inr (Local [0x65, 0, 0, 0, 0, 0, 0, 1])" by (simp add: encode_eval)
  moreover have "dewey_ok [1, 2, 3]" by (simp add: dewey_ok_def comp_ok_def INT32_MAX_def)
  ultimately show ?thesis using getBitLength_compress [of "[1, 2, 3]"] by simp
qed

end
