(* ===== verification/OrdPath_Decode.thy ===== *)
theory OrdPath_Decode
  imports OrdPath_Encode
begin

text \<open>
  Reading node ids back: \<open>decodeByte\<close>, \<open>extractValue\<close> and \<open>decompress\<close> of \<open>store/naive/ordpath.cpp\<close>.
  \<open>decodeByte\<close> looks at the next eight bits and handles each of the 256 values in a \<open>case\<close> of its
  own; the bodies are straight-line code of six kinds of statements, which the model keeps as data
  (\<open>case_stmt\<close>), one list per \<open>case\<close> and in the order of the source, and executes (\<open>exec_stmt\<close>). The
  lemmas compare every body with the reference code and lift the comparison to whole ids.
\<close>

section \<open>State of the decoder\<close>

text \<open>
  The reference parameters of \<open>decodeByte\<close>. The two output arrays are functions on their index; a
  write at an index that is not below the capacity of the arrays is undefined behaviour.
\<close>

record decoder =
  d_bitLen :: nat
  d_byteIndex :: nat
  d_bitIndex :: nat
  d_deweyid :: "nat \<Rightarrow> int"
  d_compOffsets :: "nat \<Rightarrow> nat"
  d_numComps :: nat

definition theByteMasks :: "(byte \<times> byte) list" where
  "theByteMasks = [(0xff, 0x00), (0x7f, 0x80), (0x3f, 0xc0), (0x1f, 0xe0),
     (0x0f, 0xf0), (0x07, 0xf8), (0x03, 0xfc), (0x01, 0xfe)]"


section \<open>Extracting the data bits of a component\<close>

text \<open>The loop over whole bytes; \<open>result\<close> is the bit pattern of the \<open>int32_t\<close>.\<close>

fun extractBytes :: "byte list \<Rightarrow> nat \<Rightarrow> nat \<Rightarrow> u32 \<Rightarrow> u32 outcome" where
  "extractBytes data 0 byteIndex result = Inr result"
| "extractBytes data (Suc numBytes) byteIndex result =
    bindE (rd data byteIndex) (\<lambda>byte.
      extractBytes data numBytes (Suc byteIndex) (push_bit 8 result OR ucast byte))"

text \<open>\<open>result += baseValue\<close> on \<open>int32_t\<close>: overflow is undefined behaviour.\<close>

definition addBase :: "u32 \<Rightarrow> int \<Rightarrow> int outcome" where
  "addBase result baseValue =
    (let v = sint result + baseValue in
     if - (2 ^ 31) \<le> v \<and> v < 2 ^ 31 then Inr v else Inl Undefined)"

definition extractValue :: "byte list \<Rightarrow> nat \<Rightarrow> int \<Rightarrow> decoder \<Rightarrow> (int \<times> decoder) outcome" where
  "extractValue data numBits baseValue st =
    (let bitLen = d_bitLen st + numBits; byteIndex = d_byteIndex st; bitIndex = d_bitIndex st in
     if numBits < 8 - bitIndex then
       bindE (rd data byteIndex) (\<lambda>byte.
         let byte = drop_bit (8 - numBits) (push_bit bitIndex byte) in
         bindE (addBase (ucast byte) baseValue) (\<lambda>result.
           Inr (result, st\<lparr>d_bitLen := bitLen, d_bitIndex := bitIndex + numBits\<rparr>)))
     else
       bindE (rd data byteIndex) (\<lambda>byte.
         let result = ucast (byte AND fst (theByteMasks ! bitIndex));
             numBits = numBits - (8 - bitIndex);
             byteIndex = byteIndex + 1;
             numBytes = numBits div 8
         in bindE (extractBytes data numBytes byteIndex result) (\<lambda>result.
           let byteIndex = byteIndex + numBytes;
               numBits = numBits - numBytes * 8;
               st' = st\<lparr>d_bitLen := bitLen, d_byteIndex := byteIndex, d_bitIndex := numBits\<rparr>
           in if numBits > 0 then
             bindE (rd data byteIndex) (\<lambda>byte.
               let byte = drop_bit (8 - numBits) (byte AND snd (theByteMasks ! numBits));
                   result = push_bit numBits result OR ucast byte
               in bindE (addBase result baseValue) (\<lambda>result. Inr (result, st')))
           else bindE (addBase result baseValue) (\<lambda>result. Inr (result, st')))))"


section \<open>The statements of the cases\<close>

text \<open>
  \<open>CompOffset i k\<close> is \<open>compOffsets[numComps + i] = bitLen + k\<close>, \<open>DeweyId i v\<close> is
  \<open>deweyid[numComps + i] = v\<close>, \<open>ADVANCE n\<close> the macro, \<open>ExtractValue n base i\<close> the call
  \<open>extractValue(..., n, base, deweyid[numComps + i])\<close>, \<open>NumComps n\<close> is \<open>numComps += n\<close> and
  \<open>IncByteIndex\<close> is \<open>byteIndex++\<close>.
\<close>

datatype case_stmt =
    CompOffset nat nat
  | DeweyId nat int
  | ADVANCE nat
  | ExtractValue nat int nat
  | NumComps nat
  | IncByteIndex

definition setOffset :: "nat \<Rightarrow> nat \<Rightarrow> nat \<Rightarrow> decoder \<Rightarrow> decoder outcome" where
  "setOffset cap i v st =
    (if d_numComps st + i < cap
     then Inr (st\<lparr>d_compOffsets := (d_compOffsets st)(d_numComps st + i := v)\<rparr>) else Inl Undefined)"

definition setDewey :: "nat \<Rightarrow> nat \<Rightarrow> int \<Rightarrow> decoder \<Rightarrow> decoder outcome" where
  "setDewey cap i v st =
    (if d_numComps st + i < cap
     then Inr (st\<lparr>d_deweyid := (d_deweyid st)(d_numComps st + i := v)\<rparr>) else Inl Undefined)"

definition advance :: "nat \<Rightarrow> decoder \<Rightarrow> decoder" where
  "advance n st = st\<lparr>d_bitLen := d_bitLen st + n,
     d_byteIndex := d_byteIndex st + (d_bitIndex st + n) div 8,
     d_bitIndex := (d_bitIndex st + n) mod 8\<rparr>"

fun exec_stmt :: "nat \<Rightarrow> byte list \<Rightarrow> case_stmt \<Rightarrow> decoder \<Rightarrow> decoder outcome" where
  "exec_stmt cap data (CompOffset i k) st = setOffset cap i (d_bitLen st + k) st"
| "exec_stmt cap data (DeweyId i v) st = setDewey cap i v st"
| "exec_stmt cap data (ADVANCE n) st = Inr (advance n st)"
| "exec_stmt cap data (ExtractValue n base i) st =
    bindE (extractValue data n base st) (\<lambda>(v, st'). setDewey cap i v st')"
| "exec_stmt cap data (NumComps n) st = Inr (st\<lparr>d_numComps := d_numComps st + n\<rparr>)"
| "exec_stmt cap data IncByteIndex st = Inr (st\<lparr>d_byteIndex := d_byteIndex st + 1\<rparr>)"

fun exec :: "nat \<Rightarrow> byte list \<Rightarrow> case_stmt list \<Rightarrow> decoder \<Rightarrow> decoder outcome" where
  "exec cap data [] st = Inr st"
| "exec cap data (s # ss) st = bindE (exec_stmt cap data s st) (exec cap data ss)"


section \<open>The cases\<close>

text \<open>Case 0 is the only one with a test: the two lowest ranges start with eight zeros.\<close>

definition decodeCase0 :: "nat \<Rightarrow> byte list \<Rightarrow> decoder \<Rightarrow> decoder outcome" where
  "decodeCase0 cap data st =
    (let st = advance 9 st in
     bindE (rd data (d_byteIndex st)) (\<lambda>byte.
       if drop_bit (7 - d_bitIndex st) byte = 0
       then exec cap data [ADVANCE 1, ExtractValue 32 (- INT32_MAX) 0, NumComps 1] st
       else exec cap data [ExtractValue 20 (- 1118484) 0, NumComps 1] st))"

definition decodeCases_1_7 :: "case_stmt list list" where
  "decodeCases_1_7 = [
    [ADVANCE 8, ExtractValue 16 (- 69908) 0, NumComps 1],
    [ADVANCE 7, ExtractValue 12 (- 4372) 0, NumComps 1],
    [ADVANCE 7, ExtractValue 12 (- 4372) 0, NumComps 1],
    [ADVANCE 6, ExtractValue 8 (- 276) 0, NumComps 1],
    [ADVANCE 6, ExtractValue 8 (- 276) 0, NumComps 1],
    [ADVANCE 6, ExtractValue 8 (- 276) 0, NumComps 1],
    [ADVANCE 6, ExtractValue 8 (- 276) 0, NumComps 1]]"

definition decodeCases_8_15 :: "case_stmt list list" where
  "decodeCases_8_15 = [
    [ADVANCE 5, ExtractValue 4 (- 20) 0, NumComps 1],
    [ADVANCE 5, ExtractValue 4 (- 20) 0, NumComps 1],
    [ADVANCE 5, ExtractValue 4 (- 20) 0, NumComps 1],
    [ADVANCE 5, ExtractValue 4 (- 20) 0, NumComps 1],
    [ADVANCE 5, ExtractValue 4 (- 20) 0, NumComps 1],
    [ADVANCE 5, ExtractValue 4 (- 20) 0, NumComps 1],
    [ADVANCE 5, ExtractValue 4 (- 20) 0, NumComps 1],
    [ADVANCE 5, ExtractValue 4 (- 20) 0, NumComps 1]]"

definition decodeCases_16_23 :: "case_stmt list list" where
  "decodeCases_16_23 = [
    [DeweyId 0 (- 4), ADVANCE 6, NumComps 1],
    [DeweyId 0 (- 4), DeweyId 1 1, CompOffset 1 6, ADVANCE 8, NumComps 2],
    [CompOffset 1 6, DeweyId 0 (- 4), ADVANCE 8, ExtractValue 1 2 1, NumComps 2],
    [DeweyId 0 (- 4), ADVANCE 6, NumComps 1],
    [DeweyId 0 (- 3), ADVANCE 6, NumComps 1],
    [CompOffset 1 6, DeweyId 0 (- 3), DeweyId 1 1, ADVANCE 8, NumComps 2],
    [CompOffset 1 6, DeweyId 0 (- 3), ADVANCE 8, ExtractValue 1 2 1, NumComps 2],
    [DeweyId 0 (- 3), ADVANCE 6, NumComps 1]]"

definition decodeCases_24_31 :: "case_stmt list list" where
  "decodeCases_24_31 = [
    [DeweyId 0 (- 2), ADVANCE 6, NumComps 1],
    [CompOffset 1 6, DeweyId 0 (- 2), DeweyId 1 1, ADVANCE 8, NumComps 2],
    [CompOffset 1 6, DeweyId 0 (- 2), ADVANCE 8, ExtractValue 1 2 1, NumComps 2],
    [DeweyId 0 (- 2), ADVANCE 6, NumComps 1],
    [DeweyId 0 (- 1), ADVANCE 6, NumComps 1],
    [CompOffset 1 6, DeweyId 0 (- 1), DeweyId 1 1, ADVANCE 8, NumComps 2],
    [CompOffset 1 6, DeweyId 0 (- 1), ADVANCE 8, ExtractValue 1 2 1, NumComps 2],
    [DeweyId 0 (- 2), ADVANCE 6, NumComps 1]]"

definition decodeCases_32_39 :: "case_stmt list list" where
  "decodeCases_32_39 = [
    [DeweyId 0 0, ADVANCE 3, NumComps 1],
    [CompOffset 1 3, DeweyId 0 0, ADVANCE 8, ExtractValue 4 (- 20) 1, NumComps 2],
    [CompOffset 1 3, DeweyId 0 0, ADVANCE 7, ExtractValue 2 (- 4) 1, NumComps 2],
    [CompOffset 1 3, DeweyId 0 0, ADVANCE 7, ExtractValue 2 (- 4) 1, NumComps 2],
    [CompOffset 1 3, DeweyId 0 0, DeweyId 1 0, ADVANCE 6, NumComps 2],
    [CompOffset 1 3, DeweyId 0 0, DeweyId 1 0, ADVANCE 6, NumComps 2],
    [CompOffset 1 3, DeweyId 0 0, DeweyId 1 0, ADVANCE 6, NumComps 2],
    [CompOffset 1 3, DeweyId 0 0, DeweyId 1 0, ADVANCE 6, NumComps 2]]"

definition decodeCases_40_47 :: "case_stmt list list" where
  "decodeCases_40_47 = [
    [CompOffset 1 3, DeweyId 0 0, DeweyId 1 1, ADVANCE 5, NumComps 2],
    [CompOffset 1 3, CompOffset 2 5, DeweyId 0 0, DeweyId 1 1, DeweyId 2 0, ADVANCE 8, NumComps 3],
    [CompOffset 1 3, CompOffset 2 5, DeweyId 0 0, DeweyId 1 1, DeweyId 2 1, ADVANCE 7, NumComps 3],
    [CompOffset 1 3, CompOffset 2 5, DeweyId 0 0, DeweyId 1 1, DeweyId 2 1, ADVANCE 7, NumComps 3],
    [CompOffset 1 3, CompOffset 2 5, DeweyId 0 0, DeweyId 1 1, DeweyId 2 2, ADVANCE 8, NumComps 3],
    [CompOffset 1 3, CompOffset 2 5, DeweyId 0 0, DeweyId 1 1, DeweyId 2 3, ADVANCE 8, NumComps 3],
    [CompOffset 1 3, CompOffset 2 5, DeweyId 0 0, DeweyId 1 1, ADVANCE 8, ExtractValue 2 4 2, NumComps 3],
    [CompOffset 1 3, DeweyId 0 0, DeweyId 1 1, ADVANCE 5, NumComps 2]]"

definition decodeCases_48_55 :: "case_stmt list list" where
  "decodeCases_48_55 = [
    [CompOffset 1 3, DeweyId 0 0, DeweyId 1 2, ADVANCE 6, NumComps 2],
    [CompOffset 1 3, CompOffset 2 6, DeweyId 0 0, DeweyId 1 2, DeweyId 2 1, ADVANCE 8, NumComps 3],
    [CompOffset 1 3, CompOffset 2 6, DeweyId 0 0, DeweyId 1 2, ADVANCE 8, ExtractValue 1 2 2, NumComps 3],
    [CompOffset 1 3, DeweyId 0 0, DeweyId 1 2, ADVANCE 6, NumComps 2],
    [CompOffset 1 3, DeweyId 0 0, DeweyId 1 3, ADVANCE 6, NumComps 2],
    [CompOffset 1 3, CompOffset 2 6, DeweyId 0 0, DeweyId 1 3, DeweyId 2 1, ADVANCE 8, NumComps 3],
    [CompOffset 1 3, CompOffset 2 6, DeweyId 0 0, DeweyId 1 3, ADVANCE 8, ExtractValue 1 2 2, NumComps 3],
    [CompOffset 1 3, DeweyId 0 0, DeweyId 1 3, ADVANCE 6, NumComps 2]]"

definition decodeCases_56_63 :: "case_stmt list list" where
  "decodeCases_56_63 = [
    [CompOffset 1 3, DeweyId 0 0, DeweyId 1 4, ADVANCE 8, NumComps 2],
    [CompOffset 1 3, DeweyId 0 0, DeweyId 1 5, ADVANCE 8, NumComps 2],
    [CompOffset 1 3, DeweyId 0 0, DeweyId 1 6, ADVANCE 8, NumComps 2],
    [CompOffset 1 3, DeweyId 0 0, DeweyId 1 7, ADVANCE 8, NumComps 2],
    [CompOffset 1 3, DeweyId 0 0, ADVANCE 7, ExtractValue 4 8 1, NumComps 2],
    [CompOffset 1 3, DeweyId 0 0, ADVANCE 7, ExtractValue 4 8 1, NumComps 2],
    [CompOffset 1 3, DeweyId 0 0, ADVANCE 8, ExtractValue 8 24 1, NumComps 2],
    [DeweyId 0 0, ADVANCE 3, NumComps 1]]"

definition decodeCases_64_71 :: "case_stmt list list" where
  "decodeCases_64_71 = [
    [DeweyId 0 1, NumComps 1, ADVANCE 2],
    [CompOffset 1 2, DeweyId 0 1, ADVANCE 8, ExtractValue 8 (- 276) 1, NumComps 2],
    [CompOffset 1 2, DeweyId 0 1, ADVANCE 7, ExtractValue 4 (- 20) 1, NumComps 2],
    [CompOffset 1 2, DeweyId 0 1, ADVANCE 7, ExtractValue 4 (- 20) 1, NumComps 2],
    [CompOffset 1 2, DeweyId 0 1, DeweyId 1 (- 4), ADVANCE 8, NumComps 2],
    [CompOffset 1 2, DeweyId 0 1, DeweyId 1 (- 3), ADVANCE 8, NumComps 2],
    [CompOffset 1 2, DeweyId 0 1, DeweyId 1 (- 2), ADVANCE 8, NumComps 2],
    [CompOffset 1 2, DeweyId 0 1, DeweyId 1 (- 1), ADVANCE 8, NumComps 2]]"

definition decodeCases_72_79 :: "case_stmt list list" where
  "decodeCases_72_79 = [
    [CompOffset 1 2, DeweyId 0 1, DeweyId 1 0, ADVANCE 5, NumComps 2],
    [CompOffset 1 2, CompOffset 2 5, DeweyId 0 1, DeweyId 1 0, DeweyId 2 0, ADVANCE 8, NumComps 3],
    [CompOffset 1 2, CompOffset 2 5, DeweyId 0 1, DeweyId 1 0, DeweyId 2 1, ADVANCE 7, NumComps 3],
    [CompOffset 1 2, CompOffset 2 5, DeweyId 0 1, DeweyId 1 0, DeweyId 2 1, ADVANCE 7, NumComps 3],
    [CompOffset 1 2, CompOffset 2 5, DeweyId 0 1, DeweyId 1 0, DeweyId 2 2, ADVANCE 8, NumComps 3],
    [CompOffset 1 2, CompOffset 2 5, DeweyId 0 1, DeweyId 1 0, DeweyId 2 3, ADVANCE 8, NumComps 3],
    [CompOffset 1 2, CompOffset 2 5, DeweyId 0 1, DeweyId 1 0, ADVANCE 8, ExtractValue 2 4 2, NumComps 3],
    [CompOffset 1 2, CompOffset 2 5, DeweyId 0 1, DeweyId 1 0, ADVANCE 5, NumComps 2]]"

definition decodeCases_80_87 :: "case_stmt list list" where
  "decodeCases_80_87 = [
    [CompOffset 1 2, DeweyId 0 1, DeweyId 1 1, ADVANCE 4, NumComps 2],
    [CompOffset 1 2, CompOffset 2 4, DeweyId 0 1, DeweyId 1 1, ADVANCE 8, ExtractValue 2 (- 4) 2, NumComps 3],
    [CompOffset 1 2, CompOffset 2 4, DeweyId 0 1, DeweyId 1 1, DeweyId 2 0, ADVANCE 7, NumComps 3],
    [CompOffset 1 2, CompOffset 2 4, DeweyId 0 1, DeweyId 1 1, DeweyId 2 0, ADVANCE 7, NumComps 3],
    [CompOffset 1 2, CompOffset 2 4, DeweyId 0 1, DeweyId 1 1, DeweyId 2 1, NumComps 3, ADVANCE 6],
    [CompOffset 1 2, CompOffset 2 4, CompOffset 3 6, DeweyId 0 1, DeweyId 1 1, DeweyId 2 1, DeweyId 3 1, NumComps 4, IncByteIndex],
    [CompOffset 1 2, CompOffset 2 4, DeweyId 0 1, DeweyId 1 1, DeweyId 2 1, ADVANCE 8, ExtractValue 1 2 3, NumComps 3],
    [CompOffset 1 2, CompOffset 2 4, DeweyId 0 1, DeweyId 1 1, DeweyId 2 1, ADVANCE 6, NumComps 3]]"

definition decodeCases_88_95 :: "case_stmt list list" where
  "decodeCases_88_95 = [
    [CompOffset 1 2, CompOffset 2 4, DeweyId 0 1, DeweyId 1 1, DeweyId 2 2, ADVANCE 7, NumComps 3],
    [CompOffset 1 2, CompOffset 2 4, DeweyId 0 1, DeweyId 1 1, DeweyId 2 2, ADVANCE 7, NumComps 3],
    [CompOffset 1 2, CompOffset 2 4, DeweyId 0 1, DeweyId 1 1, DeweyId 2 3, ADVANCE 7, NumComps 3],
    [CompOffset 1 2, CompOffset 2 4, DeweyId 0 1, DeweyId 1 1, DeweyId 2 3, ADVANCE 7, NumComps 3],
    [CompOffset 1 2, CompOffset 2 4, DeweyId 0 1, DeweyId 1 1, ADVANCE 7, ExtractValue 2 4 2, NumComps 3],
    [CompOffset 1 2, CompOffset 2 4, DeweyId 0 1, DeweyId 1 1, ADVANCE 7, ExtractValue 2 4 2, NumComps 3],
    [CompOffset 1 2, CompOffset 2 4, DeweyId 0 1, DeweyId 1 1, ADVANCE 8, ExtractValue 4 8 2, NumComps 3],
    [CompOffset 1 2, DeweyId 0 1, DeweyId 1 1, ADVANCE 4, NumComps 2]]"

definition decodeCases_96_103 :: "case_stmt list list" where
  "decodeCases_96_103 = [
    [CompOffset 1 2, DeweyId 0 1, DeweyId 1 2, ADVANCE 5, NumComps 2],
    [CompOffset 1 2, CompOffset 2 5, DeweyId 0 1, DeweyId 1 2, DeweyId 2 0, ADVANCE 8, NumComps 3],
    [CompOffset 1 2, CompOffset 2 5, DeweyId 0 1, DeweyId 1 2, DeweyId 2 1, ADVANCE 7, NumComps 3],
    [CompOffset 1 2, CompOffset 2 5, DeweyId 0 1, DeweyId 1 2, DeweyId 2 1, ADVANCE 7, NumComps 3],
    [CompOffset 1 2, CompOffset 2 5, DeweyId 0 1, DeweyId 1 2, DeweyId 2 2, ADVANCE 8, NumComps 3],
    [CompOffset 1 2, CompOffset 2 5, DeweyId 0 1, DeweyId 1 2, DeweyId 2 3, ADVANCE 8, NumComps 3],
    [CompOffset 1 2, CompOffset 2 5, DeweyId 0 1, DeweyId 1 2, ADVANCE 8, ExtractValue 2 4 2, NumComps 3],
    [CompOffset 1 2, DeweyId 0 1, DeweyId 1 2, ADVANCE 5, NumComps 2]]"

definition decodeCases_104_111 :: "case_stmt list list" where
  "decodeCases_104_111 = [
    [CompOffset 1 2, DeweyId 0 1, DeweyId 1 3, ADVANCE 5, NumComps 2],
    [CompOffset 1 2, CompOffset 2 5, DeweyId 0 1, DeweyId 1 3, DeweyId 2 0, ADVANCE 8, NumComps 3],
    [CompOffset 1 2, CompOffset 2 5, DeweyId 0 1, DeweyId 1 3, DeweyId 2 1, ADVANCE 7, NumComps 3],
    [CompOffset 1 2, CompOffset 2 5, DeweyId 0 1, DeweyId 1 3, DeweyId 2 1, ADVANCE 7, NumComps 3],
    [CompOffset 1 2, CompOffset 2 5, DeweyId 0 1, DeweyId 1 3, DeweyId 2 2, ADVANCE 8, NumComps 3],
    [CompOffset 1 2, CompOffset 2 5, DeweyId 0 1, DeweyId 1 3, DeweyId 2 3, ADVANCE 8, NumComps 3],
    [CompOffset 1 2, CompOffset 2 5, DeweyId 0 1, DeweyId 1 3, ADVANCE 8, ExtractValue 2 4 2, NumComps 3],
    [CompOffset 1 2, DeweyId 0 1, DeweyId 1 3, ADVANCE 5, NumComps 2]]"

definition decodeCases_112_119 :: "case_stmt list list" where
  "decodeCases_112_119 = [
    [CompOffset 1 2, DeweyId 0 1, DeweyId 1 4, ADVANCE 7, NumComps 2],
    [CompOffset 1 2, DeweyId 0 1, DeweyId 1 4, ADVANCE 7, NumComps 2],
    [CompOffset 1 2, DeweyId 0 1, DeweyId 1 5, ADVANCE 7, NumComps 2],
    [CompOffset 1 2, DeweyId 0 1, DeweyId 1 5, ADVANCE 7, NumComps 2],
    [CompOffset 1 2, DeweyId 0 1, DeweyId 1 6, ADVANCE 7, NumComps 2],
    [CompOffset 1 2, DeweyId 0 1, DeweyId 1 6, ADVANCE 7, NumComps 2],
    [CompOffset 1 2, DeweyId 0 1, DeweyId 1 7, ADVANCE 7, NumComps 2],
    [CompOffset 1 2, DeweyId 0 1, DeweyId 1 7, ADVANCE 7, NumComps 2]]"

definition decodeCases_120_127 :: "case_stmt list list" where
  "decodeCases_120_127 = [
    [CompOffset 1 2, DeweyId 0 1, ADVANCE 6, ExtractValue 4 8 1, NumComps 2],
    [CompOffset 1 2, DeweyId 0 1, ADVANCE 6, ExtractValue 4 8 1, NumComps 2],
    [CompOffset 1 2, DeweyId 0 1, ADVANCE 6, ExtractValue 4 8 1, NumComps 2],
    [CompOffset 1 2, DeweyId 0 1, ADVANCE 6, ExtractValue 4 8 1, NumComps 2],
    [CompOffset 1 2, DeweyId 0 1, ADVANCE 7, ExtractValue 8 24 1, NumComps 2],
    [CompOffset 1 2, DeweyId 0 1, ADVANCE 7, ExtractValue 8 24 1, NumComps 2],
    [CompOffset 1 2, DeweyId 0 1, ADVANCE 8, ExtractValue 12 280 1, NumComps 2],
    [DeweyId 0 1, ADVANCE 2, NumComps 1]]"

definition decodeCases_128_135 :: "case_stmt list list" where
  "decodeCases_128_135 = [
    [DeweyId 0 2, ADVANCE 3, NumComps 1],
    [CompOffset 1 3, DeweyId 0 2, ADVANCE 8, ExtractValue 4 (- 20) 1, NumComps 2],
    [CompOffset 1 3, DeweyId 0 2, ADVANCE 7, ExtractValue 2 (- 4) 1, NumComps 2],
    [CompOffset 1 3, DeweyId 0 2, ADVANCE 7, ExtractValue 2 (- 4) 1, NumComps 2],
    [CompOffset 1 3, DeweyId 0 2, DeweyId 1 0, ADVANCE 6, NumComps 2],
    [CompOffset 1 3, CompOffset 2 6, DeweyId 0 2, DeweyId 1 0, DeweyId 2 1, ADVANCE 8, NumComps 3],
    [CompOffset 1 3, CompOffset 2 6, DeweyId 0 2, DeweyId 1 0, ADVANCE 8, ExtractValue 1 2 2, NumComps 3],
    [CompOffset 1 3, DeweyId 0 2, DeweyId 1 0, ADVANCE 6, NumComps 2]]"

definition decodeCases_136_143 :: "case_stmt list list" where
  "decodeCases_136_143 = [
    [CompOffset 1 3, DeweyId 0 2, DeweyId 1 1, ADVANCE 5, NumComps 2],
    [CompOffset 1 3, CompOffset 2 5, DeweyId 0 2, DeweyId 1 1, DeweyId 2 0, ADVANCE 8, NumComps 3],
    [CompOffset 1 3, CompOffset 2 5, DeweyId 0 2, DeweyId 1 1, DeweyId 2 1, ADVANCE 7, NumComps 3],
    [CompOffset 1 3, CompOffset 2 5, DeweyId 0 2, DeweyId 1 1, DeweyId 2 1, ADVANCE 7, NumComps 3],
    [CompOffset 1 3, CompOffset 2 5, DeweyId 0 2, DeweyId 1 1, DeweyId 2 2, ADVANCE 8, NumComps 3],
    [CompOffset 1 3, CompOffset 2 5, DeweyId 0 2, DeweyId 1 1, DeweyId 2 3, ADVANCE 8, NumComps 3],
    [CompOffset 1 3, CompOffset 2 5, DeweyId 0 2, DeweyId 1 1, ADVANCE 8, ExtractValue 2 4 2, NumComps 3],
    [CompOffset 1 3, DeweyId 0 2, DeweyId 1 1, ADVANCE 5, NumComps 2]]"

definition decodeCases_144_151 :: "case_stmt list list" where
  "decodeCases_144_151 = [
    [CompOffset 1 3, DeweyId 0 2, DeweyId 1 2, ADVANCE 6, NumComps 2],
    [CompOffset 1 3, CompOffset 2 6, DeweyId 0 2, DeweyId 1 2, DeweyId 2 1, ADVANCE 8, NumComps 3],
    [CompOffset 1 3, CompOffset 2 6, DeweyId 0 2, DeweyId 1 2, ADVANCE 8, ExtractValue 1 2 2, NumComps 3],
    [CompOffset 1 3, DeweyId 0 2, DeweyId 1 2, ADVANCE 6, NumComps 2],
    [CompOffset 1 3, DeweyId 0 2, DeweyId 1 3, ADVANCE 6, NumComps 2],
    [CompOffset 1 3, CompOffset 2 6, DeweyId 0 2, DeweyId 1 3, DeweyId 2 1, ADVANCE 8, NumComps 3],
    [CompOffset 1 3, CompOffset 2 6, DeweyId 0 2, DeweyId 1 3, ADVANCE 8, ExtractValue 1 2 2, NumComps 3],
    [CompOffset 1 3, DeweyId 0 2, DeweyId 1 3, ADVANCE 6, NumComps 2]]"

definition decodeCases_152_159 :: "case_stmt list list" where
  "decodeCases_152_159 = [
    [CompOffset 1 3, DeweyId 0 2, DeweyId 1 4, ADVANCE 8, NumComps 2],
    [CompOffset 1 3, DeweyId 0 2, DeweyId 1 5, ADVANCE 8, NumComps 2],
    [CompOffset 1 3, DeweyId 0 2, DeweyId 1 6, ADVANCE 8, NumComps 2],
    [CompOffset 1 3, DeweyId 0 2, DeweyId 1 7, ADVANCE 8, NumComps 2],
    [CompOffset 1 3, DeweyId 0 2, ADVANCE 7, ExtractValue 4 8 1, NumComps 2],
    [CompOffset 1 3, DeweyId 0 2, ADVANCE 7, ExtractValue 4 8 1, NumComps 2],
    [CompOffset 1 3, DeweyId 0 2, ADVANCE 8, ExtractValue 8 24 1, NumComps 2],
    [DeweyId 0 2, ADVANCE 3, NumComps 1]]"

definition decodeCases_160_167 :: "case_stmt list list" where
  "decodeCases_160_167 = [
    [DeweyId 0 3, ADVANCE 3, NumComps 1],
    [CompOffset 1 3, DeweyId 0 3, ADVANCE 8, ExtractValue 4 (- 20) 1, NumComps 2],
    [CompOffset 1 3, DeweyId 0 3, ADVANCE 7, ExtractValue 2 (- 4) 1, NumComps 2],
    [CompOffset 1 3, DeweyId 0 3, ADVANCE 7, ExtractValue 2 (- 4) 1, NumComps 2],
    [CompOffset 1 3, DeweyId 0 3, DeweyId 1 0, ADVANCE 5, NumComps 2],
    [CompOffset 1 3, CompOffset 2 6, DeweyId 0 3, DeweyId 1 0, DeweyId 2 1, ADVANCE 8, NumComps 3],
    [CompOffset 1 3, CompOffset 2 6, DeweyId 0 3, DeweyId 1 0, ADVANCE 8, ExtractValue 1 2 2, NumComps 3],
    [CompOffset 1 3, DeweyId 0 3, DeweyId 1 0, ADVANCE 5, NumComps 2]]"

definition decodeCases_168_175 :: "case_stmt list list" where
  "decodeCases_168_175 = [
    [CompOffset 1 3, DeweyId 0 3, DeweyId 1 1, ADVANCE 5, NumComps 2],
    [CompOffset 1 3, CompOffset 2 5, DeweyId 0 3, DeweyId 1 1, DeweyId 2 0, ADVANCE 8, NumComps 3],
    [CompOffset 1 3, CompOffset 2 5, DeweyId 0 3, DeweyId 1 1, DeweyId 2 1, ADVANCE 7, NumComps 3],
    [CompOffset 1 3, CompOffset 2 5, DeweyId 0 3, DeweyId 1 1, DeweyId 2 1, ADVANCE 7, NumComps 3],
    [CompOffset 1 3, CompOffset 2 5, DeweyId 0 3, DeweyId 1 1, DeweyId 2 2, ADVANCE 8, NumComps 3],
    [CompOffset 1 3, CompOffset 2 5, DeweyId 0 3, DeweyId 1 1, DeweyId 2 3, ADVANCE 8, NumComps 3],
    [CompOffset 1 3, CompOffset 2 5, DeweyId 0 3, DeweyId 1 1, ADVANCE 8, ExtractValue 2 4 2, NumComps 3],
    [CompOffset 1 3, DeweyId 0 3, DeweyId 1 1, ADVANCE 5, NumComps 2]]"

definition decodeCases_176_183 :: "case_stmt list list" where
  "decodeCases_176_183 = [
    [CompOffset 1 3, DeweyId 0 3, DeweyId 1 2, ADVANCE 6, NumComps 2],
    [CompOffset 1 3, CompOffset 2 6, DeweyId 0 3, DeweyId 1 2, DeweyId 2 1, ADVANCE 8, NumComps 3],
    [CompOffset 1 3, CompOffset 2 6, DeweyId 0 3, DeweyId 1 2, ADVANCE 8, ExtractValue 1 2 2, NumComps 3],
    [CompOffset 1 3, DeweyId 0 3, DeweyId 1 2, ADVANCE 6, NumComps 2],
    [CompOffset 1 3, DeweyId 0 3, DeweyId 1 3, ADVANCE 6, NumComps 2],
    [CompOffset 1 3, CompOffset 2 6, DeweyId 0 3, DeweyId 1 3, DeweyId 2 1, ADVANCE 8, NumComps 3],
    [CompOffset 1 3, CompOffset 2 6, DeweyId 0 3, DeweyId 1 3, ADVANCE 8, ExtractValue 1 2 2, NumComps 3],
    [CompOffset 1 3, DeweyId 0 3, DeweyId 1 3, ADVANCE 6, NumComps 2]]"

definition decodeCases_184_191 :: "case_stmt list list" where
  "decodeCases_184_191 = [
    [CompOffset 1 3, DeweyId 0 3, DeweyId 1 4, ADVANCE 8, NumComps 2],
    [CompOffset 1 3, DeweyId 0 3, DeweyId 1 5, ADVANCE 8, NumComps 2],
    [CompOffset 1 3, DeweyId 0 3, DeweyId 1 6, ADVANCE 8, NumComps 2],
    [CompOffset 1 3, DeweyId 0 3, DeweyId 1 7, ADVANCE 8, NumComps 2],
    [CompOffset 1 3, DeweyId 0 3, ADVANCE 7, ExtractValue 4 8 1, NumComps 2],
    [CompOffset 1 3, DeweyId 0 3, ADVANCE 7, ExtractValue 4 8 1, NumComps 2],
    [CompOffset 1 3, DeweyId 0 3, ADVANCE 8, ExtractValue 8 24 1, NumComps 2],
    [DeweyId 0 3, ADVANCE 3, NumComps 1]]"

definition decodeCases_192_199 :: "case_stmt list list" where
  "decodeCases_192_199 = [
    [DeweyId 0 4, ADVANCE 5, NumComps 1],
    [CompOffset 1 5, DeweyId 0 4, DeweyId 1 0, ADVANCE 8, NumComps 2],
    [CompOffset 1 5, DeweyId 0 4, DeweyId 1 1, ADVANCE 7, NumComps 2],
    [CompOffset 1 5, DeweyId 0 4, DeweyId 1 1, ADVANCE 7, NumComps 2],
    [CompOffset 1 5, DeweyId 0 4, DeweyId 1 2, ADVANCE 8, NumComps 2],
    [CompOffset 1 5, DeweyId 0 4, DeweyId 1 3, ADVANCE 8, NumComps 2],
    [CompOffset 1 5, DeweyId 0 4, ADVANCE 8, ExtractValue 2 4 1, NumComps 2],
    [DeweyId 0 4, ADVANCE 5, NumComps 1]]"

definition decodeCases_200_207 :: "case_stmt list list" where
  "decodeCases_200_207 = [
    [DeweyId 0 5, ADVANCE 5, NumComps 1],
    [CompOffset 1 5, DeweyId 0 5, DeweyId 1 0, ADVANCE 8, NumComps 2],
    [CompOffset 1 5, DeweyId 0 5, DeweyId 1 1, ADVANCE 7, NumComps 2],
    [CompOffset 1 5, DeweyId 0 5, DeweyId 1 1, ADVANCE 7, NumComps 2],
    [CompOffset 1 5, DeweyId 0 5, DeweyId 1 2, ADVANCE 8, NumComps 2],
    [CompOffset 1 5, DeweyId 0 5, DeweyId 1 3, ADVANCE 8, NumComps 2],
    [CompOffset 1 5, DeweyId 0 5, ADVANCE 8, ExtractValue 2 4 1, NumComps 2],
    [DeweyId 0 5, ADVANCE 5, NumComps 1]]"

definition decodeCases_208_215 :: "case_stmt list list" where
  "decodeCases_208_215 = [
    [DeweyId 0 6, ADVANCE 5, NumComps 1],
    [CompOffset 1 5, DeweyId 0 6, DeweyId 1 0, ADVANCE 8, NumComps 2],
    [CompOffset 1 5, DeweyId 0 6, DeweyId 1 1, ADVANCE 7, NumComps 2],
    [CompOffset 1 5, DeweyId 0 6, DeweyId 1 1, ADVANCE 7, NumComps 2],
    [CompOffset 1 5, DeweyId 0 6, DeweyId 1 2, ADVANCE 8, NumComps 2],
    [CompOffset 1 5, DeweyId 0 6, DeweyId 1 3, ADVANCE 8, NumComps 2],
    [CompOffset 1 5, DeweyId 0 6, ADVANCE 8, ExtractValue 2 4 1, NumComps 2],
    [DeweyId 0 6, ADVANCE 5, NumComps 1]]"

definition decodeCases_216_223 :: "case_stmt list list" where
  "decodeCases_216_223 = [
    [DeweyId 0 7, ADVANCE 5, NumComps 1],
    [CompOffset 1 5, DeweyId 0 7, DeweyId 1 0, ADVANCE 8, NumComps 2],
    [CompOffset 1 5, DeweyId 0 7, DeweyId 1 1, ADVANCE 7, NumComps 2],
    [CompOffset 1 5, DeweyId 0 7, DeweyId 1 1, ADVANCE 7, NumComps 2],
    [CompOffset 1 5, DeweyId 0 7, DeweyId 1 2, ADVANCE 8, NumComps 2],
    [CompOffset 1 5, DeweyId 0 7, DeweyId 1 3, ADVANCE 8, NumComps 2],
    [CompOffset 1 5, DeweyId 0 7, ADVANCE 8, ExtractValue 2 4 1, NumComps 2],
    [DeweyId 0 7, ADVANCE 5, NumComps 1]]"

definition decodeCases_224_231 :: "case_stmt list list" where
  "decodeCases_224_231 = [
    [DeweyId 0 8, ADVANCE 8, NumComps 1],
    [DeweyId 0 9, ADVANCE 8, NumComps 1],
    [DeweyId 0 10, ADVANCE 8, NumComps 1],
    [DeweyId 0 11, ADVANCE 8, NumComps 1],
    [DeweyId 0 12, ADVANCE 8, NumComps 1],
    [DeweyId 0 13, ADVANCE 8, NumComps 1],
    [DeweyId 0 14, ADVANCE 8, NumComps 1],
    [DeweyId 0 15, ADVANCE 8, NumComps 1]]"

definition decodeCases_232_239 :: "case_stmt list list" where
  "decodeCases_232_239 = [
    [DeweyId 0 16, ADVANCE 8, NumComps 1],
    [DeweyId 0 17, ADVANCE 8, NumComps 1],
    [DeweyId 0 18, ADVANCE 8, NumComps 1],
    [DeweyId 0 19, ADVANCE 8, NumComps 1],
    [DeweyId 0 20, ADVANCE 8, NumComps 1],
    [DeweyId 0 21, ADVANCE 8, NumComps 1],
    [DeweyId 0 22, ADVANCE 8, NumComps 1],
    [DeweyId 0 23, ADVANCE 8, NumComps 1]]"

definition decodeCases_240_247 :: "case_stmt list list" where
  "decodeCases_240_247 = [
    [ADVANCE 5, ExtractValue 8 24 0, NumComps 1],
    [ADVANCE 5, ExtractValue 8 24 0, NumComps 1],
    [ADVANCE 5, ExtractValue 8 24 0, NumComps 1],
    [ADVANCE 5, ExtractValue 8 24 0, NumComps 1],
    [ADVANCE 5, ExtractValue 8 24 0, NumComps 1],
    [ADVANCE 5, ExtractValue 8 24 0, NumComps 1],
    [ADVANCE 5, ExtractValue 8 24 0, NumComps 1],
    [ADVANCE 5, ExtractValue 8 24 0, NumComps 1]]"

definition decodeCases_248_255 :: "case_stmt list list" where
  "decodeCases_248_255 = [
    [ADVANCE 6, ExtractValue 12 280 0, NumComps 1],
    [ADVANCE 6, ExtractValue 12 280 0, NumComps 1],
    [ADVANCE 6, ExtractValue 12 280 0, NumComps 1],
    [ADVANCE 6, ExtractValue 12 280 0, NumComps 1],
    [ADVANCE 7, ExtractValue 16 4376 0, NumComps 1],
    [ADVANCE 7, ExtractValue 16 4376 0, NumComps 1],
    [ADVANCE 8, ExtractValue 20 69912 0, NumComps 1],
    [ADVANCE 9, ExtractValue 32 1118488 0, NumComps 1]]"

definition decodeTable :: "case_stmt list list" where
  "decodeTable = [] # concat [
    decodeCases_1_7, decodeCases_8_15, decodeCases_16_23, decodeCases_24_31,
    decodeCases_32_39, decodeCases_40_47, decodeCases_48_55, decodeCases_56_63,
    decodeCases_64_71, decodeCases_72_79, decodeCases_80_87, decodeCases_88_95,
    decodeCases_96_103, decodeCases_104_111, decodeCases_112_119, decodeCases_120_127,
    decodeCases_128_135, decodeCases_136_143, decodeCases_144_151, decodeCases_152_159,
    decodeCases_160_167, decodeCases_168_175, decodeCases_176_183, decodeCases_184_191,
    decodeCases_192_199, decodeCases_200_207, decodeCases_208_215, decodeCases_216_223,
    decodeCases_224_231, decodeCases_232_239, decodeCases_240_247, decodeCases_248_255]"

lemmas decodeCases_defs = decodeCases_1_7_def decodeCases_8_15_def decodeCases_16_23_def decodeCases_24_31_def
  decodeCases_32_39_def decodeCases_40_47_def decodeCases_48_55_def decodeCases_56_63_def
  decodeCases_64_71_def decodeCases_72_79_def decodeCases_80_87_def decodeCases_88_95_def
  decodeCases_96_103_def decodeCases_104_111_def decodeCases_112_119_def decodeCases_120_127_def
  decodeCases_128_135_def decodeCases_136_143_def decodeCases_144_151_def decodeCases_152_159_def
  decodeCases_160_167_def decodeCases_168_175_def decodeCases_176_183_def decodeCases_184_191_def
  decodeCases_192_199_def decodeCases_200_207_def decodeCases_208_215_def decodeCases_216_223_def
  decodeCases_224_231_def decodeCases_232_239_def decodeCases_240_247_def decodeCases_248_255_def

definition decodeByte :: "nat \<Rightarrow> byte list \<Rightarrow> byte \<Rightarrow> decoder \<Rightarrow> decoder outcome" where
  "decodeByte cap data byte st =
    bindE (setOffset cap 0 (d_bitLen st) st) (\<lambda>st.
      if byte = 0 then decodeCase0 cap data st
      else exec cap data (decodeTable ! unat byte) st)"


section \<open>Decompressing an id\<close>

text \<open>
  Both loops of \<open>decompress\<close> carry fuel; \<open>decompress_no_divergence\<close> shows that it never runs out, since
  every call of \<open>decodeByte\<close> moves the position forward. The bound \<open>byteLen - 1\<close> is unsigned: for an
  empty id it wraps around to the largest number, and the loop runs until it reads outside the buffer, which is
  \<open>Undefined\<close>. No compressed id is empty.
\<close>

fun decompressLoop :: "nat \<Rightarrow> nat \<Rightarrow> byte list \<Rightarrow> nat \<Rightarrow> decoder \<Rightarrow> decoder outcome" where
  "decompressLoop fuel cap data byteLen st =
    (if byteLen = 0 \<or> d_byteIndex st + 1 < byteLen then
       bindE (rd data (d_byteIndex st)) (\<lambda>byte0.
       bindE (rd data (d_byteIndex st + 1)) (\<lambda>byte1.
         let byte0 = byte0 AND fst (theByteMasks ! d_bitIndex st);
             byte1 = byte1 AND snd (theByteMasks ! d_bitIndex st);
             byte = push_bit (d_bitIndex st) byte0 OR drop_bit (8 - d_bitIndex st) byte1
         in case fuel of
              0 \<Rightarrow> Inl Diverges
            | Suc fuel' \<Rightarrow>
                bindE (decodeByte cap data byte st) (decompressLoop fuel' cap data byteLen)))
     else Inr st)"

fun decompressLast :: "nat \<Rightarrow> nat \<Rightarrow> byte list \<Rightarrow> nat \<Rightarrow> decoder \<Rightarrow> decoder outcome" where
  "decompressLast fuel cap data byteLen st =
    (if d_byteIndex st + 1 = byteLen then
       bindE (rd data (d_byteIndex st)) (\<lambda>byte.
         let lastByte = push_bit (d_bitIndex st) byte in
         if lastByte = 0 then Inr st
         else case fuel of
             0 \<Rightarrow> Inl Diverges
           | Suc fuel' \<Rightarrow>
               bindE (decodeByte cap data lastByte st) (decompressLast fuel' cap data byteLen))
     else Inr st)"

declare decompressLoop.simps [simp del] decompressLast.simps [simp del]

text \<open>The bytes \<open>decompress\<close> works on and their number: an embedded id is copied without its mark.\<close>

fun dataAndLength :: "ordpath \<Rightarrow> byte list \<times> nat" where
  "dataAndLength (Local l) = (markRemote l, getLocalByteLength l)"
| "dataAndLength (Remote d) = (d, length d)"

definition decoderInit :: "nat \<Rightarrow> (nat \<Rightarrow> int) \<Rightarrow> (nat \<Rightarrow> nat) \<Rightarrow> nat \<Rightarrow> decoder" where
  "decoderInit startOffset deweyid compOffsets numComps =
    \<lparr>d_bitLen = startOffset div 8 * 8 + startOffset mod 8, d_byteIndex = startOffset div 8,
     d_bitIndex = startOffset mod 8, d_deweyid = deweyid, d_compOffsets = compOffsets,
     d_numComps = numComps\<rparr>"

definition decompress ::
  "ordpath \<Rightarrow> nat \<Rightarrow> nat \<Rightarrow> (nat \<Rightarrow> int) \<Rightarrow> (nat \<Rightarrow> nat) \<Rightarrow> nat \<Rightarrow> decoder outcome" where
  "decompress p startOffset cap deweyid compOffsets numComps =
    (case dataAndLength p of (data, byteLen) \<Rightarrow>
     let fuel = 8 * length data + 1;
         st = decoderInit startOffset deweyid compOffsets numComps
     in bindE (decompressLoop fuel cap data byteLen st) (\<lambda>st.
        if d_byteIndex st + 1 = byteLen then
          bindE (rd data (d_byteIndex st)) (\<lambda>byte.
            if byte = 0 then Inl Assertion else decompressLast fuel cap data byteLen st)
        else Inr st))"

end
