(* ===== verification/OrdPath_Roundtrip.thy ===== *)
theory OrdPath_Roundtrip
  imports OrdPath_Decode
begin

text \<open>
  What the decoder of \<open>OrdPath_Decode\<close> computes. Every \<open>case\<close> body is compared with the reference
  code (\<open>decodeTable_ok\<close>: all but nine bodies are the canonical ones), a call of \<open>decodeByte\<close> is
  shown to decode the next components of the id (\<open>decodeByte_step\<close>), and the loops of \<open>decompress\<close>
  are shown to decode an id from any component boundary to its end (\<open>decompress_spec\<close>); the fuel of
  the model is never used up (\<open>decompress_no_divergence\<close>). Ids on which a body is wrong are excluded by
  \<open>decodable\<close>, and the last lemmas show that they are indeed decoded wrongly.
\<close>

section \<open>Extracting data bits\<close>

text \<open>The bits of a slice of the buffer as a number.\<close>

definition slice_word :: "byte list \<Rightarrow> nat \<Rightarrow> nat \<Rightarrow> 'a::len word" where
  "slice_word d s n = of_nat (bits_val (buf_slice d s n))"

lemma bit_slice_word:
  "bit (slice_word d s n :: 'a::len word) j \<longleftrightarrow> j < LENGTH('a) \<and> j < n \<and> buf_bit d (s + (n - 1 - j))"
  by (auto simp: slice_word_def bit_of_nat_iff bit_bits_val)

lemma slice_extend:
  fixes b :: byte
  assumes "\<And>j. j < m \<Longrightarrow> bit b j = buf_bit d (s + n + (m - 1 - j))" "\<And>j. m \<le> j \<Longrightarrow> \<not> bit b j" "m \<le> 8"
  shows "push_bit m (slice_word d s n) OR ucast b = (slice_word d s (n + m) :: u32)"
proof (rule bit_word_eqI)
  fix j assume "j < LENGTH(32)"
  then have j: "j < 32" by simp
  show "bit (push_bit m (slice_word d s n) OR ucast b :: u32) j = bit (slice_word d s (n + m) :: u32) j"
  proof (cases "j < m")
    case True
    then have "n + (m - 1 - j) = n + m - 1 - j" by simp
    with True j assms show ?thesis
      by (simp add: bit_or_iff bit_push_bit_iff bit_unsigned_iff bit_slice_word add.assoc)
  next
    case False
    then have "n - 1 - (j - m) = n + m - 1 - j" by simp
    with False j assms show ?thesis
      by (auto simp: bit_or_iff bit_push_bit_iff bit_unsigned_iff bit_slice_word)
  qed
qed

lemma slice_byte: "i < length d \<Longrightarrow> push_bit 8 (slice_word d s n) OR ucast (d ! i) = (slice_word d s (n + 8) :: u32)" if "s + n = 8 * i"
  using that by (intro slice_extend) (auto simp: byte_bit_buf add_diff_eq dest: bit_imp_le_length)

lemma extractBytes_spec:
  assumes "s + n = 8 * i" "i + k \<le> length d"
  shows "extractBytes d k i (slice_word d s n) = Inr (slice_word d s (n + 8 * k))"
  using assms
proof (induction k arbitrary: i n)
  case (Suc k)
  then show ?case
    using slice_byte [of s n i d] Suc.IH [of "n + 8" "Suc i"] by (simp add: add.assoc)
qed simp

lemma theByteMasks_bit:
  assumes "i < 8"
  shows "bit (fst (theByteMasks ! i)) j \<longleftrightarrow> j < 8 - i" "bit (snd (theByteMasks ! i)) j \<longleftrightarrow> j < 8 \<and> 8 - i \<le> j"
proof -
  have eq: "theByteMasks = map (\<lambda>i. (mask (8 - i), push_bit (8 - i) (mask i))) [0..<8]"
    by (simp add: theByteMasks_def upt_rec mask_eq_exp_minus_1)
  have "theByteMasks ! i = (mask (8 - i), push_bit (8 - i) (mask i))"
    unfolding eq using assms by (simp del: upt_Suc)
  then show "bit (fst (theByteMasks ! i)) j \<longleftrightarrow> j < 8 - i" "bit (snd (theByteMasks ! i)) j \<longleftrightarrow> j < 8 \<and> 8 - i \<le> j"
    using assms by (auto simp: bit_simps)
qed

lemma slice_first:
  assumes "i < length d" "k < 8"
  shows "ucast (d ! i AND fst (theByteMasks ! k)) = (slice_word d (8 * i + k) (8 - k) :: u32)"
  using assms
  by (intro bit_word_eqI)
    (auto simp: bit_unsigned_iff bit_and_iff theByteMasks_bit bit_slice_word byte_bit_buf dest: bit_imp_le_length)

lemma slice_last:
  assumes "i < length d" "0 < k" "k < 8" "s + n = 8 * i"
  shows "push_bit k (slice_word d s n) OR ucast (drop_bit (8 - k) (d ! i AND snd (theByteMasks ! k)))
     = (slice_word d s (n + k) :: u32)"
proof (rule slice_extend)
  fix j
  show "bit (drop_bit (8 - k) (d ! i AND snd (theByteMasks ! k))) j = buf_bit d (s + n + (k - 1 - j))" if "j < k"
    using that assms byte_bit_buf [of i d "8 - k + j"]
    by (simp add: bit_drop_bit_eq bit_and_iff theByteMasks_bit) arith
  show "\<not> bit (drop_bit (8 - k) (d ! i AND snd (theByteMasks ! k))) j" if "k \<le> j"
    using that assms by (simp add: bit_drop_bit_eq bit_and_iff theByteMasks_bit) arith
qed (use assms in simp)

lemma slice_inner:
  assumes "i < length d" "0 < n" "n < 8 - k"
  shows "ucast (drop_bit (8 - n) (push_bit k (d ! i))) = (slice_word d (8 * i + k) n :: u32)"
proof (rule bit_word_eqI)
  fix j assume "j < LENGTH(32)"
  have "8 - n + j - k = 7 - (k + (n - 1 - j))" "k \<le> 8 - n + j" "8 - n + j < 8 \<longleftrightarrow> j < n" if "j < n" 
    using that assms by auto
  then show "bit (ucast (drop_bit (8 - n) (push_bit k (d ! i))) :: u32) j = bit (slice_word d (8 * i + k) n :: u32) j"
    using \<open>j < LENGTH(32)\<close> assms buf_bit_byte [of "k + (n - 1 - j)" i d]
    by (cases "j < n") (auto simp: bit_unsigned_iff bit_drop_bit_eq bit_push_bit_iff bit_slice_word add.assoc dest: bit_imp_le_length)
qed

lemma addBase_slice:
  assumes "bits_val (buf_slice d s n) < 2 ^ 31" "n \<le> 32" "v = int (bits_val (buf_slice d s n)) + base" "- (2 ^ 31) \<le> v" "v < 2 ^ 31"
  shows "addBase (slice_word d s n) base = Inr v"
proof -
  have "sint (slice_word d s n :: u32) = int (bits_val (buf_slice d s n))"
    using assms(1)
    by (simp add: slice_word_def sint_uint unsigned_of_nat take_bit_nat_eq_self signed_take_bit_int_eq_self)
  then show ?thesis using assms by (simp add: addBase_def)
qed

definition dec_pos :: "decoder \<Rightarrow> nat" where
  "dec_pos st = 8 * d_byteIndex st + d_bitIndex st"

lemma extractValue_spec:
  assumes "d_bitIndex st < 8" "0 < n" "n \<le> 32" "dec_pos st + n \<le> 8 * length d"
    and "bits_val (buf_slice d (dec_pos st) n) < 2 ^ 31"
    and "v = int (bits_val (buf_slice d (dec_pos st) n)) + base" "- (2 ^ 31) \<le> v" "v < 2 ^ 31"
  shows "extractValue d n base st = Inr (v, advance n st)"
proof -
  define i k where "i = d_byteIndex st" and "k = d_bitIndex st"
  have pos: "dec_pos st = 8 * i + k" and k: "k < 8" using assms(1) by (simp_all add: dec_pos_def i_def k_def)
  have i: "i < length d" using assms(2,4) pos by linarith
  note add = addBase_slice [OF assms(5,3,6,7,8), unfolded pos]
  show ?thesis
  proof (cases "n < 8 - k")
    case True
    then have "(k + n) div 8 = 0" "(k + n) mod 8 = k + n" by auto
    with True i add slice_inner [OF i assms(2), of k] show ?thesis
      by (simp add: extractValue_def advance_def i_def [symmetric] k_def [symmetric])
  next
    case False
    define m where "m = n - (8 - k)"
    have m: "n = 8 - k + 8 * (m div 8) + m mod 8" using False by (simp add: m_def)
    have sum: "k + (8 - k + 8 * q + r) = 8 * (1 + q) + r" for q r using k by simp
    have "k + n = 8 * (1 + m div 8) + m mod 8" using sum [of "m div 8" "m mod 8"] m by simp
    then have adv: "(k + n) div 8 = 1 + m div 8" "(k + n) mod 8 = m mod 8" by (auto simp: div8)
    have bytes: "i + 1 + m div 8 \<le> length d" using assms(4) pos m k by linarith
    have ext: "extractBytes d (m div 8) (Suc i) (slice_word d (8 * i + k) (8 - k))
        = Inr (slice_word d (8 * i + k) (8 - k + 8 * (m div 8)))"
      using bytes k by (intro extractBytes_spec) auto
    have mod: "m - m div 8 * 8 = m mod 8" by (simp add: minus_div_mult_eq_mod)
    show ?thesis
    proof (cases "m mod 8 = 0")
      case True
      with False i ext add adv m mod k slice_first [OF i k] show ?thesis
        by (simp add: extractValue_def advance_def i_def [symmetric] k_def [symmetric] m_def [symmetric] Let_def)
    next
      case r: False
      have last: "Suc (i + m div 8) < length d" using assms(4) pos m k r by linarith
      have "push_bit (m mod 8) (slice_word d (8 * i + k) (8 - k + 8 * (m div 8)))
          OR ucast (drop_bit (8 - m mod 8) (d ! Suc (i + m div 8) AND snd (theByteMasks ! (m mod 8))))
        = (slice_word d (8 * i + k) n :: u32)"
        using slice_last [OF last, of "m mod 8" "8 * i + k" "8 - k + 8 * (m div 8)"] r k m by simp
      moreover have "m div 8 * 8 < m" using r mod by linarith
      ultimately show ?thesis
        using False i ext add adv mod k slice_first [OF i k] r last
        by (simp add: extractValue_def advance_def i_def [symmetric] k_def [symmetric] m_def [symmetric] Let_def)
    qed
  qed
qed

lemma dec_pos_advance [simp]: "dec_pos (advance n st) = dec_pos st + n"
  by (simp add: dec_pos_def advance_def) 

lemma advance_bitIndex [simp]: "d_bitIndex (advance n st) < 8"
  by (simp add: advance_def)

section \<open>What a step of the decoder does\<close>

definition decoded :: "bool \<Rightarrow> decoder \<Rightarrow> decoder \<Rightarrow> int list \<Rightarrow> bool" where
  "decoded exact st st' vs \<longleftrightarrow>
     d_bitIndex st' < 8 \<and> dec_pos st' = dec_pos st + length (dewey_bits vs)
     \<and> d_numComps st' = d_numComps st + length vs
     \<and> (\<forall>i < length vs. d_deweyid st' (d_numComps st + i) = vs ! i)
     \<and> (\<forall>j < d_numComps st. d_deweyid st' j = d_deweyid st j \<and> d_compOffsets st' j = d_compOffsets st j)
     \<and> (exact \<longrightarrow> d_bitLen st' = d_bitLen st + length (dewey_bits vs)
          \<and> (\<forall>i < length vs. d_compOffsets st' (d_numComps st + i) = d_bitLen st + length (dewey_bits (take i vs))))"

lemma decoded_Nil: "d_bitIndex st < 8 \<Longrightarrow> decoded exact st st []"
  by (simp add: decoded_def)

lemma decoded_append:
  assumes "decoded exact st st1 vs" "decoded exact st1 st2 ws"
  shows "decoded exact st st2 (vs @ ws)"
proof -
  have split: "d_numComps st + i = d_numComps st1 + (i - length vs)" "\<not> i < length vs \<Longrightarrow> i - length vs < length ws"
    if "length vs \<le> i" "i < length (vs @ ws)" for i
    using assms(1) that by (auto simp: decoded_def)
  have "d_deweyid st2 (d_numComps st + i) = (vs @ ws) ! i" if "i < length (vs @ ws)" for i
    using assms that split [of i] by (cases "i < length vs") (auto simp: decoded_def nth_append)
  moreover have "d_compOffsets st2 (d_numComps st + i) = d_bitLen st + length (dewey_bits (take i (vs @ ws)))"
    if "i < length (vs @ ws)" exact for i
    using assms that split [of i] by (cases "i < length vs") (auto simp: decoded_def nth_append)
  ultimately show ?thesis using assms by (auto simp: decoded_def)
qed

lemma decoded_weaken: "decoded True st st' vs \<Longrightarrow> decoded exact st st' vs"
  by (simp add: decoded_def)

section \<open>Canonical bodies\<close>

definition canonical :: "int list \<Rightarrow> (nat \<times> nat \<times> nat \<times> int) option \<Rightarrow> case_stmt list" where
  "canonical vs ext =
    map (\<lambda>i. CompOffset i (length (dewey_bits (take i vs)))) [1..<length vs + (if ext = None then 0 else 1)]
    @ map (\<lambda>i. DeweyId i (vs ! i)) [0..<length vs]
    @ (case ext of
         None \<Rightarrow> [ADVANCE (length (dewey_bits vs)), NumComps (length vs)]
       | Some (l, p, n, b) \<Rightarrow>
           [ADVANCE (length (dewey_bits vs) + l), ExtractValue n b (length vs), NumComps (length vs + 1)])"

lemma exec_append: "exec cap d (xs @ ys) st = bindE (exec cap d xs st) (exec cap d ys)"
proof (induction xs arbitrary: st)
  case (Cons x xs)
  then show ?case by (cases "exec_stmt cap d x st") simp_all
qed simp

lemma exec_offsets:
  assumes "d_numComps st + b \<le> cap" "a \<le> b"
  shows "exec cap d (map (\<lambda>i. CompOffset i (f i)) [a..<b]) st = Inr (st\<lparr>d_compOffsets := \<lambda>j.
     if d_numComps st + a \<le> j \<and> j < d_numComps st + b then d_bitLen st + f (j - d_numComps st) else d_compOffsets st j\<rparr>)"
  using assms(2,1)
proof (induction rule: dec_induct)
  case (step n)
  then show ?case by (auto simp: exec_append setOffset_def fun_eq_iff less_Suc_eq intro!: decoder.fold_congs)
qed (auto simp: fun_eq_iff)

lemma exec_deweys:
  assumes "d_numComps st + b \<le> cap"
  shows "exec cap d (map (\<lambda>i. DeweyId i (f i)) [0..<b]) st = Inr (st\<lparr>d_deweyid := \<lambda>j.
     if d_numComps st \<le> j \<and> j < d_numComps st + b then f (j - d_numComps st) else d_deweyid st j\<rparr>)"
  using assms
proof (induction b)
  case (Suc n)
  then show ?case by (auto simp: exec_append setDewey_def fun_eq_iff less_Suc_eq intro!: decoder.fold_congs)
qed (auto simp: fun_eq_iff)

definition run_case :: "nat \<Rightarrow> byte list \<Rightarrow> case_stmt list \<Rightarrow> decoder \<Rightarrow> decoder outcome" where
  "run_case cap d body st = bindE (setOffset cap 0 (d_bitLen st) st) (exec cap d body)"

lemma dec_pos_update [simp]:
  "dec_pos (st\<lparr>d_compOffsets := f\<rparr>) = dec_pos st" "dec_pos (st\<lparr>d_deweyid := g\<rparr>) = dec_pos st"
  "dec_pos (st\<lparr>d_numComps := n\<rparr>) = dec_pos st"
  by (simp_all add: dec_pos_def)

lemma advance_advance: "advance n (advance m s) = advance (m + n) s"
proof -
  have "x div 8 + (x mod 8 + n) div 8 = (x + n) div 8" for x :: nat
    using div_mult_self4 [of 8 "x div 8" "x mod 8 + n"] by (simp flip: add.assoc)
  from this [of "d_bitIndex s + m"] show ?thesis by (simp add: advance_def add.assoc mod_add_left_eq)
qed

lemma run_prefix:
  assumes "0 < k" "d_numComps st + k \<le> cap" "length vs \<le> k"
  shows "run_case cap d (map (\<lambda>i. CompOffset i (length (dewey_bits (take i vs)))) [1..<k]
      @ map (\<lambda>i. DeweyId i (vs ! i)) [0..<length vs] @ rest) st
    = exec cap d rest (st\<lparr>d_compOffsets := \<lambda>j. if d_numComps st \<le> j \<and> j < d_numComps st + k
       then d_bitLen st + length (dewey_bits (take (j - d_numComps st) vs)) else d_compOffsets st j,
     d_deweyid := \<lambda>j. if d_numComps st \<le> j \<and> j < d_numComps st + length vs
       then vs ! (j - d_numComps st) else d_deweyid st j\<rparr>)"
proof -
  let ?f = "\<lambda>i. length (dewey_bits (take i vs))"
  have "run_case cap d (map (\<lambda>i. CompOffset i (?f i)) [1..<k] @ ys) st
      = exec cap d (map (\<lambda>i. CompOffset i (?f i)) [0..<k] @ ys) st" for ys
    using assms(1) by (simp add: run_case_def upt_conv_Cons)
  then show ?thesis
    using assms by (simp add: exec_append exec_offsets exec_deweys cong: if_cong)
qed

lemma run_canonical:
  assumes "d_numComps st + length vs \<le> cap" "vs \<noteq> []"
  shows "\<exists>st'. run_case cap d (canonical vs None) st = Inr st' \<and> decoded True st st' vs"
  using assms run_prefix [of "length vs" st cap vs d "[ADVANCE (length (dewey_bits vs)), NumComps (length vs)]"]
  by (simp add: canonical_def) (simp add: decoded_def advance_def dec_pos_def)

lemma run_canonical_ext:
  assumes cap: "d_numComps st + length vs < cap" and idx: "d_bitIndex st < 8"
    and v: "comp_ok v" "comp_class v = (l, p, n, b)" "0 < n"
    and data: "dec_pos st + length (dewey_bits (vs @ [v])) \<le> 8 * length d"
      "buf_slice d (dec_pos st) (length (dewey_bits (vs @ [v]))) = dewey_bits (vs @ [v])"
  shows "\<exists>st'. run_case cap d (canonical vs (Some (l, p, n, b))) st = Inr st' \<and> decoded True st st' (vs @ [v])"
proof -
  define m where "m = length (dewey_bits vs) + l"
  have cb: "comp_bits v = nat_bits l p @ nat_bits n (nat (v - b))"
    using v by (simp add: comp_bits_def class_bits_def)
  have bnd: "b \<le> v" "nat (v - b) < 2 ^ n" using comp_class_bounds v comp_ok_int32 by blast+
  have nb: "n \<le> 32" "v - b < 2 ^ 31" "- (2 ^ 31) \<le> v" "v < 2 ^ 31"
    using v by (auto simp: comp_class_cases comp_ok_def INT32_MAX_def split: if_splits)
  have bits: "buf_slice d (dec_pos st + m) n = nat_bits n (nat (v - b))"
  proof -
    have "buf_slice d (dec_pos st) m @ buf_slice d (dec_pos st + m) n = (dewey_bits vs @ nat_bits l p) @ nat_bits n (nat (v - b))"
      using data(2) by (simp add: buf_slice_append cb m_def add.assoc)
    then show ?thesis by (rule append_eq_append_conv [THEN iffD1, THEN conjunct2, rotated]) (simp add: m_def)
  qed
  have ext: "extractValue d n b (advance m (st\<lparr>d_compOffsets := f, d_deweyid := g\<rparr>))
      = Inr (v, advance n (advance m (st\<lparr>d_compOffsets := f, d_deweyid := g\<rparr>)))" for f g
    using nb bnd v(3) data(1) bits idx
    by (intro extractValue_spec) (simp_all add: cb m_def take_bit_nat_eq_self)
  have len: "length (comp_bits v) = l + n" by (simp add: cb)
  define s where "s = st\<lparr>d_compOffsets := \<lambda>j. if d_numComps st \<le> j \<and> j < d_numComps st + (length vs + 1)
       then d_bitLen st + length (dewey_bits (take (j - d_numComps st) vs)) else d_compOffsets st j,
     d_deweyid := \<lambda>j. if d_numComps st \<le> j \<and> j < d_numComps st + length vs
       then vs ! (j - d_numComps st) else d_deweyid st j\<rparr>"
  have "run_case cap d (canonical vs (Some (l, p, n, b))) st
      = exec cap d [ADVANCE m, ExtractValue n b (length vs), NumComps (length vs + 1)] s"
    unfolding s_def using cap
    by (subst run_prefix [symmetric]) (simp_all add: canonical_def m_def del: upt_Suc)
  also have "\<dots> = Inr ((advance (m + n) s)\<lparr>d_deweyid := (d_deweyid s)(d_numComps st + length vs := v),
      d_numComps := d_numComps st + length vs + 1\<rparr>)"
    using cap ext by (simp add: advance_advance) (simp add: s_def setDewey_def advance_def)
  finally show ?thesis using len m_def
    by (auto simp: decoded_def advance_def s_def nth_append dec_pos_def)
qed

section \<open>Comparing the bodies with the code\<close>

fun body_values :: "case_stmt list \<Rightarrow> int list" where
  "body_values [] = []"
| "body_values (DeweyId i v # ss) = v # body_values ss"
| "body_values (_ # ss) = body_values ss"

fun body_ext :: "case_stmt list \<Rightarrow> (nat \<times> nat \<times> nat \<times> int) option" where
  "body_ext [] = None"
| "body_ext (ExtractValue n b i # ss) = find (\<lambda>(l, p, n', b'). n' = n \<and> b' = b) comp_classes"
| "body_ext (_ # ss) = body_ext ss"

definition compatible :: "bool list \<Rightarrow> nat \<times> nat \<times> nat \<times> int \<Rightarrow> bool" where
  "compatible rest = (\<lambda>(l, p, n, b). take (length rest) (nat_bits l p) = take l rest)"

fun ext_ok :: "bool list \<Rightarrow> (nat \<times> nat \<times> nat \<times> int) option \<Rightarrow> bool" where
  "ext_ok rest None = True"
| "ext_ok rest (Some (l, p, n, b)) \<longleftrightarrow> 0 < n \<and> True \<in> set rest
     \<and> filter (compatible rest) comp_classes = [(l, p, n, b)]"

definition case_ok :: "bool list \<Rightarrow> case_stmt list \<Rightarrow> int list \<Rightarrow> (nat \<times> nat \<times> nat \<times> int) option \<Rightarrow> bool" where
  "case_ok bs body vs ext \<longleftrightarrow> body = canonical vs ext \<and> list_all comp_ok vs \<and> (ext = None \<longrightarrow> vs \<noteq> [])
     \<and> take (length (dewey_bits vs)) bs = dewey_bits vs \<and> length (dewey_bits vs) \<le> length bs
     \<and> ext_ok (drop (length (dewey_bits vs)) bs) ext"

definition body_ok :: "nat \<Rightarrow> case_stmt list \<Rightarrow> bool" where
  "body_ok w body = case_ok (nat_bits 8 w) body (body_values body) (body_ext body)"

fun bodies_ok :: "int list \<Rightarrow> int \<Rightarrow> case_stmt list list \<Rightarrow> bool" where
  "bodies_ok skip w [] \<longleftrightarrow> True"
| "bodies_ok skip w (body # bodies) \<longleftrightarrow> (w \<in> set skip \<or> body_ok (nat w) body) \<and> bodies_ok skip (w + 1) bodies"

lemmas body_eval = body_ok_def case_ok_def canonical_def compatible_def comp_classes_def comp_bits_def
  class_bits_def comp_class_cases nat_bits_numeral upt_rec comp_ok_def INT32_MAX_def


definition special_bytes :: "int list" where
  "special_bytes = [17, 31, 64, 79, 84, 85, 86, 164, 167]"

lemma bodies_ok_append:
  "bodies_ok skip w (xs @ ys) \<longleftrightarrow> bodies_ok skip w xs \<and> bodies_ok skip (w + int (length xs)) ys"
  by (induction xs arbitrary: w) (auto simp: algebra_simps)

lemma bodies_ok_nth:
  "bodies_ok skip w bodies \<Longrightarrow> i < length bodies \<Longrightarrow> w + int i \<notin> set skip \<Longrightarrow> body_ok (nat (w + int i)) (bodies ! i)"
proof (induction bodies arbitrary: w i)
  case (Cons body bodies)
  show ?case
  proof (cases i)
    case (Suc j)
    with Cons.IH [of "w + 1" j] Cons.prems show ?thesis by (simp add: algebra_simps)
  qed (use Cons.prems in auto)
qed simp

lemma cases_1_7_ok:
  "bodies_ok special_bytes 1 decodeCases_1_7 \<and> length decodeCases_1_7 = 7"
  unfolding decodeCases_1_7_def special_bytes_def by (simp add: body_eval)

lemma cases_8_15_ok:
  "bodies_ok special_bytes 8 decodeCases_8_15 \<and> length decodeCases_8_15 = 8"
  unfolding decodeCases_8_15_def special_bytes_def by (simp add: body_eval)

lemma cases_16_23_ok:
  "bodies_ok special_bytes 16 decodeCases_16_23 \<and> length decodeCases_16_23 = 8"
  unfolding decodeCases_16_23_def special_bytes_def by (simp add: body_eval)

lemma cases_24_31_ok:
  "bodies_ok special_bytes 24 decodeCases_24_31 \<and> length decodeCases_24_31 = 8"
  unfolding decodeCases_24_31_def special_bytes_def by (simp add: body_eval)

lemma cases_32_39_ok:
  "bodies_ok special_bytes 32 decodeCases_32_39 \<and> length decodeCases_32_39 = 8"
  unfolding decodeCases_32_39_def special_bytes_def by (simp add: body_eval)

lemma cases_40_47_ok:
  "bodies_ok special_bytes 40 decodeCases_40_47 \<and> length decodeCases_40_47 = 8"
  unfolding decodeCases_40_47_def special_bytes_def by (simp add: body_eval)

lemma cases_48_55_ok:
  "bodies_ok special_bytes 48 decodeCases_48_55 \<and> length decodeCases_48_55 = 8"
  unfolding decodeCases_48_55_def special_bytes_def by (simp add: body_eval)

lemma cases_56_63_ok:
  "bodies_ok special_bytes 56 decodeCases_56_63 \<and> length decodeCases_56_63 = 8"
  unfolding decodeCases_56_63_def special_bytes_def by (simp add: body_eval)

lemma cases_64_71_ok:
  "bodies_ok special_bytes 64 decodeCases_64_71 \<and> length decodeCases_64_71 = 8"
  unfolding decodeCases_64_71_def special_bytes_def by (simp add: body_eval)

lemma cases_72_79_ok:
  "bodies_ok special_bytes 72 decodeCases_72_79 \<and> length decodeCases_72_79 = 8"
  unfolding decodeCases_72_79_def special_bytes_def by (simp add: body_eval)

lemma cases_80_87_ok:
  "bodies_ok special_bytes 80 decodeCases_80_87 \<and> length decodeCases_80_87 = 8"
  unfolding decodeCases_80_87_def special_bytes_def by (simp add: body_eval)

lemma cases_88_95_ok:
  "bodies_ok special_bytes 88 decodeCases_88_95 \<and> length decodeCases_88_95 = 8"
  unfolding decodeCases_88_95_def special_bytes_def by (simp add: body_eval)

lemma cases_96_103_ok:
  "bodies_ok special_bytes 96 decodeCases_96_103 \<and> length decodeCases_96_103 = 8"
  unfolding decodeCases_96_103_def special_bytes_def by (simp add: body_eval)

lemma cases_104_111_ok:
  "bodies_ok special_bytes 104 decodeCases_104_111 \<and> length decodeCases_104_111 = 8"
  unfolding decodeCases_104_111_def special_bytes_def by (simp add: body_eval)

lemma cases_112_119_ok:
  "bodies_ok special_bytes 112 decodeCases_112_119 \<and> length decodeCases_112_119 = 8"
  unfolding decodeCases_112_119_def special_bytes_def by (simp add: body_eval)

lemma cases_120_127_ok:
  "bodies_ok special_bytes 120 decodeCases_120_127 \<and> length decodeCases_120_127 = 8"
  unfolding decodeCases_120_127_def special_bytes_def by (simp add: body_eval)

lemma cases_128_135_ok:
  "bodies_ok special_bytes 128 decodeCases_128_135 \<and> length decodeCases_128_135 = 8"
  unfolding decodeCases_128_135_def special_bytes_def by (simp add: body_eval)

lemma cases_136_143_ok:
  "bodies_ok special_bytes 136 decodeCases_136_143 \<and> length decodeCases_136_143 = 8"
  unfolding decodeCases_136_143_def special_bytes_def by (simp add: body_eval)

lemma cases_144_151_ok:
  "bodies_ok special_bytes 144 decodeCases_144_151 \<and> length decodeCases_144_151 = 8"
  unfolding decodeCases_144_151_def special_bytes_def by (simp add: body_eval)

lemma cases_152_159_ok:
  "bodies_ok special_bytes 152 decodeCases_152_159 \<and> length decodeCases_152_159 = 8"
  unfolding decodeCases_152_159_def special_bytes_def by (simp add: body_eval)

lemma cases_160_167_ok:
  "bodies_ok special_bytes 160 decodeCases_160_167 \<and> length decodeCases_160_167 = 8"
  unfolding decodeCases_160_167_def special_bytes_def by (simp add: body_eval)

lemma cases_168_175_ok:
  "bodies_ok special_bytes 168 decodeCases_168_175 \<and> length decodeCases_168_175 = 8"
  unfolding decodeCases_168_175_def special_bytes_def by (simp add: body_eval)

lemma cases_176_183_ok:
  "bodies_ok special_bytes 176 decodeCases_176_183 \<and> length decodeCases_176_183 = 8"
  unfolding decodeCases_176_183_def special_bytes_def by (simp add: body_eval)

lemma cases_184_191_ok:
  "bodies_ok special_bytes 184 decodeCases_184_191 \<and> length decodeCases_184_191 = 8"
  unfolding decodeCases_184_191_def special_bytes_def by (simp add: body_eval)

lemma cases_192_199_ok:
  "bodies_ok special_bytes 192 decodeCases_192_199 \<and> length decodeCases_192_199 = 8"
  unfolding decodeCases_192_199_def special_bytes_def by (simp add: body_eval)

lemma cases_200_207_ok:
  "bodies_ok special_bytes 200 decodeCases_200_207 \<and> length decodeCases_200_207 = 8"
  unfolding decodeCases_200_207_def special_bytes_def by (simp add: body_eval)

lemma cases_208_215_ok:
  "bodies_ok special_bytes 208 decodeCases_208_215 \<and> length decodeCases_208_215 = 8"
  unfolding decodeCases_208_215_def special_bytes_def by (simp add: body_eval)

lemma cases_216_223_ok:
  "bodies_ok special_bytes 216 decodeCases_216_223 \<and> length decodeCases_216_223 = 8"
  unfolding decodeCases_216_223_def special_bytes_def by (simp add: body_eval)

lemma cases_224_231_ok:
  "bodies_ok special_bytes 224 decodeCases_224_231 \<and> length decodeCases_224_231 = 8"
  unfolding decodeCases_224_231_def special_bytes_def by (simp add: body_eval)

lemma cases_232_239_ok:
  "bodies_ok special_bytes 232 decodeCases_232_239 \<and> length decodeCases_232_239 = 8"
  unfolding decodeCases_232_239_def special_bytes_def by (simp add: body_eval)

lemma cases_240_247_ok:
  "bodies_ok special_bytes 240 decodeCases_240_247 \<and> length decodeCases_240_247 = 8"
  unfolding decodeCases_240_247_def special_bytes_def by (simp add: body_eval)

lemma cases_248_255_ok:
  "bodies_ok special_bytes 248 decodeCases_248_255 \<and> length decodeCases_248_255 = 8"
  unfolding decodeCases_248_255_def special_bytes_def by (simp add: body_eval)

lemmas cases_ok = cases_1_7_ok cases_8_15_ok cases_16_23_ok cases_24_31_ok cases_32_39_ok
  cases_40_47_ok cases_48_55_ok cases_56_63_ok cases_64_71_ok cases_72_79_ok
  cases_80_87_ok cases_88_95_ok cases_96_103_ok cases_104_111_ok cases_112_119_ok
  cases_120_127_ok cases_128_135_ok cases_136_143_ok cases_144_151_ok cases_152_159_ok
  cases_160_167_ok cases_168_175_ok cases_176_183_ok cases_184_191_ok cases_192_199_ok
  cases_200_207_ok cases_208_215_ok cases_216_223_ok cases_224_231_ok cases_232_239_ok
  cases_240_247_ok cases_248_255_ok

lemma decodeTable_ok: "bodies_ok special_bytes 1 (tl decodeTable) \<and> length decodeTable = 256"
  by (simp add: decodeTable_def bodies_ok_append cases_ok)

definition window :: "int list \<Rightarrow> bool list" where
  "window ds = take 8 (dewey_bits ds @ replicate 8 False)"

lemma length_window [simp]: "length (window ds) = 8"
  by (simp add: window_def)

lemma compatible_class:
  assumes "take k (dewey_bits zs @ replicate m False) = rest" "True \<in> set rest" "length rest = k"
  shows "\<exists>e zs'. zs = e # zs' \<and> comp_class e \<in> set (filter (compatible rest) comp_classes)"
proof (cases zs)
  case Nil
  have "True \<notin> set (take k (replicate m False))" by simp
  with Nil assms show ?thesis by auto
next
  case (Cons e zs')
  obtain l p n b where c: "comp_class e = (l, p, n, b)" by (metis prod_cases4)
  obtain X where "dewey_bits zs @ replicate m False = nat_bits l p @ X"
    using c Cons by (simp add: comp_bits_def class_bits_def)
  with assms(1) have r: "rest = take k (nat_bits l p @ X)" by simp
  have "compatible rest (l, p, n, b)"
  proof -
    have "take l rest = take (min l k) (nat_bits l p @ X)" by (simp only: r take_take)
    also have "\<dots> = take k (nat_bits l p)" by (cases "k \<le> l") simp_all
    finally show ?thesis using assms(3) by (simp add: compatible_def)
  qed
  with c comp_class_in [of e] Cons show ?thesis by auto
qed

lemma body_step:
  assumes ok: "body_ok w body" and win: "nat_bits 8 w = window ds" and ds: "list_all comp_ok ds"
    and st: "d_bitIndex st < 8" "d_numComps st + length ds \<le> cap"
    and data: "dec_pos st + length (dewey_bits ds) \<le> 8 * length d"
      "buf_slice d (dec_pos st) (length (dewey_bits ds)) = dewey_bits ds"
  shows "\<exists>vs ws st'. ds = vs @ ws \<and> vs \<noteq> [] \<and> run_case cap d body st = Inr st' \<and> decoded True st st' vs"
proof -
  define vs ext where "vs = body_values body" and "ext = body_ext body"
  define k where "k = length (dewey_bits vs)"
  have c: "body = canonical vs ext" "list_all comp_ok vs" "ext = None \<Longrightarrow> vs \<noteq> []"
    "take k (window ds) = dewey_bits vs" "k \<le> 8" "ext_ok (drop k (window ds)) ext"
    using ok by (simp_all add: body_ok_def case_ok_def win vs_def ext_def k_def)
  let ?X = "drop k (window ds) @ drop 8 (dewey_bits ds @ replicate 8 False)"
  have "dewey_bits vs @ ?X = dewey_bits ds @ replicate 8 False"
    unfolding c(4) [symmetric] append.assoc [symmetric] append_take_drop_id
    by (simp only: window_def append_take_drop_id)
  then obtain zs where zs: "ds = vs @ zs" "?X = dewey_bits zs @ replicate 8 False"
    using comp.stream_prefix_zeros comps_ok_int32 [OF c(2)] comps_ok_int32 [OF ds] by blast
  show ?thesis
  proof (cases ext)
    case None
    with c run_canonical [of st vs cap d] st zs show ?thesis by auto
  next
    case (Some q)
    obtain l p n b where q: "q = (l, p, n, b)" by (metis prod_cases4)
    with Some c(6) have e: "0 < n" "True \<in> set (drop k (window ds))"
      "filter (compatible (drop k (window ds))) comp_classes = [(l, p, n, b)]" by auto
    have "take (8 - k) (dewey_bits zs @ replicate 8 False) = drop k (window ds)"
      unfolding zs(2) [symmetric] by simp
    with compatible_class [OF _ e(2)] e(3) obtain v zs' where v: "zs = v # zs'" "comp_class v = (l, p, n, b)"
      by fastforce
    have eq: "dewey_bits ds = dewey_bits (vs @ [v]) @ dewey_bits zs'" using zs v by simp
    have "buf_slice d (dec_pos st) (length (dewey_bits (vs @ [v]))) = dewey_bits (vs @ [v])"
      using buf_slice_take [of "length (dewey_bits (vs @ [v]))" "length (dewey_bits ds)" d "dec_pos st"] data(2)
      unfolding eq by simp
    with run_canonical_ext [of st vs cap v l p n b d] st data(1) ds v zs e(1) c(1) Some q show ?thesis
      by (intro exI [of _ "vs @ [v]"] exI [of _ zs']) auto
  qed
qed

lemmas decodeTable_nth = decodeTable_def nth_append cases_ok

lemma special_bodies:
  "decodeTable ! 17 = [DeweyId 0 (- 4), DeweyId 1 1, CompOffset 1 6, ADVANCE 8, NumComps 2]"
  "decodeTable ! 64 = [DeweyId 0 1, NumComps 1, ADVANCE 2]"
  "decodeTable ! 79 = [CompOffset 1 2, CompOffset 2 5, DeweyId 0 1, DeweyId 1 0, ADVANCE 5, NumComps 2]"
  "decodeTable ! 84 = [CompOffset 1 2, CompOffset 2 4, DeweyId 0 1, DeweyId 1 1, DeweyId 2 1, NumComps 3, ADVANCE 6]"
  "decodeTable ! 85 = [CompOffset 1 2, CompOffset 2 4, CompOffset 3 6, DeweyId 0 1, DeweyId 1 1, DeweyId 2 1,
     DeweyId 3 1, NumComps 4, IncByteIndex]"
  by (simp_all add: decodeTable_nth decodeCases_16_23_def decodeCases_64_71_def decodeCases_72_79_def decodeCases_80_87_def)

text \<open>Bodies that differ from the canonical ones in the order of statements only.\<close>

lemma canonical_special:
  "canonical [- 4, 1] None = [CompOffset 1 6, DeweyId 0 (- 4), DeweyId 1 1, ADVANCE 8, NumComps 2]"
  "canonical [1] None = [DeweyId 0 1, ADVANCE 2, NumComps 1]"
  "canonical [1, 1, 1] None =
    [CompOffset 1 2, CompOffset 2 4, DeweyId 0 1, DeweyId 1 1, DeweyId 2 1, ADVANCE 6, NumComps 3]"
  by (simp_all add: body_eval)

lemma permuted_ok:
  "body_ok 17 (canonical [- 4, 1] None)" "body_ok 64 (canonical [1] None)" "body_ok 84 (canonical [1, 1, 1] None)"
  by (simp_all add: body_eval)

lemma run_permuted:
  "run_case cap d (decodeTable ! 17) st = run_case cap d (canonical [- 4, 1] None) st"
  "run_case cap d (decodeTable ! 64) st = run_case cap d (canonical [1] None) st"
  "run_case cap d (decodeTable ! 84) st = run_case cap d (canonical [1, 1, 1] None) st"
  by (simp_all add: special_bodies canonical_special run_case_def setOffset_def setDewey_def advance_def)

lemma length_small_comps: "length (comp_bits 1) = 2" "length (comp_bits 0) = 3"
  by (simp_all add: length_comp_bits comp_class_cases)

text \<open>Case 79 also sets the offset of a component it does not decode.\<close>

lemma run_79:
  assumes "d_numComps st + 2 < cap"
  shows "\<exists>st'. run_case cap d (decodeTable ! 79) st = Inr st' \<and> decoded True st st' [1, 0]"
  using assms
  by (simp add: special_bodies run_case_def decoded_def length_small_comps All_less_Suc
      setOffset_def setDewey_def advance_def dec_pos_def)

text \<open>Case 85 moves to the next byte without counting its eight bits in \<open>bitLen\<close>.\<close>

lemma run_85:
  assumes "d_numComps st + 4 \<le> cap" "d_bitIndex st < 8"
  shows "\<exists>st'. run_case cap d (decodeTable ! 85) st = Inr st' \<and> decoded False st st' [1, 1, 1, 1]"
  using assms
  by (simp add: special_bodies run_case_def decoded_def length_small_comps All_less_Suc
      setOffset_def setDewey_def advance_def dec_pos_def)

lemma window_zero:
  assumes "window (v # ds) = replicate 8 False" "comp_ok v"
  shows "comp_class v = (9, 1, 20, - 1118484)"
proof -
  obtain l p n b where c: "comp_class v = (l, p, n, b)" by (metis prod_cases4)
  have "list_all (\<lambda>(l, p, n, b). l = 10 \<or> (l, p, n, b) = (9, 1, 20, - 1118484)
      \<or> True \<in> set (take 8 (nat_bits l p))) comp_classes"
    by (simp add: comp_classes_def nat_bits_numeral)
  with comp_class_in [of v] c have "l = 10 \<or> (l, p, n, b) = (9, 1, 20, - 1118484)
      \<or> True \<in> set (take 8 (nat_bits l p))"
    by (auto simp: list_all_iff)
  moreover have "l \<noteq> 10" using assms(2) c by (auto simp: comp_class_cases comp_ok_def split: if_splits)
  moreover have "True \<notin> set (take 8 (nat_bits l p))"
  proof
    assume "True \<in> set (take 8 (nat_bits l p))"
    then have "True \<in> set (window (v # ds))"
      using c by (simp add: window_def comp_bits_def class_bits_def)
    with assms(1) show False by simp
  qed
  ultimately show ?thesis using c by simp
qed

lemma drop_bit_nonzero:
  assumes "i < length d" "s < 8" "k \<le> s" "buf_bit d (8 * i + k)"
  shows "drop_bit (7 - s) (d ! i) \<noteq> 0"
proof
  assume "drop_bit (7 - s) (d ! i) = 0"
  then have "\<not> bit (drop_bit (7 - s) (d ! i)) (s - k)" by simp
  moreover have "7 - s + (s - k) = 7 - k" using assms by simp
  ultimately show False using assms buf_bit_byte [of k i d] by (simp add: bit_drop_bit_eq)
qed

lemma decode_zero:
  assumes v: "comp_ok v" "comp_class v = (9, 1, 20, - 1118484)" "dec_pos st mod 8 \<noteq> 7 \<or> - 594196 \<le> v"
    and st: "d_bitIndex st < 8"
    and data: "dec_pos st + length (comp_bits v) \<le> 8 * length d"
      "buf_slice d (dec_pos st) (length (comp_bits v)) = comp_bits v"
  shows "decodeByte cap d 0 st = run_case cap d (canonical [] (Some (9, 1, 20, - 1118484))) st"
proof -
  define i s where "i = (dec_pos st + 9) div 8" and "s = (dec_pos st + 9) mod 8"
  have pos: "8 * i + s = dec_pos st + 9" "s < 8" by (simp_all add: i_def s_def)
  have idx: "d_byteIndex st + (d_bitIndex st + 9) div 8 = i" "(d_bitIndex st + 9) mod 8 = s"
    using div_mult_self4 [of 8 "d_byteIndex st" "d_bitIndex st + 9"]
    by (simp_all add: i_def s_def dec_pos_def add.assoc) 
  have cb: "comp_bits v = nat_bits 9 1 @ nat_bits 20 (nat (v + 1118484))"
    using v(2) by (simp add: comp_bits_def class_bits_def)
  have len: "length (comp_bits v) = 29" by (simp add: cb)
  have i: "i < length d" using data(1) pos len by linarith
  have b8: "buf_bit d (dec_pos st + 8)" and b9: "- 594196 \<le> v \<Longrightarrow> buf_bit d (dec_pos st + 9)"
  proof -
    have nth: "buf_bit d (dec_pos st + j) = comp_bits v ! j" if "j < 29" for j
      using nth_buf_slice [of j 29 d "dec_pos st"] data(2) that unfolding len by simp
    show "buf_bit d (dec_pos st + 8)" using nth [of 8] by (simp add: cb nth_append nth_nat_bits bit_0)
    assume "- 594196 \<le> v"
    moreover have "v < - 69908" using v(1,2) by (auto simp: comp_class_cases comp_ok_def split: if_splits)
    ultimately have "nat (v + 1118484) div 524288 = 1" by (intro div_nat_eqI) auto
    then have "bit (nat (v + 1118484)) 19" by (simp add: bit_iff_odd)
    then show "buf_bit d (dec_pos st + 9)" using nth [of 9] by (simp add: cb nth_append nth_nat_bits)
  qed
  have "drop_bit (7 - s) (d ! i) \<noteq> 0"
  proof (cases "s = 0")
    case True
    then have "dec_pos st mod 8 = 7" unfolding s_def by presburger
    with v(3) b9 have "buf_bit d (8 * i + 0)" using pos True by simp
    from drop_bit_nonzero [OF i pos(2) _ this] show ?thesis by simp
  next
    case False
    then have "8 * i + (s - 1) = dec_pos st + 8" using pos(1) by linarith
    with b8 have "buf_bit d (8 * i + (s - 1))" by simp
    from drop_bit_nonzero [OF i pos(2) _ this] show ?thesis by simp
  qed
  then show ?thesis
    using i idx by (simp add: decodeByte_def decodeCase0_def run_case_def canonical_def setOffset_def advance_def Let_def)
qed

text \<open>
  The components on which \<open>decodeByte\<close> is right. The bodies of the cases 31, 86, 164 and 167 misread
  \<open>-1\<close> before a component of at least 4, \<open>1.1.1.2\<close> and \<open>1.1.1.3\<close>, and \<open>3.0\<close> before a component
  other than 1, 2 and 3. Case 85 (\<open>1.1.1.1\<close>) is right about the components but not about the
  offsets (\<open>exact\<close> asks for these too). Case 0 tells the two lowest ranges apart by a bit that is
  in a byte of its own when the component starts at the last bit of a byte.
\<close>

definition misread :: "int list \<Rightarrow> bool" where
  "misread ds \<longleftrightarrow>
     take 1 ds = [- 1] \<and> 1 < length ds \<and> 4 \<le> ds ! 1
   \<or> take 3 ds = [1, 1, 1] \<and> 3 < length ds \<and> (ds ! 3 = 2 \<or> ds ! 3 = 3)
   \<or> take 2 ds = [3, 0] \<and> (2 < length ds \<longrightarrow> ds ! 2 \<le> 0 \<or> 4 \<le> ds ! 2)"

definition window_ok :: "bool \<Rightarrow> nat \<Rightarrow> int list \<Rightarrow> bool" where
  "window_ok exact pos ds \<longleftrightarrow> \<not> misread ds \<and> \<not> (exact \<and> take 4 ds = [1, 1, 1, 1])
     \<and> \<not> (hd ds < - 594196 \<and> pos mod 8 = 7)"

fun decodable :: "bool \<Rightarrow> nat \<Rightarrow> int list \<Rightarrow> bool" where
  "decodable exact pos [] \<longleftrightarrow> True"
| "decodable exact pos (v # ds) \<longleftrightarrow> window_ok exact pos (v # ds)
     \<and> decodable exact (pos + length (comp_bits v)) ds"

lemma decodable_append:
  "decodable exact pos (vs @ ws) \<Longrightarrow> decodable exact (pos + length (dewey_bits vs)) ws"
  by (induction vs arbitrary: pos) (auto simp flip: add.assoc)

lemma window_prefix:
  assumes "window ds = dewey_bits vs @ xs" "list_all comp_ok ds" "list_all comp_ok vs"
  shows "\<exists>ws ys. ds = vs @ ws \<and> xs @ ys = dewey_bits ws @ replicate 8 False"
proof -
  have "dewey_bits ds @ replicate 8 False = window ds @ drop 8 (dewey_bits ds @ replicate 8 False)"
    by (simp only: window_def append_take_drop_id)
  then have "dewey_bits vs @ (xs @ drop 8 (dewey_bits ds @ replicate 8 False)) = dewey_bits ds @ replicate 8 False"
    by (simp only: assms(1) append.assoc)
  then show ?thesis
    using comp.stream_prefix_zeros comps_ok_int32 assms(2,3) by blast
qed

lemma window_79:
  assumes "window ds = nat_bits 8 79" "list_all comp_ok ds"
  shows "\<exists>v ws. ds = [1, 0] @ v # ws"
proof -
  have "window ds = dewey_bits [1, 0] @ [True, True, True]"
    unfolding assms(1) by (simp add: comp_bits_def class_bits_def comp_class_cases nat_bits_numeral)
  from window_prefix [OF this assms(2)] obtain ws ys where "ds = [1, 0] @ ws"
    "[True, True, True] @ ys = dewey_bits ws @ replicate 8 False"
    by (auto simp: comp_ok_def INT32_MAX_def)
  then show ?thesis by (cases ws) (auto simp: numeral_eq_Suc)
qed

lemma window_85:
  assumes "window ds = nat_bits 8 85" "list_all comp_ok ds"
  shows "\<exists>ws. ds = [1, 1, 1, 1] @ ws"
proof -
  have "window ds = dewey_bits [1, 1, 1, 1] @ []"
    unfolding assms(1) by (simp add: comp_bits_def class_bits_def comp_class_cases nat_bits_numeral)
  from window_prefix [OF this assms(2)] show ?thesis
    by (auto simp: comp_ok_def INT32_MAX_def)
qed

lemma comp_bits_first_two:
  "\<exists>xs. comp_bits v = (2 \<le> v) # (v = 1 \<or> 4 \<le> v) # xs"
  by (auto simp: comp_bits_def class_bits_def comp_class_cases nat_bits_numeral)

lemma window_first_two:
  assumes "[x, y] @ ys = dewey_bits ws @ replicate 8 False" "ws \<noteq> []"
  shows "x = (2 \<le> hd ws)" "y = (hd ws = 1 \<or> 4 \<le> hd ws)"
  using assms comp_bits_first_two [of "hd ws"] by (cases ws; auto)+

lemma misread_windows:
  "nat_bits 8 31 = dewey_bits [- 1] @ [True, True]"
  "nat_bits 8 86 = dewey_bits [1, 1, 1] @ [True, False]"
  "nat_bits 8 164 = dewey_bits [3, 0] @ [False, False]"
  "nat_bits 8 167 = dewey_bits [3, 0] @ [True, True]"
  by (simp_all add: comp_bits_def class_bits_def comp_class_cases nat_bits_numeral)

lemma window_misread:
  assumes "window ds = nat_bits 8 w" "w \<in> {31, 86, 164, 167}" "list_all comp_ok ds"
  shows "misread ds"
proof -
  have split: "\<exists>ws. ds = vs @ ws \<and> (ws \<noteq> [] \<longrightarrow> x = (2 \<le> hd ws) \<and> y = (hd ws = 1 \<or> 4 \<le> hd ws))
      \<and> (ws = [] \<longrightarrow> \<not> x)"
    if "nat_bits 8 w = dewey_bits vs @ [x, y]" "list_all comp_ok vs" for vs x y
  proof -
    from window_prefix [of ds vs "[x, y]"] that assms(1,3) obtain ws ys where
      ws: "ds = vs @ ws" "[x, y] @ ys = dewey_bits ws @ replicate 8 False" by auto
    then show ?thesis using window_first_two [OF ws(2)] by (auto simp: numeral_eq_Suc)
  qed
  from assms(2) consider "w = 31" | "w = 86" | "w = 164" | "w = 167" by auto
  then show ?thesis
  proof cases
    case 1
    then have "nat_bits 8 w = dewey_bits [- 1] @ [True, True]" by (simp only: misread_windows(1))
    from split [OF this] obtain v ws where "ds = [- 1] @ v # ws" "4 \<le> v"
      by (auto simp: comp_ok_def INT32_MAX_def neq_Nil_conv)
    then show ?thesis by (simp add: misread_def)
  next
    case 2
    then have "nat_bits 8 w = dewey_bits [1, 1, 1] @ [True, False]" by (simp only: misread_windows(2))
    from split [OF this] obtain v ws where "ds = [1, 1, 1] @ v # ws" "2 \<le> v" "v < 4"
      by (auto simp: comp_ok_def INT32_MAX_def neq_Nil_conv)
    then show ?thesis by (auto simp: misread_def)
  next
    case 3
    then have "nat_bits 8 w = dewey_bits [3, 0] @ [False, False]" by (simp only: misread_windows(3))
    from split [OF this] obtain ws where "ds = [3, 0] @ ws" "ws \<noteq> [] \<longrightarrow> hd ws \<le> 0"
      by (auto simp: comp_ok_def INT32_MAX_def)
    then show ?thesis by (cases ws) (auto simp: misread_def)
  next
    case 4
    then have "nat_bits 8 w = dewey_bits [3, 0] @ [True, True]" by (simp only: misread_windows(4))
    from split [OF this] obtain v ws where "ds = [3, 0] @ v # ws" "4 \<le> v"
      by (auto simp: comp_ok_def INT32_MAX_def neq_Nil_conv)
    then show ?thesis by (simp add: misread_def)
  qed
qed

lemma decodeByte_run: "byte \<noteq> 0 \<Longrightarrow> decodeByte cap d byte st = run_case cap d (decodeTable ! unat byte) st"
  by (simp add: decodeByte_def run_case_def)

lemma regular_body: "0 < w \<Longrightarrow> w < 256 \<Longrightarrow> int w \<notin> set special_bytes \<Longrightarrow> body_ok w (decodeTable ! w)"
  using bodies_ok_nth [of special_bytes 1 "tl decodeTable" "w - 1"] decodeTable_ok
  by (simp add: nth_tl)

lemma decodeByte_step:
  assumes win: "nat_bits 8 (unat byte) = window ds" and ds: "ds \<noteq> []" "list_all comp_ok ds"
    and ok: "window_ok exact (dec_pos st) ds"
    and st: "d_bitIndex st < 8" "d_numComps st + length ds \<le> cap"
    and data: "dec_pos st + length (dewey_bits ds) \<le> 8 * length d"
      "buf_slice d (dec_pos st) (length (dewey_bits ds)) = dewey_bits ds"
  shows "\<exists>vs ws st'. ds = vs @ ws \<and> vs \<noteq> [] \<and> decodeByte cap d byte st = Inr st' \<and> decoded exact st st' vs"
proof (cases "byte = 0")
  case True
  obtain v ds' where v: "ds = v # ds'" using ds(1) by (cases ds) auto
  have "window (v # ds') = replicate 8 False"
    using win True v by (simp add: nat_bits_numeral numeral_eq_Suc)
  with window_zero ds(2) v have c: "comp_class v = (9, 1, 20, - 1118484)" by simp
  have slice: "buf_slice d (dec_pos st) (length (comp_bits v)) = comp_bits v"
    using buf_slice_take [of "length (comp_bits v)" "length (dewey_bits ds)" d "dec_pos st"] data(2) v by simp
  have "decodeByte cap d 0 st = run_case cap d (canonical [] (Some (9, 1, 20, - 1118484))) st"
    using decode_zero [of v st d cap] c ds(2) v ok st(1) data(1) slice by (auto simp: window_ok_def)
  with run_canonical_ext [of st "[]" cap v 9 1 20 "- 1118484" d] c ds(2) v st data(1) slice True decoded_weaken
  show ?thesis by (intro exI [of _ "[v]"] exI [of _ ds']) auto
next
  case False
  define w where "w = unat byte"
  have w: "0 < w" "w < 256"
    using False unsigned_less [where 'a = nat, of byte] by (auto simp: w_def unat_gt_0)
  note run = decodeByte_run [OF False, of cap d st, folded w_def]
  note step = body_step [OF _ win [folded w_def] ds(2) st data]
  have "w \<notin> {31, 86, 164, 167}"
    using ok win window_misread [OF _ _ ds(2), of w] by (auto simp: window_ok_def w_def)
  then have "int w \<notin> set special_bytes \<or> w \<in> {17, 64, 84} \<or> w = 79 \<or> w = 85"
    by (auto simp: special_bytes_def)
  then consider "int w \<notin> set special_bytes" | "w \<in> {17, 64, 84}" | "w = 79" | "w = 85" by blast
  then show ?thesis
  proof cases
    case 1
    from step [OF regular_body [OF w(1,2) this]] run decoded_weaken show ?thesis by metis
  next
    case 2
    then obtain body where "run_case cap d (decodeTable ! w) st = run_case cap d body st" "body_ok w body"
      using run_permuted permuted_ok by blast
    with step [of body] run decoded_weaken show ?thesis by metis
  next
    case 3
    with win window_79 [OF _ ds(2)] obtain v ws where ws: "ds = [1, 0] @ v # ws" by (auto simp: w_def)
    with run_79 [of st cap d] st(2) 3 run decoded_weaken show ?thesis
      by (intro exI [of _ "[1, 0]"] exI [of _ "v # ws"]) auto
  next
    case 4
    with win window_85 [OF _ ds(2)] obtain ws where ws: "ds = [1, 1, 1, 1] @ ws" by (auto simp: w_def)
    have "\<not> exact" using ok ws by (simp add: window_ok_def)
    with ws run_85 [of st cap d] st 4 run show ?thesis
      by (intro exI [of _ "[1, 1, 1, 1]"] exI [of _ ws]) auto
  qed
qed

section \<open>Decompressing whole ids\<close>

lemma nat_bits_byte:
  fixes byte :: byte
  assumes "\<And>j. j < 8 \<Longrightarrow> bit byte (7 - j) = buf_bit d (s + j)"
  shows "nat_bits 8 (unat byte) = buf_slice d s 8"
  using assms by (intro nth_equalityI) (simp_all add: nth_nat_bits bit_unsigned_iff)

lemma main_window:
  assumes "Suc i < length d" "k < 8"
  shows "nat_bits 8 (unat (push_bit k (d ! i AND fst (theByteMasks ! k))
      OR drop_bit (8 - k) (d ! Suc i AND snd (theByteMasks ! k)))) = buf_slice d (8 * i + k) 8"
proof (rule nat_bits_byte)
  fix j :: nat assume j: "j < 8"
  show "bit (push_bit k (d ! i AND fst (theByteMasks ! k)) OR drop_bit (8 - k) (d ! Suc i AND snd (theByteMasks ! k))) (7 - j)
     = buf_bit d (8 * i + k + j)"
  proof (cases "k + j < 8")
    case True
    then have "\<not> 8 - k + (7 - j) < 8" "7 - j - k = 7 - (k + j)" "k \<le> 7 - j" by auto
    with True j assms buf_bit_byte [of "k + j" i d] show ?thesis
      by (auto simp: bit_or_iff bit_push_bit_iff bit_drop_bit_eq bit_and_iff theByteMasks_bit add.assoc dest: bit_imp_le_length)
  next
    case False
    then have "8 * i + k + j = 8 * Suc i + (k + j - 8)" "8 - k + (7 - j) = 7 - (k + j - 8)"
      "\<not> k \<le> 7 - j" "k + j - 8 < 8" using j assms(2) by auto
    with False j assms buf_bit_byte [of "k + j - 8" "Suc i" d] show ?thesis
      by (auto simp: bit_or_iff bit_push_bit_iff bit_drop_bit_eq bit_and_iff theByteMasks_bit add.assoc)
  qed
qed

lemma last_window:
  assumes "i < length d" "k < 8" "\<And>j. 8 * Suc i \<le> j \<Longrightarrow> \<not> buf_bit d j"
  shows "nat_bits 8 (unat (push_bit k (d ! i))) = buf_slice d (8 * i + k) 8"
proof (rule nat_bits_byte)
  fix j :: nat assume j: "j < 8"
  show "bit (push_bit k (d ! i)) (7 - j) = buf_bit d (8 * i + k + j)"
  proof (cases "k + j < 8")
    case True
    then have "7 - j - k = 7 - (k + j)" "k \<le> 7 - j" by auto
    with True j assms(1,2) buf_bit_byte [of "k + j" i d] show ?thesis
      by (auto simp: bit_push_bit_iff add.assoc)
  next
    case False
    then have "8 * Suc i \<le> 8 * i + k + j" "\<not> k \<le> 7 - j" using j by auto
    with assms(3) show ?thesis by (simp add: bit_push_bit_iff)
  qed
qed

lemma padded_window:
  assumes "padded d (pre @ dewey_bits ds)"
  shows "buf_slice d (length pre) 8 = window ds"
    and "buf_slice d (length pre) (length (dewey_bits ds)) = dewey_bits ds"
    and "length pre + length (dewey_bits ds) \<le> 8 * length d"
proof -
  have bit: "buf_bit d (length pre + i) \<longleftrightarrow> i < length (dewey_bits ds) \<and> dewey_bits ds ! i" for i
    using padded_bit [OF assms, of "length pre + i"] by (simp add: nth_append)
  show "buf_slice d (length pre) 8 = window ds"
  proof (rule nth_equalityI)
    fix i assume "i < length (buf_slice d (length pre) 8)"
    then show "buf_slice d (length pre) 8 ! i = window ds ! i"
      by (cases "i < length (dewey_bits ds)") (simp_all add: bit window_def nth_append)
  qed simp
  show "buf_slice d (length pre) (length (dewey_bits ds)) = dewey_bits ds"
    by (rule nth_equalityI) (simp_all add: bit)
  show "length pre + length (dewey_bits ds) \<le> 8 * length d"
    using padded_length [OF assms] by simp
qed

text \<open>The state of the loops: the components of \<open>ds\<close> are left to decode.\<close>

definition decoding :: "bool \<Rightarrow> nat \<Rightarrow> byte list \<Rightarrow> nat \<Rightarrow> bool list \<Rightarrow> int list \<Rightarrow> decoder \<Rightarrow> bool" where
  "decoding exact cap d byteLen bs ds st \<longleftrightarrow>
     (\<exists>pre. bs = pre @ dewey_bits ds \<and> dec_pos st = length pre) \<and> padded d bs
     \<and> byteLen = (length bs + 7) div 8 \<and> byteLen \<le> length d \<and> bs \<noteq> [] \<and> last bs
     \<and> list_all comp_ok ds \<and> decodable exact (dec_pos st) ds
     \<and> d_bitIndex st < 8 \<and> d_numComps st + length ds \<le> cap"

lemma decoding_step:
  assumes "decoding exact cap d byteLen bs ds st" "ds \<noteq> []"
    and "nat_bits 8 (unat byte) = buf_slice d (dec_pos st) 8"
  shows "\<exists>vs ws st'. ds = vs @ ws \<and> vs \<noteq> [] \<and> decodeByte cap d byte st = Inr st'
     \<and> decoded exact st st' vs \<and> decoding exact cap d byteLen bs ws st'"
proof -
  obtain pre where pre: "bs = pre @ dewey_bits ds" "dec_pos st = length pre" "padded d (pre @ dewey_bits ds)"
    using assms(1) by (auto simp: decoding_def)
  have ok: "window_ok exact (dec_pos st) ds"
    using assms(1,2) by (cases ds) (auto simp: decoding_def)
  note w = padded_window [OF pre(3)]
  have "\<exists>vs ws st'. ds = vs @ ws \<and> vs \<noteq> [] \<and> decodeByte cap d byte st = Inr st' \<and> decoded exact st st' vs"
    by (rule decodeByte_step [OF _ assms(2) _ ok])
      (use assms w pre(2) in \<open>auto simp: decoding_def\<close>)
  then obtain vs ws st' where s: "ds = vs @ ws" "vs \<noteq> []" "decodeByte cap d byte st = Inr st'"
    "decoded exact st st' vs" by blast
  moreover have "decoding exact cap d byteLen bs ws st'"
    using assms(1) s pre by (auto simp: decoding_def decoded_def decodable_append intro!: exI [of _ "pre @ dewey_bits vs"])
  ultimately show ?thesis by blast
qed

lemma dewey_bits_Nil [simp]: "dewey_bits ds = [] \<longleftrightarrow> ds = []"
  by (cases ds) auto

lemma decoding_inside:
  assumes "decoding exact cap d byteLen bs ds st" "d_byteIndex st + 1 < byteLen"
  shows "ds \<noteq> []"
  using assms by (auto simp: decoding_def dec_pos_def)

lemma decoding_done:
  assumes "decoding exact cap d byteLen bs ds st" "byteLen \<le> d_byteIndex st"
  shows "ds = []"
proof -
  obtain pre where pre: "bs = pre @ dewey_bits ds" "dec_pos st = length pre" "byteLen = (length bs + 7) div 8"
    using assms(1) by (auto simp: decoding_def)
  have "length bs \<le> 8 * byteLen" unfolding pre(3) by linarith
  with pre(1,2) assms(2) have "length (dewey_bits ds) = 0" by (simp add: dec_pos_def del: length_0_conv)
  then show ?thesis by simp
qed

lemma decoding_length:
  assumes "decoding exact cap d byteLen bs ds st"
  shows "0 < byteLen" "byteLen \<le> length d" "d_bitIndex st < 8"
proof -
  have "0 < length bs" "byteLen = (length bs + 7) div 8" using assms by (auto simp: decoding_def)
  then show "0 < byteLen" by linarith
  show "byteLen \<le> length d" "d_bitIndex st < 8" using assms by (auto simp: decoding_def)
qed

lemma decompressLoop_spec:
  assumes "decoding exact cap d byteLen bs ds st" "length ds < fuel"
  shows "\<exists>vs ws st'. ds = vs @ ws \<and> decompressLoop fuel cap d byteLen st = Inr st'
     \<and> decoded exact st st' vs \<and> decoding exact cap d byteLen bs ws st' \<and> byteLen \<le> d_byteIndex st' + 1"
  using assms
proof (induction fuel arbitrary: ds st)
  case (Suc fuel)
  have len: "byteLen \<noteq> 0" "byteLen \<le> length d" "d_bitIndex st < 8"
    using decoding_length [OF Suc.prems(1)] by auto
  show ?case
  proof (cases "d_byteIndex st + 1 < byteLen")
    case True
    let ?i = "d_byteIndex st" and ?k = "d_bitIndex st"
    define byte where "byte = push_bit ?k (d ! ?i AND fst (theByteMasks ! ?k))
      OR drop_bit (8 - ?k) (d ! Suc ?i AND snd (theByteMasks ! ?k))"
    have "nat_bits 8 (unat byte) = buf_slice d (dec_pos st) 8"
      using main_window [of ?i d ?k] True len by (simp add: byte_def dec_pos_def)
    from decoding_step [OF Suc.prems(1) decoding_inside [OF Suc.prems(1) True] this]
    obtain vs ws st1 where s: "ds = vs @ ws" "vs \<noteq> []" "decodeByte cap d byte st = Inr st1"
      "decoded exact st st1 vs" "decoding exact cap d byteLen bs ws st1" by blast
    have "length ws < fuel" using s(1,2) Suc.prems(2) by (cases vs) auto
    from Suc.IH [OF s(5) this] obtain vs' ws' st' where "ws = vs' @ ws'"
      "decompressLoop fuel cap d byteLen st1 = Inr st'" "decoded exact st1 st' vs'"
      "decoding exact cap d byteLen bs ws' st'" "byteLen \<le> d_byteIndex st' + 1" by blast
    moreover from this(2) have "decompressLoop (Suc fuel) cap d byteLen st = Inr st'"
      using True len s(3) [unfolded byte_def] by (subst decompressLoop.simps) simp
    ultimately show ?thesis
      using s(1) decoded_append [OF s(4)] by (intro exI [of _ "vs @ vs'"] exI [of _ ws'] exI [of _ st']) auto
  next
    case False
    with len Suc.prems(1) decoded_Nil show ?thesis
      by (intro exI [of _ "[]"] exI [of _ ds] exI [of _ st]) (auto simp: decompressLoop.simps)
  qed
qed simp

lemma last_byte_zero:
  assumes "decoding exact cap d byteLen bs ds st" "d_byteIndex st + 1 = byteLen"
  shows "nat_bits 8 (unat (push_bit (d_bitIndex st) (d ! d_byteIndex st))) = buf_slice d (dec_pos st) 8"
    and "push_bit (d_bitIndex st) (d ! d_byteIndex st) = 0 \<longleftrightarrow> ds = []"
    and "d ! d_byteIndex st \<noteq> 0"
proof -
  obtain pre where pre: "bs = pre @ dewey_bits ds" "dec_pos st = length pre" "padded d bs"
    "byteLen = (length bs + 7) div 8" "bs \<noteq> []" "last bs" "list_all comp_ok ds"
    using assms(1) unfolding decoding_def by blast
  note len = decoding_length [OF assms(1)]
  have i: "d_byteIndex st < length d" using assms(2) len by simp
  have bl: "length bs \<le> 8 * byteLen" unfolding pre(4) by linarith
  show win: "nat_bits 8 (unat (push_bit (d_bitIndex st) (d ! d_byteIndex st))) = buf_slice d (dec_pos st) 8"
    unfolding dec_pos_def by (rule last_window [OF i len(3)]) (use bl assms(2) padded_bit [OF pre(3)] in auto)
  show "push_bit (d_bitIndex st) (d ! d_byteIndex st) = 0 \<longleftrightarrow> ds = []"
  proof
    assume z: "push_bit (d_bitIndex st) (d ! d_byteIndex st) = 0"
    show "ds = []"
    proof (rule ccontr)
      assume "ds \<noteq> []"
      then have "True \<in> set (dewey_bits ds)"
        using comp.stream_nonempty comps_ok_int32 pre(7) by blast
      then obtain j where j: "j < length (dewey_bits ds)" "dewey_bits ds ! j"
        unfolding in_set_conv_nth by blast
      have "j < 8" using bl pre(1,2) j(1) assms(2) by (simp add: dec_pos_def)
      moreover have "buf_bit d (dec_pos st + j)" using padded_bit [OF pre(3)] j pre(1,2) by simp
      ultimately have "nat_bits 8 (unat (push_bit (d_bitIndex st) (d ! d_byteIndex st))) ! j"
        unfolding win by simp
      then show False using \<open>j < 8\<close> by (simp add: z nth_nat_bits)
    qed
  next
    assume "ds = []"
    with pre(1-3) padded_window(1) [of d pre "[]"] have "buf_slice d (dec_pos st) 8 = replicate 8 False"
      by (simp add: window_def)
    with win have nb: "nat_bits 8 (unat (push_bit (d_bitIndex st) (d ! d_byteIndex st))) = replicate 8 False"
      by simp
    have "\<not> bit (push_bit (d_bitIndex st) (d ! d_byteIndex st)) j" if "j < 8" for j
    proof -
      have "\<not> nat_bits 8 (unat (push_bit (d_bitIndex st) (d ! d_byteIndex st))) ! (7 - j)"
        unfolding nb by simp
      then show ?thesis using that by (simp add: nth_nat_bits bit_unsigned_iff)
    qed
    then show "push_bit (d_bitIndex st) (d ! d_byteIndex st) = 0" by (intro bit_word_eqI) simp
  qed
  show "d ! d_byteIndex st \<noteq> 0"
  proof -
    have l: "buf_bit d (length bs - 1)" using padded_bit [OF pre(3)] pre(5,6) by (simp add: last_conv_nth)
    have n: "0 < length bs" using pre(5) by simp
    define k where "k = length bs - 1 - 8 * d_byteIndex st"
    have "length bs - 1 = 8 * d_byteIndex st + k" "k < 8"
      using assms(2) pre(4) n unfolding k_def by linarith+
    with l show ?thesis using byte_zero_iff [OF i] by metis
  qed
qed

lemma decompressLast_spec:
  assumes "decoding exact cap d byteLen bs ds st" "length ds < fuel" "byteLen \<le> d_byteIndex st + 1"
  shows "\<exists>st'. decompressLast fuel cap d byteLen st = Inr st' \<and> decoded exact st st' ds"
  using assms
proof (induction fuel arbitrary: ds st)
  case (Suc fuel)
  note len = decoding_length [OF Suc.prems(1)]
  show ?case
  proof (cases "d_byteIndex st + 1 = byteLen")
    case True
    note z = last_byte_zero [OF Suc.prems(1) True]
    have i: "d_byteIndex st < length d" using True len by simp
    let ?byte = "push_bit (d_bitIndex st) (d ! d_byteIndex st)"
    show ?thesis
    proof (cases "?byte = 0")
      case zero: True
      with z(2) True i decoded_Nil [OF len(3)] show ?thesis by (simp add: decompressLast.simps)
    next
      case False
      then have "ds \<noteq> []" using z(2) by simp
      from decoding_step [OF Suc.prems(1) this z(1)]
      obtain vs ws st1 where s: "ds = vs @ ws" "vs \<noteq> []" "decodeByte cap d ?byte st = Inr st1"
        "decoded exact st st1 vs" "decoding exact cap d byteLen bs ws st1" by blast
      have "length ws < fuel" using s(1,2) Suc.prems(2) by (cases vs) auto
      moreover have "byteLen \<le> d_byteIndex st1 + 1" using True s(4) len(3) by (simp add: decoded_def dec_pos_def)
      ultimately obtain st' where "decompressLast fuel cap d byteLen st1 = Inr st'" "decoded exact st1 st' ws"
        using Suc.IH [OF s(5)] by blast
      with s True i False decoded_append [OF s(4)] show ?thesis by (subst decompressLast.simps) simp
    qed
  next
    case False
    with Suc.prems(3) decoding_done [OF Suc.prems(1)] decoded_Nil [OF len(3)] show ?thesis
      by (simp add: decompressLast.simps)
  qed
qed simp

lemma holds_data:
  assumes "holds p bs" "bs \<noteq> []" "last bs" "dataAndLength p = (d, byteLen)"
  shows "padded d bs" "byteLen = (length bs + 7) div 8" "byteLen \<le> length d"
proof -
  have "padded d bs \<and> byteLen = (length bs + 7) div 8 \<and> byteLen \<le> length d"
  proof (cases p)
    case (Local l)
    then have l: "marked l bs" "length l = 8" "length bs \<le> 63" using assms(1) by (auto simp: marked_def)
    moreover have "d = markRemote l" "byteLen = (length bs + 7) div 8"
      using Local assms getLocalByteLength_spec [OF l(1)] by auto
    ultimately show ?thesis by (simp add: padded_markRemote) (simp add: markRemote_def)
  qed (use assms in auto)
  then show "padded d bs" "byteLen = (length bs + 7) div 8" "byteLen \<le> length d" by auto
qed

lemma decompress_spec:
  assumes "holds p bs" "bs = pre @ dewey_bits ds" "bs \<noteq> []" "last bs"
    and "list_all comp_ok ds" "decodable exact (length pre) ds" "numComps + length ds \<le> cap"
  shows "\<exists>st'. decompress p (length pre) cap deweyid compOffsets numComps = Inr st'
    \<and> decoded exact (decoderInit (length pre) deweyid compOffsets numComps) st' ds"
proof -
  let ?st = "decoderInit (length pre) deweyid compOffsets numComps"
  obtain d byteLen where d: "dataAndLength p = (d, byteLen)" by (cases "dataAndLength p")
  note data = holds_data [OF assms(1,3,4) d]
  have dec: "decoding exact cap d byteLen bs ds ?st"
    using assms data by (auto simp: decoding_def decoderInit_def dec_pos_def)
  have "2 * length ds \<le> 8 * length d"
    using length_dewey_bits_ge [of ds] padded_length [OF data(1)] assms(2) by simp
  then have fuel: "length ds < 8 * length d + 1" by simp
  from decompressLoop_spec [OF dec fuel] obtain vs ws st1 where s: "ds = vs @ ws"
    "decompressLoop (8 * length d + 1) cap d byteLen ?st = Inr st1" "decoded exact ?st st1 vs"
    "decoding exact cap d byteLen bs ws st1" "byteLen \<le> d_byteIndex st1 + 1" by blast
  note len = decoding_length [OF s(4)]
  show ?thesis
  proof (cases "d_byteIndex st1 + 1 = byteLen")
    case True
    have "length ws < 8 * length d + 1" using s(1) fuel by simp
    from decompressLast_spec [OF s(4) this s(5)] obtain st' where
      "decompressLast (8 * length d + 1) cap d byteLen st1 = Inr st'" "decoded exact st1 st' ws" by blast
    with True s d len last_byte_zero(3) [OF s(4) True] decoded_append [OF s(3)] show ?thesis
      by (auto simp: decompress_def)
  next
    case False
    with s(5) decoding_done [OF s(4)] have "ws = []" by simp
    with False s d show ?thesis by (auto simp: decompress_def)
  qed
qed

lemma decoded_init:
  assumes "decoded exact (decoderInit s deweyid compOffsets numComps) st' ds"
  shows "d_numComps st' = numComps + length ds"
    and "map (d_deweyid st') [numComps..<numComps + length ds] = ds"
    and "\<And>j. j < numComps \<Longrightarrow> d_deweyid st' j = deweyid j"
    and "exact \<Longrightarrow> d_bitLen st' = s + length (dewey_bits ds)"
    and "exact \<Longrightarrow> i < length ds \<Longrightarrow> d_compOffsets st' (numComps + i) = s + length (dewey_bits (take i ds))"
  using assms by (auto simp: decoded_def decoderInit_def intro: nth_equalityI)

section \<open>The loops end\<close>

fun stmt_bits :: "case_stmt \<Rightarrow> nat" where
  "stmt_bits (ADVANCE n) = n"
| "stmt_bits (ExtractValue n base i) = n"
| "stmt_bits IncByteIndex = 8"
| "stmt_bits _ = 0"

lemma addBase_error: "addBase r base = Inl e \<Longrightarrow> e = Undefined"
  by (simp add: addBase_def Let_def split: if_splits)

lemma extractBytes_error: "extractBytes d k i r = Inl e \<Longrightarrow> e = Undefined"
  by (induction k arbitrary: i r) (auto simp: bindE_def split: sum.splits dest: rd_error)

lemma extractValue_state:
  assumes "d_bitIndex st < 8"
  shows "extractValue d n base st = Inl Undefined \<or> (\<exists>v. extractValue d n base st = Inr (v, advance n st))"
proof (cases "n < 8 - d_bitIndex st")
  case True
  then have "(d_bitIndex st + n) div 8 = 0" "(d_bitIndex st + n) mod 8 = d_bitIndex st + n" by auto
  with True show ?thesis
    by (auto simp: extractValue_def advance_def Let_def bindE_def split: sum.splits dest: rd_error addBase_error)
next
  case False
  define m where "m = n - (8 - d_bitIndex st)"
  have "d_bitIndex st + n = 8 * Suc (m div 8) + m mod 8"
    using False assms by (simp add: m_def)
  then have "(d_bitIndex st + n) div 8 = Suc (m div 8)" "(d_bitIndex st + n) mod 8 = m - m div 8 * 8"
    by (simp_all add: minus_div_mult_eq_mod)
  with False show ?thesis
    by (auto simp: extractValue_def advance_def Let_def bindE_def m_def [symmetric] split: sum.splits
        dest: rd_error addBase_error extractBytes_error)
qed

definition progress :: "nat \<Rightarrow> decoder \<Rightarrow> decoder outcome \<Rightarrow> bool" where
  "progress n st r \<longleftrightarrow> r = Inl Undefined
     \<or> (\<exists>st'. r = Inr st' \<and> d_bitIndex st' < 8 \<and> dec_pos st' = dec_pos st + n)"

lemma progress_bind:
  assumes "progress n st r" "\<And>st'. d_bitIndex st' < 8 \<Longrightarrow> progress m st' (f st')"
  shows "progress (n + m) st (bindE r f)"
proof -
  from assms(1) consider "r = Inl Undefined"
    | st' where "r = Inr st'" "d_bitIndex st' < 8" "dec_pos st' = dec_pos st + n"
    by (auto simp: progress_def)
  then show ?thesis
  proof cases
    case 2
    with assms(2) [of st'] show ?thesis by (auto simp: progress_def)
  qed (simp add: progress_def)
qed

lemma progress_set:
  assumes "d_bitIndex st < 8"
  shows "progress 0 st (setOffset cap i v st)" "progress 0 st (setDewey cap i w st)"
  using assms by (simp_all add: progress_def setOffset_def setDewey_def)

lemma exec_stmt_progress:
  assumes "d_bitIndex st < 8" shows "progress (stmt_bits s) st (exec_stmt cap d s st)"
proof (cases s)
  case (ExtractValue n base i)
  from extractValue_state [OF assms, of d n base] ExtractValue show ?thesis
    by (auto simp: progress_def setDewey_def)
qed (use assms in \<open>auto simp: progress_def setOffset_def setDewey_def dec_pos_def advance_def\<close>)

lemma exec_progress:
  "d_bitIndex st < 8 \<Longrightarrow> progress (sum_list (map stmt_bits body)) st (exec cap d body st)"
proof (induction body arbitrary: st)
  case (Cons s body)
  then show ?case using progress_bind [OF exec_stmt_progress] by simp
qed (simp add: progress_def)

lemma bodies_advance: "list_all (\<lambda>body. 0 < sum_list (map stmt_bits body)) (tl decodeTable)"
  by (simp add: decodeTable_def decodeCases_defs)

lemma decodeByte_progress:
  assumes "d_bitIndex st < 8" shows "\<exists>n > 0. progress n st (decodeByte cap d byte st)"
proof (cases "byte = 0")
  case True
  have case0: "\<exists>n > 0. progress n st (decodeCase0 cap d st)" for st
  proof (cases "rd d (d_byteIndex (advance 9 st))")
    case (Inl e)
    then show ?thesis using rd_error [OF Inl] by (auto simp: decodeCase0_def progress_def Let_def)
  next
    case (Inr b)
    have "progress (9 + sum_list (map stmt_bits body)) st (exec cap d (ADVANCE 9 # body) st)" for body
      using exec_progress [of "advance 9 st" body cap d]
      by (simp add: progress_def add.assoc)
    then have "progress (9 + sum_list (map stmt_bits body)) st (exec cap d body (advance 9 st))" for body
      by simp
    with Inr show ?thesis
      by (simp add: decodeCase0_def Let_def del: exec.simps) (meson add_pos_nonneg zero_le zero_less_numeral)
  qed
  show ?thesis
    using True case0 [of "st\<lparr>d_compOffsets := (d_compOffsets st)(d_numComps st := d_bitLen st)\<rparr>"]
    by (auto simp: decodeByte_def progress_def setOffset_def)
next
  case False
  have "unat byte < 256" "0 < unat byte" using False unsigned_less [where 'a = nat, of byte] by (auto simp: unat_gt_0)
  then have "unat byte - 1 < length (tl decodeTable)" "tl decodeTable ! (unat byte - 1) = decodeTable ! unat byte"
    using decodeTable_ok by (simp_all add: nth_tl)
  then have "decodeTable ! unat byte \<in> set (tl decodeTable)" by (metis nth_mem)
  then have "0 < sum_list (map stmt_bits (decodeTable ! unat byte))"
    using bodies_advance by (simp only: list_all_iff)
  moreover have "progress (0 + sum_list (map stmt_bits (decodeTable ! unat byte))) st (decodeByte cap d byte st)"
    unfolding decodeByte_def using False progress_bind [OF progress_set(1) [OF assms] exec_progress] by simp
  ultimately show ?thesis by auto
qed

lemma decompressLoop_total:
  assumes "d_bitIndex st < 8" "8 * length d < fuel + dec_pos st"
  shows "(\<exists>st'. decompressLoop fuel cap d byteLen st = Inr st' \<and> d_bitIndex st' < 8)
    \<or> decompressLoop fuel cap d byteLen st = Inl Undefined"
  using assms
proof (induction fuel arbitrary: st)
  case 0
  then have "\<not> d_byteIndex st < length d" by (simp add: dec_pos_def)
  with 0 show ?case by (subst (1 2) decompressLoop.simps) (simp add: rd_def)
next
  case (Suc fuel)
  have step: "(\<exists>st'. bindE (decodeByte cap d byte st) (decompressLoop fuel cap d byteLen) = Inr st' \<and> d_bitIndex st' < 8)
      \<or> bindE (decodeByte cap d byte st) (decompressLoop fuel cap d byteLen) = Inl Undefined" for byte
  proof -
    obtain n where "0 < n" "progress n st (decodeByte cap d byte st)"
      using decodeByte_progress [OF Suc.prems(1)] by blast
    moreover have "decodeByte cap d byte st = Inr st' \<Longrightarrow> dec_pos st' = dec_pos st + n
        \<Longrightarrow> 8 * length d < fuel + dec_pos st'" for st'
      using Suc.prems(2) \<open>0 < n\<close> by simp
    ultimately show ?thesis using Suc.IH by (fastforce simp: progress_def)
  qed
  show ?case
    unfolding decompressLoop.simps [of "Suc fuel"] using step Suc.prems(1)
    by (cases "byteLen = 0") (simp_all add: rd_def Let_def)
qed

lemma decompressLast_total:
  assumes "d_bitIndex st < 8" "8 * length d < fuel + dec_pos st"
  shows "decompressLast fuel cap d byteLen st \<noteq> Inl Diverges"
  using assms
proof (induction fuel arbitrary: st)
  case 0
  then have "\<not> d_byteIndex st < length d" by (simp add: dec_pos_def)
  with 0 show ?case by (subst decompressLast.simps) (simp add: rd_def)
next
  case (Suc fuel)
  have step: "bindE (decodeByte cap d byte st) (decompressLast fuel cap d byteLen) \<noteq> Inl Diverges" for byte
  proof -
    obtain n where "0 < n" "progress n st (decodeByte cap d byte st)"
      using decodeByte_progress [OF Suc.prems(1)] by blast
    with Suc show ?thesis by (auto simp: progress_def)
  qed
  show ?case
    unfolding decompressLast.simps [of "Suc fuel"] using step by (simp add: rd_def Let_def)
qed

lemma decompress_no_divergence: "decompress p startOffset cap deweyid compOffsets numComps \<noteq> Inl Diverges"
proof -
  obtain d byteLen where d: "dataAndLength p = (d, byteLen)" by (cases "dataAndLength p")
  let ?st = "decoderInit startOffset deweyid compOffsets numComps"
  have "d_bitIndex ?st < 8" "8 * length d < 8 * length d + 1 + dec_pos ?st" by (simp_all add: decoderInit_def)
  from decompressLoop_total [OF this, of cap byteLen] show ?thesis
    using decompressLast_total [of _ d "8 * length d + 1" cap byteLen] d
    by (auto simp: decompress_def rd_def split: if_splits)
qed


section \<open>Properties\<close>

lemma compressed_holds:
  assumes "list_all comp_int32 ds" "compress ds = Inr p"
  shows "holds p (dewey_bits ds)" "length (dewey_bits ds) \<le> MAX_BIT_LEN"
proof -
  show len: "length (dewey_bits ds) \<le> MAX_BIT_LEN"
    using compress_too_long [OF assms(1)] assms(2) by fastforce
  show "holds p (dewey_bits ds)" using compress_holds [OF assms(1) len] assms(2) by auto
qed

lemma decompress_compressed:
  assumes "dewey_ok (as @ es)" "decodable exact (length (dewey_bits as)) es" "compress (as @ es) = Inr p"
    and "length es \<le> cap"
  shows "\<exists>st. decompress p (length (dewey_bits as)) cap deweyid compOffsets 0 = Inr st
    \<and> decoded exact (decoderInit (length (dewey_bits as)) deweyid compOffsets 0) st es"
proof (rule decompress_spec)
  show "holds p (dewey_bits (as @ es))"
    using assms(1,3) dewey_ok_int32 compressed_holds(1) by blast
  show "dewey_bits (as @ es) \<noteq> []" "last (dewey_bits (as @ es))"
    using dewey_bits_last [OF assms(1)] by auto
qed (use assms in \<open>auto simp: dewey_ok_def\<close>)

text \<open>
  C3: Round trip: decompressing a compressed id from the start of any of its components gives
  the remaining components, their bit offsets and the bit length of the id, for every id whose remaining
  components contain none of the patterns the decoder gets wrong (\<open>decodable True\<close>): \<open>-1\<close> before a component
  of at least 4, \<open>1.1.1.1\<close>, \<open>1.1.1.2\<close>, \<open>1.1.1.3\<close>, \<open>3.0\<close> unless 1, 2 or 3 follows, and a component below
  \<open>-594196\<close> that starts at the last bit of a byte. Without this the statement is false
  (\<open>decoder_defects\<close>, \<open>decoder_offset_defect\<close>).
\<close>

theorem decompress_compress:
  assumes "dewey_ok (as @ es)" "compress (as @ es) = Inr p" "length es \<le> cap"
    and "decodable True (length (dewey_bits as)) es"
  shows "\<exists>st. decompress p (length (dewey_bits as)) cap deweyid compOffsets 0 = Inr st
    \<and> d_numComps st = length es \<and> map (d_deweyid st) [0..<length es] = es
    \<and> map (d_compOffsets st) [0..<length es] = map (\<lambda>i. length (dewey_bits (as @ take i es))) [0..<length es]
    \<and> d_bitLen st = length (dewey_bits (as @ es))"
  using decompress_compressed [OF assms(1,4,2,3)] by (fastforce dest: decoded_init)

theorem decompress_compress_witness:
  "\<exists>st. decompress (Local [0x65, 0, 0, 0, 0, 0, 0, 1]) 2 10 (\<lambda>_. 0) (\<lambda>_. 0) 0 = Inr st
    \<and> d_numComps st = 2 \<and> map (d_deweyid st) [0..<2] = [2, 3] \<and> d_bitLen st = 8"
proof -
  have "dewey_ok ([1] @ [2, 3])" by (simp add: dewey_ok_def comp_ok_def INT32_MAX_def)
  moreover have "compress ([1] @ [2, 3]) = Inr (Local [0x65, 0, 0, 0, 0, 0, 0, 1])" by (simp add: encode_eval)
  moreover have "decodable True (length (dewey_bits [1])) [2, 3]"
    by (simp add: window_ok_def misread_def)
  ultimately show ?thesis
    using decompress_compress [of "[1]" "[2, 3]" _ 10 "\<lambda>_. 0" "\<lambda>_. 0"]
    by (auto simp: length_comp_bits comp_class_cases numeral_eq_Suc)
qed

text \<open>
  C25: For ids that contain \<open>1.1.1.1\<close>, but none of the other patterns the decoder gets wrong
  (\<open>decodable False\<close>), the components are still decoded correctly from any component boundary, though not
  their offsets; and the capacity the callers give the output arrays is enough for every such id.
\<close>

theorem decompress_values:
  assumes "dewey_ok (as @ es)" "compress (as @ es) = Inr p"
    and "decodable False (length (dewey_bits as)) es"
  shows "\<exists>st. decompress p (length (dewey_bits as)) MAX_NUM_COMPS deweyid compOffsets 0 = Inr st
    \<and> d_numComps st = length es \<and> map (d_deweyid st) [0..<length es] = es"
proof -
  have "length (dewey_bits (as @ es)) \<le> MAX_BIT_LEN"
    using assms(1,2) dewey_ok_int32 compressed_holds(2) by blast
  then have "length es \<le> MAX_NUM_COMPS"
    using length_dewey_bits_ge [of "as @ es"] by (simp add: ordpath_consts)
  from decompress_compressed [OF assms(1,3,2) this] show ?thesis by (fastforce dest: decoded_init)
qed

theorem decompress_values_witness:
  "\<exists>st. decompress (Local [0x55, 0x40, 0, 0, 0, 0, 0, 1]) 0 MAX_NUM_COMPS (\<lambda>_. 0) (\<lambda>_. 0) 0 = Inr st
    \<and> d_numComps st = 5 \<and> map (d_deweyid st) [0..<5] = [1, 1, 1, 1, 1]"
proof -
  have "dewey_ok ([] @ [1, 1, 1, 1, 1])" by (simp add: dewey_ok_def comp_ok_def INT32_MAX_def)
  moreover have "compress ([] @ [1, 1, 1, 1, 1]) = Inr (Local [0x55, 0x40, 0, 0, 0, 0, 0, 1])"
    by (simp add: encode_eval)
  moreover have "decodable False (length (dewey_bits [])) [1, 1, 1, 1, 1]"
    by (simp add: window_ok_def misread_def)
  ultimately show ?thesis
    using decompress_values [of "[]" "[1, 1, 1, 1, 1]"] by (simp add: numeral_eq_Suc)
qed

text \<open>What the simplifier needs to evaluate the decoder on a given id.\<close>

lemma scanLength_numeral:
  "scanLength l (numeral k) = (if l ! pred_numeral k \<noteq> 0 then numeral k else scanLength l (pred_numeral k))"
  by (simp add: numeral_eq_Suc)

lemma extractBytes_numeral:
  "extractBytes data (numeral k) byteIndex result =
    bindE (rd data byteIndex) (\<lambda>byte.
      extractBytes data (pred_numeral k) (Suc byteIndex) (push_bit 8 result OR ucast byte))"
  by (simp add: numeral_eq_Suc)

lemmas decode_eval = decompress_def decoderInit_def decompressLoop.simps decompressLast.simps
  decodeByte_def decodeCase0_def extractValue_def advance_def setOffset_def setDewey_def addBase_def
  markRemote_def getLocalByteLength_def theByteMasks_def rd_def ordpath_consts scanLength_numeral
  extractBytes_numeral upt_rec decodeTable_nth decodeCases_defs

definition decodeAll :: "int list \<Rightarrow> (int list \<times> nat) outcome" where
  "decodeAll ds =
    bindE (compress ds) (\<lambda>p.
    bindE (decompress p 0 MAX_NUM_COMPS (\<lambda>_. 0) (\<lambda>_. 0) 0) (\<lambda>st.
      Inr (map (d_deweyid st) [0..<d_numComps st], d_bitLen st)))"

text \<open>
  The ids the round trip excludes are decoded wrongly: case 31 reads \<open>-1\<close> as \<open>-2\<close>, case 86
  drops the fourth component, cases 164 and 167 advance one bit less than they read, and case 0 takes
  the range of 32 data bits for the one of 20.
\<close>

lemma decoder_defects:
  "decodeAll [- 1, 5] = Inr ([- 2, 5], 11)
   \<and> decodeAll [1, 1, 1, 3] = Inr ([1, 1, 1], 9)
   \<and> decodeAll [3, 0, - 1] = Inr ([3, 0, 2, 1, 4], 15)
   \<and> decodeAll [3, 0, 5] = Inr ([3, 0, 12], 13)
   \<and> decodeAll [1, 5, - 1118483] = Inr ([1, 5, - 2147475455], 49)"
  unfolding decodeAll_def by (intro conjI; simp add: encode_eval decode_eval)

text \<open>
  Case 85 moves to the next byte without counting it: the first child of \<open>1.1.1.1\<close> is
  decoded with bit length 2 although it has 10 bits.
\<close>

lemma decoder_offset_defect:
  "decodeAll [1, 1, 1, 1, 1] = Inr ([1, 1, 1, 1, 1], 2)"
  unfolding decodeAll_def by (simp add: encode_eval decode_eval)

end
