(* ===== verification/OrdPath_Compare.thy ===== *)
theory OrdPath_Compare
  imports OrdPath_Roundtrip "HOL-Library.Signed_Division"
begin

text \<open>
  Comparing node ids: \<open>operator==\<close>, \<open>operator<\<close>, \<open>operator>\<close>, \<open>getRelativePosition\<close>,
  \<open>getRelativePosition2\<close>, \<open>getLevel\<close>, \<open>setAsRoot\<close> and \<open>isRoot\<close> of \<open>store/naive/ordpath.cpp\<close>. Ids are
  compared without being decoded; the lemmas show that this is the document order on the component
  lists (the lexicographic order in which a parent precedes its children), and that the axis test
  gives the position of one id relative to the other, with the exact exception: an embedded id of
  eight bytes is compared together with its mark.
\<close>

section \<open>Definitions\<close>

datatype RelativePosition = PRECEDING | ANCESTOR | SELF | DESCENDANT | FOLLOWING
  | PRECEDING_SIBLING | FOLLOWING_SIBLING | PARENT | CHILD | OTHER

text \<open>\<open>getDataAndLength\<close>: the bytes an id is compared by. The mark of an embedded id is among them
  when the id has eight bytes.\<close>

fun getData :: "ordpath \<Rightarrow> byte list" where
  "getData (Local l) = take (getLocalByteLength l) l"
| "getData (Remote d) = d"

definition setAsRoot :: ordpath where
  "setAsRoot = Local (reset[0 := 0x40])"

fun isRoot :: "ordpath \<Rightarrow> bool" where
  "isRoot (Local l) \<longleftrightarrow> l ! 0 = 0x40"
| "isRoot (Remote d) \<longleftrightarrow> False"

text \<open>\<open>operator==\<close>\<close>

definition eq_op :: "ordpath \<Rightarrow> ordpath \<Rightarrow> bool" where
  "eq_op p q =
    (let d1 = getData p; d2 = getData q in
     if length d1 \<noteq> length d2 then False else d1 = d2)"

text \<open>\<open>operator<\<close> and \<open>operator>\<close>; \<open>rest\<close> is the answer when the shorter id is used up.\<close>

fun less_loop :: "byte list \<Rightarrow> byte list \<Rightarrow> bool \<Rightarrow> bool" where
  "less_loop (a # p1) (b # p2) rest =
    (if a < b then True else if a > b then False else less_loop p1 p2 rest)"
| "less_loop _ _ rest = rest"

definition less_op :: "ordpath \<Rightarrow> ordpath \<Rightarrow> bool" where
  "less_op p q =
    (let p1 = getData p; p2 = getData q in
     if length p1 < length p2 then less_loop p1 p2 True else less_loop p1 p2 False)"

fun greater_loop :: "byte list \<Rightarrow> byte list \<Rightarrow> bool \<Rightarrow> bool" where
  "greater_loop (a # p1) (b # p2) rest =
    (if a > b then True else if a < b then False else greater_loop p1 p2 rest)"
| "greater_loop _ _ rest = rest"

definition greater_op :: "ordpath \<Rightarrow> ordpath \<Rightarrow> bool" where
  "greater_op p q =
    (let p1 = getData p; p2 = getData q in
     if length p1 \<le> length p2 then greater_loop p1 p2 False else greater_loop p1 p2 True)"

text \<open>
  The mask of the bits below the lowest set bit of a byte. The loop extends \<open>ch\<close> until it meets a set
  bit; for a zero byte it would not end. Eight rounds are enough, since \<open>ch\<close> has eight bits.
\<close>

fun lowMask :: "nat \<Rightarrow> byte \<Rightarrow> byte \<Rightarrow> byte outcome" where
  "lowMask fuel byte ch =
    (if byte AND ch = 0 then
       (case fuel of 0 \<Rightarrow> Inl Diverges | Suc fuel' \<Rightarrow> lowMask fuel' byte (push_bit 1 ch + 1))
     else Inr (drop_bit 1 ch))"

declare lowMask.simps [simp del]

text \<open>The loop of \<open>getRelativePosition\<close> for \<open>len1 < len2\<close>, and the one for the other case.\<close>

fun relative_shorter :: "byte list \<Rightarrow> byte list \<Rightarrow> RelativePosition outcome" where
  "relative_shorter (a # d1) (b # d2) =
    (if a < b then
       if d1 = [] then
         bindE (lowMask 8 a 1) (\<lambda>ch. if a = b AND NOT ch then Inr DESCENDANT else Inr FOLLOWING)
       else Inr FOLLOWING
     else if a > b then Inr PRECEDING
     else relative_shorter d1 d2)"
| "relative_shorter _ _ = Inr DESCENDANT"

fun relative_longer :: "bool \<Rightarrow> byte list \<Rightarrow> byte list \<Rightarrow> RelativePosition outcome" where
  "relative_longer same (a # d1) (b # d2) =
    (if a < b then
       if d2 = [] \<and> same then
         bindE (lowMask 8 a 1) (\<lambda>ch. if a = b AND NOT ch then Inr DESCENDANT else Inr FOLLOWING)
       else Inr FOLLOWING
     else if a > b then
       if d2 = [] then
         bindE (lowMask 8 b 1) (\<lambda>ch. if a AND NOT ch = b then Inr ANCESTOR else Inr PRECEDING)
       else Inr PRECEDING
     else relative_longer same d1 d2)"
| "relative_longer same _ _ = Inr (if same then SELF else ANCESTOR)"

definition getRelativePosition :: "ordpath \<Rightarrow> ordpath \<Rightarrow> RelativePosition outcome" where
  "getRelativePosition p q =
    (let d1 = getData p; d2 = getData q in
     if length d1 < length d2 then relative_shorter d1 d2
     else relative_longer (length d1 = length d2) d1 d2)"

text \<open>Decoding a whole id into arrays of \<open>MAX_NUM_COMPS\<close> entries, as the callers below do.\<close>

definition decompressAll :: "ordpath \<Rightarrow> int list outcome" where
  "decompressAll p =
    bindE (decompress p 0 MAX_NUM_COMPS (\<lambda>_. 0) (\<lambda>_. 0) 0) (\<lambda>st.
      Inr (map (d_deweyid st) [0..<d_numComps st]))"

text \<open>\<open>dewey[i] % 2 == 1\<close> with the remainder of C++, which has the sign of the dividend.\<close>

definition countOdd :: "int list \<Rightarrow> nat" where
  "countOdd ds = length (filter (\<lambda>v. v smod 2 = 1) ds)"

definition getLevel :: "ordpath \<Rightarrow> nat outcome" where
  "getLevel p = bindE (decompressAll p) (\<lambda>dewey. Inr (countOdd dewey))"

fun firstDifference :: "int list \<Rightarrow> int list \<Rightarrow> nat" where
  "firstDifference (d1 # dewey1) (d2 # dewey2) =
    (if d1 = d2 then Suc (firstDifference dewey1 dewey2) else 0)"
| "firstDifference _ _ = 0"

definition getRelativePosition2 :: "ordpath \<Rightarrow> ordpath \<Rightarrow> RelativePosition outcome" where
  "getRelativePosition2 p q =
    bindE (decompressAll p) (\<lambda>dewey1.
    bindE (decompressAll q) (\<lambda>dewey2.
      let curr = firstDifference dewey1 dewey2 in
      if curr = length dewey1 \<and> length dewey1 = length dewey2 then Inr OTHER
      else
        let thisFirst = (curr < length dewey1 \<and> curr < length dewey2 \<and> dewey1 ! curr < dewey2 ! curr);
            extraLevels1 = countOdd (drop curr dewey1);
            extraLevels2 = countOdd (drop curr dewey2)
        in if extraLevels1 > 1 \<or> extraLevels2 > 1 then Inr OTHER
           else if extraLevels1 = 1 \<and> extraLevels2 = 0 then Inr PARENT
           else if extraLevels1 = 0 \<and> extraLevels2 = 1 then Inr CHILD
           else if extraLevels1 = 1 \<and> extraLevels2 = 1
             then Inr (if thisFirst then FOLLOWING_SIBLING else PRECEDING_SIBLING)
           else Inl Assertion))"

section \<open>Comparing bytes is comparing bits\<close>

definition byte_bits :: "byte list \<Rightarrow> bool list" where
  "byte_bits d = concat (map (\<lambda>b. nat_bits 8 (unat b)) d)"

lemma byte_bits_simps [simp]:
  "byte_bits [] = []" "byte_bits (a # d) = nat_bits 8 (unat a) @ byte_bits d"
  by (simp_all add: byte_bits_def)

lemma length_byte_bits [simp]: "length (byte_bits d) = 8 * length d"
  by (induction d) simp_all

lemma nth_byte_bits: "i < 8 * length d \<Longrightarrow> byte_bits d ! i = buf_bit d i"
proof (induction d arbitrary: i)
  case (Cons a d)
  show ?case
  proof (cases "i < 8")
    case True
    then show ?thesis by (simp add: nth_append nth_nat_bits buf_bit_def bit_unsigned_iff)
  next
    case False
    then obtain j where j: "i = j + 8" by (metis le_add_diff_inverse2 not_less)
    then have "(j + 8) div 8 = Suc (j div 8)" by simp
    with j Cons show ?thesis by (simp add: nth_append buf_bit_def)
  qed
qed simp

lemma byte_bits_inj: "length d = length e \<Longrightarrow> byte_bits d = byte_bits e \<longleftrightarrow> d = e"
proof
  assume len: "length d = length e" and eq: "byte_bits d = byte_bits e"
  show "d = e"
  proof (rule buf_eqI [OF len])
    fix i show "buf_bit d i = buf_bit e i"
      using nth_byte_bits [of i d] nth_byte_bits [of i e] len eq by (cases "i < 8 * length d") auto
  qed
qed simp

text \<open>Neither string is smaller: they agree as far as both go.\<close>

definition agree :: "'a list \<Rightarrow> 'a list \<Rightarrow> bool" where
  "agree xs ys \<longleftrightarrow> take (length ys) xs = take (length xs) ys"

lemma agree_simps [simp]:
  "agree [] ys" "agree xs []" "agree (x # xs) (y # ys) \<longleftrightarrow> x = y \<and> agree xs ys"
  by (auto simp: agree_def)

lemma agree_append [simp]: "agree (p @ xs) (p @ ys) = agree xs ys"
  by (induction p) simp_all

lemma bits_lt_trichotomy: "bits_lt xs ys \<or> bits_lt ys xs \<or> agree xs ys"
  by (induction xs ys rule: bits_lt.induct) auto

lemma bits_lt_not_agree: "bits_lt xs ys \<Longrightarrow> \<not> agree xs ys" "bits_lt ys xs \<Longrightarrow> \<not> agree xs ys"
  by (induction xs ys rule: bits_lt.induct) (auto split: if_splits)

lemma byte_less_bits: "a < b \<Longrightarrow> bits_lt (nat_bits 8 (unat a)) (nat_bits 8 (unat b))" for a b :: byte
  using unsigned_less [where 'a = nat, of b] by (intro bits_lt_nat_bits) (simp_all add: word_less_nat_alt)

lemma bits_lt_byte_append:
  fixes a b :: byte
  assumes "a \<noteq> b"
  shows "bits_lt (nat_bits 8 (unat a) @ xs) (nat_bits 8 (unat b) @ ys) \<longleftrightarrow> a < b"
    and "\<not> agree (nat_bits 8 (unat a) @ xs) (nat_bits 8 (unat b) @ ys)"
proof -
  show "bits_lt (nat_bits 8 (unat a) @ xs) (nat_bits 8 (unat b) @ ys) \<longleftrightarrow> a < b"
    using assms byte_less_bits bits_lt_append bits_lt_asym by (metis linorder_neqE)
  show "\<not> agree (nat_bits 8 (unat a) @ xs) (nat_bits 8 (unat b) @ ys)"
    using assms byte_less_bits bits_lt_append bits_lt_not_agree by (metis linorder_neqE)
qed

lemma less_loop_spec:
  "less_loop d1 d2 rest \<longleftrightarrow> bits_lt (byte_bits d1) (byte_bits d2)
     \<or> agree (byte_bits d1) (byte_bits d2) \<and> rest"
proof (induction d1 d2 rest rule: less_loop.induct)
  case (1 a d1 b d2 rest)
  then show ?case by (cases "a = b") (auto simp: bits_lt_byte_append)
qed auto

lemma greater_loop_spec: "greater_loop d1 d2 rest = less_loop d2 d1 rest"
  by (induction d1 d2 rest rule: greater_loop.induct) auto

section \<open>The bits an id is compared by\<close>

text \<open>The bits of an embedded id of eight bytes end with the mark.\<close>

definition embedded8 :: "bool list \<Rightarrow> bool" where
  "embedded8 bs \<longleftrightarrow> 56 < length bs \<and> length bs \<le> 63"

definition cmp_bits :: "bool list \<Rightarrow> bool list" where
  "cmp_bits bs = bs @ (if embedded8 bs then replicate (63 - length bs) False @ [True] else [])"

lemma getData_bits:
  assumes "holds p bs" "bs \<noteq> []" "last bs"
  shows "byte_bits (getData p) = cmp_bits bs @ replicate (8 * ((length bs + 7) div 8) - length (cmp_bits bs)) False"
    and "length (getData p) = (length bs + 7) div 8"
proof -
  have len: "length (getData p) = (length bs + 7) div 8"
  proof (cases p)
    case (Local l)
    then have "marked l bs" using assms(1) by simp
    with getLocalByteLength_spec [OF this assms(2,3)] Local show ?thesis by (auto simp: marked_def)
  qed (use assms in auto)
  then show "length (getData p) = (length bs + 7) div 8" .
  have le: "length bs \<le> 8 * ((length bs + 7) div 8)" by linarith
  have cl: "length (cmp_bits bs) \<le> 8 * ((length bs + 7) div 8)"
    using le by (auto simp: cmp_bits_def embedded8_def)
  show "byte_bits (getData p) = cmp_bits bs @ replicate (8 * ((length bs + 7) div 8) - length (cmp_bits bs)) False"
    (is "_ = ?r")
  proof (rule nth_equalityI)
    show "length (byte_bits (getData p)) = length ?r" using len cl by simp
    fix i assume i: "i < length (byte_bits (getData p))"
    then have i8: "i < 8 * ((length bs + 7) div 8)" by (simp add: len)
    have rhs: "?r ! i = (i < length bs \<and> bs ! i \<or> embedded8 bs \<and> i = 63)"
      using i8 by (auto simp: cmp_bits_def embedded8_def nth_append nth_Cons')
    have "byte_bits (getData p) ! i = buf_bit (getData p) i" using i by (simp add: nth_byte_bits)
    also have "\<dots> = (i < length bs \<and> bs ! i \<or> embedded8 bs \<and> i = 63)"
    proof (cases p)
      case (Local l)
      then have l: "marked l bs" using assms(1) by simp
      then have "(length bs + 7) div 8 \<le> (63 + 7) div 8" by (intro div_le_mono) (simp add: marked_def)
      with i8 have i64: "i < 64" by simp
      have "buf_bit (getData p) i = buf_bit l i"
        using i8 i64 len Local l getLocalByteLength_spec [OF l assms(2,3)] by (auto simp: buf_bit_def marked_def)
      moreover have "embedded8 bs" if "i = 63" using i8 that l unfolding embedded8_def marked_def by linarith
      ultimately show ?thesis using l i64 by (auto simp: marked_def)
    next
      case (Remote d)
      then show ?thesis using assms(1) padded_bit [of d bs i] by (auto simp: embedded8_def)
    qed
    finally show "byte_bits (getData p) ! i = ?r ! i" using rhs by simp
  qed
qed

section \<open>Document order\<close>

lemma zeros_less: "True \<in> set (take k ys) \<Longrightarrow> bits_lt (replicate k False @ xs) ys"
proof (induction k arbitrary: ys)
  case (Suc k)
  then show ?case by (cases ys) auto
qed simp

lemma zeros_agree: "True \<notin> set (take k ys) \<Longrightarrow> agree (replicate k False) ys"
proof (induction k arbitrary: ys)
  case (Suc k)
  then show ?case by (cases ys) auto
qed simp

text \<open>
  The mark of an embedded id is read as a bit of the id when it is compared with a remote
  descendant whose bits up to the position of the mark are zero.
\<close>

definition mark_read :: "int list \<Rightarrow> int list \<Rightarrow> bool" where
  "mark_read ds es \<longleftrightarrow> take (length ds) es = ds \<and> embedded8 (dewey_bits ds)
     \<and> 64 \<le> length (dewey_bits es)
     \<and> True \<notin> set (take (63 - length (dewey_bits ds)) (drop (length (dewey_bits ds)) (dewey_bits es)))"

definition byte_less :: "byte list \<Rightarrow> byte list \<Rightarrow> bool" where
  "byte_less d1 d2 \<longleftrightarrow> bits_lt (byte_bits d1) (byte_bits d2)
     \<or> agree (byte_bits d1) (byte_bits d2) \<and> length d1 < length d2"

lemma less_op_bytes: "less_op p q = byte_less (getData p) (getData q)"
  by (simp add: less_op_def less_loop_spec byte_less_def Let_def)

lemma agree_sym: "agree xs ys = agree ys xs"
  by (auto simp: agree_def)

lemma greater_op_bytes: "greater_op p q = byte_less (getData q) (getData p)"
  by (auto simp: greater_op_def greater_loop_spec less_loop_spec byte_less_def Let_def agree_sym)

lemma byte_less_asym: "byte_less d1 d2 \<Longrightarrow> \<not> byte_less d2 d1"
  using bits_lt_asym bits_lt_not_agree by (auto simp: byte_less_def)

lemma byte_less_irrefl [simp]: "\<not> byte_less d d"
  by (simp add: byte_less_def)

lemma byte_less_descendant:
  assumes p: "holds p bs" "bs \<noteq> []" "last bs" and q: "holds q (bs @ w)" "last (bs @ w)" "True \<in> set w"
    and mark: "\<not> (embedded8 bs \<and> 64 \<le> length (bs @ w) \<and> True \<notin> set (take (63 - length bs) w))"
  shows "byte_less (getData p) (getData q)"
proof -
  let ?n1 = "(length bs + 7) div 8" and ?n2 = "(length (bs @ w) + 7) div 8"
  note d1 = getData_bits [OF p]
  have "bs @ w \<noteq> []" using p(2) by simp
  note d2 = getData_bits [OF q(1) this q(2)]
  obtain y where y: "byte_bits (getData q) = bs @ w @ y"
    unfolding d2(1) by (simp add: cmp_bits_def)
  show ?thesis
  proof (cases "embedded8 bs")
    case False
    define k where "k = 8 * ?n1 - length bs"
    have x: "byte_bits (getData p) = bs @ replicate k False"
      unfolding d1(1) using False by (simp add: cmp_bits_def k_def)
    show ?thesis
    proof (cases "True \<in> set (take k w)")
      case True
      then have "True \<in> set (take k (w @ y))" by auto
      from zeros_less [OF this, of "[]"] show ?thesis by (simp add: byte_less_def x y)
    next
      case none: False
      have kw: "k < length w" using q(3) none by (metis not_le take_all)
      then have "True \<notin> set (take k (w @ y))" using none by simp
      moreover have "?n1 < ?n2"
      proof -
        have "8 * ?n1 < length (bs @ w)" using kw by (simp add: k_def)
        then show ?thesis by linarith
      qed
      ultimately show ?thesis using d1(2) d2(2) by (simp add: byte_less_def x y zeros_agree)
    qed
  next
    case True
    define k where "k = 63 - length bs"
    have x: "byte_bits (getData p) = bs @ replicate k False @ [True]"
      unfolding d1(1) using True by (auto simp: cmp_bits_def k_def embedded8_def)
    have "True \<in> set (take k w)"
    proof (cases "length (bs @ w) < 64")
      case short: True
      then have "length w \<le> k" using True by (auto simp: k_def embedded8_def)
      then show ?thesis using q(3) by simp
    qed (use True mark in \<open>auto simp: k_def\<close>)
    then have "True \<in> set (take k (w @ y))" by auto
    from zeros_less [OF this, of "[True]"] show ?thesis by (simp add: byte_less_def x y)
  qed
qed

lemma descendant_bits:
  assumes "list_all comp_ok zs" "zs \<noteq> []"
  shows "True \<in> set (dewey_bits zs)"
  using comp.stream_nonempty comps_ok_int32 assms by blast

lemma byte_less_document_order:
  assumes "dewey_ok ds" "dewey_ok es" "holds p (dewey_bits ds)" "holds q (dewey_bits es)"
    and "\<not> mark_read ds es" "ds < es"
  shows "byte_less (getData p) (getData q)"
proof -
  note last = dewey_bits_last [OF assms(1)] dewey_bits_last [OF assms(2)]
  from dewey_bits_less [OF dewey_ok_int32 [OF assms(1)] dewey_ok_int32 [OF assms(2)]] assms(6)
  consider "bits_lt (dewey_bits ds) (dewey_bits es)" | zs where "zs \<noteq> []" "es = ds @ zs" by blast
  then show ?thesis
  proof cases
    case 1
    then show ?thesis
      using last assms(3,4)
      by (simp add: byte_less_def getData_bits(1) cmp_bits_def bits_lt_append)
  next
    case 2
    have "True \<in> set (dewey_bits zs)" using 2 assms(2) by (intro descendant_bits) (auto simp: dewey_ok_def)
    with 2 assms last show ?thesis
      by (intro byte_less_descendant [of p "dewey_bits ds" q "dewey_bits zs"]) (auto simp: mark_read_def)
  qed
qed

lemma less_op_iff:
  assumes "dewey_ok ds" "dewey_ok es" "holds p (dewey_bits ds)" "holds q (dewey_bits es)"
    and "\<not> mark_read ds es" "\<not> mark_read es ds"
  shows "less_op p q \<longleftrightarrow> ds < es"
proof -
  consider "ds < es" | "ds = es" | "es < ds" by (meson linorder_neqE)
  then show ?thesis
  proof cases
    case 2
    with assms(3,4) holds_unique have "p = q" by blast
    with 2 show ?thesis by (simp add: less_op_bytes)
  next
    case 3
    then show ?thesis
      using byte_less_document_order [OF assms(2,1,4,3,6)] byte_less_asym by (auto simp: less_op_bytes)
  qed (use byte_less_document_order assms less_op_bytes in auto)
qed

section \<open>Relative position\<close>

lemma lowMask_spec:
  assumes "bit a t" "\<And>j. j < t \<Longrightarrow> \<not> bit a j" "k \<le> t" "t - k \<le> fuel"
  shows "lowMask fuel a (mask (Suc k)) = Inr (mask t)"
proof -
  have t: "t < 8" using assms(1) bit_imp_le_length [of a t] by simp
  have "bit (a AND mask (Suc t)) t" using assms(1) t by (simp add: bit_simps)
  then have "a AND mask (Suc t) \<noteq> 0" by auto
  moreover have "drop_bit 1 (mask (Suc t) :: byte) = mask t"
    using t by (intro bit_word_eqI) (auto simp: bit_simps)
  ultimately have found: "lowMask fuel a (mask (Suc t)) = Inr (mask t)" for fuel
    by (simp add: lowMask.simps)
  show ?thesis
    using assms(3,4)
  proof (induction fuel arbitrary: k)
    case 0
    with found show ?case by simp
  next
    case (Suc fuel)
    show ?case
    proof (cases "k = t")
      case False
      have "a AND mask (Suc k) = 0"
        using assms(2) Suc.prems(1) False by (intro bit_word_eqI) (auto simp: bit_simps)
      moreover have "push_bit 1 (mask (Suc k)) + 1 = (mask (Suc (Suc k)) :: byte)"
        by (simp add: mask_eq_exp_minus_1 algebra_simps)
      ultimately show ?thesis using Suc False by (simp add: lowMask.simps [of "Suc fuel"])
    qed (use found in simp)
  qed
qed

lemma mask_test:
  fixes a :: byte
  assumes "nat_bits 8 (unat a) = u @ replicate k False" "u \<noteq> []" "last u"
  shows "\<exists>ch. lowMask 8 a 1 = Inr ch \<and> (\<forall>b. a = b AND NOT ch \<longleftrightarrow> take (length u) (nat_bits 8 (unat b)) = u)"
proof -
  have len: "length u + k = 8" using arg_cong [OF assms(1), of length] by simp
  have bit: "bit a (7 - j) = (j < length u \<and> u ! j)" if "j < 8" for j
    using arg_cong [OF assms(1), of "\<lambda>xs. xs ! j"] that len
    by (auto simp: nth_nat_bits nth_append bit_unsigned_iff split: if_splits)
  have "0 < length u" using assms(2) by simp
  then have "7 - (length u - 1) = k" "length u - 1 < 8" using len by linarith+
  then have t: "bit a k"
    using bit [of "length u - 1"] \<open>0 < length u\<close> assms(2,3) by (simp add: last_conv_nth)
  have low: "\<not> bit a j" if "j < k" for j
  proof -
    have "\<not> 7 - j < length u" "7 - (7 - j) = j" using that len \<open>0 < length u\<close> by linarith+
    with bit [of "7 - j"] show ?thesis by simp
  qed
  have "lowMask 8 a 1 = Inr (mask k)"
    using lowMask_spec [OF t low, of 0 8] len by (simp add: mask_eq_exp_minus_1)
  moreover have "a = b AND NOT (mask k) \<longleftrightarrow> take (length u) (nat_bits 8 (unat b)) = u" for b
  proof
    assume a: "a = b AND NOT (mask k)"
    show "take (length u) (nat_bits 8 (unat b)) = u"
    proof (rule nth_equalityI)
      fix i assume "i < length (take (length u) (nat_bits 8 (unat b)))"
      then have i: "i < length u" "i < 8" using len by auto
      have "bit a (7 - i) = bit b (7 - i)"
        unfolding a using i len by (auto simp: bit_simps)
      with bit [OF i(2)] i show "take (length u) (nat_bits 8 (unat b)) ! i = u ! i"
        by (simp add: nth_nat_bits bit_unsigned_iff)
    qed (use len in simp)
  next
    assume u: "take (length u) (nat_bits 8 (unat b)) = u"
    show "a = b AND NOT (mask k)"
    proof (rule bit_word_eqI)
      fix j assume "j < LENGTH(8)"
      then have j: "j < 8" by simp
      show "bit a j = bit (b AND NOT (mask k)) j"
      proof (cases "j < k")
        case False
        then have i: "7 - j < length u" "7 - (7 - j) = j" using j len by auto
        have "u ! (7 - j) = take (length u) (nat_bits 8 (unat b)) ! (7 - j)" by (simp only: u)
        then have "u ! (7 - j) = bit b j" using i j by (simp add: nth_nat_bits bit_unsigned_iff)
        with bit [of "7 - j"] i j False show ?thesis by (simp add: bit_simps)
      qed (use low in \<open>simp add: bit_simps\<close>)
    qed
  qed
  ultimately show ?thesis by blast
qed

text \<open>\<open>trimmed d t\<close>: the bits of the buffer are \<open>t\<close>, which ends with a one in the last byte, and zeros.\<close>

definition trimmed :: "byte list \<Rightarrow> bool list \<Rightarrow> bool" where
  "trimmed d t \<longleftrightarrow> (\<exists>k < 8. byte_bits d = t @ replicate k False) \<and> t \<noteq> [] \<and> last t"

lemma trimmed_single: "trimmed [a] t \<Longrightarrow> \<exists>k. nat_bits 8 (unat a) = t @ replicate k False"
  by (auto simp: trimmed_def)

lemma trimmed_Cons:
  assumes "trimmed (a # d) t" "d \<noteq> []"
  shows "\<exists>t'. t = nat_bits 8 (unat a) @ t' \<and> trimmed d t'"
proof -
  obtain k where k: "k < 8" "nat_bits 8 (unat a) @ byte_bits d = t @ replicate k False" "t \<noteq> []" "last t"
    using assms(1) by (auto simp: trimmed_def)
  have "8 * length d + 8 = length t + k" using arg_cong [OF k(2), of length] by simp
  moreover have "0 < length d" using assms(2) by simp
  ultimately have "8 < length t" using k(1) by linarith
  then have t: "nat_bits 8 (unat a) = take 8 t" "byte_bits d = drop 8 t @ replicate k False"
    using arg_cong [OF k(2), of "take 8"] arg_cong [OF k(2), of "drop 8"] by simp_all
  define t' where "t' = drop 8 t"
  have t': "t = nat_bits 8 (unat a) @ t'" "byte_bits d = t' @ replicate k False" using t by (simp_all add: t'_def)
  moreover have "t' \<noteq> []" using \<open>8 < length t\<close> t'(1) by auto
  ultimately show ?thesis using k by (auto simp: trimmed_def)
qed

lemma not_less_zeros [simp]: "\<not> bits_lt xs (replicate k False)"
proof (induction k arbitrary: xs)
  case (Suc k)
  then show ?case by (cases xs) auto
qed (cases xs, auto)

lemma trimmed_prefix_not_less:
  fixes a b :: byte
  assumes "nat_bits 8 (unat a) = t @ replicate k False" "take (length t) (nat_bits 8 (unat b)) = t"
  shows "\<not> b < a"
proof
  assume "b < a"
  then have "bits_lt (nat_bits 8 (unat b)) (nat_bits 8 (unat a))" by (rule byte_less_bits)
  moreover obtain r where "nat_bits 8 (unat b) = t @ r" using assms(2) by (metis append_take_drop_id)
  ultimately show False using assms(1) by simp
qed

lemma byte_bits_neq: "nat_bits 8 (unat a) = nat_bits 8 (unat b) \<longleftrightarrow> a = b" for a b :: byte
  using byte_bits_inj [of "[a]" "[b]"] by simp

lemma take_first_byte: "length t \<le> 8 \<Longrightarrow> take (length t) (nat_bits 8 (unat b) @ xs) = take (length t) (nat_bits 8 (unat b))"
  by simp

lemma take_other_byte:
  fixes a b :: byte
  assumes "a \<noteq> b" shows "take (length (nat_bits 8 (unat a) @ t)) (nat_bits 8 (unat b) @ xs) \<noteq> nat_bits 8 (unat a) @ t"
proof
  assume "take (length (nat_bits 8 (unat a) @ t)) (nat_bits 8 (unat b) @ xs) = nat_bits 8 (unat a) @ t"
  from arg_cong [OF this, of "take 8"] have "nat_bits 8 (unat b) = nat_bits 8 (unat a)" by simp
  with assms show False by (simp add: byte_bits_neq)
qed

text \<open>The test of the last byte of an id tells whether the id is a prefix of another one.\<close>

lemma last_byte_test:
  assumes t: "trimmed [a] t"
  shows "\<exists>ch. lowMask 8 a 1 = Inr ch \<and> (\<forall>b d. (a = b AND NOT ch \<longleftrightarrow> take (length t) (byte_bits (b # d)) = t)
    \<and> (take (length t) (byte_bits (b # d)) = t \<longrightarrow> \<not> b < a)) \<and> (\<forall>d. take (length t) (byte_bits (a # d)) = t)"
proof -
  from trimmed_single [OF t] obtain k where k: "nat_bits 8 (unat a) = t @ replicate k False" by blast
  have u: "t \<noteq> []" "last t" "length t \<le> 8" using t arg_cong [OF k, of length] by (auto simp: trimmed_def)
  have pre: "take (length t) (byte_bits (b # d)) = take (length t) (nat_bits 8 (unat b))" for b d using u(3) by simp
  from mask_test [OF k u(1,2)] obtain ch where "lowMask 8 a 1 = Inr ch" "\<forall>b. a = b AND NOT ch \<longleftrightarrow> take (length t) (nat_bits 8 (unat b)) = t" by blast
  moreover have "take (length t) (nat_bits 8 (unat a)) = t" by (simp add: k)
  ultimately show ?thesis unfolding pre using trimmed_prefix_not_less [OF k] by blast
qed

lemma relative_shorter_spec:
  assumes "length d1 < length d2" "trimmed d1 t"
  shows "relative_shorter d1 d2 = Inr (if take (length t) (byte_bits d2) = t then DESCENDANT
    else if bits_lt (byte_bits d1) (byte_bits d2) then FOLLOWING else PRECEDING)"
  using assms
proof (induction d1 d2 arbitrary: t rule: relative_shorter.induct)
  case (1 a d1 b d2)
  show ?case
  proof (cases "d1 = []")
    case True
    with "1.prems"(2) have "trimmed [a] t" by simp
    from last_byte_test [OF this] obtain ch where ch: "lowMask 8 a 1 = Inr ch" "\<And>b d. a = b AND NOT ch \<longleftrightarrow> take (length t) (byte_bits (b # d)) = t"
      "\<And>b d. take (length t) (byte_bits (b # d)) = t \<Longrightarrow> \<not> b < a" "\<And>d. take (length t) (byte_bits (a # d)) = t" by blast
    consider "a = b" | "a < b" | "b < a" by (meson linorder_neqE)
    then show ?thesis
    proof cases
      case 1
      then show ?thesis using True ch(4) [of d2] by simp
    next
      case 2
      then show ?thesis using True ch(1) ch(2) [of b d2] bits_lt_byte_append(1) [of a b "[]" "byte_bits d2"] by auto
    next
      case 3
      then show ?thesis using True ch(3) [of b d2] bits_lt_byte_append(1) [of a b "[]" "byte_bits d2"] by auto
    qed
  next
    case False
    from trimmed_Cons [OF "1.prems"(2) this] obtain t' where t': "t = nat_bits 8 (unat a) @ t'" "trimmed d1 t'"
      by blast
    show ?thesis
    proof (cases "a = b")
      case True
      have "relative_shorter d1 d2 = Inr (if take (length t') (byte_bits d2) = t' then DESCENDANT
          else if bits_lt (byte_bits d1) (byte_bits d2) then FOLLOWING else PRECEDING)"
        using "1.IH" [OF _ _ _ t'(2)] True "1.prems"(1) by simp
      with True t'(1) show ?thesis by simp
    next
      case diff: False
      have "take (length t) (byte_bits (b # d2)) \<noteq> t"
        using take_other_byte [OF diff] t'(1) by simp
      with diff False show ?thesis using bits_lt_byte_append(1) [OF diff] by (auto simp: not_less_iff_gr_or_eq)
    qed
  qed
qed (auto simp: trimmed_def)

lemma relative_longer_spec:
  assumes "length d2 \<le> length d1" "trimmed d1 t1" "trimmed d2 t2" "same \<longleftrightarrow> length d1 = length d2"
  shows "relative_longer same d1 d2 = Inr (if take (length t2) (byte_bits d1) = t2
      then (if d1 = d2 then SELF else ANCESTOR)
    else if same \<and> take (length t1) (byte_bits d2) = t1 then DESCENDANT
    else if bits_lt (byte_bits d1) (byte_bits d2) then FOLLOWING else PRECEDING)"
  using assms
proof (induction same d1 d2 arbitrary: t1 t2 rule: relative_longer.induct)
  case (1 same a d1 b d2)
  show ?case
  proof (cases "d2 = []")
    case True
    with "1.prems"(3) have "trimmed [b] t2" by simp
    from last_byte_test [OF this] obtain ch where ch: "lowMask 8 b 1 = Inr ch" "\<And>a d. b = a AND NOT ch \<longleftrightarrow> take (length t2) (byte_bits (a # d)) = t2"
      "\<And>a d. take (length t2) (byte_bits (a # d)) = t2 \<Longrightarrow> \<not> a < b" "\<And>d. take (length t2) (byte_bits (b # d)) = t2" by blast
    have single: "\<exists>ch. lowMask 8 a 1 = Inr ch \<and> (a = b AND NOT ch \<longleftrightarrow> take (length t1) (byte_bits (b # d2)) = t1)
        \<and> (take (length t1) (byte_bits (b # d2)) = t1 \<longrightarrow> \<not> b < a)" if same
    proof -
      have "trimmed [a] t1" using that "1.prems"(2,4) True by simp
      from last_byte_test [OF this] show ?thesis by blast
    qed
    consider "a = b" | "a < b" | "b < a" by (meson linorder_neqE)
    then show ?thesis
    proof cases
      case 1
      then show ?thesis using True ch(4) [of d1] "1.prems"(4) by auto
    next
      case 2
      then have "take (length t2) (byte_bits (a # d1)) \<noteq> t2" using ch(3) [of a d1] by auto
      with 2 single True show ?thesis using bits_lt_byte_append(1) [of a b "byte_bits d1" "[]"] by (cases same) auto
    next
      case 3
      have "\<not> (same \<and> take (length t1) (byte_bits (b # d2)) = t1)" using single 3 by auto
      with 3 ch(1) ch(2) [of a d1] True show ?thesis using bits_lt_byte_append(1) [of a b "byte_bits d1" "[]"] by auto
    qed
  next
    case False
    then have "d1 \<noteq> []" using "1.prems"(1) by auto
    from trimmed_Cons [OF "1.prems"(2) this] trimmed_Cons [OF "1.prems"(3) False] obtain t1' t2' where
      t': "t1 = nat_bits 8 (unat a) @ t1'" "trimmed d1 t1'" "t2 = nat_bits 8 (unat b) @ t2'" "trimmed d2 t2'"
      by blast
    show ?thesis
    proof (cases "a = b")
      case True
      have "relative_longer same d1 d2 = Inr (if take (length t2') (byte_bits d1) = t2'
          then (if d1 = d2 then SELF else ANCESTOR)
        else if same \<and> take (length t1') (byte_bits d2) = t1' then DESCENDANT
        else if bits_lt (byte_bits d1) (byte_bits d2) then FOLLOWING else PRECEDING)"
        using "1.IH" [OF _ _ _ t'(2,4)] True "1.prems"(1,4) by simp
      with True t'(1,3) show ?thesis by simp
    next
      case diff: False
      have "take (length t1) (byte_bits (b # d2)) \<noteq> t1" "take (length t2) (byte_bits (a # d1)) \<noteq> t2"
        using take_other_byte [OF diff] take_other_byte [OF diff [symmetric]] t'(1,3) by auto
      with diff False show ?thesis using bits_lt_byte_append(1) [OF diff] by (auto simp: not_less_iff_gr_or_eq)
    qed
  qed
qed (auto simp: trimmed_def)

definition relative_spec :: "int list \<Rightarrow> int list \<Rightarrow> RelativePosition" where
  "relative_spec ds es =
    (if ds = es then SELF
     else if take (length ds) es = ds then DESCENDANT
     else if take (length es) ds = es then ANCESTOR
     else if ds < es then FOLLOWING else PRECEDING)"

text \<open>The mark is compared: the id is embedded in eight bytes and a proper ancestor of the other.\<close>

definition marked_ancestor :: "int list \<Rightarrow> int list \<Rightarrow> bool" where
  "marked_ancestor ds es \<longleftrightarrow> embedded8 (dewey_bits ds) \<and> ds \<noteq> es \<and> take (length ds) es = ds"

lemma trimmed_getData:
  assumes "holds p bs" "bs \<noteq> []" "last bs"
  shows "trimmed (getData p) (cmp_bits bs)"
proof -
  have "8 * ((length bs + 7) div 8) - length bs < 8" by linarith
  then have "8 * ((length bs + 7) div 8) - length (cmp_bits bs) < 8"
    by (rule le_less_trans [rotated]) (simp add: cmp_bits_def)
  with getData_bits [OF assms] assms(2,3) show ?thesis
    by (auto simp: trimmed_def cmp_bits_def)
qed

lemma agree_prefix: "take (length xs) ys = xs \<Longrightarrow> length zs \<le> length ys \<Longrightarrow> take (length zs) ys = zs \<Longrightarrow> agree xs zs"
  by (metis agree_def min_def take_take take_all linorder_linear)

lemma dewey_agree:
  assumes "dewey_ok ds" "dewey_ok es" "agree (dewey_bits ds) (dewey_bits es)"
  shows "take (length ds) es = ds \<or> (\<exists>zs. zs \<noteq> [] \<and> ds = es @ zs)"
proof -
  note int32 = dewey_ok_int32 [OF assms(1)] dewey_ok_int32 [OF assms(2)]
  show ?thesis
  proof (cases "length (dewey_bits ds) \<le> length (dewey_bits es)")
    case True
    with assms(3) have "dewey_bits ds @ drop (length (dewey_bits ds)) (dewey_bits es) = dewey_bits es"
      by (metis agree_def append_take_drop_id take_all)
    from comp.stream_prefix [OF int32 this] show ?thesis by auto
  next
    case False
    with assms(3) have "dewey_bits es @ drop (length (dewey_bits es)) (dewey_bits ds) = dewey_bits ds"
      by (metis agree_def append_take_drop_id take_all linorder_linear)
    from comp.stream_prefix [OF int32(2,1) this] False show ?thesis by auto
  qed
qed

lemma cmp_bits_prefix:
  assumes "dewey_ok ds" "dewey_ok es" "holds q (dewey_bits es)"
    and "\<not> marked_ancestor ds es" "\<not> marked_ancestor es ds"
  shows "take (length (cmp_bits (dewey_bits ds))) (byte_bits (getData q)) = cmp_bits (dewey_bits ds)
     \<longleftrightarrow> take (length ds) es = ds"
proof -
  let ?x = "byte_bits (getData q)"
  note last = dewey_bits_last [OF assms(1)] dewey_bits_last [OF assms(2)]
  obtain k where x: "?x = cmp_bits (dewey_bits es) @ replicate k False"
    using getData_bits(1) [OF assms(3)] last by blast
  show ?thesis
  proof
    assume ext: "take (length ds) es = ds"
    show "take (length (cmp_bits (dewey_bits ds))) ?x = cmp_bits (dewey_bits ds)"
    proof (cases "ds = es")
      case False
      obtain zs where zs: "es = ds @ zs" using ext by (metis append_take_drop_id)
      have "cmp_bits (dewey_bits ds) = dewey_bits ds"
        using assms(4) ext False by (simp add: marked_ancestor_def cmp_bits_def)
      with x zs show ?thesis by (simp add: cmp_bits_def)
    qed (simp add: x)
  next
    assume eq: "take (length (cmp_bits (dewey_bits ds))) ?x = cmp_bits (dewey_bits ds)"
    have ds: "take (length (dewey_bits ds)) ?x = dewey_bits ds"
      using arg_cong [OF eq, of "take (length (dewey_bits ds))"] by (simp add: cmp_bits_def)
    have "take (length (dewey_bits es)) ?x = dewey_bits es" "length (dewey_bits es) \<le> length ?x"
      unfolding x by (simp_all add: cmp_bits_def)
    from agree_prefix [OF ds this(2,1)] dewey_agree [OF assms(1,2)]
    consider "take (length ds) es = ds" | zs where "zs \<noteq> []" "ds = es @ zs" by blast
    then show "take (length ds) es = ds"
    proof cases
      case 2
      then have "cmp_bits (dewey_bits es) = dewey_bits es"
        using assms(5) by (simp add: marked_ancestor_def cmp_bits_def)
      then have "take (length (dewey_bits zs)) (replicate k False) = dewey_bits zs"
        using ds x 2 by simp
      moreover have "True \<in> set (dewey_bits zs)"
        using 2 assms(1) by (intro descendant_bits) (auto simp: dewey_ok_def)
      ultimately show ?thesis by (metis in_set_replicate in_set_takeD)
    qed
  qed
qed

lemma getData_length_mono:
  assumes "dewey_ok ds" "dewey_ok es" "holds p (dewey_bits ds)" "holds q (dewey_bits es)"
    and "take (length ds) es = ds"
  shows "length (getData p) \<le> length (getData q)"
proof -
  obtain zs where zs: "es = ds @ zs" using assms(5) by (metis append_take_drop_id)
  have "length (getData p) = (length (dewey_bits ds) + 7) div 8"
    "length (getData q) = (length (dewey_bits es) + 7) div 8"
    using getData_bits(2) assms(3,4) dewey_bits_last [OF assms(1)] dewey_bits_last [OF assms(2)] by blast+
  with zs show ?thesis by (simp add: div_le_mono)
qed

lemma unrelated_bits:
  assumes "dewey_ok ds" "dewey_ok es" "holds p (dewey_bits ds)" "holds q (dewey_bits es)"
    and "take (length ds) es \<noteq> ds" "take (length es) ds \<noteq> es"
  shows "bits_lt (byte_bits (getData p)) (byte_bits (getData q)) \<longleftrightarrow> ds < es"
proof -
  have bits: "bits_lt (dewey_bits xs) (dewey_bits ys)"
    if "dewey_ok xs" "dewey_ok ys" "take (length xs) ys \<noteq> xs" "xs < ys" for xs ys
    using dewey_bits_less [OF dewey_ok_int32 dewey_ok_int32] that by (metis append_eq_conv_conj)
  have data: "bits_lt (byte_bits (getData r)) (byte_bits (getData s))"
    if "holds r (dewey_bits xs)" "holds s (dewey_bits ys)" "dewey_ok xs" "dewey_ok ys"
      "bits_lt (dewey_bits xs) (dewey_bits ys)" for r s xs ys
    using that dewey_bits_last [of xs] dewey_bits_last [of ys]
    by (simp add: getData_bits(1) cmp_bits_def bits_lt_append)
  consider "ds < es" | "es < ds" using assms(5) by (metis linorder_neqE take_all order_refl)
  then show ?thesis
  proof cases
    case 1
    with data bits assms show ?thesis by blast
  next
    case 2
    with data [OF assms(4,3,2,1)] bits [OF assms(2,1,6)] bits_lt_asym show ?thesis by auto
  qed
qed

lemma getRelativePosition_iff:
  assumes ok: "dewey_ok ds" "dewey_ok es" and h: "holds p (dewey_bits ds)" "holds q (dewey_bits es)"
    and m: "\<not> marked_ancestor ds es" "\<not> marked_ancestor es ds"
  shows "getRelativePosition p q = Inr (relative_spec ds es)"
proof -
  note last = dewey_bits_last [OF ok(1)] dewey_bits_last [OF ok(2)]
  have t: "trimmed (getData p) (cmp_bits (dewey_bits ds))" "trimmed (getData q) (cmp_bits (dewey_bits es))"
    using trimmed_getData h last by blast+
  note ext1 = cmp_bits_prefix [OF ok h(2) m] and ext2 = cmp_bits_prefix [OF ok(2,1) h(1) m(2,1)]
  note len1 = getData_length_mono [OF ok h] and len2 = getData_length_mono [OF ok(2,1) h(2,1)]
  note less = unrelated_bits [OF ok h]
  have both: "ds = es" if "take (length ds) es = ds" "take (length es) ds = es"
    using that by (metis linorder_linear take_all)
  show ?thesis
  proof (cases "length (getData p) < length (getData q)")
    case True
    with len2 have "take (length es) ds \<noteq> es" "ds \<noteq> es" by auto
    with True ext1 less show ?thesis
      by (simp add: getRelativePosition_def relative_shorter_spec [OF True t(1)] relative_spec_def)
  next
    case False
    then have le: "length (getData q) \<le> length (getData p)" by simp
    have eq: "getData p = getData q \<longleftrightarrow> ds = es" if "take (length es) ds = es"
    proof
      assume "getData p = getData q"
      then have "take (length ds) es = ds" using ext1 t(1) unfolding trimmed_def by auto
      with both that show "ds = es" by blast
    next
      assume "ds = es"
      with h holds_unique show "getData p = getData q" by blast
    qed
    have desc: "length (getData p) = length (getData q)" if "take (length ds) es = ds" using len1 [OF that] le by simp
    have rel: "relative_longer (length (getData p) = length (getData q)) (getData p) (getData q)
      = Inr (if take (length es) ds = es then (if getData p = getData q then SELF else ANCESTOR)
         else if length (getData p) = length (getData q) \<and> take (length ds) es = ds then DESCENDANT
         else if bits_lt (byte_bits (getData p)) (byte_bits (getData q)) then FOLLOWING else PRECEDING)"
      unfolding ext1 [symmetric] ext2 [symmetric] using relative_longer_spec [OF le t(1,2)] by simp
    show ?thesis
      using False rel eq desc both less by (auto simp: getRelativePosition_def relative_spec_def)
  qed
qed

lemma eq_op_iff:
  assumes "dewey_ok ds" "dewey_ok es" "holds p (dewey_bits ds)" "holds q (dewey_bits es)"
    and "\<not> mark_read ds es" "\<not> mark_read es ds"
  shows "eq_op p q \<longleftrightarrow> ds = es"
proof
  assume "eq_op p q"
  then have "getData p = getData q" by (auto simp: eq_op_def Let_def split: if_splits)
  then have "\<not> byte_less (getData p) (getData q)" "\<not> byte_less (getData q) (getData p)" by simp_all
  then show "ds = es"
    using byte_less_document_order [OF assms(1-5)] byte_less_document_order [OF assms(2,1,4,3,6)]
    by (meson linorder_neqE)
next
  assume "ds = es"
  with assms(3,4) holds_unique have "p = q" by blast
  then show "eq_op p q" by (simp add: eq_op_def)
qed

section \<open>Levels, parents and siblings\<close>

lemma decompressAll_compressed:
  assumes "dewey_ok ds" "decodable False 0 ds" "compress ds = Inr p"
  shows "decompressAll p = Inr ds"
proof -
  have "length (dewey_bits ds) \<le> MAX_BIT_LEN"
    using assms(1,3) dewey_ok_int32 compressed_holds(2) by blast
  then have "length ds \<le> MAX_NUM_COMPS"
    using length_dewey_bits_ge [of ds] by (simp add: ordpath_consts)
  with decompress_compressed [of "[]" ds False p MAX_NUM_COMPS "\<lambda>_. 0" "\<lambda>_. 0"] assms
  obtain st where st: "decompress p 0 MAX_NUM_COMPS (\<lambda>_. 0) (\<lambda>_. 0) 0 = Inr st"
    "decoded False (decoderInit 0 (\<lambda>_. 0) (\<lambda>_. 0) 0) st ds" by auto
  from decoded_init(1,2) [OF st(2)] show ?thesis by (simp add: decompressAll_def st(1))
qed

text \<open>The remainder of a negative odd component is \<open>- 1\<close>, so it is not counted.\<close>

definition no_negative_odd :: "int list \<Rightarrow> bool" where
  "no_negative_odd ds \<longleftrightarrow> list_all (\<lambda>v. odd v \<longrightarrow> 0 < v) ds"

lemma smod_two: "v smod 2 = 1 \<longleftrightarrow> odd v \<and> 0 < v" for v :: int
proof -
  have "v smod 2 = sgn v * (\<bar>v\<bar> mod 2)" by (simp add: signed_modulo_int_def signed_divide_int_def sgn_if)
  then show ?thesis by (auto simp: sgn_if) presburger+
qed

lemma countOdd_positive: "countOdd ds = length (filter (\<lambda>v. odd v \<and> 0 < v) ds)"
  by (induction ds) (auto simp: countOdd_def smod_two)

lemma countOdd_eq_iff: "length (filter (\<lambda>v. odd v \<and> 0 < v) ds) = length (filter odd ds) \<longleftrightarrow> no_negative_odd ds"
proof (induction ds)
  case (Cons v ds)
  have "length (filter (\<lambda>v. odd v \<and> 0 < v) ds) \<le> length (filter odd ds)"
    by (induction ds) auto
  with Cons show ?case by (auto simp: no_negative_odd_def)
qed (simp add: no_negative_odd_def)

lemma countOdd_eq: "no_negative_odd ds \<Longrightarrow> countOdd ds = length (filter odd ds)"
  by (induction ds) (auto simp: countOdd_def no_negative_odd_def smod_two)

definition strip_carets :: "int list \<Rightarrow> int list" where
  "strip_carets xs = rev (dropWhile even (rev xs))"

definition parent_id :: "int list \<Rightarrow> int list" where
  "parent_id ds = strip_carets (butlast ds)"

definition relative2_spec :: "int list \<Rightarrow> int list \<Rightarrow> RelativePosition" where
  "relative2_spec ds es =
    (if ds = es then OTHER
     else if parent_id ds = es then PARENT
     else if parent_id es = ds then CHILD
     else if parent_id ds = parent_id es
       then (if ds < es then FOLLOWING_SIBLING else PRECEDING_SIBLING)
     else OTHER)"

lemma strip_append: "list_all even ys \<Longrightarrow> strip_carets (xs @ ys) = strip_carets xs"
  unfolding strip_carets_def rev_append by (subst dropWhile_append2) (auto simp: list_all_iff)

lemma strip_id: "xs = [] \<or> odd (last xs) \<Longrightarrow> strip_carets xs = xs"
  by (cases xs rule: rev_cases) (auto simp: strip_carets_def)

lemma strip_split: "\<exists>ys. xs = strip_carets xs @ ys \<and> list_all even ys"
proof (intro exI conjI)
  show "xs = strip_carets xs @ rev (takeWhile even (rev xs))"
    unfolding strip_carets_def by (metis rev_append rev_rev_ident takeWhile_dropWhile_id)
  show "list_all even (rev (takeWhile even (rev xs)))"
    by (auto simp: list_all_iff dest: set_takeWhileD)
qed

lemma parent_split:
  assumes "dewey_ok ds"
  shows "\<exists>ys v. ds = parent_id ds @ ys @ [v] \<and> list_all even ys \<and> odd v"
proof -
  obtain xs v where "ds = xs @ [v]" "odd v" using assms by (cases ds rule: rev_cases) (auto simp: dewey_ok_def)
  then show ?thesis using strip_split [of xs] by (auto simp: parent_id_def)
qed

lemma one_odd:
  assumes "r \<noteq> [] \<Longrightarrow> odd (last r)"
  shows "length (filter odd r) = 0 \<longleftrightarrow> r = []"
    and "length (filter odd r) = 1 \<longleftrightarrow> (\<exists>ys v. r = ys @ [v] \<and> list_all even ys \<and> odd v)"
  using assms by (cases r rule: rev_cases; auto simp: list_all_iff filter_empty_conv)+

lemma firstDifference_split:
  "\<exists>c r1 r2. ds = c @ r1 \<and> es = c @ r2 \<and> length c = firstDifference ds es
     \<and> (r1 \<noteq> [] \<and> r2 \<noteq> [] \<longrightarrow> hd r1 \<noteq> hd r2)"
proof (induction ds es rule: firstDifference.induct)
  case (1 d ds e es)
  show ?case
  proof (cases "d = e")
    case True
    with 1 obtain c r1 r2 where "ds = c @ r1" "es = c @ r2" "length c = firstDifference ds es"
      "r1 \<noteq> [] \<and> r2 \<noteq> [] \<longrightarrow> hd r1 \<noteq> hd r2" by blast
    with True show ?thesis by (intro exI [of _ "d # c"] exI [of _ r1] exI [of _ r2]) auto
  next
    case False
    then show ?thesis by (intro exI [of _ "[]"] exI [of _ "d # ds"] exI [of _ "e # es"]) auto
  qed
qed auto

lemma append_less_iff: "c @ r1 < c @ r2 \<longleftrightarrow> r1 < r2" for c :: "int list"
  by (induction c) auto

lemma common_prefix:
  assumes "c @ r1 = p @ a" "c @ r2 = p @ b" "r1 \<noteq> [] \<and> r2 \<noteq> [] \<longrightarrow> hd r1 \<noteq> hd r2" "r1 \<noteq> []" "r2 \<noteq> []"
  shows "\<exists>m. c = p @ m"
proof -
  from assms(1) consider m where "c = p @ m" | m where "p = c @ m" "r1 = m @ a"
    by (auto simp: append_eq_append_conv2)
  then show ?thesis
  proof cases
    case 2
    with assms(2) have "r2 = m @ b" by simp
    with 2 assms(3-5) have "m = []" by (cases m) auto
    with 2 show ?thesis by simp
  qed blast
qed

text \<open>The position within a level is not the start of another level.\<close>

lemma caret_prefix: "zs @ [w] = ys @ [v] @ r \<Longrightarrow> list_all even zs \<Longrightarrow> odd v \<Longrightarrow> r = []"
  by (cases r rule: rev_cases) (auto simp: list_all_iff)

lemma relative2_cases:
  assumes "dewey_ok ds" "dewey_ok es" "ds \<noteq> es" "ds = c @ r1" "es = c @ r2"
    and "r1 \<noteq> [] \<and> r2 \<noteq> [] \<longrightarrow> hd r1 \<noteq> hd r2"
  shows "parent_id ds = es \<longleftrightarrow> length (filter odd r1) = 1 \<and> r2 = []"
    and "parent_id ds = parent_id es \<longleftrightarrow> length (filter odd r1) = 1 \<and> length (filter odd r2) = 1"
proof -
  have odd: "r1 \<noteq> [] \<Longrightarrow> odd (last r1)" "r2 \<noteq> [] \<Longrightarrow> odd (last r2)"
    using assms(1,2,4,5) by (auto simp: dewey_ok_def)
  have parent: "parent_id (c @ ys @ [v]) = strip_carets c" if "list_all even ys" for ys v
    using that strip_append [of ys c] by (simp add: parent_id_def butlast_append)
  define P Q where "P = parent_id ds" and "Q = parent_id es"
  obtain ys v where p1: "ds = P @ ys @ [v]" "list_all even ys" "odd v"
    using parent_split [OF assms(1)] unfolding P_def by blast
  obtain zs w where p2: "es = Q @ zs @ [w]" "list_all even zs" "odd w"
    using parent_split [OF assms(2)] unfolding Q_def by blast
  show "parent_id ds = es \<longleftrightarrow> length (filter odd r1) = 1 \<and> r2 = []"
  proof
    assume "parent_id ds = es"
    with p1 have ds: "ds = es @ ys @ [v]" by (simp add: P_def)
    with assms(4-6) have "r2 = []" by (cases r2) auto
    with ds assms(4,5) have "r1 = ys @ [v]" by simp
    with \<open>r2 = []\<close> show "length (filter odd r1) = 1 \<and> r2 = []" using one_odd(2) [OF odd(1)] p1 by blast
  next
    assume r: "length (filter odd r1) = 1 \<and> r2 = []"
    then obtain ys v where "r1 = ys @ [v]" "list_all even ys" using one_odd(2) [OF odd(1)] by blast
    with parent [of ys v] r assms(2,4,5) show "parent_id ds = es"
      by (simp add: strip_id dewey_ok_def)
  qed
  show "parent_id ds = parent_id es \<longleftrightarrow> length (filter odd r1) = 1 \<and> length (filter odd r2) = 1"
  proof
    assume "length (filter odd r1) = 1 \<and> length (filter odd r2) = 1"
    then obtain ys v zs w where "r1 = ys @ [v]" "list_all even ys" "r2 = zs @ [w]" "list_all even zs"
      using one_odd(2) [OF odd(1)] one_odd(2) [OF odd(2)] by blast
    with parent assms(4,5) show "parent_id ds = parent_id es" by simp
  next
    assume "parent_id ds = parent_id es"
    then have "P = Q" by (simp add: P_def Q_def)
    with p1 p2 assms(3) have eq: "r1 \<noteq> [] \<and> r2 \<noteq> []"
      using caret_prefix [of zs w ys v r2] caret_prefix [of ys v zs w r1] unfolding assms(4,5) by auto
    have "c @ r1 = P @ ys @ [v]" "c @ r2 = P @ zs @ [w]"
      using p1(1) p2(1) assms(4,5) \<open>P = Q\<close> by simp_all
    with common_prefix assms(6) eq obtain m where "c = P @ m" by blast
    with \<open>c @ r1 = P @ ys @ [v]\<close> \<open>c @ r2 = P @ zs @ [w]\<close> have m: "ys @ [v] = m @ r1" "zs @ [w] = m @ r2"
      by simp_all
    have "length (filter odd (m @ r1)) = 1" "length (filter odd (m @ r2)) = 1"
      unfolding m [symmetric] using p1(2,3) p2(2,3) by (auto simp: list_all_iff filter_empty_conv)
    moreover have "length (filter odd r1) \<noteq> 0" "length (filter odd r2) \<noteq> 0"
      using one_odd(1) odd eq by blast+
    ultimately show "length (filter odd r1) = 1 \<and> length (filter odd r2) = 1"
      unfolding filter_append length_append by linarith
  qed
qed

lemma getRelativePosition2_iff:
  assumes "dewey_ok ds" "dewey_ok es" "decodable False 0 ds" "decodable False 0 es"
    and "compress ds = Inr p" "compress es = Inr q" "no_negative_odd ds" "no_negative_odd es"
  shows "getRelativePosition2 p q = Inr (relative2_spec ds es)"
proof -
  obtain c r1 r2 where c: "ds = c @ r1" "es = c @ r2" "length c = firstDifference ds es"
    "r1 \<noteq> [] \<and> r2 \<noteq> [] \<longrightarrow> hd r1 \<noteq> hd r2"
    using firstDifference_split by blast
  have dec: "decompressAll p = Inr ds" "decompressAll q = Inr es"
    using decompressAll_compressed assms by blast+
  have neg: "no_negative_odd r1" "no_negative_odd r2"
    using assms(7,8) c(1,2) by (auto simp: no_negative_odd_def)
  have odd: "r1 \<noteq> [] \<Longrightarrow> odd (last r1)" "r2 \<noteq> [] \<Longrightarrow> odd (last r2)"
    using assms(1,2) c(1,2) by (auto simp: dewey_ok_def)
  show ?thesis
  proof (cases "ds = es")
    case True
    then have "r1 = r2" using c(1,2) by simp
    with c(4) have "r1 = []" by auto
    with True c dec show ?thesis by (simp add: getRelativePosition2_def relative2_spec_def)
  next
    case False
    note cases1 = relative2_cases [OF assms(1,2) False c(1,2,4)]
    have c4: "r2 \<noteq> [] \<and> r1 \<noteq> [] \<longrightarrow> hd r2 \<noteq> hd r1" using c(4) by auto
    note cases2 = relative2_cases(1) [OF assms(2,1) False [symmetric] c(2,1) c4]
    have first: "(r1 \<noteq> [] \<and> r2 \<noteq> [] \<and> ds ! length c < es ! length c) \<longleftrightarrow> ds < es" if "r1 \<noteq> []" "r2 \<noteq> []"
      using that c(1,2,4) by (cases r1; cases r2) (auto simp: append_less_iff nth_append)
    have ne: "\<not> (r1 = [] \<and> r2 = [])" using False c(1,2) by auto
    define n1 n2 where "n1 = length (filter odd r1)" and "n2 = length (filter odd r2)"
    have same: "\<not> (length c = length ds \<and> length ds = length es)" using ne c(1,2) by auto
    have tf: "(length c < length ds \<and> length c < length es \<and> ds ! length c < es ! length c) \<longleftrightarrow> ds < es"
      if "r1 \<noteq> []" "r2 \<noteq> []"
      using first [OF that] that c(1,2) by simp
    have curr: "getRelativePosition2 p q =
      (if n1 > 1 \<or> n2 > 1 then Inr OTHER else if n1 = 1 \<and> n2 = 0 then Inr PARENT
       else if n1 = 0 \<and> n2 = 1 then Inr CHILD
       else if n1 = 1 \<and> n2 = 1 then Inr (if ds < es then FOLLOWING_SIBLING else PRECEDING_SIBLING)
       else Inl Assertion)"
    proof -
      have co: "countOdd (drop (length c) ds) = n1" "countOdd (drop (length c) es) = n2"
        using neg by (simp_all add: c(1,2) countOdd_eq n1_def n2_def)
      have "n1 = 1 \<and> n2 = 1 \<Longrightarrow> (length c < length ds \<and> length c < length es \<and> ds ! length c < es ! length c) \<longleftrightarrow> ds < es"
        by (rule tf) (auto simp: n1_def n2_def)
      then show ?thesis
        using same by (auto simp: getRelativePosition2_def dec c(3) [symmetric] co Let_def)
    qed
    have zero: "n1 = 0 \<longleftrightarrow> r1 = []" "n2 = 0 \<longleftrightarrow> r2 = []"
      using one_odd(1) odd unfolding n1_def n2_def by blast+
    note spec = cases1 [folded n1_def n2_def, folded zero] cases2 [folded n1_def n2_def, folded zero]
    have "n1 \<noteq> 0 \<or> n2 \<noteq> 0" using ne zero by blast
    then show ?thesis
      unfolding curr relative2_spec_def spec using False by simp linarith
  qed
qed

section \<open>Where the mark is compared\<close>

lemma compress_eqI: "list_all comp_int32 ds \<Longrightarrow> holds p (dewey_bits ds) \<Longrightarrow> compress ds = Inr p"
proof -
  assume ds: "list_all comp_int32 ds" and p: "holds p (dewey_bits ds)"
  then have "length (dewey_bits ds) \<le> MAX_BIT_LEN"
    by (cases p) (auto simp: marked_def ordpath_consts)
  from compress_holds [OF ds this] p holds_unique show ?thesis by auto
qed

lemma bits_of_ones: "i < 2 * n \<Longrightarrow> concat (replicate n (comp_bits 1)) ! i = odd i"
proof (induction n arbitrary: i)
  case (Suc n)
  have one: "comp_bits 1 = [False, True]"
    by (simp add: comp_bits_def class_bits_def comp_class_cases nat_bits_numeral)
  show ?case
  proof (cases "i < 2")
    case True
    then have "i = 0 \<or> i = 1" by auto
    with one show ?thesis by (auto simp: nth_append)
  next
    case False
    then obtain j where "i = Suc (Suc j)" by (metis Suc_eq_plus1 add_2_eq_Suc' le_Suc_ex not_less add.commute)
    with Suc one show ?thesis by simp
  qed
qed simp

lemma length_bits_of_ones: "length (concat (replicate n (comp_bits 1))) = 2 * n"
  by (simp add: length_concat length_comp_bits comp_class_cases sum_list_replicate)

lemma buf_bit_0x55: "buf_bit (replicate n 0x55) i \<longleftrightarrow> i < 8 * n \<and> odd i"
proof -
  have "list_all (\<lambda>k. bit (0x55 :: byte) (7 - k) = odd k) [0..<8]" by (simp add: upt_rec)
  then have "bit (0x55 :: byte) (7 - i mod 8) = odd (i mod 8)" by (simp add: list_all_iff)
  moreover have "odd (i mod 8) = odd i" by presburger
  ultimately show ?thesis by (auto simp: buf_bit_def)
qed

lemma replicate_0x55: "replicate 8 0x55 = [0x55, 0x55, 0x55, 0x55, 0x55, 0x55, 0x55, 0x55 :: byte]"
  by (simp add: numeral_eq_Suc)

text \<open>The ids of 30, 31 and 32 levels of first children; the last one is the first that is remote.\<close>

lemma compress_ones:
  "compress (replicate 30 1) = Inr (Local [0x55, 0x55, 0x55, 0x55, 0x55, 0x55, 0x55, 0x51])"
  "compress (replicate 31 1) = Inr (Local [0x55, 0x55, 0x55, 0x55, 0x55, 0x55, 0x55, 0x55])"
  "compress (replicate 32 1) = Inr (Remote [0x55, 0x55, 0x55, 0x55, 0x55, 0x55, 0x55, 0x55])"
proof -
  have ok: "list_all comp_int32 (replicate n 1)" for n by (simp add: list_all_iff comp_int32_def INT32_MAX_def)
  have "i < 62" if "i < 64" "odd i" "i \<noteq> 63" for i :: nat using that by presburger
  then have "marked (replicate 8 0x55) (dewey_bits (replicate 31 1))"
    by (auto simp: marked_def buf_bit_0x55 bits_of_ones length_bits_of_ones)
  then show "compress (replicate 31 1) = Inr (Local [0x55, 0x55, 0x55, 0x55, 0x55, 0x55, 0x55, 0x55])"
    using compress_eqI [OF ok, of "Local (replicate 8 0x55)" 31] by (simp add: replicate_0x55)
  have "padded (replicate 8 0x55) (dewey_bits (replicate 32 1))"
    by (auto simp: padded_def buf_bit_0x55 bits_of_ones length_bits_of_ones)
  then show "compress (replicate 32 1) = Inr (Remote [0x55, 0x55, 0x55, 0x55, 0x55, 0x55, 0x55, 0x55])"
    using compress_eqI [OF ok, of "Remote (replicate 8 0x55)" 32] by (simp add: length_bits_of_ones replicate_0x55)
  have "list_all (\<lambda>i. buf_bit [0x55, 0x55, 0x55, 0x55, 0x55, 0x55, 0x55, 0x51] i = (i < 60 \<and> odd i \<or> i = 63)) [0..<64]"
    by (simp add: buf_bit_def upt_rec)
  note all = this [unfolded list_all_iff]
  have b: "buf_bit [0x55, 0x55, 0x55, 0x55, 0x55, 0x55, 0x55, 0x51] i = (i < 60 \<and> odd i \<or> i = 63)" if "i < 64" for i
    by (rule bspec [OF all]) (use that in simp)
  have "marked [0x55, 0x55, 0x55, 0x55, 0x55, 0x55, 0x55, 0x51] (dewey_bits (replicate 30 1))"
    using b by (simp add: marked_def length_bits_of_ones) (auto simp: bits_of_ones)
  then show "compress (replicate 30 1) = Inr (Local [0x55, 0x55, 0x55, 0x55, 0x55, 0x55, 0x55, 0x51])"
    using compress_eqI [OF ok, of "Local [0x55, 0x55, 0x55, 0x55, 0x55, 0x55, 0x55, 0x51]" 30] by simp
qed

section \<open>Properties\<close>

text \<open>
  C1: Comparing the bytes of two ids is comparing their component lists in document order (a node
  after its ancestors and before the following siblings of these): \<open>operator<\<close>, \<open>operator>\<close> and
  \<open>operator==\<close> are the order, its converse and equality, unless the mark of an eight-byte embedded id
  is read as a bit of the id (\<open>mark_read\<close>).
\<close>

theorem document_order:
  assumes "dewey_ok ds" "dewey_ok es" "compress ds = Inr p" "compress es = Inr q"
    and "\<not> mark_read ds es" "\<not> mark_read es ds"
  shows "(less_op p q \<longleftrightarrow> ds < es) \<and> (greater_op p q \<longleftrightarrow> es < ds) \<and> (eq_op p q \<longleftrightarrow> ds = es)"
proof -
  have h: "holds p (dewey_bits ds)" "holds q (dewey_bits es)"
    using compressed_holds(1) dewey_ok_int32 assms(1-4) by blast+
  have "greater_op p q = less_op q p" by (simp add: greater_op_bytes less_op_bytes)
  with less_op_iff [OF assms(1,2) h assms(5,6)] less_op_iff [OF assms(2,1) h(2,1) assms(6,5)]
    eq_op_iff [OF assms(1,2) h assms(5,6)]
  show ?thesis by simp
qed

theorem document_order_witness:
  "less_op (Local [0x65, 0, 0, 0, 0, 0, 0, 1]) (Local [0x70, 0x80, 0, 0, 0, 0, 0, 1]) \<longleftrightarrow> [1, 2, 3] < [1, 4, 1 :: int]"
proof -
  have "compress [1, 2, 3] = Inr (Local [0x65, 0, 0, 0, 0, 0, 0, 1])" by (simp add: encode_eval)
  moreover have "compress [1, 4, 1] = Inr (Local [0x70, 0x80, 0, 0, 0, 0, 0, 1])" by (simp add: encode_eval)
  moreover have "dewey_ok [1, 2, 3]" "dewey_ok [1, 4, 1]" "\<not> mark_read [1, 2, 3] [1, 4, 1]" "\<not> mark_read [1, 4, 1] [1, 2, 3]"
    by (simp_all add: dewey_ok_def comp_ok_def INT32_MAX_def mark_read_def)
  ultimately show ?thesis using document_order by blast
qed

text \<open>
  C7: \<open>getRelativePosition\<close> gives the axis of the other id seen from this one (self, ancestor,
  descendant, preceding or following), unless one of the two is a proper ancestor of the other and
  embedded in eight bytes.
\<close>

theorem relative_position:
  assumes "dewey_ok ds" "dewey_ok es" "compress ds = Inr p" "compress es = Inr q"
    and "\<not> marked_ancestor ds es" "\<not> marked_ancestor es ds"
  shows "getRelativePosition p q = Inr (relative_spec ds es)"
  using getRelativePosition_iff [OF assms(1,2) _ _ assms(5,6)] compressed_holds(1) dewey_ok_int32 assms(1-4)
  by blast

theorem relative_position_witness:
  "getRelativePosition (Local [0x70, 0x80, 0, 0, 0, 0, 0, 1]) (Local [0x40, 0, 0, 0, 0, 0, 0, 1]) = Inr ANCESTOR"
proof -
  have "compress [1, 4, 1] = Inr (Local [0x70, 0x80, 0, 0, 0, 0, 0, 1])" "compress [1] = Inr (Local [0x40, 0, 0, 0, 0, 0, 0, 1])"
    by (simp_all add: encode_eval)
  moreover have "dewey_ok [1, 4, 1]" "dewey_ok [1]" "\<not> marked_ancestor [1, 4, 1] [1]" "\<not> marked_ancestor [1] [1, 4, 1]"
    by (simp_all add: dewey_ok_def comp_ok_def INT32_MAX_def marked_ancestor_def embedded8_def length_comp_bits comp_class_cases)
  ultimately have "getRelativePosition (Local [0x70, 0x80, 0, 0, 0, 0, 0, 1]) (Local [0x40, 0, 0, 0, 0, 0, 0, 1])
      = Inr (relative_spec [1, 4, 1] [1])"
    using relative_position by blast
  then show ?thesis by (simp add: relative_spec_def)
qed

text \<open>
  C22: \<open>getRelativePosition2\<close> tells parents, children and siblings apart from all other pairs, for
  ids that contain none of the patterns the decoder misreads (\<open>decodable False\<close>) and no negative odd component.
\<close>

theorem relative_position2:
  assumes "dewey_ok ds" "dewey_ok es" "compress ds = Inr p" "compress es = Inr q"
    and "decodable False 0 ds" "decodable False 0 es" "no_negative_odd ds" "no_negative_odd es"
  shows "getRelativePosition2 p q = Inr (relative2_spec ds es)"
  using getRelativePosition2_iff assms by blast

theorem relative_position2_witness:
  "getRelativePosition2 (Local [0x65, 0, 0, 0, 0, 0, 0, 1]) (Local [0x70, 0x80, 0, 0, 0, 0, 0, 1]) = Inr FOLLOWING_SIBLING"
proof -
  have "compress [1, 2, 3] = Inr (Local [0x65, 0, 0, 0, 0, 0, 0, 1])" "compress [1, 4, 1] = Inr (Local [0x70, 0x80, 0, 0, 0, 0, 0, 1])"
    by (simp_all add: encode_eval)
  moreover have "dewey_ok [1, 2, 3]" "dewey_ok [1, 4, 1]" "no_negative_odd [1, 2, 3]" "no_negative_odd [1, 4, 1]"
    "decodable False 0 [1, 2, 3]" "decodable False 0 [1, 4, 1]"
    by (simp_all add: dewey_ok_def comp_ok_def INT32_MAX_def no_negative_odd_def window_ok_def misread_def)
  ultimately have "getRelativePosition2 (Local [0x65, 0, 0, 0, 0, 0, 0, 1]) (Local [0x70, 0x80, 0, 0, 0, 0, 0, 1])
      = Inr (relative2_spec [1, 2, 3] [1, 4, 1])"
    using relative_position2 by blast
  then show ?thesis by (simp add: relative2_spec_def parent_id_def strip_carets_def)
qed

text \<open>
  C27: For an id the decoder reads correctly, \<open>getLevel\<close> counts the odd components that are not
  negative, because the remainder of C++ is \<open>- 1\<close> for the negative ones. This is the depth of the node, the
  number of all odd components, exactly when the id has no negative odd component.
\<close>

theorem level_correct:
  assumes "dewey_ok ds" "compress ds = Inr p" "decodable False 0 ds"
  shows "getLevel p = Inr (length (filter (\<lambda>v. odd v \<and> 0 < v) ds))
    \<and> (getLevel p = Inr (length (filter odd ds)) \<longleftrightarrow> no_negative_odd ds)"
proof -
  have "getLevel p = Inr (countOdd ds)"
    using decompressAll_compressed [OF assms(1,3,2)] by (simp add: getLevel_def)
  then show ?thesis by (simp add: countOdd_positive countOdd_eq_iff)
qed

theorem level_correct_witness:
  "getLevel (Local [0x70, 0x80, 0, 0, 0, 0, 0, 1]) = Inr 2 \<and> getLevel (Local [0x47, 0, 0, 0, 0, 0, 0, 1]) = Inr 1"
proof -
  have "compress [1, 4, 1] = Inr (Local [0x70, 0x80, 0, 0, 0, 0, 0, 1])"
    "compress [1, - 1] = Inr (Local [0x47, 0, 0, 0, 0, 0, 0, 1])" by (simp_all add: encode_eval)
  moreover have "dewey_ok [1, 4, 1]" "decodable False 0 [1, 4, 1]" "dewey_ok [1, - 1]" "decodable False 0 [1, - 1]"
    by (simp_all add: dewey_ok_def comp_ok_def INT32_MAX_def window_ok_def misread_def)
  ultimately show ?thesis using level_correct [of "[1, 4, 1]"] level_correct [of "[1, - 1]"] by simp
qed

text \<open>
  The excluded pairs are compared wrongly: the id of 31 levels of first children and that of its
  own first child are equal for \<open>operator==\<close> and not ordered by \<open>operator<\<close>, and the id of 30 levels
  is reported to precede its first child instead of being its ancestor.
\<close>

lemma mark_defects:
  "\<exists>p q r. compress (replicate 31 1) = Inr p \<and> compress (replicate 31 1 @ [1]) = Inr q
    \<and> compress (replicate 30 1) = Inr r
    \<and> eq_op p q \<and> \<not> less_op p q \<and> getRelativePosition r p = Inr FOLLOWING"
proof -
  have "replicate 31 1 @ [1] = (replicate 32 1 :: int list)"
    by (simp add: replicate_append_same flip: replicate_Suc)
  moreover have "eq_op (Local [0x55, 0x55, 0x55, 0x55, 0x55, 0x55, 0x55, 0x55])
      (Remote [0x55, 0x55, 0x55, 0x55, 0x55, 0x55, 0x55, 0x55])"
    "\<not> less_op (Local [0x55, 0x55, 0x55, 0x55, 0x55, 0x55, 0x55, 0x55])
      (Remote [0x55, 0x55, 0x55, 0x55, 0x55, 0x55, 0x55, 0x55])"
    by (simp_all add: eq_op_def less_op_def getLocalByteLength_def ordpath_consts)
  moreover have "getRelativePosition (Local [0x55, 0x55, 0x55, 0x55, 0x55, 0x55, 0x55, 0x51])
      (Local [0x55, 0x55, 0x55, 0x55, 0x55, 0x55, 0x55, 0x55]) = Inr FOLLOWING"
    by (simp add: getRelativePosition_def getLocalByteLength_def ordpath_consts lowMask.simps)
  ultimately show ?thesis using compress_ones by auto
qed

text \<open>
  A negative odd component is not counted as a level, because the remainder of C++ is
  \<open>- 1\<close>: the child \<open>1.-1\<close> of the root \<open>1\<close> is on level 1, and asking for its position relative to its
  parent ends in the internal error of \<open>ZORBA_FATAL\<close>.
\<close>

lemma negative_defects:
  "\<exists>p q. compress [1, - 1] = Inr p \<and> compress [1] = Inr q
    \<and> getLevel p = Inr 1 \<and> getRelativePosition2 p q = Inl Assertion"
proof -
  have "compress [1, - 1] = Inr (Local [0x47, 0, 0, 0, 0, 0, 0, 1])"
    "compress [1] = Inr (Local [0x40, 0, 0, 0, 0, 0, 0, 1])"
    by (simp_all add: encode_eval)
  moreover have "decompressAll (Local [0x47, 0, 0, 0, 0, 0, 0, 1]) = Inr [1, - 1]"
    "decompressAll (Local [0x40, 0, 0, 0, 0, 0, 0, 1]) = Inr [1]"
    using decompressAll_compressed [OF _ _ calculation(1)] decompressAll_compressed [OF _ _ calculation(2)]
    by (simp_all add: dewey_ok_def comp_ok_def INT32_MAX_def window_ok_def misread_def)
  ultimately show ?thesis
    by (simp add: getLevel_def getRelativePosition2_def countOdd_def smod_two)
qed

text \<open>
  \<open>setAsRoot\<close> makes the id 1 and \<open>isRoot\<close> accepts it; but \<open>isRoot\<close> looks at the first byte only
  and also accepts other ids, such as \<open>1.-301\<close>.
\<close>

lemma root_test:
  "compress [1] = Inr setAsRoot \<and> isRoot setAsRoot \<and> (\<exists>p. compress [1, - 301] = Inr p \<and> isRoot p)"
  by (simp add: encode_eval setAsRoot_def)

end
