(* ===== verification/OrdPath_Insert.thy ===== *)
theory OrdPath_Insert
  imports OrdPath_Compare
begin

text \<open>
  Making ids for inserted nodes: \<open>insertBefore\<close>, \<open>insertAfter\<close> and \<open>insertInto\<close> of
  \<open>store/naive/ordpath.cpp\<close>. The code works on the compressed sibling: it decodes the last level of
  the sibling only, copies the bits before the component it changes and pushes the new components.
  The lemmas show that the result is the compressed form of an id of the same level and parent that
  lies strictly between its neighbours, so that the ids of the other nodes need not change.
\<close>

section \<open>Definitions\<close>

text \<open>The bytes of \<open>getData()\<close>, all eight of them for an embedded id.\<close>

fun rawData :: "ordpath \<Rightarrow> byte list" where
  "rawData (Local l) = l"
| "rawData (Remote d) = d"

text \<open>
  The common end of the insert operations: the first \<open>commonBitLen\<close> bits of \<open>src\<close> are copied to a
  fresh id, the bits of the last copied byte that are not common are cleared, and \<open>comps\<close> are
  pushed. \<open>newBits\<close> is the number of bits they need.
\<close>

definition copyAndPush :: "ordpath \<Rightarrow> nat \<Rightarrow> nat \<Rightarrow> int list \<Rightarrow> ordpath outcome" where
  "copyAndPush src commonBitLen newBits comps =
    (let commonByteLen = (commonBitLen + 7) div 8;
         bitLen = commonBitLen + newBits;
         byteLen = (bitLen + 7) div 8;
         isLocal = (bitLen \<le> MAX_EMBEDDED_BIT_LEN);
         fresh = (if isLocal then reset else initRemote byteLen)
     in if commonByteLen > length (rawData src) then Inl Undefined
        else
          let data = take commonByteLen (rawData src) @ drop commonByteLen fresh;
              data = (if commonBitLen mod 8 \<noteq> 0
                then data[commonByteLen - 1 :=
                       data ! (commonByteLen - 1) AND push_bit (8 - commonBitLen mod 8) 0xff]
                else data);
              data = (if isLocal then markLocal data else data)
          in bindE (pushComps data bitLen comps commonBitLen) (\<lambda>(success, data, _).
               if \<not> success then Inl Assertion
               else Inr (if isLocal then Local data else Remote data)))"

definition insertBeforeOrAfter :: "bool \<Rightarrow> ordpath \<Rightarrow> ordpath \<Rightarrow> ordpath outcome" where
  "insertBeforeOrAfter before parent sibling =
    bindE (getBitLength parent) (\<lambda>parentBitLen.
    bindE (decompress sibling parentBitLen MAX_NUM_COMPS (\<lambda>_. 0) (\<lambda>_. 0) 0) (\<lambda>st.
      if d_numComps st = 0 then Inl Undefined
      else
        let newcomp = d_deweyid st (d_numComps st - 1) in
        if before \<and> newcomp < - INT32_MAX + 2 then Inl NODEID_ERROR
        else if \<not> before \<and> newcomp > INT32_MAX - 2 then Inl NODEID_ERROR
        else
          let newcomp = (if before then newcomp - 2 else newcomp + 2);
              newBits = fst (bitsNeeded newcomp);
              commonBitLen = d_compOffsets st (d_numComps st - 1)
          in copyAndPush sibling commonBitLen newBits [newcomp]))"

definition insertAfter :: "ordpath \<Rightarrow> ordpath \<Rightarrow> ordpath outcome" where
  "insertAfter parent sibling = insertBeforeOrAfter False parent sibling"

definition insertBefore :: "ordpath \<Rightarrow> ordpath \<Rightarrow> ordpath outcome" where
  "insertBefore parent sibling = insertBeforeOrAfter True parent sibling"

text \<open>The loop that finds the first differing components; running out of components fails an
  assertion.\<close>

fun differingComp :: "int list \<Rightarrow> int list \<Rightarrow> nat outcome" where
  "differingComp (c1 # dewey1) (c2 # dewey2) =
    (if c1 = c2
     then (if dewey1 = [] \<or> dewey2 = [] then Inl Assertion
           else bindE (differingComp dewey1 dewey2) (\<lambda>compPos. Inr (Suc compPos)))
     else Inr 0)"
| "differingComp _ _ = Inl Undefined"

text \<open>
  The choice of the new components, given the last levels of the two siblings and the offsets of
  their components: which sibling to copy from, how many bits of it, and the components to push.
  The difference of the two components is computed in \<open>int32_t\<close>.
\<close>

definition chooseComps ::
  "int list \<Rightarrow> nat list \<Rightarrow> int list \<Rightarrow> nat list \<Rightarrow> nat \<Rightarrow> (bool \<times> nat \<times> nat \<times> int list) outcome" where
  "chooseComps dewey1 offsets1 dewey2 offsets2 compPos =
    (let comp1 = dewey1 ! compPos; comp2 = dewey2 ! compPos;
         odd1 = (comp1 smod 2 \<noteq> 0); odd2 = (comp2 smod 2 \<noteq> 0); diff = comp2 - comp1
     in if \<not> comp1 < comp2 then Inl Assertion
        else if diff > INT32_MAX then Inl Undefined
        else if diff > 2 \<or> \<not> odd1 \<and> diff = 2 then
          let newcomp1 = comp1 + diff div 2;
              newcomp1 = (if newcomp1 smod 2 = 0 then newcomp1 + 1 else newcomp1)
          in Inr (True, offsets1 ! compPos, fst (bitsNeeded newcomp1), [newcomp1])
        else if odd1 \<and> odd2 then
          let newcomp1 = comp1 + 1
          in Inr (True, offsets1 ! compPos, fst (bitsNeeded newcomp1) + 2, [newcomp1, 1])
        else if odd1 then
          bindE (rd dewey2 (compPos + 1)) (\<lambda>newcomp1.
            if newcomp1 smod 2 = 0 then
              if newcomp1 < - INT32_MAX + 1 then Inl NODEID_ERROR
              else Inr (False, offsets2 ! (compPos + 1), fst (bitsNeeded (newcomp1 - 1)), [newcomp1 - 1])
            else
              if newcomp1 < - INT32_MAX + 2 then Inl NODEID_ERROR
              else Inr (False, offsets2 ! (compPos + 1), fst (bitsNeeded (newcomp1 - 2)), [newcomp1 - 2]))
        else if odd2 then
          bindE (rd dewey1 (compPos + 1)) (\<lambda>newcomp1.
            if newcomp1 smod 2 = 0 then
              if newcomp1 > INT32_MAX - 1 then Inl NODEID_ERROR
              else Inr (True, offsets1 ! (compPos + 1), fst (bitsNeeded (newcomp1 + 1)), [newcomp1 + 1])
            else
              if newcomp1 > INT32_MAX - 2 then Inl NODEID_ERROR
              else Inr (True, offsets1 ! (compPos + 1), fst (bitsNeeded (newcomp1 + 2)), [newcomp1 + 2]))
        else Inl Assertion)"

text \<open>The arrays for the second sibling have only \<open>MAX_BYTE_LEN\<close> entries.\<close>

definition insertInto :: "ordpath \<Rightarrow> ordpath \<Rightarrow> ordpath \<Rightarrow> ordpath outcome" where
  "insertInto parent sib1 sib2 =
    bindE (getBitLength parent) (\<lambda>parentBitLen.
    bindE (decompress sib1 parentBitLen MAX_NUM_COMPS (\<lambda>_. 0) (\<lambda>_. 0) 0) (\<lambda>st1.
    bindE (decompress sib2 parentBitLen MAX_BYTE_LEN (\<lambda>_. 0) (\<lambda>_. 0) 0) (\<lambda>st2.
      let dewey1 = map (d_deweyid st1) [0..<d_numComps st1];
          offsets1 = map (d_compOffsets st1) [0..<d_numComps st1];
          dewey2 = map (d_deweyid st2) [0..<d_numComps st2];
          offsets2 = map (d_compOffsets st2) [0..<d_numComps st2]
      in bindE (differingComp dewey1 dewey2) (\<lambda>compPos.
         bindE (chooseComps dewey1 offsets1 dewey2 offsets2 compPos)
           (\<lambda>(copy1, commonBitLen, newBits, comps).
             copyAndPush (if copy1 then sib1 else sib2) commonBitLen newBits comps)))))"

section \<open>Copying and pushing\<close>

lemma pushComps_error:
  assumes "list_all comp_int32 ds" "k \<le> 2040" "2040 < k + length (dewey_bits ds)" "2040 \<le> maxBits"
    and "2040 \<le> 8 * length d"
  shows "pushComps d maxBits ds k = Inl NODEID_ERROR"
  using assms
proof (induction ds arbitrary: d k)
  case (Cons v ds)
  show ?case
  proof (cases "k + length (comp_bits v) > 2040")
    case True
    with Cons.prems show ?thesis by (simp add: pushComp_cases)
  next
    case False
    then obtain d1 where "pushComp d maxBits v k = Inr (True, d1, k + length (comp_bits v))"
      "bits_written d d1 k (comp_bits v)"
      using pushComp_written [of v k maxBits d] Cons.prems by auto
    with False Cons show ?thesis using bits_written_length by (simp add: add.assoc)
  qed
qed simp

lemma rawData_bits:
  assumes "holds p bs" "i < length bs"
  shows "buf_bit (rawData p) i = bs ! i" "length bs \<le> 8 * length (rawData p)"
proof -
  have "buf_bit (rawData p) i = bs ! i \<and> length bs \<le> 8 * length (rawData p)"
    using assms by (cases p) (auto simp: marked_def padded_bit padded_length)
  then show "buf_bit (rawData p) i = bs ! i" "length bs \<le> 8 * length (rawData p)" by auto
qed

text \<open>The copied bytes, with the last one masked, hold the common bits and zeros.\<close>

definition copied :: "byte list \<Rightarrow> nat \<Rightarrow> byte list \<Rightarrow> byte list" where
  "copied src n fresh =
    (let data = take ((n + 7) div 8) src @ drop ((n + 7) div 8) fresh in
     if n mod 8 \<noteq> 0
     then data[(n + 7) div 8 - 1 := data ! ((n + 7) div 8 - 1) AND push_bit (8 - n mod 8) 0xff]
     else data)"

lemma less_div_mod: "0 < m \<Longrightarrow> i < n \<longleftrightarrow> i div m < n div m \<or> i div m = n div m \<and> i mod m < n mod m" for i n m :: nat
  by (metis add.commute add_less_cancel_left div_le_mono div_mod_decomp less_imp_le less_le_not_le linorder_neqE_nat)

lemma ceil_div8:
  fixes n :: nat
  assumes "n mod 8 \<noteq> 0" shows "(n + 7) div 8 = Suc (n div 8)"
proof -
  define q r where "q = n div 8" and "r = n mod 8"
  have "n = 8 * q + r" "1 \<le> r" "r < 8" using assms by (auto simp: q_def r_def)
  then have "(n + 7) div 8 = Suc q" by (intro div_nat_eqI) auto
  then show ?thesis by (simp add: q_def)
qed

lemma buf_bit_copied:
  assumes "(n + 7) div 8 \<le> length src" "(n + 7) div 8 \<le> length fresh"
  shows "buf_bit (copied src n fresh) i =
    (if i < n then buf_bit src i else if i < 8 * ((n + 7) div 8) then False else buf_bit fresh i)"
    and "length (copied src n fresh) = length fresh"
proof -
  let ?m = "(n + 7) div 8"
  define data where "data = take ?m src @ drop ?m fresh"
  have len: "length data = length fresh" using assms by (simp add: data_def)
  then show "length (copied src n fresh) = length fresh" by (simp add: copied_def data_def Let_def)
  have lt: "i < 8 * ?m \<longleftrightarrow> i div 8 < ?m" by linarith
  have data_bit: "buf_bit data i = (if i < 8 * ?m then buf_bit src i else buf_bit fresh i)"
    unfolding lt using assms by (auto simp: buf_bit_def data_def nth_append)
  show "buf_bit (copied src n fresh) i =
    (if i < n then buf_bit src i else if i < 8 * ?m then False else buf_bit fresh i)"
  proof (cases "n mod 8 = 0")
    case True
    then have "8 * ?m = n" by presburger
    with True data_bit show ?thesis by (simp add: copied_def data_def)
  next
    case False
    then have m: "?m = Suc (n div 8)" by (rule ceil_div8)
    have "n div 8 < length data" using len assms(2) m by simp
    from buf_bit_and [OF this, of "push_bit (8 - n mod 8) 0xff" i]
    have "buf_bit (copied src n fresh) i = (buf_bit data i \<and> (i div 8 = n div 8 \<longrightarrow> i mod 8 < n mod 8))"
      using False m bit_high_mask [of "n mod 8" "i mod 8"] by (auto simp: copied_def data_def Let_def)
    moreover have "i < n \<longleftrightarrow> i div 8 < n div 8 \<or> i div 8 = n div 8 \<and> i mod 8 < n mod 8"
      using less_div_mod [of 8 i n] by simp
    ultimately show ?thesis using data_bit lt m by auto
  qed
qed


lemma buf_bit_markLocal:
  assumes "length l = 8" shows "buf_bit (markLocal l) i \<longleftrightarrow> buf_bit l i \<or> i = 63"
proof -
  have "i div 8 = 7 \<and> i mod 8 = 7 \<longleftrightarrow> i = 63" by presburger
  moreover have "bit (1 :: byte) (7 - i mod 8) \<longleftrightarrow> i mod 8 = 7"
    using mod_less_divisor [of 8 i] by (auto simp: bit_1_iff)
  ultimately show ?thesis
    using buf_bit_or [of 7 l 1 i] assms by (auto simp: markLocal_def ordpath_consts)
qed

lemma rawData_length:
  assumes "holds src bs" "n \<le> length bs" shows "(n + 7) div 8 \<le> length (rawData src)"
proof -
  have "(length bs + 7) div 8 \<le> length (rawData src)"
    using assms(1)
  proof (cases src)
    case (Local l)
    then have "length bs + 7 \<le> 70" "length l = 8" using assms(1) by (auto simp: marked_def)
    then have "(length bs + 7) div 8 \<le> 70 div 8" by (intro div_le_mono)
    with Local \<open>length l = 8\<close> show ?thesis by simp
  qed simp
  moreover have "(n + 7) div 8 \<le> (length bs + 7) div 8" using assms(2) by (intro div_le_mono) simp
  ultimately show ?thesis by simp
qed

lemma copied_bit:
  assumes "holds src (pre @ rest)" "(length pre + 7) div 8 \<le> length fresh"
  shows "buf_bit (copied (rawData src) (length pre) fresh) i =
    (if i < length pre then pre ! i else 8 * ((length pre + 7) div 8) \<le> i \<and> buf_bit fresh i)"
  using buf_bit_copied [OF rawData_length [OF assms(1)] assms(2)] rawData_bits(1) [OF assms(1), of i]
  by (auto simp: nth_append)

lemma copyAndPush_local:
  assumes "holds src (pre @ rest)" "list_all comp_int32 comps" "length (pre @ dewey_bits comps) \<le> 63"
  shows "\<exists>q. copyAndPush src (length pre) (length (dewey_bits comps)) comps = Inr q
    \<and> holds q (pre @ dewey_bits comps)"
proof -
  define data where "data = markLocal (copied (rawData src) (length pre) reset)"
  have "length pre + 7 \<le> 70" using assms(3) by simp
  then have "(length pre + 7) div 8 \<le> 70 div 8" by (rule div_le_mono)
  then have m: "(length pre + 7) div 8 \<le> length reset" by (simp add: reset_eq)
  have len: "length (copied (rawData src) (length pre) reset) = 8"
    using buf_bit_copied(2) [OF rawData_length [OF assms(1)] m] by (simp add: reset_eq)
  have res: "buf_bit reset i \<longleftrightarrow> i = 63" for i
    using marked_reset by (cases "i < 64") (auto simp: marked_def)
  have "marked data pre"
    using assms(3) len unfolding marked_def data_def
    by (auto simp: buf_bit_markLocal copied_bit [OF assms(1) m] res) (simp add: markLocal_def)
  moreover obtain d where d: "pushComps data (length (pre @ dewey_bits comps)) comps (length pre)
      = Inr (True, d, length pre + length (dewey_bits comps))" "bits_written data d (length pre) (dewey_bits comps)"
    using pushComps_written [OF assms(2), of "length pre" "length (pre @ dewey_bits comps)" data] assms(3) len
    by (auto simp: data_def markLocal_def)
  ultimately have "marked d (pre @ dewey_bits comps)" using assms(3) marked_written by auto
  with d(1) assms(3) rawData_length [OF assms(1), of "length pre"] show ?thesis
    by (simp add: copyAndPush_def copied_def data_def Let_def ordpath_consts)
qed

lemma copyAndPush_remote:
  assumes "holds src (pre @ rest)" "list_all comp_int32 comps" "63 < length (pre @ dewey_bits comps)"
    "length pre \<le> 2040"
  shows "if length (pre @ dewey_bits comps) \<le> 2040
    then \<exists>q. copyAndPush src (length pre) (length (dewey_bits comps)) comps = Inr q
      \<and> holds q (pre @ dewey_bits comps)
    else copyAndPush src (length pre) (length (dewey_bits comps)) comps = Inl NODEID_ERROR"
proof -
  let ?n = "length (pre @ dewey_bits comps)"
  define data where "data = copied (rawData src) (length pre) (initRemote ((?n + 7) div 8))"
  have m: "(length pre + 7) div 8 \<le> length (initRemote ((?n + 7) div 8))"
    by (simp add: initRemote_def div_le_mono)
  have len: "length data = (?n + 7) div 8" "?n \<le> 8 * length data"
    using buf_bit_copied(2) [OF rawData_length [OF assms(1)] m] by (simp_all add: data_def initRemote_def)
  have zero: "\<not> buf_bit (initRemote k) i" for k i by (simp add: initRemote_def buf_bit_def)
  have "buf_bit data i = (i < length pre \<and> pre ! i)" for i
    unfolding data_def copied_bit [OF assms(1) m] using zero by simp
  with len have pad: "padded data pre" by (intro paddedI) auto
  have cp: "copyAndPush src (length pre) (length (dewey_bits comps)) comps =
      bindE (pushComps data ?n comps (length pre)) (\<lambda>(success, data, _).
         if \<not> success then Inl Assertion else Inr (Remote data))"
    using assms(3) rawData_length [OF assms(1), of "length pre"]
    by (simp add: copyAndPush_def copied_def data_def Let_def ordpath_consts cong: if_cong)
  show ?thesis
  proof (cases "?n \<le> 2040")
    case True
    then obtain d where d: "pushComps data ?n comps (length pre) = Inr (True, d, length pre + length (dewey_bits comps))"
      "bits_written data d (length pre) (dewey_bits comps)"
      using pushComps_written [OF assms(2), of "length pre" ?n data] len by auto
    have "padded d (pre @ dewey_bits comps)" using padded_written [OF pad d(2)] len(2) by simp
    with True d cp assms(3) len bits_written_length [OF d(2)] show ?thesis by simp
  next
    case False
    with pushComps_error [OF assms(2), of "length pre" ?n data] assms(4) len cp show ?thesis by simp
  qed
qed

lemma copyAndPush_compress:
  assumes "holds src (dewey_bits as @ rest)" "length (dewey_bits as) \<le> MAX_BIT_LEN"
    and "list_all comp_int32 as" "list_all comp_int32 comps"
  shows "copyAndPush src (length (dewey_bits as)) (length (dewey_bits comps)) comps = compress (as @ comps)"
proof -
  have all: "list_all comp_int32 (as @ comps)" using assms(3,4) by simp
  have "if length (dewey_bits (as @ comps)) \<le> MAX_BIT_LEN
    then \<exists>q. copyAndPush src (length (dewey_bits as)) (length (dewey_bits comps)) comps = Inr q
      \<and> holds q (dewey_bits (as @ comps))
    else copyAndPush src (length (dewey_bits as)) (length (dewey_bits comps)) comps = Inl NODEID_ERROR"
    using copyAndPush_local [OF assms(1,4)] copyAndPush_remote [OF assms(1,4)] assms(2)
    by (cases "length (dewey_bits (as @ comps)) \<le> 63") (auto simp: ordpath_consts)
  then show ?thesis
    using compress_eqI [OF all] compress_too_long [OF all] by (auto split: if_splits)
qed


section \<open>Levels\<close>

text \<open>The components of one level: carets and one odd component. The bounds keep the level decodable
  and the differences of its components within \<open>int32_t\<close>.\<close>

definition level :: "int list \<Rightarrow> bool" where
  "level es \<longleftrightarrow> es \<noteq> [] \<and> odd (last es) \<and> list_all even (butlast es)"

definition level_bounds :: "int list \<Rightarrow> bool" where
  "level_bounds es \<longleftrightarrow> list_all (\<lambda>v. - 594196 \<le> v \<and> v \<le> INT32_MAX - 594196) es"

lemma level_Cons: "level (v # es) \<longleftrightarrow> (if es = [] then odd v else even v \<and> level es)"
  by (auto simp: level_def)

lemma level_snoc: "level (cs @ [v]) \<longleftrightarrow> list_all even cs \<and> odd v"
  by (auto simp: level_def butlast_append)

lemma level_window: "level es \<Longrightarrow> - 594196 \<le> hd es \<Longrightarrow> window_ok True pos es"
proof (cases es)
  case (Cons v vs)
  assume lv: "level es" and "- 594196 \<le> hd es"
  with Cons show ?thesis
    by (cases vs) (auto simp: window_ok_def misread_def level_Cons split: if_splits)
qed (simp add: level_def)

lemma level_decodable: "level es \<Longrightarrow> level_bounds es \<Longrightarrow> decodable True pos es"
proof (induction es arbitrary: pos)
  case (Cons v es)
  then have "window_ok True pos (v # es)" by (intro level_window) (auto simp: level_bounds_def)
  with Cons show ?case by (cases "es = []") (auto simp: level_Cons level_bounds_def)
qed simp

text \<open>Two different levels differ in a component both have.\<close>

lemma level_differ:
  assumes "level es1" "level es2" "es1 \<noteq> es2"
  shows "\<exists>c x xs y ys. es1 = c @ x # xs \<and> es2 = c @ y # ys \<and> x \<noteq> y"
  using assms
proof (induction es1 arbitrary: es2)
  case (Cons v es1)
  then obtain w es2' where es2: "es2 = w # es2'" by (cases es2) (auto simp: level_def)
  show ?case
  proof (cases "v = w")
    case True
    with Cons.prems es2 have "es1 \<noteq> es2'" "level es1" "level es2'"
      by (auto simp: level_Cons split: if_splits)
    with Cons.IH [of es2'] obtain c x xs y ys where "es1 = c @ x # xs" "es2' = c @ y # ys" "x \<noteq> y" by blast
    with True es2 show ?thesis by (intro exI [of _ "v # c"]) auto
  next
    case False
    with es2 show ?thesis by (intro exI [of _ "[]"]) auto
  qed
qed (simp add: level_def)

lemma parent_level: "dewey_ok ps \<Longrightarrow> level es \<Longrightarrow> parent_id (ps @ es) = ps"
proof -
  assume "dewey_ok ps" "level es"
  then have "odd (last ps)" "ps @ es \<noteq> []" "list_all even (butlast es)" "es \<noteq> []"
    by (auto simp: dewey_ok_def level_def)
  then show ?thesis by (simp add: parent_id_def butlast_append strip_append strip_id)
qed

section \<open>Decoding the last level of a sibling\<close>

lemma sibling_decoded:
  assumes "dewey_ok (ps @ es)" "level es" "level_bounds es" "compress (ps @ es) = Inr sib" "length es \<le> cap"
  shows "\<exists>st. decompress sib (length (dewey_bits ps)) cap deweyid compOffsets 0 = Inr st
    \<and> d_numComps st = length es \<and> map (d_deweyid st) [0..<length es] = es
    \<and> map (d_compOffsets st) [0..<length es] = map (\<lambda>i. length (dewey_bits (ps @ take i es))) [0..<length es]"
proof -
  from decompress_compressed [OF assms(1) level_decodable [OF assms(2,3)] assms(4,5)]
  obtain st where st: "decompress sib (length (dewey_bits ps)) cap deweyid compOffsets 0 = Inr st"
    "decoded True (decoderInit (length (dewey_bits ps)) deweyid compOffsets 0) st es" by blast
  have "map (d_compOffsets st) [0..<length es] = map (\<lambda>i. length (dewey_bits (ps @ take i es))) [0..<length es]"
    using decoded_init(5) [OF st(2)] by simp
  with decoded_init(1,2) [OF st(2)] st(1) show ?thesis by auto
qed

lemma insertBeforeOrAfter_compress:
  assumes ps: "dewey_ok ps" "compress ps = Inr parent"
    and sib: "dewey_ok (ps @ cs @ [v])" "level (cs @ [v])" "level_bounds (cs @ [v])"
      "compress (ps @ cs @ [v]) = Inr sibling"
  shows "insertBeforeOrAfter before parent sibling = compress (ps @ cs @ [if before then v - 2 else v + 2])"
proof -
  let ?es = "cs @ [v]" and ?w = "if before then v - 2 else v + 2"
  have int32: "list_all comp_int32 (ps @ cs @ [v])" "list_all comp_int32 (ps @ cs)" "list_all comp_int32 ps"
    using dewey_ok_int32 [OF sib(1)] by auto
  note h = compressed_holds [OF int32(3) ps(2)] and hs = compressed_holds [OF int32(1) sib(4)]
  have par: "getBitLength parent = Inr (length (dewey_bits ps))"
    using h(1) dewey_bits_last [OF ps(1)] getBitLength_spec by blast
  have "2 * length (ps @ ?es) \<le> MAX_BIT_LEN" using length_dewey_bits_ge [of "ps @ ?es"] hs(2) by simp
  then have "length ?es \<le> MAX_NUM_COMPS" by (simp add: ordpath_consts)
  from sibling_decoded [OF sib this]
  obtain st where st: "decompress sibling (length (dewey_bits ps)) MAX_NUM_COMPS (\<lambda>_. 0) (\<lambda>_. 0) 0 = Inr st"
    "d_numComps st = length ?es" "map (d_deweyid st) [0..<length ?es] = ?es"
    "map (d_compOffsets st) [0..<length ?es] = map (\<lambda>i. length (dewey_bits (ps @ take i ?es))) [0..<length ?es]"
    by blast
  have v: "d_deweyid st (length cs) = v" "d_compOffsets st (length cs) = length (dewey_bits (ps @ cs))"
    using arg_cong [OF st(3), of "\<lambda>xs. xs ! length cs"] arg_cong [OF st(4), of "\<lambda>xs. xs ! length cs"]
    by (simp_all del: upt_Suc)
  have bound: "- INT32_MAX + 2 \<le> v" "v \<le> INT32_MAX - 2" "comp_int32 ?w"
    using sib(3) by (auto simp: level_bounds_def comp_int32_def INT32_MAX_def)
  have "copyAndPush sibling (length (dewey_bits (ps @ cs))) (length (dewey_bits [?w])) [?w] = compress ((ps @ cs) @ [?w])"
    using hs int32(2) bound(3)
    by (intro copyAndPush_compress [of sibling "ps @ cs" "comp_bits v"]) auto
  then show ?thesis
    using par st(1,2) v bound by (auto simp: insertBeforeOrAfter_def fst_bitsNeeded Let_def)
qed


lemma smod_two_zero: "v smod 2 = 0 \<longleftrightarrow> even v" for v :: int
proof -
  have "v smod 2 = sgn v * (\<bar>v\<bar> mod 2)" by (simp add: signed_modulo_int_def signed_divide_int_def sgn_if)
  then show ?thesis by (auto simp: sgn_if even_iff_mod_2_eq_zero)
qed

text \<open>What the choice promises: a proper prefix of one of the siblings and components that complete it
  to a level strictly between them.\<close>

definition chosen :: "int list \<Rightarrow> int list \<Rightarrow> bool \<Rightarrow> int list \<Rightarrow> int list \<Rightarrow> bool" where
  "chosen es1 es2 copy1 pre comps \<longleftrightarrow>
    (\<exists>rest. (if copy1 then es1 else es2) = pre @ rest) \<and> list_all comp_ok comps
    \<and> level (pre @ comps) \<and> es1 < pre @ comps \<and> pre @ comps < es2"

lemma level_append: "level (c @ x # xs) \<longleftrightarrow> list_all even c \<and> level (x # xs)"
  by (induction c) (auto simp: level_Cons)

lemma differingComp_spec: "x \<noteq> y \<Longrightarrow> differingComp (c @ x # xs) (c @ y # ys) = Inr (length c)"
  by (induction c) auto

definition offs :: "int list \<Rightarrow> int list \<Rightarrow> nat list" where
  "offs ps es = map (\<lambda>i. length (dewey_bits (ps @ take i es))) [0..<length es]"

lemma offs_nth [simp]: "i < length es \<Longrightarrow> offs ps es ! i = length (dewey_bits (ps @ take i es))"
  by (simp add: offs_def)

lemma diff_cases:
  fixes x y :: int
  assumes "x < y"
  shows "(y - x > 2 \<or> even x \<and> y - x = 2) \<or> (odd x \<and> odd y \<and> y - x = 2)
    \<or> (odd x \<and> even y \<and> y - x = 1) \<or> (even x \<and> odd y \<and> y - x = 1)"
  using assms by presburger

lemma mid_odd:
  fixes x y :: int
  assumes "y - x > 2 \<or> even x \<and> y - x = 2" "n = x + (y - x) div 2" "m = (if even n then n + 1 else n)"
  shows "odd m \<and> x < m \<and> m < y"
proof -
  define h where "h = (y - x) div 2"
  have h: "2 * h \<le> y - x" "y - x \<le> 2 * h + 1" unfolding h_def by presburger+
  show ?thesis using assms(1)
  proof
    assume "y - x > 2"
    then have "1 \<le> h" "h + 1 < y - x" using h by linarith+
    then show ?thesis using assms(2,3) unfolding h_def [symmetric] by auto
  next
    assume e: "even x \<and> y - x = 2"
    then have "n = x + 1" using assms(2) by simp
    with e assms(3) show ?thesis by auto
  qed
qed

lemma chosenI:
  assumes "chosen es1 es2 copy1 pre comps" "r = Inr (copy1, length (dewey_bits (ps @ pre)), n, comps)"
    and "list_all comp_int32 comps \<Longrightarrow> n = length (dewey_bits comps)"
  shows "\<exists>copy1 pre comps. r = Inr (copy1, length (dewey_bits (ps @ pre)), length (dewey_bits comps), comps)
    \<and> chosen es1 es2 copy1 pre comps"
  using assms comps_ok_int32 by (auto simp: chosen_def)

lemma chooseComps_between:
  assumes "level (c @ x # xs)" "level (c @ y # ys)" "level_bounds (c @ x # xs)" "level_bounds (c @ y # ys)" "x < y"
  shows "\<exists>copy1 pre comps. chooseComps (c @ x # xs) (offs ps (c @ x # xs)) (c @ y # ys) (offs ps (c @ y # ys)) (length c)
      = Inr (copy1, length (dewey_bits (ps @ pre)), length (dewey_bits comps), comps)
    \<and> chosen (c @ x # xs) (c @ y # ys) copy1 pre comps"
proof -
  have b: "- 594196 \<le> x" "y \<le> INT32_MAX - 594196" using assms(3,4) by (auto simp: level_bounds_def)
  have c: "list_all even c" using assms(1) by (simp add: level_append)
  have ndiff: "\<not> y - x > INT32_MAX" using b by simp
  have one: "length (comp_bits 1) = 2" by (simp add: comp_bits_def comp_class_cases class_bits_def)
  consider (mid) "y - x > 2 \<or> even x \<and> y - x = 2" | (caret) "odd x" "odd y" "y - x = 2"
    | (below) "odd x" "even y" "y - x = 1" | (above) "even x" "odd y" "y - x = 1"
    using diff_cases [OF assms(5)] by metis
  then show ?thesis
  proof cases
    case mid
    define n where "n = x + (y - x) div 2"
    define m where "m = (if even n then n + 1 else n)"
    have m: "odd m" "x < m" "m < y" using mid_odd [OF mid n_def m_def] by auto
    then have "chosen (c @ x # xs) (c @ y # ys) True c [m]"
      using c b by (auto simp: chosen_def level_snoc comp_ok_def append_less_iff INT32_MAX_def)
    moreover have "chooseComps (c @ x # xs) (offs ps (c @ x # xs)) (c @ y # ys) (offs ps (c @ y # ys)) (length c)
      = Inr (True, length (dewey_bits (ps @ c)), fst (bitsNeeded m), [m])"
      using mid assms(5) ndiff by (simp add: chooseComps_def Let_def smod_two_zero n_def m_def)
    ultimately show ?thesis by (rule chosenI) (simp add: fst_bitsNeeded one)
  next
    case caret
    then have "chosen (c @ x # xs) (c @ y # ys) True c [x + 1, 1]"
      using c b by (auto simp: chosen_def level_append level_Cons comp_ok_def append_less_iff INT32_MAX_def)
    moreover have "chooseComps (c @ x # xs) (offs ps (c @ x # xs)) (c @ y # ys) (offs ps (c @ y # ys)) (length c)
      = Inr (True, length (dewey_bits (ps @ c)), fst (bitsNeeded (x + 1)) + 2, [x + 1, 1])"
      using caret ndiff by (simp add: chooseComps_def Let_def smod_two_zero)
    ultimately show ?thesis by (rule chosenI) (simp add: fst_bitsNeeded one)
  next
    case below
    then obtain z zs where ys: "ys = z # zs" using assms(2) by (cases ys) (auto simp: level_append level_Cons)
    define w where "w = (if even z then z - 1 else z - 2)"
    have z: "odd w" "w < z" "- 594196 \<le> z" "z \<le> INT32_MAX - 594196" "- 594198 \<le> w"
      using assms(4) by (auto simp: w_def ys level_bounds_def)
    then have "chosen (c @ x # xs) (c @ y # ys) False (c @ [y]) [w]"
      using c b below assms(5) by (auto simp: chosen_def level_append level_Cons comp_ok_def append_less_iff INT32_MAX_def ys)
    moreover have "chooseComps (c @ x # xs) (offs ps (c @ x # xs)) (c @ y # ys) (offs ps (c @ y # ys)) (length c)
      = Inr (False, length (dewey_bits (ps @ c @ [y])), fst (bitsNeeded w), [w])"
      using below assms(5) ndiff z
      by (simp add: chooseComps_def Let_def smod_two_zero w_def ys rd_def nth_append INT32_MAX_def)
    ultimately show ?thesis by (rule chosenI) (simp add: fst_bitsNeeded one)
  next
    case above
    then obtain z zs where xs: "xs = z # zs" using assms(1) by (cases xs) (auto simp: level_append level_Cons)
    define w where "w = (if even z then z + 1 else z + 2)"
    have z: "odd w" "z < w" "- 594196 \<le> z" "z \<le> INT32_MAX - 594196" "w \<le> INT32_MAX - 594194"
      using assms(3) by (auto simp: w_def xs level_bounds_def)
    then have "chosen (c @ x # xs) (c @ y # ys) True (c @ [x]) [w]"
      using c b above assms(5) by (auto simp: chosen_def level_append level_Cons comp_ok_def append_less_iff INT32_MAX_def xs)
    moreover have "chooseComps (c @ x # xs) (offs ps (c @ x # xs)) (c @ y # ys) (offs ps (c @ y # ys)) (length c)
      = Inr (True, length (dewey_bits (ps @ c @ [x])), fst (bitsNeeded w), [w])"
      using above assms(5) ndiff z
      by (simp add: chooseComps_def Let_def smod_two_zero w_def xs rd_def nth_append INT32_MAX_def)
    ultimately show ?thesis by (rule chosenI) (simp add: fst_bitsNeeded one)
  qed
qed

lemma insertInto_compress:
  assumes ps: "dewey_ok ps" "compress ps = Inr parent"
    and sib1: "dewey_ok (ps @ es1)" "level es1" "level_bounds es1" "compress (ps @ es1) = Inr s1"
    and sib2: "dewey_ok (ps @ es2)" "level es2" "level_bounds es2" "compress (ps @ es2) = Inr s2"
    and "es1 < es2" "length es2 \<le> MAX_BYTE_LEN"
  shows "\<exists>es. dewey_ok (ps @ es) \<and> level es \<and> es1 < es \<and> es < es2
    \<and> insertInto parent s1 s2 = compress (ps @ es)"
proof -
  obtain c x xs y ys where d: "es1 = c @ x # xs" "es2 = c @ y # ys" "x \<noteq> y"
    using level_differ [OF sib1(2) sib2(2)] \<open>es1 < es2\<close> by blast
  then have "x < y" using \<open>es1 < es2\<close> by (simp add: append_less_iff)
  have int32: "list_all comp_int32 (ps @ es1)" "list_all comp_int32 (ps @ es2)" "list_all comp_int32 ps"
    using dewey_ok_int32 [OF sib1(1)] dewey_ok_int32 [OF sib2(1)] by auto
  note hs1 = compressed_holds [OF int32(1) sib1(4)] and hs2 = compressed_holds [OF int32(2) sib2(4)]
  have par: "getBitLength parent = Inr (length (dewey_bits ps))"
    using compressed_holds(1) [OF int32(3) ps(2)] dewey_bits_last [OF ps(1)] getBitLength_spec by blast
  have "2 * length (ps @ es1) \<le> MAX_BIT_LEN" using length_dewey_bits_ge [of "ps @ es1"] hs1(2) by simp
  then have "length es1 \<le> MAX_NUM_COMPS" by (simp add: ordpath_consts)
  from sibling_decoded [OF sib1 this] obtain st1 where st1:
    "decompress s1 (length (dewey_bits ps)) MAX_NUM_COMPS (\<lambda>_. 0) (\<lambda>_. 0) 0 = Inr st1"
    "d_numComps st1 = length es1" "map (d_deweyid st1) [0..<length es1] = es1"
    "map (d_compOffsets st1) [0..<length es1] = offs ps es1" unfolding offs_def by blast
  from sibling_decoded [OF sib2 assms(12)] obtain st2 where st2:
    "decompress s2 (length (dewey_bits ps)) MAX_BYTE_LEN (\<lambda>_. 0) (\<lambda>_. 0) 0 = Inr st2"
    "d_numComps st2 = length es2" "map (d_deweyid st2) [0..<length es2] = es2"
    "map (d_compOffsets st2) [0..<length es2] = offs ps es2" unfolding offs_def by blast
  obtain copy1 pre comps where ch: "chooseComps es1 (offs ps es1) es2 (offs ps es2) (length c)
      = Inr (copy1, length (dewey_bits (ps @ pre)), length (dewey_bits comps), comps)"
    "chosen es1 es2 copy1 pre comps"
    using chooseComps_between sib1(2,3) sib2(2,3) d \<open>x < y\<close> by metis
  then obtain rest where pre: "(if copy1 then es1 else es2) = pre @ rest" "list_all comp_ok comps" "level (pre @ comps)"
    by (auto simp: chosen_def)
  let ?src = "if copy1 then s1 else s2"
  have "holds ?src (dewey_bits (ps @ pre @ rest))" "length (dewey_bits (ps @ pre)) \<le> MAX_BIT_LEN"
    "list_all comp_int32 (ps @ pre)"
    using pre(1) hs1 hs2 int32(1,2) by (cases copy1; auto)+
  then have "copyAndPush ?src (length (dewey_bits (ps @ pre))) (length (dewey_bits comps)) comps = compress ((ps @ pre) @ comps)"
    using comps_ok_int32 [OF pre(2)] by (intro copyAndPush_compress [of ?src "ps @ pre" "dewey_bits rest"]) auto
  then have "insertInto parent s1 s2 = compress (ps @ pre @ comps)"
    using par st1 st2 ch(1) differingComp_spec [OF d(3), of c xs ys]
    by (simp add: insertInto_def d(1,2) [symmetric])
  moreover have "dewey_ok (ps @ pre @ comps)"
    using pre sib1(1) sib2(1) by (cases copy1) (auto simp: dewey_ok_def level_def)
  ultimately show ?thesis using ch(2) unfolding chosen_def by blast
qed

text \<open>Different levels are not prefixes of each other, so the mark of an embedded id is never compared
  with a bit of a sibling.\<close>

lemma siblings_not_marked:
  assumes "level es1" "level es2" "es1 \<noteq> es2" shows "\<not> mark_read (ps @ es1) (ps @ es2)"
proof -
  obtain c x xs y ys where "es1 = c @ x # xs" "es2 = c @ y # ys" "x \<noteq> y" using level_differ [OF assms] by blast
  then have "take (length es1) es2 \<noteq> es1" by auto
  then show ?thesis by (auto simp: mark_read_def)
qed

lemma siblings_less:
  assumes "dewey_ok (ps @ es1)" "dewey_ok (ps @ es2)" "level es1" "level es2"
    and "compress (ps @ es1) = Inr p" "compress (ps @ es2) = Inr q"
  shows "less_op p q \<longleftrightarrow> es1 < es2"
proof (cases "es1 = es2")
  case True
  then show ?thesis using assms(5,6) by (simp add: less_op_bytes)
next
  case False
  have "less_op p q \<longleftrightarrow> ps @ es1 < ps @ es2"
    using False assms siblings_not_marked compressed_holds(1) dewey_ok_int32 by (intro less_op_iff) metis+
  then show ?thesis by (simp add: append_less_iff)
qed

lemma level_sibling_order: "cs @ [v] < cs @ [v + 2 :: int]" "cs @ [v - 2 :: int] < cs @ [v]"
  by (simp_all add: append_less_iff)

lemma dewey_ok_sibling:
  assumes "dewey_ok (ps @ cs @ [v])" "level (cs @ [v])" "level_bounds (cs @ [v])" "w = v - 2 \<or> w = v + 2"
  shows "dewey_ok (ps @ cs @ [w])" "level (cs @ [w])"
  using assms by (auto simp: dewey_ok_def level_snoc level_bounds_def comp_ok_def INT32_MAX_def)

lemma compress_error:
  assumes "list_all comp_int32 ds" "compress ds = Inl e" shows "e = NODEID_ERROR"
  using assms compress_holds [OF assms(1)] compress_too_long [OF assms(1)]
  by (cases "length (dewey_bits ds) \<le> MAX_BIT_LEN") auto

section \<open>Properties\<close>

text \<open>
  C23: The new ids of \<open>insertAfter\<close> and \<open>insertBefore\<close> are the ids of the sibling with
  its last component moved by two, for every parent and every level below it whose components are in
  the range the decoder reads correctly: same parent, and after (before) the sibling in the order
  that \<open>operator<\<close> computes. The only error is an id of more than 255 bytes.
\<close>

theorem insert_beside:
  assumes "dewey_ok ps" "compress ps = Inr parent"
    and "dewey_ok (ps @ cs @ [v])" "level (cs @ [v])" "level_bounds (cs @ [v])"
    and "compress (ps @ cs @ [v]) = Inr sibling"
  shows "insertAfter parent sibling = compress (ps @ cs @ [v + 2])
    \<and> insertBefore parent sibling = compress (ps @ cs @ [v - 2])
    \<and> (case insertAfter parent sibling of Inl e \<Rightarrow> e = NODEID_ERROR | Inr q \<Rightarrow> less_op sibling q)
    \<and> (case insertBefore parent sibling of Inl e \<Rightarrow> e = NODEID_ERROR | Inr q \<Rightarrow> less_op q sibling)
    \<and> parent_id (ps @ cs @ [v + 2]) = ps \<and> parent_id (ps @ cs @ [v - 2]) = ps"
proof -
  note eq = insertBeforeOrAfter_compress [OF assms]
  note up = dewey_ok_sibling [OF assms(3-5), of "v + 2", simplified]
    and down = dewey_ok_sibling [OF assms(3-5), of "v - 2", simplified]
  have "less_op sibling q" if "compress (ps @ cs @ [v + 2]) = Inr q" for q
    using siblings_less [OF assms(3) up(1) assms(4) up(2) assms(6) that] level_sibling_order by simp
  moreover have "less_op q sibling" if "compress (ps @ cs @ [v - 2]) = Inr q" for q
    using siblings_less [OF down(1) assms(3) down(2) assms(4) that assms(6)] level_sibling_order by simp
  ultimately show ?thesis
    using eq [of True] eq [of False] parent_level [OF assms(1) up(2)] parent_level [OF assms(1) down(2)]
      compress_error [OF dewey_ok_int32 [OF up(1)]] compress_error [OF dewey_ok_int32 [OF down(1)]]
    by (auto simp: insertAfter_def insertBefore_def split: sum.split)
qed

theorem insert_beside_witness:
  "insertAfter (Local [0x40, 0, 0, 0, 0, 0, 0, 1]) (Local [0x65, 0, 0, 0, 0, 0, 0, 1]) = compress [1, 2, 5]"
proof -
  have "compress [1] = Inr (Local [0x40, 0, 0, 0, 0, 0, 0, 1])"
    "compress [1, 2, 3] = Inr (Local [0x65, 0, 0, 0, 0, 0, 0, 1])" by (simp_all add: encode_eval)
  moreover have "dewey_ok [1]" "dewey_ok [1, 2, 3]" "level ([2] @ [3])" "level_bounds ([2] @ [3])"
    by (simp_all add: dewey_ok_def comp_ok_def INT32_MAX_def level_Cons level_bounds_def)
  ultimately show ?thesis
    using insert_beside [of "[1]" "Local [0x40, 0, 0, 0, 0, 0, 0, 1]" "[2]" 3 "Local [0x65, 0, 0, 0, 0, 0, 0, 1]"]
    by (simp add: level_Cons)
qed

text \<open>
  C5: \<open>insertInto\<close> makes an id of the same parent strictly between two siblings, whatever
  carets their levels have, so that no other id of the document changes: the result, when it fits
  255 bytes, lies between them by \<open>operator<\<close>. The second sibling may have at most 255 components
  below the parent, the size of the array it is decoded into.
\<close>

theorem insert_between:
  assumes "dewey_ok ps" "compress ps = Inr parent"
    and "dewey_ok (ps @ es1)" "level es1" "level_bounds es1" "compress (ps @ es1) = Inr s1"
    and "dewey_ok (ps @ es2)" "level es2" "level_bounds es2" "compress (ps @ es2) = Inr s2"
    and "es1 < es2" "length es2 \<le> MAX_BYTE_LEN"
  shows "\<exists>es. insertInto parent s1 s2 = compress (ps @ es) \<and> es1 < es \<and> es < es2
    \<and> level es \<and> parent_id (ps @ es) = ps
    \<and> (case insertInto parent s1 s2 of Inl e \<Rightarrow> e = NODEID_ERROR | Inr q \<Rightarrow> less_op s1 q \<and> less_op q s2)"
proof -
  obtain es where es: "dewey_ok (ps @ es)" "level es" "es1 < es" "es < es2"
    "insertInto parent s1 s2 = compress (ps @ es)"
    using insertInto_compress [OF assms] by blast
  then have "case insertInto parent s1 s2 of Inl e \<Rightarrow> e = NODEID_ERROR | Inr q \<Rightarrow> less_op s1 q \<and> less_op q s2"
    using siblings_less [OF assms(3) es(1) assms(4) es(2) assms(6)]
      siblings_less [OF es(1) assms(7) es(2) assms(8) _ assms(10)] compress_error [OF dewey_ok_int32 [OF es(1)]]
    by (auto split: sum.split)
  with es parent_level [OF assms(1) es(2)] show ?thesis by blast
qed

theorem insert_between_witness:
  "\<exists>es. insertInto (Local [0x40, 0, 0, 0, 0, 0, 0, 1]) (Local [0x50, 0, 0, 0, 0, 0, 0, 1])
      (Local [0x65, 0, 0, 0, 0, 0, 0, 1]) = compress ([1] @ es) \<and> [1] < es \<and> es < [2, 3] \<and> level es"
proof -
  have "compress [1] = Inr (Local [0x40, 0, 0, 0, 0, 0, 0, 1])" "compress [1, 1] = Inr (Local [0x50, 0, 0, 0, 0, 0, 0, 1])"
    "compress [1, 2, 3] = Inr (Local [0x65, 0, 0, 0, 0, 0, 0, 1])" by (simp_all add: encode_eval)
  moreover have "dewey_ok [1]" "dewey_ok [1, 1]" "dewey_ok [1, 2, 3]" "level [1]" "level [2, 3]" "level_bounds [1]"
    "level_bounds [2, 3]" "length [2, 3 :: int] \<le> MAX_BYTE_LEN" "[1] < [2, 3 :: int]"
    by (simp_all add: dewey_ok_def comp_ok_def INT32_MAX_def level_Cons level_bounds_def ordpath_consts)
  ultimately show ?thesis
    using insert_between [of "[1]" "Local [0x40, 0, 0, 0, 0, 0, 0, 1]" "[1]" "Local [0x50, 0, 0, 0, 0, 0, 0, 1]"
      "[2, 3]" "Local [0x65, 0, 0, 0, 0, 0, 0, 1]"] by auto
qed

end
