(* ===== verification/OrdPath_Stack.thy ===== *)
theory OrdPath_Stack
  imports OrdPath_Insert
begin

text \<open>
  The id generator of the document loaders: class \<open>OrdPathStack\<close> of \<open>store/naive/ordpath.h\<close> and
  \<open>ordpath.cpp\<close>, and the assignment of its current value to an \<open>OrdPath\<close>. The stack keeps the
  components of the current node and, beside them, their compressed form, which it updates in place.
  The lemmas show that the two stay in step, so that the id every node of a loaded document gets is
  the compressed form of its component list, and that these lists grow in document order.
\<close>

section \<open>Definitions\<close>

text \<open>
  The members of the class. \<open>theByteIndex\<close> is an \<open>ulong\<close>; popping all bits makes it wrap, which the
  model writes as \<open>-1\<close> (no negative value gets past \<open>maskByte\<close>).
\<close>

record ordpath_stack =
  theNumComps :: nat
  theDeweyId :: "int list"
  theCompLens :: "byte list"
  theStackBuffer :: "byte list"
  theByteIndex :: int
  theBitsAvailable :: nat

text \<open>The constructor leaves \<open>theDeweyId\<close> and \<open>theCompLens\<close> uninitialised.\<close>

definition OrdPathStack :: "int list \<Rightarrow> byte list \<Rightarrow> ordpath_stack" where
  "OrdPathStack deweyId compLens =
    \<lparr>theNumComps = 0, theDeweyId = deweyId, theCompLens = compLens,
     theStackBuffer = replicate MAX_BYTE_LEN 0, theByteIndex = 0, theBitsAvailable = 0\<rparr>"

definition init_stack :: "ordpath_stack \<Rightarrow> ordpath_stack outcome" where
  "init_stack st =
    bindE (wr (theDeweyId st) 0 1) (\<lambda>deweyId.
    bindE (wr (theCompLens st) 0 2) (\<lambda>compLens.
    bindE (wr (theStackBuffer st) 0 0x40) (\<lambda>buf.
      Inr \<lparr>theNumComps = 1, theDeweyId = deweyId, theCompLens = compLens, theStackBuffer = buf,
           theByteIndex = 0, theBitsAvailable = 6\<rparr>)))"

definition stackByteLength :: "ordpath_stack \<Rightarrow> nat" where
  "stackByteLength st = nat (theByteIndex st + 1)"

text \<open>Access to the buffer at an index that may have wrapped.\<close>

definition orByte :: "int \<Rightarrow> byte \<Rightarrow> byte list \<Rightarrow> byte list outcome" where
  "orByte i b buf =
    (if i < 0 then Inl Undefined
     else bindE (rd buf (nat i)) (\<lambda>old. wr buf (nat i) (old OR b)))"

definition pushChild :: "ordpath_stack \<Rightarrow> ordpath_stack outcome" where
  "pushChild st =
    (if theByteIndex st = int MAX_BYTE_LEN \<or>
        theByteIndex st = int MAX_BYTE_LEN - 1 \<and> theBitsAvailable st < 2 then Inl NODEID_ERROR
     else
       bindE (wr (theDeweyId st) (theNumComps st) 1) (\<lambda>deweyId.
       bindE (wr (theCompLens st) (theNumComps st) 2) (\<lambda>compLens.
         let st = st\<lparr>theDeweyId := deweyId, theCompLens := compLens, theNumComps := Suc (theNumComps st)\<rparr> in
         if theBitsAvailable st \<ge> 2 then
           bindE (orByte (theByteIndex st) (drop_bit (8 - theBitsAvailable st) 0x40) (theStackBuffer st)) (\<lambda>buf.
             Inr (st\<lparr>theStackBuffer := buf, theBitsAvailable := theBitsAvailable st - 2\<rparr>))
         else if theBitsAvailable st = 1 then
           bindE (orByte (theByteIndex st + 1) 0x80 (theStackBuffer st)) (\<lambda>buf.
             Inr (st\<lparr>theStackBuffer := buf, theBitsAvailable := 7, theByteIndex := theByteIndex st + 1\<rparr>))
         else
           bindE (wr (theStackBuffer st) (nat (theByteIndex st + 1)) 0x40) (\<lambda>buf.
             Inr (st\<lparr>theStackBuffer := buf, theBitsAvailable := 6, theByteIndex := theByteIndex st + 1\<rparr>)))))"

text \<open>
  \<open>theBuffer[theByteIndex] &= 0xff << theBitsAvailable\<close>. When all bits were popped the index has
  wrapped and the access is outside of \<open>theBuffer\<close>, which is undefined.
\<close>

definition maskByte :: "ordpath_stack \<Rightarrow> ordpath_stack outcome" where
  "maskByte st =
    (let m = push_bit (theBitsAvailable st) 0xff in
     if theByteIndex st < 0 then Inl Undefined
     else
       bindE (rd (theStackBuffer st) (nat (theByteIndex st))) (\<lambda>b.
       bindE (wr (theStackBuffer st) (nat (theByteIndex st)) (b AND m)) (\<lambda>buf. Inr (st\<lparr>theStackBuffer := buf\<rparr>))))"

text \<open>\<open>memset(&theBuffer[i], 0, n)\<close>\<close>

definition clearBytes :: "int \<Rightarrow> nat \<Rightarrow> byte list \<Rightarrow> byte list outcome" where
  "clearBytes i n buf =
    (if i < 0 \<or> nat i + n > length buf then Inl Undefined
     else Inr (take (nat i) buf @ replicate n 0 @ drop (nat i + n) buf))"

text \<open>The lines of \<open>popChild\<close> and \<open>nextChild\<close> that drop the last \<open>numBits\<close> bits of the buffer.\<close>

definition popBits :: "nat \<Rightarrow> ordpath_stack \<Rightarrow> ordpath_stack outcome" where
  "popBits numBits st =
    (let numBytes = (numBits + theBitsAvailable st) div 8;
         st = st\<lparr>theByteIndex := theByteIndex st - int numBytes,
                 theBitsAvailable := (numBits + theBitsAvailable st) mod 8\<rparr>
     in bindE (maskByte st) (\<lambda>st.
          if numBytes > 0 then
            bindE (clearBytes (theByteIndex st + 1) numBytes (theStackBuffer st)) (\<lambda>buf.
              Inr (st\<lparr>theStackBuffer := buf\<rparr>))
          else Inr st))"

text \<open>The length and the left-aligned code of a component, and whether the first nine bits are left
  out of it.\<close>

definition stackCode :: "int \<Rightarrow> nat \<times> u32 \<times> bool" where
  "stackCode value =
    (if value < DEFAULT_FAN_OUT then
       (thePosV2LMap ! nat value, push_bit 16 (ucast (thePosV2EVMap ! nat value)), False)
     else if value < 280 then
       (13, drop_bit 5 (push_bit 24 (word_of_int (value - 24))) OR 0xF0000000, False)
     else if value < 4376 then
       (18, drop_bit 6 (push_bit 20 (word_of_int (value - 280))) OR 0xF8000000, False)
     else if value < 69912 then
       (23, drop_bit 7 (push_bit 16 (word_of_int (value - 4376))) OR 0xFC000000, False)
     else if value < 1118488 then
       (28, drop_bit 8 (push_bit 12 (word_of_int (value - 69912))) OR 0xFE000000, False)
     else (41, word_of_int (value - 1118488), True))"

text \<open>The loop that writes the bits of \<open>eval\<close>.\<close>

function compressLoop :: "u32 \<Rightarrow> nat \<Rightarrow> nat \<Rightarrow> nat \<Rightarrow> byte list \<Rightarrow> (nat \<times> nat \<times> byte list) outcome" where
  "compressLoop eval bits byteIndex bitsAvailable buf =
    (let bitsUsed = (if bits < bitsAvailable then bits else bitsAvailable);
         byte = ucast (drop_bit (32 - bitsAvailable) (eval AND theValueMasks ! bitsUsed))
     in bindE (if bitsUsed > 0 then orByte (int byteIndex) byte buf else Inr buf) (\<lambda>buf.
          let eval = push_bit bitsUsed eval;
              bits' = bits - bitsUsed;
              bitsAvailable = bitsAvailable - bitsUsed;
              next = (bitsAvailable = 0 \<and> bits' > 0);
              bitsAvailable = (if next then 8 else bitsAvailable);
              byteIndex = (if next then Suc byteIndex else byteIndex)
          in if bits' > 0 then compressLoop eval bits' byteIndex bitsAvailable buf
             else Inr (byteIndex, bitsAvailable, buf)))"
  by pat_completeness auto
termination
  by (relation "measure (\<lambda>(eval, bits, byteIndex, bitsAvailable, buf). 2 * bits + of_bool (bitsAvailable = 0))")
    (auto split: if_splits)

declare compressLoop.simps [simp del]

text \<open>The first nine bits of a component that needs 41.\<close>

definition pushOverflow :: "nat \<Rightarrow> nat \<Rightarrow> byte list \<Rightarrow> (nat \<times> nat \<times> byte list) outcome" where
  "pushOverflow byteIndex bitsAvailable buf =
    bindE (orByte (int byteIndex) (drop_bit (8 - bitsAvailable) 0xFF) buf) (\<lambda>buf.
    bindE (wr buf (Suc byteIndex) (push_bit bitsAvailable 0xFF)) (\<lambda>buf.
      let bitsAvailable = bitsAvailable - 1 in
      if bitsAvailable = 0 then Inr (Suc (Suc byteIndex), 8, buf)
      else Inr (Suc byteIndex, bitsAvailable, buf)))"

definition compressComp :: "nat \<Rightarrow> int \<Rightarrow> ordpath_stack \<Rightarrow> ordpath_stack outcome" where
  "compressComp compPos value st =
    (if value < 0 then Inl Assertion
     else case stackCode value of (bits, eval, overflow) \<Rightarrow>
       bindE (wr (theCompLens st) compPos (of_nat bits)) (\<lambda>compLens.
       let bytesNeeded = theByteIndex st + int ((bits + 15 - theBitsAvailable st) div 8) in
       if bytesNeeded > int MAX_BYTE_LEN then Inl NODEID_ERROR
       else
         let full = (theBitsAvailable st = 0);
             bitsAvailable = (if full then 8 else theBitsAvailable st);
             byteIndex = (if full then theByteIndex st + 1 else theByteIndex st)
         in if byteIndex < 0 then Inl Undefined
         else
           bindE (if overflow then pushOverflow (nat byteIndex) bitsAvailable (theStackBuffer st)
                  else Inr (nat byteIndex, bitsAvailable, theStackBuffer st)) (\<lambda>(byteIndex, bitsAvailable, buf).
           bindE (compressLoop eval (if overflow then bits - 9 else bits) byteIndex bitsAvailable buf)
             (\<lambda>(byteIndex, bitsAvailable, buf).
               Inr (st\<lparr>theCompLens := compLens, theStackBuffer := buf,
                       theByteIndex := int byteIndex, theBitsAvailable := bitsAvailable\<rparr>)))))"

definition popChild :: "ordpath_stack \<Rightarrow> ordpath_stack outcome" where
  "popChild st =
    (if theNumComps st = 0 then Inl Undefined
     else let n = theNumComps st - 1; st = st\<lparr>theNumComps := n\<rparr> in
       if n = 0 then Inr st
       else bindE (rd (theDeweyId st) (n - 1)) (\<lambda>v.
         if v > INT32_MAX - 2 then Inl NODEID_ERROR
         else bindE (wr (theDeweyId st) (n - 1) (v + 2)) (\<lambda>deweyId.
           let st = st\<lparr>theDeweyId := deweyId\<rparr> in
           bindE (rd (theCompLens st) n) (\<lambda>len1.
           bindE (rd (theCompLens st) (n - 1)) (\<lambda>len2.
           bindE (popBits (unat len1 + unat len2) st) (\<lambda>st.
             compressComp (n - 1) (v + 2) st))))))"

definition nextChild :: "ordpath_stack \<Rightarrow> ordpath_stack outcome" where
  "nextChild st =
    (if theNumComps st = 0 then Inl Assertion
     else let n = theNumComps st in
       bindE (rd (theDeweyId st) (n - 1)) (\<lambda>v.
         if v > INT32_MAX - 2 then Inl NODEID_ERROR
         else bindE (wr (theDeweyId st) (n - 1) (v + 2)) (\<lambda>deweyId.
           let st = st\<lparr>theDeweyId := deweyId\<rparr> in
           bindE (rd (theCompLens st) (n - 1)) (\<lambda>len.
           bindE (popBits (unat len) st) (\<lambda>st.
             compressComp (n - 1) (v + 2) st)))))"

text \<open>Assigning the current value of the stack to an id.\<close>

definition assignStack :: "ordpath_stack \<Rightarrow> ordpath" where
  "assignStack st =
    (let len = stackByteLength st in
     if len > MAX_EMBEDDED_BYTE_LEN \<or> len = MAX_EMBEDDED_BYTE_LEN \<and> theBitsAvailable st = 0
     then Remote (take len (theStackBuffer st))
     else Local (markLocal (take len (theStackBuffer st) @ drop len reset)))"

section \<open>Writing a component\<close>

lemma orByte_nat: "orByte (int i) b d = bindE (rd d i) (\<lambda>old. wr d i (old OR b))"
  by (simp add: orByte_def)

text \<open>The loop is that of \<open>appendEncodedComp\<close>; it also returns where it stopped.\<close>

definition or_bits :: "u32 \<Rightarrow> nat \<Rightarrow> nat \<Rightarrow> nat \<Rightarrow> byte list \<Rightarrow> byte list" where
  "or_bits e n bi av d = d[bi := d ! bi OR ucast (drop_bit (32 - av) (e AND theValueMasks ! (if n < av then n else av)))]"

lemma compressLoop_step:
  assumes "1 \<le> av" "0 < n"
  shows "compressLoop e n bi av d =
    (if bi < length d then
       if av < n then compressLoop (push_bit av e) (n - av) (Suc bi) 8 (or_bits e n bi av d)
       else Inr (bi, av - n, or_bits e n bi av d)
     else Inl Undefined)"
  unfolding compressLoop.simps [of e n bi av d]
  using assms by (cases "bi < length d"; cases "n < av"; cases "n = av") (simp_all add: orByte_nat or_bits_def rd_def)

lemma appendEncodedComp_step:
  assumes "1 \<le> av" "0 < n"
  shows "appendEncodedComp e n bi av d =
    (if bi < length d then
       if av < n then appendEncodedComp (push_bit av e) (n - av) (Suc bi) 8 (or_bits e n bi av d)
       else Inr (or_bits e n bi av d)
     else Inl Undefined)"
  unfolding appendEncodedComp.simps [of e n bi av d]
  using assms by (cases "bi < length d"; cases "n < av"; cases "n = av") (simp_all add: or_bits_def rd_def)

lemma compressLoop_append:
  assumes "1 \<le> av" "av \<le> 8" "0 < n" "T = 8 * bi + (8 - av) + n"
  shows "compressLoop e n bi av d
    = bindE (appendEncodedComp e n bi av d) (\<lambda>d'. Inr ((T - 1) div 8, 7 - (T - 1) mod 8, d'))"
  using assms
proof (induction n arbitrary: e bi av d rule: less_induct)
  case (less n)
  show ?case
  proof (cases "av < n")
    case True
    with less.prems show ?thesis
      using less.IH [of "n - av" 8 "Suc bi" "push_bit av e" "or_bits e n bi av d"]
      by (simp add: compressLoop_step appendEncodedComp_step [of av n])
  next
    case False
    have "(T - 1) div 8 = bi" "7 - (T - 1) mod 8 = av - n"
    proof -
      have eq: "T - 1 = bi * 8 + (7 - (av - n))" "7 - (av - n) < 8" using less.prems False by auto
      then show "(T - 1) div 8 = bi" "7 - (T - 1) mod 8 = av - n" using less.prems False
        by (simp_all only: div_mult_self3 mod_mult_self3 div_less mod_less) auto
    qed
    with False less.prems show ?thesis by (simp add: compressLoop_step appendEncodedComp_step)
  qed
qed

lemma stackCode_bitsNeeded:
  assumes "0 \<le> v"
  shows "v < 1118488 \<Longrightarrow> \<exists>n e. stackCode v = (n, e, False) \<and> bitsNeeded v = (n, e, 0)"
    and "\<not> v < 1118488 \<Longrightarrow> stackCode v = (41, word_of_int (v - 1118488), True)
      \<and> bitsNeeded v = (41, 0, push_bit 32 0xFF000000 OR word_of_int (v - 1118488))"
  using assms by (auto simp: stackCode_def bitsNeeded_def DEFAULT_FAN_OUT_def)

lemma overflow_bytes:
  assumes "1 \<le> av" "av \<le> 8"
  shows "ucast (drop_bit (32 - av) ((0xFF000000 :: u32) AND theValueMasks ! av)) = (drop_bit (8 - av) 0xFF :: byte)"
    and "ucast (drop_bit 24 (push_bit av (0xFF000000 :: u32) AND theValueMasks ! (9 - av))) = (push_bit av 0xFF :: byte)"
proof -
  have "av \<in> {1, 2, 3, 4, 5, 6, 7, 8}" using assms by auto
  then show "ucast (drop_bit (32 - av) ((0xFF000000 :: u32) AND theValueMasks ! av)) = (drop_bit (8 - av) 0xFF :: byte)"
    "ucast (drop_bit 24 (push_bit av (0xFF000000 :: u32) AND theValueMasks ! (9 - av))) = (push_bit av 0xFF :: byte)"
    by (auto simp: theValueMasks_def)
qed

lemma pushOverflow_append:
  assumes "1 \<le> av" "av \<le> 8" "Suc bi < length d" "d ! Suc bi = 0"
  shows "pushOverflow bi av d = bindE (appendEncodedComp 0xFF000000 9 bi av d)
    (\<lambda>d. Inr (if av - 1 = 0 then (bi + 2, 8, d) else (bi + 1, av - 1, d)))"
proof -
  note bytes = overflow_bytes [OF assms(1,2)]
  have "appendEncodedComp 0xFF000000 9 bi av d =
    Inr (d[bi := d ! bi OR drop_bit (8 - av) 0xFF, Suc bi := push_bit av 0xFF])"
  proof -
    have "appendEncodedComp 0xFF000000 9 bi av d
      = appendEncodedComp (push_bit av 0xFF000000) (9 - av) (Suc bi) 8 (or_bits 0xFF000000 9 bi av d)"
      using assms by (simp add: appendEncodedComp_step [of av 9])
    also have "\<dots> = Inr (or_bits (push_bit av 0xFF000000) (9 - av) (Suc bi) 8 (or_bits 0xFF000000 9 bi av d))"
      using assms by (subst appendEncodedComp_step) (auto simp: or_bits_def)
    also have "(if 9 - av < 8 then 9 - av else 8) = 9 - av" using assms(1) by (simp split: if_split) linarith
    then have "or_bits (push_bit av 0xFF000000) (9 - av) (Suc bi) 8 (or_bits 0xFF000000 9 bi av d)
      = d[bi := d ! bi OR drop_bit (8 - av) 0xFF, Suc bi := push_bit av 0xFF]"
      unfolding or_bits_def using assms bytes by simp
    finally show ?thesis .
  qed
  then show ?thesis using assms by (simp add: pushOverflow_def orByte_nat)
qed

text \<open>\<open>stack_at st bs\<close>: the buffer of \<open>st\<close> holds exactly the bits \<open>bs\<close>.\<close>

definition stack_at :: "ordpath_stack \<Rightarrow> bool list \<Rightarrow> bool" where
  "stack_at st bs \<longleftrightarrow> length (theStackBuffer st) = 255 \<and> padded (theStackBuffer st) bs
    \<and> theBitsAvailable st \<le> 7 \<and> int (length bs) = 8 * theByteIndex st + 8 - int (theBitsAvailable st)"

lemma stack_at_index:
  assumes "stack_at st bs" "length bs = 8 * q + r" "r < 8"
  shows "theByteIndex st = (if r = 0 then int q - 1 else int q)" "theBitsAvailable st = (if r = 0 then 0 else 8 - r)"
  using assms unfolding stack_at_def by (auto split: if_splits) presburger+

text \<open>The code of \<open>compressComp\<close> does to the buffer what \<open>writeComp\<close> does.\<close>

lemma last_bit_index:
  assumes "0 < T" shows "int T = 8 * int ((T - 1) div 8) + 8 - int (7 - (T - 1) mod 8)"
proof -
  obtain k where k: "T = Suc k" using assms by (cases T) auto
  have "k mod 8 \<le> 7" "int k = 8 * int (k div 8) + int (k mod 8)" by (auto simp: zdiv_int zmod_int)
  then show ?thesis unfolding k by simp
qed

lemma compress_writeComp:
  assumes "0 \<le> v" "v \<le> INT32_MAX" "stackCode v = (n, e, ov)" "1 \<le> av" "av \<le> 8"
    and "ov \<Longrightarrow> Suc bi < length d \<and> d ! Suc bi = 0" and T: "T = 8 * bi + (8 - av) + n"
  shows "bindE (if ov then pushOverflow bi av d else Inr (bi, av, d))
      (\<lambda>(bi, av, d). compressLoop e (if ov then n - 9 else n) bi av d)
    = bindE (writeComp v (bitsNeeded v) bi av d) (\<lambda>d'. Inr ((T - 1) div 8, 7 - (T - 1) mod 8, d'))"
proof (cases "v < 1118488")
  case True
  with stackCode_bitsNeeded(1) [OF assms(1)] assms(3) have b: "bitsNeeded v = (n, e, 0)" "\<not> ov" by auto
  have "0 < n" using fst_bitsNeeded [of v] length_comp_bits_ge [of v] b assms(1,2)
    by (simp add: comp_int32_def INT32_MAX_def)
  with b compressLoop_append [OF assms(4,5) _ T] show ?thesis by (simp add: writeComp_def)
next
  case False
  define w where "w = v - 1118488"
  have w: "0 \<le> w" "w < 2 ^ 32" using False assms(2) by (auto simp: w_def INT32_MAX_def)
  define e2 :: u64 where "e2 = push_bit 32 0xFF000000 OR word_of_int w"
  have b: "bitsNeeded v = (41, 0, e2)" "n = 41" "e = word_of_int w" "ov"
    using stackCode_bitsNeeded(2) [OF assms(1) False] assms(3) by (auto simp: w_def e2_def)
  have "e2 = push_bit 32 (ucast (0xFF000000 :: u32)) OR word_of_int w" by (simp add: e2_def)
  note wide = wide_code [where x = "0xFF000000", OF w, folded this]
  have wc: "writeComp v (bitsNeeded v) bi av d = bindE (appendEncodedComp 0xFF000000 9 bi av d) (\<lambda>d.
      if av - 1 = 0 then appendEncodedComp e 32 (bi + 2) 8 d else appendEncodedComp e 32 (bi + 1) (av - 1) d)"
    using assms(1) by (simp add: writeComp_def b wide Let_def cong: if_cong)
  have "pushOverflow bi av d = bindE (appendEncodedComp 0xFF000000 9 bi av d)
    (\<lambda>d. Inr (if av - 1 = 0 then (bi + 2, 8, d) else (bi + 1, av - 1, d)))"
    using pushOverflow_append [OF assms(4,5)] assms(6) b(4) by blast
  moreover have "compressLoop e 32 (bi + 2) 8 d' = bindE (appendEncodedComp e 32 (bi + 2) 8 d')
      (\<lambda>d'. Inr ((T - 1) div 8, 7 - (T - 1) mod 8, d'))" if "av - 1 = 0" for d'
    using that T b(2) assms(4,5) by (intro compressLoop_append) auto
  moreover have "compressLoop e 32 (bi + 1) (av - 1) d' = bindE (appendEncodedComp e 32 (bi + 1) (av - 1) d')
      (\<lambda>d'. Inr ((T - 1) div 8, 7 - (T - 1) mod 8, d'))" if "av - 1 \<noteq> 0" for d'
    using that T b(2) assms(4,5) by (intro compressLoop_append) auto
  ultimately show ?thesis using b(2,4) wc
    by (cases "appendEncodedComp 0xFF000000 9 bi av d") auto
qed

text \<open>The test for the end of the buffer, and the byte that an overflow code begins to fill.\<close>

lemma compress_guard:
  assumes at: "stack_at st bs" shows "theByteIndex st + int ((n + 15 - theBitsAvailable st) div 8) > 255 \<longleftrightarrow> \<not> length bs + n \<le> 2040"
proof -
  define m where "m = (n + 15 - theBitsAvailable st) div 8"
  have m: "8 * m \<le> n + 15 - theBitsAvailable st" "n + 15 - theBitsAvailable st \<le> 8 * m + 7" unfolding m_def by linarith+
  show ?thesis unfolding m_def [symmetric] using at m by (auto simp: stack_at_def)
qed

lemma overflow_room:
  assumes pad: "padded d bs" and len: "length d = 255" "length bs + n \<le> 2040" and code: "stackCode v = (n, e, ov)" "0 \<le> v" and ov: "ov"
  shows "Suc (length bs div 8) < length d \<and> d ! Suc (length bs div 8) = 0"
proof -
  let ?q = "length bs div 8"
  have "n = 41" using code ov stackCode_bitsNeeded [OF code(2)] by (cases "v < 1118488") auto
  with len have q: "Suc ?q < length d" by linarith
  have "length bs \<le> 8 * Suc ?q" using div_mult_mod_eq [of "length bs" 8] mod_less_divisor [of 8 "length bs"] by simp
  then have "\<not> buf_bit d (8 * Suc ?q + k)" for k using padded_bit [OF pad, of "8 * Suc ?q + k"] by simp
  with q show ?thesis using byte_zero_iff [OF q] by blast
qed

lemma compressComp_spec:
  assumes at: "stack_at st bs" and v: "0 \<le> v" "v \<le> INT32_MAX" and pos: "compPos < length (theCompLens st)"
  shows "if length bs + length (comp_bits v) \<le> 2040
    then \<exists>st'. compressComp compPos v st = Inr st' \<and> stack_at st' (bs @ comp_bits v)
      \<and> theNumComps st' = theNumComps st \<and> theDeweyId st' = theDeweyId st
      \<and> theCompLens st' = (theCompLens st)[compPos := of_nat (length (comp_bits v))]
    else compressComp compPos v st = Inl NODEID_ERROR"
proof -
  obtain n e ov where code: "stackCode v = (n, e, ov)" by (metis prod_cases3)
  have int32: "comp_int32 v" using v by (simp add: comp_int32_def INT32_MAX_def)
  have n: "n = length (comp_bits v)"
    using stackCode_bitsNeeded [OF v(1)] fst_bitsNeeded [OF int32] code by (cases "v < 1118488") auto
  define q r where "q = length bs div 8" and "r = length bs mod 8"
  have qr: "length bs = 8 * q + r" "r < 8" by (simp_all add: q_def r_def)
  note idx = stack_at_index [OF at qr]
  let ?bi = "if theBitsAvailable st = 0 then theByteIndex st + 1 else theByteIndex st"
  let ?av = "if theBitsAvailable st = 0 then 8 else theBitsAvailable st"
  have bi: "?bi = int q" "?av = 8 - r" using idx qr(2) by auto
  have len: "length (theStackBuffer st) = 255" and pad: "padded (theStackBuffer st) bs" using at by (auto simp: stack_at_def)
  note need = compress_guard [OF at, of n]
  show ?thesis
  proof (cases "length bs + n \<le> 2040")
    case False
    with need show ?thesis using v pos by (simp add: compressComp_def code n [symmetric] MAX_BYTE_LEN_def)
  next
    case True
    let ?T = "8 * q + (8 - (8 - r)) + n"
    have zero: "ov \<Longrightarrow> Suc q < length (theStackBuffer st) \<and> theStackBuffer st ! Suc q = 0" using overflow_room [OF pad len True code v(1)] by (simp add: q_def)
    obtain d' where d': "writeComp v (bitsNeeded v) q (8 - r) (theStackBuffer st) = Inr d'"
      "bits_written (theStackBuffer st) d' (length bs) (comp_bits v)"
      using writeComp_spec [OF int32, of "8 - r" "length bs" q "theStackBuffer st"] qr True n len by (simp add: Suc_le_eq) blast
    have loop: "bindE (if ov then pushOverflow q (8 - r) (theStackBuffer st) else Inr (q, 8 - r, theStackBuffer st))
        (\<lambda>(bi, av, d). compressLoop e (if ov then n - 9 else n) bi av d)
      = Inr ((?T - 1) div 8, 7 - (?T - 1) mod 8, d')"
      using compress_writeComp [OF v code, of "8 - r" q "theStackBuffer st" ?T] zero qr(2) d'(1) by simp
    then obtain bi1 av1 d1 where step: "(if ov then pushOverflow q (8 - r) (theStackBuffer st)
        else Inr (q, 8 - r, theStackBuffer st)) = Inr (bi1, av1, d1)"
      "compressLoop e (if ov then n - 9 else n) bi1 av1 d1 = Inr ((?T - 1) div 8, 7 - (?T - 1) mod 8, d')"
      by (auto simp: bindE_eq_Inr)
    let ?st = "st\<lparr>theCompLens := (theCompLens st)[compPos := of_nat n], theStackBuffer := d',
      theByteIndex := int ((?T - 1) div 8), theBitsAvailable := 7 - (?T - 1) mod 8\<rparr>"
    have "compressComp compPos v st = Inr ?st"
      using v pos need True step unfolding compressComp_def code Let_def bi
      by (cases ov) (simp_all add: MAX_BYTE_LEN_def)
    moreover have "stack_at ?st (bs @ comp_bits v)"
    proof -
      have "padded d' (bs @ comp_bits v)" "length d' = 255"
        using padded_written [OF pad d'(2)] True n len bits_written_length [OF d'(2)] by auto
      moreover have "int (length (bs @ comp_bits v)) = 8 * int ((?T - 1) div 8) + 8 - int (7 - (?T - 1) mod 8)"
        using last_bit_index [of ?T] n length_comp_bits_ge [of v] qr by simp
      ultimately show ?thesis by (simp add: stack_at_def)
    qed
    ultimately show ?thesis using True n by auto
  qed
qed

section \<open>Dropping bits\<close>

lemma buf_bit_clear:
  assumes "clearBytes (int i) n d = Inr d'"
  shows "buf_bit d' j \<longleftrightarrow> buf_bit d j \<and> (j < 8 * i \<or> 8 * (i + n) \<le> j)" "length d' = length d"
proof -
  have d': "d' = take i d @ replicate n 0 @ drop (i + n) d" "i + n \<le> length d"
    using assms by (auto simp: clearBytes_def split: if_splits)
  then show "length d' = length d" by simp
  have lt: "j < 8 * m \<longleftrightarrow> j div 8 < m" for m by linarith
  then have le: "8 * m \<le> j \<longleftrightarrow> m \<le> j div 8" for m by (simp add: leD linorder_not_less [symmetric])
  show "buf_bit d' j \<longleftrightarrow> buf_bit d j \<and> (j < 8 * i \<or> 8 * (i + n) \<le> j)"
    unfolding buf_bit_def lt le \<open>length d' = length d\<close> using d' by (auto simp: nth_append)
qed

text \<open>The bits of a byte that are kept, and the bytes behind it that are cleared.\<close>

lemma below_mask: "av \<le> 7 \<Longrightarrow> j < 8 * i + (8 - av) \<longleftrightarrow> j < 8 * Suc i \<and> (j div 8 = i \<longrightarrow> j mod 8 < 8 - av)"
proof -
  assume av: "av \<le> 7"
  define q r where "q = j div 8" and "r = j mod 8"
  have "j = 8 * q + r" "r < 8" by (simp_all add: q_def r_def)
  then show ?thesis unfolding q_def [symmetric] r_def [symmetric] using av by (cases q i rule: linorder_cases) auto
qed

lemma masked_padded:
  assumes pad: "padded d (xs @ ys)" and lx: "length xs = 8 * i + (8 - av)" "av \<le> 7" and i: "i < length d" and all: "length (xs @ ys) \<le> 8 * (Suc i + nb)"
    and buf: "clearBytes (int (Suc i)) nb (d[i := d ! i AND push_bit av 0xff]) = Inr buf"
  shows "padded buf xs"
proof (rule paddedI)
  fix j
  have b1: "buf_bit (d[i := d ! i AND push_bit av 0xff]) j \<longleftrightarrow> buf_bit d j \<and> (j div 8 = i \<longrightarrow> j mod 8 < 8 - av)"
    using buf_bit_and [of i d "push_bit av 0xff" j] bit_high_mask [of "8 - av" "j mod 8"] lx(2) i by simp
  have "8 * (Suc i + nb) \<le> j \<Longrightarrow> \<not> buf_bit d j" using all padded_bit [OF pad] by simp
  then have "buf_bit buf j \<longleftrightarrow> buf_bit d j \<and> j < length xs" unfolding buf_bit_clear(1) [OF buf] b1 lx(1) below_mask [OF lx(2)] by blast
  then show "buf_bit buf j = (j < length xs \<and> xs ! j)" using padded_bit [OF pad] by (auto simp: nth_append)
next
  show "length xs \<le> 8 * length buf" using padded_length [OF pad] buf_bit_clear(2) [OF buf] by simp
qed

text \<open>Where the index of the last byte comes to lie; it becomes negative exactly if all bits are dropped.\<close>

lemma popBits_index:
  assumes at: "stack_at st (xs @ ys)" and m: "length ys = numBits"
  defines "av \<equiv> (numBits + theBitsAvailable st) mod 8" and "bi \<equiv> theByteIndex st - int ((numBits + theBitsAvailable st) div 8)"
  shows "int (length xs) = 8 * bi + 8 - int av" "theByteIndex st < 255" "bi < 0 \<longleftrightarrow> xs = []"
proof -
  have sum: "int numBits + int (theBitsAvailable st) = 8 * int ((numBits + theBitsAvailable st) div 8) + int av" "av \<le> 7"
    unfolding av_def by (metis mult_div_mod_eq of_nat_add of_nat_mult of_nat_numeral, simp)
  have len: "length (theStackBuffer st) = 255" and pad: "padded (theStackBuffer st) (xs @ ys)"
    and pos: "int (length xs) + int numBits = 8 * theByteIndex st + 8 - int (theBitsAvailable st)" "theBitsAvailable st \<le> 7"
    using at m by (auto simp: stack_at_def)
  show xs: "int (length xs) = 8 * bi + 8 - int av" using pos(1) sum(1) by (simp add: bi_def)
  show "theByteIndex st < 255" using padded_length [OF pad] pos len m by simp
  show "bi < 0 \<longleftrightarrow> xs = []" using xs sum(2) by (cases xs) auto
qed

lemma popBits_spec:
  assumes at: "stack_at st (xs @ ys)" and m: "length ys = numBits" and xs: "xs \<noteq> []"
  shows "\<exists>st'. popBits numBits st = Inr st' \<and> stack_at st' xs \<and> theNumComps st' = theNumComps st
    \<and> theDeweyId st' = theDeweyId st \<and> theCompLens st' = theCompLens st"
proof -
  define av nb where "av = (numBits + theBitsAvailable st) mod 8" and "nb = (numBits + theBitsAvailable st) div 8"
  define bi where "bi = theByteIndex st - int nb"
  have sum: "numBits + theBitsAvailable st = 8 * nb + av" "av \<le> 7" by (simp_all add: av_def nb_def)
  have len: "length (theStackBuffer st) = 255" and pad: "padded (theStackBuffer st) (xs @ ys)"
    and pos: "int (length xs) + int numBits = 8 * theByteIndex st + 8 - int (theBitsAvailable st)"
    using at m by (auto simp: stack_at_def)
  note x = popBits_index [OF at m, folded av_def nb_def, folded bi_def]
  obtain i where i: "bi = int i" "i < 255" using x(2,3) xs bi_def nonneg_int_cases [of bi] by auto
  define buf1 where "buf1 = (theStackBuffer st)[i := theStackBuffer st ! i AND push_bit av 0xff]"
  have "Suc i + nb \<le> length buf1" using x(2) len i bi_def by (simp add: buf1_def)
  then obtain buf where buf: "clearBytes (int (Suc i)) nb buf1 = Inr buf" by (simp add: clearBytes_def del: of_nat_Suc)
  have len2: "length buf = 255" using buf_bit_clear(2) [OF buf] len by (simp add: buf1_def)
  have "length xs = 8 * i + (8 - av)" "length (xs @ ys) \<le> 8 * (Suc i + nb)" using x(1) i sum(2) pos m bi_def by (linarith, simp)
  with masked_padded [OF pad _ sum(2) _ _ buf [unfolded buf1_def]] i len have "padded buf xs" by simp
  moreover have "popBits numBits st = Inr (st\<lparr>theByteIndex := bi, theBitsAvailable := av, theStackBuffer := buf\<rparr>)"
  proof -
    let ?st = "st\<lparr>theByteIndex := bi, theBitsAvailable := av\<rparr>"
    have "maskByte ?st = Inr (?st\<lparr>theStackBuffer := buf1\<rparr>)" using i len by (simp add: maskByte_def buf1_def)
    moreover have "nb = 0 \<Longrightarrow> buf1 = buf" using buf by (auto simp: clearBytes_def split: if_splits)
    ultimately show ?thesis unfolding popBits_def Let_def av_def [symmetric] nb_def [symmetric] bi_def [symmetric] using i buf by (simp add: add.commute)
  qed
  ultimately show ?thesis using len2 sum(2) x(1) by (simp add: stack_at_def)
qed

text \<open>Dropping all bits is undefined.\<close>

lemma popBits_all: "stack_at st ys \<Longrightarrow> length ys = numBits \<Longrightarrow> popBits numBits st = Inl Undefined"
  using popBits_index [of st "[]" ys numBits] by (simp add: popBits_def maskByte_def Let_def)

section \<open>The invariant and the operations\<close>

definition child_comp :: "int \<Rightarrow> bool" where
  "child_comp v \<longleftrightarrow> odd v \<and> 1 \<le> v \<and> v \<le> INT32_MAX"

definition stack_inv :: "ordpath_stack \<Rightarrow> int list \<Rightarrow> bool" where
  "stack_inv st ds \<longleftrightarrow> ds \<noteq> [] \<and> list_all child_comp ds \<and> theNumComps st = length ds
    \<and> length (theDeweyId st) = MAX_NUM_COMPS \<and> length (theCompLens st) = MAX_NUM_COMPS
    \<and> take (length ds) (theDeweyId st) = ds
    \<and> take (length ds) (theCompLens st) = map (\<lambda>v. of_nat (length (comp_bits v))) ds
    \<and> stack_at st (dewey_bits ds)"

lemma stack_invD:
  assumes "stack_inv st ds"
  shows "ds \<noteq> []" "list_all child_comp ds" "theNumComps st = length ds"
    "length (theDeweyId st) = MAX_NUM_COMPS" "length (theCompLens st) = MAX_NUM_COMPS"
    "take (length ds) (theDeweyId st) = ds"
    "take (length ds) (theCompLens st) = map (\<lambda>v. of_nat (length (comp_bits v))) ds"
    "stack_at st (dewey_bits ds)"
  using assms by (simp_all add: stack_inv_def)

lemma stack_inv_bits: "stack_inv st ds \<Longrightarrow> length (dewey_bits ds) \<le> 2040"
  using padded_length by (fastforce simp: stack_inv_def stack_at_def)

lemma child_comp_int32: "list_all child_comp ds \<Longrightarrow> list_all comp_int32 ds"
  by (induction ds) (simp_all add: child_comp_def comp_int32_def INT32_MAX_def)

lemma child_dewey_ok: "ds \<noteq> [] \<Longrightarrow> list_all child_comp ds \<Longrightarrow> dewey_ok ds"
proof -
  assume ds: "ds \<noteq> []" "list_all child_comp ds"
  have "list_all comp_ok ds" using ds(2) by (induction ds) (simp_all add: child_comp_def comp_ok_def)
  moreover have "child_comp (last ds)" using ds by (simp add: list_all_iff)
  ultimately show ?thesis using ds(1) by (simp add: dewey_ok_def child_comp_def)
qed

lemma one_bits: "comp_bits 1 = [False, True]"
  by (simp add: comp_bits_def comp_class_cases class_bits_def nat_bits_numeral)

lemma unat_comp_len: "unat (of_nat (length (comp_bits v)) :: byte) = length (comp_bits v)"
proof -
  have "length (comp_bits v) < 2 ^ LENGTH(8)" by (auto simp: length_comp_bits comp_class_cases)
  then show ?thesis by (simp add: unat_of_nat take_bit_nat_eq_self)
qed

text \<open>Setting the second of two fresh bits is writing the component 1.\<close>

lemma written_one:
  assumes "j < length d" "\<And>k. k < 8 \<Longrightarrow> bit b (7 - k) \<longleftrightarrow> k = pos" "8 * j + pos = s + 1" "pos < 8"
  shows "bits_written d (d[j := d ! j OR b]) s (comp_bits 1)"
proof -
  have "i div 8 = j \<and> i mod 8 = pos \<longleftrightarrow> i = s + 1" for i
  proof
    assume "i div 8 = j \<and> i mod 8 = pos"
    then show "i = s + 1" using assms(3) mult_div_mod_eq [of 8 i] by simp
  next
    assume "i = s + 1"
    then have "i = 8 * j + pos" using assms(3) by simp
    with assms(4) show "i div 8 = j \<and> i mod 8 = pos" by simp
  qed
  then have "buf_bit (d[j := d ! j OR b]) i \<longleftrightarrow> buf_bit d i \<or> i = s + 1" for i
    using buf_bit_or [OF assms(1), of b i] assms(2) [of "i mod 8"] by simp
  moreover have "s \<le> i \<and> i < s + length (comp_bits 1) \<and> comp_bits 1 ! (i - s) \<longleftrightarrow> i = s + 1" for i
    unfolding one_bits by (cases "i = s"; cases "i = s + 1") auto
  ultimately show ?thesis unfolding bits_written_def by simp
qed

lemma bit_40_80: "bit (0x40 :: byte) j \<longleftrightarrow> j = 6" "bit (0x80 :: byte) j \<longleftrightarrow> j = 7"
proof -
  have "(0x40 :: byte) = push_bit 6 1" "(0x80 :: byte) = push_bit 7 1" by simp_all
  then have "bit (0x40 :: byte) j \<longleftrightarrow> bit (push_bit 6 1 :: byte) j" "bit (0x80 :: byte) j \<longleftrightarrow> bit (push_bit 7 1 :: byte) j"
    by metis+
  then show "bit (0x40 :: byte) j \<longleftrightarrow> j = 6" "bit (0x80 :: byte) j \<longleftrightarrow> j = 7"
    by (simp_all only: bit_push_bit_iff bit_1_iff possible_bit_def) auto
qed

lemma bit_one_byte:
  assumes "k < 8"
  shows "2 \<le> a \<Longrightarrow> a \<le> 7 \<Longrightarrow> bit (drop_bit (8 - a) 0x40 :: byte) (7 - k) \<longleftrightarrow> k = 9 - a"
    and "bit (0x80 :: byte) (7 - k) \<longleftrightarrow> k = 0" "bit (0x40 :: byte) (7 - k) \<longleftrightarrow> k = 1"
proof -
  assume "2 \<le> a" "a \<le> 7"
  then have "8 - a + (7 - k) = 6 \<longleftrightarrow> k = 9 - a" using assms by linarith
  then show "bit (drop_bit (8 - a) 0x40 :: byte) (7 - k) \<longleftrightarrow> k = 9 - a" by (simp only: bit_drop_bit_eq o_apply bit_40_80)
qed (use assms in \<open>auto simp only: bit_40_80\<close>)

lemma stack_at_written:
  assumes "stack_at st bs" "bits_written (theStackBuffer st) d' (length bs) cs" "length bs + length cs \<le> 2040"
    and "av \<le> 7" "int (length bs + length cs) = 8 * bi + 8 - int av" 
    and "theStackBuffer st' = d'" "theByteIndex st' = bi" "theBitsAvailable st' = av"
  shows "stack_at st' (bs @ cs)"
  using assms padded_written [of "theStackBuffer st" bs d' cs] bits_written_length [OF assms(2)]
  by (auto simp: stack_at_def)

lemma stack_inv_at:
  assumes "stack_inv st ds" "length (dewey_bits ds) = 8 * q + r" "r < 8"
  shows "theByteIndex st = (if r = 0 then int q - 1 else int q)" "theBitsAvailable st = (if r = 0 then 0 else 8 - r)"
  using stack_at_index [OF stack_invD(8) [OF assms(1)] assms(2,3)] .

text \<open>What every operation leaves behind: the components up to some point and a new last one.\<close>

lemma stack_inv_replace:
  assumes "stack_inv st (cs @ zs)" "child_comp w" "length cs < MAX_NUM_COMPS"
    and "theNumComps st' = Suc (length cs)" "theDeweyId st' = (theDeweyId st)[length cs := w]"
    and "theCompLens st' = (theCompLens st)[length cs := of_nat (length (comp_bits w))]"
    and "stack_at st' (dewey_bits cs @ comp_bits w)"
  shows "stack_inv st' (cs @ [w])"
proof -
  note I = stack_invD [OF assms(1)]
  have "take (length cs) (theDeweyId st) = cs"
    "take (length cs) (theCompLens st) = map (\<lambda>v. of_nat (length (comp_bits v))) cs"
    using arg_cong [OF I(6), of "take (length cs)"] arg_cong [OF I(7), of "take (length cs)"] by (simp_all add: min_def)
  then show ?thesis using I assms by (simp add: stack_inv_def take_Suc_conv_app_nth)
qed

text \<open>Where the two bits of the first child go: into the last byte, across its end, or into a new byte.\<close>

lemma pushChild_write:
  assumes inv: "stack_inv st ds" and k: "theByteIndex st = int k" "k < 255" and n: "n = length (dewey_bits ds)" "n + 2 \<le> 2040" and nc: "length ds < MAX_NUM_COMPS"
  shows "\<exists>st'. pushChild st = Inr st' \<and> theNumComps st' = Suc (length ds)
    \<and> theDeweyId st' = (theDeweyId st)[length ds := 1] \<and> theCompLens st' = (theCompLens st)[length ds := 2]
    \<and> bits_written (theStackBuffer st) (theStackBuffer st') n (comp_bits 1) \<and> theBitsAvailable st' \<le> 7
    \<and> int (n + 2) = 8 * theByteIndex st' + 8 - int (theBitsAvailable st')"
proof -
  note I = stack_invD [OF inv]
  let ?av = "theBitsAvailable st" and ?d = "theStackBuffer st"
  have at: "length ?d = 255" "padded ?d (dewey_bits ds)" "?av \<le> 7" "n + ?av = 8 * k + 8" using I(8) k n(1) by (auto simp: stack_at_def)
  have suc: "nat (int k + 1) = Suc k" by simp
  have "\<not> buf_bit ?d (8 * Suc k + j)" for j using padded_bit [OF at(2), of "8 * Suc k + j"] at(4) n(1) by simp
  then have zero: "Suc k < 255 \<Longrightarrow> ?d ! Suc k = 0" using byte_zero_iff [of "Suc k" ?d] at(1) by simp
  consider "?av \<ge> 2" | "?av = 1" | "?av = 0" by linarith
  then show ?thesis
  proof cases
    case 1
    have "bits_written ?d (?d[k := ?d ! k OR drop_bit (8 - ?av) 0x40]) n (comp_bits 1)"
      using 1 at k bit_one_byte(1) by (intro written_one [where pos = "9 - ?av"]) auto
    with 1 n k at I(3-5) nc show ?thesis by (auto simp: pushChild_def orByte_nat MAX_BYTE_LEN_def)
  next
    case 2
    have "bits_written ?d (?d[Suc k := ?d ! Suc k OR 0x80]) n (comp_bits 1)"
      using 2 at n bit_one_byte(2) by (intro written_one [where pos = 0]) auto
    with 2 n k at I(3-5) nc show ?thesis by (auto simp: pushChild_def orByte_def suc MAX_BYTE_LEN_def)
  next
    case 3
    have "bits_written ?d (?d[Suc k := ?d ! Suc k OR 0x40]) n (comp_bits 1)"
      using 3 at n bit_one_byte(3) by (intro written_one [where pos = 1]) auto
    with 3 n k at I(3-5) nc zero show ?thesis by (auto simp: pushChild_def orByte_def suc MAX_BYTE_LEN_def)
  qed
qed

lemma pushChild_spec:
  assumes inv: "stack_inv st ds"
  shows "if length (dewey_bits ds) + 2 \<le> 2040
    then \<exists>st'. pushChild st = Inr st' \<and> stack_inv st' (ds @ [1]) else pushChild st = Inl NODEID_ERROR"
proof -
  note I = stack_invD [OF inv]
  let ?n = "length (dewey_bits ds)" and ?av = "theBitsAvailable st"
  have "2 \<le> ?n" using length_dewey_bits_ge [of ds] I(1) by (cases ds) auto
  then have "0 \<le> theByteIndex st" "theByteIndex st < 255" using I(8) stack_inv_bits [OF inv] by (auto simp: stack_at_def)
  then have "theByteIndex st = int (nat (theByteIndex st))" "nat (theByteIndex st) < 255" by simp_all
  then obtain k where k: "theByteIndex st = int k" "k < 255" by blast
  have at: "?av \<le> 7" "?n + ?av = 8 * k + 8" using I(8) k by (auto simp: stack_at_def)
  have guard: "(theByteIndex st = int MAX_BYTE_LEN \<or> theByteIndex st = int MAX_BYTE_LEN - 1 \<and> ?av < 2) \<longleftrightarrow> \<not> ?n + 2 \<le> 2040"
    using at k by (auto simp: MAX_BYTE_LEN_def)
  show ?thesis
  proof (cases "?n + 2 \<le> 2040")
    case False
    with guard show ?thesis by (simp add: pushChild_def)
  next
    case True
    have nc: "length ds < MAX_NUM_COMPS" using length_dewey_bits_ge [of ds] True by (simp add: ordpath_consts)
    from pushChild_write [OF inv k refl True nc] obtain st' where st': "pushChild st = Inr st'" "theNumComps st' = Suc (length ds)"
      "theDeweyId st' = (theDeweyId st)[length ds := 1]" "theCompLens st' = (theCompLens st)[length ds := 2]" "stack_at st' (dewey_bits ds @ comp_bits 1)"
      using stack_at_written [OF I(8)] True by (fastforce simp: one_bits)
    have "stack_inv st' (ds @ [1])"
      using st' inv nc by (intro stack_inv_replace [of st ds "[]"]) (simp_all add: child_comp_def INT32_MAX_def one_bits)
    with True st'(1) show ?thesis by simp
  qed
qed

lemma dewey_bits_nonempty: "ds \<noteq> [] \<Longrightarrow> dewey_bits ds \<noteq> []"
  using length_dewey_bits_ge [of ds] by (cases ds) auto

lemma nextChild_spec:
  assumes inv: "stack_inv st (cs @ [v])" and cs: "cs \<noteq> []"
  shows "if v \<le> INT32_MAX - 2 \<and> length (dewey_bits (cs @ [v + 2])) \<le> 2040
    then \<exists>st'. nextChild st = Inr st' \<and> stack_inv st' (cs @ [v + 2]) else nextChild st = Inl NODEID_ERROR"
proof -
  note I = stack_invD [OF inv]
  have v: "child_comp v" using I(2) by simp
  have nc: "length cs < MAX_NUM_COMPS" using length_dewey_bits_ge [of "cs @ [v]"] stack_inv_bits [OF inv] by (simp add: ordpath_consts)
  have nth: "theDeweyId st ! length cs = v" "theCompLens st ! length cs = of_nat (length (comp_bits v))"
    using arg_cong [OF I(6), of "\<lambda>xs. xs ! length cs"] arg_cong [OF I(7), of "\<lambda>xs. xs ! length cs"]
    by (simp_all add: nth_append)
  show ?thesis
  proof (cases "v \<le> INT32_MAX - 2")
    case False
    then show ?thesis using I(3,4) nth nc by (simp add: nextChild_def)
  next
    case True
    let ?st = "st\<lparr>theDeweyId := (theDeweyId st)[length cs := v + 2]\<rparr>"
    have "stack_at ?st (dewey_bits cs @ comp_bits v)" using I(8) by (simp add: stack_at_def)
    from popBits_spec [OF this refl dewey_bits_nonempty [OF cs]] obtain st1 where st1:
      "popBits (length (comp_bits v)) ?st = Inr st1" "stack_at st1 (dewey_bits cs)" "theNumComps st1 = theNumComps st"
      "theDeweyId st1 = (theDeweyId st)[length cs := v + 2]" "theCompLens st1 = theCompLens st" by auto
    have "nextChild st = compressComp (length cs) (v + 2) st1"
      using I(3-5) nth nc True st1(1) by (simp add: nextChild_def unat_comp_len)
    moreover have w: "child_comp (v + 2)" using v True by (simp add: child_comp_def)
    ultimately show ?thesis using compressComp_spec [OF st1(2), of "v + 2" "length cs"] True nc I(3,5) st1(3-5)
        stack_inv_replace [OF inv w nc]
      by (auto simp: child_comp_def split: if_splits)
  qed
qed

lemma popChild_spec:
  assumes inv: "stack_inv st (cs @ [v, u])" and cs: "cs \<noteq> []"
  shows "if v \<le> INT32_MAX - 2 \<and> length (dewey_bits (cs @ [v + 2])) \<le> 2040
    then \<exists>st'. popChild st = Inr st' \<and> stack_inv st' (cs @ [v + 2]) else popChild st = Inl NODEID_ERROR"
proof -
  note I = stack_invD [OF inv]
  have v: "child_comp v" using I(2) by simp
  have nc: "Suc (length cs) < MAX_NUM_COMPS"
    using length_dewey_bits_ge [of "cs @ [v, u]"] stack_inv_bits [OF inv] by (simp add: ordpath_consts)
  have nth: "theDeweyId st ! length cs = v" "theCompLens st ! length cs = of_nat (length (comp_bits v))"
    "theCompLens st ! Suc (length cs) = of_nat (length (comp_bits u))"
    using arg_cong [OF I(6), of "\<lambda>xs. xs ! length cs"] arg_cong [OF I(7), of "\<lambda>xs. xs ! length cs"]
      arg_cong [OF I(7), of "\<lambda>xs. xs ! Suc (length cs)"] by (simp_all add: nth_append)
  show ?thesis
  proof (cases "v \<le> INT32_MAX - 2")
    case False
    then show ?thesis using I(3,4) nth nc by (simp add: popChild_def)
  next
    case True
    let ?st = "st\<lparr>theNumComps := Suc (length cs), theDeweyId := (theDeweyId st)[length cs := v + 2]\<rparr>"
    have "stack_at ?st (dewey_bits cs @ comp_bits v @ comp_bits u)" using I(8) by (simp add: stack_at_def)
    from popBits_spec [OF this refl dewey_bits_nonempty [OF cs]] obtain st1 where st1:
      "popBits (length (comp_bits u) + length (comp_bits v)) ?st = Inr st1" "stack_at st1 (dewey_bits cs)"
      "theNumComps st1 = Suc (length cs)"
      "theDeweyId st1 = (theDeweyId st)[length cs := v + 2]" "theCompLens st1 = theCompLens st"
      by (auto simp: add.commute)
    have "popChild st = compressComp (length cs) (v + 2) st1"
      using I(3-5) nth nc True st1(1) by (simp add: popChild_def unat_comp_len)
    moreover have w: "child_comp (v + 2)" using v True by (simp add: child_comp_def)
    ultimately show ?thesis using compressComp_spec [OF st1(2), of "v + 2" "length cs"] True nc I(3,5) st1(3-5)
        stack_inv_replace [OF inv w]
      by (auto simp: child_comp_def split: if_splits)
  qed
qed

section \<open>The id of the current node\<close>

lemma assignStack_holds:
  assumes at: "stack_at st bs" and bs: "0 < length bs"
  shows "holds (assignStack st) bs"
proof -
  define len where "len = stackByteLength st"
  have buf: "length (theStackBuffer st) = 255" "padded (theStackBuffer st) bs"
    and pos: "theBitsAvailable st \<le> 7" "int (length bs) = 8 * theByteIndex st + 8 - int (theBitsAvailable st)"
    using at by (auto simp: stack_at_def)
  have len: "8 * len = length bs + theBitsAvailable st" "len \<le> 255"
    using pos padded_length [OF buf(2)] buf(1) bs by (auto simp: len_def stackByteLength_def)
  have len': "len = (length bs + 7) div 8" using len(1) pos(1) by (intro div_nat_eqI [symmetric]) auto
  have far: "len > 8 \<or> len = 8 \<and> theBitsAvailable st = 0 \<longleftrightarrow> 64 \<le> length bs" using len(1) pos(1) by linarith
  show ?thesis
  proof (cases "64 \<le> length bs")
    case True
    with far have "assignStack st = Remote (take len (theStackBuffer st))"
      by (simp add: assignStack_def len_def ordpath_consts)
    with True len len' buf padded_take [OF buf(2), of len] padded_length [OF buf(2)] show ?thesis by simp
  next
    case False
    define l where "l = take len (theStackBuffer st) @ drop len reset"
    have "len \<le> 8" using False far by linarith
    then have l: "length l = 8" using buf(1) by (simp add: l_def reset_eq)
    have "buf_bit (markLocal l) i = (i < length bs \<and> bs ! i \<or> i = 63)" if "i < 64" for i
    proof -
      have "i < 8 * len \<longleftrightarrow> i div 8 < len" by linarith
      then have "buf_bit l i = (if i < 8 * len then buf_bit (theStackBuffer st) i else buf_bit reset i)"
        using \<open>len \<le> 8\<close> l buf(1) that by (auto simp: buf_bit_def l_def nth_append reset_eq)
      moreover have "buf_bit reset i \<longleftrightarrow> i = 63" using marked_reset that by (auto simp: marked_def)
      ultimately show ?thesis using buf_bit_markLocal [OF l, of i] padded_bit [OF buf(2), of i] len(1) by auto
    qed
    then have "marked (markLocal l) bs" using False l by (simp add: marked_def markLocal_def)
    with False far show ?thesis by (simp add: assignStack_def len_def [symmetric] l_def ordpath_consts)
  qed
qed

lemma assignStack_compress:
  assumes "stack_inv st ds" shows "compress ds = Inr (assignStack st)"
proof -
  note I = stack_invD [OF assms]
  have "0 < length (dewey_bits ds)" using length_dewey_bits_ge [of ds] I(1) by (cases ds) auto
  then have "holds (assignStack st) (dewey_bits ds)" using assignStack_holds I(8) by blast
  moreover obtain p where "compress ds = Inr p" "holds p (dewey_bits ds)"
    using compress_holds [OF child_comp_int32 [OF I(2)]] stack_inv_bits [OF assms] by (auto simp: ordpath_consts)
  ultimately show ?thesis using holds_unique by metis
qed

section \<open>The stack as a machine on component lists\<close>

datatype stack_op = Push | Next | Pop

fun stackOp :: "stack_op \<Rightarrow> ordpath_stack \<Rightarrow> ordpath_stack outcome" where
  "stackOp Push = pushChild"
| "stackOp Next = nextChild"
| "stackOp Pop = popChild"

fun stackOps :: "stack_op list \<Rightarrow> ordpath_stack \<Rightarrow> ordpath_stack outcome" where
  "stackOps [] st = Inr st"
| "stackOps (op # ops) st = bindE (stackOp op st) (stackOps ops)"

definition fits :: "int list \<Rightarrow> bool" where
  "fits ds \<longleftrightarrow> list_all comp_int32 ds \<and> length (dewey_bits ds) \<le> MAX_BIT_LEN"

text \<open>
  The machine stays below the first component: the operations that would change it drop all bits of the buffer.
\<close>

inductive dewey_step :: "stack_op \<Rightarrow> int list \<Rightarrow> int list \<Rightarrow> bool" where
  Push: "fits (ds @ [1]) \<Longrightarrow> dewey_step Push ds (ds @ [1])"
| Next: "cs \<noteq> [] \<Longrightarrow> fits (cs @ [v + 2]) \<Longrightarrow> dewey_step Next (cs @ [v]) (cs @ [v + 2])"
| Pop: "cs \<noteq> [] \<Longrightarrow> fits (cs @ [v + 2]) \<Longrightarrow> dewey_step Pop (cs @ [v, u]) (cs @ [v + 2])"

inductive_cases dewey_step_cases: "dewey_step op ds ds'"

inductive dewey_run :: "stack_op list \<Rightarrow> int list \<Rightarrow> int list \<Rightarrow> bool" where
  run_Nil: "dewey_run [] ds ds"
| run_Cons: "dewey_step op ds ds' \<Longrightarrow> dewey_run ops ds' ds'' \<Longrightarrow> dewey_run (op # ops) ds ds''"

lemma dewey_step_less: "dewey_step op ds ds' \<Longrightarrow> ds < ds'"
proof (induction rule: dewey_step.induct)
  case (Push ds)
  show ?case by (induction ds) auto
qed (simp_all add: append_less_iff)

lemma stackOp_refines:
  assumes "stack_inv st ds" "op = Next \<Longrightarrow> 2 \<le> length ds" "op = Pop \<Longrightarrow> 3 \<le> length ds"
  shows "case stackOp op st of
      Inr st' \<Rightarrow> \<exists>ds'. dewey_step op ds ds' \<and> stack_inv st' ds'
    | Inl e \<Rightarrow> e = NODEID_ERROR \<and> (\<nexists>ds'. dewey_step op ds ds')"
proof (cases op)
  case Push
  have "fits (ds @ [1]) \<longleftrightarrow> length (dewey_bits ds) + 2 \<le> 2040"
    using child_comp_int32 [OF stack_invD(2) [OF assms(1)]]
    by (simp add: fits_def one_bits ordpath_consts comp_int32_def INT32_MAX_def)
  with pushChild_spec [OF assms(1)] Push show ?thesis
    by (auto split: sum.split if_splits intro: dewey_step.intros elim: dewey_step_cases)
next
  case Next
  then have "2 \<le> length ds" using assms(2) by simp
  then obtain cs v where ds: "ds = cs @ [v]" "cs \<noteq> []" by (cases ds rule: rev_cases) fastforce+
  have "fits (cs @ [v + 2]) \<longleftrightarrow> v \<le> INT32_MAX - 2 \<and> length (dewey_bits (cs @ [v + 2])) \<le> 2040"
    using child_comp_int32 [of ds] stack_invD(2) [OF assms(1)]
    by (auto simp: fits_def ds ordpath_consts comp_int32_def child_comp_def INT32_MAX_def)
  with nextChild_spec [OF assms(1) [unfolded ds(1)] ds(2)] ds(2) Next show ?thesis
    by (auto simp: ds(1) split: sum.split if_splits intro: dewey_step.intros elim: dewey_step_cases)
next
  case Pop
  then have "3 \<le> length ds" using assms(3) by simp
  then obtain cs v u where ds: "ds = cs @ [v, u]" "cs \<noteq> []"
    by (cases ds rule: rev_cases; cases "butlast ds" rule: rev_cases) fastforce+
  have "fits (cs @ [v + 2]) \<longleftrightarrow> v \<le> INT32_MAX - 2 \<and> length (dewey_bits (cs @ [v + 2])) \<le> 2040"
    using child_comp_int32 [of ds] stack_invD(2) [OF assms(1)]
    by (auto simp: fits_def ds ordpath_consts comp_int32_def child_comp_def INT32_MAX_def)
  with popChild_spec [OF assms(1) [unfolded ds(1)] ds(2)] ds(2) Pop show ?thesis
    by (auto simp: ds(1) split: sum.split if_splits intro: dewey_step.intros elim: dewey_step_cases)
qed

text \<open>Every run of the abstract machine is a run of the code, with the ids it computes.\<close>

lemma stackOps_run:
  assumes "dewey_run ops ds ds'" "stack_inv st ds"
  shows "\<exists>st'. stackOps ops st = Inr st' \<and> stack_inv st' ds'"
  using assms
proof (induction arbitrary: st rule: dewey_run.induct)
  case (run_Cons op ds ds' ops ds'')
  have "op = Next \<Longrightarrow> 2 \<le> length ds" "op = Pop \<Longrightarrow> 3 \<le> length ds" using run_Cons.hyps(1) by (auto elim!: dewey_step_cases simp: Suc_le_eq)
  with stackOp_refines [OF run_Cons.prems, of op] run_Cons.hyps(1) obtain st1 ds1 where
    st1: "stackOp op st = Inr st1" "dewey_step op ds ds1" "stack_inv st1 ds1"
    by (auto split: sum.splits)
  moreover have "ds1 = ds'" using st1(2) run_Cons.hyps(1) by (auto elim!: dewey_step_cases)
  ultimately show ?case using run_Cons.IH [of st1] by simp
qed simp

lemma dewey_run_less: "dewey_run ops ds ds' \<Longrightarrow> ops \<noteq> [] \<Longrightarrow> ds < ds'"
proof (induction rule: dewey_run.induct)
  case (run_Cons op ds ds' ops ds'')
  then have "ds < ds'" by (blast intro: dewey_step_less)
  moreover have "ds' = ds'' \<or> ds' < ds''" using run_Cons by (cases "ops = []") (auto elim: dewey_run.cases)
  ultimately show ?case by auto
qed simp

lemma init_stack_inv:
  assumes "length deweyId = MAX_NUM_COMPS" "length compLens = MAX_NUM_COMPS"
  shows "\<exists>st. init_stack (OrdPathStack deweyId compLens) = Inr st \<and> stack_inv st [1]"
proof -
  have "padded ((replicate 255 0)[0 := 0x40]) (comp_bits 1)"
  proof -
    have "bits_written (replicate 255 0) ((replicate 255 0)[0 := replicate 255 0 ! 0 OR 0x40]) 0 (comp_bits 1)"
      using bit_one_byte(3) by (intro written_one [where pos = 1]) auto
    then have "bits_written (replicate 255 0) ((replicate 255 0)[0 := 0x40]) 0 (comp_bits 1)" by simp
    then show ?thesis using padded_written [OF padded_zeros [of 255]] by (simp add: one_bits)
  qed
  moreover have "take (Suc 0) (deweyId[0 := 1]) = [1]" "take (Suc 0) (compLens[0 := 2]) = [2]"
    using assms by (cases deweyId; cases compLens; simp add: ordpath_consts)+
  ultimately show ?thesis using assms
    by (simp add: init_stack_def OrdPathStack_def stack_inv_def stack_at_def ordpath_consts child_comp_def
        INT32_MAX_def one_bits)
qed

lemma prefix_not_less: "\<not> xs @ zs < xs" for xs :: "int list"
  by (induction xs) auto

lemma evalBuffer: "replicate 255 (0 :: byte) = 0 # 0 # replicate 253 0"
  by (simp flip: replicate_Suc)

lemma root_moves:
  assumes "stack_inv st ds"
  shows "length ds = 1 \<longrightarrow> nextChild st = (if hd ds \<le> INT32_MAX - 2 then Inl Undefined else Inl NODEID_ERROR) \<and> popChild st = Inr (st\<lparr>theNumComps := 0\<rparr>)"
    and "length ds = 2 \<longrightarrow> popChild st = (if hd ds \<le> INT32_MAX - 2 then Inl Undefined else Inl NODEID_ERROR)"
proof -
  note I = stack_invD [OF assms]
  have at: "stack_at (st\<lparr>theNumComps := n, theDeweyId := d\<rparr>) (dewey_bits ds)" "stack_at (st\<lparr>theDeweyId := d\<rparr>) (dewey_bits ds)" for n d
    using I(8) by (simp_all add: stack_at_def)
  show "length ds = 1 \<longrightarrow> nextChild st = (if hd ds \<le> INT32_MAX - 2 then Inl Undefined else Inl NODEID_ERROR) \<and> popChild st = Inr (st\<lparr>theNumComps := 0\<rparr>)"
  proof
    assume "length ds = 1"
    then obtain v where ds: "ds = [v]" by (cases ds) auto
    have "theDeweyId st ! 0 = v" "theCompLens st ! 0 = of_nat (length (comp_bits v))"
      using arg_cong [OF I(6), of "\<lambda>xs. xs ! 0"] arg_cong [OF I(7), of "\<lambda>xs. xs ! 0"] ds by simp_all
    then show "nextChild st = (if hd ds \<le> INT32_MAX - 2 then Inl Undefined else Inl NODEID_ERROR) \<and> popChild st = Inr (st\<lparr>theNumComps := 0\<rparr>)"
      using I(3-5) at popBits_all [OF at(2) refl] by (simp add: ds nextChild_def popChild_def unat_comp_len ordpath_consts)
  qed
  show "length ds = 2 \<longrightarrow> popChild st = (if hd ds \<le> INT32_MAX - 2 then Inl Undefined else Inl NODEID_ERROR)"
  proof
    assume "length ds = 2"
    then obtain v u where ds: "ds = [v, u]" by (cases ds; cases "tl ds") auto
    have "theDeweyId st ! 0 = v" "theCompLens st ! 0 = of_nat (length (comp_bits v))" "theCompLens st ! Suc 0 = of_nat (length (comp_bits u))"
      using arg_cong [OF I(6), of "\<lambda>xs. xs ! 0"] arg_cong [OF I(7), of "\<lambda>xs. xs ! 0"] arg_cong [OF I(7), of "\<lambda>xs. xs ! Suc 0"] ds by simp_all
    then show "popChild st = (if hd ds \<le> INT32_MAX - 2 then Inl Undefined else Inl NODEID_ERROR)"
      using I(3-5) popBits_all [OF at(1) refl] by (simp add: ds popChild_def unat_comp_len ordpath_consts add.commute)
  qed
qed

section \<open>Properties\<close>

text \<open>
  C4: each operation of \<open>OrdPathStack\<close> that stays below the first component implements one step of a machine on plain component
  lists (append a first child, move to the next sibling, return to the parent's next sibling): from a
  state whose buffer, bit counters and component lengths describe the list \<open>ds\<close>, it reaches a state that
  describes the successor of \<open>ds\<close>, and it throws \<open>ZSTR0030\<close> exactly when the successor does not fit
  255 bytes or 32-bit components. \<open>nextChild\<close> needs two components for that and \<open>popChild\<close> three.
\<close>

theorem stack_refinement:
  assumes "stack_inv st ds" "op = Next \<longrightarrow> 2 \<le> length ds" "op = Pop \<longrightarrow> 3 \<le> length ds"
  shows "case stackOp op st of
      Inr st' \<Rightarrow> \<exists>ds'. dewey_step op ds ds' \<and> stack_inv st' ds'
    | Inl e \<Rightarrow> e = NODEID_ERROR \<and> (\<nexists>ds'. dewey_step op ds ds')"
  using stackOp_refines [OF assms(1)] assms(2,3) by blast

theorem stack_refinement_witness:
  "\<exists>st. stack_inv st [1] \<and> (case stackOp Push st of
      Inr st' \<Rightarrow> \<exists>ds'. dewey_step Push [1] ds' \<and> stack_inv st' ds'
    | Inl e \<Rightarrow> e = NODEID_ERROR \<and> (\<nexists>ds'. dewey_step Push [1] ds'))"
proof -
  obtain st where "stack_inv st [1]"
    using init_stack_inv [of "replicate MAX_NUM_COMPS 0" "replicate MAX_NUM_COMPS 0"] by auto
  with stack_refinement [of st "[1]" Push] show ?thesis by auto
qed

text \<open>
  C36: moving the first component on is undefined. \<open>nextChild\<close> on a stack of one component and \<open>popChild\<close> on a stack of two, whatever the
  components are and however they were reached, drop all bits, so that \<open>theByteIndex\<close> wraps and \<open>theBuffer\<close> is accessed outside of its bounds; only a component too big to
  be moved on is reported before that. \<open>popChild\<close> on one component empties the stack.
\<close>

theorem stack_leaves_root:
  assumes "stack_inv st ds"
  shows "(length ds = 1 \<longrightarrow> nextChild st = (if hd ds \<le> INT32_MAX - 2 then Inl Undefined else Inl NODEID_ERROR) \<and> popChild st = Inr (st\<lparr>theNumComps := 0\<rparr>))
    \<and> (length ds = 2 \<longrightarrow> popChild st = (if hd ds \<le> INT32_MAX - 2 then Inl Undefined else Inl NODEID_ERROR))"
  using root_moves [OF assms] by blast

theorem stack_leaves_root_witness:
  "\<exists>st. bindE (init_stack (OrdPathStack (replicate 1020 0) (replicate 1020 0))) (stackOps []) = Inr st \<and> nextChild st = Inl Undefined"
proof -
  obtain st where "init_stack (OrdPathStack (replicate 1020 0) (replicate 1020 0)) = Inr st" "stack_inv st [1]"
    using init_stack_inv [of "replicate 1020 0" "replicate 1020 0"] by (auto simp: ordpath_consts)
  with stack_leaves_root [of st "[1]"] show ?thesis by (simp add: INT32_MAX_def)
qed

text \<open>
  C20: loading never gets stuck while the ids fit and the first component stays: for every sequence of operations that the list
  machine can do from the root, the code, started with \<open>init()\<close> on a new object whatever its
  uninitialised arrays contain, does them too, and the id assigned from the stack is the compressed
  form of the component list.
\<close>

theorem stack_ids:
  assumes "length deweyId = MAX_NUM_COMPS" "length compLens = MAX_NUM_COMPS" "dewey_run ops [1] ds"
  shows "\<exists>st. bindE (init_stack (OrdPathStack deweyId compLens)) (stackOps ops) = Inr st
    \<and> compress ds = Inr (assignStack st)"
proof -
  obtain st0 where "init_stack (OrdPathStack deweyId compLens) = Inr st0" "stack_inv st0 [1]"
    using init_stack_inv [OF assms(1,2)] by blast
  with stackOps_run [OF assms(3)] assignStack_compress show ?thesis by fastforce
qed

lemma example_run: "dewey_run [Push, Next, Push, Pop] [1] [1, 5]"
proof -
  have "dewey_step Push [1] ([1] @ [1])" "dewey_step Next ([1] @ [1]) ([1] @ [1 + 2])"
    "dewey_step Push [1, 3] ([1, 3] @ [1])" "dewey_step Pop ([1] @ [3, 1]) ([1] @ [3 + 2])"
    by (rule dewey_step.intros; simp add: fits_def comp_int32_def INT32_MAX_def ordpath_consts length_comp_bits comp_class_cases)+
  then show ?thesis by (auto intro!: dewey_run.intros)
qed

theorem stack_ids_witness:
  "\<exists>st. bindE (init_stack (OrdPathStack (replicate 1020 0) (replicate 1020 0))) (stackOps [Push, Next, Push, Pop]) = Inr st
    \<and> compress [1, 5] = Inr (assignStack st)"
  using stack_ids [OF _ _ example_run] by (simp add: ordpath_consts)

text \<open>
  C21: the ids handed out while a document is loaded are in document order: whatever
  operations come in between, a later id is greater than an earlier one by \<open>operator<\<close> and never equal
  to it, unless the mark of an eight-byte embedded id is compared with a bit of a descendant's.
\<close>

theorem stack_document_order:
  assumes "length deweyId = MAX_NUM_COMPS" "length compLens = MAX_NUM_COMPS"
    and "dewey_run ops [1] ds" "dewey_run ops' ds ds'" "ops' \<noteq> []" "\<not> mark_read ds ds'"
  shows "\<exists>st st'. bindE (init_stack (OrdPathStack deweyId compLens)) (stackOps ops) = Inr st
    \<and> stackOps ops' st = Inr st' \<and> less_op (assignStack st) (assignStack st')
    \<and> \<not> eq_op (assignStack st) (assignStack st')"
proof -
  obtain st0 where st0: "init_stack (OrdPathStack deweyId compLens) = Inr st0" "stack_inv st0 [1]"
    using init_stack_inv [OF assms(1,2)] by blast
  obtain st where st: "stackOps ops st0 = Inr st" "stack_inv st ds" using stackOps_run [OF assms(3) st0(2)] by blast
  obtain st' where st': "stackOps ops' st = Inr st'" "stack_inv st' ds'" using stackOps_run [OF assms(4) st(2)] by blast
  have less: "ds < ds'" using dewey_run_less assms(4,5) by blast
  have "\<not> mark_read ds' ds"
  proof
    assume "mark_read ds' ds"
    then have "take (length ds') ds = ds'" by (simp add: mark_read_def)
    then have "ds = ds' @ drop (length ds') ds" by (metis append_take_drop_id)
    then show False using less prefix_not_less by metis
  qed
  moreover have "dewey_ok ds" "dewey_ok ds'" using st(2) st'(2) child_dewey_ok stack_invD by blast+
  moreover have "holds (assignStack st) (dewey_bits ds)" "holds (assignStack st') (dewey_bits ds')"
    using assignStack_compress st(2) st'(2) compressed_holds(1) child_comp_int32 stack_invD(2) by blast+
  ultimately have "less_op (assignStack st) (assignStack st') \<longleftrightarrow> ds < ds'" "eq_op (assignStack st) (assignStack st') \<longleftrightarrow> ds = ds'"
    using less_op_iff eq_op_iff assms(6) by blast+
  with st0 st st' less show ?thesis by auto
qed

theorem stack_document_order_witness:
  "\<exists>st st'. bindE (init_stack (OrdPathStack (replicate 1020 0) (replicate 1020 0))) (stackOps []) = Inr st
    \<and> stackOps [Push, Next, Push, Pop] st = Inr st' \<and> less_op (assignStack st) (assignStack st')"
proof -
  have "\<not> mark_read [1] [1, 5]" by (simp add: mark_read_def length_comp_bits comp_class_cases)
  then show ?thesis
    using stack_document_order [OF _ _ run_Nil example_run, of "replicate 1020 0" "replicate 1020 0"]
    by (auto simp: ordpath_consts)
qed

text \<open>
  \<open>init()\<close> sets the first byte only. On an object that was used before (the loaders call it
  to load another document, and after an aborted load) the bytes behind it keep their bits, and an id
  that reaches them by \<open>|=\<close> is wrong: here the node \<open>1.1.3.1\<close>, on a stack that an aborted load left at
  \<open>1.1.1.1.1\<close>.
\<close>

lemma stack_reuse_defect:
  "\<exists>st. bindE (bindE (bindE (init_stack (OrdPathStack ([0, 0, 0, 0, 0] @ replicate 1015 0) ([0, 0, 0, 0, 0] @ replicate 1015 0)))
       (stackOps [Push, Push, Push, Push])) init_stack) (stackOps [Push, Push, Next, Push]) = Inr st
    \<and> take (theNumComps st) (theDeweyId st) = [1, 1, 3, 1]
    \<and> compress [1, 1, 3, 1] = Inr (Local [0x5A, 0x80, 0, 0, 0, 0, 0, 1])
    \<and> assignStack st = Local [0x5A, 0xC0, 0, 0, 0, 0, 0, 1]"
  by (simp add: encode_eval init_stack_def OrdPathStack_def evalBuffer pushChild_def nextChild_def popBits_def maskByte_def
    clearBytes_def compressComp_def stackCode_def compressLoop.simps orByte_def assignStack_def stackByteLength_def rd_def wr_def markLocal_def)

end
