(* ===== verification/HashMap.thy ===== *)
theory HashMap
  imports Zorba_Prelude
begin

text \<open>
  The hash map of \<open>zorbautils/hashmap.h\<close>, the set on top of it (\<open>zorbautils/hashset.h\<close>), the hash
  functions of \<open>zorbautils/hashfun.h\<close> and \<open>util/utf8_util.h\<close>, and the comparators of
  \<open>hashmap_zstring.h\<close>, \<open>hashmap_cstring.h\<close> and \<open>store/naive/string_pool.h\<close>.

  The table is one vector: \<open>theNumBuckets\<close> bucket heads, the head of the free list, and a collision
  area whose entries belong to a bucket or to the free list. Entries are linked by relative offsets.
  Memory is never exhausted in the model, and the mutex (the operations are atomic under it) is left out.
\<close>

section \<open>Entries\<close>

text \<open>\<open>content\<close> is the key and value of an entry in use, \<open>None\<close> for one with \<open>theIsFree\<close>.\<close>

record ('k, 'v) hash_entry =
  content :: "('k \<times> 'v) option"
  theNext :: int

definition HashEntry :: "('k, 'v) hash_entry" where
  "HashEntry = \<lparr>content = None, theNext = 0\<rparr>"

definition isFree :: "('k, 'v) hash_entry \<Rightarrow> bool" where
  "isFree e \<longleftrightarrow> content e = None"

definition setFree :: "('k, 'v) hash_entry \<Rightarrow> ('k, 'v) hash_entry" where
  "setFree e = \<lparr>content = None, theNext = 0\<rparr>"

text \<open>\<open>unsetFree\<close> constructs a key and a value with the default constructors, here \<open>p\<close>.\<close>

definition unsetFree :: "'k \<times> 'v \<Rightarrow> ('k, 'v) hash_entry \<Rightarrow> ('k, 'v) hash_entry" where
  "unsetFree p e = e\<lparr>content := Some p\<rparr>"

text \<open>Entries are addressed by their index in the table.\<close>

definition setNext :: "nat \<Rightarrow> nat option \<Rightarrow> ('k, 'v) hash_entry \<Rightarrow> ('k, 'v) hash_entry" where
  "setNext i j e = e\<lparr>theNext := (case j of None \<Rightarrow> 0 | Some j \<Rightarrow> int j - int i)\<rparr>"

definition getNext :: "nat \<Rightarrow> ('k, 'v) hash_entry \<Rightarrow> nat option" where
  "getNext i e = (if theNext e = 0 then None else Some (nat (int i + theNext e)))"

section \<open>The map\<close>

record 'k compare_fun =
  hash_fn :: "'k \<Rightarrow> nat"
  equal_fn :: "'k \<Rightarrow> 'k \<Rightarrow> bool"

text \<open>
  \<open>theMaxLoad\<close> is a \<open>double\<close>; the model keeps it in units of \<open>2\<^sup>-\<^sup>5\<^sup>3\<close>. \<open>newPair\<close> is what the default
  constructors of the key and value types make. \<open>theLoadFactor\<close> is the default one.
\<close>

record ('k, 'v) hash_map =
  theHashTab :: "('k, 'v) hash_entry list"
  theNumBuckets :: nat
  theNumEntries :: nat
  theMaxLoad :: nat
  theCompareFunction :: "'k compare_fun"
  theNumCollisions :: nat
  newPair :: "'k \<times> 'v"

text \<open>
  Rounding an integer to the 53 significant bits of a \<open>double\<close>, ties to even; the \<open>double\<close> nearest to
  0.7 is \<open>6305039478318694\<close> in units of \<open>2\<^sup>-\<^sup>5\<^sup>3\<close>.
\<close>

fun bit_len :: "nat \<Rightarrow> nat" where
  "bit_len n = (if n = 0 then 0 else Suc (bit_len (n div 2)))"

declare bit_len.simps [simp del]

definition double_round :: "nat \<Rightarrow> nat" where
  "double_round m =
    (let k = bit_len m - 53; q = m div 2 ^ k; r = m mod 2 ^ k in
     if k > 0 \<and> (2 * r > 2 ^ k \<or> 2 * r = 2 ^ k \<and> odd q) then Suc q * 2 ^ k else q * 2 ^ k)"

definition DEFAULT_LOAD_FACTOR :: nat where
  "DEFAULT_LOAD_FACTOR = 6305039478318694"

definition maxLoad :: "nat \<Rightarrow> nat" where
  "maxLoad numBuckets = double_round (numBuckets * DEFAULT_LOAD_FACTOR)"

definition aboveMaxLoad :: "('k, 'v) hash_map \<Rightarrow> bool" where
  "aboveMaxLoad m \<longleftrightarrow> theNumEntries m * 2 ^ 53 > theMaxLoad m"

definition belowHalfLoad :: "('k, 'v) hash_map \<Rightarrow> bool" where
  "belowHalfLoad m \<longleftrightarrow> 2 * theNumEntries m * 2 ^ 53 < theMaxLoad m"

text \<open>\<open>size + 32 + size / 5\<close>: with the default load factor the divisor \<open>5 - 10 * (theLoadFactor - 0.7)\<close> is 5.\<close>

definition computeCapacity :: "nat \<Rightarrow> nat" where
  "computeCapacity s = s + 32 + s div 5"

definition bucket :: "('k, 'v) hash_map \<Rightarrow> nat \<Rightarrow> nat outcome" where
  "bucket m hvalue = (if theNumBuckets m = 0 then Inl Undefined else Inr (hvalue mod theNumBuckets m))"

text \<open>Changing one entry of the table.\<close>

definition modEntry ::
  "nat \<Rightarrow> (('k, 'v) hash_entry \<Rightarrow> ('k, 'v) hash_entry) \<Rightarrow> ('k, 'v) hash_map \<Rightarrow> ('k, 'v) hash_map outcome" where
  "modEntry i f m =
    bindE (rd (theHashTab m) i) (\<lambda>e.
      Inr (m\<lparr>theHashTab := (theHashTab m)[i := f e]\<rparr>))"

text \<open>\<open>formatCollisionArea\<close> links the entries from \<open>firstentry\<close> to the end into one list.\<close>

fun linkEntries :: "nat \<Rightarrow> nat \<Rightarrow> ('k, 'v) hash_entry list \<Rightarrow> ('k, 'v) hash_entry list" where
  "linkEntries i 0 tab = tab"
| "linkEntries i (Suc n) tab = linkEntries (Suc i) n (tab[i := (tab ! i)\<lparr>theNext := 1\<rparr>])"

definition formatCollisionArea :: "nat \<Rightarrow> ('k, 'v) hash_map \<Rightarrow> ('k, 'v) hash_map outcome" where
  "formatCollisionArea firstentry m =
    (let tab = theHashTab m; lastentry = length tab - 1 in
     if tab = [] then Inl Undefined
     else let tab = linkEntries firstentry (lastentry - firstentry) tab in
       Inr (m\<lparr>theHashTab := tab[lastentry := (tab ! lastentry)\<lparr>theNext := 0\<rparr>]\<rparr>))"

definition newHashMap :: "'k compare_fun \<Rightarrow> 'k \<times> 'v \<Rightarrow> nat \<Rightarrow> ('k, 'v) hash_map outcome" where
  "newHashMap compFunction p s =
    bindE (formatCollisionArea s
      \<lparr>theHashTab = replicate (computeCapacity s) HashEntry, theNumBuckets = s, theNumEntries = 0,
       theMaxLoad = 0, theCompareFunction = compFunction, theNumCollisions = 0, newPair = p\<rparr>)
    (\<lambda>m. Inr (m\<lparr>theMaxLoad := maxLoad s\<rparr>))"

definition empty_map :: "('k, 'v) hash_map \<Rightarrow> bool" where
  "empty_map m \<longleftrightarrow> theNumEntries m = 0"

definition size_map :: "('k, 'v) hash_map \<Rightarrow> nat" where
  "size_map m = theNumEntries m"

definition capacity :: "('k, 'v) hash_map \<Rightarrow> nat" where
  "capacity m = length (theHashTab m)"

definition clearNoSync :: "('k, 'v) hash_map \<Rightarrow> ('k, 'v) hash_map outcome" where
  "clearNoSync m =
    formatCollisionArea (theNumBuckets m)
      (m\<lparr>theNumEntries := 0, theNumCollisions := 0,
         theHashTab := map (\<lambda>e. if isFree e then e else setFree e) (theHashTab m)\<rparr>)"

section \<open>Searching\<close>

text \<open>
  The loop over a bucket. \<open>n\<close> bounds the number of entries it may visit; a list of entries without a
  cycle is no longer than the table.
\<close>

fun findEntry ::
  "('k \<Rightarrow> 'k \<Rightarrow> bool) \<Rightarrow> ('k, 'v) hash_entry list \<Rightarrow> 'k \<Rightarrow> nat \<Rightarrow> nat option \<Rightarrow> nat option outcome" where
  "findEntry equal tab item n None = Inr None"
| "findEntry equal tab item 0 (Some i) = Inl Diverges"
| "findEntry equal tab item (Suc n) (Some i) =
    bindE (rd tab i) (\<lambda>e.
      case content e of
        None \<Rightarrow> Inl Undefined
      | Some (k, v) \<Rightarrow> if equal k item then Inr (Some i) else findEntry equal tab item n (getNext i e))"

text \<open>The part that \<open>exists\<close>, \<open>find\<close> and \<open>get\<close> have in common.\<close>

definition lookupEntry :: "'k \<Rightarrow> ('k, 'v) hash_map \<Rightarrow> nat option outcome" where
  "lookupEntry item m =
    (if empty_map m then Inr None
     else bindE (bucket m (hash_fn (theCompareFunction m) item)) (\<lambda>entry.
       bindE (rd (theHashTab m) entry) (\<lambda>e.
         if isFree e then Inr None
         else findEntry (equal_fn (theCompareFunction m)) (theHashTab m) item (length (theHashTab m)) (Some entry))))"

definition exists_item :: "'k \<Rightarrow> ('k, 'v) hash_map \<Rightarrow> bool outcome" where
  "exists_item item m = bindE (lookupEntry item m) (\<lambda>r. Inr (r \<noteq> None))"

text \<open>An iterator is a position; the end iterator is the size of the table.\<close>

fun skipFree :: "('k, 'v) hash_entry list \<Rightarrow> nat \<Rightarrow> nat" where
  "skipFree [] pos = pos"
| "skipFree (e # es) pos = (if isFree e then skipFree es (Suc pos) else pos)"

definition iterator :: "('k, 'v) hash_map \<Rightarrow> nat \<Rightarrow> nat" where
  "iterator m pos = skipFree (drop pos (theHashTab m)) pos"

definition begin_iter :: "('k, 'v) hash_map \<Rightarrow> nat" where
  "begin_iter m = iterator m 0"

definition end_iter :: "('k, 'v) hash_map \<Rightarrow> nat" where
  "end_iter m = iterator m (length (theHashTab m))"

definition next_iter :: "('k, 'v) hash_map \<Rightarrow> nat \<Rightarrow> nat" where
  "next_iter m pos = (if pos < length (theHashTab m) then iterator m (Suc pos) else pos)"

text \<open>The key and value of an entry that is in use.\<close>

definition entryPair :: "('k, 'v) hash_map \<Rightarrow> nat \<Rightarrow> ('k \<times> 'v) outcome" where
  "entryPair m i =
    bindE (rd (theHashTab m) i) (\<lambda>e. case content e of None \<Rightarrow> Inl Undefined | Some p \<Rightarrow> Inr p)"

definition deref_iter :: "('k, 'v) hash_map \<Rightarrow> nat \<Rightarrow> ('k \<times> 'v) outcome" where
  "deref_iter m pos =
    (if pos < length (theHashTab m) then entryPair m pos else Inl Assertion)"

definition find_item :: "'k \<Rightarrow> ('k, 'v) hash_map \<Rightarrow> nat outcome" where
  "find_item item m =
    bindE (lookupEntry item m) (\<lambda>r. case r of None \<Rightarrow> Inr (end_iter m) | Some i \<Rightarrow> Inr (iterator m i))"

definition get :: "'k \<Rightarrow> ('k, 'v) hash_map \<Rightarrow> 'v option outcome" where
  "get item m =
    bindE (lookupEntry item m) (\<lambda>r.
      case r of None \<Rightarrow> Inr None
      | Some i \<Rightarrow> bindE (entryPair m i) (\<lambda>(k, v). Inr (Some v)))"

section \<open>Allocating entries and resizing\<close>

definition extendCollisionArea :: "('k, 'v) hash_map \<Rightarrow> ('k, 'v) hash_map outcome" where
  "extendCollisionArea m =
    (let oldSize = length (theHashTab m);
         numCollisionEntries = oldSize - theNumBuckets m;
         newSize = theNumBuckets m + 2 * numCollisionEntries;
         m = m\<lparr>theHashTab := theHashTab m @ replicate (newSize - oldSize) HashEntry\<rparr>
     in if newSize \<le> oldSize then Inl Undefined
        else bindE (modEntry (theNumBuckets m) (setNext (theNumBuckets m) (Some oldSize)) m)
               (formatCollisionArea oldSize))"

text \<open>Taking an entry from the free list and linking it behind the head of a bucket.\<close>

definition takeFree :: "nat \<Rightarrow> ('k, 'v) hash_map \<Rightarrow> (nat \<times> ('k, 'v) hash_map) outcome" where
  "takeFree headEntry m =
    bindE (rd (theHashTab m) (theNumBuckets m)) (\<lambda>fl.
      case getNext (theNumBuckets m) fl of
        None \<Rightarrow> Inl Undefined
      | Some currEntry \<Rightarrow>
          bindE (rd (theHashTab m) currEntry) (\<lambda>e.
          bindE (modEntry (theNumBuckets m) (setNext (theNumBuckets m) (getNext currEntry e)) m) (\<lambda>m.
          bindE (rd (theHashTab m) headEntry) (\<lambda>h.
          bindE (modEntry currEntry (setNext currEntry (getNext headEntry h)) m) (\<lambda>m.
          bindE (modEntry headEntry (setNext headEntry (Some currEntry)) m) (\<lambda>m.
            Inr (currEntry, m)))))))"

text \<open>The collision area is extended first if the free list is empty.\<close>

definition linkFree :: "nat \<Rightarrow> ('k, 'v) hash_map \<Rightarrow> (nat \<times> ('k, 'v) hash_map) outcome" where
  "linkFree headEntry m =
    bindE (rd (theHashTab m) (theNumBuckets m)) (\<lambda>fl.
    bindE (if getNext (theNumBuckets m) fl = None then extendCollisionArea m else Inr m)
      (takeFree headEntry))"

text \<open>Putting an entry of the old table in the new one.\<close>

definition rehashEntry :: "('k, 'v) hash_entry \<Rightarrow> ('k, 'v) hash_map \<Rightarrow> ('k, 'v) hash_map outcome" where
  "rehashEntry oldentry m =
    (case content oldentry of
       None \<Rightarrow> Inr m
     | Some (k, v) \<Rightarrow>
         bindE (bucket m (hash_fn (theCompareFunction m) k)) (\<lambda>entry.
         bindE (rd (theHashTab m) entry) (\<lambda>e.
         bindE (if isFree e then Inr (entry, m) else linkFree entry m) (\<lambda>(entry, m).
           modEntry entry (\<lambda>e. (unsetFree (newPair m) e)\<lparr>content := Some (k, v)\<rparr>) m))))"

fun rehashFrom :: "('k, 'v) hash_entry list \<Rightarrow> ('k, 'v) hash_map \<Rightarrow> ('k, 'v) hash_map outcome" where
  "rehashFrom [] m = Inr m"
| "rehashFrom (oldentry # oldTab) m = bindE (rehashEntry oldentry m) (rehashFrom oldTab)"

definition resizeHashTab :: "nat \<Rightarrow> ('k, 'v) hash_map \<Rightarrow> ('k, 'v) hash_map outcome" where
  "resizeHashTab newSize m =
    (let newSize = (if newSize = 0 then 3 else newSize);
         oldTab = theHashTab m;
         m = m\<lparr>theHashTab := replicate (computeCapacity newSize) HashEntry,
               theNumBuckets := newSize, theMaxLoad := maxLoad newSize\<rparr>
     in bindE (formatCollisionArea newSize m) (rehashFrom oldTab))"

definition rehash :: "('k, 'v) hash_map \<Rightarrow> ('k, 'v) hash_map outcome" where
  "rehash m = resizeHashTab (theNumBuckets m) m"

section \<open>Inserting\<close>

text \<open>
  The entry for an item: the position, whether the item was found, and the map. \<open>n\<close> bounds the number
  of times the code jumps back to \<open>retry\<close>. The base class does not collect garbage.
\<close>

fun hashInsert :: "nat \<Rightarrow> 'k \<Rightarrow> ('k, 'v) hash_map \<Rightarrow> (nat \<times> bool \<times> ('k, 'v) hash_map) outcome" where
  "hashInsert 0 item m = Inl Diverges"
| "hashInsert (Suc n) item m =
    bindE (bucket m (hash_fn (theCompareFunction m) item)) (\<lambda>headEntry.
    bindE (rd (theHashTab m) headEntry) (\<lambda>e.
      if isFree e then
        bindE (modEntry headEntry (unsetFree (newPair m)) (m\<lparr>theNumEntries := Suc (theNumEntries m)\<rparr>)) (\<lambda>m.
          Inr (headEntry, False, m))
      else
        bindE (findEntry (equal_fn (theCompareFunction m)) (theHashTab m) item (length (theHashTab m)) (Some headEntry))
          (\<lambda>r. case r of
             Some currEntry \<Rightarrow> Inr (currEntry, True, m)
           | None \<Rightarrow>
               if aboveMaxLoad m then
                 bindE (resizeHashTab (theNumBuckets m * 2) m) (hashInsert n item)
               else
                 bindE (linkFree headEntry m) (\<lambda>(currEntry, m).
                 bindE (modEntry currEntry (unsetFree (newPair m))
                   (m\<lparr>theNumEntries := Suc (theNumEntries m), theNumCollisions := Suc (theNumCollisions m)\<rparr>)) (\<lambda>m.
                   Inr (currEntry, False, m))))))"

text \<open>The number of doublings that are enough for \<open>theMaxLoad\<close> to reach the number of entries.\<close>

definition retries :: "('k, 'v) hash_map \<Rightarrow> nat" where
  "retries m = theNumEntries m + 3"

text \<open>\<open>insert(pair)\<close>, and \<open>insert(item, value)\<close>, which also gives back the value that is stored.\<close>

definition insert_pair :: "'k \<times> 'v \<Rightarrow> ('k, 'v) hash_map \<Rightarrow> (bool \<times> ('k, 'v) hash_map) outcome" where
  "insert_pair p m =
    bindE (hashInsert (retries m) (fst p) m) (\<lambda>(entry, found, m).
      if found then Inr (False, m)
      else bindE (modEntry entry (\<lambda>e. e\<lparr>content := Some p\<rparr>) m) (\<lambda>m. Inr (True, m)))"

definition insert_item :: "'k \<Rightarrow> 'v \<Rightarrow> ('k, 'v) hash_map \<Rightarrow> (bool \<times> 'v \<times> ('k, 'v) hash_map) outcome" where
  "insert_item item val m =
    bindE (hashInsert (retries m) item m) (\<lambda>(entry, found, m).
      if found then bindE (entryPair m entry) (\<lambda>(k, v). Inr (False, v, m))
      else bindE (modEntry entry (\<lambda>e. e\<lparr>content := Some (item, val)\<rparr>) m) (\<lambda>m. Inr (True, val, m)))"

definition update :: "'k \<Rightarrow> 'v \<Rightarrow> ('k, 'v) hash_map \<Rightarrow> (bool \<times> ('k, 'v) hash_map) outcome" where
  "update item val m =
    bindE (bucket m (hash_fn (theCompareFunction m) item)) (\<lambda>headEntry.
    bindE (rd (theHashTab m) headEntry) (\<lambda>e.
    bindE (if isFree e then Inr None
           else findEntry (equal_fn (theCompareFunction m)) (theHashTab m) item (length (theHashTab m)) (Some headEntry))
      (\<lambda>r. case r of
         None \<Rightarrow> Inr (False, m)
       | Some entry \<Rightarrow>
           bindE (modEntry entry (\<lambda>e. e\<lparr>content := map_option (\<lambda>(k, v). (k, val)) (content e)\<rparr>) m) (\<lambda>m.
             Inr (True, m)))))"

section \<open>Erasing\<close>

definition shrinkHashTab :: "('k, 'v) hash_map \<Rightarrow> ('k, 'v) hash_map outcome" where
  "shrinkHashTab m = (if belowHalfLoad m then resizeHashTab (theNumBuckets m div 2) m else Inr m)"

text \<open>Putting an entry at the front of the free list.\<close>

definition pushFree :: "nat \<Rightarrow> ('k, 'v) hash_map \<Rightarrow> ('k, 'v) hash_map outcome" where
  "pushFree entry m =
    bindE (rd (theHashTab m) (theNumBuckets m)) (\<lambda>fl.
    bindE (modEntry entry (\<lambda>e. setNext entry (getNext (theNumBuckets m) fl) (setFree e)) m) (\<lambda>m.
      modEntry (theNumBuckets m) (setNext (theNumBuckets m) (Some entry)) m))"

definition eraseEntry :: "nat \<Rightarrow> nat option \<Rightarrow> ('k, 'v) hash_map \<Rightarrow> ('k, 'v) hash_map outcome" where
  "eraseEntry entry preventry m =
    bindE (rd (theHashTab m) entry) (\<lambda>e.
    bindE (case preventry of
        None \<Rightarrow>
          (case getNext entry e of
             None \<Rightarrow> modEntry entry setFree m
           | Some nextEntry \<Rightarrow>
               bindE (rd (theHashTab m) nextEntry) (\<lambda>n.
               bindE (modEntry entry (\<lambda>e. setNext entry (getNext nextEntry n) (e\<lparr>content := content n\<rparr>)) m)
                 (pushFree nextEntry)))
      | Some prev \<Rightarrow>
          bindE (modEntry prev (setNext prev (getNext entry e)) m) (pushFree entry))
    (\<lambda>m. shrinkHashTab (m\<lparr>theNumEntries := theNumEntries m - 1\<rparr>)))"

text \<open>The loop over the entries of a bucket behind the first one.\<close>

fun findWithPrev ::
  "('k \<Rightarrow> 'k \<Rightarrow> bool) \<Rightarrow> ('k, 'v) hash_entry list \<Rightarrow> 'k \<Rightarrow> nat \<Rightarrow> nat \<Rightarrow> nat option \<Rightarrow> (nat \<times> nat) option outcome" where
  "findWithPrev equal tab item n preventry None = Inr None"
| "findWithPrev equal tab item 0 preventry (Some i) = Inl Diverges"
| "findWithPrev equal tab item (Suc n) preventry (Some i) =
    bindE (rd tab i) (\<lambda>e.
      case content e of
        None \<Rightarrow> Inl Undefined
      | Some (k, v) \<Rightarrow>
          if equal k item then Inr (Some (preventry, i))
          else findWithPrev equal tab item n i (getNext i e))"

definition eraseNoSync :: "'k \<Rightarrow> nat \<Rightarrow> ('k, 'v) hash_map \<Rightarrow> (bool \<times> ('k, 'v) hash_map) outcome" where
  "eraseNoSync item hval m =
    bindE (bucket m hval) (\<lambda>entry.
    bindE (rd (theHashTab m) entry) (\<lambda>e.
      case content e of
        None \<Rightarrow> Inr (False, m)
      | Some (k, v) \<Rightarrow>
          if equal_fn (theCompareFunction m) k item
          then bindE (eraseEntry entry None m) (\<lambda>m. Inr (True, m))
          else
            bindE (findWithPrev (equal_fn (theCompareFunction m)) (theHashTab m) item (length (theHashTab m))
                     entry (getNext entry e))
              (\<lambda>r. case r of
                 None \<Rightarrow> Inr (False, m)
               | Some (prev, i) \<Rightarrow> bindE (eraseEntry i (Some prev) m) (\<lambda>m. Inr (True, m)))))"

definition erase :: "'k \<Rightarrow> ('k, 'v) hash_map \<Rightarrow> (bool \<times> ('k, 'v) hash_map) outcome" where
  "erase item m = eraseNoSync item (hash_fn (theCompareFunction m) item) m"

text \<open>Erasing at an iterator, which is moved on afterwards.\<close>

definition erase_iter :: "nat \<Rightarrow> ('k, 'v) hash_map \<Rightarrow> (nat \<times> ('k, 'v) hash_map) outcome" where
  "erase_iter pos m =
    bindE (if pos < theNumBuckets m then eraseEntry pos None m
           else bindE (entryPair m pos) (\<lambda>(item, v).
             bindE (eraseNoSync item (hash_fn (theCompareFunction m) item) m) (\<lambda>(found, m). Inr m)))
      (\<lambda>m. Inr (next_iter m pos, m))"

section \<open>Sets\<close>

text \<open>\<open>HashSet\<close> is a map with values of a class without members; \<open>insert(item, outItem)\<close> gives back the stored item.\<close>

type_synonym 'k hash_set = "('k, unit) hash_map"

definition insert_set :: "'k \<Rightarrow> 'k hash_set \<Rightarrow> (bool \<times> 'k \<times> 'k hash_set) outcome" where
  "insert_set item m =
    bindE (hashInsert (retries m) item m) (\<lambda>(entry, found, m).
      if found then bindE (entryPair m entry) (\<lambda>(k, v). Inr (False, k, m))
      else bindE (modEntry entry (\<lambda>e. e\<lparr>content := Some (item, ())\<rparr>) m) (\<lambda>m. Inr (True, item, m)))"

section \<open>Comparators\<close>

type_synonym zstring = "byte list"

definition FNV_32_PRIME :: u32 where
  "FNV_32_PRIME = 0x01000193"

definition FNV_32_INIT :: u32 where
  "FNV_32_INIT = 0x811c9dc5"

text \<open>The hash of a string with a length stops at a zero byte, as that of a zero-terminated one does.\<close>

fun h32 :: "zstring \<Rightarrow> u32 \<Rightarrow> u32" where
  "h32 [] hval = hval"
| "h32 (b # s) hval = (if b = 0 then hval else h32 s ((hval * FNV_32_PRIME) XOR ucast b))"

text \<open>\<open>utf8::hash\<close> without a collation; \<open>char\<close> is signed.\<close>

fun utf8_hash_loop :: "zstring \<Rightarrow> u32 \<Rightarrow> u32" where
  "utf8_hash_loop [] hash = hash"
| "utf8_hash_loop (c # s) hash =
    (if c = 0 then hash else utf8_hash_loop s ((push_bit 5 hash + hash) + scast c))"

definition utf8_hash :: "zstring \<Rightarrow> u32" where
  "utf8_hash s = utf8_hash_loop s 5381"

definition HashMapZStringCmp :: "zstring compare_fun" where
  "HashMapZStringCmp = \<lparr>hash_fn = (\<lambda>s. unat (utf8_hash s)), equal_fn = (=)\<rparr>"

definition HashMapCStringCmp :: "zstring compare_fun" where
  "HashMapCStringCmp = \<lparr>hash_fn = (\<lambda>s. unat (h32 s FNV_32_INIT)),
     equal_fn = (\<lambda>s t. takeWhile (\<lambda>b. b \<noteq> 0) s = takeWhile (\<lambda>b. b \<noteq> 0) t)\<rparr>"

definition StringPoolCompareFunction :: "zstring compare_fun" where
  "StringPoolCompareFunction = \<lparr>hash_fn = (\<lambda>s. unat (h32 s FNV_32_INIT)), equal_fn = (=)\<rparr>"

end
