(* ===== verification/HashMap_Table.thy ===== *)
theory HashMap_Table
  imports HashMap "HOL-Library.Multiset"
begin

text \<open>
  The structure of a hash table: which entries belong to which bucket and to the free list, and what
  every elementary change of the links keeps of it. \<open>table_ok\<close> describes a table by the chains of its
  buckets and the lists of pairs they hold; each lemma \<open>table_ok_...\<close> is one change the code makes.
\<close>

section \<open>Linked entries\<close>

text \<open>\<open>chain tab i js\<close>: following \<open>getNext\<close> from the entry \<open>i\<close> visits the entries \<open>js\<close> and ends.\<close>

fun chain :: "('k, 'v) hash_entry list \<Rightarrow> nat \<Rightarrow> nat list \<Rightarrow> bool" where
  "chain tab i [] \<longleftrightarrow> i < length tab \<and> theNext (tab ! i) = 0"
| "chain tab i (j # js) \<longleftrightarrow> i < length tab \<and> j \<noteq> i \<and> theNext (tab ! i) = int j - int i \<and> chain tab j js"

lemma chain_bound: "chain tab i js \<Longrightarrow> \<forall>k \<in> set (i # js). k < length tab"
  by (induction js arbitrary: i) auto

lemma chain_getNext: "chain tab i js \<Longrightarrow> getNext i (tab ! i) = (case js of [] \<Rightarrow> None | j # _ \<Rightarrow> Some j)"
  by (cases js) (auto simp: getNext_def)

lemma chain_frame:
  assumes "chain tab i js" "length tab \<le> length tab'"
    and "\<forall>k \<in> set (i # js). theNext (tab' ! k) = theNext (tab ! k)"
  shows "chain tab' i js"
  using assms by (induction js arbitrary: i) auto

lemma theNext_setNext [simp]: "theNext (setNext i j e) = (case j of None \<Rightarrow> 0 | Some j \<Rightarrow> int j - int i)"
  by (simp add: setNext_def)

lemma content_setNext [simp]: "content (setNext i j e) = content e"
  by (simp add: setNext_def)

lemma theNext_free [simp]: "theNext (setFree e) = 0" "content (setFree e) = None"
  by (simp_all add: setFree_def)

lemma theNext_unsetFree [simp]: "theNext (unsetFree p e) = theNext e" "content (unsetFree p e) = Some p"
  by (simp_all add: unsetFree_def)

text \<open>Setting the successor of an entry to the end, or to the head of another chain.\<close>

lemma chain_setNext_Nil: "i < length tab \<Longrightarrow> chain (tab[i := setNext i None e]) i []"
  by simp

lemma chain_setNext_Cons:
  assumes "i < length tab" "chain tab j js" "i \<notin> set (j # js)"
  shows "chain (tab[i := setNext i (Some j) e]) i (j # js)"
proof -
  have "chain (tab[i := setNext i (Some j) e]) j js"
    using assms by (intro chain_frame [OF assms(2)]) (auto simp: nth_list_update)
  with assms show ?thesis by auto
qed

text \<open>\<open>next_of js\<close> is what \<open>getNext\<close> returns at the head of a chain.\<close>

definition next_of :: "nat list \<Rightarrow> nat option" where
  "next_of js = (case js of [] \<Rightarrow> None | j # _ \<Rightarrow> Some j)"

lemma getNext_chain: "chain tab i js \<Longrightarrow> getNext i (tab ! i) = next_of js"
  by (simp add: chain_getNext next_of_def)

lemma chain_relink:
  assumes "i < length tab" "js = [] \<or> chain tab (hd js) (tl js)" "i \<notin> set js"
  shows "chain (tab[i := setNext i (next_of js) e]) i js"
proof (cases js)
  case (Cons j ks)
  with assms chain_setNext_Cons [of i tab j ks e] show ?thesis by (simp add: next_of_def)
qed (use assms in \<open>simp add: next_of_def\<close>)

lemma chain_tail: "chain tab i (j # js) \<Longrightarrow> chain tab j js"
  by simp

lemma chain_hd_tl: "chain tab i js \<Longrightarrow> js = [] \<or> chain tab (hd js) (tl js)"
  by (cases js) auto

lemma chain_split: "chain tab i (xs @ j # ys) \<Longrightarrow> chain tab j ys"
  by (induction xs arbitrary: i) auto

text \<open>Taking an inner entry out of a chain.\<close>

lemma chain_unlink:
  assumes "chain tab i (xs @ j # ys)" "distinct (i # xs @ j # ys)" "p = last (i # xs)"
  shows "chain (tab[p := setNext p (next_of ys) e]) i (xs @ ys)"
  using assms
proof (induction xs arbitrary: i)
  case Nil
  then show ?case
    by (auto intro!: chain_relink chain_hd_tl [of tab j])
next
  case (Cons x xs)
  have "chain (tab[p := setNext p (next_of ys) e]) x (xs @ ys)"
    using Cons.prems by (intro Cons.IH) auto
  moreover have "p \<in> set (x # xs)" using Cons.prems(3) by simp
  then have "p \<noteq> i" using Cons.prems(2) by auto
  ultimately show ?case using Cons.prems by simp
qed

section \<open>Well-formed tables\<close>

text \<open>
  \<open>table_ok tab nb js B\<close>: the entries of the collision area are distributed over the chains \<open>js b\<close> of the
  buckets \<open>b < nb\<close> and \<open>js nb\<close> of the free list, and \<open>B b\<close> are the keys and values of a bucket.
\<close>

definition table_ok ::
  "('k, 'v) hash_entry list \<Rightarrow> nat \<Rightarrow> (nat \<Rightarrow> nat list) \<Rightarrow> (nat \<Rightarrow> ('k \<times> 'v) list) \<Rightarrow> bool" where
  "table_ok tab nb js B \<longleftrightarrow> 0 < nb \<and> nb < length tab
    \<and> (\<forall>b \<le> nb. chain tab b (js b) \<and> distinct (js b))
    \<and> (\<forall>b \<le> nb. \<forall>c \<le> nb. b \<noteq> c \<longrightarrow> set (js b) \<inter> set (js c) = {})
    \<and> (\<Union>b \<le> nb. set (js b)) = {nb<..<length tab}
    \<and> (\<forall>b < nb. if B b = [] then js b = [] \<and> content (tab ! b) = None
         else map (\<lambda>i. content (tab ! i)) (b # js b) = map Some (B b))
    \<and> (\<forall>i \<in> set (nb # js nb). content (tab ! i) = None)"

lemma table_okD:
  assumes "table_ok tab nb js B"
  shows "0 < nb" "nb < length tab"
    "\<And>b. b \<le> nb \<Longrightarrow> chain tab b (js b)" "\<And>b. b \<le> nb \<Longrightarrow> distinct (js b)"
    "\<And>b c. b \<le> nb \<Longrightarrow> c \<le> nb \<Longrightarrow> b \<noteq> c \<Longrightarrow> set (js b) \<inter> set (js c) = {}"
    "(\<Union>b \<le> nb. set (js b)) = {nb<..<length tab}"
    "\<And>b. b < nb \<Longrightarrow> B b = [] \<Longrightarrow> js b = [] \<and> content (tab ! b) = None"
    "\<And>b. b < nb \<Longrightarrow> B b \<noteq> [] \<Longrightarrow> map (\<lambda>i. content (tab ! i)) (b # js b) = map Some (B b)"
    "\<And>i. i \<in> set (nb # js nb) \<Longrightarrow> content (tab ! i) = None"
  using assms unfolding table_ok_def by (auto split: if_splits)

lemma table_ok_area: "table_ok tab nb js B \<Longrightarrow> b \<le> nb \<Longrightarrow> i \<in> set (js b) \<Longrightarrow> nb < i \<and> i < length tab"
  using table_okD(6) [of tab nb js B] by (metis UN_I atMost_iff greaterThanLessThan_iff)

lemma table_ok_distinct: "table_ok tab nb js B \<Longrightarrow> b \<le> nb \<Longrightarrow> distinct (b # js b)"
  using table_okD(4) table_ok_area by fastforce

lemma table_okI:
  assumes "0 < nb" "nb < length tab"
    "\<And>b. b \<le> nb \<Longrightarrow> chain tab b (js b)" "\<And>b. b \<le> nb \<Longrightarrow> distinct (js b)"
    "\<And>b c. b < c \<Longrightarrow> c \<le> nb \<Longrightarrow> set (js b) \<inter> set (js c) = {}"
    "(\<Union>b \<le> nb. set (js b)) = {nb<..<length tab}"
    "\<And>b. b < nb \<Longrightarrow> B b = [] \<Longrightarrow> js b = [] \<and> content (tab ! b) = None"
    "\<And>b. b < nb \<Longrightarrow> B b \<noteq> [] \<Longrightarrow> map (\<lambda>i. content (tab ! i)) (b # js b) = map Some (B b)"
    "\<And>i. i \<in> set (nb # js nb) \<Longrightarrow> content (tab ! i) = None"
  shows "table_ok tab nb js B"
proof -
  have "set (js b) \<inter> set (js c) = {}" if "b \<le> nb" "c \<le> nb" "b \<noteq> c" for b c
    using assms(5) [of b c] assms(5) [of c b] that by (cases b c rule: linorder_cases) auto
  then show ?thesis using assms unfolding table_ok_def by (auto split: if_splits)
qed

text \<open>Changing keys and values only.\<close>

definition set_content :: "nat \<Rightarrow> ('k \<times> 'v) option \<Rightarrow> ('k, 'v) hash_entry list \<Rightarrow> ('k, 'v) hash_entry list" where
  "set_content i c tab = tab[i := (tab ! i)\<lparr>content := c\<rparr>]"

lemma set_content_simps [simp]:
  "length (set_content i c tab) = length tab"
  "theNext (set_content i c tab ! k) = theNext (tab ! k)"
  "i < length tab \<Longrightarrow> content (set_content i c tab ! k) = (if k = i then c else content (tab ! k))"
  by (cases "i < length tab"; auto simp: set_content_def nth_list_update list_update_beyond)+

lemma set_content_nth [simp]: "k \<noteq> i \<Longrightarrow> set_content i c tab ! k = tab ! k"
  by (simp add: set_content_def)

lemma map_set_content:
  "i \<notin> set ks \<Longrightarrow> i < length tab \<Longrightarrow> map (\<lambda>k. content (set_content i c tab ! k)) ks = map (\<lambda>k. content (tab ! k)) ks"
  by (auto intro: map_cong)

lemma chain_set_content [simp]: "chain (set_content i c tab) k js = chain tab k js"
  by (induction js arbitrary: k) auto

text \<open>Using an empty bucket.\<close>

lemma table_ok_head:
  assumes ok: "table_ok tab nb js B" and b: "b < nb" "B b = []"
  shows "table_ok (set_content b (Some p) tab) nb js (B(b := [p]))"
proof -
  note D = table_okD [OF ok]
  have other: "b \<notin> set (js c)" if "c \<le> nb" for c using table_ok_area [OF ok that] b by fastforce
  have "b < length tab" using b D(2) by simp
  show ?thesis
  proof (rule table_okI)
    fix c assume c: "c < nb" "(B(b := [p])) c \<noteq> []"
    show "map (\<lambda>i. content (set_content b (Some p) tab ! i)) (c # js c) = map Some ((B(b := [p])) c)"
    proof (cases "c = b")
      case True
      with D(7) [OF b] \<open>b < length tab\<close> show ?thesis by simp
    next
      case False
      with c D(8) [of c] other [of c] \<open>b < length tab\<close> show ?thesis
        using map_set_content [of b "c # js c" tab "Some p"] by simp
    qed
  next
    fix c assume "c < nb" "(B(b := [p])) c = []"
    then show "js c = [] \<and> content (set_content b (Some p) tab ! c) = None"
      using D(7) [of c] \<open>b < length tab\<close> by (auto split: if_splits)
  next
    fix k assume "k \<in> set (nb # js nb)"
    then show "content (set_content b (Some p) tab ! k) = None"
      using D(9) [of k] other [of nb] b \<open>b < length tab\<close> by auto
  qed (use D(1-6) in simp_all)
qed

text \<open>Changing a value.\<close>

lemma table_ok_value:
  assumes ok: "table_ok tab nb js B" and b: "b < nb" "n < length (B b)" "i = (b # js b) ! n"
  shows "table_ok (set_content i (Some p) tab) nb js (B(b := (B b)[n := p]))" "content (tab ! i) = Some (B b ! n)" "i < length tab"
proof -
  note D = table_okD [OF ok]
  have ne: "B b \<noteq> []" using b(2) by auto
  have map: "map (\<lambda>i. content (tab ! i)) (b # js b) = map Some (B b)" using D(8) [OF b(1) ne] .
  have len: "length (B b) = Suc (length (js b))" using arg_cong [OF map, of length] by simp
  have dist: "distinct (b # js b)" using table_ok_distinct [OF ok, of b] b by simp
  have i: "i \<in> set (b # js b)" using b(2,3) len nth_mem [of n "b # js b"] by simp
  then show il: "i < length tab" using chain_bound [OF D(3) [of b]] b by auto
  show "content (tab ! i) = Some (B b ! n)"
    using arg_cong [OF map, of "\<lambda>xs. xs ! n"] b(2,3) len by (simp del: list.map)
  have other: "i \<notin> set (c # js c)" if "c \<le> nb" "c \<noteq> b" for c
    using i that D(5) [of b c] table_ok_area [OF ok, of b i] table_ok_area [OF ok, of c b] b by auto
  show "table_ok (set_content i (Some p) tab) nb js (B(b := (B b)[n := p]))"
  proof (rule table_okI)
    fix c assume c: "c < nb" "(B(b := (B b)[n := p])) c \<noteq> []"
    show "map (\<lambda>k. content (set_content i (Some p) tab ! k)) (c # js c) = map Some ((B(b := (B b)[n := p])) c)"
    proof (cases "c = b")
      case True
      have "map (\<lambda>k. content (set_content i (Some p) tab ! k)) (b # js b)
        = (map (\<lambda>k. content (tab ! k)) (b # js b))[n := Some p]"
        using b(2,3) len dist il by (intro nth_equalityI) (auto simp: nth_list_update nth_eq_iff_index_eq simp del: list.map)
      with True show ?thesis unfolding map by (simp add: map_update)
    next
      case False
      with c D(8) [of c] other [of c] il show ?thesis
        using map_set_content [of i "c # js c" tab "Some p"] by simp
    qed
  next
    fix c assume "c < nb" "(B(b := (B b)[n := p])) c = []"
    then show "js c = [] \<and> content (set_content i (Some p) tab ! c) = None"
      using D(7) [of c] other [of c] ne il by (auto split: if_splits)
  next
    fix k assume "k \<in> set (nb # js nb)"
    then show "content (set_content i (Some p) tab ! k) = None" using D(9) [of k] other [of nb] b il by auto
  qed (use D(1-6) in simp_all)
qed

text \<open>Taking an entry of the free list into a bucket, behind its head.\<close>

definition relink :: "nat \<Rightarrow> nat list \<Rightarrow> ('k, 'v) hash_entry list \<Rightarrow> ('k, 'v) hash_entry list" where
  "relink i js tab = tab[i := setNext i (next_of js) (tab ! i)]"

lemma relink_simps [simp]:
  "length (relink i js tab) = length tab"
  "content (relink i js tab ! k) = content (tab ! k)"
  "k \<noteq> i \<Longrightarrow> theNext (relink i js tab ! k) = theNext (tab ! k)"
  by (cases "i < length tab"; cases "k = i"; auto simp: relink_def nth_list_update list_update_beyond)+

lemma relink_nth [simp]: "k \<noteq> i \<Longrightarrow> relink i js tab ! k = tab ! k"
  by (simp add: relink_def)

lemma chain_relink_other: "i \<notin> set (k # ks) \<Longrightarrow> chain tab k ks \<Longrightarrow> chain (relink i js tab) k ks"
  by (rule chain_frame [of tab]) (auto intro: relink_simps(3))

lemma chain_relink_self:
  assumes "i < length tab" "js = [] \<or> chain tab (hd js) (tl js)" "i \<notin> set js"
  shows "chain (relink i js tab) i js"
  using chain_relink [OF assms] by (simp add: relink_def)

lemma union_move:
  assumes "a \<le> nb" "d \<le> nb" "a \<noteq> d" "set xs \<union> set ys = set (js a) \<union> set (js d)"
  shows "(\<Union>c \<le> nb. set ((js(a := xs, d := ys)) c)) = (\<Union>c \<le> nb :: nat. set (js c))"
proof -
  have "{..nb} = insert a (insert d ({..nb} - {a, d}))" using assms by auto
  then have split: "(\<Union>c \<le> nb. f c) = f a \<union> f d \<union> (\<Union>c \<in> {..nb} - {a, d}. f c)" for f :: "nat \<Rightarrow> 'a set"
    by (metis UN_insert sup_assoc)
  show ?thesis unfolding split [of "\<lambda>c. set ((js(a := xs, d := ys)) c)"] split [of "\<lambda>c. set (js c)"]
    using assms by auto
qed

text \<open>Moving entries between a bucket and the free list, whatever the order of the writes.\<close>

lemma table_ok_move:
  assumes ok: "table_ok tab nb js B" and b: "b < nb" and len: "length tab' = length tab"
    and chains: "chain tab' b xb" "chain tab' nb xf" "\<And>c. c < nb \<Longrightarrow> c \<noteq> b \<Longrightarrow> chain tab' c (js c)"
    and sets: "distinct (xb @ xf)" "set xb \<union> set xf = set (js b) \<union> set (js nb)"
    and cont: "ps \<noteq> []" "map (\<lambda>i. content (tab' ! i)) (b # xb) = map Some ps"
      "\<And>c i. c < nb \<Longrightarrow> c \<noteq> b \<Longrightarrow> i \<in> set (c # js c) \<Longrightarrow> content (tab' ! i) = content (tab ! i)" "\<And>i. i \<in> set (nb # xf) \<Longrightarrow> content (tab' ! i) = None"
  shows "table_ok tab' nb (js(b := xb, nb := xf)) (B(b := ps))" (is "table_ok _ _ ?js ?B")
proof (rule table_okI)
  note D = table_okD [OF ok]
  show "chain tab' c (?js c)" if "c \<le> nb" for c using that chains by (cases "c = b"; cases "c = nb") auto
  show "distinct (?js c)" if "c \<le> nb" for c using that D(4) sets(1) by auto
  have two: "set xb \<inter> set (js c) = {} \<and> set xf \<inter> set (js c) = {}" if "c < nb" "c \<noteq> b" for c
    using that sets(2) D(5) [of c b] D(5) [of c nb] b by fastforce
  show "set (?js c) \<inter> set (?js d) = {}" if "c < d" "d \<le> nb" for c d
    using that two [of c] two [of d] sets(1) D(5) [of c d] by (cases "c = b"; cases "d = b"; cases "d = nb") auto
  have "(\<Union>c \<le> nb. set (?js c)) = (\<Union>c \<le> nb. set (js c))" using b sets(2) by (intro union_move) auto
  then show "(\<Union>c \<le> nb. set (?js c)) = {nb<..<length tab'}" using D(6) len by simp
  fix c assume c: "c < nb"
  show "?js c = [] \<and> content (tab' ! c) = None" if "?B c = []" using that c cont(1) cont(3) [of c c] D(7) [of c] by (cases "c = b") auto
  show "map (\<lambda>i. content (tab' ! i)) (c # ?js c) = map Some (?B c)" if B: "?B c \<noteq> []"
  proof (cases "c = b")
    case True
    then show ?thesis using cont(2) b by simp
  next
    case False
    then have "map (\<lambda>i. content (tab' ! i)) (c # js c) = map (\<lambda>i. content (tab ! i)) (c # js c)" using cont(3) [OF c] by (intro map_cong) auto
    moreover have "?js c = js c" "?B c = B c" using False c by simp_all
    ultimately show ?thesis using B D(8) [OF c] by metis
  qed
qed (use table_okD(1,2) [OF ok] len cont(4) in simp_all)

lemma table_ok_take:
  assumes ok: "table_ok tab nb js B" and b: "b < nb" "B b \<noteq> []" and fl: "js nb = e # fl"
  defines "tab' \<equiv> relink b (e # js b) (relink e (js b) (relink nb fl tab))"
  shows "table_ok (set_content e (Some p) tab') nb (js(nb := fl, b := e # js b)) (B(b := hd (B b) # p # tl (B b)))"
    and "length tab' = length tab" "nb < e" "e < length tab" "content (tab' ! k) = content (tab ! k)"
proof -
  note D = table_okD [OF ok]
  show len: "length tab' = length tab" and cont: "content (tab' ! k) = content (tab ! k)" for k by (simp_all add: tab'_def)
  show e: "nb < e" "e < length tab" using table_ok_area [OF ok, of nb e] fl by auto
  have dist: "distinct (e # fl)" using D(4) [of nb] fl by simp
  have out: "e \<notin> set (js c)" if "c < nb" for c using D(5) [of nb c] that fl by auto
  have heads: "c \<notin> set (js d)" if "c \<le> nb" "d \<le> nb" for c d using table_ok_area [OF ok that(2)] that by fastforce
  have cb: "chain tab' b (e # js b)" (is "chain _ _ ?js")
  proof -
    have "chain tab b (js b)" using D(3) b by simp
    then have "chain (relink nb fl tab) b (js b)" using heads [of nb b] b by (intro chain_relink_other) auto
    then have "chain (relink e (js b) (relink nb fl tab)) e (js b)"
      using chain_hd_tl out [of b] b e by (intro chain_relink_self) auto
    then show ?thesis unfolding tab'_def using heads [of b b] b e D(2) by (intro chain_relink_self) auto
  qed
  have cf: "chain tab' nb fl"
  proof -
    have "chain tab e fl" using D(3) [of nb] fl by simp
    then have "chain (relink nb fl tab) nb fl" using chain_hd_tl [of tab e fl] D(2) heads [of nb nb] fl
      by (intro chain_relink_self) (cases fl, auto)
    then have "chain (relink e (js b) (relink nb fl tab)) nb fl" using e dist by - (rule chain_relink_other, auto)
    then show ?thesis unfolding tab'_def using heads [of b nb] b fl by - (rule chain_relink_other, auto)
  qed
  have other: "chain tab' c (js c)" if "c < nb" "c \<noteq> b" for c
    unfolding tab'_def using D(3) [of c] that heads [of nb c] heads [of b c] out [of c] b e
    by (intro chain_relink_other) auto
  have map: "map (\<lambda>i. content (set_content e (Some p) tab' ! i)) (b # e # js b) = map Some (hd (B b) # p # tl (B b))"
  proof -
    have "map (\<lambda>i. content (set_content e (Some p) tab' ! i)) (js b) = map (\<lambda>i. content (tab ! i)) (js b)"
      using map_set_content [of e "js b" tab' "Some p"] out [of b] b e len cont by simp
    with D(8) [OF b] e len cont b show ?thesis by (cases "B b") auto
  qed
  have "table_ok (set_content e (Some p) tab') nb (js(b := e # js b, nb := fl)) (B(b := hd (B b) # p # tl (B b)))"
  proof (rule table_ok_move [OF ok b(1) _ _ _ _ _ _ _ map])
    show "distinct ((e # js b) @ fl)" "set (e # js b) \<union> set fl = set (js b) \<union> set (js nb)" using D(4) [of b] D(5) [of b nb] dist out [of b] b fl by auto
    show "content (set_content e (Some p) tab' ! i) = content (tab ! i)" if "c < nb" "c \<noteq> b" "i \<in> set (c # js c)" for c i using that out [of c] e len cont by auto
    show "content (set_content e (Some p) tab' ! i) = None" if "i \<in> set (nb # fl)" for i using that D(9) [of i] fl dist e len cont by auto
  qed (use cb cf other len in simp_all)
  then show "table_ok (set_content e (Some p) tab') nb (js(nb := fl, b := e # js b)) (B(b := hd (B b) # p # tl (B b)))" using b by (simp add: fun_upd_twist)
qed

text \<open>Moving an entry of a bucket that is not its head to the free list.\<close>

lemma table_ok_drop:
  assumes ok: "table_ok tab nb js B" and b: "b < nb" "B b \<noteq> []" and jb: "js b = xs @ e # ys"
  defines "tab' \<equiv> relink nb (e # js nb) (relink e (js nb) (set_content e None (relink (last (b # xs)) ys tab)))"
    and "ps \<equiv> take (Suc (length xs)) (B b) @ drop (Suc (Suc (length xs))) (B b)"
  shows "table_ok tab' nb (js(b := xs @ ys, nb := e # js nb)) (B(b := ps))"
proof -
  note D = table_okD [OF ok]
  define q where "q = last (b # xs)"
  have tab': "tab' = relink nb (e # js nb) (relink e (js nb) (set_content e None (relink q ys tab)))"
    unfolding tab'_def q_def ..
  have e: "nb < e" "e < length tab" using table_ok_area [OF ok, of b e] jb b by auto
  have len: "length tab' = length tab" by (simp add: tab')
  have cont: "content (tab' ! k) = (if k = e then None else content (tab ! k))" for k using e by (simp add: tab')
  have dist: "distinct (b # xs @ e # ys)" using table_ok_distinct [OF ok, of b] b jb by simp
  have out: "e \<notin> set (js c)" if "c \<le> nb" "c \<noteq> b" for c using D(5) [of b c] that jb b by auto
  have heads: "c \<notin> set (js d)" if "c \<le> nb" "d \<le> nb" for c d using table_ok_area [OF ok that(2)] that by fastforce
  have in_b: "x \<noteq> nb \<and> x \<noteq> e \<and> (\<forall>c \<le> nb. c \<noteq> b \<longrightarrow> x \<noteq> c \<and> x \<notin> set (js c))" if "x \<in> set (b # xs)" for x
  proof -
    have "x \<notin> set (js c) \<and> x \<noteq> c" if "c \<le> nb" "c \<noteq> b" for c
      using \<open>x \<in> set (b # xs)\<close> D(5) [of b c] that jb b heads [of b c] heads [of c b] by auto
    then show ?thesis using that dist b heads [of nb b] jb by auto
  qed
  have p: "q \<noteq> nb" "q \<noteq> e" "\<And>c. c \<le> nb \<Longrightarrow> c \<noteq> b \<Longrightarrow> q \<noteq> c \<and> q \<notin> set (js c)"
    using in_b [OF last_in_set [of "b # xs"]] by (auto simp: q_def simp del: last.simps)
  have cb: "chain tab' b (xs @ ys)"
  proof -
    have "chain tab b (xs @ e # ys)" using D(3) [of b] b jb by simp
    from chain_unlink [OF this dist q_def, of "tab ! q"] have "chain (relink q ys tab) b (xs @ ys)" by (simp add: relink_def)
    then show ?thesis unfolding tab' using dist e b heads [of nb b] jb
      by (intro chain_relink_other) auto
  qed
  have cf: "chain tab' nb (e # js nb)"
  proof -
    have "chain tab nb (js nb)" using D(3) [of nb] by simp
    then have "chain (set_content e None (relink q ys tab)) nb (js nb)"
      using p(1) p(3) [of nb] b by (simp only: chain_set_content, intro chain_relink_other) auto
    then have "chain (relink e (js nb) (set_content e None (relink q ys tab))) e (js nb)"
      using chain_hd_tl out [of nb] b e by (intro chain_relink_self) auto
    then show ?thesis unfolding tab' using heads [of nb nb] e D(2) by (intro chain_relink_self) auto
  qed
  have other: "chain tab' c (js c)" if "c < nb" "c \<noteq> b" for c
  proof -
    show ?thesis unfolding tab' using D(3) [of c] that heads [of nb c] p(3) [of c] out [of c] b e
      by (intro chain_relink_other chain_set_content [THEN iffD2]) auto
  qed
  have map: "map (\<lambda>i. content (tab ! i)) (b # xs @ e # ys) = map Some (B b)" using D(8) [OF b] jb by simp
  have ps: "map (\<lambda>i. content (tab' ! i)) (b # xs @ ys) = map Some ps"
  proof -
    have "map (\<lambda>i. content (tab' ! i)) (b # xs @ ys) = map (\<lambda>i. content (tab ! i)) (b # xs @ ys)"
      using dist cont by (intro map_cong) auto
    also have "\<dots> = take (Suc (length xs)) (map (\<lambda>i. content (tab ! i)) (b # xs @ e # ys))
      @ drop (Suc (Suc (length xs))) (map (\<lambda>i. content (tab ! i)) (b # xs @ e # ys))" by simp
    also have "\<dots> = map Some ps" unfolding map ps_def by (simp add: take_map drop_map)
    finally show ?thesis .
  qed
  show ?thesis
  proof (rule table_ok_move [OF ok b(1) len cb cf other _ _ _ ps])
    show "distinct ((xs @ ys) @ e # js nb)" "set (xs @ ys) \<union> set (e # js nb) = set (js b) \<union> set (js nb)" using D(4) [of nb] D(5) [of b nb] dist out [of nb] b jb by auto
    show "ps \<noteq> []" using arg_cong [OF ps, of length] by auto
    show "content (tab' ! i) = content (tab ! i)" if "c < nb" "c \<noteq> b" "i \<in> set (c # js c)" for c i using that out [of c] e cont by auto
    show "content (tab' ! i) = None" if "i \<in> set (nb # e # js nb)" for i using that D(9) [of i] cont by auto
  qed
qed

text \<open>Emptying a bucket with one entry.\<close>

lemma table_ok_single:
  assumes ok: "table_ok tab nb js B" and b: "b < nb" "B b = [p]"
  shows "table_ok (tab[b := setFree (tab ! b)]) nb js (B(b := []))"
proof -
  note D = table_okD [OF ok]
  have map: "map (\<lambda>i. content (tab ! i)) (b # js b) = [Some p]" using D(8) [of b] b by simp
  then have jb: "js b = []" by (cases "js b") auto
  have "theNext (tab ! b) = 0" using D(3) [of b] b jb by simp
  then have eq: "tab[b := setFree (tab ! b)] = set_content b None tab"
    by (cases "tab ! b") (simp add: set_content_def setFree_def)
  have bl: "b < length tab" using b D(2) by simp
  have other: "b \<notin> set (js c)" if "c \<le> nb" for c using table_ok_area [OF ok that] b by fastforce
  show ?thesis unfolding eq
  proof (rule table_okI)
    fix c assume c: "c < nb" "(B(b := [])) c \<noteq> []"
    then have "c \<noteq> b" "B c \<noteq> []" by (auto split: if_splits)
    with c show "map (\<lambda>i. content (set_content b None tab ! i)) (c # js c) = map Some ((B(b := [])) c)"
      using D(8) [of c] other [of c] bl map_set_content [of b "c # js c" tab None] by simp
  next
    fix c assume "c < nb" "(B(b := [])) c = []"
    then show "js c = [] \<and> content (set_content b None tab ! c) = None" using D(7) [of c] bl jb by (auto split: if_splits)
  next
    fix k assume "k \<in> set (nb # js nb)"
    then show "content (set_content b None tab ! k) = None" using D(9) [of k] bl by auto
  qed (use D(1-6) in simp_all)
qed

text \<open>\<open>formatCollisionArea\<close> makes one chain.\<close>

lemma linkEntries_nth:
  assumes "i + n \<le> length tab"
  shows "length (linkEntries i n tab) = length tab \<and>
    linkEntries i n tab ! k = (if i \<le> k \<and> k < i + n then (tab ! k)\<lparr>theNext := 1\<rparr> else tab ! k)"
  using assms by (induction i n tab rule: linkEntries.induct) (auto simp: nth_list_update)

definition format_tab :: "nat \<Rightarrow> ('k, 'v) hash_entry list \<Rightarrow> ('k, 'v) hash_entry list" where
  "format_tab i tab = map (\<lambda>k. if k < i then tab ! k
     else (tab ! k)\<lparr>theNext := (if Suc k = length tab then 0 else 1)\<rparr>) [0..<length tab]"

lemma format_tab_simps [simp]:
  "length (format_tab i tab) = length tab"
  "k < length tab \<Longrightarrow> content (format_tab i tab ! k) = content (tab ! k)"
  "k < length tab \<Longrightarrow> k < i \<Longrightarrow> format_tab i tab ! k = tab ! k"
  "k < length tab \<Longrightarrow> i \<le> k \<Longrightarrow> theNext (format_tab i tab ! k) = (if Suc k = length tab then 0 else 1)"
  by (auto simp: format_tab_def)

lemma formatCollisionArea_eq:
  assumes "i < length (theHashTab m)"
  shows "formatCollisionArea i m = Inr (m\<lparr>theHashTab := format_tab i (theHashTab m)\<rparr>)"
proof -
  let ?t = "theHashTab m" and ?n = "length (theHashTab m)"
  let ?l = "linkEntries i (?n - 1 - i) ?t"
  have l: "length ?l = ?n" "?l ! k = (if i \<le> k \<and> k < ?n - 1 then (?t ! k)\<lparr>theNext := 1\<rparr> else ?t ! k)" for k
    using linkEntries_nth [of i "?n - 1 - i" ?t k] assms by auto
  have "?l[?n - 1 := (?l ! (?n - 1))\<lparr>theNext := 0\<rparr>] = format_tab i ?t"
  proof (rule nth_equalityI)
    fix k assume "k < length (?l[?n - 1 := (?l ! (?n - 1))\<lparr>theNext := 0\<rparr>])"
    then have "k < ?n" using l by simp
    then show "?l[?n - 1 := (?l ! (?n - 1))\<lparr>theNext := 0\<rparr>] ! k = format_tab i ?t ! k"
      using l assms by (cases "k = ?n - 1") (auto simp: format_tab_def nth_list_update)
  qed (use l in simp)
  then show ?thesis using assms by (auto simp: formatCollisionArea_def Let_def)
qed

lemma format_chain:
  assumes "i \<le> k" "k < length tab" shows "chain (format_tab i tab) k [Suc k..<length tab]"
  using assms
proof (induction "length tab - k" arbitrary: k)
  case (Suc n)
  show ?case
  proof (cases "Suc k = length tab")
    case True
    with Suc show ?thesis by simp
  next
    case False
    then have "chain (format_tab i tab) (Suc k) [Suc (Suc k)..<length tab]" using Suc by (intro Suc(1)) auto
    with False Suc show ?thesis by (simp add: upt_rec [of "Suc k"])
  qed
qed simp

lemma table_ok_fresh:
  assumes "0 < nb" "nb < length tab" "\<forall>i < length tab. content (tab ! i) = None" "\<forall>i < nb. theNext (tab ! i) = 0"
  shows "table_ok (format_tab nb tab) nb ((\<lambda>_. [])(nb := [Suc nb..<length tab])) (\<lambda>_. [])"
proof (rule table_okI)
  fix b assume "b \<le> nb"
  then show "chain (format_tab nb tab) b (((\<lambda>_. [])(nb := [Suc nb..<length tab])) b)"
    using assms format_chain [of nb nb tab] by auto
next
  fix i assume "i \<in> set (nb # ((\<lambda>_. [])(nb := [Suc nb..<length tab])) nb)"
  then show "content (format_tab nb tab ! i) = None" using assms by auto
qed (use assms in \<open>auto\<close>)

lemma table_ok_extend:
  assumes ok: "table_ok tab nb js B" and fl: "js nb = []" and n: "0 < n"
  defines "tab' \<equiv> relink nb [length tab] (tab @ replicate n HashEntry)"
  shows "table_ok (format_tab (length tab) tab') nb (js(nb := [length tab..<length tab + n])) B"
proof -
  note D = table_okD [OF ok]
  let ?t = "format_tab (length tab) tab'"
  have len: "length tab' = length tab + n" by (simp add: tab'_def)
  have cont: "content (?t ! k) = (if k < length tab then content (tab ! k) else None)" if "k < length tab + n" for k
    using that len by (auto simp: tab'_def nth_append HashEntry_def)
  have nxt: "theNext (?t ! k) = theNext (tab ! k)" if "k < length tab" "k \<noteq> nb" for k
    using that len by (simp add: tab'_def nth_append)
  have area: "set (js c) \<subseteq> {nb<..<length tab}" if "c < nb" for c using table_ok_area [OF ok, of c] that by auto
  show ?thesis
  proof (rule table_okI)
    fix c assume c: "c \<le> nb"
    show "chain ?t c ((js(nb := [length tab..<length tab + n])) c)"
    proof (cases "c = nb")
      case True
      have "chain ?t (length tab) [Suc (length tab)..<length tab + n]"
        using format_chain [of "length tab" "length tab" tab'] len n by simp
      moreover have "theNext (?t ! nb) = int (length tab) - int nb"
        using D(2) len by (simp add: tab'_def relink_def next_of_def)
      ultimately show ?thesis using True D(2) n len by (simp add: upt_rec [of "length tab"])
    next
      case False
      then have "\<forall>k \<in> set (c # js c). k < length tab \<and> k \<noteq> nb" using c area [of c] D(2) by auto
      then have "\<forall>k \<in> set (c # js c). theNext (?t ! k) = theNext (tab ! k)" using nxt by blast
      with False D(3) [OF c] len show ?thesis by (simp add: chain_frame)
    qed
    show "distinct ((js(nb := [length tab..<length tab + n])) c)" using D(4) [of c] c by auto
  next
    fix c d assume "c < d" "d \<le> nb"
    then show "set ((js(nb := [length tab..<length tab + n])) c) \<inter> set ((js(nb := [length tab..<length tab + n])) d) = {}"
      using D(5) [of c d] area [of c] by (cases "d = nb") auto
  next
    have "(\<Union>c \<le> nb. set ((js(nb := [length tab..<length tab + n])) c)) = (\<Union>c \<le> nb. set (js c)) \<union> {length tab..<length tab + n}"
    proof -
      have "{..nb} = insert nb {..<nb}" by auto
      then show ?thesis using fl by (simp add: sup_commute)
    qed
    then show "(\<Union>c \<le> nb. set ((js(nb := [length tab..<length tab + n])) c)) = {nb<..<length ?t}"
      using D(2,6) len by auto
  next
    fix c assume "c < nb" "B c = []"
    then show "(js(nb := [length tab..<length tab + n])) c = [] \<and> content (?t ! c) = None"
      using D(7) [of c] D(2) cont by auto
  next
    fix c assume c: "c < nb" "B c \<noteq> []"
    then have "map (\<lambda>i. content (?t ! i)) (c # js c) = map (\<lambda>i. content (tab ! i)) (c # js c)"
      using area [of c] D(2) cont by (intro map_cong) auto
    moreover have "(js(nb := [length tab..<length tab + n])) c = js c" using c by simp
    ultimately show "map (\<lambda>i. content (?t ! i)) (c # (js(nb := [length tab..<length tab + n])) c) = map Some (B c)"
      using D(8) [OF c] by (simp only:)
  next
    fix k assume "k \<in> set (nb # (js(nb := [length tab..<length tab + n])) nb)"
    then show "content (?t ! k) = None" using D(2) D(9) [of nb] cont [of k] by auto
  qed (use D(1,2) len in simp_all)
qed

section \<open>Searching a bucket\<close>

text \<open>The position of the first pair of a list with a given key.\<close>

primrec first_pos :: "('k \<Rightarrow> 'k \<Rightarrow> bool) \<Rightarrow> ('k \<times> 'v) list \<Rightarrow> 'k \<Rightarrow> nat option" where
  "first_pos equal [] k = None"
| "first_pos equal (p # ps) k = (if equal (fst p) k then Some 0 else map_option Suc (first_pos equal ps k))"

lemma first_pos_Some: "first_pos equal ps k = Some n \<Longrightarrow> n < length ps \<and> equal (fst (ps ! n)) k"
  by (induction ps arbitrary: n) (auto split: if_splits)

lemma first_pos_None: "first_pos equal ps k = None \<longleftrightarrow> (\<forall>p \<in> set ps. \<not> equal (fst p) k)"
  by (induction ps) auto

lemma findEntry_chain:
  assumes "chain tab i js" "map (\<lambda>i. content (tab ! i)) (i # js) = map Some ps" "length js < n"
  shows "findEntry equal tab item n (Some i) = Inr (map_option (\<lambda>k. (i # js) ! k) (first_pos equal ps item))"
  using assms
proof (induction n arbitrary: i js ps)
  case (Suc n)
  then obtain k v ps' where ps: "ps = (k, v) # ps'" by (cases ps) auto
  have i: "i < length tab" using Suc.prems(1) by (cases js) auto
  show ?case
  proof (cases js)
    case Nil
    with Suc.prems ps i show ?thesis by (cases ps') (auto simp: getNext_def)
  next
    case (Cons j js')
    with Suc.prems have "findEntry equal tab item n (Some j) = Inr (map_option (\<lambda>k. (j # js') ! k) (first_pos equal ps' item))"
      using ps by (intro Suc.IH) auto
    with Cons Suc.prems ps i show ?thesis
      by (auto simp: chain_getNext [OF Suc.prems(1)] option.map_comp o_def)
  qed
qed simp

lemma findWithPrev_chain:
  assumes "chain tab i js" "map (\<lambda>i. content (tab ! i)) js = map Some ps" "length js \<le> n"
  shows "findWithPrev equal tab item n i (next_of js) =
    Inr (map_option (\<lambda>k. ((i # js) ! k, js ! k)) (first_pos equal ps item))"
  using assms
proof (induction n arbitrary: i js ps)
  case 0
  then show ?case by (cases ps) (auto simp: next_of_def)
next
  case (Suc n)
  show ?case
  proof (cases js)
    case Nil
    with Suc.prems show ?thesis by (simp add: next_of_def)
  next
    case (Cons j js')
    then obtain k v ps' where ps: "ps = (k, v) # ps'" using Suc.prems(2) by (cases ps) auto
    have j: "j < length tab" using Suc.prems(1) Cons chain_bound by fastforce
    have "findWithPrev equal tab item n j (next_of js')
      = Inr (map_option (\<lambda>k. ((j # js') ! k, js' ! k)) (first_pos equal ps' item))"
      using Suc.prems Cons ps by (intro Suc.IH) auto
    with Cons Suc.prems ps j show ?thesis
      by (auto simp: next_of_def getNext_chain [of tab j js', unfolded next_of_def] option.map_comp o_def)
  qed
qed

section \<open>Placing entries\<close>

definition all_pairs :: "nat \<Rightarrow> (nat \<Rightarrow> 'a list) \<Rightarrow> 'a list" where
  "all_pairs nb B = concat (map B [0..<nb])"

lemma mset_all_pairs: "mset (all_pairs nb B) = (\<Sum>b<nb. mset (B b))"
  by (induction nb) (simp_all add: all_pairs_def)

lemma set_all_pairs: "set (all_pairs nb B) = (\<Union>b<nb. set (B b))"
  by (auto simp: all_pairs_def)

lemma mset_all_pairs_upd:
  assumes "b < nb" shows "mset (all_pairs nb (B(b := ps))) + mset (B b) = mset (all_pairs nb B) + mset ps"
proof -
  have "{..<nb} = insert b ({..<nb} - {b})" using assms by auto
  then have split: "(\<Sum>c<nb. f c) = f b + (\<Sum>c \<in> {..<nb} - {b}. f c)" for f :: "nat \<Rightarrow> 'a multiset"
    by (metis Diff_iff finite_Diff finite_lessThan insertI1 sum.insert)
  have "(\<Sum>c \<in> {..<nb} - {b}. mset ((B(b := ps)) c)) = (\<Sum>c \<in> {..<nb} - {b}. mset (B c))" by (rule sum.cong) auto
  then show ?thesis
    unfolding mset_all_pairs split [of "\<lambda>c. mset ((B(b := ps)) c)"] split [of "\<lambda>c. mset (B c)"] by simp
qed

text \<open>A new pair goes behind the head of its bucket.\<close>

definition place :: "nat \<Rightarrow> 'a \<Rightarrow> (nat \<Rightarrow> 'a list) \<Rightarrow> nat \<Rightarrow> 'a list" where
  "place b p B = B(b := (case B b of [] \<Rightarrow> [p] | q # qs \<Rightarrow> q # p # qs))"

lemma mset_place: "b < nb \<Longrightarrow> mset (all_pairs nb (place b p B)) = add_mset p (mset (all_pairs nb B))"
  using mset_all_pairs_upd [of b nb B "case B b of [] \<Rightarrow> [p] | q # qs \<Rightarrow> q # p # qs"]
  by (cases "B b") (simp_all add: place_def)

lemma set_place: "set (place b p B c) = (if c = b then insert p (set (B b)) else set (B c))"
  by (auto simp: place_def split: list.splits)

section \<open>Operations on the table\<close>

lemma modEntry_in [simp]:
  "i < length (theHashTab m) \<Longrightarrow> modEntry i f m = Inr (m\<lparr>theHashTab := (theHashTab m)[i := f (theHashTab m ! i)]\<rparr>)"
  by (simp add: modEntry_def)

lemma rd_table_ok: "table_ok tab nb js B \<Longrightarrow> b \<le> nb \<Longrightarrow> rd tab b = Inr (tab ! b)"
  by (simp add: table_okD(2) [THEN order_le_less_trans [rotated]])

lemma extendCollisionArea_ok:
  assumes ok: "table_ok (theHashTab m) nb js B" and nb: "theNumBuckets m = nb" and fl: "js nb = []"
  shows "\<exists>tab' e fl'. extendCollisionArea m = Inr (m\<lparr>theHashTab := tab'\<rparr>)
    \<and> table_ok tab' nb (js(nb := e # fl')) B"
proof -
  let ?tab = "theHashTab m"
  let ?n = "length ?tab - nb"
  let ?tab1 = "relink nb [length ?tab] (?tab @ replicate ?n HashEntry)"
  have D: "0 < nb" "nb < length ?tab" using table_okD [OF ok] by auto
  have new: "nb + 2 * ?n = length ?tab + ?n" "nb + 2 * ?n - length ?tab = ?n" using D by auto
  have "extendCollisionArea m = formatCollisionArea (length ?tab) (m\<lparr>theHashTab := ?tab1\<rparr>)"
  proof -
    have pos: "\<not> length ?tab + ?n \<le> length ?tab" using D by linarith
    show ?thesis unfolding extendCollisionArea_def Let_def nb new if_not_P [OF pos] using D nb
      by (simp add: relink_def next_of_def)
  qed
  then have "extendCollisionArea m = Inr (m\<lparr>theHashTab := format_tab (length ?tab) ?tab1\<rparr>)"
    using D by (simp add: formatCollisionArea_eq)
  moreover have "table_ok (format_tab (length ?tab) ?tab1) nb (js(nb := [length ?tab..<length ?tab + ?n])) B"
    using table_ok_extend [OF ok fl, of ?n] D by simp
  moreover have "[length ?tab..<length ?tab + ?n] = length ?tab # [Suc (length ?tab)..<length ?tab + ?n]"
    using D by (simp add: upt_rec)
  ultimately show ?thesis by (intro exI [of _ "format_tab (length ?tab) ?tab1"] exI) auto
qed

lemma takeFree_ok:
  assumes ok: "table_ok (theHashTab m) nb js B" and nb: "theNumBuckets m = nb" and b: "b < nb" "B b \<noteq> []"
    and fl: "js nb = e # fl"
  shows "\<exists>tab' js'. takeFree b m = Inr (e, m\<lparr>theHashTab := tab'\<rparr>) \<and> e < length tab'
    \<and> (\<forall>p. table_ok (set_content e (Some p) tab') nb js' (place b p B))"
proof -
  let ?t = "theHashTab m"
  note D = table_okD [OF ok]
  note T = table_ok_take [OF ok b fl]
  let ?t' = "relink b (e # js b) (relink e (js b) (relink nb fl ?t))"
  have lens: "nb < length ?t" "e < length ?t" "b < length ?t" "nb < e" "b \<noteq> e" "b \<noteq> nb" "e \<noteq> nb"
    using D(2) T(3,4) b by auto
  have n1: "getNext nb (?t ! nb) = Some e" using D(3) [of nb] fl getNext_chain [of ?t nb "js nb"] by (simp add: next_of_def)
  have n2: "getNext e (?t ! e) = next_of fl" using D(3) [of nb] fl by (simp add: getNext_chain)
  have n3: "getNext b (?t ! b) = next_of (js b)" using D(3) [of b] b by (simp add: getNext_chain)
  have r1: "?t[nb := setNext nb (next_of fl) (?t ! nb)] = relink nb fl ?t" by (simp add: relink_def)
  have r2: "(relink nb fl ?t)[e := setNext e (next_of (js b)) (?t ! e)] = relink e (js b) (relink nb fl ?t)"
    using lens by (simp add: relink_def)
  have r3: "(relink e (js b) (relink nb fl ?t))[b := setNext b (Some e) (?t ! b)] = ?t'"
    using lens by (simp add: relink_def next_of_def)
  have pl: "place b p B = B(b := hd (B b) # p # tl (B b))" for p using b(2) by (cases "B b") (simp_all add: place_def)
  show ?thesis unfolding takeFree_def
    by (rule exI [of _ ?t'], rule exI [of _ "js(nb := fl, b := e # js b)"])
      (use lens T(1) n1 in \<open>simp add: nb n2 n3 r1 r2 r3 pl\<close>)
qed

lemma linkFree_ok:
  assumes ok: "table_ok (theHashTab m) nb js B" and nb: "theNumBuckets m = nb" and b: "b < nb" "B b \<noteq> []"
  shows "\<exists>e tab' js'. linkFree b m = Inr (e, m\<lparr>theHashTab := tab'\<rparr>) \<and> e < length tab'
    \<and> (\<forall>p. table_ok (set_content e (Some p) tab') nb js' (place b p B))"
proof -
  note D = table_okD [OF ok]
  have rdnb: "rd (theHashTab m) nb = Inr (theHashTab m ! nb)" using D(2) by simp
  have next_nb: "getNext nb (theHashTab m ! nb) = next_of (js nb)" using getNext_chain [OF D(3) [of nb]] by simp
  show ?thesis
  proof (cases "js nb")
    case Nil
    obtain tab' e fl where ext: "extendCollisionArea m = Inr (m\<lparr>theHashTab := tab'\<rparr>)" "table_ok tab' nb (js(nb := e # fl)) B"
      using extendCollisionArea_ok [OF ok nb Nil] by blast
    have "linkFree b m = takeFree b (m\<lparr>theHashTab := tab'\<rparr>)"
      using Nil next_nb rdnb by (simp add: linkFree_def nb next_of_def ext(1))
    with takeFree_ok [of "m\<lparr>theHashTab := tab'\<rparr>" nb "js(nb := e # fl)" B b e fl] ext(2) nb b
    show ?thesis by auto
  next
    case (Cons e fl)
    then have "linkFree b m = takeFree b m" using next_nb rdnb by (simp add: linkFree_def nb next_of_def)
    with takeFree_ok [OF ok nb b Cons] show ?thesis by auto
  qed
qed

lemma rehashEntry_ok:
  assumes ok: "table_ok (theHashTab m) nb js B" and nb: "theNumBuckets m = nb"
    and c: "content e = Some (k, v)" and b: "b = hash_fn (theCompareFunction m) k mod nb"
  shows "\<exists>tab' js'. rehashEntry e m = Inr (m\<lparr>theHashTab := tab'\<rparr>) \<and> table_ok tab' nb js' (place b (k, v) B)"
proof -
  note D = table_okD [OF ok]
  have "b < nb" using D(1) b by simp
  then have b': "b < nb" "b < length (theHashTab m)" using D(2) by simp_all
  have set: "(tab[i := (unsetFree p (tab ! i))\<lparr>content := Some (k, v)\<rparr>]) = set_content i (Some (k, v)) tab" for tab i p
    by (simp add: set_content_def unsetFree_def)
  have bk: "bucket m (hash_fn (theCompareFunction m) k) = Inr b" using nb D(1) b by (simp add: bucket_def)
  show ?thesis
  proof (cases "B b = []")
    case True
    then have "isFree (theHashTab m ! b)" using D(7) [OF b'(1)] by (simp add: isFree_def)
    then have "rehashEntry e m = Inr (m\<lparr>theHashTab := set_content b (Some (k, v)) (theHashTab m)\<rparr>)"
      using b' c bk set by (simp add: rehashEntry_def)
    moreover have "table_ok (set_content b (Some (k, v)) (theHashTab m)) nb js (place b (k, v) B)"
      using table_ok_head [OF ok b'(1) True] True by (simp add: place_def)
    ultimately show ?thesis by blast
  next
    case False
    then have "\<not> isFree (theHashTab m ! b)" using D(8) [OF b'(1)] by (cases "B b") (auto simp: isFree_def)
    moreover obtain i tab' js' where l: "linkFree b m = Inr (i, m\<lparr>theHashTab := tab'\<rparr>)" "i < length tab'"
      "\<forall>p. table_ok (set_content i (Some p) tab') nb js' (place b p B)"
      using linkFree_ok [OF ok nb b'(1) False] by blast
    ultimately have "rehashEntry e m = Inr (m\<lparr>theHashTab := set_content i (Some (k, v)) tab'\<rparr>)"
      using b' c bk set by (simp add: rehashEntry_def)
    with l(3) show ?thesis by blast
  qed
qed

text \<open>The pairs of a table, in the order of the entries.\<close>

definition pairs_of :: "('k, 'v) hash_entry list \<Rightarrow> ('k \<times> 'v) list" where
  "pairs_of tab = List.map_filter content tab"

lemma pairs_of_simps [simp]:
  "pairs_of [] = []" "pairs_of (e # tab) = (case content e of None \<Rightarrow> pairs_of tab | Some p \<Rightarrow> p # pairs_of tab)"
  by (simp_all add: pairs_of_def map_filter_simps split: option.split)

lemma rehashFrom_ok:
  assumes "table_ok (theHashTab m) nb js B" "theNumBuckets m = nb"
  shows "\<exists>tab' js'. rehashFrom old m = Inr (m\<lparr>theHashTab := tab'\<rparr>)
    \<and> table_ok tab' nb js' (fold (\<lambda>p. place (hash_fn (theCompareFunction m) (fst p) mod nb) p) (pairs_of old) B)"
  using assms
proof (induction old arbitrary: m js B)
  case Nil
  then show ?case by (intro exI [of _ "theHashTab m"] exI [of _ js]) simp
next
  case (Cons e old)
  show ?case
  proof (cases "content e")
    case None
    with Cons show ?thesis by (simp add: rehashEntry_def)
  next
    case (Some p)
    obtain k v where p: "p = (k, v)" by (cases p)
    from rehashEntry_ok [OF Cons.prems(1,2), of e k v] Some p obtain tab1 js1 where
      1: "rehashEntry e m = Inr (m\<lparr>theHashTab := tab1\<rparr>)"
        "table_ok tab1 nb js1 (place (hash_fn (theCompareFunction m) k mod nb) (k, v) B)" by auto
    from Cons.IH [of "m\<lparr>theHashTab := tab1\<rparr>" js1] 1(2) Cons.prems(2) show ?thesis using 1(1) Some p by simp
  qed
qed

section \<open>The pairs in a table\<close>

definition opt_mset :: "'a option \<Rightarrow> 'a multiset" where
  "opt_mset c = (case c of None \<Rightarrow> {#} | Some p \<Rightarrow> {#p#})"

lemma opt_mset_simps [simp]: "opt_mset None = {#}" "opt_mset (Some p) = {#p#}"
  by (simp_all add: opt_mset_def)

lemma pairs_of_append [simp]: "pairs_of (xs @ ys) = pairs_of xs @ pairs_of ys"
  by (induction xs) (auto split: option.split)

lemma mset_pairs_of: "mset (pairs_of tab) = (\<Sum>i<length tab. opt_mset (content (tab ! i)))"
proof (induction tab rule: rev_induct)
  case (snoc e tab)
  have "(\<Sum>i<length tab. opt_mset (content ((tab @ [e]) ! i))) = (\<Sum>i<length tab. opt_mset (content (tab ! i)))"
    by (rule sum.cong) (auto simp: nth_append)
  with snoc show ?case by (simp split: option.split)
qed simp

lemma sum_list_opt: "map f xs = map Some ps \<Longrightarrow> sum_list (map (\<lambda>i. opt_mset (f i)) xs) = mset ps"
proof (induction xs arbitrary: ps)
  case (Cons x xs)
  then show ?case by (cases ps) auto
qed simp

lemma pairs_of_table:
  assumes ok: "table_ok tab nb js B" shows "mset (pairs_of tab) = mset (all_pairs nb B)"
proof -
  note D = table_okD [OF ok]
  let ?f = "\<lambda>i. opt_mset (content (tab ! i))"
  have area: "sum ?f {nb<..<length tab} = (\<Sum>b \<le> nb. sum ?f (set (js b)))"
    unfolding D(6) [symmetric] using D(5) by (intro sum.UNION_disjoint) auto
  have bucket: "?f b + sum ?f (set (js b)) = mset (B b)" if "b < nb" for b
  proof (cases "B b = []")
    case True
    with D(7) [OF that] show ?thesis by simp
  next
    case False
    have "sum ?f (set (js b)) = sum_list (map ?f (js b))" using D(4) [of b] that by (simp add: sum_list_distinct_conv_sum_set)
    then show ?thesis using sum_list_opt [OF D(8) [OF that False]] by simp
  qed
  have free: "?f nb = {#}" "sum ?f (set (js nb)) = {#}" using D(9) by (auto intro!: sum.neutral)
  have "{..<length tab} = {..<nb} \<union> ({nb} \<union> {nb<..<length tab})" using D(2) by auto
  moreover have "sum ?f ({..<nb} \<union> {nb<..<length tab}) = sum ?f {..<nb} + sum ?f {nb<..<length tab}"
    by (rule sum.union_disjoint) auto
  ultimately have "sum ?f {..<length tab} = sum ?f {..<nb} + (?f nb + sum ?f {nb<..<length tab})"
    by simp
  also have "sum ?f {nb<..<length tab} = (\<Sum>b<nb. sum ?f (set (js b)))"
    unfolding area using free(2) by (simp add: lessThan_Suc_atMost [symmetric])
  also have "sum ?f {..<nb} + (?f nb + (\<Sum>b<nb. sum ?f (set (js b)))) = (\<Sum>b<nb. mset (B b))"
    using bucket free(1) by (simp add: sum.distrib [symmetric])
  finally show ?thesis by (simp add: mset_pairs_of mset_all_pairs)
qed

lemma pushFree_ok:
  assumes "e < length (theHashTab m)" "theNumBuckets m < length (theHashTab m)" "e \<noteq> theNumBuckets m"
    and "chain (theHashTab m) (theNumBuckets m) fl"
  shows "pushFree e m = Inr (m\<lparr>theHashTab := relink (theNumBuckets m) (e # fl) (relink e fl (set_content e None (theHashTab m)))\<rparr>)"
proof -
  let ?t = "theHashTab m" and ?nb = "theNumBuckets m"
  have "?t[e := setNext e (next_of fl) (setFree (?t ! e))] = relink e fl (set_content e None ?t)"
    using assms(1) by (cases "?t ! e") (simp add: relink_def set_content_def setFree_def setNext_def)
  moreover have "getNext ?nb (?t ! ?nb) = next_of fl" using assms(4) by (rule getNext_chain)
  ultimately show ?thesis using assms(1-3) by (simp add: pushFree_def relink_def [of ?nb] next_of_def [of "e # fl"])
qed

text \<open>Taking the \<open>n\<close>-th pair out of a bucket.\<close>

text \<open>The head of a bucket: the next entry moves into its place.\<close>

lemma erase_head:
  assumes ok: "table_ok (theHashTab m) (theNumBuckets m) js B" and b: "b < theNumBuckets m" and jb: "js b = e # es" and B: "B b = p # q # ps"
  shows "\<exists>tab' js'. eraseEntry b None m = shrinkHashTab (m\<lparr>theHashTab := tab', theNumEntries := theNumEntries m - 1\<rparr>)
    \<and> table_ok tab' (theNumBuckets m) js' (B(b := q # ps))"
proof -
  let ?t = "theHashTab m" and ?nb = "theNumBuckets m"
  note D = table_okD [OF ok]
  have ch: "chain ?t b (e # es)" "chain ?t ?nb (js ?nb)" and bl: "b < length ?t" using D(2) D(3) [of b] D(3) [of ?nb] b jb by auto
  have e: "?nb < e" "e < length ?t" "e \<noteq> b" using table_ok_area [OF ok, of b e] jb b by auto
  have cont: "content (?t ! e) = Some q" using D(8) [OF b] B jb by simp
  let ?t1 = "set_content b (Some q) ?t"
  let ?t2 = "relink b es ?t1"
  have ok1: "table_ok ?t1 ?nb js (B(b := q # q # ps))" using table_ok_value(1) [OF ok b, of 0 b q] B by simp
  have "chain ?t2 ?nb (js ?nb)" using ch(2) b table_ok_area [OF ok, of ?nb b] by (intro chain_relink_other) auto
  then have push: "pushFree e (m\<lparr>theHashTab := ?t2\<rparr>) = Inr (m\<lparr>theHashTab := relink ?nb (e # js ?nb) (relink e (js ?nb) (set_content e None ?t2))\<rparr>)"
    using e D(2) pushFree_ok [of e "m\<lparr>theHashTab := ?t2\<rparr>" "js ?nb"] by simp
  have "getNext b (?t ! b) = Some e" "getNext e (?t ! e) = next_of es"
    using ch(1) by (auto simp: getNext_chain [of ?t b "e # es"] getNext_chain [of ?t e es] next_of_def)
  moreover have "?t[b := setNext b (next_of es) ((?t ! b)\<lparr>content := Some q\<rparr>)] = ?t2" using bl by (simp add: relink_def set_content_def)
  ultimately have "eraseEntry b None m = shrinkHashTab (m\<lparr>theHashTab := relink ?nb (e # js ?nb) (relink e (js ?nb) (set_content e None ?t2)), theNumEntries := theNumEntries m - 1\<rparr>)"
    using bl e cont push by (simp add: eraseEntry_def)
  moreover have "table_ok (relink ?nb (e # js ?nb) (relink e (js ?nb) (set_content e None ?t2))) ?nb (js(b := [] @ es, ?nb := e # js ?nb)) (B(b := q # ps))"
    using table_ok_drop [OF ok1 b, of "[]" e es] jb by simp
  ultimately show ?thesis by auto
qed

text \<open>Another entry: its predecessor is linked past it.\<close>

lemma erase_inner:
  assumes ok: "table_ok (theHashTab m) (theNumBuckets m) js B" and b: "b < theNumBuckets m" "B b \<noteq> []" and jb: "js b = xs @ e # ys"
  shows "\<exists>tab' js'. eraseEntry e (Some (last (b # xs))) m = shrinkHashTab (m\<lparr>theHashTab := tab', theNumEntries := theNumEntries m - 1\<rparr>)
    \<and> table_ok tab' (theNumBuckets m) js' (B(b := take (Suc (length xs)) (B b) @ drop (Suc (Suc (length xs))) (B b)))"
proof -
  let ?t = "theHashTab m" and ?nb = "theNumBuckets m" and ?p = "last (b # xs)"
  note D = table_okD [OF ok]
  have ch: "chain ?t b (xs @ e # ys)" "chain ?t ?nb (js ?nb)" using D(3) [of b] D(3) [of ?nb] b jb by auto
  have area: "?nb < i \<and> i < length ?t" if "i \<in> set (js b)" for i using table_ok_area [OF ok, of b i] that b by simp
  have e: "?nb < e" "e < length ?t" using area [of e] jb by auto
  let ?t2 = "relink ?p ys ?t"
  have pin: "?p \<in> set (b # xs)" by (rule last_in_set) simp
  have "x < length ?t \<and> x \<noteq> ?nb \<and> x \<notin> set (js ?nb)" if "x \<in> set (b # xs)" for x
    using that b D(2) area [of x] jb D(5) [of b ?nb] table_ok_area [OF ok, of ?nb b] by auto
  from this [OF pin] have pl: "?p < length ?t" "?p \<noteq> ?nb" "?p \<notin> set (js ?nb)" by blast+
  then have "chain ?t2 ?nb (js ?nb)" using ch(2) pl by (intro chain_relink_other) auto
  then have push: "pushFree e (m\<lparr>theHashTab := ?t2\<rparr>) = Inr (m\<lparr>theHashTab := relink ?nb (e # js ?nb) (relink e (js ?nb) (set_content e None ?t2))\<rparr>)"
    using e D(2) pushFree_ok [of e "m\<lparr>theHashTab := ?t2\<rparr>" "js ?nb"] by simp
  have "getNext e (?t ! e) = next_of ys" using chain_split [OF ch(1)] by (simp add: getNext_chain)
  then have "eraseEntry e (Some ?p) m = shrinkHashTab (m\<lparr>theHashTab := relink ?nb (e # js ?nb) (relink e (js ?nb) (set_content e None ?t2)), theNumEntries := theNumEntries m - 1\<rparr>)"
    using e pl push by (simp add: eraseEntry_def relink_def [of ?p] del: last.simps)
  then show ?thesis using table_ok_drop [OF ok b jb] by blast
qed

lemma table_erase:
  assumes ok: "table_ok (theHashTab m) (theNumBuckets m) js B" and b: "b < theNumBuckets m" "n < length (B b)"
  shows "\<exists>tab' js'. eraseEntry ((b # js b) ! n) (if n = 0 then None else Some ((b # js b) ! (n - 1))) m
      = shrinkHashTab (m\<lparr>theHashTab := tab', theNumEntries := theNumEntries m - 1\<rparr>)
    \<and> table_ok tab' (theNumBuckets m) js' (B(b := take n (B b) @ drop (Suc n) (B b)))"
proof -
  let ?t = "theHashTab m"
  note D = table_okD [OF ok]
  have ne: "B b \<noteq> []" using b by auto
  have len: "length (B b) = Suc (length (js b))" using arg_cong [OF D(8) [OF b(1) ne], of length] by simp
  consider "n = 0" "js b = []" | e es where "n = 0" "js b = e # es" | k where "n = Suc k" by (cases n; cases "js b") auto
  then show ?thesis
  proof cases
    case 1
    then obtain p where "B b = [p]" using len by (cases "B b") auto
    moreover have "b < length ?t" "getNext b (?t ! b) = None" using getNext_chain [of ?t b "js b"] D(2) D(3) [of b] b 1 by (auto simp: next_of_def)
    ultimately show ?thesis using 1 table_ok_single [OF ok b(1)] by (intro exI [of _ "?t[b := setFree (?t ! b)]"] exI [of _ js]) (simp add: eraseEntry_def)
  next
    case 2
    then obtain p q ps where "B b = p # q # ps" using len by (cases "B b"; cases "tl (B b)") auto
    then show ?thesis using erase_head [OF ok b(1) 2(2)] 2(1) by simp
  next
    case 3
    then have k: "k < length (js b)" using b len by simp
    then have jb: "js b = take k (js b) @ js b ! k # drop (Suc k) (js b)" by (simp add: id_take_nth_drop)
    have "last (b # take k (js b)) = (b # js b) ! k" using k by (cases k) (auto simp: nth_append last_conv_nth)
    then show ?thesis using erase_inner [OF ok b(1) ne jb] 3 k by (simp del: last.simps)
  qed
qed

end
