(* ===== verification/HashMap_Refine.thy ===== *)
theory HashMap_Refine
  imports HashMap_Table
begin

text \<open>
  The hash map implements a finite map whose keys are identified by the comparator: the abstraction of a
  table, the laws of comparators as a locale, one lemma per operation, and the properties.
\<close>

section \<open>Association lists up to a key equality\<close>

locale compare_laws =
  fixes C :: "'k compare_fun"
  assumes equal_refl: "equal_fn C k k"
    and equal_sym: "equal_fn C k l \<Longrightarrow> equal_fn C l k"
    and equal_trans: "equal_fn C k l \<Longrightarrow> equal_fn C l q \<Longrightarrow> equal_fn C k q"
    and equal_hash: "equal_fn C k l \<Longrightarrow> hash_fn C k = hash_fn C l"

definition keys_differ :: "('k \<Rightarrow> 'k \<Rightarrow> bool) \<Rightarrow> ('k \<times> 'v) list \<Rightarrow> bool" where
  "keys_differ equal ps \<longleftrightarrow> sorted_wrt (\<lambda>p q. \<not> equal (fst p) (fst q)) ps"

definition assoc :: "('k \<Rightarrow> 'k \<Rightarrow> bool) \<Rightarrow> ('k \<times> 'v) list \<Rightarrow> 'k \<Rightarrow> 'v option" where
  "assoc equal ps k = map_option snd (find (\<lambda>p. equal (fst p) k) ps)"

lemma assoc_simps [simp]:
  "assoc equal [] k = None"
  "assoc equal (p # ps) k = (if equal (fst p) k then Some (snd p) else assoc equal ps k)"
  by (simp_all add: assoc_def)

lemma assoc_None: "assoc equal ps k = None \<longleftrightarrow> (\<forall>p \<in> set ps. \<not> equal (fst p) k)"
  by (induction ps) auto

lemma assoc_first_pos: "assoc equal ps k = map_option (\<lambda>n. snd (ps ! n)) (first_pos equal ps k)"
  by (induction ps) (auto simp: option.map_comp o_def)

context compare_laws
begin

lemma equal_class: "equal_fn C k l \<longleftrightarrow> {q. equal_fn C k q} = {q. equal_fn C l q}"
  using equal_refl equal_sym equal_trans by blast

lemma keys_differ_distinct: "keys_differ (equal_fn C) ps \<longleftrightarrow> distinct (map (\<lambda>p. {q. equal_fn C (fst p) q}) ps)"
proof (induction ps)
  case (Cons p ps)
  have "{q. equal_fn C (fst p) q} \<in> (\<lambda>p. {q. equal_fn C (fst p) q}) ` set ps \<longleftrightarrow> (\<exists>q \<in> set ps. equal_fn C (fst p) (fst q))"
    using equal_class by blast
  with Cons show ?case by (auto simp: keys_differ_def)
qed (simp add: keys_differ_def)

lemma keys_differ_perm:
  assumes "mset ps = mset qs" shows "keys_differ (equal_fn C) ps \<longleftrightarrow> keys_differ (equal_fn C) qs"
  unfolding keys_differ_distinct using assms by (intro mset_eq_imp_distinct_iff) simp

lemma assoc_Some:
  assumes "keys_differ (equal_fn C) ps" "p \<in> set ps" "equal_fn C (fst p) k"
  shows "assoc (equal_fn C) ps k = Some (snd p)"
  using assms
proof (induction ps)
  case (Cons q ps)
  show ?case
  proof (cases "p = q")
    case False
    then have "p \<in> set ps" "\<not> equal_fn C (fst q) (fst p)" using Cons.prems by (auto simp: keys_differ_def)
    moreover from this have "\<not> equal_fn C (fst q) k" using Cons.prems(3) equal_sym equal_trans by blast
    ultimately show ?thesis using Cons by (simp add: keys_differ_def)
  qed (use Cons.prems in simp)
qed simp

lemma assoc_perm:
  assumes "mset ps = mset qs" "keys_differ (equal_fn C) ps"
  shows "assoc (equal_fn C) qs k = assoc (equal_fn C) ps k"
proof (cases "assoc (equal_fn C) ps k")
  case None
  moreover from this have "assoc (equal_fn C) qs k = None"
    using mset_eq_setD [OF assms(1)] by (simp add: assoc_None)
  ultimately show ?thesis by simp
next
  case (Some v)
  then obtain p where p: "p \<in> set ps" "equal_fn C (fst p) k" by (metis assoc_None option.distinct(1))
  then have "assoc (equal_fn C) qs k = Some (snd p)" "assoc (equal_fn C) ps k = Some (snd p)"
    using assoc_Some keys_differ_perm [OF assms(1)] assms mset_eq_setD [OF assms(1)] by metis+
  then show ?thesis by simp
qed

end

section \<open>The maximal load\<close>

lemma bit_len_le: "0 < m \<Longrightarrow> 2 ^ (bit_len m - 1) \<le> m"
proof (induction m rule: bit_len.induct)
  case (1 m)
  show ?case
  proof (cases "m = 1")
    case True
    then show ?thesis by (simp add: bit_len.simps [of "Suc 0"] bit_len.simps [of 0])
  next
    case False
    then have pos: "0 < m div 2" using 1(2) by auto
    then have "bit_len m - 1 = Suc (bit_len (m div 2) - 1)" using 1(2) by (simp add: bit_len.simps [of m] bit_len.simps [of "m div 2"])
    moreover have "2 ^ (bit_len (m div 2) - 1) \<le> m div 2" using 1 pos by simp
    ultimately show ?thesis by simp
  qed
qed

lemma double_round_ge: "m \<le> 2 * double_round m"
proof (cases "m = 0")
  case False
  define k where "k = bit_len m - 53"
  have "(2 :: nat) ^ k \<le> 2 ^ (bit_len m - 1)" by (rule power_increasing) (auto simp: k_def)
  also have "\<dots> \<le> m" using bit_len_le [of m] False by simp
  finally have "2 ^ k \<le> m" .
  then have q: "1 \<le> m div 2 ^ k" by (simp add: Suc_le_eq div_greater_zero_iff)
  have "m < (m div 2 ^ k + 1) * 2 ^ k" using dividend_less_div_times [of "2 ^ k" m] by (simp add: algebra_simps)
  also have "\<dots> \<le> 2 * (m div 2 ^ k * 2 ^ k)" using q by (simp add: algebra_simps)
  finally have "m \<le> 2 * (m div 2 ^ k * 2 ^ k)" by simp
  moreover have "m div 2 ^ k * 2 ^ k \<le> double_round m" by (simp add: double_round_def k_def Let_def)
  ultimately show ?thesis by linarith
qed simp

lemma load_reached:
  assumes "0 < nb" shows "n * 2 ^ 53 \<le> maxLoad (nb * 2 ^ (n + 2))"
proof -
  let ?x = "nb * 2 ^ (n + 2) * DEFAULT_LOAD_FACTOR"
  have "n * 2 ^ 54 \<le> 2 ^ n * 2 ^ 54" using less_exp [of n] by simp
  also have "\<dots> = 1 * 2 ^ (n + 2) * 2 ^ 52" by (simp add: power_add)
  also have "\<dots> \<le> nb * 2 ^ (n + 2) * 2 ^ 52" using assms by (intro mult_le_mono) auto
  also have "\<dots> \<le> ?x" by (intro mult_le_mono) (simp_all add: DEFAULT_LOAD_FACTOR_def)
  also have "\<dots> \<le> 2 * maxLoad (nb * 2 ^ (n + 2))" using double_round_ge [of ?x] by (simp add: maxLoad_def)
  finally show ?thesis by simp
qed

section \<open>The representation of a map\<close>

definition map_rep :: "'k compare_fun \<Rightarrow> ('k, 'v) hash_map \<Rightarrow> (nat \<Rightarrow> nat list) \<Rightarrow> (nat \<Rightarrow> ('k \<times> 'v) list) \<Rightarrow> bool" where
  "map_rep C m js B \<longleftrightarrow> theCompareFunction m = C \<and> table_ok (theHashTab m) (theNumBuckets m) js B
    \<and> (\<forall>b < theNumBuckets m. \<forall>p \<in> set (B b). hash_fn C (fst p) mod theNumBuckets m = b)
    \<and> keys_differ (equal_fn C) (all_pairs (theNumBuckets m) B)
    \<and> theNumEntries m = length (all_pairs (theNumBuckets m) B) \<and> theMaxLoad m = maxLoad (theNumBuckets m)"

definition map_inv :: "'k compare_fun \<Rightarrow> ('k, 'v) hash_map \<Rightarrow> bool" where
  "map_inv C m \<longleftrightarrow> (\<exists>js B. map_rep C m js B)"

definition lookup :: "'k compare_fun \<Rightarrow> ('k, 'v) hash_map \<Rightarrow> 'k \<Rightarrow> 'v option" where
  "lookup C m k = assoc (equal_fn C) (pairs_of (theHashTab m)) k"

lemma map_repD:
  assumes "map_rep C m js B"
  shows "theCompareFunction m = C" "table_ok (theHashTab m) (theNumBuckets m) js B"
    "\<And>b p. b < theNumBuckets m \<Longrightarrow> p \<in> set (B b) \<Longrightarrow> hash_fn C (fst p) mod theNumBuckets m = b"
    "keys_differ (equal_fn C) (all_pairs (theNumBuckets m) B)"
    "theNumEntries m = length (all_pairs (theNumBuckets m) B)" "theMaxLoad m = maxLoad (theNumBuckets m)"
    "0 < theNumBuckets m"
  using assms table_okD(1) by (auto simp: map_rep_def)

lemma map_repI:
  assumes "theCompareFunction m = C" "theNumBuckets m = nb" "table_ok (theHashTab m) nb js B"
    and "\<forall>b < nb. \<forall>p \<in> set (B b). hash_fn C (fst p) mod nb = b" "keys_differ (equal_fn C) (all_pairs nb B)"
    and "theNumEntries m = length (all_pairs nb B)" "theMaxLoad m = maxLoad nb"
  shows "map_rep C m js B"
  unfolding map_rep_def using assms by blast

lemma fold_place:
  fixes h :: "'a \<Rightarrow> nat"
  assumes "\<forall>p \<in> set ps. h p < nb" "\<forall>b < nb. \<forall>p \<in> set (B b). h p = b"
  shows "mset (all_pairs nb (fold (\<lambda>p. place (h p) p) ps B)) = mset ps + mset (all_pairs nb B)
    \<and> (\<forall>b < nb. \<forall>p \<in> set (fold (\<lambda>p. place (h p) p) ps B b). h p = b)"
  using assms
proof (induction ps arbitrary: B)
  case (Cons p ps)
  have "\<forall>b < nb. \<forall>q \<in> set (place (h p) p B b). h q = b" using Cons.prems by (simp add: set_place)
  moreover have hp: "h p < nb" "\<forall>p \<in> set ps. h p < nb" using Cons.prems(1) by simp_all
  ultimately have IH: "mset (all_pairs nb (fold (\<lambda>p. place (h p) p) ps (place (h p) p B)))
      = mset ps + mset (all_pairs nb (place (h p) p B))
    \<and> (\<forall>b < nb. \<forall>q \<in> set (fold (\<lambda>p. place (h p) p) ps (place (h p) p B) b). h q = b)"
    by (intro Cons.IH)
  show ?case
  proof
    show "mset (all_pairs nb (fold (\<lambda>p. place (h p) p) (p # ps) B)) = mset (p # ps) + mset (all_pairs nb B)"
      using IH [THEN conjunct1] mset_place [OF hp(1), of p B] by simp
    show "\<forall>b < nb. \<forall>q \<in> set (fold (\<lambda>p. place (h p) p) (p # ps) B b). h q = b"
      using IH [THEN conjunct2] unfolding fold_simps .
  qed
qed simp

lemma all_pairs_Nil [simp]: "all_pairs nb (\<lambda>_. []) = []"
  by (simp add: all_pairs_def)

context compare_laws
begin

lemma rep_lookup:
  assumes "map_rep C m js B"
  shows "lookup C m k = assoc (equal_fn C) (all_pairs (theNumBuckets m) B) k"
    and "lookup C m k = assoc (equal_fn C) (B (hash_fn C k mod theNumBuckets m)) k"
proof -
  note R = map_repD [OF assms]
  let ?nb = "theNumBuckets m" and ?b = "hash_fn C k mod theNumBuckets m"
  have b: "?b < ?nb" using R(7) by simp
  show eq: "lookup C m k = assoc (equal_fn C) (all_pairs ?nb B) k"
    unfolding lookup_def using assoc_perm [OF pairs_of_table [OF R(2), symmetric] R(4)] .
  show "lookup C m k = assoc (equal_fn C) (B ?b) k"
  proof (cases "first_pos (equal_fn C) (B ?b) k")
    case None
    have "\<forall>p \<in> set (all_pairs ?nb B). \<not> equal_fn C (fst p) k"
    proof
      fix p assume "p \<in> set (all_pairs ?nb B)"
      then obtain c where c: "c < ?nb" "p \<in> set (B c)" by (auto simp: set_all_pairs)
      show "\<not> equal_fn C (fst p) k"
      proof
        assume e: "equal_fn C (fst p) k"
        then have "c = ?b" using R(3) [OF c] equal_hash by simp
        with None c e show False by (auto simp: first_pos_None)
      qed
    qed
    then show ?thesis using None by (simp add: eq assoc_first_pos [of _ "B ?b"] assoc_None)
  next
    case (Some n)
    have n: "n < length (B ?b)" "equal_fn C (fst (B ?b ! n)) k" using first_pos_Some [OF Some] by auto
    then have "B ?b ! n \<in> set (B ?b)" by simp
    then have "B ?b ! n \<in> set (all_pairs ?nb B)" using b unfolding set_all_pairs by blast
    then have "assoc (equal_fn C) (all_pairs ?nb B) k = Some (snd (B ?b ! n))" by (rule assoc_Some [OF R(4) _ n(2)])
    moreover have "assoc (equal_fn C) (B ?b) k = Some (snd (B ?b ! n))" by (simp only: assoc_first_pos Some option.map)
    ultimately show ?thesis by (simp only: eq)
  qed
qed

lemma rep_empty:
  assumes "map_rep C m js B" "theNumEntries m = 0" "b < theNumBuckets m" shows "B b = []"
  using map_repD(5) [OF assms(1)] assms(2,3) by (simp add: all_pairs_def)

lemma chain_length:
  assumes "table_ok tab nb js B" "b \<le> nb" shows "length (js b) < length tab"
proof -
  have "card (set (js b)) \<le> card {nb<..<length tab}"
    using table_ok_area [OF assms] by (intro card_mono) auto
  then show ?thesis using table_okD(2,4) [OF assms(1)] assms(2) by (simp add: distinct_card)
qed

text \<open>Searching the bucket of a key.\<close>

lemma rep_findEntry:
  assumes "map_rep C m js B" and b: "b = hash_fn C k mod theNumBuckets m"
  shows "bucket m (hash_fn C k) = Inr b" "b < theNumBuckets m" "b < length (theHashTab m)"
    and "isFree (theHashTab m ! b) \<longleftrightarrow> B b = []"
    and "B b \<noteq> [] \<Longrightarrow> findEntry (equal_fn C) (theHashTab m) k (length (theHashTab m)) (Some b)
      = Inr (map_option (\<lambda>n. (b # js b) ! n) (first_pos (equal_fn C) (B b) k))"
proof -
  note R = map_repD [OF assms(1)] and D = table_okD [OF map_repD(2) [OF assms(1)]]
  show "bucket m (hash_fn C k) = Inr b" using R(7) b by (simp add: bucket_def)
  show b': "b < theNumBuckets m" using R(7) b by simp
  then show "b < length (theHashTab m)" using D(2) by simp
  show "isFree (theHashTab m ! b) \<longleftrightarrow> B b = []"
    using D(7) [OF b'] D(8) [OF b'] by (cases "B b") (auto simp: isFree_def)
  assume "B b \<noteq> []"
  then show "findEntry (equal_fn C) (theHashTab m) k (length (theHashTab m)) (Some b)
      = Inr (map_option (\<lambda>n. (b # js b) ! n) (first_pos (equal_fn C) (B b) k))"
    using D(3) [of b] D(8) [OF b'] b' chain_length [OF R(2), of b] by (intro findEntry_chain) auto
qed

lemma rep_lookupEntry:
  assumes "map_rep C m js B" and b: "b = hash_fn C k mod theNumBuckets m"
  shows "lookupEntry k m = Inr (map_option (\<lambda>n. (b # js b) ! n) (first_pos (equal_fn C) (B b) k))"
proof (cases "B b = []")
  case True
  then show ?thesis using rep_findEntry [OF assms] map_repD(1) [OF assms(1)] by (simp add: lookupEntry_def)
next
  case False
  then have "theNumEntries m \<noteq> 0" using rep_empty [OF assms(1)] rep_findEntry(2) [OF assms] by blast
  with False show ?thesis
    using rep_findEntry [OF assms] map_repD(1) [OF assms(1)] by (simp add: lookupEntry_def empty_map_def)
qed

lemma rep_entryPair:
  assumes "map_rep C m js B" "b < theNumBuckets m" "n < length (B b)"
  shows "entryPair m ((b # js b) ! n) = Inr (B b ! n)"
  using table_ok_value(2,3) [OF map_repD(2) [OF assms(1)] assms(2,3) refl] by (simp add: entryPair_def)

lemma get_lookup:
  assumes "map_rep C m js B" shows "get k m = Inr (lookup C m k)"
proof -
  let ?b = "hash_fn C k mod theNumBuckets m"
  show ?thesis
  proof (cases "first_pos (equal_fn C) (B ?b) k")
    case None
    then show ?thesis
      by (simp only: get_def rep_lookupEntry [OF assms refl] rep_lookup(2) [OF assms] assoc_first_pos option.map bindE_simps option.case)
  next
    case (Some n)
    have "entryPair m ((?b # js ?b) ! n) = Inr (B ?b ! n)"
      using first_pos_Some [OF Some] rep_entryPair [OF assms rep_findEntry(2) [OF assms refl]] by simp
    then show ?thesis
      by (simp only: get_def rep_lookupEntry [OF assms refl] rep_lookup(2) [OF assms] assoc_first_pos Some option.map bindE_simps
        option.case split: prod.split) simp
  qed
qed

end

context compare_laws
begin

section \<open>Resizing and inserting\<close>

text \<open>Rehashing only needs the entries: their places in the old table do not matter.\<close>

lemma resize_rep:
  fixes m :: "('k, 'v) hash_map"
  assumes "theCompareFunction m = C" "theNumEntries m = length (pairs_of (theHashTab m))"
    and "keys_differ (equal_fn C) (pairs_of (theHashTab m))"
  shows "\<exists>m' js' B'. resizeHashTab n m = Inr m' \<and> map_rep C m' js' B'
    \<and> mset (all_pairs (theNumBuckets m') B') = mset (pairs_of (theHashTab m))
    \<and> theNumBuckets m' = (if n = 0 then 3 else n) \<and> theNumEntries m' = theNumEntries m"
proof -
  define nb where "nb = (if n = 0 then 3 else n)"
  have nb: "0 < nb" "nb < computeCapacity nb" by (auto simp: nb_def computeCapacity_def)
  let ?tab = "replicate (computeCapacity nb) HashEntry :: ('k, 'v) hash_entry list"
  let ?m = "m\<lparr>theNumBuckets := nb, theMaxLoad := maxLoad nb, theHashTab := format_tab nb ?tab\<rparr>"
  have fresh: "table_ok (format_tab nb ?tab) nb ((\<lambda>_. [])(nb := [Suc nb..<length ?tab])) (\<lambda>_. [])"
    using nb by (intro table_ok_fresh) (auto simp: HashEntry_def)
  let ?h = "\<lambda>p. hash_fn C (fst p) mod nb"
  let ?B = "fold (\<lambda>p. place (?h p) p) (pairs_of (theHashTab m)) (\<lambda>_. [])"
  obtain tab' js' where re: "rehashFrom (theHashTab m) ?m = Inr (?m\<lparr>theHashTab := tab'\<rparr>)" "table_ok tab' nb js' ?B"
  proof -
    have "table_ok (theHashTab ?m) nb ((\<lambda>_. [])(nb := [Suc nb..<length ?tab])) (\<lambda>_. [])" "theNumBuckets ?m = nb"
      using fresh by simp_all
    from rehashFrom_ok [OF this, of "theHashTab m"] show thesis using that assms(1) by auto
  qed
  have fp: "mset (all_pairs nb ?B) = mset (pairs_of (theHashTab m))" "\<forall>b < nb. \<forall>p \<in> set (?B b). ?h p = b"
  proof -
    have fp0: "mset (all_pairs nb ?B) = mset (pairs_of (theHashTab m)) + mset (all_pairs nb (\<lambda>_. []))
      \<and> (\<forall>b < nb. \<forall>p \<in> set (?B b). ?h p = b)"
      by (rule fold_place) (use nb in simp_all)
    show "mset (all_pairs nb ?B) = mset (pairs_of (theHashTab m))" using fp0 [THEN conjunct1] by simp
    show "\<forall>b < nb. \<forall>p \<in> set (?B b). ?h p = b" by (rule fp0 [THEN conjunct2])
  qed
  have "map_rep C (?m\<lparr>theHashTab := tab'\<rparr>) js' ?B"
    using re(2) assms keys_differ_perm [OF fp(1)] mset_eq_length [OF fp(1)] by (intro map_repI [OF _ _ _ fp(2)]) simp_all
  moreover have "resizeHashTab n m = Inr (?m\<lparr>theHashTab := tab'\<rparr>)"
    using re(1) nb by (simp add: resizeHashTab_def Let_def nb_def [symmetric] formatCollisionArea_eq)
  ultimately show ?thesis using fp(1) nb_def by (intro exI [of _ "?m\<lparr>theHashTab := tab'\<rparr>"] exI [of _ js'] exI [of _ ?B]) simp
qed

lemma rep_pairs:
  assumes "map_rep C m js B"
  shows "mset (pairs_of (theHashTab m)) = mset (all_pairs (theNumBuckets m) B)"
    "theNumEntries m = length (pairs_of (theHashTab m))" "keys_differ (equal_fn C) (pairs_of (theHashTab m))"
proof -
  note R = map_repD [OF assms]
  show eq: "mset (pairs_of (theHashTab m)) = mset (all_pairs (theNumBuckets m) B)" by (rule pairs_of_table [OF R(2)])
  show "theNumEntries m = length (pairs_of (theHashTab m))" using R(5) mset_eq_length [OF eq] by simp
  show "keys_differ (equal_fn C) (pairs_of (theHashTab m))" using R(4) keys_differ_perm [OF eq] by simp
qed

text \<open>What a map with these pairs finds.\<close>

lemma lookup_pairs:
  assumes "map_rep C m js B" "mset (all_pairs (theNumBuckets m) B) = mset ps"
  shows "lookup C m k = assoc (equal_fn C) ps k"
  using rep_lookup(1) [OF assms(1)] assoc_perm [OF assms(2) map_repD(4) [OF assms(1)]] by simp

lemma place_rep:
  assumes rep: "map_rep C m js B" and none: "lookup C m k = None" and b: "b = hash_fn C k mod theNumBuckets m"
    and ok: "table_ok tab' (theNumBuckets m) js' (place b (k, v) B)"
    and m': "theCompareFunction m' = C" "theHashTab m' = tab'" "theNumBuckets m' = theNumBuckets m"
      "theNumEntries m' = Suc (theNumEntries m)" "theMaxLoad m' = theMaxLoad m"
  shows "map_rep C m' js' (place b (k, v) B)"
    and "mset (all_pairs (theNumBuckets m') (place b (k, v) B)) = add_mset (k, v) (mset (all_pairs (theNumBuckets m) B))"
proof -
  note R = map_repD [OF rep]
  have b': "b < theNumBuckets m" using R(7) b by simp
  show eq: "mset (all_pairs (theNumBuckets m') (place b (k, v) B)) = add_mset (k, v) (mset (all_pairs (theNumBuckets m) B))"
    using mset_place [OF b', of "(k, v)" B] m'(3) by simp
  then have eq': "mset (all_pairs (theNumBuckets m) (place b (k, v) B)) = mset ((k, v) # all_pairs (theNumBuckets m) B)"
    using m'(3) by simp
  have "\<forall>p \<in> set (all_pairs (theNumBuckets m) B). \<not> equal_fn C (fst p) k"
    using none unfolding rep_lookup(1) [OF rep] assoc_None .
  then have "keys_differ (equal_fn C) ((k, v) # all_pairs (theNumBuckets m) B)"
    using R(4) equal_sym unfolding keys_differ_def by auto
  then have "keys_differ (equal_fn C) (all_pairs (theNumBuckets m) (place b (k, v) B))" using keys_differ_perm [OF eq'] by simp
  moreover have "\<forall>c < theNumBuckets m. \<forall>p \<in> set (place b (k, v) B c). hash_fn C (fst p) mod theNumBuckets m = c"
    using R(3) b unfolding set_place by (auto split: if_splits)
  ultimately show "map_rep C m' js' (place b (k, v) B)"
    unfolding map_rep_def m' using ok R(5,6) mset_eq_length [OF eq'] by simp
qed

lemma hashInsert_found:
  assumes rep: "map_rep C m js B" and "lookup C m k = Some v"
  shows "\<exists>i k'. hashInsert (Suc n) k m = Inr (i, True, m) \<and> entryPair m i = Inr (k', v) \<and> equal_fn C k' k"
proof -
  let ?b = "hash_fn C k mod theNumBuckets m"
  note F = rep_findEntry [OF rep refl, of k]
  obtain p where p: "first_pos (equal_fn C) (B ?b) k = Some p" "v = snd (B ?b ! p)"
    using assms(2) unfolding rep_lookup(2) [OF rep] assoc_first_pos by (cases "first_pos (equal_fn C) (B ?b) k") auto
  note fp = first_pos_Some [OF p(1)]
  have ne: "B ?b \<noteq> []" using fp by auto
  have "hashInsert (Suc n) k m = Inr ((?b # js ?b) ! p, True, m)"
    using F(1,3,4) F(5) [OF ne] p(1) ne map_repD(1) [OF rep] by simp
  moreover have "entryPair m ((?b # js ?b) ! p) = Inr (B ?b ! p)" using rep_entryPair [OF rep F(2)] fp by simp
  ultimately show ?thesis using fp p(2) by (intro exI [of _ "(?b # js ?b) ! p"] exI [of _ "fst (B ?b ! p)"]) simp
qed

text \<open>The result of a successful insertion, before the key and the value are stored.\<close>

definition inserted :: "'k \<Rightarrow> ('k \<times> 'v) multiset \<Rightarrow> (nat \<times> bool \<times> ('k, 'v) hash_map) outcome \<Rightarrow> bool" where
  "inserted k M r \<longleftrightarrow> (\<exists>i m1. r = Inr (i, False, m1) \<and> i < length (theHashTab m1)
    \<and> (\<forall>v. \<exists>js' B'. map_rep C (m1\<lparr>theHashTab := set_content i (Some (k, v)) (theHashTab m1)\<rparr>) js' B'
        \<and> mset (all_pairs (theNumBuckets m1) B') = add_mset (k, v) M))"

lemma set_content_unset [simp]:
  "set_content i c (tab[i := unsetFree p (tab ! i)]) = set_content i c tab"
  by (cases "i < length tab") (simp_all add: set_content_def unsetFree_def list_update_beyond)

lemma first_pos_lookup:
  assumes "map_rep C m js B" "lookup C m k = None"
  shows "first_pos (equal_fn C) (B (hash_fn C k mod theNumBuckets m)) k = None"
  using assms(2) unfolding rep_lookup(2) [OF assms(1)] assoc_first_pos by simp

lemma hashInsert_step:
  assumes rep: "map_rep C m js B" and none: "lookup C m k = None"
    and room: "B (hash_fn C k mod theNumBuckets m) = [] \<or> \<not> aboveMaxLoad m"
  shows "inserted k (mset (all_pairs (theNumBuckets m) B)) (hashInsert (Suc n) k m)"
proof -
  let ?b = "hash_fn C k mod theNumBuckets m" and ?tab = "theHashTab m"
  note F = rep_findEntry [OF rep refl, of k] and R = map_repD [OF rep]
  show ?thesis
  proof (cases "B ?b = []")
    case True
    let ?m1 = "m\<lparr>theNumEntries := Suc (theNumEntries m), theHashTab := ?tab[?b := unsetFree (newPair m) (?tab ! ?b)]\<rparr>"
    have "hashInsert (Suc n) k m = Inr (?b, False, ?m1)" using F(1,3,4) True R(1) by simp
    moreover have "table_ok (set_content ?b (Some (k, v)) ?tab) (theNumBuckets m) js (place ?b (k, v) B)" for v
      using table_ok_head [OF R(2) F(2) True] True by (simp add: place_def)
    moreover from this have "map_rep C (?m1\<lparr>theHashTab := set_content ?b (Some (k, v)) ?tab\<rparr>) js (place ?b (k, v) B)
      \<and> mset (all_pairs (theNumBuckets ?m1) (place ?b (k, v) B)) = add_mset (k, v) (mset (all_pairs (theNumBuckets m) B))" for v
      using place_rep [OF rep none refl, of "set_content ?b (Some (k, v)) ?tab" js v
        "?m1\<lparr>theHashTab := set_content ?b (Some (k, v)) ?tab\<rparr>"] R(1) by simp
    ultimately show ?thesis unfolding inserted_def using F(3) by (intro exI [of _ ?b] exI [of _ ?m1]) auto
  next
    case False
    obtain e tab' js' where l: "linkFree ?b m = Inr (e, m\<lparr>theHashTab := tab'\<rparr>)" "e < length tab'"
      "\<forall>p. table_ok (set_content e (Some p) tab') (theNumBuckets m) js' (place ?b p B)"
      using linkFree_ok [OF R(2) refl F(2) False] by blast
    let ?m1 = "m\<lparr>theHashTab := tab'[e := unsetFree (newPair m) (tab' ! e)], theNumEntries := Suc (theNumEntries m),
      theNumCollisions := Suc (theNumCollisions m)\<rparr>"
    have "hashInsert (Suc n) k m = Inr (e, False, ?m1)"
      using F(1,3,4) F(5) [OF False] first_pos_lookup [OF rep none] False R(1) l(1,2) room by simp
    moreover have "map_rep C (?m1\<lparr>theHashTab := set_content e (Some (k, v)) tab'\<rparr>) js' (place ?b (k, v) B)
      \<and> mset (all_pairs (theNumBuckets ?m1) (place ?b (k, v) B)) = add_mset (k, v) (mset (all_pairs (theNumBuckets m) B))" for v
      using place_rep [OF rep none refl, of "set_content e (Some (k, v)) tab'" js' v
        "?m1\<lparr>theHashTab := set_content e (Some (k, v)) tab'\<rparr>"] R(1) l(3) by simp
    ultimately show ?thesis unfolding inserted_def using l(2) by (intro exI [of _ e] exI [of _ ?m1]) auto
  qed
qed

lemma hashInsert_new:
  assumes "map_rep C m js B" "lookup C m k = None" "j < n" "theNumEntries m * 2 ^ 53 \<le> maxLoad (theNumBuckets m * 2 ^ j)"
  shows "inserted k (mset (all_pairs (theNumBuckets m) B)) (hashInsert n k m)"
  using assms
proof (induction j arbitrary: n m js B)
  case 0
  then have "\<not> aboveMaxLoad m" using map_repD(6) [OF 0(1)] by (simp add: aboveMaxLoad_def)
  with hashInsert_step [OF 0(1,2)] 0(3) show ?case by (cases n) auto
next
  case (Suc j)
  let ?b = "hash_fn C k mod theNumBuckets m"
  obtain n' where n: "n = Suc n'" "j < n'" using Suc.prems(3) by (cases n) auto
  show ?case
  proof (cases "B ?b = [] \<or> \<not> aboveMaxLoad m")
    case True
    with hashInsert_step [OF Suc.prems(1,2)] n(1) show ?thesis by simp
  next
    case False
    note F = rep_findEntry [OF Suc.prems(1) refl, of k] and R = map_repD [OF Suc.prems(1)]
    note P = rep_pairs [OF Suc.prems(1)]
    obtain m' js' B' where m': "resizeHashTab (theNumBuckets m * 2) m = Inr m'" "map_rep C m' js' B'"
      "mset (all_pairs (theNumBuckets m') B') = mset (pairs_of (theHashTab m))"
      "theNumBuckets m' = theNumBuckets m * 2" "theNumEntries m' = theNumEntries m"
      using resize_rep [OF R(1) P(2,3), of "theNumBuckets m * 2"] R(7) by auto
    have "lookup C m' k = None" using lookup_pairs [OF m'(2,3)] Suc.prems(2) by (simp add: lookup_def)
    then have "inserted k (mset (all_pairs (theNumBuckets m') B')) (hashInsert n' k m')"
      using Suc.IH [OF m'(2) _ n(2)] Suc.prems(4) m'(4,5) by (simp add: ac_simps)
    moreover have "hashInsert n k m = hashInsert n' k m'"
      using F(1,3,4) F(5) first_pos_lookup [OF Suc.prems(1,2)] False R(1) m'(1) n(1) by simp
    ultimately show ?thesis using m'(3) P(1) by simp
  qed
qed

lemma hashInsert_retries:
  assumes "map_rep C m js B" "lookup C m k = None"
  shows "inserted k (mset (all_pairs (theNumBuckets m) B)) (hashInsert (retries m) k m)"
  using hashInsert_new [OF assms, of "theNumEntries m + 2" "retries m"] load_reached [OF map_repD(7) [OF assms(1)]]
  by (simp add: retries_def)

end

context compare_laws
begin

section \<open>Erasing\<close>

lemma shrink_rep:
  assumes "map_rep C m js B"
  shows "\<exists>m' js' B'. shrinkHashTab m = Inr m' \<and> map_rep C m' js' B'
    \<and> mset (all_pairs (theNumBuckets m') B') = mset (all_pairs (theNumBuckets m) B)"
proof (cases "belowHalfLoad m")
  case True
  from resize_rep [OF map_repD(1) [OF assms] rep_pairs(2,3) [OF assms], of "theNumBuckets m div 2"]
  show ?thesis using True rep_pairs(1) [OF assms] by (auto simp: shrinkHashTab_def)
qed (use assms in \<open>auto simp: shrinkHashTab_def\<close>)

lemma all_pairs_drop:
  assumes "b < nb" "n < length (B b)"
  shows "add_mset (B b ! n) (mset (all_pairs nb (B(b := take n (B b) @ drop (Suc n) (B b))))) = mset (all_pairs nb B)"
proof -
  have "mset (B b) = add_mset (B b ! n) (mset (take n (B b) @ drop (Suc n) (B b)))"
    by (subst id_take_nth_drop [OF assms(2)]) simp
  then show ?thesis using mset_all_pairs_upd [OF assms(1), of B "take n (B b) @ drop (Suc n) (B b)"] by simp
qed

text \<open>Unlinking an entry; the table is then shrunk where it has become too large.\<close>

lemma eraseEntry_unlinks:
  assumes rep: "map_rep C m js B" and b: "b < theNumBuckets m" "n < length (B b)"
  shows "\<exists>m1 js'. eraseEntry ((b # js b) ! n) (if n = 0 then None else Some ((b # js b) ! (n - 1))) m = shrinkHashTab m1
    \<and> map_rep C m1 js' (B(b := take n (B b) @ drop (Suc n) (B b))) \<and> theNumBuckets m1 = theNumBuckets m"
proof -
  note R = map_repD [OF rep]
  let ?B = "B(b := take n (B b) @ drop (Suc n) (B b))"
  obtain tab' js' where e: "eraseEntry ((b # js b) ! n) (if n = 0 then None else Some ((b # js b) ! (n - 1))) m
      = shrinkHashTab (m\<lparr>theHashTab := tab', theNumEntries := theNumEntries m - 1\<rparr>)"
    "table_ok tab' (theNumBuckets m) js' ?B"
    using table_erase [OF R(2) b] by blast
  have ms: "mset (B b ! n # all_pairs (theNumBuckets m) ?B) = mset (all_pairs (theNumBuckets m) B)"
    using all_pairs_drop [OF b(1), of n B] b(2) by simp
  have kd: "keys_differ (equal_fn C) (B b ! n # all_pairs (theNumBuckets m) ?B)" using R(4) keys_differ_perm [OF ms] by simp
  have hs: "\<forall>c < theNumBuckets m. \<forall>p \<in> set (?B c). hash_fn C (fst p) mod theNumBuckets m = c"
  proof (intro allI impI ballI)
    fix c p assume c: "c < theNumBuckets m" "p \<in> set (?B c)"
    then have "p \<in> set (B c)" by (auto split: if_splits dest: in_set_takeD in_set_dropD)
    with R(3) c show "hash_fn C (fst p) mod theNumBuckets m = c" by blast
  qed
  have "map_rep C (m\<lparr>theHashTab := tab', theNumEntries := theNumEntries m - 1\<rparr>) js' ?B"
    using e(2) R(1,5,6) kd mset_eq_length [OF ms]
    by (intro map_repI [where B = ?B, OF _ _ _ hs]) (simp_all add: keys_differ_def)
  with e(1) show ?thesis by (intro exI [of _ "m\<lparr>theHashTab := tab', theNumEntries := theNumEntries m - 1\<rparr>"] exI [of _ js']) simp
qed

lemma eraseEntry_rep:
  assumes rep: "map_rep C m js B" and b: "b < theNumBuckets m" "n < length (B b)"
  shows "\<exists>m' js' B'. eraseEntry ((b # js b) ! n) (if n = 0 then None else Some ((b # js b) ! (n - 1))) m = Inr m'
    \<and> map_rep C m' js' B' \<and> add_mset (B b ! n) (mset (all_pairs (theNumBuckets m') B')) = mset (all_pairs (theNumBuckets m) B)"
proof -
  obtain m1 js1 where m1: "eraseEntry ((b # js b) ! n) (if n = 0 then None else Some ((b # js b) ! (n - 1))) m = shrinkHashTab m1"
    "map_rep C m1 js1 (B(b := take n (B b) @ drop (Suc n) (B b)))" "theNumBuckets m1 = theNumBuckets m"
    using eraseEntry_unlinks [OF assms] by blast
  from shrink_rep [OF m1(2)] obtain m' js' B' where "shrinkHashTab m1 = Inr m'" "map_rep C m' js' B'"
    "mset (all_pairs (theNumBuckets m') B') = mset (all_pairs (theNumBuckets m1) (B(b := take n (B b) @ drop (Suc n) (B b))))" by blast
  with m1(1,3) all_pairs_drop [OF b(1), of n B] b(2) show ?thesis
    by (intro exI [of _ m'] exI [of _ js'] exI [of _ B']) simp
qed

lemma eraseNoSync_rep:
  assumes rep: "map_rep C m js B"
  shows "case lookup C m k of
      None \<Rightarrow> erase k m = Inr (False, m)
    | Some v \<Rightarrow> \<exists>m' js' B' k'. erase k m = Inr (True, m') \<and> map_rep C m' js' B' \<and> equal_fn C k' k
        \<and> add_mset (k', v) (mset (all_pairs (theNumBuckets m') B')) = mset (all_pairs (theNumBuckets m) B)"
proof -
  let ?b = "hash_fn C k mod theNumBuckets m"
  note F = rep_findEntry [OF rep refl, of k] and R = map_repD [OF rep] and D = table_okD [OF map_repD(2) [OF rep]]
  let ?t = "theHashTab m"
  show ?thesis
  proof (cases "B ?b")
    case Nil
    then have "lookup C m k = None" "content (?t ! ?b) = None"
      using rep_lookup(2) [OF rep, of k] D(7) [OF F(2)] by simp_all
    then show ?thesis using F(1,3) R(1) by (simp add: erase_def eraseNoSync_def)
  next
    case (Cons p ps)
    then have map: "map (\<lambda>i. content (?t ! i)) (?b # js ?b) = map Some (p # ps)" using D(8) [OF F(2)] by simp
    have ch: "chain ?t ?b (js ?b)" using D(3) [of ?b] F(2) by simp
    have "findWithPrev (equal_fn C) ?t k (length ?t) ?b (next_of (js ?b))
      = Inr (map_option (\<lambda>n. ((?b # js ?b) ! n, js ?b ! n)) (first_pos (equal_fn C) ps k))"
      using map chain_length [OF R(2), of ?b] F(2) by (intro findWithPrev_chain [OF ch]) auto
    then have erase: "erase k m = (case first_pos (equal_fn C) (B ?b) k of
        None \<Rightarrow> Inr (False, m)
      | Some n \<Rightarrow> bindE (eraseEntry ((?b # js ?b) ! n) (if n = 0 then None else Some ((?b # js ?b) ! (n - 1))) m) (\<lambda>m. Inr (True, m)))"
      using F(1,3) R(1) map getNext_chain [OF ch] Cons
      by (cases p; cases "first_pos (equal_fn C) ps k") (auto simp: erase_def eraseNoSync_def)
    show ?thesis
    proof (cases "first_pos (equal_fn C) (B ?b) k")
      case None
      then have "lookup C m k = None" by (simp only: rep_lookup(2) [OF rep] assoc_first_pos option.map)
      with None erase show ?thesis by simp
    next
      case (Some n)
      note n = first_pos_Some [OF Some]
      have v: "lookup C m k = Some (snd (B ?b ! n))" by (simp only: rep_lookup(2) [OF rep] assoc_first_pos Some option.map)
      obtain m' js' B' where m': "eraseEntry ((?b # js ?b) ! n) (if n = 0 then None else Some ((?b # js ?b) ! (n - 1))) m = Inr m'"
        "map_rep C m' js' B'" "add_mset (B ?b ! n) (mset (all_pairs (theNumBuckets m') B')) = mset (all_pairs (theNumBuckets m) B)"
        using eraseEntry_rep [OF rep F(2), of n] n by blast
      have "erase k m = Inr (True, m')" using erase Some m'(1) by simp
      with m'(2,3) n show ?thesis unfolding v option.case
        by (intro exI [of _ m'] exI [of _ js'] exI [of _ B'] exI [of _ "fst (B ?b ! n)"]) simp
    qed
  qed
qed

end

section \<open>Erasing at an iterator\<close>

context compare_laws
begin

text \<open>\<open>erase(item)\<close> on an item of the map removes just its pair.\<close>

lemma erase_member:
  assumes rep: "map_rep C m js B" and p: "p \<in> set (pairs_of (theHashTab m))"
  shows "\<exists>m'. erase (fst p) m = Inr (True, m') \<and> map_inv C m' \<and> add_mset p (mset (pairs_of (theHashTab m'))) = mset (pairs_of (theHashTab m))"
proof -
  note P = rep_pairs [OF rep]
  have v: "lookup C m (fst p) = Some (snd p)" unfolding lookup_def by (rule assoc_Some [OF P(3) p equal_refl])
  then obtain m' js' B' k' where m': "erase (fst p) m = Inr (True, m')" "map_rep C m' js' B'" "equal_fn C k' (fst p)"
    "add_mset (k', snd p) (mset (pairs_of (theHashTab m'))) = mset (pairs_of (theHashTab m))"
    using eraseNoSync_rep [OF rep, of "fst p"] P(1) rep_pairs(1) by fastforce
  have "(k', snd p) = p"
  proof (rule ccontr)
    assume "(k', snd p) \<noteq> p"
    moreover have ps: "p \<in> set ((k', snd p) # pairs_of (theHashTab m'))" using p mset_eq_setD [of "(k', snd p) # pairs_of (theHashTab m')"] m'(4) by auto
    moreover have "keys_differ (equal_fn C) ((k', snd p) # pairs_of (theHashTab m'))"
      using P(3) keys_differ_perm [of "(k', snd p) # pairs_of (theHashTab m')"] m'(4) by simp
    ultimately show False using m'(3) by (auto simp: keys_differ_def)
  qed
  with m' show ?thesis by (auto simp: map_inv_def)
qed

lemma erase_iter_rep:
  assumes rep: "map_rep C m js B" and deref: "deref_iter m pos = Inr p"
  shows "\<exists>m'. erase_iter pos m = Inr (next_iter m' pos, m') \<and> map_inv C m'
    \<and> add_mset p (mset (pairs_of (theHashTab m'))) = mset (pairs_of (theHashTab m))"
proof -
  note R = map_repD [OF rep] and D = table_okD [OF map_repD(2) [OF rep]]
  have pos: "pos < length (theHashTab m)" "entryPair m pos = Inr p" using deref by (auto simp: deref_iter_def split: if_splits)
  then have c: "content (theHashTab m ! pos) = Some p" by (auto simp: entryPair_def split: option.splits)
  show ?thesis
  proof (cases "pos < theNumBuckets m")
    case True
    then have "B pos \<noteq> []" using D(7) c by fastforce
    then have "B pos ! 0 = p" "0 < length (B pos)" using D(8) [OF True] c by (cases "B pos"; simp)+
    with eraseEntry_rep [OF rep True, of 0] obtain m' js' B' where "eraseEntry pos None m = Inr m'" "map_rep C m' js' B'"
      "add_mset p (mset (all_pairs (theNumBuckets m') B')) = mset (all_pairs (theNumBuckets m) B)" by auto
    then show ?thesis using True rep_pairs(1) [OF rep] rep_pairs(1) [of m' js' B'] by (auto simp: erase_iter_def map_inv_def)
  next
    case False
    have "p \<in> set (pairs_of (theHashTab m))"
      using nth_mem [OF pos(1)] c by (force simp: pairs_of_def map_filter_def)
    from erase_member [OF rep this] show ?thesis using False pos(2) by (cases p) (auto simp: erase_iter_def erase_def)
  qed
qed

text \<open>Erasing the head of a bucket that has another entry moves the pair of that entry into the head.\<close>

lemma skipFree_ge: "pos \<le> skipFree tab pos"
  by (induction tab pos rule: skipFree.induct) auto

lemma erase_iter_moves:
  assumes rep: "map_rep C m js B" and pos: "pos < theNumBuckets m" and i: "getNext pos (theHashTab m ! pos) = Some i"
    and erase: "erase_iter pos m = Inr (next_iter m' pos, m')" and nb: "theNumBuckets m' = theNumBuckets m"
    and deref: "deref_iter m pos = Inr p"
  shows "deref_iter m' pos = deref_iter m i" "pos < next_iter m' pos"
proof -
  note R = map_repD [OF rep] and D = table_okD [OF map_repD(2) [OF rep]]
  have ch: "chain (theHashTab m) pos (js pos)" using D(3) pos by simp
  then obtain ks where js: "js pos = i # ks" using getNext_chain [OF ch] i by (cases "js pos") (auto simp: next_of_def)
  have "content (theHashTab m ! pos) = Some p" using deref by (auto simp: deref_iter_def entryPair_def split: if_splits option.splits)
  then have "B pos \<noteq> []" using D(7) [OF pos] by fastforce
  then obtain q r qs where B: "B pos = q # r # qs" and r: "content (theHashTab m ! i) = Some r"
    using D(8) [OF pos] js by (cases "B pos"; cases "tl (B pos)") auto
  obtain m1 js1 where m1: "eraseEntry pos None m = shrinkHashTab m1" "map_rep C m1 js1 (B(pos := r # qs))"
    "theNumBuckets m1 = theNumBuckets m"
    using eraseEntry_unlinks [OF rep pos, of 0] B by auto
  note R1 = map_repD [OF m1(2)] and D1 = table_okD [OF map_repD(2) [OF m1(2)]]
  have sh: "shrinkHashTab m1 = Inr m'" using erase pos m1(1) by (cases "shrinkHashTab m1") (auto simp: erase_iter_def)
  have "\<not> belowHalfLoad m1"
  proof
    assume "belowHalfLoad m1"
    with resize_rep [OF R1(1) rep_pairs(2,3) [OF m1(2)], of "theNumBuckets m1 div 2"] sh nb m1(3) D1(1)
    show False by (auto simp: shrinkHashTab_def split: if_splits)
  qed
  then have "m' = m1" using sh by (simp add: shrinkHashTab_def)
  moreover have "content (theHashTab m1 ! pos) = Some r" "pos < length (theHashTab m1)"
    using D1(8) [of pos] D1(2) pos m1(3) by auto
  moreover have "i < length (theHashTab m)" using table_ok_area [OF R(2), of pos i] pos js by auto
  ultimately show "deref_iter m' pos = deref_iter m i" "pos < next_iter m' pos"
    using r skipFree_ge [of "Suc pos" "drop (Suc pos) (theHashTab m1)"] by (auto simp: deref_iter_def entryPair_def next_iter_def iterator_def)
qed

end

section \<open>Commands\<close>

datatype ('k, 'v) map_cmd = Exists 'k | Get 'k | Insert 'k 'v | Update 'k 'v | Erase 'k | Clear | Rehash | Size

datatype 'v map_result = Value "'v option" | Flag bool | Stored bool 'v | Count nat | Nothing

fun map_exec :: "('k, 'v) map_cmd \<Rightarrow> ('k, 'v) hash_map \<Rightarrow> ('v map_result \<times> ('k, 'v) hash_map) outcome" where
  "map_exec (Exists k) m = bindE (exists_item k m) (\<lambda>b. Inr (Flag b, m))"
| "map_exec (Get k) m = bindE (get k m) (\<lambda>v. Inr (Value v, m))"
| "map_exec (Insert k v) m = bindE (insert_item k v m) (\<lambda>(b, w, m'). Inr (Stored b w, m'))"
| "map_exec (Update k v) m = bindE (update k v m) (\<lambda>(b, m'). Inr (Flag b, m'))"
| "map_exec (Erase k) m = bindE (erase k m) (\<lambda>(b, m'). Inr (Flag b, m'))"
| "map_exec Clear m = bindE (clearNoSync m) (\<lambda>m'. Inr (Nothing, m'))"
| "map_exec Rehash m = bindE (rehash m) (\<lambda>m'. Inr (Nothing, m'))"
| "map_exec Size m = Inr (Count (size_map m), m)"

text \<open>The same commands on a finite function, with keys identified by \<open>equal\<close>; the second component
  counts the keys.\<close>

fun map_spec :: "('k \<Rightarrow> 'k \<Rightarrow> bool) \<Rightarrow> ('k, 'v) map_cmd \<Rightarrow> ('k \<Rightarrow> 'v option) \<times> nat \<Rightarrow> 'v map_result \<times> ('k \<Rightarrow> 'v option) \<times> nat" where
  "map_spec equal (Exists k) (f, n) = (Flag (f k \<noteq> None), f, n)"
| "map_spec equal (Get k) (f, n) = (Value (f k), f, n)"
| "map_spec equal (Insert k v) (f, n) =
    (case f k of None \<Rightarrow> (Stored True v, (\<lambda>l. if equal k l then Some v else f l), Suc n) | Some w \<Rightarrow> (Stored False w, f, n))"
| "map_spec equal (Update k v) (f, n) =
    (case f k of None \<Rightarrow> (Flag False, f, n) | Some w \<Rightarrow> (Flag True, (\<lambda>l. if equal k l then Some v else f l), n))"
| "map_spec equal (Erase k) (f, n) =
    (case f k of None \<Rightarrow> (Flag False, f, n) | Some w \<Rightarrow> (Flag True, (\<lambda>l. if equal k l then None else f l), n - 1))"
| "map_spec equal Clear (f, n) = (Nothing, (\<lambda>_. None), 0)"
| "map_spec equal Rehash (f, n) = (Nothing, f, n)"
| "map_spec equal Size (f, n) = (Count n, f, n)"

definition map_abs :: "'k compare_fun \<Rightarrow> ('k, 'v) hash_map \<Rightarrow> ('k \<Rightarrow> 'v option) \<times> nat" where
  "map_abs C m = (lookup C m, theNumEntries m)"

context compare_laws
begin

lemma assoc_Cons_new:
  assumes "assoc (equal_fn C) ps k = None"
  shows "assoc (equal_fn C) ((k, v) # ps) = (\<lambda>l. if equal_fn C k l then Some v else assoc (equal_fn C) ps l)"
  by auto

lemma lookup_rep:
  assumes "map_rep C m js B" shows "lookup C m = assoc (equal_fn C) (all_pairs (theNumBuckets m) B)"
  using rep_lookup(1) [OF assms] by auto

text \<open>The abstract map after adding, changing and removing a pair.\<close>

lemma rep_added:
  assumes "map_rep C m js B" "map_rep C m' js' B'"
    and "mset (all_pairs (theNumBuckets m') B') = add_mset (k, v) (mset (all_pairs (theNumBuckets m) B))"
  shows "map_abs C m' = ((\<lambda>l. if equal_fn C k l then Some v else lookup C m l), Suc (theNumEntries m))"
proof -
  have ms: "mset (all_pairs (theNumBuckets m') B') = mset ((k, v) # all_pairs (theNumBuckets m) B)" using assms(3) by simp
  have "lookup C m' l = assoc (equal_fn C) ((k, v) # all_pairs (theNumBuckets m) B) l" for l
    by (rule lookup_pairs [OF assms(2) ms])
  then show ?thesis unfolding map_abs_def lookup_rep [OF assms(1)]
    using mset_eq_length [OF ms] map_repD(5) [OF assms(1)] map_repD(5) [OF assms(2)] by auto
qed

lemma rep_removed:
  assumes "map_rep C m js B" "map_rep C m' js' B'" "equal_fn C k' k"
    and "add_mset (k', v) (mset (all_pairs (theNumBuckets m') B')) = mset (all_pairs (theNumBuckets m) B)"
  shows "map_abs C m' = ((\<lambda>l. if equal_fn C k l then None else lookup C m l), theNumEntries m - 1)"
proof -
  let ?ps = "all_pairs (theNumBuckets m') B'"
  have ms: "mset (all_pairs (theNumBuckets m) B) = mset ((k', v) # ?ps)" using assms(4) by simp
  have look: "lookup C m l = (if equal_fn C k' l then Some v else lookup C m' l)" for l
    using lookup_pairs [OF assms(1) ms, of l] lookup_rep [OF assms(2)] by simp
  have "keys_differ (equal_fn C) ((k', v) # ?ps)" using map_repD(4) [OF assms(1)] keys_differ_perm [OF ms] by simp
  then have "\<forall>q \<in> set ?ps. \<not> equal_fn C k' (fst q)" by (simp add: keys_differ_def)
  then have none: "lookup C m' l = None" if "equal_fn C k' l" for l
    using that equal_trans equal_sym unfolding lookup_rep [OF assms(2)] assoc_None by blast
  have "equal_fn C k l \<longleftrightarrow> equal_fn C k' l" for l using assms(3) equal_trans equal_sym by blast
  then have "lookup C m' = (\<lambda>l. if equal_fn C k l then None else lookup C m l)" using look none by auto
  then show ?thesis unfolding map_abs_def
    using mset_eq_length [OF ms] map_repD(5) [OF assms(1)] map_repD(5) [OF assms(2)] by simp
qed

lemma rep_same:
  assumes "map_rep C m js B" "map_rep C m' js' B'"
    and "mset (all_pairs (theNumBuckets m') B') = mset (all_pairs (theNumBuckets m) B)"
  shows "map_abs C m' = map_abs C m"
  unfolding map_abs_def using lookup_pairs [OF assms(2,3)] lookup_rep [OF assms(1)] mset_eq_length [OF assms(3)]
    map_repD(5) [OF assms(1)] map_repD(5) [OF assms(2)] by auto

lemma insert_item_rep:
  assumes rep: "map_rep C m js B"
  shows "\<exists>m'. map_exec (Insert k v) m = Inr (fst (map_spec (equal_fn C) (Insert k v) (map_abs C m)), m')
    \<and> map_inv C m' \<and> map_abs C m' = snd (map_spec (equal_fn C) (Insert k v) (map_abs C m))"
proof (cases "lookup C m k")
  case None
  obtain i m1 where i: "hashInsert (retries m) k m = Inr (i, False, m1)" "i < length (theHashTab m1)"
    and r: "\<And>v. \<exists>js' B'. map_rep C (m1\<lparr>theHashTab := set_content i (Some (k, v)) (theHashTab m1)\<rparr>) js' B'
        \<and> mset (all_pairs (theNumBuckets m1) B') = add_mset (k, v) (mset (all_pairs (theNumBuckets m) B))"
    using hashInsert_retries [OF rep None] unfolding inserted_def by blast
  let ?m' = "m1\<lparr>theHashTab := set_content i (Some (k, v)) (theHashTab m1)\<rparr>"
  obtain js' B' where r': "map_rep C ?m' js' B'"
    "mset (all_pairs (theNumBuckets ?m') B') = add_mset (k, v) (mset (all_pairs (theNumBuckets m) B))" using r [of v] by auto
  have "map_exec (Insert k v) m = Inr (Stored True v, ?m')"
    using i by (simp add: insert_item_def set_content_def)
  then show ?thesis using r'(1) rep_added [OF rep r'] None
    by (intro exI [of _ ?m']) (auto simp: map_abs_def map_inv_def)
next
  case (Some w)
  obtain i k' where "hashInsert (retries m) k m = Inr (i, True, m)" "entryPair m i = Inr (k', w)"
    using hashInsert_found [OF rep Some, of "theNumEntries m + 2"] by (auto simp: retries_def numeral_3_eq_3)
  then have "map_exec (Insert k v) m = Inr (Stored False w, m)" by (simp add: insert_item_def)
  then show ?thesis using rep Some by (intro exI [of _ m]) (auto simp: map_abs_def map_inv_def)
qed

text \<open>\<open>exec_ok c m\<close>: the command \<open>c\<close> does on the map what it does on the abstract one.\<close>

definition exec_ok :: "('k, 'v) map_cmd \<Rightarrow> ('k, 'v) hash_map \<Rightarrow> bool" where
  "exec_ok c m \<longleftrightarrow> (\<exists>m'. map_exec c m = Inr (fst (map_spec (equal_fn C) c (map_abs C m)), m')
    \<and> map_inv C m' \<and> map_abs C m' = snd (map_spec (equal_fn C) c (map_abs C m)))"

lemma exists_ok:
  assumes rep: "map_rep C m js B" shows "exec_ok (Exists k) m"
proof -
  have "exists_item k m = Inr (lookup C m k \<noteq> None)"
    by (simp add: exists_item_def rep_lookupEntry [OF rep refl] rep_lookup(2) [OF rep] assoc_first_pos)
  then show ?thesis using rep by (auto simp: exec_ok_def map_abs_def map_inv_def)
qed

lemma get_ok: "map_rep C m js B \<Longrightarrow> exec_ok (Get k) m"
  by (auto simp: exec_ok_def map_abs_def map_inv_def get_lookup)

lemma update_ok:
  assumes rep: "map_rep C m js B" shows "exec_ok (Update k v) m"
proof -
  let ?b = "hash_fn C k mod theNumBuckets m" and ?t = "theHashTab m"
  note F = rep_findEntry [OF rep refl, of k] and R = map_repD [OF rep]
  show ?thesis
  proof (cases "first_pos (equal_fn C) (B ?b) k")
    case None
    then have "update k v m = Inr (False, m)" using F R(1) by (cases "B ?b = []") (auto simp: update_def)
    moreover have "lookup C m k = None" by (simp only: rep_lookup(2) [OF rep] assoc_first_pos None option.map)
    ultimately show ?thesis using rep by (auto simp: exec_ok_def map_abs_def map_inv_def)
  next
    case (Some n)
    note n = first_pos_Some [OF Some]
    obtain k' w where kw: "B ?b ! n = (k', w)" by (cases "B ?b ! n")
    let ?i = "(?b # js ?b) ! n" and ?B = "B(?b := (B ?b)[n := (k', v)])"
    let ?m' = "m\<lparr>theHashTab := set_content ?i (Some (k', v)) ?t\<rparr>"
    note V = table_ok_value [OF R(2) F(2) conjunct1 [OF n] refl]
    have upd: "update k v m = Inr (True, ?m')"
      using F(1,3,4) F(5) n R(1) Some V(2,3) kw by (auto simp: update_def set_content_def)
    let ?R = "B(?b := take n (B ?b) @ drop (Suc n) (B ?b))"
    let ?rest = "all_pairs (theNumBuckets m) ?R"
    have drop: "?B(?b := take n (?B ?b) @ drop (Suc n) (?B ?b)) = ?R" by simp
    have ms: "mset (all_pairs (theNumBuckets m) B) = mset ((k', w) # ?rest)"
      using all_pairs_drop [OF F(2), of n B] n kw by simp
    have ms': "mset (all_pairs (theNumBuckets m) ?B) = mset ((k', v) # ?rest)"
      using all_pairs_drop [OF F(2), of n ?B] n unfolding drop by simp
    have kd: "keys_differ (equal_fn C) ((k', v) # ?rest)"
      using R(4) keys_differ_perm [OF ms] by (simp add: keys_differ_def)
    have hs: "\<forall>c < theNumBuckets m. \<forall>p \<in> set (?B c). hash_fn C (fst p) mod theNumBuckets m = c"
    proof (intro allI impI ballI)
      fix c p assume c: "c < theNumBuckets m" "p \<in> set (?B c)"
      have "(k', w) \<in> set (B ?b)" using n kw by (metis nth_mem)
      then have "p \<in> set (B c) \<or> c = ?b \<and> p = (k', v) \<and> (k', w) \<in> set (B c)"
        using c by (auto split: if_splits dest: set_update_subset_insert [THEN subsetD])
      with R(3) [OF c(1)] show "hash_fn C (fst p) mod theNumBuckets m = c" by fastforce
    qed
    have rep': "map_rep C ?m' js ?B"
      using V(1) R(1,5,6) kd keys_differ_perm [OF ms'] mset_eq_length [OF ms] mset_eq_length [OF ms']
      by (intro map_repI [where B = ?B, OF _ _ _ hs]) simp_all
    have eqk: "equal_fn C k l \<longleftrightarrow> equal_fn C k' l" for l using n kw equal_trans equal_sym by (metis fst_conv)
    have "mset (all_pairs (theNumBuckets ?m') ?B) = mset ((k', v) # ?rest)" using ms' by simp
    from lookup_pairs [OF rep' this] have "lookup C ?m' l = (if equal_fn C k l then Some v else lookup C m l)" for l
      using lookup_pairs [OF rep ms, of l] eqk by simp
    moreover have "lookup C m k = Some w" using rep_lookup(2) [OF rep, of k] Some kw by (simp add: assoc_first_pos)
    ultimately show ?thesis using upd rep' unfolding exec_ok_def
      by (intro exI [of _ ?m']) (auto simp: map_abs_def map_inv_def)
  qed
qed

lemma erase_ok:
  assumes rep: "map_rep C m js B" shows "exec_ok (Erase k) m"
proof (cases "lookup C m k")
  case None
  then show ?thesis using eraseNoSync_rep [OF rep, of k] rep by (auto simp: exec_ok_def map_abs_def map_inv_def)
next
  case (Some v)
  with eraseNoSync_rep [OF rep, of k] obtain m' js' B' k' where m': "erase k m = Inr (True, m')" "map_rep C m' js' B'"
    "equal_fn C k' k" "add_mset (k', v) (mset (all_pairs (theNumBuckets m') B')) = mset (all_pairs (theNumBuckets m) B)" by auto
  then show ?thesis using rep_removed [OF rep m'(2-4)] Some
    by (auto simp: exec_ok_def map_inv_def map_abs_def [of C m])
qed

lemma rehash_ok:
  assumes rep: "map_rep C m js B" shows "exec_ok Rehash m"
proof -
  obtain m' js' B' where m': "rehash m = Inr m'" "map_rep C m' js' B'"
    "mset (all_pairs (theNumBuckets m') B') = mset (all_pairs (theNumBuckets m) B)"
    using resize_rep [OF map_repD(1) [OF rep] rep_pairs(2,3) [OF rep], of "theNumBuckets m"] rep_pairs(1) [OF rep]
    by (auto simp: rehash_def)
  then show ?thesis using rep_same [OF rep m'(2,3)] by (auto simp: exec_ok_def map_inv_def map_abs_def [of C m])
qed

lemma clear_ok:
  assumes rep: "map_rep C m js B" shows "exec_ok Clear m"
proof -
  let ?t = "theHashTab m" and ?nb = "theNumBuckets m"
  note R = map_repD [OF rep] and D = table_okD [OF map_repD(2) [OF rep]]
  let ?u = "map (\<lambda>e. if isFree e then e else setFree e) ?t"
  let ?m' = "m\<lparr>theNumEntries := 0, theNumCollisions := 0, theHashTab := format_tab ?nb ?u\<rparr>"
  have next0: "theNext (?u ! i) = 0" if "i < ?nb" for i
  proof -
    have "theNext (?t ! i) = 0" if "isFree (?t ! i)"
      using D(3) [of i] D(7) [of i] D(8) [of i] \<open>i < ?nb\<close> that by (cases "B i") (auto simp: isFree_def)
    then show ?thesis using that D(2) by auto
  qed
  have "table_ok (format_tab ?nb ?u) ?nb ((\<lambda>_. [])(?nb := [Suc ?nb..<length ?u])) (\<lambda>_. [])"
    using D(1,2) next0 by (intro table_ok_fresh) (auto simp: isFree_def)
  then have rep': "map_rep C ?m' ((\<lambda>_. [])(?nb := [Suc ?nb..<length ?u])) (\<lambda>_. [])"
    using R(1,6) by (intro map_repI [where nb = ?nb]) (auto simp: keys_differ_def)
  moreover have "map_exec Clear m = Inr (Nothing, ?m')"
    using D(2) by (simp add: clearNoSync_def formatCollisionArea_eq)
  moreover have "map_abs C ?m' = ((\<lambda>_. None), 0)" using lookup_rep [OF rep'] by (auto simp: map_abs_def)
  ultimately show ?thesis by (auto simp: exec_ok_def map_inv_def map_abs_def [of C m])
qed

end

section \<open>The map refines its specification\<close>

sublocale compare_laws \<subseteq> map_refines: data_refinement map_exec "map_spec (equal_fn C)" "map_inv C" "map_abs C"
proof
  fix m :: "('k, 'v) hash_map" and c :: "('k, 'v) map_cmd"
  assume "map_inv C m"
  then obtain js B where rep: "map_rep C m js B" by (auto simp: map_inv_def)
  have "exec_ok c m"
  proof (cases c)
    case (Insert k v)
    then show ?thesis using insert_item_rep [OF rep] by (simp add: exec_ok_def)
  next
    case Size
    then show ?thesis using rep by (auto simp: exec_ok_def map_abs_def map_inv_def size_map_def)
  next
    case (Exists k)
    then show ?thesis using exists_ok [OF rep] by simp
  next
    case (Get k)
    then show ?thesis using get_ok [OF rep] by simp
  next
    case (Update k v)
    then show ?thesis using update_ok [OF rep] by simp
  next
    case (Erase k)
    then show ?thesis using erase_ok [OF rep] by simp
  next
    case Clear
    then show ?thesis using clear_ok [OF rep] by simp
  next
    case Rehash
    then show ?thesis using rehash_ok [OF rep] by simp
  qed
  then show "\<exists>m'. map_exec c m = Inr (fst (map_spec (equal_fn C) c (map_abs C m)), m')
    \<and> map_inv C m' \<and> map_abs C m' = snd (map_spec (equal_fn C) c (map_abs C m))" by (simp add: exec_ok_def)
qed

context compare_laws
begin

lemma new_rep:
  fixes p :: "'k \<times> 'v"
  assumes "0 < s" shows "\<exists>m. newHashMap C p s = Inr m \<and> map_inv C m \<and> map_abs C m = ((\<lambda>_. None), 0)"
proof -
  let ?tab = "replicate (computeCapacity s) HashEntry :: ('k, 'v) hash_entry list"
  let ?m = "\<lparr>theHashTab = format_tab s ?tab, theNumBuckets = s, theNumEntries = 0, theMaxLoad = maxLoad s,
    theCompareFunction = C, theNumCollisions = 0, newPair = p\<rparr>"
  have cap: "s < computeCapacity s" by (simp add: computeCapacity_def)
  have "table_ok (format_tab s ?tab) s ((\<lambda>_. [])(s := [Suc s..<length ?tab])) (\<lambda>_. [])"
    using assms cap by (intro table_ok_fresh) (auto simp: HashEntry_def)
  then have rep: "map_rep C ?m ((\<lambda>_. [])(s := [Suc s..<length ?tab])) (\<lambda>_. [])"
    by (intro map_repI [where nb = s]) (auto simp: keys_differ_def)
  moreover have "newHashMap C p s = Inr ?m" using cap by (simp add: newHashMap_def formatCollisionArea_eq)
  moreover have "map_abs C ?m = ((\<lambda>_. None), 0)" using lookup_rep [OF rep] by (auto simp: map_abs_def)
  ultimately show ?thesis by (auto simp: map_inv_def)
qed

end

text \<open>The comparators for strings.\<close>

lemma h32_takeWhile: "h32 s hval = h32 (takeWhile (\<lambda>b. b \<noteq> 0) s) hval"
  by (induction s arbitrary: hval) auto

interpretation zstring_map: compare_laws HashMapZStringCmp
  by unfold_locales (auto simp: HashMapZStringCmp_def)

interpretation cstring_map: compare_laws HashMapCStringCmp
proof
  fix k l assume "equal_fn HashMapCStringCmp k l"
  then have "takeWhile (\<lambda>b. b \<noteq> 0) k = takeWhile (\<lambda>b. b \<noteq> 0) l" by (simp add: HashMapCStringCmp_def)
  then show "hash_fn HashMapCStringCmp k = hash_fn HashMapCStringCmp l"
    using h32_takeWhile [of k] h32_takeWhile [of l] by (simp add: HashMapCStringCmp_def)
qed (auto simp: HashMapCStringCmp_def)

interpretation string_pool: compare_laws StringPoolCompareFunction
  by unfold_locales (auto simp: StringPoolCompareFunction_def)

section \<open>Iterating\<close>

text \<open>The loop over a map from \<open>begin()\<close> to \<open>end()\<close>, with a bound on the number of steps.\<close>

fun collect :: "nat \<Rightarrow> ('k, 'v) hash_map \<Rightarrow> nat \<Rightarrow> ('k \<times> 'v) list outcome" where
  "collect 0 m ite = Inl Diverges"
| "collect (Suc n) m ite =
    (if ite = end_iter m then Inr []
     else bindE (deref_iter m ite) (\<lambda>p. bindE (collect n m (next_iter m ite)) (\<lambda>ps. Inr (p # ps))))"

lemma skipFree_spec:
  "\<exists>n. skipFree tab pos = pos + n \<and> n \<le> length tab \<and> pairs_of (take n tab) = []
    \<and> (n < length tab \<longrightarrow> content (tab ! n) \<noteq> None)"
proof (induction tab arbitrary: pos)
  case (Cons e tab)
  show ?case
  proof (cases "isFree e")
    case True
    obtain n where "skipFree tab (Suc pos) = Suc pos + n" "n \<le> length tab" "pairs_of (take n tab) = []"
      "n < length tab \<longrightarrow> content (tab ! n) \<noteq> None" using Cons by blast
    with True show ?thesis by (intro exI [of _ "Suc n"]) (simp add: isFree_def)
  next
    case False
    then show ?thesis by (intro exI [of _ 0]) (cases "content e", auto simp: isFree_def)
  qed
qed simp

lemma collect_from:
  assumes "pos \<le> length (theHashTab m)" "length (theHashTab m) - pos < n"
  shows "collect n m (iterator m pos) = Inr (pairs_of (drop pos (theHashTab m)))"
  using assms
proof (induction n arbitrary: pos)
  case (Suc n)
  let ?t = "theHashTab m"
  obtain k where k: "iterator m pos = pos + k" "k \<le> length ?t - pos" "pairs_of (take k (drop pos ?t)) = []"
    "k < length ?t - pos \<longrightarrow> content (?t ! (pos + k)) \<noteq> None"
    using skipFree_spec [of "drop pos ?t" pos] Suc.prems(1) by (auto simp: iterator_def)
  have pairs: "pairs_of (drop pos ?t) = pairs_of (drop (pos + k) ?t)"
    using pairs_of_append [of "take k (drop pos ?t)" "drop k (drop pos ?t)", unfolded append_take_drop_id] k(3)
    by (simp add: add.commute)
  have "end_iter m = length ?t" by (simp add: end_iter_def iterator_def)
  show ?case
  proof (cases "pos + k = length ?t")
    case True
    then show ?thesis using k(1) pairs \<open>end_iter m = length ?t\<close> by simp
  next
    case False
    then have lt: "pos + k < length ?t" using k(2) Suc.prems(1) by simp
    then obtain p where p: "content (?t ! (pos + k)) = Some p" using k(4) by auto
    have "collect n m (iterator m (Suc (pos + k))) = Inr (pairs_of (drop (Suc (pos + k)) ?t))"
      using lt Suc.prems by (intro Suc.IH) auto
    moreover have "pairs_of (drop (pos + k) ?t) = p # pairs_of (drop (Suc (pos + k)) ?t)"
      using p lt by (simp add: Cons_nth_drop_Suc [symmetric])
    ultimately show ?thesis using k(1) p lt pairs \<open>end_iter m = length ?t\<close>
      by (simp add: deref_iter_def entryPair_def next_iter_def)
  qed
qed simp

context compare_laws
begin

lemma run_rep:
  fixes p :: "'k \<times> 'v"
  assumes "0 < s"
  shows "\<exists>m'. bindE (newHashMap C p s) (run_cmds map_exec cs)
      = Inr (fst (run_spec (map_spec (equal_fn C)) cs (\<lambda>_. None, 0)), m')
    \<and> map_inv C m' \<and> map_abs C m' = snd (run_spec (map_spec (equal_fn C)) cs (\<lambda>_. None, 0))"
proof -
  obtain m where m: "newHashMap C p s = Inr m" "map_inv C m" "map_abs C m = ((\<lambda>_. None), 0)"
    using new_rep [OF assms, of p] by blast
  show ?thesis using map_refines.refine_run [OF m(2), of cs] m(1,3) by simp
qed

lemma exec_inv: "map_inv C m \<Longrightarrow> \<exists>r m'. map_exec c m = Inr (r, m') \<and> map_inv C m'"
  using map_refines.refine_step [of m c] by blast

lemma inv_pairs:
  assumes "map_inv C m"
  shows "theNumEntries m = length (pairs_of (theHashTab m))" "keys_differ (equal_fn C) (pairs_of (theHashTab m))"
    "theCompareFunction m = C"
  using assms rep_pairs(2,3) map_repD(1) unfolding map_inv_def by blast+

lemma run_collect:
  fixes p :: "'k \<times> 'v"
  assumes "0 < s"
  shows "\<exists>rs m' ps. bindE (newHashMap C p s) (run_cmds map_exec cs) = Inr (rs, m')
    \<and> collect (Suc (capacity m')) m' (begin_iter m') = Inr ps \<and> keys_differ (equal_fn C) ps
    \<and> (assoc (equal_fn C) ps, length ps) = snd (run_spec (map_spec (equal_fn C)) cs (\<lambda>_. None, 0))"
proof -
  obtain rs m' where m': "bindE (newHashMap C p s) (run_cmds map_exec cs) = Inr (rs, m')" "map_inv C m'"
    "map_abs C m' = snd (run_spec (map_spec (equal_fn C)) cs (\<lambda>_. None, 0))" using run_rep [OF assms, of p cs] by blast
  have "collect (Suc (capacity m')) m' (begin_iter m') = Inr (pairs_of (theHashTab m'))"
    using collect_from [of 0 m' "Suc (capacity m')"] by (simp add: begin_iter_def capacity_def)
  moreover have "(assoc (equal_fn C) (pairs_of (theHashTab m')), length (pairs_of (theHashTab m'))) = map_abs C m'"
    using inv_pairs(1) [OF m'(2)] by (auto simp: map_abs_def lookup_def)
  ultimately show ?thesis using m' inv_pairs(2) [OF m'(2)]
    by (intro exI [of _ rs] exI [of _ m'] exI [of _ "pairs_of (theHashTab m')"]) simp
qed

end

text \<open>A map with two buckets, for concrete runs; only the first entries of its table are written out.\<close>

lemma hash_letters: "unat (utf8_hash [97]) mod Suc (Suc 0) = 0" "unat (utf8_hash [99]) mod Suc (Suc 0) = 0"
  by (simp_all add: utf8_hash_def flip: numeral_2_eq_2)

lemma load_2:
  "theMaxLoad m = maxLoad 2 \<Longrightarrow> aboveMaxLoad m \<longleftrightarrow> 1 < theNumEntries m"
  "theMaxLoad m = maxLoad 2 \<Longrightarrow> belowHalfLoad m \<longleftrightarrow> theNumEntries m = 0"
  by (auto simp: aboveMaxLoad_def belowHalfLoad_def maxLoad_def double_round_def DEFAULT_LOAD_FACTOR_def bit_len.simps)

lemma skipFree_all: "\<forall>e \<in> set tab. isFree e \<Longrightarrow> skipFree tab pos = pos + length tab"
  by (induction tab arbitrary: pos) auto

lemma new_map_2:
  "\<exists>tab. length tab = 30 \<and> (\<forall>e \<in> set tab. isFree e) \<and> newHashMap C p 2 = Inr
    \<lparr>theHashTab = HashEntry # HashEntry # \<lparr>content = None, theNext = 1\<rparr> # \<lparr>content = None, theNext = 1\<rparr> # tab,
     theNumBuckets = Suc (Suc 0), theNumEntries = 0, theMaxLoad = maxLoad 2, theCompareFunction = C, theNumCollisions = 0, newPair = p\<rparr>"
proof -
  have "[0..<34] = [0, 1, 2, 3] @ [4..<34]" by (simp add: upt_rec)
  then show ?thesis
    by (intro exI [of _ "map (\<lambda>k. if k = 33 then HashEntry else HashEntry\<lparr>theNext := 1\<rparr>) [4..<34]"])
      (auto simp: newHashMap_def formatCollisionArea_eq computeCapacity_def format_tab_def isFree_def HashEntry_def nth_append)
qed

lemma findEntry_numeral:
  "findEntry equal tab item (numeral w) (Some i) =
    bindE (rd tab i) (\<lambda>e. case content e of None \<Rightarrow> Inl Undefined
      | Some (k, v) \<Rightarrow> if equal k item then Inr (Some i) else findEntry equal tab item (pred_numeral w) (getNext i e))"
  by (simp add: numeral_eq_Suc)

lemmas hash_eval = findEntry_numeral hash_letters load_2 insert_item_def hashInsert.simps retries_def bucket_def modEntry_def linkFree_def takeFree_def
  erase_iter_def eraseEntry_def pushFree_def shrinkHashTab_def begin_iter_def next_iter_def end_iter_def iterator_def
  size_map_def HashEntry_def isFree_def unsetFree_def setFree_def setNext_def getNext_def HashMapZStringCmp_def numeral_3_eq_3

section \<open>Properties\<close>

text \<open>
  C2: a map made with at least one bucket runs every sequence of lookups, insertions,
  updates, erasures, clears and rehashes without an error and without looping, and answers each of them as a
  finite function does whose keys are identified by the comparator.
\<close>

theorem hash_map_refines:
  fixes p :: "'k \<times> 'v"
  assumes "compare_laws C" "0 < s"
  shows "\<exists>m'. bindE (newHashMap C p s) (run_cmds map_exec cs)
    = Inr (fst (run_spec (map_spec (equal_fn C)) cs (\<lambda>_. None, 0)), m')"
  using compare_laws.run_rep [OF assms, of p cs] by blast

theorem hash_map_refines_witness:
  "\<exists>m'. bindE (newHashMap HashMapZStringCmp ([], 0 :: nat) 1)
      (run_cmds map_exec [Insert [97] 1, Insert [98] 2, Insert [97] 3, Erase [97], Get [98], Exists [97], Size])
    = Inr ([Stored True 1, Stored True 2, Stored False 1, Flag True, Value (Some 2), Flag False, Count 1], m')"
  using hash_map_refines [OF zstring_map.compare_laws_axioms, of 1 "([], 0 :: nat)"
    "[Insert [97] 1, Insert [98] 2, Insert [97] 3, Erase [97], Get [98], Exists [97], Size]"]
  by (simp add: HashMapZStringCmp_def)

text \<open>
  C19: after any sequence of commands, iterating from \<open>begin()\<close> to \<open>end()\<close> ends, and
  visits exactly the pairs the abstract map holds, each once.
\<close>

theorem hash_map_iteration:
  fixes p :: "'k \<times> 'v"
  assumes "compare_laws C" "0 < s"
  shows "\<exists>rs m' ps. bindE (newHashMap C p s) (run_cmds map_exec cs) = Inr (rs, m')
    \<and> collect (Suc (capacity m')) m' (begin_iter m') = Inr ps \<and> keys_differ (equal_fn C) ps
    \<and> (assoc (equal_fn C) ps, length ps) = snd (run_spec (map_spec (equal_fn C)) cs (\<lambda>_. None, 0))"
  using compare_laws.run_collect [OF assms] .

theorem hash_map_iteration_witness:
  "\<exists>rs m' ps. bindE (newHashMap HashMapCStringCmp ([], 0 :: nat) 1) (run_cmds map_exec [Insert [97, 0] 1, Update [97] 2])
      = Inr (rs, m')
    \<and> collect (Suc (capacity m')) m' (begin_iter m') = Inr ps \<and> assoc (equal_fn HashMapCStringCmp) ps [97] = Some 2 \<and> length ps = 1"
proof -
  obtain rs m' ps where w: "bindE (newHashMap HashMapCStringCmp ([], 0 :: nat) 1) (run_cmds map_exec [Insert [97, 0] 1, Update [97] 2])
      = Inr (rs, m')" "collect (Suc (capacity m')) m' (begin_iter m') = Inr ps"
    "(assoc (equal_fn HashMapCStringCmp) ps, length ps)
      = snd (run_spec (map_spec (equal_fn HashMapCStringCmp)) [Insert [97, 0] 1, Update [97] 2] (\<lambda>_. None, 0))"
    using hash_map_iteration [OF cstring_map.compare_laws_axioms, of 1 "([], 0 :: nat)" "[Insert [97, 0] 1, Update [97] 2]"] by auto
  have "assoc (equal_fn HashMapCStringCmp) ps [97] = Some 2 \<and> length ps = 1"
    using w(3) by (auto simp: HashMapCStringCmp_def dest: fun_cong)
  with w(1,2) show ?thesis by blast
qed

text \<open>
  C17: every command keeps the representation invariant: each entry in use is linked into
  the bucket of its key's hash and nowhere else, the others into the free list, keys are pairwise different,
  the entry count is right and the load limit is that of the number of buckets.
\<close>

theorem hash_map_invariant:
  assumes "compare_laws C" "map_inv C m"
  shows "\<exists>r m'. map_exec c m = Inr (r, m') \<and> map_inv C m' \<and> size_map m' = length (pairs_of (theHashTab m'))"
  using compare_laws.exec_inv [OF assms, of c] compare_laws.inv_pairs(1) [OF assms(1)] by (auto simp: size_map_def)

theorem hash_map_invariant_witness:
  "\<exists>r m'. bindE (newHashMap StringPoolCompareFunction ([], ()) 2) (map_exec (Insert [97] ())) = Inr (r, m')
    \<and> map_inv StringPoolCompareFunction m' \<and> size_map m' = length (pairs_of (theHashTab m'))"
proof -
  obtain m where "newHashMap StringPoolCompareFunction ([], ()) 2 = Inr m" "map_inv StringPoolCompareFunction m"
    using string_pool.new_rep [of 2 "([], ())"] by auto
  with hash_map_invariant [OF string_pool.compare_laws_axioms, of m "Insert [97] ()"] show ?thesis by simp
qed

text \<open>
  C24: after the compare function has changed, \<open>rehash()\<close> makes the map valid for the new
  one: it keeps the pairs, their number and the number of buckets. The new function must not identify two of
  the keys.
\<close>

theorem rehash_comparator:
  fixes m :: "('k, 'v) hash_map"
  assumes "compare_laws C" "compare_laws C'" "map_inv C m" "keys_differ (equal_fn C') (pairs_of (theHashTab m))"
  shows "\<exists>m'. rehash (m\<lparr>theCompareFunction := C'\<rparr>) = Inr m' \<and> map_inv C' m'
    \<and> mset (pairs_of (theHashTab m')) = mset (pairs_of (theHashTab m))
    \<and> size_map m' = size_map m \<and> theNumBuckets m' = theNumBuckets m"
proof -
  let ?m = "m\<lparr>theCompareFunction := C'\<rparr>"
  have "0 < theNumBuckets m" using assms(3) map_repD(7) unfolding map_inv_def by blast
  then obtain m' js' B' where m': "rehash ?m = Inr m'" "map_rep C' m' js' B'"
    "mset (all_pairs (theNumBuckets m') B') = mset (pairs_of (theHashTab m))"
    "theNumBuckets m' = theNumBuckets m" "theNumEntries m' = theNumEntries m"
    using compare_laws.resize_rep [OF assms(2), of ?m "theNumBuckets m"] compare_laws.inv_pairs(1) [OF assms(1,3)] assms(4)
    by (auto simp: rehash_def)
  then show ?thesis using compare_laws.rep_pairs(1) [OF assms(2) m'(2)] by (auto simp: map_inv_def size_map_def)
qed

theorem rehash_comparator_witness:
  "\<exists>rs m m'. bindE (newHashMap HashMapCStringCmp ([], 0 :: nat) 2) (run_cmds map_exec [Insert [97] 1, Insert [98] 2]) = Inr (rs, m)
    \<and> rehash (m\<lparr>theCompareFunction := HashMapZStringCmp\<rparr>) = Inr m' \<and> map_inv HashMapZStringCmp m' \<and> size_map m' = 2
    \<and> mset (pairs_of (theHashTab m')) = mset (pairs_of (theHashTab m))"
proof -
  obtain rs m where m: "bindE (newHashMap HashMapCStringCmp ([], 0 :: nat) 2) (run_cmds map_exec [Insert [97] 1, Insert [98] 2]) = Inr (rs, m)"
    "map_inv HashMapCStringCmp m" "snd (map_abs HashMapCStringCmp m) = 2"
    using cstring_map.run_rep [of 2 "([], 0 :: nat)" "[Insert [97] 1, Insert [98] 2]"] by (auto simp: HashMapCStringCmp_def)
  have "keys_differ (equal_fn HashMapZStringCmp) (pairs_of (theHashTab m))"
    using cstring_map.inv_pairs(2) [OF m(2)] unfolding keys_differ_def
    by (rule sorted_wrt_mono_rel [rotated]) (auto simp: HashMapZStringCmp_def cstring_map.equal_refl)
  from rehash_comparator [OF cstring_map.compare_laws_axioms zstring_map.compare_laws_axioms m(2) this] m(1,3)
  show ?thesis by (auto simp: map_abs_def size_map_def)
qed

text \<open>
  C30: erasing at an iterator that points to an entry removes the pair of this entry from the map and
  nothing else, keeps the invariant and moves the iterator on; there is neither an error nor an endless loop. If the entry is the
  head of a bucket with a second entry and the table is not shrunk, the pair of that second entry is in its place afterwards and the
  iterator is behind it: a loop that erases while it iterates passes over this pair.
\<close>

theorem erase_iter_pairs:
  fixes m :: "('k, 'v) hash_map"
  assumes "compare_laws C" "map_inv C m" "deref_iter m pos = Inr p"
  shows "\<exists>pos' m'. erase_iter pos m = Inr (pos', m') \<and> map_inv C m' \<and> pos' = next_iter m' pos
    \<and> add_mset p (mset (pairs_of (theHashTab m'))) = mset (pairs_of (theHashTab m)) \<and> Suc (size_map m') = size_map m
    \<and> (\<forall>i. pos < theNumBuckets m \<and> getNext pos (theHashTab m ! pos) = Some i \<and> theNumBuckets m' = theNumBuckets m
        \<longrightarrow> deref_iter m' pos = deref_iter m i \<and> pos < pos')"
proof -
  obtain js B where rep: "map_rep C m js B" using assms(2) by (auto simp: map_inv_def)
  obtain m' where m': "erase_iter pos m = Inr (next_iter m' pos, m')" "map_inv C m'"
    "add_mset p (mset (pairs_of (theHashTab m'))) = mset (pairs_of (theHashTab m))"
    using compare_laws.erase_iter_rep [OF assms(1) rep assms(3)] by blast
  have "Suc (size_map m') = size_map m"
    using arg_cong [OF m'(3), of size] compare_laws.inv_pairs(1) [OF assms(1,2)]
      compare_laws.inv_pairs(1) [OF assms(1) m'(2)] by (simp add: size_map_def)
  moreover have "deref_iter m' pos = deref_iter m i \<and> pos < next_iter m' pos"
    if "pos < theNumBuckets m" "getNext pos (theHashTab m ! pos) = Some i" "theNumBuckets m' = theNumBuckets m" for i
    using compare_laws.erase_iter_moves [OF assms(1) rep that(1,2) m'(1) that(3) assms(3)] by simp
  ultimately show ?thesis using m' by blast
qed

theorem erase_iter_pairs_witness:
  "\<exists>rs m pos' m'. bindE (newHashMap HashMapZStringCmp ([], 0 :: nat) 2) (run_cmds map_exec [Insert [97] 1, Insert [99] 2]) = Inr (rs, m)
    \<and> deref_iter m (begin_iter m) = Inr ([97], 1) \<and> erase_iter (begin_iter m) m = Inr (pos', m')
    \<and> map_inv HashMapZStringCmp m' \<and> size_map m' = 1 \<and> pairs_of (theHashTab m') = [([99], 2)]"
proof -
  obtain rs m where m: "bindE (newHashMap HashMapZStringCmp ([], 0 :: nat) 2) (run_cmds map_exec [Insert [97] 1, Insert [99] 2]) = Inr (rs, m)"
    "map_inv HashMapZStringCmp m"
    using zstring_map.run_rep [of 2 "([], 0 :: nat)" "[Insert [97] 1, Insert [99] 2]"] by auto
  obtain tab where tab: "\<forall>e \<in> set tab. isFree e" and new: "newHashMap HashMapZStringCmp ([], 0 :: nat) 2 = Inr
    \<lparr>theHashTab = HashEntry # HashEntry # \<lparr>content = None, theNext = 1\<rparr> # \<lparr>content = None, theNext = 1\<rparr> # tab,
     theNumBuckets = Suc (Suc 0), theNumEntries = 0, theMaxLoad = maxLoad 2, theCompareFunction = HashMapZStringCmp,
     theNumCollisions = 0, newPair = ([], 0)\<rparr>" using new_map_2 by blast
  have "pairs_of tab = []" using tab by (induction tab) (auto simp: isFree_def)
  with m(1) [unfolded new bindE_simps] have at: "deref_iter m (begin_iter m) = Inr ([97], 1)" "mset (pairs_of (theHashTab m)) = {#([97], 1), ([99], 2)#}" "size_map m = 2"
    by (auto simp: hash_eval deref_iter_def entryPair_def)
  from erase_iter_pairs [OF zstring_map.compare_laws_axioms m(2) at(1)] at(2,3) m(1) at(1) show ?thesis by fastforce
qed

end
