(* ===== verification/Utf8.thy ===== *)
theory Utf8
  imports Zorba_Prelude
begin

text \<open>
  UTF-8: encoding and decoding of code points, lengths and positions, validation
  (\<open>util/utf8_util.cpp\<close>, \<open>util/utf8_util.tcc\<close>, \<open>util/utf8_util_base.h\<close>, \<open>unicode::is_valid\<close> of
  \<open>util/unicode_util.h\<close>).

  A \<open>char*\<close> or octet iterator is a position in a buffer; reading outside of the buffer is undefined. A
  zero-terminated string is a buffer that holds the zero. \<open>code_point\<close> is ICU's \<open>UChar32\<close>, a signed
  32-bit integer, kept as a word whose comparisons are the signed ones.
\<close>

declare bindE_cong [fundef_cong]

section \<open>Code points\<close>

type_synonym code_point = u32

definition unicode_invalid :: code_point where
  "unicode_invalid = - 1"

definition is_valid :: "code_point \<Rightarrow> bool" where
  "is_valid c \<longleftrightarrow> 0 \<le> sint c \<and> sint c \<le> 0x00D7FF \<or> sint c \<ge> 0x00E000 \<and> sint c \<le> 0x00FFFD
    \<or> sint c \<ge> 0x010000 \<and> sint c \<le> 0x10FFFF"

section \<open>Bytes\<close>

definition is_start_byte :: "byte \<Rightarrow> bool" where
  "is_start_byte u \<longleftrightarrow> u < 128 \<or> u \<ge> 194 \<and> u < 254"

definition is_continuation_byte :: "byte \<Rightarrow> bool" where
  "is_continuation_byte u \<longleftrightarrow> u \<ge> 128 \<and> u < 192"

definition char_length_table :: "nat list" where
  "char_length_table =
    [1,1,1,1,1,1,1,1,1,1,1,1,1,1,1,1,
     1,1,1,1,1,1,1,1,1,1,1,1,1,1,1,1,
     1,1,1,1,1,1,1,1,1,1,1,1,1,1,1,1,
     1,1,1,1,1,1,1,1,1,1,1,1,1,1,1,1,
     1,1,1,1,1,1,1,1,1,1,1,1,1,1,1,1,
     1,1,1,1,1,1,1,1,1,1,1,1,1,1,1,1,
     1,1,1,1,1,1,1,1,1,1,1,1,1,1,1,1,
     1,1,1,1,1,1,1,1,1,1,1,1,1,1,1,1,
     0,0,0,0,0,0,0,0,0,0,0,0,0,0,0,0,
     0,0,0,0,0,0,0,0,0,0,0,0,0,0,0,0,
     0,0,0,0,0,0,0,0,0,0,0,0,0,0,0,0,
     0,0,0,0,0,0,0,0,0,0,0,0,0,0,0,0,
     0,0,2,2,2,2,2,2,2,2,2,2,2,2,2,2,
     2,2,2,2,2,2,2,2,2,2,2,2,2,2,2,2,
     3,3,3,3,3,3,3,3,3,3,3,3,3,3,3,3,
     4,4,4,4,4,4,4,4,5,5,5,5,6,6,0,0]"

definition char_length :: "byte \<Rightarrow> nat outcome" where
  "char_length start =
    (let c_len = char_length_table ! unat start in
     if c_len \<noteq> 0 then Inr c_len else Inl (Invalid_byte start))"

section \<open>Encoding and decoding\<close>

definition Mask1Byte :: u32 where "Mask1Byte = 0x80"
definition Mask2Bytes :: u32 where "Mask2Bytes = 0xC0"
definition Mask3Bytes :: u32 where "Mask3Bytes = 0xE0"
definition Mask4Bytes :: u32 where "Mask4Bytes = 0xF0"
definition Mask5Bytes :: u32 where "Mask5Bytes = 0xF8"
definition Mask6Bytes :: u32 where "Mask6Bytes = 0xFC"

text \<open>The bytes written; their number is the result.\<close>

definition encode :: "code_point \<Rightarrow> byte list" where
  "encode cp =
    (if \<not> is_valid cp then []
     else let n = cp AND 0xFFFFFFFF in
       if n < 0x80 then [ucast n]
       else if n < 0x800 then
         [ucast (Mask2Bytes OR drop_bit 6 n),
          ucast (Mask1Byte OR (n AND 0x3F))]
       else if n < 0x10000 then
         [ucast (Mask3Bytes OR drop_bit 12 n),
          ucast (Mask1Byte OR (drop_bit 6 n AND 0x3F)),
          ucast (Mask1Byte OR (n AND 0x3F))]
       else if n < 0x200000 then
         [ucast (Mask4Bytes OR drop_bit 18 n),
          ucast (Mask1Byte OR (drop_bit 12 n AND 0x3F)),
          ucast (Mask1Byte OR (drop_bit 6 n AND 0x3F)),
          ucast (Mask1Byte OR (n AND 0x3F))]
       else if n < 0x4000000 then
         [ucast (Mask5Bytes OR drop_bit 24 n),
          ucast (Mask1Byte OR (drop_bit 18 n AND 0x3F)),
          ucast (Mask1Byte OR (drop_bit 12 n AND 0x3F)),
          ucast (Mask1Byte OR (drop_bit 6 n AND 0x3F)),
          ucast (Mask1Byte OR (n AND 0x3F))]
       else if n < 0x8000000 then
         [ucast (Mask6Bytes OR drop_bit 30 n),
          ucast (Mask1Byte OR (drop_bit 24 n AND 0x3F)),
          ucast (Mask1Byte OR (drop_bit 18 n AND 0x3F)),
          ucast (Mask1Byte OR (drop_bit 12 n AND 0x3F)),
          ucast (Mask1Byte OR (drop_bit 6 n AND 0x3F)),
          ucast (Mask1Byte OR (n AND 0x3F))]
       else [])"

text \<open>The fall-through cases of the \<open>switch\<close>: \<open>len\<close> bytes are left, \<open>m\<close> masks the next one.\<close>

fun next_bytes :: "byte list \<Rightarrow> nat \<Rightarrow> u32 \<Rightarrow> u32 \<Rightarrow> nat \<Rightarrow> (code_point \<times> nat) outcome" where
  "next_bytes s 0 m cp i = Inr (cp, i)"
| "next_bytes s (Suc len) m cp i =
    bindE (rd s i) (\<lambda>b. next_bytes s len 0x3F (cp OR push_bit (6 * len) (scast b AND m)) (Suc i))"

definition next_char :: "byte list \<Rightarrow> nat \<Rightarrow> (code_point \<times> nat) outcome" where
  "next_char s i =
    bindE (rd s i) (\<lambda>b.
      let cp = scast b AND 0xFF :: u32 in
      if cp < 0x80 then Inr (cp, Suc i)
      else bindE (char_length (ucast cp)) (\<lambda>len.
        if 2 \<le> len \<and> len \<le> 6 then next_bytes s len (drop_bit len 0x7F AND 0x1F) 0 i
        else Inr (unicode_invalid, i)))"

text \<open>Walking back to a start byte.\<close>

fun prev_start :: "byte list \<Rightarrow> nat \<Rightarrow> nat outcome" where
  "prev_start s 0 = Inl Undefined"
| "prev_start s (Suc i) = bindE (rd s i) (\<lambda>b. if is_start_byte b then Inr i else prev_start s i)"

definition prev_char :: "byte list \<Rightarrow> nat \<Rightarrow> (code_point \<times> nat) outcome" where
  "prev_char s oi = bindE (prev_start s oi) (\<lambda>oi. bindE (next_char s oi) (\<lambda>(cp, temp). Inr (cp, oi)))"

text \<open>\<open>operator++\<close> of the iterator over characters: on to the next start byte.\<close>

function go_forward :: "byte list \<Rightarrow> nat \<Rightarrow> nat outcome" where
  "go_forward s oi = bindE (rd s (Suc oi)) (\<lambda>b. if is_start_byte b then Inr (Suc oi) else go_forward s (Suc oi))"
  by pat_completeness auto

termination
  by (relation "measure (\<lambda>(s, oi). length s - oi)") (auto simp: rd_def split: if_splits)

declare go_forward.simps [simp del]

section \<open>Lengths and positions\<close>

text \<open>\<open>length\<close> of a zero-terminated string and of a range, which are the same loop with two ends.\<close>

function length_loop :: "byte list \<Rightarrow> nat option \<Rightarrow> nat \<Rightarrow> nat \<Rightarrow> nat outcome" where
  "length_loop s e i total_len =
    (if (case e of None \<Rightarrow> False | Some j \<Rightarrow> j \<le> i) then Inr total_len
     else bindE (rd s i) (\<lambda>b.
       if b = 0 then Inr total_len
       else bindE (char_length b) (\<lambda>n. length_loop s e (i + n) (Suc total_len))))"
  by pat_completeness auto

termination
  by (relation "measure (\<lambda>(s, e, i, t). length s - i)")
    (auto simp: rd_def char_length_def Let_def split: if_splits)

declare length_loop.simps [simp del]

definition utf8_length :: "byte list \<Rightarrow> nat outcome" where
  "utf8_length s = length_loop s None 0 0"

definition utf8_length_range :: "byte list \<Rightarrow> nat \<Rightarrow> nat \<Rightarrow> nat outcome" where
  "utf8_length_range s b e = length_loop s (Some e) b 0"

text \<open>\<open>npos\<close> is \<open>None\<close>.\<close>

fun byte_pos_loop :: "byte list \<Rightarrow> nat option \<Rightarrow> nat \<Rightarrow> nat \<Rightarrow> nat option outcome" where
  "byte_pos_loop s e 0 p = Inr (Some p)"
| "byte_pos_loop s e (Suc char_pos) p =
    (if (case e of None \<Rightarrow> False | Some j \<Rightarrow> j \<le> p) then Inr None
     else bindE (rd s p) (\<lambda>b.
       if e = None \<and> b = 0 then Inr None
       else bindE (char_length b) (\<lambda>n. byte_pos_loop s e char_pos (p + n))))"

definition byte_pos :: "byte list \<Rightarrow> nat option \<Rightarrow> nat option outcome" where
  "byte_pos s char_pos = (case char_pos of None \<Rightarrow> Inr None | Some k \<Rightarrow> byte_pos_loop s None k 0)"

definition byte_pos_len :: "byte list \<Rightarrow> nat \<Rightarrow> nat option \<Rightarrow> nat option outcome" where
  "byte_pos_len s s_len char_pos = (case char_pos of None \<Rightarrow> Inr None | Some k \<Rightarrow> byte_pos_loop s (Some s_len) k 0)"

function char_pos :: "byte list \<Rightarrow> nat \<Rightarrow> nat \<Rightarrow> nat \<Rightarrow> nat outcome" where
  "char_pos s i p pos =
    (if i < p then bindE (rd s i) (\<lambda>b. bindE (char_length b) (\<lambda>n. char_pos s (i + n) p (Suc pos))) else Inr pos)"
  by pat_completeness auto

termination
  by (relation "measure (\<lambda>(s, i, p, pos). p - i)")
    (auto simp: char_length_def Let_def split: if_splits)

declare char_pos.simps [simp del]

section \<open>Reading and validating\<close>

text \<open>
  \<open>read\<close> from a stream: the bytes put in the buffer, the number of bytes of the character (zero at the
  end of the stream), and the rest of the stream.
\<close>

fun read_rest :: "nat \<Rightarrow> byte list \<Rightarrow> byte list \<Rightarrow> (bool \<times> byte list \<times> byte list) outcome" where
  "read_rest 0 buf is = Inr (True, buf, is)"
| "read_rest (Suc n) buf [] = Inr (False, buf, [])"
| "read_rest (Suc n) buf (c # is) =
    (if \<not> is_continuation_byte c then Inl (Invalid_byte c) else read_rest n (buf @ [c]) is)"

fun read_char :: "byte list \<Rightarrow> (nat \<times> byte list \<times> byte list) outcome" where
  "read_char [] = Inr (0, [], [])"
| "read_char (c # is) =
    bindE (char_length c) (\<lambda>c_len.
    bindE (read_rest (c_len - 1) [c] is) (\<lambda>(got, buf, is). Inr (if got then c_len else 0, buf, is)))"

text \<open>
  \<open>validate\<close>: the position of the first invalid byte, or \<open>None\<close>. The inner loop over the bytes of a
  character gives back the position where it stops and whether it met an invalid byte; \<open>e\<close> is the end
  of the string when its length is given.
\<close>

fun valid_rest :: "byte list \<Rightarrow> nat option \<Rightarrow> nat \<Rightarrow> nat \<Rightarrow> (bool \<times> nat) outcome" where
  "valid_rest s e 0 i = Inr (True, i)"
| "valid_rest s e (Suc c_len) i =
    (if e = Some (Suc i) then Inr (False, i)
     else bindE (rd s (Suc i)) (\<lambda>b.
       if \<not> is_continuation_byte b then Inr (False, Suc i) else valid_rest s e c_len (Suc i)))"

lemma valid_rest_pos: "valid_rest s e n i = Inr (b, j) \<Longrightarrow> i \<le> j"
  by (induction s e n i rule: valid_rest.induct) (fastforce simp: bindE_eq_Inr split: if_splits)+

function validate_loop :: "byte list \<Rightarrow> nat option \<Rightarrow> nat \<Rightarrow> nat option outcome" where
  "validate_loop s e i =
    (if e = Some i then Inr None
     else bindE (rd s i) (\<lambda>b.
       if e = None \<and> b = 0 then Inr None
       else case char_length b of
         Inl _ \<Rightarrow> Inr (Some i)
       | Inr c_len \<Rightarrow>
           bindE (valid_rest s e (c_len - 1) i) (\<lambda>(ok, j). if ok then validate_loop s e (Suc j) else Inr (Some j))))"
  by pat_completeness auto

termination
  by (relation "measure (\<lambda>(s, e, i). length s - i)")
    (auto simp: rd_def split: if_splits dest!: valid_rest_pos)

declare validate_loop.simps [simp del]

definition validate :: "byte list \<Rightarrow> nat option outcome" where
  "validate s = validate_loop s None 0"

definition validate_len :: "byte list \<Rightarrow> nat \<Rightarrow> nat option outcome" where
  "validate_len s s_len = validate_loop s (Some s_len) 0"

section \<open>Strings of code points\<close>

text \<open>\<open>append_codepoints\<close> pushes each code point on the string.\<close>

definition append_codepoints :: "code_point list \<Rightarrow> byte list \<Rightarrow> byte list" where
  "append_codepoints cps s = fold (\<lambda>c s. s @ encode c) cps s"

text \<open>\<open>to_codepoints\<close> copies from \<open>begin()\<close> to \<open>end()\<close>; \<open>s\<close> is the storage of the string with its final zero.\<close>

lemma go_forward_pos: "go_forward s i = Inr j \<Longrightarrow> i < j \<and> j < length s"
proof (induction s i rule: go_forward.induct)
  case (1 s i)
  show ?case
  proof (cases "Suc i < length s")
    case True
    then show ?thesis using 1 by (auto simp: go_forward.simps [of s i] split: if_splits)
  next
    case False
    then show ?thesis using "1.prems" by (simp add: go_forward.simps [of s i] rd_def)
  qed
qed

function codepoints_from :: "byte list \<Rightarrow> nat \<Rightarrow> nat \<Rightarrow> code_point list outcome" where
  "codepoints_from s e i =
    (if i = e then Inr []
     else bindE (next_char s i) (\<lambda>(cp, temp).
       bindE (go_forward s i) (\<lambda>j. bindE (codepoints_from s e j) (\<lambda>cps. Inr (cp # cps)))))"
  by pat_completeness auto

termination
  by (relation "measure (\<lambda>(s, e, i). length s - i)") (auto dest!: go_forward_pos)

declare codepoints_from.simps [simp del]

definition to_codepoints :: "byte list \<Rightarrow> code_point list outcome" where
  "to_codepoints s = codepoints_from (s @ [0]) (length s) 0"

section \<open>Numbers\<close>

text \<open>
  \<open>itou\<close>: the digits are written backwards with the bytes of each digit reversed, then the buffer is
  reversed. \<open>utf8_digit\<close> and \<open>utf8_size\<close> cache the bytes of the digits already seen. The sum of \<open>zero\<close> and a digit is that of
  the unsigned \<open>code_point\<close> of a build without ICU; with the signed type of ICU it is the same for every \<open>zero\<close> below \<open>2 ^ 31 - 9\<close>.
\<close>

function itou_loop :: "code_point \<Rightarrow> nat \<Rightarrow> nat list \<Rightarrow> byte list list \<Rightarrow> byte list \<Rightarrow> byte list" where
  "itou_loop zero n_prev utf8_size utf8_digit s =
    (let n = n_prev div 10;
         digit = n_prev - n * 10;
         ec = encode (zero + of_nat digit);
         (utf8_size, utf8_digit) =
           (if utf8_size ! digit = 0 then (utf8_size[digit := length ec], utf8_digit[digit := ec])
            else (utf8_size, utf8_digit));
         s = s @ rev (take (utf8_size ! digit) (utf8_digit ! digit))
     in if n \<noteq> 0 then itou_loop zero n utf8_size utf8_digit s else s)"
  by pat_completeness auto

termination
  by (relation "measure (\<lambda>(zero, n, a, b, s). n)") auto

declare itou_loop.simps [simp del]

definition itou :: "nat \<Rightarrow> code_point \<Rightarrow> byte list" where
  "itou n zero = rev (itou_loop zero n (replicate 10 0) (replicate 10 []) []) @ [0]"

end
