(* ===== verification/Utf8_Roundtrip.thy ===== *)
theory Utf8_Roundtrip
  imports Utf8
begin

text \<open>
  UTF-8 texts: what \<open>encode\<close> writes, the decoders read back; lengths, positions and validation of such
  texts; what \<open>validate\<close> accepts; the conversion of numbers to digits.
\<close>

section \<open>Words and bytes\<close>

lemma low6: "(x AND 0x3F :: u32) = take_bit 6 x"
  by (simp add: take_bit_eq_mask mask_eq_exp_minus_1)

definition contB :: "u32 \<Rightarrow> byte" where "contB x = ucast (Mask1Byte OR (x AND 0x3F))"

lemma bit_128: "bit (128 :: nat) i \<longleftrightarrow> i = 7" "bit (128 :: int) i \<longleftrightarrow> i = 7"
  "bit (128 :: byte) i \<longleftrightarrow> i = 7" "bit (128 :: u32) i \<longleftrightarrow> i = 7"
  using bit_exp_iff [where 'a = nat, of 7 i] bit_exp_iff [where 'a = int, of 7 i] 
     bit_exp_iff [where 'a = byte, of 7 i]  bit_exp_iff [where 'a = u32, of 7 i] by auto

lemma bit_unat: "bit (b :: 'a::len word) k \<longleftrightarrow> odd (unat b div 2 ^ k)"
  by (metis bit_unsigned_iff bit_iff_odd bit_imp_le_length possible_bit_nat)

lemma byte_less: "unat (b :: byte) < 256"
  using unsigned_less [of b] by simp

lemma cont_iff: "is_continuation_byte b \<longleftrightarrow> bit b 7 \<and> \<not> bit b 6"
proof -
  define q where "q = unat b div 64"
  have "q < 4" using byte_less [of b] by (simp add: q_def less_mult_imp_div_less)
  then have "q \<in> {0, 1, 2, 3}" by auto
  then have "q = 2 \<longleftrightarrow> odd (q div 2) \<and> even q" by auto
  moreover have "128 \<le> unat b \<and> unat b < 192 \<longleftrightarrow> q = 2" by (auto simp: q_def)
  moreover have "unat b div 128 = q div 2" by (simp add: q_def div_mult2_eq [symmetric])
  ultimately show ?thesis
    by (simp add: is_continuation_byte_def word_le_nat_alt word_less_nat_alt bit_unat q_def)
qed

lemma bit_contB: "bit (contB x) i \<longleftrightarrow> i = 7 \<or> i < 6 \<and> bit x i"
  by (auto simp: contB_def Mask1Byte_def low6 bit_simps bit_128)

lemma contB_cont [simp]: "is_continuation_byte (contB x)"
  by (simp add: cont_iff bit_contB)

lemma contB_low: "scast (contB x) AND 0x3F = (take_bit 6 x :: u32)"
  unfolding low6 by (rule bit_word_eqI) (auto simp: bit_simps bit_contB min_def)



lemma less_bit: "unat x < 2 ^ k \<Longrightarrow> bit x i \<Longrightarrow> i < k"
  by (metis bit_unat div_less even_zero leI order.strict_trans2 power_increasing one_le_numeral)

lemma lead:
  assumes "unat x < 2 ^ k" "take_bit k h = 0" "unat h + 2 ^ k \<le> 256" shows "unat (ucast (h OR x :: u32) :: byte) = unat h + unat x"
proof -
  have "h AND x = 0"
  proof (rule bit_word_eqI)
    fix i show "bit (h AND x) i \<longleftrightarrow> bit (0 :: u32) i"
      using less_bit [OF assms(1), of i] arg_cong [OF assms(2), of "\<lambda>w. bit w i"] by (auto simp: bit_simps)
  qed
  then have "h OR x = h + x" by (simp add: disjunctive_add_eq_or)
  moreover have "unat h + unat x < 256" using assms(1,3) by simp
  ultimately show ?thesis by (simp add: unsigned_ucast_eq unat_word_ariths take_bit_eq_mod)
qed

lemma scast_ff: "scast (b :: byte) AND 0xFF = (ucast b :: u32)"
proof -
  have ff: "x AND 0xFF = take_bit 8 (x :: u32)" for x by (simp add: take_bit_eq_mask mask_eq_exp_minus_1)
  show ?thesis unfolding ff
  proof (rule bit_word_eqI)
    fix i assume "i < LENGTH(32)"
    then show "bit (take_bit 8 (scast b :: u32)) i \<longleftrightarrow> bit (ucast b :: u32) i"
      using bit_imp_le_length [of b i] by (cases "i < 7"; cases "i = 7") (auto simp: bit_simps min_def)
  qed
qed

lemma ucast_byte [simp]: "ucast (ucast (b :: byte) :: u32) = b"
  by (auto intro!: bit_word_eqI simp: bit_simps unsigned_ucast_eq)

lemma unat_ucast_byte [simp]: "unat (ucast (b :: byte) :: u32) = unat b"
  using byte_less [of b] by (simp add: unsigned_ucast_eq take_bit_eq_mod)

lemma lead_low:
  assumes "unat x < 2 ^ k" "take_bit k h = 0" "k \<le> 7"
  shows "take_bit k (scast (ucast (h OR x :: u32) :: byte)) = (x :: u32)"
proof (rule bit_word_eqI)
  fix i assume "i < LENGTH(32)"
  then show "bit (take_bit k (scast (ucast (h OR x :: u32) :: byte)) :: u32) i \<longleftrightarrow> bit x i"
    using less_bit [OF assms(1), of i] arg_cong [OF assms(2), of "\<lambda>w. bit w i"] assms(3) by (auto simp: bit_simps min_def)
qed

lemma sint_small:
  fixes c :: u32 assumes "unat c < 2147483648" obtains N where "unat c = N" "sint c = int N"
proof -
  have "uint c < 2147483648" using assms by (metis of_nat_less_numeral_iff of_nat_unat)
  then have t: "take_bit 31 (uint c) = uint c" by (simp add: take_bit_int_eq_self_iff)
  have "\<not> bit (uint c) 31"
  proof
    assume "bit (uint c) 31"
    then have "bit (take_bit 31 (uint c)) 31" by (simp only: t)
    then show False by (simp add: bit_take_bit_iff)
  qed
  with t have "sint c = uint c" by (simp add: sint_uint signed_take_bit_eq_if_positive)
  with that show thesis by simp
qed

lemma sint_large: "2147483648 \<le> unat (c :: u32) \<Longrightarrow> sint c < 0"
proof -
  assume "2147483648 \<le> unat c"
  moreover have "unat c < 4294967296" using unsigned_less [of c] by simp
  ultimately have "unat c div 2 ^ 31 = 1" by (intro div_nat_eqI) simp_all
  then have "bit c 31" by (simp only: bit_unat) simp
  then show ?thesis by (simp add: sint_uint signed_take_bit_negative_iff bit_unsigned_iff)
qed

lemma is_valid_unat:
  "is_valid c \<longleftrightarrow> unat c \<le> 0xD7FF \<or> 0xE000 \<le> unat c \<and> unat c \<le> 0xFFFD \<or> 0x10000 \<le> unat c \<and> unat c \<le> 0x10FFFF"
proof (cases "unat c < 2147483648")
  case True
  then obtain N where N: "unat c = N" "sint c = int N" by (rule sint_small)
  show ?thesis unfolding is_valid_def N by linarith
next
  case False
  then show ?thesis using sint_large [of c] by (auto simp: is_valid_def)
qed

lemma char_length_eq:
  "char_length b = (let u = unat b in if u < 128 then Inr 1 else if u < 194 then Inl (Invalid_byte b) else if u < 224 then Inr 2
    else if u < 240 then Inr 3 else if u < 248 then Inr 4 else if u < 252 then Inr 5 else if u < 254 then Inr 6 else Inl (Invalid_byte b))"
proof -
  have tab: "char_length_table = replicate 128 1 @ replicate 66 0 @ replicate 30 2 @ replicate 16 3 @ replicate 8 4 @ replicate 4 5 @ replicate 2 6 @ replicate 2 0"
    by (simp add: char_length_table_def numeral_eq_Suc)
  have "unat b < 256" by (rule byte_less)
  then consider "unat b < 128" | "128 \<le> unat b" "unat b < 194" | "194 \<le> unat b" "unat b < 224" | "224 \<le> unat b" "unat b < 240"
    | "240 \<le> unat b" "unat b < 248" | "248 \<le> unat b" "unat b < 252" | "252 \<le> unat b" "unat b < 254" | "254 \<le> unat b" "unat b < 256"
    by linarith
  then show ?thesis unfolding char_length_def Let_def tab by cases (simp_all add: nth_append less_diff_conv2)
qed


text \<open>The bits of a code point put together from its bytes.\<close>

lemma assemble2: "push_bit 6 (drop_bit 6 n) OR take_bit 6 n = (n :: u32)"
  by (rule bit_word_eqI) (auto simp: bit_simps)

lemma assemble_step:
  assumes "k \<le> j"
  shows "push_bit j (drop_bit j n) OR push_bit k (take_bit (j - k) (drop_bit k n)) = push_bit k (drop_bit k (n :: u32))"
proof (rule bit_word_eqI)
  fix i assume "i < LENGTH(32)"
  then show "bit (push_bit j (drop_bit j n) OR push_bit k (take_bit (j - k) (drop_bit k n))) i \<longleftrightarrow> bit (push_bit k (drop_bit k n)) i"
    using assms by (cases "i < j") (auto simp: bit_simps)
qed

lemma assemble3: "(push_bit 12 (drop_bit 12 n) OR push_bit 6 (take_bit 6 (drop_bit 6 n))) OR take_bit 6 n = (n :: u32)"
  using assemble_step [of 6 12 n] assemble2 [of n] by simp

lemma assemble4:
  "((push_bit 18 (drop_bit 18 n) OR push_bit 12 (take_bit 6 (drop_bit 12 n))) OR push_bit 6 (take_bit 6 (drop_bit 6 n))) OR take_bit 6 n
    = (n :: u32)"
  using assemble_step [of 12 18 n] assemble3 [of n] by simp

lemma unat_drop: "unat (drop_bit k (n :: u32)) = unat n div 2 ^ k"
  unfolding unat_drop_bit_eq by (rule drop_bit_eq_div)

lemma next_bytes_2: "next_bytes s 2 m cp i = bindE (rd s i) (\<lambda>b. bindE (rd s (Suc i)) (\<lambda>c.
    Inr ((cp OR push_bit 6 (scast b AND m)) OR (scast c AND 0x3F), Suc (Suc i))))"
  by (simp add: numeral_2_eq_2)

lemma next_bytes_3: "next_bytes s 3 m cp i = bindE (rd s i) (\<lambda>b. next_bytes s 2 0x3F (cp OR push_bit 12 (scast b AND m)) (Suc i))"
  by (simp add: numeral_3_eq_3 numeral_2_eq_2)

lemma next_bytes_4: "next_bytes s 4 m cp i = bindE (rd s i) (\<lambda>b. next_bytes s 3 0x3F (cp OR push_bit 18 (scast b AND m)) (Suc i))"
  by (simp add: eval_nat_numeral)

text \<open>Decoding from the lead byte on.\<close>

lemma next_char_lead:
  assumes "s ! i = b" "i < length s" "char_length b = Inr len" "2 \<le> len" "len \<le> 6"
  shows "next_char s i = next_bytes s len (drop_bit len 0x7F AND 0x1F) 0 i"
proof -
  have "\<not> (ucast b :: u32) < 0x80"
    using assms(3,4) by (auto simp: char_length_eq Let_def word_less_nat_alt split: if_splits)
  then show ?thesis using assms by (simp add: next_char_def scast_ff Let_def)
qed

text \<open>A sequence as the decoder accepts it: a lead byte and as many continuation bytes as its length says.\<close>

fun utf8_seq :: "byte list \<Rightarrow> bool" where
  "utf8_seq [] = False"
| "utf8_seq (b # cs) \<longleftrightarrow> char_length b = Inr (Suc (length cs)) \<and> list_all is_continuation_byte cs"

definition decodes :: "code_point \<Rightarrow> byte list \<Rightarrow> bool" where
  "decodes cp q \<longleftrightarrow> (\<forall>pre post. next_char (pre @ q @ post) (length pre) = Inr (cp, length pre + length q))"

lemma nth_mid: "(pre @ b # cs) ! length pre = b" "(pre @ a # b # cs) ! Suc (length pre) = b"
  "(pre @ a # b # c # cs) ! Suc (Suc (length pre)) = c" "(pre @ a # b # c # d # cs) ! Suc (Suc (Suc (length pre))) = d"
  by (simp_all add: nth_append)

lemma encode_1:
  assumes "unat n < 0x80" shows "utf8_seq [ucast n] \<and> decodes n [ucast n]"
proof -
  have u: "unat (ucast n :: byte) = unat n" using assms by (simp add: unsigned_ucast_eq take_bit_eq_mod)
  then have "ucast (ucast n :: byte) = n" by (metis unat_ucast_byte word_unat_eq_iff)
  then show ?thesis using assms u
    by (simp add: char_length_eq Let_def decodes_def next_char_def scast_ff nth_append word_less_nat_alt)
qed

lemma encode_2:
  assumes "0x80 \<le> unat n" "unat n < 0x800" defines "b \<equiv> ucast (Mask2Bytes OR drop_bit 6 n) :: byte"
  shows "utf8_seq [b, contB n] \<and> decodes n [b, contB n]"
proof -
  have x: "unat (drop_bit 6 n) = unat n div 64" "2 \<le> unat n div 64" "unat n div 64 < 2 ^ 5"
    using assms by (auto simp: unat_drop)
  have "unat b = 192 + unat n div 64" unfolding b_def Mask2Bytes_def using lead [of "drop_bit 6 n" 5 "0xC0"] x by simp
  then have cl: "char_length b = Inr 2" using x by (simp add: char_length_eq)
  have "take_bit 5 (scast b) = drop_bit 6 n"
    unfolding b_def Mask2Bytes_def using lead_low [of "drop_bit 6 n" 5 "0xC0"] x by simp
  then have "scast b AND 0x1F = drop_bit 6 n" by (simp add: take_bit_eq_mask mask_eq_exp_minus_1)
  then have "decodes n [b, contB n]" using assemble2 [of n]
    by (simp add: decodes_def next_char_lead [OF _ _ cl] nth_mid next_bytes_2 contB_low del: push_bit_and)
  with cl show ?thesis by simp
qed

lemma encode_3:
  assumes "0x800 \<le> unat n" "unat n < 0x10000" defines "b \<equiv> ucast (Mask3Bytes OR drop_bit 12 n) :: byte"
  shows "utf8_seq [b, contB (drop_bit 6 n), contB n] \<and> decodes n [b, contB (drop_bit 6 n), contB n]"
proof -
  have x: "unat (drop_bit 12 n) = unat n div 4096" "unat n div 4096 < 2 ^ 4"
    using assms by (auto simp: unat_drop)
  have "unat b = 224 + unat n div 4096" unfolding b_def Mask3Bytes_def using lead [of "drop_bit 12 n" 4 "0xE0"] x by simp
  then have cl: "char_length b = Inr 3" using x by (simp add: char_length_eq)
  have "take_bit 4 (scast b) = drop_bit 12 n"
    unfolding b_def Mask3Bytes_def using lead_low [of "drop_bit 12 n" 4 "0xE0"] x by simp
  then have "scast b AND 0xF = drop_bit 12 n" by (simp add: take_bit_eq_mask mask_eq_exp_minus_1)
  then have "decodes n [b, contB (drop_bit 6 n), contB n]" using assemble3 [of n]
    by (simp add: decodes_def next_char_lead [OF _ _ cl] nth_mid next_bytes_3 next_bytes_2 contB_low del: push_bit_and)
  with cl show ?thesis by simp
qed

lemma encode_4:
  assumes "0x10000 \<le> unat n" "unat n < 0x200000" defines "b \<equiv> ucast (Mask4Bytes OR drop_bit 18 n) :: byte"
  shows "utf8_seq [b, contB (drop_bit 12 n), contB (drop_bit 6 n), contB n]
    \<and> decodes n [b, contB (drop_bit 12 n), contB (drop_bit 6 n), contB n]"
proof -
  have x: "unat (drop_bit 18 n) = unat n div 262144" "unat n div 262144 < 2 ^ 3"
    using assms by (auto simp: unat_drop)
  have "unat b = 240 + unat n div 262144" unfolding b_def Mask4Bytes_def using lead [of "drop_bit 18 n" 3 "0xF0"] x by simp
  then have cl: "char_length b = Inr 4" using x by (simp add: char_length_eq)
  have "take_bit 3 (scast b) = drop_bit 18 n"
    unfolding b_def Mask4Bytes_def using lead_low [of "drop_bit 18 n" 3 "0xF0"] x by simp
  then have "scast b AND 0x7 = drop_bit 18 n" by (simp add: take_bit_eq_mask mask_eq_exp_minus_1)
  then have "decodes n [b, contB (drop_bit 12 n), contB (drop_bit 6 n), contB n]" using assemble4 [of n]
    by (simp add: decodes_def next_char_lead [OF _ _ cl] nth_mid next_bytes_4 next_bytes_3 next_bytes_2 contB_low del: push_bit_and)
  with cl show ?thesis by simp
qed

lemma and_ones: "n AND 0xFFFFFFFF = (n :: u32)"
proof -
  have "(0xFFFFFFFF :: u32) = - 1" by simp
  then show ?thesis by (simp only: and.right_neutral)
qed

lemma encode_seq:
  assumes "is_valid cp" shows "utf8_seq (encode cp) \<and> decodes cp (encode cp) \<and> length (encode cp) \<le> 4"
proof -
  have "unat cp < 0x200000" using assms by (auto simp: is_valid_unat)
  then consider "unat cp < 0x80" | "0x80 \<le> unat cp" "unat cp < 0x800" | "0x800 \<le> unat cp" "unat cp < 0x10000"
    | "0x10000 \<le> unat cp" "unat cp < 0x200000" by linarith
  then show ?thesis
  proof cases
    case 1
    then show ?thesis using encode_1 [of cp] assms by (simp add: encode_def and_ones word_less_nat_alt)
  next
    case 2
    then show ?thesis using encode_2 [of cp] assms by (simp add: encode_def and_ones word_less_nat_alt Let_def contB_def)
  next
    case 3
    then show ?thesis using encode_3 [of cp] assms by (simp add: encode_def and_ones word_less_nat_alt Let_def contB_def)
  next
    case 4
    then show ?thesis using encode_4 [of cp] assms by (simp add: encode_def and_ones word_less_nat_alt Let_def contB_def)
  qed
qed

lemma decodesD: "decodes cp q \<Longrightarrow> next_char (pre @ q @ post) (length pre) = Inr (cp, length pre + length q)"
  by (simp add: decodes_def)

lemma encode_lead_zero: "is_valid cp \<Longrightarrow> encode cp ! 0 = 0 \<longleftrightarrow> cp = 0"
proof
  assume v: "is_valid cp" and z: "encode cp ! 0 = 0"
  have ne: "encode cp \<noteq> []" using encode_seq [OF v] by (cases "encode cp") auto
  have "next_char (encode cp) 0 = Inr (cp, length (encode cp))"
    using decodesD [of cp "encode cp" "[]" "[]"] encode_seq [OF v] by simp
  then show "cp = 0" using ne z by (simp add: next_char_def)
qed (simp add: encode_def)

section \<open>Texts\<close>

lemma start_not_cont: "is_start_byte b \<Longrightarrow> \<not> is_continuation_byte b"
  by (auto simp: is_start_byte_def is_continuation_byte_def word_less_nat_alt word_le_nat_alt)

lemma start_iff_length: "is_start_byte b \<longleftrightarrow> (\<exists>n. char_length b = Inr n)"
  by (auto simp: is_start_byte_def char_length_eq Let_def word_less_nat_alt word_le_nat_alt)

lemma utf8_seqE:
  assumes "utf8_seq q"
  obtains b cs where "q = b # cs" "char_length b = Inr (Suc (length cs))" "list_all is_continuation_byte cs" "is_start_byte b"
  using assms start_iff_length by (cases q) auto

text \<open>The next start byte after a sequence.\<close>

lemma go_forward_cont:
  assumes "list_all is_continuation_byte cs" "is_start_byte c"
  shows "go_forward (pre @ b # cs @ c # post) (length pre) = Inr (length pre + Suc (length cs))"
  using assms
proof (induction cs arbitrary: pre b)
  case Nil
  then show ?case by (simp add: go_forward.simps nth_append)
next
  case (Cons d cs)
  have "go_forward (pre @ b # (d # cs) @ c # post) (length pre) = go_forward ((pre @ [b]) @ d # cs @ c # post) (length (pre @ [b]))"
    using Cons.prems start_not_cont by (subst go_forward.simps) (auto simp: nth_append)
  also have "\<dots> = Inr (length (pre @ [b]) + Suc (length cs))" using Cons by (intro Cons.IH) auto
  finally show ?case by simp
qed

lemma prev_start_cont:
  assumes "list_all is_continuation_byte cs" "is_start_byte b"
  shows "prev_start (pre @ b # cs @ post) (Suc (length pre) + length cs) = Inr (length pre)"
  using assms
proof (induction cs arbitrary: post rule: rev_induct)
  case Nil
  then show ?case by (simp add: nth_append)
next
  case (snoc c cs)
  then have "\<not> is_start_byte c" using start_not_cont by auto
  then have "prev_start (pre @ b # (cs @ [c]) @ post) (Suc (length pre) + length (cs @ [c]))
    = prev_start (pre @ b # cs @ c # post) (Suc (length pre) + length cs)" by (simp add: nth_append)
  then show ?case using snoc by simp
qed


definition text_of :: "code_point list \<Rightarrow> byte list" where
  "text_of cps = concat (map encode cps)"

lemma text_of_simps [simp]:
  "text_of [] = []" "text_of (c # cps) = encode c @ text_of cps" "text_of (xs @ ys) = text_of xs @ text_of ys"
  by (simp_all add: text_of_def)

lemma append_codepoints_eq: "append_codepoints cps s = s @ text_of cps"
  by (induction cps arbitrary: s) (simp_all add: append_codepoints_def)

lemma text_start:
  assumes "list_all is_valid cps" obtains c post where "text_of cps @ [0] = c # post" "is_start_byte c"
proof (cases cps)
  case Nil
  then show ?thesis using that by (simp add: is_start_byte_def)
next
  case (Cons cp cps')
  then obtain b cs where "encode cp = b # cs" "is_start_byte b" using assms encode_seq [of cp] by (auto elim: utf8_seqE)
  with Cons that show ?thesis by simp
qed

lemma forward_text:
  assumes "is_valid cp" "list_all is_valid cps"
  shows "go_forward (pre @ encode cp @ text_of cps @ [0]) (length pre) = Inr (length pre + length (encode cp))"
proof -
  obtain b cs where q: "encode cp = b # cs" "list_all is_continuation_byte cs" using encode_seq [OF assms(1)] by (auto elim: utf8_seqE)
  obtain c post where "text_of cps @ [0] = c # post" "is_start_byte c" using text_start [OF assms(2)] .
  then show ?thesis using go_forward_cont [OF q(2)] q(1) by simp
qed

lemma codepoints_text:
  assumes "list_all is_valid cps"
  shows "codepoints_from (pre @ text_of cps @ [0]) (length pre + length (text_of cps)) (length pre) = Inr cps"
  using assms
proof (induction cps arbitrary: pre)
  case Nil
  then show ?case by (simp add: codepoints_from.simps)
next
  case (Cons cp cps)
  note v = encode_seq [of cp]
  have "encode cp \<noteq> []" using v Cons.prems by (cases "encode cp") auto
  moreover have "codepoints_from (pre @ encode cp @ text_of cps @ [0]) (length pre + (length (encode cp) + length (text_of cps)))
      (length pre + length (encode cp)) = Inr cps"
    using Cons.IH [of "pre @ encode cp"] Cons.prems by (simp add: add.assoc)
  ultimately show ?case
    using forward_text [of cp cps pre] decodesD [of cp "encode cp" pre "text_of cps @ [0]"] v Cons.prems
    by (subst codepoints_from.simps) simp
qed

text \<open>Texts without the code point zero, as zero-terminated strings.\<close>

lemma lead_nonzero:
  assumes "is_valid cp" "cp \<noteq> 0"
  obtains b cs where "encode cp = b # cs" "b \<noteq> 0" "char_length b = Inr (Suc (length cs))" "list_all is_continuation_byte cs"
  using encode_seq [OF assms(1)] encode_lead_zero [OF assms(1)] assms(2) by (auto elim!: utf8_seqE)

lemma length_text:
  assumes "list_all (\<lambda>cp. is_valid cp \<and> cp \<noteq> 0) cps"
  shows "length_loop (pre @ text_of cps @ [0]) None (length pre) t = Inr (t + length cps)"
  using assms
proof (induction cps arbitrary: pre t)
  case Nil
  then show ?case by (simp add: length_loop.simps nth_append)
next
  case (Cons cp cps)
  obtain b cs where q: "encode cp = b # cs" "b \<noteq> 0" "char_length b = Inr (Suc (length cs))"
    using Cons.prems by (auto elim: lead_nonzero [of cp])
  have "length_loop ((pre @ b # cs) @ text_of cps @ [0]) None (length (pre @ b # cs)) (Suc t) = Inr (Suc t + length cps)"
    using Cons by (intro Cons.IH) auto
  then show ?case using q by (subst length_loop.simps) (simp add: nth_append)
qed

lemma byte_pos_text:
  assumes "list_all (\<lambda>cp. is_valid cp \<and> cp \<noteq> 0) cps" "k \<le> length cps"
  shows "byte_pos_loop (pre @ text_of cps @ [0]) None k (length pre) = Inr (Some (length pre + length (text_of (take k cps))))"
  using assms
proof (induction k arbitrary: pre cps)
  case (Suc k)
  then obtain cp cps' where cps: "cps = cp # cps'" by (cases cps) auto
  obtain b cs where q: "encode cp = b # cs" "b \<noteq> 0" "char_length b = Inr (Suc (length cs))"
    using Suc.prems cps by (auto elim: lead_nonzero [of cp])
  have "byte_pos_loop ((pre @ b # cs) @ text_of cps' @ [0]) None k (length (pre @ b # cs))
      = Inr (Some (length (pre @ b # cs) + length (text_of (take k cps'))))"
    using Suc cps by (intro Suc.IH) auto
  then show ?case using q cps by (simp add: nth_append)
qed simp

section \<open>Validation\<close>

function utf8_wf :: "byte list \<Rightarrow> bool" where
  "utf8_wf s \<longleftrightarrow> (case s of [] \<Rightarrow> True | b # cs \<Rightarrow>
    (case char_length b of Inl _ \<Rightarrow> False
     | Inr n \<Rightarrow> n - 1 \<le> length cs \<and> list_all is_continuation_byte (take (n - 1) cs) \<and> utf8_wf (drop (n - 1) cs)))"
  by pat_completeness auto

termination
  by (relation "measure length") auto

declare utf8_wf.simps [simp del]

lemma valid_rest_end:
  "\<exists>ok j. valid_rest (pre @ b # cs) (Some (Suc (length pre + length cs))) n (length pre) = Inr (ok, j)
    \<and> (ok \<longleftrightarrow> n \<le> length cs \<and> list_all is_continuation_byte (take n cs)) \<and> (ok \<longrightarrow> j = length pre + n)"
proof (induction n arbitrary: pre b cs)
  case (Suc n)
  show ?case
  proof (cases cs)
    case (Cons c cs')
    then show ?thesis using Suc [of "pre @ [b]" c cs'] by (auto simp: nth_append)
  qed auto
qed auto

lemma validate_wf:
  "\<exists>r. validate_loop (pre @ s) (Some (length pre + length s)) (length pre) = Inr r \<and> (r = None \<longleftrightarrow> utf8_wf s)"
proof (induction s arbitrary: pre rule: utf8_wf.induct)
  case (1 s)
  show ?case
  proof (cases s)
    case Nil
    then show ?thesis by (simp add: validate_loop.simps utf8_wf.simps)
  next
    case (Cons b cs)
    show ?thesis
    proof (cases "char_length b")
      case (Inl e)
      then show ?thesis using Cons by (subst validate_loop.simps) (simp add: nth_append utf8_wf.simps)
    next
      case (Inr n)
      obtain ok j where r: "valid_rest (pre @ b # cs) (Some (Suc (length pre + length cs))) (n - 1) (length pre) = Inr (ok, j)"
        "ok \<longleftrightarrow> n - 1 \<le> length cs \<and> list_all is_continuation_byte (take (n - 1) cs)" "ok \<longrightarrow> j = length pre + (n - 1)"
        using valid_rest_end [of pre b cs "n - 1"] by blast
      show ?thesis
      proof (cases ok)
        case True
        let ?pre = "pre @ b # take (n - 1) cs"
        have "n - 1 \<le> length cs" using r True by simp
        then have l: "length ?pre = Suc (length pre + (n - 1))" by simp
        obtain r' where "validate_loop (?pre @ drop (n - 1) cs) (Some (length ?pre + length (drop (n - 1) cs))) (length ?pre) = Inr r'"
          "r' = None \<longleftrightarrow> utf8_wf (drop (n - 1) cs)" using 1 [OF Cons Inr, of ?pre] r True by blast
        then show ?thesis using Cons Inr r True l
          by (subst validate_loop.simps) (simp add: nth_append utf8_wf.simps)
      next
        case False
        then show ?thesis using Cons Inr r
          by (subst validate_loop.simps) (auto simp: nth_append utf8_wf.simps)
      qed
    qed
  qed
qed


section \<open>Numbers\<close>

fun decimal :: "nat \<Rightarrow> nat list" where
  "decimal n = (if n < 10 then [n] else decimal (n div 10) @ [n mod 10])"

declare decimal.simps [simp del]

lemma decimal_digits: "d \<in> set (decimal n) \<Longrightarrow> d < 10"
  by (induction n rule: decimal.induct) (subst (asm) decimal.simps, auto split: if_splits)

lemma decimal_length: "n < 10 ^ k \<Longrightarrow> 0 < k \<Longrightarrow> length (decimal n) \<le> k"
proof (induction n arbitrary: k rule: decimal.induct)
  case (1 n)
  show ?case
  proof (cases "n < 10")
    case True
    then show ?thesis using "1.prems" by (simp add: decimal.simps [of n])
  next
    case False
    then obtain k' where k: "k = Suc k'" "0 < k'" using "1.prems" by (cases k; cases "k - 1") auto
    then have "n div 10 < 10 ^ k'" using "1.prems" by (simp add: less_mult_imp_div_less mult.commute)
    then show ?thesis using 1 False k by (simp add: decimal.simps [of n])
  qed
qed

definition cache_ok :: "code_point \<Rightarrow> nat list \<Rightarrow> byte list list \<Rightarrow> bool" where
  "cache_ok zero sz dg \<longleftrightarrow> length sz = 10 \<and> length dg = 10
    \<and> (\<forall>d < 10. sz ! d = 0 \<or> sz ! d = length (encode (zero + of_nat d)) \<and> dg ! d = encode (zero + of_nat d))"

lemma itou_loop_decimal:
  assumes "cache_ok zero sz dg"
  shows "rev (itou_loop zero n sz dg out) = concat (map (\<lambda>d. encode (zero + of_nat d)) (decimal n)) @ rev out"
  using assms
proof (induction n arbitrary: sz dg out rule: decimal.induct)
  case (1 n)
  let ?d = "n mod 10" and ?e = "encode (zero + of_nat (n mod 10))"
  let ?sz = "if sz ! ?d = 0 then sz[?d := length ?e] else sz" and ?dg = "if sz ! ?d = 0 then dg[?d := ?e] else dg"
  have d: "n - n div 10 * 10 = ?d" by (simp add: minus_div_mult_eq_mod)
  have ok: "cache_ok zero ?sz ?dg" using "1.prems" by (auto simp: cache_ok_def nth_list_update)
  have len: "?d < length sz" "?d < length dg" using "1.prems" by (simp_all add: cache_ok_def)
  have "\<forall>d < 10. sz ! d = 0 \<or> sz ! d = length (encode (zero + of_nat d)) \<and> dg ! d = encode (zero + of_nat d)"
    using "1.prems" unfolding cache_ok_def by (elim conjE)
  from this [rule_format, of ?d] len have "take (?sz ! ?d) (?dg ! ?d) = ?e" by auto
  then have step: "itou_loop zero n sz dg out
      = (if n div 10 \<noteq> 0 then itou_loop zero (n div 10) ?sz ?dg (out @ rev ?e) else out @ rev ?e)"
    unfolding itou_loop.simps [of zero n] Let_def d by (cases "sz ! ?d = 0") (simp_all only: simp_thms if_True if_False prod.case)
  show ?case
  proof (cases "n < 10")
    case True
    then show ?thesis by (simp add: step decimal.simps [of n])
  next
    case False
    then have "0 < n div 10" by simp
    then show ?thesis using "1.IH" [OF False ok, of "out @ rev ?e"] step False by (simp add: decimal.simps [of n])
  qed
qed


lemma encode_length: "length (encode cp) \<le> 4"
  using encode_seq [of cp] by (cases "is_valid cp") (auto simp: encode_def)

lemma text_length: "length (text_of cps) \<le> 4 * length cps"
  by (induction cps) (auto intro: order.trans [OF add_mono [OF encode_length]])

lemma wf_seq:
  assumes "utf8_seq q" shows "utf8_wf (q @ s) \<longleftrightarrow> utf8_wf s"
proof -
  obtain b cs where "q = b # cs" "char_length b = Inr (Suc (length cs))" "list_all is_continuation_byte cs"
    using assms by (rule utf8_seqE)
  then show ?thesis by (subst utf8_wf.simps) simp
qed

lemma wf_text: "list_all is_valid cps \<Longrightarrow> utf8_wf (text_of cps)"
  by (induction cps) (auto simp: wf_seq encode_seq, simp add: utf8_wf.simps)

lemma prev_text:
  assumes "is_valid cp" shows "prev_char (pre @ encode cp @ post) (length pre + length (encode cp)) = Inr (cp, length pre)"
proof -
  obtain b cs where q: "encode cp = b # cs" "list_all is_continuation_byte cs" "is_start_byte b"
    using encode_seq [OF assms] by (auto elim: utf8_seqE)
  then show ?thesis using prev_start_cont [OF q(2,3), of pre post] decodesD [of cp "encode cp" pre post] encode_seq [OF assms]
    by (simp add: prev_char_def)
qed

section \<open>Properties\<close>

text \<open>
  C6: a string built from valid code points is valid UTF-8, and iterating over it gives the code
  points back.
\<close>

theorem utf8_codec:
  assumes "list_all is_valid cps"
  shows "to_codepoints (append_codepoints cps []) = Inr cps
    \<and> validate_len (append_codepoints cps []) (length (append_codepoints cps [])) = Inr None"
proof
  show "to_codepoints (append_codepoints cps []) = Inr cps"
    using codepoints_text [OF assms, of "[]"] by (simp add: to_codepoints_def append_codepoints_eq)
  show "validate_len (append_codepoints cps []) (length (append_codepoints cps [])) = Inr None"
    using validate_wf [of "[]" "text_of cps"] wf_text [OF assms] by (auto simp: validate_len_def append_codepoints_eq)
qed

theorem utf8_codec_witness:
  "to_codepoints (append_codepoints [0x24, 0x20AC, 0x10348, 0xE9] []) = Inr [0x24, 0x20AC, 0x10348, 0xE9]"
  using utf8_codec [of "[0x24, 0x20AC, 0x10348, 0xE9]"] by (simp add: is_valid_unat)

text \<open>
  C28: in a zero-terminated string of valid code points, \<open>length\<close> counts the code points, and
  \<open>byte_pos\<close> finds the place where the k-th one is decoded, from the front and from behind.
\<close>

theorem utf8_positions:
  assumes "list_all (\<lambda>cp. is_valid cp \<and> cp \<noteq> 0) cps" "k < length cps"
  defines "s \<equiv> append_codepoints cps [] @ [0]"
  shows "utf8_length s = Inr (length cps)
    \<and> (\<exists>p e. byte_pos s (Some k) = Inr (Some p) \<and> byte_pos s (Some (Suc k)) = Inr (Some e)
      \<and> next_char s p = Inr (cps ! k, e) \<and> prev_char s e = Inr (cps ! k, p))"
proof
  have s: "s = text_of cps @ [0]" by (simp add: s_def append_codepoints_eq)
  show "utf8_length s = Inr (length cps)" using length_text [OF assms(1), of "[]"] by (simp add: s utf8_length_def)
  let ?p = "text_of (take k cps)" and ?q = "encode (cps ! k)"
  have cps: "cps = take k cps @ cps ! k # drop (Suc k) cps" using assms(2) by (rule id_take_nth_drop)
  then have t: "text_of cps = ?p @ ?q @ text_of (drop (Suc k) cps)" by (metis text_of_simps(2,3))
  have v: "is_valid (cps ! k)" using assms(1,2) by (simp add: list_all_length)
  have e: "text_of (take (Suc k) cps) = ?p @ ?q" using assms(2) by (simp add: take_Suc_conv_app_nth)
  have "byte_pos s (Some k) = Inr (Some (length ?p))" "byte_pos s (Some (Suc k)) = Inr (Some (length ?p + length ?q))"
    using byte_pos_text [OF assms(1), of k "[]"] byte_pos_text [OF assms(1), of "Suc k" "[]"] assms(2)
    by (simp_all add: s byte_pos_def e)
  moreover have "next_char s (length ?p) = Inr (cps ! k, length ?p + length ?q)"
    using decodesD [of "cps ! k" ?q ?p] encode_seq [OF v] by (simp add: s t)
  moreover have "prev_char s (length ?p + length ?q) = Inr (cps ! k, length ?p)"
    using prev_text [OF v, of ?p] by (simp add: s t)
  ultimately show "\<exists>p e. byte_pos s (Some k) = Inr (Some p) \<and> byte_pos s (Some (Suc k)) = Inr (Some e)
      \<and> next_char s p = Inr (cps ! k, e) \<and> prev_char s e = Inr (cps ! k, p)" by blast
qed

theorem utf8_positions_witness:
  "utf8_length (append_codepoints [0x20AC, 0x61] [] @ [0]) = Inr 2"
  using utf8_positions [of "[0x20AC, 0x61]" 1] by (simp add: is_valid_unat)

text \<open>
  C31: \<open>validate\<close> accepts exactly the strings that consist of start bytes, each followed by as
  many continuation bytes as it announces. It does not look at the value: surrogates, overlong forms and
  values above U+10FFFF are accepted, although \<open>is_valid\<close> refuses what they decode to.
\<close>

theorem validate_spec:
  "(\<exists>r. validate_len s (length s) = Inr r \<and> (r = None \<longleftrightarrow> utf8_wf s))
    \<and> validate_len [0xED, 0xA0, 0x80] 3 = Inr None \<and> next_char [0xED, 0xA0, 0x80] 0 = Inr (0xD800, 3) \<and> \<not> is_valid 0xD800
    \<and> validate_len [0xE0, 0x80, 0x80] 3 = Inr None \<and> next_char [0xE0, 0x80, 0x80] 0 = Inr (0, 3) \<and> encode 0 = [0]"
proof -
  have "\<exists>r. validate_len s (length s) = Inr r \<and> (r = None \<longleftrightarrow> utf8_wf s)"
    using validate_wf [of "[]" s] by (simp add: validate_len_def)
  moreover have "validate_len [0xED, 0xA0, 0x80] 3 = Inr None" "validate_len [0xE0, 0x80, 0x80] 3 = Inr None"
    using validate_wf [of "[]" "[0xED, 0xA0, 0x80]"] validate_wf [of "[]" "[0xE0, 0x80, 0x80]"]
    by (auto simp: validate_len_def utf8_wf.simps char_length_eq is_continuation_byte_def numeral_3_eq_3)
  moreover have "next_char [0xED, 0xA0, 0x80] 0 = Inr (0xD800, 3)" "next_char [0xE0, 0x80, 0x80] 0 = Inr (0, 3)"
    by (simp_all add: next_char_lead [OF refl] char_length_eq next_bytes_3 next_bytes_2)
  ultimately show ?thesis by (simp add: is_valid_unat encode_def)
qed

text \<open>
  C35: \<open>itou\<close> writes the decimal digits of the number, most significant first, and for a 64-bit
  number never more than the 121 bytes of \<open>itou_buf_type\<close>. \<open>zero + of_nat d\<close> is taken modulo \<open>2 ^ 32\<close>.
\<close>

theorem itou_digits:
  assumes "n < 2 ^ 64"
  shows "itou n zero = append_codepoints (map (\<lambda>d. zero + of_nat d) (decimal n)) [] @ [0] \<and> length (itou n zero) \<le> 6 * 20 + 1"
proof
  have "cache_ok zero (replicate 10 0) (replicate 10 [])" by (simp add: cache_ok_def)
  then show eq: "itou n zero = append_codepoints (map (\<lambda>d. zero + of_nat d) (decimal n)) [] @ [0]"
    using itou_loop_decimal by (simp add: itou_def append_codepoints_eq text_of_def o_def)
  have "n < 10 ^ 20" using assms by simp
  then have "length (decimal n) \<le> 20" by (rule decimal_length) simp
  then show "length (itou n zero) \<le> 6 * 20 + 1"
    using text_length [of "map (\<lambda>d. zero + of_nat d) (decimal n)"] by (simp add: eq append_codepoints_eq)
qed

theorem itou_digits_witness: "itou 420 0x660 = [0xD9, 0xA4, 0xD9, 0xA2, 0xD9, 0xA0, 0]"
  using itou_digits [of 420 "0x660"]
  by (simp add: append_codepoints_def decimal.simps encode_def is_valid_unat Mask2Bytes_def Mask1Byte_def)

end
