(* ===== verification/Utf8_Stream.thy ===== *)
theory Utf8_Stream
  imports Utf8_Roundtrip
begin

text \<open>
  The stream buffer that checks the bytes passing through it (\<open>util/utf8_streambuf.cpp\<close>,
  \<open>util/utf8_streambuf.h\<close>): the state of an unfinished character, the operations, and the proof that
  however a text is read or written, its bytes pass unchanged as long as they begin a text that \<open>validate\<close>
  accepts, and are reported otherwise; and what happens to bytes that are put back.

  The original stream buffer is a string buffer: the text, a read position, the bytes written. An operation
  gives its result or the exception together with the state it leaves.
\<close>

section \<open>The state of a character\<close>

record buf_type =
  utf8_char :: "byte list"
  char_len :: nat
  cur_len :: nat

definition clear_buf :: "buf_type \<Rightarrow> buf_type" where
  "clear_buf b = b\<lparr>char_len := 0\<rparr>"

text \<open>\<open>throw_invalid_utf8\<close> clears the state and throws; the parameter of the exception lists the bytes.\<close>

definition throw_invalid_utf8 :: "byte list \<Rightarrow> buf_type \<Rightarrow> unit outcome \<times> buf_type" where
  "throw_invalid_utf8 bytes b = (Inl (INVALID_UTF8 bytes), clear_buf b)"

definition validate_byte :: "bool \<Rightarrow> byte \<Rightarrow> buf_type \<Rightarrow> unit outcome \<times> buf_type" where
  "validate_byte bump c b =
    (case (if char_len b = 0
           then (case char_length c of Inl _ \<Rightarrow> None | Inr n \<Rightarrow> Some (n, 0))
           else Some (char_len b, cur_len b)) of
       None \<Rightarrow> throw_invalid_utf8 [c] b
     | Some (char_len_copy, cur_len_copy) \<Rightarrow>
         if length (utf8_char b) \<le> cur_len_copy then (Inl Undefined, b)
         else
           let b' = b\<lparr>utf8_char := (utf8_char b)[cur_len_copy := c]\<rparr> in
           if cur_len_copy \<noteq> 0 \<and> \<not> is_continuation_byte c
           then throw_invalid_utf8 (take (Suc cur_len_copy) (utf8_char b')) b'
           else if bump
           then (Inr (), b'\<lparr>char_len := (if Suc cur_len_copy = char_len_copy then 0 else char_len_copy),
                             cur_len := Suc cur_len_copy\<rparr>)
           else (Inr (), b))"

fun validate_bytes :: "byte list \<Rightarrow> buf_type \<Rightarrow> unit outcome \<times> buf_type" where
  "validate_bytes [] b = (Inr (), b)"
| "validate_bytes (c # cs) b =
    (case validate_byte True c b of (Inl e, b') \<Rightarrow> (Inl e, b') | (Inr _, b') \<Rightarrow> validate_bytes cs b')"

section \<open>The stream buffer\<close>

record utf8_stream =
  gbuf :: buf_type
  pbuf :: buf_type
  validate_put :: bool
  orig_text :: "byte list"
  orig_pos :: nat
  orig_out :: "byte list"

text \<open>The members of the buffers are not initialised but for \<open>char_len\<close>.\<close>

definition new_stream :: "buf_type \<Rightarrow> buf_type \<Rightarrow> bool \<Rightarrow> byte list \<Rightarrow> utf8_stream" where
  "new_stream g p vput text =
    \<lparr>gbuf = clear_buf g, pbuf = clear_buf p, validate_put = vput,
     orig_text = text, orig_pos = 0, orig_out = []\<rparr>"

definition sgetc :: "utf8_stream \<Rightarrow> byte option" where
  "sgetc s = (if orig_pos s < length (orig_text s) then Some (orig_text s ! orig_pos s) else None)"

definition sbump :: "utf8_stream \<Rightarrow> utf8_stream" where
  "sbump s = (if orig_pos s < length (orig_text s) then s\<lparr>orig_pos := Suc (orig_pos s)\<rparr> else s)"

definition uflow :: "utf8_stream \<Rightarrow> byte option outcome \<times> utf8_stream" where
  "uflow s =
    (case sgetc s of
       None \<Rightarrow> (Inr None, s)
     | Some c \<Rightarrow>
         (case validate_byte True c (gbuf s) of
            (Inl e, g) \<Rightarrow> (Inl e, (sbump s)\<lparr>gbuf := g\<rparr>)
          | (Inr _, g) \<Rightarrow> (Inr (Some c), (sbump s)\<lparr>gbuf := g\<rparr>)))"

definition underflow :: "utf8_stream \<Rightarrow> byte option outcome \<times> utf8_stream" where
  "underflow s =
    (case sgetc s of
       None \<Rightarrow> (Inr None, s)
     | Some c \<Rightarrow>
         (case validate_byte False c (gbuf s) of
            (Inl e, g) \<Rightarrow> (Inl e, s\<lparr>gbuf := g\<rparr>)
          | (Inr _, g) \<Rightarrow> (Inr (Some c), s\<lparr>gbuf := g\<rparr>)))"

definition pbackfail :: "byte option \<Rightarrow> utf8_stream \<Rightarrow> byte option \<times> utf8_stream" where
  "pbackfail c s =
    (case c of
       None \<Rightarrow> (None, s)
     | Some b \<Rightarrow>
         if cur_len (gbuf s) \<noteq> 0 \<and> 0 < orig_pos s \<and> orig_text s ! (orig_pos s - 1) = b
         then (Some b, s\<lparr>orig_pos := orig_pos s - 1, gbuf := (gbuf s)\<lparr>cur_len := cur_len (gbuf s) - 1\<rparr>\<rparr>)
         else (None, s))"

text \<open>Getting a chunk of at most \<open>n\<close> bytes from the original and checking it.\<close>

definition get_chunk :: "nat \<Rightarrow> utf8_stream \<Rightarrow> byte list outcome \<times> utf8_stream" where
  "get_chunk n s =
    (let got = take n (drop (orig_pos s) (orig_text s));
         s = s\<lparr>orig_pos := orig_pos s + length got\<rparr>
     in case validate_bytes got (gbuf s) of
          (Inl e, g) \<Rightarrow> (Inl e, s\<lparr>gbuf := g\<rparr>)
        | (Inr _, g) \<Rightarrow> (Inr got, s\<lparr>gbuf := g\<rparr>))"

text \<open>The loop of \<open>xsgetn\<close>.\<close>

function get_loop :: "nat \<Rightarrow> byte list \<Rightarrow> utf8_stream \<Rightarrow> byte list outcome \<times> utf8_stream" where
  "get_loop n to s =
    (if n = 0 then (Inr to, s)
     else case get_chunk n s of
       (Inl e, s') \<Rightarrow> (Inl e, s')
     | (Inr got, s') \<Rightarrow> if got = [] then (Inr to, s') else get_loop (n - length got) (to @ got) s')"
  by pat_completeness auto

termination
  by (relation "measure (\<lambda>(n, to, s). n)") auto

declare get_loop.simps [simp del]

definition xsgetn :: "nat \<Rightarrow> utf8_stream \<Rightarrow> byte list outcome \<times> utf8_stream" where
  "xsgetn n s =
    (if char_len (gbuf s) \<noteq> 0
     then (let want = char_len (gbuf s) - cur_len (gbuf s) in
       case get_chunk (min want n) s of
         (Inl e, s') \<Rightarrow> (Inl e, s')
       | (Inr got, s') \<Rightarrow> get_loop (n - length got) got s')
     else get_loop n [] s)"

definition overflow :: "byte option \<Rightarrow> utf8_stream \<Rightarrow> byte option outcome \<times> utf8_stream" where
  "overflow c s =
    (case c of
       None \<Rightarrow> (Inr None, s)
     | Some b \<Rightarrow>
         (case (if validate_put s then validate_byte True b (pbuf s) else (Inr (), pbuf s)) of
            (Inl e, p) \<Rightarrow> (Inl e, s\<lparr>pbuf := p\<rparr>)
          | (Inr _, p) \<Rightarrow> (Inr (Some b), s\<lparr>pbuf := p, orig_out := orig_out s @ [b]\<rparr>)))"

definition xsputn :: "byte list \<Rightarrow> utf8_stream \<Rightarrow> nat outcome \<times> utf8_stream" where
  "xsputn from s =
    (case (if validate_put s then validate_bytes from (pbuf s) else (Inr (), pbuf s)) of
       (Inl e, p) \<Rightarrow> (Inl e, s\<lparr>pbuf := p\<rparr>)
     | (Inr _, p) \<Rightarrow> (Inr (length from), s\<lparr>pbuf := p, orig_out := orig_out s @ from\<rparr>))"

definition seekpos :: "nat \<Rightarrow> utf8_stream \<Rightarrow> utf8_stream" where
  "seekpos p s = s\<lparr>gbuf := clear_buf (gbuf s), pbuf := clear_buf (pbuf s), orig_pos := p\<rparr>"

text \<open>The loop of \<open>resync\<close>; \<open>c\<close> is the last byte seen.\<close>

function resync_loop :: "byte option \<Rightarrow> utf8_stream \<Rightarrow> utf8_stream" where
  "resync_loop c s =
    (case c of
       None \<Rightarrow> s
     | Some b \<Rightarrow> if is_start_byte b then s else
         if orig_pos s < length (orig_text s) then resync_loop (sgetc s) (sbump s) else s)"
  by pat_completeness auto

termination
  by (relation "measure (\<lambda>(c, s). length (orig_text s) - orig_pos s)") (auto simp: sbump_def)

declare resync_loop.simps [simp del]

definition resync :: "utf8_stream \<Rightarrow> utf8_stream" where
  "resync s = resync_loop (sgetc s) s"


section \<open>What the checks accept\<close>

text \<open>A scanner that only counts the continuation bytes that are still due.\<close>

fun scan :: "nat \<Rightarrow> byte list \<Rightarrow> nat option" where
  "scan p [] = Some p"
| "scan 0 (b # s) = (case char_length b of Inl _ \<Rightarrow> None | Inr n \<Rightarrow> scan (n - 1) s)"
| "scan (Suc p) (b # s) = (if is_continuation_byte b then scan p s else None)"

lemma scan_append: "scan p (xs @ ys) = (case scan p xs of None \<Rightarrow> None | Some q \<Rightarrow> scan q ys)"
  by (induction p xs rule: scan.induct) (auto split: sum.split)

lemma scan_cont: "scan p s = Some 0 \<longleftrightarrow> p \<le> length s \<and> list_all is_continuation_byte (take p s) \<and> scan 0 (drop p s) = Some 0"
proof (induction p arbitrary: s)
  case (Suc p)
  then show ?case by (cases s) auto
qed simp

lemma scan_wf: "scan 0 s = Some 0 \<longleftrightarrow> utf8_wf s"
proof (induction s rule: utf8_wf.induct)
  case (1 s)
  show ?case
  proof (cases s)
    case Nil
    then show ?thesis by (simp add: utf8_wf.simps)
  next
    case (Cons b cs)
    show ?thesis
    proof (cases "char_length b")
      case (Inl e)
      then show ?thesis using Cons by (simp add: utf8_wf.simps [of "b # cs"])
    next
      case (Inr n)
      then show ?thesis using Cons 1 [OF Cons Inr] scan_cont [of "n - 1" cs] by (simp add: utf8_wf.simps [of "b # cs"])
    qed
  qed
qed

text \<open>The state of the buffer and the number of bytes it is waiting for.\<close>

definition buf_ok :: "buf_type \<Rightarrow> bool" where
  "buf_ok b \<longleftrightarrow> length (utf8_char b) = 6 \<and> (char_len b \<noteq> 0 \<longrightarrow> 0 < cur_len b \<and> cur_len b < char_len b \<and> char_len b \<le> 6)"

definition pending :: "buf_type \<Rightarrow> nat" where
  "pending b = (if char_len b = 0 then 0 else char_len b - cur_len b)"

lemma char_length_bounds: "char_length b = Inr n \<Longrightarrow> 1 \<le> n \<and> n \<le> 6"
  by (auto simp: char_length_eq Let_def split: if_splits)

lemma validate_byte_scan:
  assumes "buf_ok b"
  shows "case scan (pending b) [c] of
      None \<Rightarrow> \<exists>e b'. validate_byte bump c b = (Inl (INVALID_UTF8 e), b') \<and> buf_ok b' \<and> pending b' = 0
    | Some p \<Rightarrow> \<exists>b'. validate_byte bump c b = (Inr (), b') \<and> buf_ok b' \<and> (if bump then pending b' = p else b' = b)"
proof (cases "char_len b = 0")
  case True
  show ?thesis
  proof (cases "char_length c")
    case (Inl e)
    then show ?thesis using True assms
      by (auto simp: validate_byte_def pending_def throw_invalid_utf8_def clear_buf_def buf_ok_def)
  next
    case (Inr n)
    then show ?thesis using True assms char_length_bounds [OF Inr]
      by (auto simp: validate_byte_def pending_def buf_ok_def Let_def)
  qed
next
  case False
  then obtain k where k: "char_len b - cur_len b = Suc k" using assms by (cases "char_len b - cur_len b") (auto simp: buf_ok_def)
  then show ?thesis using False assms
    by (auto simp: validate_byte_def pending_def buf_ok_def Let_def throw_invalid_utf8_def clear_buf_def)
qed

lemma validate_bytes_scan:
  assumes "buf_ok b"
  shows "case scan (pending b) cs of
      None \<Rightarrow> \<exists>e b'. validate_bytes cs b = (Inl (INVALID_UTF8 e), b') \<and> buf_ok b' \<and> pending b' = 0
    | Some p \<Rightarrow> \<exists>b'. validate_bytes cs b = (Inr (), b') \<and> buf_ok b' \<and> pending b' = p"
  using assms
proof (induction cs arbitrary: b)
  case (Cons c cs)
  have split: "scan (pending b) (c # cs) = (case scan (pending b) [c] of None \<Rightarrow> None | Some q \<Rightarrow> scan q cs)"
    using scan_append [of "pending b" "[c]" cs] by simp
  show ?case
  proof (cases "scan (pending b) [c]")
    case None
    then show ?thesis using validate_byte_scan [OF Cons.prems, where c = c and bump = True] split by auto
  next
    case (Some q)
    then obtain b' where b': "validate_byte True c b = (Inr (), b')" "buf_ok b'" "pending b' = q"
      using validate_byte_scan [OF Cons.prems, where c = c and bump = True] by auto
    then show ?thesis using Cons.IH [OF b'(2)] split Some by (simp split: option.splits)
  qed
qed simp


section \<open>Reading\<close>

text \<open>The bytes read so far, and what they leave the buffer waiting for.\<close>

definition stream_ok :: "utf8_stream \<Rightarrow> bool" where
  "stream_ok s \<longleftrightarrow> buf_ok (gbuf s) \<and> orig_pos s \<le> length (orig_text s)
    \<and> scan 0 (take (orig_pos s) (orig_text s)) = Some (pending (gbuf s))"

text \<open>The contract of an operation that reads up to \<open>n\<close> bytes.\<close>

definition reads :: "nat \<Rightarrow> utf8_stream \<Rightarrow> byte list outcome \<times> utf8_stream \<Rightarrow> bool" where
  "reads n s r \<longleftrightarrow>
    (case scan 0 (take (orig_pos s + n) (orig_text s)) of
       None \<Rightarrow> \<exists>e s'. r = (Inl (INVALID_UTF8 e), s')
     | Some _ \<Rightarrow> \<exists>s'. r = (Inr (take n (drop (orig_pos s) (orig_text s))), s') \<and> stream_ok s'
         \<and> orig_text s' = orig_text s \<and> orig_pos s' = min (orig_pos s + n) (length (orig_text s)))"

lemma scan_take:
  assumes "stream_ok s"
  shows "scan 0 (take (orig_pos s + n) (orig_text s)) = scan (pending (gbuf s)) (take n (drop (orig_pos s) (orig_text s)))"
  using assms by (simp add: stream_ok_def take_add scan_append)

lemma get_chunk_reads:
  assumes "stream_ok s" shows "reads n s (get_chunk n s)"
proof -
  let ?got = "take n (drop (orig_pos s) (orig_text s))"
  have ok: "buf_ok (gbuf s)" using assms by (simp add: stream_ok_def)
  show ?thesis
  proof (cases "scan (pending (gbuf s)) ?got")
    case None
    then show ?thesis using validate_bytes_scan [OF ok, of ?got] scan_take [OF assms, of n]
      by (auto simp: reads_def get_chunk_def Let_def)
  next
    case (Some p)
    then obtain b where b: "validate_bytes ?got (gbuf s) = (Inr (), b)" "buf_ok b" "pending b = p"
      using validate_bytes_scan [OF ok, of ?got] by auto
    have pos: "orig_pos s + length ?got = min (orig_pos s + n) (length (orig_text s))" using assms by (auto simp: stream_ok_def)
    have "take (min (orig_pos s + n) (length (orig_text s))) (orig_text s) = take (orig_pos s + n) (orig_text s)"
      by (simp add: min_def)
    with b Some pos show ?thesis using scan_take [OF assms, of n]
      by (auto simp: reads_def get_chunk_def Let_def stream_ok_def simp del: length_take length_drop)
  qed
qed

text \<open>Two reads after each other.\<close>

lemma scan_prefix: "scan 0 (take k xs) = None \<Longrightarrow> k \<le> n \<Longrightarrow> scan 0 (take n xs) = None"
  by (metis le_add_diff_inverse option.case(1) scan_append take_add)

lemma reads_then:
  assumes r: "reads k s r" and k: "k \<le> n"
    and f: "\<And>got s'. r = (Inr got, s') \<Longrightarrow> stream_ok s' \<Longrightarrow> got = take k (drop (orig_pos s) (orig_text s))
      \<Longrightarrow> orig_text s' = orig_text s \<Longrightarrow> orig_pos s' = min (orig_pos s + k) (length (orig_text s))
      \<Longrightarrow> \<exists>r'. reads (n - k) s' r' \<and> f got s' = (case r' of (Inl e, s'') \<Rightarrow> (Inl e, s'') | (Inr xs, s'') \<Rightarrow> (Inr (got @ xs), s''))"
  shows "reads n s (case r of (Inl e, s') \<Rightarrow> (Inl e, s') | (Inr got, s') \<Rightarrow> f got s')"
proof (cases "scan 0 (take (orig_pos s + k) (orig_text s))")
  case None
  then show ?thesis using r scan_prefix [OF None, of "orig_pos s + n"] k by (auto simp: reads_def)
next
  case (Some p)
  let ?t = "orig_text s" and ?p = "orig_pos s"
  obtain s' where s': "r = (Inr (take k (drop ?p ?t)), s')" "stream_ok s'" "orig_text s' = ?t" "orig_pos s' = min (?p + k) (length ?t)"
    using r Some by (auto simp: reads_def)
  obtain r' where r': "reads (n - k) s' r'"
    "f (take k (drop ?p ?t)) s' = (case r' of (Inl e, s'') \<Rightarrow> (Inl e, s'') | (Inr xs, s'') \<Rightarrow> (Inr (take k (drop ?p ?t) @ xs), s''))"
    using f [OF s'(1,2) refl s'(3,4)] by blast
  have end_eq: "take (min (?p + k) (length ?t) + (n - k)) ?t = take (?p + n) ?t" "min (min (?p + k) (length ?t) + (n - k)) (length ?t) = min (?p + n) (length ?t)"
    using k by (cases "?p + k \<le> length ?t"; simp)+
  have "drop (min (?p + k) (length ?t)) ?t = drop k (drop ?p ?t)" by (cases "?p + k \<le> length ?t") (simp_all add: add.commute)
  then have bytes: "take k (drop ?p ?t) @ take (n - k) (drop (min (?p + k) (length ?t)) ?t) = take n (drop ?p ?t)"
    using k take_add [of k "n - k" "drop ?p ?t"] by simp
  show ?thesis using r' s' bytes
    by (auto simp: reads_def end_eq split: option.splits)
qed

lemma get_loop_reads:
  assumes "stream_ok s"
  shows "\<exists>r. reads n s r \<and> get_loop n to s = (case r of (Inl e, s') \<Rightarrow> (Inl e, s') | (Inr xs, s') \<Rightarrow> (Inr (to @ xs), s'))"
  using assms
proof (induction n to s rule: get_loop.induct)
  case (1 n to s)
  show ?case
  proof (cases "n = 0")
    case True
    then show ?thesis using "1.prems"
      by (intro exI [of _ "(Inr [], s)"]) (simp add: get_loop.simps [of 0] reads_def stream_ok_def)
  next
    case False
    note chunk = get_chunk_reads [OF "1.prems", of n]
    let ?got = "take n (drop (orig_pos s) (orig_text s))"
    show ?thesis
    proof (cases "scan 0 (take (orig_pos s + n) (orig_text s))")
      case None
      then show ?thesis using chunk False by (auto simp: reads_def get_loop.simps [of n])
    next
      case (Some p)
      then obtain s' where s': "get_chunk n s = (Inr ?got, s')" "stream_ok s'" "orig_text s' = orig_text s"
        "orig_pos s' = min (orig_pos s + n) (length (orig_text s))" using chunk by (auto simp: reads_def)
      show ?thesis
      proof (cases "?got = []")
        case True
        then show ?thesis using s' False chunk by (intro exI [of _ "get_chunk n s"]) (simp add: get_loop.simps [of n])
      next
        case ne: False
        obtain r where r: "reads (n - length ?got) s' r" "get_loop (n - length ?got) (to @ ?got) s'
            = (case r of (Inl e, s'') \<Rightarrow> (Inl e, s'') | (Inr xs, s'') \<Rightarrow> (Inr ((to @ ?got) @ xs), s''))"
          using "1.IH" [OF False s'(1) [symmetric] refl ne s'(2)] by blast
        have rest: "drop (orig_pos s') (orig_text s') = drop n (drop (orig_pos s) (orig_text s))"
          using s' by (cases "orig_pos s + n \<le> length (orig_text s)") (simp_all add: add.commute)
        have "n - length ?got = 0 \<or> orig_pos s' = length (orig_text s')" using s' by auto
        then have r0: "\<exists>s''. r = (Inr [], s'') \<and> stream_ok s'' \<and> orig_text s'' = orig_text s' \<and> orig_pos s'' = orig_pos s'"
          using r(1) s'(2) by (auto simp: reads_def stream_ok_def split: option.splits)
        then obtain s'' where "r = (Inr [], s'')" "stream_ok s''" "orig_text s'' = orig_text s'" "orig_pos s'' = orig_pos s'" by blast
        then have "reads n s (Inr ?got, s'')" "get_loop n to s = (Inr (to @ ?got), s'')"
          using Some s' r(2) False ne by (auto simp: reads_def get_loop.simps [of n])
        then show ?thesis by (intro exI [of _ "(Inr ?got, s'')"]) simp
      qed
    qed
  qed
qed


lemma reads_at_end: "orig_pos s = length (orig_text s) \<Longrightarrow> reads n s r \<longleftrightarrow> reads m s r"
  by (simp add: reads_def cong: option.case_cong)

lemma xsgetn_reads:
  assumes "stream_ok s" shows "reads n s (xsgetn n s)"
proof (cases "char_len (gbuf s) \<noteq> 0")
  case True
  let ?k = "min (char_len (gbuf s) - cur_len (gbuf s)) n"
  have "reads n s (case get_chunk ?k s of (Inl e, s') \<Rightarrow> (Inl e, s') | (Inr got, s') \<Rightarrow> get_loop (n - length got) got s')"
  proof (rule reads_then [OF get_chunk_reads [OF assms]])
    fix got s' assume s': "stream_ok s'" "got = take ?k (drop (orig_pos s) (orig_text s))" "orig_text s' = orig_text s"
      "orig_pos s' = min (orig_pos s + ?k) (length (orig_text s))"
    obtain r where r: "reads (n - length got) s' r"
      "get_loop (n - length got) got s' = (case r of (Inl e, s') \<Rightarrow> (Inl e, s') | (Inr xs, s') \<Rightarrow> (Inr (got @ xs), s'))"
      using get_loop_reads [OF s'(1)] by blast
    have "n - length got = n - ?k \<or> orig_pos s' = length (orig_text s')"
      by (cases "orig_pos s + ?k \<le> length (orig_text s)") (simp_all add: s'(2-4))
    then have "reads (n - ?k) s' r" using r(1) reads_at_end [of s'] by metis
    with r(2) show "\<exists>r'. reads (n - ?k) s' r' \<and> get_loop (n - length got) got s'
      = (case r' of (Inl e, s'') \<Rightarrow> (Inl e, s'') | (Inr xs, s'') \<Rightarrow> (Inr (got @ xs), s''))" by blast
  qed simp
  then show ?thesis using True by (simp add: xsgetn_def)
next
  case False
  obtain r where "reads n s r" "get_loop n [] s = (case r of (Inl e, s') \<Rightarrow> (Inl e, s') | (Inr xs, s') \<Rightarrow> (Inr ([] @ xs), s'))"
    using get_loop_reads [OF assms, of n "[]"] by blast
  then show ?thesis using False by (cases r; cases "fst r") (simp_all add: xsgetn_def)
qed

lemma uflow_reads:
  assumes "stream_ok s"
  shows "reads 1 s (case uflow s of (Inl e, s') \<Rightarrow> (Inl e, s') | (Inr None, s') \<Rightarrow> (Inr [], s') | (Inr (Some c), s') \<Rightarrow> (Inr [c], s'))"
proof (cases "orig_pos s < length (orig_text s)")
  case True
  let ?c = "orig_text s ! orig_pos s"
  have got: "take 1 (drop (orig_pos s) (orig_text s)) = [?c]" using True by (simp add: take_Suc hd_drop_conv_nth)
  have chunk: "get_chunk 1 s = (case validate_byte True ?c (gbuf s) of
      (Inl e, g) \<Rightarrow> (Inl e, s\<lparr>orig_pos := Suc (orig_pos s), gbuf := g\<rparr>)
    | (Inr _, g) \<Rightarrow> (Inr [?c], s\<lparr>orig_pos := Suc (orig_pos s), gbuf := g\<rparr>))"
    unfolding get_chunk_def got Let_def by (auto split: prod.splits sum.splits)
  have "(case uflow s of (Inl e, s') \<Rightarrow> (Inl e, s') | (Inr None, s') \<Rightarrow> (Inr [], s') | (Inr (Some c), s') \<Rightarrow> (Inr [c], s')) = get_chunk 1 s"
    unfolding chunk using True by (auto simp: uflow_def sgetc_def sbump_def split: prod.splits sum.splits)
  then show ?thesis using get_chunk_reads [OF assms, of 1] by simp
next
  case False
  then show ?thesis using assms by (auto simp: uflow_def sgetc_def reads_def stream_ok_def)
qed

text \<open>\<open>underflow\<close> looks at the next byte and leaves it where it is.\<close>

lemma underflow_ok:
  assumes "stream_ok s"
  shows "if scan 0 (take (Suc (orig_pos s)) (orig_text s)) = None then \<exists>e s'. underflow s = (Inl (INVALID_UTF8 e), s') else underflow s = (Inr (sgetc s), s)"
proof (cases "orig_pos s < length (orig_text s)")
  case True
  let ?c = "orig_text s ! orig_pos s"
  have ok: "buf_ok (gbuf s)" using assms by (simp add: stream_ok_def)
  have "scan 0 (take (Suc (orig_pos s)) (orig_text s)) = scan (pending (gbuf s)) [?c]"
    using scan_take [OF assms, of 1] True by (simp add: take_Suc hd_drop_conv_nth)
  then show ?thesis using validate_byte_scan [OF ok, where c = ?c and bump = False] True
    by (auto simp: underflow_def sgetc_def split: option.splits)
next
  case False
  then show ?thesis using assms by (auto simp: underflow_def sgetc_def stream_ok_def)
qed

text \<open>A sequence of reads, with the answer to each.\<close>

datatype read_request = Peek | Getc | Getn nat

definition byte_answer :: "byte option outcome \<times> utf8_stream \<Rightarrow> byte list outcome \<times> utf8_stream" where
  "byte_answer r = (case r of (Inl e, s') \<Rightarrow> (Inl e, s') | (Inr None, s') \<Rightarrow> (Inr [], s') | (Inr (Some c), s') \<Rightarrow> (Inr [c], s'))"

fun read_req :: "read_request \<Rightarrow> utf8_stream \<Rightarrow> byte list outcome \<times> utf8_stream" where
  "read_req Peek s = byte_answer (underflow s)"
| "read_req Getc s = byte_answer (uflow s)"
| "read_req (Getn n) s = xsgetn n s"

fun run_reads :: "read_request list \<Rightarrow> utf8_stream \<Rightarrow> byte list list outcome \<times> utf8_stream" where
  "run_reads [] s = (Inr [], s)"
| "run_reads (q # qs) s =
    (case read_req q s of
       (Inl e, s') \<Rightarrow> (Inl e, s')
     | (Inr got, s') \<Rightarrow> (case run_reads qs s' of (Inl e, s'') \<Rightarrow> (Inl e, s'') | (Inr xs, s'') \<Rightarrow> (Inr (got # xs), s'')))"

text \<open>
  What the requests ask for, from position \<open>p\<close> of the text on: the answers, and how far the bytes looked at reach.
\<close>

fun answers :: "byte list \<Rightarrow> nat \<Rightarrow> read_request list \<Rightarrow> byte list list" where
  "answers t p [] = []"
| "answers t p (Peek # qs) = take 1 (drop p t) # answers t p qs"
| "answers t p (Getc # qs) = take 1 (drop p t) # answers t (p + 1) qs"
| "answers t p (Getn n # qs) = take n (drop p t) # answers t (p + n) qs"

fun reach :: "nat \<Rightarrow> read_request list \<Rightarrow> nat" where
  "reach p [] = p"
| "reach p (Peek # qs) = max (p + 1) (reach p qs)"
| "reach p (Getc # qs) = reach (p + 1) qs"
| "reach p (Getn n # qs) = reach (p + n) qs"

lemma reach_ge: "p \<le> reach p qs"
  by (induction p qs rule: reach.induct) auto

definition answered :: "byte list \<Rightarrow> nat \<Rightarrow> read_request list \<Rightarrow> byte list list outcome \<times> utf8_stream \<Rightarrow> bool" where
  "answered t p qs r \<longleftrightarrow> (if scan 0 (take (reach p qs) t) = None then \<exists>e s'. r = (Inl (INVALID_UTF8 e), s') else \<exists>s'. r = (Inr (answers t p qs), s'))"

lemma answered_read:
  assumes r: "reads n s r" and s: "stream_ok s" "orig_pos s = min p (length (orig_text s))"
    and reach: "reach p (q # qs) = reach (p + n) qs" "answers (orig_text s) p (q # qs) = take n (drop p (orig_text s)) # answers (orig_text s) (p + n) qs"
    and f: "\<And>s'. stream_ok s' \<Longrightarrow> orig_pos s' = min (p + n) (length (orig_text s')) \<Longrightarrow> orig_text s' = orig_text s \<Longrightarrow> answered (orig_text s') (p + n) qs (run_reads qs s')"
  shows "answered (orig_text s) p (q # qs) (case r of (Inl e, s') \<Rightarrow> (Inl e, s')
    | (Inr got, s') \<Rightarrow> (case run_reads qs s' of (Inl e, s'') \<Rightarrow> (Inl e, s'') | (Inr xs, s'') \<Rightarrow> (Inr (got # xs), s'')))"
proof -
  let ?t = "orig_text s"
  have t: "take (orig_pos s + n) ?t = take (p + n) ?t" "take n (drop (orig_pos s) ?t) = take n (drop p ?t)"
    using s(2) by (cases "p \<le> length ?t"; simp)+
  show ?thesis
  proof (cases "scan 0 (take (p + n) ?t)")
    case None
    then show ?thesis using r scan_prefix [OF None reach_ge [of "p + n" qs]] by (auto simp: answered_def reads_def t reach(1))
  next
    case (Some k)
    then obtain s' where s': "r = (Inr (take n (drop p ?t)), s')" "stream_ok s'" "orig_text s' = ?t" "orig_pos s' = min (orig_pos s + n) (length ?t)"
      using r [unfolded reads_def t] by auto
    have "min (orig_pos s + n) (length ?t) = min (p + n) (length ?t)" using s(2) by simp
    note s' = s'(1-3) s'(4) [unfolded this]
    from f [OF s'(2)] s'(3,4) have "answered ?t (p + n) qs (run_reads qs s')" by simp
    then show ?thesis using s'(1) by (auto simp: answered_def reach)
  qed
qed

lemma run_reads_ok:
  "stream_ok s \<Longrightarrow> orig_pos s = min p (length (orig_text s)) \<Longrightarrow> answered (orig_text s) p qs (run_reads qs s)"
proof (induction qs arbitrary: s p)
  case Nil
  have "take (min p (length (orig_text s))) (orig_text s) = take p (orig_text s)" by (simp add: min_def)
  then show ?case using Nil by (auto simp: answered_def stream_ok_def)
next
  case (Cons q qs)
  show ?case
  proof (cases q)
    case Peek
    let ?t = "orig_text s"
    have t: "take (Suc (orig_pos s)) ?t = take (Suc p) ?t" "take (Suc 0) (drop p ?t) = (case sgetc s of None \<Rightarrow> [] | Some c \<Rightarrow> [c])"
      using Cons.prems(2) by (cases "p < length ?t"; simp add: sgetc_def take_Suc hd_drop_conv_nth)+
    have m: "scan 0 (take (max (Suc p) (reach p qs)) ?t) = None \<longleftrightarrow> scan 0 (take (Suc p) ?t) = None \<or> scan 0 (take (reach p qs) ?t) = None"
      using scan_prefix [of "Suc p" ?t "reach p qs"] scan_prefix [of "reach p qs" ?t "Suc p"] by (auto simp: max_def)
    show ?thesis using underflow_ok [OF Cons.prems(1)] Cons.IH [OF Cons.prems]
      by (auto simp: Peek answered_def m t byte_answer_def split: if_splits option.splits)
  next
    case Getc
    show ?thesis unfolding run_reads.simps
      by (rule answered_read [where n = 1, OF _ Cons.prems _ _ Cons.IH]) (use uflow_reads [OF Cons.prems(1)] Getc in \<open>simp_all add: byte_answer_def\<close>)
  next
    case (Getn n)
    show ?thesis unfolding run_reads.simps
      by (rule answered_read [where n = n, OF _ Cons.prems _ _ Cons.IH]) (use xsgetn_reads [OF Cons.prems(1), of n] Getn in simp_all)
  qed
qed

lemma new_stream_ok: "length (utf8_char g) = 6 \<Longrightarrow> stream_ok (new_stream g p v text)"
  by (simp add: stream_ok_def new_stream_def buf_ok_def pending_def clear_buf_def)

text \<open>Bytes that some bytes complete to a string that \<open>validate\<close> accepts.\<close>

definition begins_utf8 :: "byte list \<Rightarrow> bool" where
  "begins_utf8 bs \<longleftrightarrow> (\<exists>rest. validate_len (bs @ rest) (length (bs @ rest)) = Inr None)"

lemma validate_len_wf: "validate_len s (length s) = Inr None \<longleftrightarrow> utf8_wf s"
  using validate_wf [of "[]" s] by (auto simp: validate_len_def)

lemma scan_complete: "scan p (replicate p 0x80) = Some 0"
  by (induction p) (simp_all add: is_continuation_byte_def)

lemma begins_scan: "begins_utf8 bs \<longleftrightarrow> scan 0 bs \<noteq> None"
proof
  assume "begins_utf8 bs"
  then obtain rest where "scan 0 (bs @ rest) = Some 0" unfolding begins_utf8_def validate_len_wf scan_wf [symmetric] by blast
  then show "scan 0 bs \<noteq> None" by (auto simp: scan_append split: option.splits)
next
  assume "scan 0 bs \<noteq> None"
  then obtain p where "scan 0 bs = Some p" by blast
  then have "scan 0 (bs @ replicate p 0x80) = Some 0" by (simp add: scan_append scan_complete)
  then show "begins_utf8 bs" unfolding begins_utf8_def validate_len_wf scan_wf [symmetric] by blast
qed

section \<open>Writing\<close>

datatype write_request = Putc byte | Putn "byte list"

fun write_req :: "write_request \<Rightarrow> utf8_stream \<Rightarrow> unit outcome \<times> utf8_stream" where
  "write_req (Putc c) s = (case overflow (Some c) s of (Inl e, s') \<Rightarrow> (Inl e, s') | (Inr _, s') \<Rightarrow> (Inr (), s'))"
| "write_req (Putn cs) s = (case xsputn cs s of (Inl e, s') \<Rightarrow> (Inl e, s') | (Inr _, s') \<Rightarrow> (Inr (), s'))"

fun run_writes :: "write_request list \<Rightarrow> utf8_stream \<Rightarrow> unit outcome \<times> utf8_stream" where
  "run_writes [] s = (Inr (), s)"
| "run_writes (q # qs) s = (case write_req q s of (Inl e, s') \<Rightarrow> (Inl e, s') | (Inr _, s') \<Rightarrow> run_writes qs s')"

fun put_bytes :: "write_request \<Rightarrow> byte list" where
  "put_bytes (Putc c) = [c]"
| "put_bytes (Putn cs) = cs"

text \<open>The bytes of the requests before the first one that makes the output no beginning of UTF-8.\<close>

fun accepted :: "byte list \<Rightarrow> write_request list \<Rightarrow> byte list" where
  "accepted out [] = out"
| "accepted out (q # qs) = (if begins_utf8 (out @ put_bytes q) then accepted (out @ put_bytes q) qs else out)"

lemma write_req_ok:
  assumes "buf_ok (pbuf s)" "scan 0 out = Some (pending (pbuf s))" "validate_put s"
  shows "if begins_utf8 (out @ put_bytes q)
    then \<exists>b. write_req q s = (Inr (), s\<lparr>pbuf := b, orig_out := orig_out s @ put_bytes q\<rparr>) \<and> buf_ok b \<and> scan 0 (out @ put_bytes q) = Some (pending b)
    else \<exists>e b. write_req q s = (Inl (INVALID_UTF8 e), s\<lparr>pbuf := b\<rparr>)"
proof -
  have w: "write_req q s = (case validate_bytes (put_bytes q) (pbuf s) of (Inl e, b) \<Rightarrow> (Inl e, s\<lparr>pbuf := b\<rparr>)
      | (Inr _, b) \<Rightarrow> (Inr (), s\<lparr>pbuf := b, orig_out := orig_out s @ put_bytes q\<rparr>))"
    using assms(3) by (cases q) (auto simp: overflow_def xsputn_def split: prod.splits sum.splits)
  show ?thesis using validate_bytes_scan [OF assms(1), of "put_bytes q"] assms(2)
    by (auto simp: w begins_scan scan_append split: option.splits)
qed

lemma accepted_extends: "\<exists>w. accepted out qs = out @ w"
proof (induction qs arbitrary: out)
  case (Cons q qs)
  from Cons [of "out @ put_bytes q"] show ?case by auto
qed simp

text \<open>The output is always a beginning of UTF-8, so that a write can only be refused for its own bytes.\<close>

lemma run_writes_ok:
  "buf_ok (pbuf s) \<Longrightarrow> scan 0 (orig_out s) = Some (pending (pbuf s)) \<Longrightarrow> validate_put s \<Longrightarrow>
    orig_out (snd (run_writes qs s)) = accepted (orig_out s) qs
    \<and> (if begins_utf8 (orig_out s @ concat (map put_bytes qs)) then fst (run_writes qs s) = Inr () else \<exists>e. fst (run_writes qs s) = Inl (INVALID_UTF8 e))"
proof (induction qs arbitrary: s)
  case Nil
  then show ?case by (simp add: begins_scan)
next
  case (Cons q qs)
  note q = write_req_ok [OF Cons.prems, of q]
  show ?case
  proof (cases "begins_utf8 (orig_out s @ put_bytes q)")
    case True
    with q obtain b where b: "write_req q s = (Inr (), s\<lparr>pbuf := b, orig_out := orig_out s @ put_bytes q\<rparr>)" "buf_ok b" "scan 0 (orig_out s @ put_bytes q) = Some (pending b)"
      by auto
    from Cons.IH [of "s\<lparr>pbuf := b, orig_out := orig_out s @ put_bytes q\<rparr>"] b Cons.prems(3) True show ?thesis by simp
  next
    case False
    then have "\<not> begins_utf8 (orig_out s @ put_bytes q @ concat (map put_bytes qs))" by (auto simp: begins_scan scan_append split: option.splits)
    with False q show ?thesis by auto
  qed
qed

section \<open>Properties\<close>

text \<open>
  C8: however a text is read, by peeking at the next byte, byte by byte or in chunks, every request is answered with the bytes of the text at
  its place, as long as the bytes looked at are the beginning of a text that \<open>validate\<close> accepts; otherwise the reads end with ZXQD0006. A character that
  the end of the text cuts off is passed on.
\<close>

theorem stream_reads:
  assumes "length (utf8_char g) = 6"
  shows "if begins_utf8 (take (reach 0 qs) input) then fst (run_reads qs (new_stream g p v input)) = Inr (answers input 0 qs)
    else \<exists>e. fst (run_reads qs (new_stream g p v input)) = Inl (INVALID_UTF8 e)"
  using run_reads_ok [OF new_stream_ok [OF assms], of p v input 0 qs] by (auto simp: new_stream_def answered_def begins_scan split: if_splits)

theorem stream_reads_witness:
  "fst (run_reads [Getc, Peek, Getn 2] (new_stream \<lparr>utf8_char = replicate 6 0, char_len = 7, cur_len = 9\<rparr>
      \<lparr>utf8_char = replicate 6 0, char_len = 7, cur_len = 9\<rparr> False [0xC3, 0xA9, 0x61])) = Inr [[0xC3], [0xA9], [0xA9, 0x61]]"
proof -
  have "begins_utf8 (take (reach 0 [Getc, Peek, Getn 2]) [0xC3, 0xA9, 0x61])" by (simp add: begins_scan char_length_eq is_continuation_byte_def)
  then show ?thesis
    using stream_reads [where g = "\<lparr>utf8_char = replicate 6 0, char_len = 7, cur_len = 9\<rparr>" and qs = "[Getc, Peek, Getn 2]"
      and p = "\<lparr>utf8_char = replicate 6 0, char_len = 7, cur_len = 9\<rparr>" and v = False and input = "[0xC3, 0xA9, 0x61]"] by simp
qed

text \<open>
  C29: a stream buffer that checks what is written lets through every write, byte by byte or in chunks, that keeps the output the beginning of a text
  that \<open>validate\<close> accepts. The first other one throws ZXQD0006 and writes nothing.
\<close>

theorem stream_writes:
  assumes "length (utf8_char p) = 6"
  shows "orig_out (snd (run_writes qs (new_stream g p True input))) = accepted [] qs
    \<and> (if begins_utf8 (concat (map put_bytes qs)) then fst (run_writes qs (new_stream g p True input)) = Inr ()
       else \<exists>e. fst (run_writes qs (new_stream g p True input)) = Inl (INVALID_UTF8 e))"
proof -
  let ?s = "new_stream g p True input"
  have s: "buf_ok (pbuf ?s)" "scan 0 (orig_out ?s) = Some (pending (pbuf ?s))" "validate_put ?s" "orig_out ?s = []"
    using assms by (simp_all add: new_stream_def buf_ok_def pending_def clear_buf_def)
  from run_writes_ok [OF s(1-3), of qs] show ?thesis by (simp add: s(4))
qed

theorem stream_writes_witness:
  "orig_out (snd (run_writes [Putc 0xC3, Putn [0xA9, 0x61], Putn [0x62, 0xFF]]
      (new_stream \<lparr>utf8_char = replicate 6 0, char_len = 7, cur_len = 9\<rparr> \<lparr>utf8_char = replicate 6 0, char_len = 7, cur_len = 9\<rparr> True []))) = [0xC3, 0xA9, 0x61]"
  using stream_writes [of "\<lparr>utf8_char = replicate 6 0, char_len = 7, cur_len = 9\<rparr>" "[Putc 0xC3, Putn [0xA9, 0x61], Putn [0x62, 0xFF]]"]
  by (simp add: begins_scan char_length_eq is_continuation_byte_def)

text \<open>
  C37: a byte that has been read can be put back. Reading it again gives it again and leaves the buffer as the first read did, unless it is the last
  byte of a character of several bytes: then it is taken for a first byte and the read throws ZXQD0006.
\<close>

theorem stream_putback:
  assumes "stream_ok s" "uflow s = (Inr (Some c), s')"
  shows "\<exists>s''. pbackfail (Some c) s' = (Some c, s'') \<and> (if pending (gbuf s) = 1 then fst (uflow s'') = Inl (INVALID_UTF8 [c]) else uflow s'' = (Inr (Some c), s'))"
proof -
  let ?b = "gbuf s"
  from assms(2) obtain g where pos: "orig_pos s < length (orig_text s)" "orig_text s ! orig_pos s = c" and g: "validate_byte True c ?b = (Inr (), g)"
    and s': "s' = s\<lparr>orig_pos := Suc (orig_pos s), gbuf := g\<rparr>"
    by (auto simp: uflow_def sgetc_def sbump_def split: if_splits prod.splits sum.splits)
  define g' where "g' = g\<lparr>cur_len := cur_len g - 1\<rparr>"
  have put: "cur_len g \<noteq> 0 \<Longrightarrow> pbackfail (Some c) s' = (Some c, s\<lparr>gbuf := g'\<rparr>)" using pos by (simp add: pbackfail_def s' g'_def)
  have again: "uflow (s\<lparr>gbuf := g'\<rparr>) = (case validate_byte True c g' of (Inl e, b) \<Rightarrow> (Inl e, s\<lparr>orig_pos := Suc (orig_pos s), gbuf := b\<rparr>)
      | (Inr _, b) \<Rightarrow> (Inr (Some c), s\<lparr>orig_pos := Suc (orig_pos s), gbuf := b\<rparr>))"
    using pos by (auto simp: uflow_def sgetc_def sbump_def split: prod.splits sum.splits)
  have ok: "length (utf8_char ?b) = 6" "char_len ?b \<noteq> 0 \<Longrightarrow> 0 < cur_len ?b \<and> cur_len ?b < char_len ?b \<and> char_len ?b \<le> 6"
    using assms(1) by (auto simp: stream_ok_def buf_ok_def)
  show ?thesis
  proof (cases "char_len ?b = 0")
    case True
    then obtain n where n: "char_length c = Inr n" using g by (cases "char_length c") (auto simp: validate_byte_def throw_invalid_utf8_def)
    then have e: "g = ?b\<lparr>utf8_char := (utf8_char ?b)[0 := c], char_len := (if Suc 0 = n then 0 else n), cur_len := Suc 0\<rparr>"
      using g True ok(1) by (simp add: validate_byte_def Let_def)
    then have "validate_byte True c g' = (Inr (), g)" using n ok(1) char_length_bounds [OF n] by (auto simp: validate_byte_def g'_def Let_def)
    then show ?thesis using put again e True by (auto simp: pending_def s')
  next
    case False
    let ?k = "cur_len ?b" let ?n = "char_len ?b"
    have c: "is_continuation_byte c" "g = ?b\<lparr>utf8_char := (utf8_char ?b)[?k := c], char_len := (if Suc ?k = ?n then 0 else ?n), cur_len := Suc ?k\<rparr>"
      using g False ok by (auto simp: validate_byte_def Let_def throw_invalid_utf8_def split: if_splits)
    have "char_length c = Inl (Invalid_byte c)"
      using c(1) by (auto simp: char_length_eq Let_def is_continuation_byte_def word_le_nat_alt word_less_nat_alt)
    then show ?thesis using put again False ok c by (auto simp: pending_def s' g'_def validate_byte_def throw_invalid_utf8_def Let_def)
  qed
qed

theorem stream_putback_witness:
  "let s = new_stream \<lparr>utf8_char = replicate 6 0, char_len = 7, cur_len = 9\<rparr> \<lparr>utf8_char = replicate 6 0, char_len = 7, cur_len = 9\<rparr> False [0x61, 0x62]
   in \<exists>s''. pbackfail (Some 0x61) (snd (uflow s)) = (Some 0x61, s'') \<and> uflow s'' = uflow s"
proof -
  define s where "s = new_stream \<lparr>utf8_char = replicate 6 0, char_len = 7, cur_len = 9\<rparr> \<lparr>utf8_char = replicate 6 0, char_len = 7, cur_len = 9\<rparr> False [0x61, 0x62]"
  have "stream_ok s" "pending (gbuf s) = 0" by (simp_all add: s_def new_stream_ok) (simp add: new_stream_def pending_def clear_buf_def)
  moreover have "uflow s = (Inr (Some 0x61), snd (uflow s))"
    by (simp add: s_def uflow_def new_stream_def sgetc_def validate_byte_def clear_buf_def char_length_eq)
  ultimately show ?thesis using stream_putback [of s "0x61" "snd (uflow s)"] by (simp add: s_def [symmetric] Let_def)
qed

text \<open>\<open>resync\<close> consumes the start byte it is meant to stop at.\<close>

lemma resync_skips: "sgetc (resync (new_stream g g False [0x80, 0x61, 0x62])) = Some 0x62"
proof -
  have st: "\<not> is_start_byte 0x80" "is_start_byte 0x61" by (simp_all add: is_start_byte_def)
  then show ?thesis by (simp add: resync_def resync_loop.simps new_stream_def sgetc_def sbump_def st)
qed

end
