(* ===== verification/Base64.thy ===== *)
theory Base64
  imports Zorba_Prelude "HOL-Library.Char_ord"
begin

text \<open>
  Base64 (\<open>api/base64_util.cpp\<close>, \<open>include/zorba/util/base64_util.h\<close>): the encoder and the decoder on buffers
  and their variants on streams and vectors.

  The decoder writes into the array that it is given and gives back the number of bytes that count; a write
  outside the array is undefined. Without a target (\<open>to\<close> is null) it only checks. The buffer \<open>chunk\<close> is the
  list of the values it holds; what is left in it from an earlier chunk is never read.
\<close>

section \<open>Tables\<close>

definition alphabet :: "byte list" where
  "alphabet = map of_char (''ABCDEFGHIJKLMNOPQRSTUVWXYZ'' @ ''abcdefghijklmnopqrstuvwxyz'' @ ''0123456789+/'')"

definition decode_table :: "int list" where
  "decode_table = [
    -1, -1, -1, -1, -1, -1, -1, -1,
    -1, -1, -2, -1, -1, -2, -1, -1,
    -1, -1, -1, -1, -1, -1, -1, -1,
    -1, -1, -1, -1, -1, -1, -1, -1,
    -1, -1, -1, -1, -1, -1, -1, -1,
    -1, -1, -1, 62, -1, -1, -1, 63,
    52, 53, 54, 55, 56, 57, 58, 59,
    60, 61, -1, -1, -1, -1, -1, -1,
    -1,  0,  1,  2,  3,  4,  5,  6,
     7,  8,  9, 10, 11, 12, 13, 14,
    15, 16, 17, 18, 19, 20, 21, 22,
    23, 24, 25, -1, -1, -1, -1, -1,
    -1, 26, 27, 28, 29, 30, 31, 32,
    33, 34, 35, 36, 37, 38, 39, 40,
    41, 42, 43, 44, 45, 46, 47, 48,
    49, 50, 51, -1, -1, -1, -1, -1,
    -1, -1, -1, -1, -1, -1, -1, -1,
    -1, -1, -1, -1, -1, -1, -1, -1,
    -1, -1, -1, -1, -1, -1, -1, -1,
    -1, -1, -1, -1, -1, -1, -1, -1,
    -1, -1, -1, -1, -1, -1, -1, -1,
    -1, -1, -1, -1, -1, -1, -1, -1,
    -1, -1, -1, -1, -1, -1, -1, -1,
    -1, -1, -1, -1, -1, -1, -1, -1,
    -1, -1, -1, -1, -1, -1, -1, -1,
    -1, -1, -1, -1, -1, -1, -1, -1,
    -1, -1, -1, -1, -1, -1, -1, -1,
    -1, -1, -1, -1, -1, -1, -1, -1,
    -1, -1, -1, -1, -1, -1, -1, -1,
    -1, -1, -1, -1, -1, -1, -1, -1,
    -1, -1, -1, -1, -1, -1, -1, -1,
    -1, -1, -1, -1, -1, -1, -1, -1]"

definition pad :: byte where "pad = of_char CHR ''=''"

definition is_space :: "byte \<Rightarrow> bool" where
  "is_space c \<longleftrightarrow> c < 128 \<and> c \<in> {0x20, 0x09, 0x0A, 0x0B, 0x0C, 0x0D}"

section \<open>Chunks\<close>

fun decode_chunk :: "byte list \<Rightarrow> byte list" where
  "decode_chunk [u0, u1, u2, u3] =
    [push_bit 2 u0 OR drop_bit 4 u1,
     push_bit 4 u1 OR drop_bit 2 u2,
     (push_bit 6 u2 AND 0xC0) OR u3]"
| "decode_chunk _ = []"

fun encode_chunk :: "byte list \<Rightarrow> byte list" where
  "encode_chunk [u0, u1, u2] =
    [alphabet ! unat (drop_bit 2 u0),
     alphabet ! unat (push_bit 4 (u0 AND 0x03) OR drop_bit 4 u1),
     alphabet ! unat (push_bit 2 (u1 AND 0x0F) OR drop_bit 6 u2),
     alphabet ! unat (u2 AND 0x3F)]"
| "encode_chunk _ = []"

section \<open>Decoding\<close>

record decode_opts =
  dopt_any_len :: bool
  dopt_ignore_ws :: bool

definition dopt_none :: decode_opts where
  "dopt_none = \<lparr>dopt_any_len = False, dopt_ignore_ws = False\<rparr>"

text \<open>
  The value of a character: the checks on \<open>=\<close> and on what comes after it. \<open>prev\<close> is \<open>from[-1]\<close>, which
  exists where it is looked at. \<open>strchr\<close> also finds the final zero of its string.
\<close>

definition before_pad2 :: "byte list" where
  "before_pad2 = map of_char ''AQgw'' @ [0]"

definition before_pad3 :: "byte list" where
  "before_pad3 = map of_char ''=048AEIMQUYcgkosw'' @ [0]"

definition char_value :: "nat \<Rightarrow> byte option \<Rightarrow> nat \<Rightarrow> byte \<Rightarrow> (int \<times> nat) outcome" where
  "char_value pos prev pads c =
    (if c = pad then
       (if pos mod 4 = 2 then
          (case prev of None \<Rightarrow> Inl Undefined | Some p \<Rightarrow>
            if p \<notin> set before_pad2 then Inl (Base64_exception c pos) else Inr (0, Suc pads))
        else if pos mod 4 = 3 then
          (case prev of None \<Rightarrow> Inl Undefined | Some p \<Rightarrow>
            if p \<notin> set before_pad3 then Inl (Base64_exception c pos) else Inr (0, Suc pads))
        else Inl (Base64_exception c pos))
     else if pads \<noteq> 0 then Inl (Base64_exception c pos)
     else Inr (decode_table ! unat c, pads))"

definition decoded_size :: "nat \<Rightarrow> nat" where
  "decoded_size n = (n div 4 + of_bool (n mod 4 \<noteq> 0)) * 3"

text \<open>Writing bytes to an array from an index on; writing past its end is undefined. \<open>vector::resize\<close>.\<close>

definition write_at :: "nat \<Rightarrow> byte list \<Rightarrow> byte list \<Rightarrow> byte list outcome" where
  "write_at i bs v = (if i + length bs \<le> length v then Inr (take i v @ bs @ drop (i + length bs) v) else Inl Undefined)"

definition resize :: "nat \<Rightarrow> byte list \<Rightarrow> byte list" where
  "resize n v = take n (v @ replicate (n - length v) 0)"

text \<open>
  The pointer \<open>to\<close>: null, or an index of an array. \<open>put_chunk\<close> is the call of \<open>decode_chunk\<close>, which writes three
  bytes, and the step by which \<open>to\<close> is moved on after it.
\<close>

type_synonym target = "(byte list \<times> nat) option"

definition put_chunk :: "byte list \<Rightarrow> nat \<Rightarrow> target \<Rightarrow> target outcome" where
  "put_chunk chunk n to = (case to of None \<Rightarrow> Inr None
     | Some (v, i) \<Rightarrow> bindE (write_at i (decode_chunk chunk) v) (\<lambda>v. Inr (Some (v, i + n))))"

text \<open>The loop over the input; the result is the chunk, the number of pads and the target.\<close>

fun decode_loop ::
  "decode_opts \<Rightarrow> nat \<Rightarrow> byte option \<Rightarrow> byte list \<Rightarrow> byte list \<Rightarrow> nat \<Rightarrow> target
    \<Rightarrow> (byte list \<times> nat \<times> target) outcome" where
  "decode_loop opts pos prev [] chunk pads to = Inr (chunk, pads, to)"
| "decode_loop opts pos prev (c # from) chunk pads to =
    bindE (char_value pos prev pads c) (\<lambda>(value, pads).
      if value = -1 then
        if is_space c \<and> dopt_ignore_ws opts then decode_loop opts (Suc pos) (Some c) from chunk pads to
        else Inl (Base64_exception c pos)
      else if value = -2 then decode_loop opts (Suc pos) (Some c) from chunk pads to
      else
        let chunk = (if length chunk = 4 then [] else chunk) @ [of_int value] in
        bindE (if length chunk = 4 then put_chunk chunk 3 to else Inr to) (\<lambda>to.
          decode_loop opts (Suc pos) (Some c) from chunk pads to))"

text \<open>
  \<open>decode\<close> into an array: the number it returns and the array. Salvaging an incomplete chunk writes three bytes
  as well, of which one or two are kept. The pads never outnumber the bytes written (\<open>pads_written\<close>).
\<close>

definition decode_at :: "decode_opts \<Rightarrow> byte list \<Rightarrow> target \<Rightarrow> (nat \<times> byte list) outcome" where
  "decode_at opts from to_orig =
    bindE (decode_loop opts 0 None from [] 0 to_orig) (\<lambda>(chunk, pads, to).
      let chunk_len = length chunk in
      if chunk_len mod 4 \<noteq> 0 \<and> \<not> dopt_any_len opts then Inl Invalid_argument
      else
        bindE (if chunk_len > 1 \<and> chunk_len < 4 then put_chunk (take 4 (chunk @ [0, 0])) (chunk_len - 1) to else Inr to) (\<lambda>to.
          case (to_orig, to) of
            (Some (_, i_orig), Some (v, i)) \<Rightarrow> Inr (i - i_orig - pads, v)
          | _ \<Rightarrow> Inr (0, [])))"

text \<open>\<open>decode\<close> into a vector appends to it. \<open>decode_b64\<close> is what it appends to an empty one, or only the check.\<close>

definition decode_vec :: "decode_opts \<Rightarrow> byte list \<Rightarrow> byte list \<Rightarrow> byte list outcome" where
  "decode_vec opts from to =
    (if from = [] then Inr to
     else bindE (decode_at opts from (Some (resize (length to + decoded_size (length from)) to, length to))) (\<lambda>(decoded, v).
       Inr (resize (length to + decoded) v)))"

definition decode_b64 :: "decode_opts \<Rightarrow> bool \<Rightarrow> byte list \<Rightarrow> byte list outcome" where
  "decode_b64 opts to from =
    (if to then decode_vec opts from [] else bindE (decode_at opts from None) (\<lambda>_. Inr []))"

definition validate_b64 :: "decode_opts \<Rightarrow> byte list \<Rightarrow> byte list outcome" where
  "validate_b64 opts buf = decode_b64 opts False buf"

section \<open>Encoding\<close>

text \<open>The loop over full chunks, and the padding of the rest.\<close>

fun encode_b64 :: "byte list \<Rightarrow> byte list" where
  "encode_b64 (u0 # u1 # u2 # from) = encode_chunk [u0, u1, u2] @ encode_b64 from"
| "encode_b64 [] = []"
| "encode_b64 from =
    (let to = encode_chunk (take 3 (from @ [0, 0]));
         to = to[3 := pad]
     in if length from = 1 then to[2 := pad] else to)"

definition encoded_size :: "nat \<Rightarrow> nat" where
  "encoded_size n = (n + 2) div 3 * 4"

section \<open>Streams and vectors\<close>

text \<open>Reading 3072 (4096) bytes at a time until the end of the stream.\<close>

function encode_stream :: "byte list \<Rightarrow> byte list" where
  "encode_stream from =
    (if from = [] then [] else encode_b64 (take 3072 from) @ encode_stream (drop 3072 from))"
  by pat_completeness auto

termination
  by (relation "measure length") auto

declare encode_stream.simps [simp del]

text \<open>
  \<open>read_without_whitespace\<close> fills the buffer with what is left of the stream without white space. The
  bytes are decoded into an array of 3072 bytes on the stack.
\<close>

function decode_stream :: "decode_opts \<Rightarrow> byte list \<Rightarrow> byte list outcome" where
  "decode_stream opts from =
    (let from = (if dopt_ignore_ws opts then filter (\<lambda>c. \<not> is_space c) from else from) in
     if from = [] then Inr []
     else bindE (decode_at opts (take 4096 from) (Some (replicate 3072 0, 0))) (\<lambda>(decoded, to_buf).
       bindE (decode_stream opts (drop 4096 from)) (\<lambda>outs. Inr (take decoded to_buf @ outs))))"
  by pat_completeness auto

termination
proof (relation "measure (\<lambda>(opts, from). length from)")
  fix opts "from" xs
  assume xs: "xs = (if dopt_ignore_ws opts then filter (\<lambda>c. \<not> is_space c) from else from)" and ne: "xs \<noteq> []"
  have "length xs \<le> length from" using xs by simp
  moreover have "length (drop 4096 xs) < length xs" using ne by simp
  ultimately show "((opts, drop 4096 xs), opts, from) \<in> measure (\<lambda>(opts, from). length from)" by simp
qed simp

declare decode_stream.simps [simp del]

text \<open>The vector variant writes from index \<open>total_encoded\<close> on.\<close>

function encode_vector_loop :: "byte list \<Rightarrow> nat \<Rightarrow> byte list \<Rightarrow> (nat \<times> byte list) outcome" where
  "encode_vector_loop from tot to =
    (if from = [] then Inr (tot, to)
     else let enc = encode_b64 (take 3072 from) in
       bindE (write_at tot enc (to @ replicate (encoded_size (length (take 3072 from))) 0)) (\<lambda>to.
         encode_vector_loop (drop 3072 from) (tot + length enc) to))"
  by pat_completeness auto

termination
  by (relation "measure (\<lambda>(from, tot, to). length from)") auto

declare encode_vector_loop.simps [simp del]

definition encode_vector :: "byte list \<Rightarrow> byte list \<Rightarrow> byte list outcome" where
  "encode_vector from to =
    bindE (encode_vector_loop from 0 to) (\<lambda>(tot, v).
      Inr (resize (length to + tot) v))"

end

