(* ===== verification/Base64_Codec.thy ===== *)
theory Base64_Codec
  imports Base64
begin

text \<open>
  Base64: the decoder and the encoder are inverse to each other on texts without line breaks, the stream
  variants do what the buffer variants do, and \<open>decode\<close> writes only where the caller has made room. The
  decoder on arrays is compared with one that returns its bytes (\<open>ref_decode\<close>). The last lemmas show where the
  code does not do what it means to.
\<close>

section \<open>Tables\<close>

text \<open>A property of the elements of a list together with their positions.\<close>

fun indexed :: "(int \<Rightarrow> 'a \<Rightarrow> bool) \<Rightarrow> int \<Rightarrow> 'a list \<Rightarrow> bool" where
  "indexed P i [] = True"
| "indexed P i (x # xs) \<longleftrightarrow> P i x \<and> indexed P (i + 1) xs"

lemma indexed_nth: "indexed P i xs \<Longrightarrow> k < length xs \<Longrightarrow> P (i + int k) (xs ! k)"
proof (induction xs arbitrary: i k)
  case (Cons x xs)
  show ?case
  proof (cases k)
    case (Suc j)
    then show ?thesis using Cons.IH [of "i + 1" j] Cons.prems by (simp add: algebra_simps)
  qed (use Cons.prems in simp)
qed simp

lemma alphabet_eq: "alphabet = [65,66,67,68,69,70,71,72,73,74,75,76,77,78,79,80,81,82,83,84,85,86,87,88,89,90,97,98,99,100,101,102,103,104,105,106,107,108,109,110,111,112,113,114,115,116,117,118,119,120,121,122,48,49,50,51,52,53,54,55,56,57,43,47]"
  by (simp add: alphabet_def)

lemma alphabet_length: "length alphabet = 64"
  by (simp add: alphabet_eq)

lemma table_encode: "indexed (\<lambda>i c. decode_table ! unat c = i \<and> c \<noteq> pad) 0 alphabet"
  by (simp add: alphabet_eq decode_table_def pad_def)

lemma table_decode: "indexed (\<lambda>u v. v < 64 \<and> (0 \<le> v \<longrightarrow> uint (alphabet ! nat v) = u)) 0 decode_table"
  by (simp add: decode_table_def alphabet_eq)

lemma table_pads:
  "indexed (\<lambda>i c. (c \<in> set before_pad2 \<longleftrightarrow> i mod 16 = 0)
    \<and> (c \<in> set before_pad3 \<longleftrightarrow> i mod 4 = 0)) 0 alphabet"
  by (simp add: alphabet_eq before_pad2_def before_pad3_def)

lemma table_skip: "indexed (\<lambda>u v. v = -1 \<or> v = -2 \<and> (u = 10 \<or> u = 13) \<or> 0 \<le> v) 0 decode_table"
  by (simp add: decode_table_def)

lemma table_length: "length decode_table = 256"
  by (simp add: decode_table_def)

text \<open>The character of a six-bit value.\<close>

definition b64 :: "byte \<Rightarrow> byte" where
  "b64 x = alphabet ! unat x"

lemma b64_value:
  assumes "unat x < 64"
  shows "decode_table ! unat (b64 x) = int (unat x)" "b64 x \<noteq> pad"
    "b64 x \<in> set before_pad2 \<longleftrightarrow> unat x mod 16 = 0"
    "b64 x \<in> set before_pad3 \<longleftrightarrow> unat x mod 4 = 0"
proof -
  have l: "unat x < length alphabet" using assms by (simp add: alphabet_length)
  show "decode_table ! unat (b64 x) = int (unat x)" "b64 x \<noteq> pad"
    using indexed_nth [OF table_encode l] by (simp_all add: b64_def)
  show "b64 x \<in> set before_pad2 \<longleftrightarrow> unat x mod 16 = 0"
    "b64 x \<in> set before_pad3 \<longleftrightarrow> unat x mod 4 = 0"
    using indexed_nth [OF table_pads l] unfolding b64_def by (simp_all only: of_nat_mod [symmetric] add_0 of_nat_eq_0_iff of_nat_numeral) presburger+
qed

lemma value_b64:
  assumes "0 \<le> decode_table ! unat c" obtains x where "unat x < 64" "c = b64 x" "decode_table ! unat c = int (unat x)"
proof -
  have l: "unat c < length decode_table" using unsigned_less [of c] by (simp add: table_length)
  then have v: "decode_table ! unat c < 64" "uint (alphabet ! nat (decode_table ! unat c)) = int (unat c)"
    using indexed_nth [OF table_decode l] assms by simp_all
  obtain m where m: "decode_table ! unat c = int m" using assms by (metis nonneg_int_cases)
  define x :: byte where "x = of_nat m"
  have "unat x = m" using v(1) m by (simp add: x_def unat_of_nat)
  moreover have "alphabet ! m = c" using v(2) m by (simp add: word_uint_eq_iff)
  ultimately show thesis using that [of x] v(1) m by (simp add: b64_def)
qed

lemma table_values: "decode_table ! unat c = -1 \<or> decode_table ! unat c = -2 \<and> (c = 10 \<or> c = 13) \<or> 0 \<le> decode_table ! unat c"
  for c :: byte
proof -
  have "unat c < length decode_table" using unsigned_less [of c] by (simp add: table_length)
  from indexed_nth [OF table_skip this] show ?thesis by (auto simp: word_uint_eq_iff)
qed

section \<open>The decoder without its array\<close>

text \<open>
  \<open>ref_loop\<close> and \<open>ref_decode\<close> collect the bytes in a list instead of an array of a given size;
  \<open>decode_at_ref\<close> shows that nothing else is different as long as the array has the size that
  \<open>decoded_size\<close> gives.
\<close>

fun ref_loop ::
  "decode_opts \<Rightarrow> bool \<Rightarrow> nat \<Rightarrow> byte option \<Rightarrow> byte list \<Rightarrow> byte list \<Rightarrow> nat \<Rightarrow> byte list
    \<Rightarrow> (byte list \<times> nat \<times> byte list) outcome" where
  "ref_loop opts to pos prev [] chunk pads out = Inr (chunk, pads, out)"
| "ref_loop opts to pos prev (c # from) chunk pads out =
    bindE (char_value pos prev pads c) (\<lambda>(value, pads).
      if value = -1 then
        if is_space c \<and> dopt_ignore_ws opts then ref_loop opts to (Suc pos) (Some c) from chunk pads out
        else Inl (Base64_exception c pos)
      else if value = -2 then ref_loop opts to (Suc pos) (Some c) from chunk pads out
      else
        let chunk = (if length chunk = 4 then [] else chunk) @ [of_int value];
            out = (if to \<and> length chunk = 4 then out @ decode_chunk chunk else out)
        in ref_loop opts to (Suc pos) (Some c) from chunk pads out)"

definition ref_decode :: "decode_opts \<Rightarrow> bool \<Rightarrow> byte list \<Rightarrow> byte list outcome" where
  "ref_decode opts to from =
    bindE (ref_loop opts to 0 None from [] 0 []) (\<lambda>(chunk, pads, out).
      let chunk_len = length chunk in
      if chunk_len mod 4 \<noteq> 0 \<and> \<not> dopt_any_len opts then Inl Invalid_argument
      else if \<not> to then Inr []
      else
        let out = (if chunk_len > 1 \<and> chunk_len < 4
                   then out @ take (chunk_len - 1) (decode_chunk (take 4 (chunk @ [0, 0])))
                   else out)
        in Inr (take (length out - pads) out))"

lemma length_decode_chunk: "length chunk = 4 \<Longrightarrow> length (decode_chunk chunk) = 3"
  by (auto simp: numeral_eq_Suc length_Suc_conv)

text \<open>The array when \<open>out\<close> has been written over the beginning of \<open>tail\<close>, behind \<open>pre\<close>.\<close>

definition area :: "byte list \<Rightarrow> byte list \<Rightarrow> byte list \<Rightarrow> target" where
  "area pre tail out = Some (pre @ out @ drop (length out) tail, length pre + length out)"

lemma put_chunk_area:
  assumes "length chunk = 4" "length out + 3 \<le> length tail"
  shows "put_chunk chunk n (area pre tail out) = Inr (Some (pre @ (out @ decode_chunk chunk) @
      drop (length (out @ decode_chunk chunk)) tail, length pre + length out + n))"
  using assms by (simp add: put_chunk_def area_def write_at_def length_decode_chunk add.commute)

lemma put_chunk_full:
  assumes "length chunk = 4" "length out + 3 \<le> length tail"
  shows "put_chunk chunk 3 (area pre tail out) = Inr (area pre tail (out @ decode_chunk chunk))"
  using put_chunk_area [OF assms] length_decode_chunk [OF assms(1)] by (simp add: area_def)

lemma loop_ref:
  assumes "length out + 3 * ((length chunk mod 4 + length s) div 4) \<le> length tail" "length chunk \<le> 4"
  shows "decode_loop opts pos prev s chunk pads (area pre tail out)
    = bindE (ref_loop opts True pos prev s chunk pads out) (\<lambda>(chunk, pads, out). Inr (chunk, pads, area pre tail out))"
  using assms
proof (induction s arbitrary: pos prev chunk pads out)
  case (Cons c s)
  have room: "length out + 3 * ((length chunk mod 4 + length s) div 4) \<le> length tail"
    by (rule order_trans [OF _ Cons.prems(1)]) (simp add: div_le_mono)
  note skip = Cons.IH [OF room Cons.prems(2)]
  define chunk2 where "chunk2 v = (if length chunk = 4 then [] else chunk) @ [of_int v :: byte]" for v
  have put: "bindE (if length (chunk2 v) = 4 then put_chunk (chunk2 v) 3 (area pre tail out) else Inr (area pre tail out))
      (\<lambda>to. decode_loop opts (Suc pos) (Some c) s (chunk2 v) p to)
    = bindE (ref_loop opts True (Suc pos) (Some c) s (chunk2 v) p (if length (chunk2 v) = 4 then out @ decode_chunk (chunk2 v) else out))
      (\<lambda>(chunk, pads, out). Inr (chunk, pads, area pre tail out))" for v p
  proof -
    have l: "length (chunk2 v) = Suc (length chunk mod 4)" using Cons.prems(2) by (auto simp: chunk2_def)
    then consider "length (chunk2 v) = 4" "length chunk mod 4 = 3" | "length (chunk2 v) < 4" "length (chunk2 v) mod 4 = Suc (length chunk mod 4)"
      using mod_less_divisor [of 4 "length chunk"] by force
    then show ?thesis
    proof cases
      case 1
      then have "length chunk mod 4 + length (c # s) = length s + 4" by simp
      then have "(length chunk mod 4 + length (c # s)) div 4 = Suc (length s div 4)" by simp
      with Cons.prems(1) have "length out + 3 + 3 * (length s div 4) \<le> length tail" by simp
      with 1 Cons.IH [of "out @ decode_chunk (chunk2 v)" "chunk2 v" "Suc pos" "Some c" p]
      show ?thesis by (simp add: put_chunk_full length_decode_chunk)
    next
      case 2
      with Cons.prems(1) Cons.IH [of out "chunk2 v" "Suc pos" "Some c" p] show ?thesis by simp
    qed
  qed
  show ?case
    using skip put unfolding decode_loop.simps(2) ref_loop.simps(2) Let_def chunk2_def [symmetric]
    by (cases "char_value pos prev pads c") auto
qed simp

lemma loop_null:
  "decode_loop opts pos prev s chunk pads None
    = bindE (ref_loop opts False pos prev s chunk pads out) (\<lambda>(chunk, pads, out). Inr (chunk, pads, None))"
proof (induction s arbitrary: pos prev chunk pads)
  case (Cons c s)
  show ?case
    unfolding decode_loop.simps(2) ref_loop.simps(2) Let_def
    by (cases "char_value pos prev pads c") (auto simp: Cons.IH put_chunk_def)
qed simp

text \<open>Every four characters give three bytes.\<close>

lemma loop_size:
  "ref_loop opts to pos prev s chunk pads out = Inr (chunk', pads', out') \<Longrightarrow> length chunk \<le> 4 \<Longrightarrow> length out mod 3 = 0
    \<Longrightarrow> 4 * length out' + 3 * (length chunk' mod 4) \<le> 4 * length out + 3 * (length chunk mod 4) + 3 * length s
      \<and> length chunk' \<le> 4 \<and> length out' mod 3 = 0"
proof (induction s arbitrary: pos prev chunk pads out)
  case (Cons c s)
  define chunk2 where "chunk2 v = (if length chunk = 4 then [] else chunk) @ [of_int v :: byte]" for v
  from Cons.prems obtain pads2 where
    "ref_loop opts to (Suc pos) (Some c) s chunk pads2 out = Inr (chunk', pads', out')
      \<or> (\<exists>v. ref_loop opts to (Suc pos) (Some c) s (chunk2 v) pads2
          (if to \<and> length (chunk2 v) = 4 then out @ decode_chunk (chunk2 v) else out) = Inr (chunk', pads', out'))"
    by (auto simp: ref_loop.simps(2) bindE_eq_Inr Let_def chunk2_def split: if_splits)
  then show ?case
  proof (elim disjE exE)
    assume "ref_loop opts to (Suc pos) (Some c) s chunk pads2 out = Inr (chunk', pads', out')"
    from Cons.IH [OF this Cons.prems(2,3)] show ?thesis by simp
  next
    fix v
    assume r: "ref_loop opts to (Suc pos) (Some c) s (chunk2 v) pads2
      (if to \<and> length (chunk2 v) = 4 then out @ decode_chunk (chunk2 v) else out) = Inr (chunk', pads', out')"
    have l: "length (chunk2 v) = Suc (length chunk mod 4)" using Cons.prems(2) by (auto simp: chunk2_def)
    then have "length (chunk2 v) \<le> 4" using mod_less_divisor [of 4 "length chunk"] by simp
    moreover have "length (if to \<and> length (chunk2 v) = 4 then out @ decode_chunk (chunk2 v) else out) mod 3 = 0"
      using Cons.prems(3) by (auto simp: length_decode_chunk)
    ultimately show ?thesis
      using Cons.IH [OF r] l by (auto simp: length_decode_chunk split: if_splits)
  qed
qed simp

text \<open>What is written fits into \<open>decoded_size\<close> bytes: the three bytes for a salvaged chunk too.\<close>

lemma decoded_size_room:
  assumes "4 * w + 3 * c \<le> 3 * n" "w mod 3 = 0" "c < 4"
  shows "w + (if c = 0 then 0 else 3) \<le> decoded_size n"
proof -
  obtain m where w: "w = 3 * m" using assms(2) by auto
  have "4 * m + c \<le> n" using assms(1) by (simp add: w)
  then have "m + of_bool (c \<noteq> 0) \<le> n div 4 + of_bool (n mod 4 \<noteq> 0)"
    using assms(3) mult_div_mod_eq [of 4 n] mod_less_divisor [of 4 n] by (auto simp: of_bool_def)
  then have "3 * (m + of_bool (c \<noteq> 0)) \<le> 3 * (n div 4 + of_bool (n mod 4 \<noteq> 0))" by simp
  moreover have "w + (if c = 0 then 0 else 3) = 3 * (m + of_bool (c \<noteq> 0))" by (simp add: w)
  ultimately show ?thesis by (simp only: decoded_size_def mult.commute)
qed

lemma area_split:
  assumes "k \<le> length out" "length out \<le> n" "n \<le> length tail"
  shows "\<exists>w. pre @ out @ drop (length out) tail = pre @ take k out @ w @ drop n tail \<and> k + length w = n"
proof -
  have "out = take k out @ drop k out" by simp
  moreover have "drop (length out) tail = take (n - length out) (drop (length out) tail) @ drop n tail"
    using assms(2) by (metis append_take_drop_id drop_drop le_add_diff_inverse2)
  ultimately show ?thesis
    using assms by (intro exI [of _ "drop k out @ take (n - length out) (drop (length out) tail)"]) simp
qed

text \<open>
  There are never more pads than bytes: at most two, behind a character that stands for a value. So the
  number \<open>decode\<close> returns does not wrap around.
\<close>

definition pads_inv :: "nat \<Rightarrow> byte option \<Rightarrow> nat \<Rightarrow> nat \<Rightarrow> bool" where
  "pads_inv pos prev n pads \<longleftrightarrow>
     pads = 0 \<and> (\<forall>p. prev = Some p \<longrightarrow> p \<in> set before_pad2 \<or> p \<in> set before_pad3 \<longrightarrow> 1 \<le> n)
   \<or> pads = 1 \<and> pos mod 4 \<in> {0, 3} \<and> 2 \<le> n
   \<or> pads = 2 \<and> pos mod 4 = 0 \<and> 3 \<le> n"

lemma not_before_pad:
  "is_space c \<or> c = 10 \<or> c = 13 \<Longrightarrow> c \<notin> set before_pad2 \<and> c \<notin> set before_pad3"
  by (auto simp: is_space_def before_pad2_def before_pad3_def)

lemma pads_inv_step:
  assumes "char_value pos prev pads c = Inr (value, pads')" "pads_inv pos prev n pads"
  shows "value \<noteq> -1 \<and> value \<noteq> -2 \<Longrightarrow> pads_inv (Suc pos) (Some c) (Suc n) pads'"
    and "value = -1 \<and> is_space c \<or> value = -2 \<and> (c = 10 \<or> c = 13) \<Longrightarrow> pads_inv (Suc pos) (Some c) n pads'"
  using assms not_before_pad [of c]
  by (auto simp: pads_inv_def char_value_def mod_Suc split: if_splits option.splits)

lemma pads_loop:
  "ref_loop opts True pos prev s chunk pads out = Inr (chunk', pads', out') \<Longrightarrow> length chunk \<le> 4 \<Longrightarrow> length out mod 3 = 0
    \<Longrightarrow> pads_inv pos prev (4 * (length out div 3) + length chunk mod 4) pads
    \<Longrightarrow> pads' \<le> 2 \<and> (0 < pads' \<longrightarrow> pads' < 4 * (length out' div 3) + length chunk' mod 4)"
proof (induction s arbitrary: pos prev chunk pads out)
  case Nil
  then show ?case by (auto simp: pads_inv_def)
next
  case (Cons c s)
  obtain v pads2 where v: "char_value pos prev pads c = Inr (v, pads2)"
    using Cons.prems(1) by (auto simp: bindE_eq_Inr)
  show ?case
  proof (cases "v = -1 \<or> v = -2")
    case True
    have "v = -2 \<Longrightarrow> c = 10 \<or> c = 13"
      using v table_values [of c] by (auto simp: char_value_def split: if_splits option.splits)
    with True v Cons.prems(1) have r: "ref_loop opts True (Suc pos) (Some c) s chunk pads2 out = Inr (chunk', pads', out')"
      "v = -1 \<and> is_space c \<or> v = -2 \<and> (c = 10 \<or> c = 13)" by (auto split: if_splits)
    from Cons.IH [OF r(1) Cons.prems(2,3) pads_inv_step(2) [OF v Cons.prems(4) r(2)]] show ?thesis .
  next
    case False
    define chunk2 where "chunk2 = (if length chunk = 4 then [] else chunk) @ [of_int v :: byte]"
    define out2 where "out2 = (if length chunk2 = 4 then out @ decode_chunk chunk2 else out)"
    have r: "ref_loop opts True (Suc pos) (Some c) s chunk2 pads2 out2 = Inr (chunk', pads', out')"
      using Cons.prems(1) v False unfolding ref_loop.simps(2) Let_def v bindE_simps split_conv chunk2_def [symmetric]
      by (simp add: out2_def)
    have l: "length chunk2 = Suc (length chunk mod 4)" using Cons.prems(2) by (auto simp: chunk2_def)
    then have l4: "length chunk2 \<le> 4" using mod_less_divisor [of 4 "length chunk"] by simp
    have o: "length out2 mod 3 = 0"
      "4 * (length out2 div 3) + length chunk2 mod 4 = Suc (4 * (length out div 3) + length chunk mod 4)"
      using Cons.prems(3) l l4 by (auto simp: out2_def length_decode_chunk)
    from Cons.IH [OF r l4 o(1)] pads_inv_step(1) [OF v Cons.prems(4)] False show ?thesis by (simp add: o(2))
  qed
qed

lemma pads_written:
  assumes "ref_loop opts True 0 None s [] 0 [] = Inr (chunk, pads, out)"
  shows "pads \<le> length out + (if length chunk > 1 \<and> length chunk < 4 then length chunk - 1 else 0)"
proof -
  have "pads \<le> 2 \<and> (0 < pads \<longrightarrow> pads < 4 * (length out div 3) + length chunk mod 4)"
    using pads_loop [OF assms] by (simp add: pads_inv_def)
  moreover have "length chunk \<le> 4" "length out mod 3 = 0" using loop_size [OF assms] by simp_all
  moreover have "length out div 3 = 0 \<longrightarrow> length out = 0" using \<open>length out mod 3 = 0\<close> by auto
  moreover have "length out div 3 \<noteq> 0 \<longrightarrow> 3 \<le> length out" by auto
  ultimately show ?thesis by (cases "length out div 3 = 0"; cases "length chunk = 4") auto
qed

text \<open>
  \<open>decode\<close> with an array that has \<open>decoded_size\<close> bytes from \<open>to\<close> on: the bytes of the reference are written there,
  and nothing outside these bytes is touched.
\<close>

lemma decode_at_ref:
  assumes "decoded_size (length s) \<le> length tail"
  shows "case ref_decode opts True s of
      Inl e \<Rightarrow> decode_at opts s (Some (pre @ tail, length pre)) = Inl e
    | Inr ys \<Rightarrow> \<exists>w. decode_at opts s (Some (pre @ tail, length pre))
          = Inr (length ys, pre @ ys @ w @ drop (decoded_size (length s)) tail)
        \<and> length ys + length w = decoded_size (length s)"
proof (cases "ref_loop opts True 0 None s [] 0 []")
  case (Inl e)
  have "3 * (length s div 4) \<le> length tail" using assms by (simp add: decoded_size_def)
  with loop_ref [of "[]" "[]" s tail opts 0 None 0 pre] Inl show ?thesis
    by (simp add: ref_decode_def decode_at_def area_def)
next
  case (Inr r)
  obtain chunk pads out where r: "r = (chunk, pads, out)" by (cases r)
  have "3 * (length s div 4) \<le> length tail" using assms by (simp add: decoded_size_def)
  with loop_ref [of "[]" "[]" s tail opts 0 None 0 pre] Inr
  have l: "decode_loop opts 0 None s [] 0 (Some (pre @ tail, length pre)) = Inr (chunk, pads, area pre tail out)"
    by (simp add: area_def r)
  have size: "4 * length out + 3 * (length chunk mod 4) \<le> 3 * length s" "length chunk \<le> 4" "length out mod 3 = 0"
    using loop_size [OF Inr [unfolded r]] by simp_all
  have room: "length out + (if length chunk mod 4 = 0 then 0 else 3) \<le> decoded_size (length s)"
    using decoded_size_room [OF size(1,3)] by simp
  show ?thesis
  proof (cases "length chunk > 1 \<and> length chunk < 4")
    case True
    define c4 where "c4 = decode_chunk (take 4 (chunk @ [0, 0]))"
    have c4: "length c4 = 3" using True by (auto simp: c4_def length_decode_chunk simp del: take_append)
    have fits: "length (out @ c4) \<le> decoded_size (length s)" using room True c4 by (auto split: if_splits)
    moreover have "length out + (length chunk - 1) - pads \<le> length (out @ c4)" using c4 True by auto
    ultimately obtain w where w: "pre @ (out @ c4) @ drop (length (out @ c4)) tail
        = pre @ take (length out + (length chunk - 1) - pads) (out @ c4) @ w @ drop (decoded_size (length s)) tail"
        "length out + (length chunk - 1) - pads + length w = decoded_size (length s)"
      using area_split [OF _ _ assms, of "length out + (length chunk - 1) - pads" "out @ c4" pre] by blast
    have "put_chunk (take 4 (chunk @ [0, 0])) (length chunk - 1) (area pre tail out)
        = Inr (Some (pre @ (out @ c4) @ drop (length (out @ c4)) tail, length pre + length out + (length chunk - 1)))"
      using put_chunk_area [of "take 4 (chunk @ [0, 0])" out tail "length chunk - 1" pre] fits assms c4 True
      unfolding c4_def by auto
    moreover have "take (length out + (length chunk - 1) - pads) (out @ take (length chunk - 1) c4)
        = take (length out + (length chunk - 1) - pads) (out @ c4)"
      by (simp add: min_def)
    ultimately show ?thesis
      using True c4 w Inr unfolding ref_decode_def decode_at_def l r
      by (auto simp: Let_def c4_def [symmetric] simp del: take_append append_assoc)
  next
    case False
    have "length out \<le> decoded_size (length s)" using room by simp
    then obtain w where "pre @ out @ drop (length out) tail = pre @ take (length out - pads) out @ w @ drop (decoded_size (length s)) tail"
        "length out - pads + length w = decoded_size (length s)"
      using area_split [of "length out - pads" out] assms by auto
    then show ?thesis
      using False Inr unfolding ref_decode_def decode_at_def l r by (auto simp: Let_def area_def)
  qed
qed

lemma ref_loop_defined: "pos = 0 \<or> prev \<noteq> None \<Longrightarrow> ref_loop opts to pos prev s chunk pads out \<noteq> Inl Undefined"
proof (induction s arbitrary: pos prev chunk pads out)
  case (Cons c s)
  have "char_value pos prev pads c \<noteq> Inl Undefined" using Cons.prems by (auto simp: char_value_def split: if_splits)
  then show ?case
    using Cons.IH [of "Suc pos" "Some c"] by (cases "char_value pos prev pads c") (simp_all add: Let_def split: prod.splits)
qed simp

lemma ref_decode_defined: "ref_decode opts to s \<noteq> Inl Undefined"
  using ref_loop_defined [of 0 None opts to s "[]" 0 "[]"]
  by (cases "ref_loop opts to 0 None s [] 0 []") (auto simp: ref_decode_def Let_def split: if_splits)

lemma resize_take: "n \<le> length v \<Longrightarrow> resize n v = take n v"
  by (simp add: resize_def)

text \<open>So the array makes no difference, whether it is in an empty vector or the one of \<open>decode_stream\<close>.\<close>

lemma decode_b64_ref: "decode_b64 opts to s = ref_decode opts to s"
proof (cases "to \<and> s \<noteq> []")
  case True
  have "resize (decoded_size (length s)) [] = replicate (decoded_size (length s)) 0" by (simp add: resize_def)
  with decode_at_ref [of s "replicate (decoded_size (length s)) 0" opts "[]"] True show ?thesis
    by (auto simp: decode_b64_def decode_vec_def resize_take split: sum.splits)
next
  case False
  show ?thesis
  proof (cases to)
    case True
    with False show ?thesis by (simp add: decode_b64_def decode_vec_def ref_decode_def)
  next
    case False
    then show ?thesis
      using loop_null [of opts 0 None s "[]" 0 "[]"]
      by (cases "ref_loop opts False 0 None s [] 0 []") (auto simp: decode_b64_def decode_at_def ref_decode_def put_chunk_def Let_def)
  qed
qed

lemma decode_at_stack:
  assumes "length s \<le> 4096"
  shows "bindE (decode_at opts s (Some (replicate 3072 0, 0))) (\<lambda>(n, v). f (take n v)) = bindE (ref_decode opts True s) f"
proof -
  have "length s div 4 + (if length s mod 4 \<noteq> 0 then 1 else 0) \<le> 1024"
    using assms mult_div_mod_eq [of 4 "length s"] by presburger
  then have "decoded_size (length s) \<le> length (replicate 3072 (0 :: byte))" by (simp add: decoded_size_def of_bool_def)
  from decode_at_ref [OF this, of opts "[]"] show ?thesis by (auto split: sum.splits)
qed

section \<open>Chunks\<close>

lemma byte_bits_eq: "x = y \<longleftrightarrow> (bit x 0 \<longleftrightarrow> bit y 0) \<and> (bit x 1 \<longleftrightarrow> bit y 1) \<and> (bit x 2 \<longleftrightarrow> bit y 2) \<and> (bit x 3 \<longleftrightarrow> bit y 3)
    \<and> (bit x 4 \<longleftrightarrow> bit y 4) \<and> (bit x 5 \<longleftrightarrow> bit y 5) \<and> (bit x 6 \<longleftrightarrow> bit y 6) \<and> (bit x 7 \<longleftrightarrow> bit y 7)"
  for x y :: byte
proof
  assume r: "(bit x 0 \<longleftrightarrow> bit y 0) \<and> (bit x 1 \<longleftrightarrow> bit y 1) \<and> (bit x 2 \<longleftrightarrow> bit y 2) \<and> (bit x 3 \<longleftrightarrow> bit y 3)
    \<and> (bit x 4 \<longleftrightarrow> bit y 4) \<and> (bit x 5 \<longleftrightarrow> bit y 5) \<and> (bit x 6 \<longleftrightarrow> bit y 6) \<and> (bit x 7 \<longleftrightarrow> bit y 7)"
  show "x = y"
  proof (rule bit_word_eqI)
    fix n assume "n < LENGTH(8)"
    then have "n \<in> {0, 1, 2, 3, 4, 5, 6, 7}" by auto
    with r show "bit x n \<longleftrightarrow> bit y n" by auto
  qed
qed simp

lemma byte_no_bit: "8 \<le> i \<Longrightarrow> \<not> bit (x :: byte) i"
  using bit_imp_le_length [of x i] by auto

lemma masks: "x AND 0x03 = take_bit 2 x" "x AND 0x0F = take_bit 4 x" "x AND 0x3F = take_bit 6 x" "push_bit 6 x AND 0xC0 = push_bit 6 x"
  for x :: byte
proof -
  show "x AND 0x03 = take_bit 2 x" "x AND 0x0F = take_bit 4 x" "x AND 0x3F = take_bit 6 x"
    by (simp_all add: take_bit_eq_mask mask_eq_exp_minus_1)
  show "push_bit 6 x AND 0xC0 = push_bit 6 x" by (simp add: byte_bits_eq bit_simps)
qed

definition sextets :: "byte \<Rightarrow> byte \<Rightarrow> byte \<Rightarrow> byte list" where
  "sextets a b c = [drop_bit 2 a, push_bit 4 (take_bit 2 a) OR drop_bit 4 b, push_bit 2 (take_bit 4 b) OR drop_bit 6 c, take_bit 6 c]"

lemma encode_chunk_sextets: "encode_chunk [a, b, c] = map b64 (sextets a b c)"
  by (simp add: sextets_def b64_def masks)

lemma small_iff: "unat (x :: byte) < 64 \<longleftrightarrow> \<not> bit x 6 \<and> \<not> bit x 7"
proof -
  have "take_bit 6 x = x \<longleftrightarrow> unat (take_bit 6 x) = unat x" by (simp only: word_unat_eq_iff)
  also have "\<dots> \<longleftrightarrow> unat x < 64" unfolding unsigned_take_bit_eq by (simp add: take_bit_nat_eq_self_iff)
  finally have "unat x < 64 \<longleftrightarrow> take_bit 6 x = x" by simp
  then show ?thesis by (simp add: byte_bits_eq [of "take_bit 6 x"] bit_simps)
qed

lemma sextets_small: "x \<in> set (sextets a b c) \<Longrightarrow> unat x < 64"
  unfolding small_iff sextets_def by (auto simp: bit_simps byte_no_bit)

lemma decode_sextets: "decode_chunk (sextets a b c) = [a, b, c]"
  unfolding sextets_def decode_chunk.simps masks by (simp add: byte_bits_eq bit_simps byte_no_bit)

lemma sextets_decode:
  assumes "unat u0 < 64" "unat u1 < 64" "unat u2 < 64" "unat u3 < 64" "decode_chunk [u0, u1, u2, u3] = [a, b, c]"
  shows "sextets a b c = [u0, u1, u2, u3]"
  using assms unfolding sextets_def decode_chunk.simps masks small_iff by (auto simp: byte_bits_eq bit_simps byte_no_bit)


section \<open>Decoding what was encoded\<close>

lemma loop_char:
  assumes "unat x < 64"
  shows "ref_loop dopt_none True pos prev (b64 x # from) chunk 0 out =
    (let chunk = (if length chunk = 4 then [] else chunk) @ [x];
         out = (if length chunk = 4 then out @ decode_chunk chunk else out)
     in ref_loop dopt_none True (Suc pos) (Some (b64 x)) from chunk 0 out)"
proof -
  have "uint x \<noteq> -1" "uint x \<noteq> -2" using uint_ge_0 [of x] by linarith+
  then show ?thesis using b64_value [OF assms] by (simp add: char_value_def Let_def)
qed

lemma loop_pad2:
  assumes "pos mod 4 = 2" "p \<in> set before_pad2"
  shows "ref_loop dopt_none True pos (Some p) (pad # from) chunk pads out =
    (let chunk = (if length chunk = 4 then [] else chunk) @ [0];
         out = (if length chunk = 4 then out @ decode_chunk chunk else out)
     in ref_loop dopt_none True (Suc pos) (Some pad) from chunk (Suc pads) out)"
  using assms by (simp add: char_value_def Let_def)

lemma loop_pad3:
  assumes "pos mod 4 = 3" "p \<in> set before_pad3"
  shows "ref_loop dopt_none True pos (Some p) (pad # from) chunk pads out =
    (let chunk = (if length chunk = 4 then [] else chunk) @ [0];
         out = (if length chunk = 4 then out @ decode_chunk chunk else out)
     in ref_loop dopt_none True (Suc pos) (Some pad) from chunk (Suc pads) out)"
  using assms by (simp add: char_value_def Let_def)

lemma pad_before: "pad \<in> set before_pad3"
  by (simp add: before_pad3_def pad_def)

declare ref_loop.simps(2) [simp del] encode_chunk.simps(1) [simp del] decode_chunk.simps(1) [simp del]

lemma loop_chunk:
  assumes "unat u0 < 64" "unat u1 < 64" "unat u2 < 64" "unat u3 < 64" "chunk = [] \<or> length chunk = 4"
  shows "ref_loop dopt_none True pos prev (b64 u0 # b64 u1 # b64 u2 # b64 u3 # from) chunk 0 out
    = ref_loop dopt_none True (Suc (Suc (Suc (Suc pos)))) (Some (b64 u3)) from [u0, u1, u2, u3] 0 (out @ decode_chunk [u0, u1, u2, u3])"
  using assms by (auto simp: loop_char Let_def)

lemma loop_chunk3:
  assumes "unat u0 < 64" "unat u1 < 64" "unat u2 < 64" "chunk = [] \<or> length chunk = 4" "pos mod 4 = 0" "unat u2 mod 4 = 0"
  shows "ref_loop dopt_none True pos prev (b64 u0 # b64 u1 # b64 u2 # pad # from) chunk 0 out
    = ref_loop dopt_none True (Suc (Suc (Suc (Suc pos)))) (Some pad) from [u0, u1, u2, 0] (Suc 0) (out @ decode_chunk [u0, u1, u2, 0])"
proof -
  have "Suc (Suc (Suc pos)) mod 4 = 3" using assms(5) by presburger
  then show ?thesis using assms b64_value(4) [OF assms(3)] by (auto simp: loop_char loop_pad3 Let_def)
qed

lemma loop_chunk2:
  assumes "unat u0 < 64" "unat u1 < 64" "chunk = [] \<or> length chunk = 4" "pos mod 4 = 0" "unat u1 mod 16 = 0"
  shows "ref_loop dopt_none True pos prev (b64 u0 # b64 u1 # pad # pad # from) chunk 0 out
    = ref_loop dopt_none True (Suc (Suc (Suc (Suc pos)))) (Some pad) from [u0, u1, 0, 0] (Suc (Suc 0)) (out @ decode_chunk [u0, u1, 0, 0])"
proof -
  have "Suc (Suc (Suc pos)) mod 4 = 3" "Suc (Suc pos) mod 4 = 2" using assms(4) by presburger+
  then show ?thesis using assms b64_value(3) [OF assms(2)] pad_before
    by (auto simp: loop_char loop_pad2 loop_pad3 Let_def)
qed

text \<open>The last chunk of a text, which may be padded.\<close>

lemma encode_two: "encode_b64 [a, b] = map b64 (take 3 (sextets a b 0)) @ [pad]"
  by (simp add: Let_def encode_chunk_sextets) (simp add: sextets_def numeral_eq_Suc)

lemma encode_one: "encode_b64 [a] = map b64 (take 2 (sextets a 0 0)) @ [pad, pad]"
  by (simp add: Let_def encode_chunk_sextets) (simp add: sextets_def numeral_eq_Suc)


lemma mod_bits: "unat (x :: byte) mod 4 = 0 \<longleftrightarrow> \<not> bit x 0 \<and> \<not> bit x 1"
  "unat (x :: byte) mod 16 = 0 \<longleftrightarrow> \<not> bit x 0 \<and> \<not> bit x 1 \<and> \<not> bit x 2 \<and> \<not> bit x 3"
proof -
  have "take_bit k x = 0 \<longleftrightarrow> unat x mod 2 ^ k = 0" for k
  proof -
    have "take_bit k x = 0 \<longleftrightarrow> unat (take_bit k x) = 0" by (simp only: unsigned_eq_0_iff)
    then show ?thesis unfolding unsigned_take_bit_eq by (simp only: take_bit_eq_mod)
  qed
  from this [of 2] this [of 4] show "unat x mod 4 = 0 \<longleftrightarrow> \<not> bit x 0 \<and> \<not> bit x 1"
    "unat x mod 16 = 0 \<longleftrightarrow> \<not> bit x 0 \<and> \<not> bit x 1 \<and> \<not> bit x 2 \<and> \<not> bit x 3"
    by (simp_all add: byte_bits_eq bit_simps)
qed

lemma sextets_one: "\<exists>u0 u1. sextets a 0 0 = [u0, u1, 0, 0] \<and> unat u1 mod 16 = 0"
  unfolding mod_bits by (simp add: sextets_def bit_simps)

lemma sextets_two: "\<exists>u0 u1 u2. sextets a b 0 = [u0, u1, u2, 0] \<and> unat u2 mod 4 = 0"
  unfolding mod_bits by (simp add: sextets_def bit_simps)

definition chunk_done :: "byte list \<Rightarrow> bool" where
  "chunk_done chunk \<longleftrightarrow> chunk = [] \<or> length chunk = 4"

lemma decode_encode:
  assumes "chunk_done chunk" "pos mod 4 = 0"
  shows "\<exists>chunk' pads out'. ref_loop dopt_none True pos prev (encode_b64 xs) chunk 0 out = Inr (chunk', pads, out')
    \<and> chunk_done chunk' \<and> take (length out' - pads) out' = out @ xs"
  using assms
proof (induction xs arbitrary: chunk pos prev out rule: encode_b64.induct [case_names Full Empty One Two])
  case (Full a b c xs)
  obtain u0 u1 u2 u3 where u: "sextets a b c = [u0, u1, u2, u3]" by (simp add: sextets_def)
  then have small: "unat u0 < 64" "unat u1 < 64" "unat u2 < 64" "unat u3 < 64" using sextets_small [of _ a b c] by auto
  have "ref_loop dopt_none True pos prev (encode_b64 (a # b # c # xs)) chunk 0 out
      = ref_loop dopt_none True (Suc (Suc (Suc (Suc pos)))) (Some (b64 u3)) (encode_b64 xs) [u0, u1, u2, u3] 0 (out @ [a, b, c])"
    using loop_chunk [OF small, of chunk pos prev "encode_b64 xs" out] Full.prems decode_sextets [of a b c]
    by (simp add: encode_chunk_sextets u chunk_done_def)
  moreover have "Suc (Suc (Suc (Suc pos))) mod 4 = 0" using Full.prems by presburger
  ultimately show ?case using Full.IH [of "[u0, u1, u2, u3]" "Suc (Suc (Suc (Suc pos)))" "Some (b64 u3)" "out @ [a, b, c]"]
    by (simp add: chunk_done_def)
next
  case Empty
  then show ?case by simp
next
  case (One a)
  obtain u0 u1 where u: "sextets a 0 0 = [u0, u1, 0, 0]" "unat u1 mod 16 = 0" using sextets_one [of a] by (elim exE conjE)
  then have "unat u0 < 64" "unat u1 < 64" using sextets_small [of _ a 0 0] by auto
  from loop_chunk2 [OF this, of chunk pos prev "[]" out] show ?case
    using One.prems u decode_sextets [of a 0 0] unfolding encode_one u chunk_done_def by (simp add: numeral_2_eq_2)
next
  case (Two a b)
  obtain u0 u1 u2 where u: "sextets a b 0 = [u0, u1, u2, 0]" "unat u2 mod 4 = 0" using sextets_two [of a b] by (elim exE conjE)
  then have "unat u0 < 64" "unat u1 < 64" "unat u2 < 64" using sextets_small [of _ a b 0] by auto
  from loop_chunk3 [OF this, of chunk pos prev "[]" out] show ?case
    using Two.prems u decode_sextets [of a b 0] unfolding encode_two u chunk_done_def by (simp add: numeral_3_eq_3)
qed

lemma decode_encode_b64: "decode_b64 dopt_none True (encode_b64 xs) = Inr xs"
proof -
  obtain chunk pads out where "ref_loop dopt_none True 0 None (encode_b64 xs) [] 0 [] = Inr (chunk, pads, out)"
    "chunk_done chunk" "take (length out - pads) out = xs"
    using decode_encode [of "[]" 0 None xs "[]"] by (auto simp: chunk_done_def)
  then show ?thesis by (auto simp: decode_b64_ref ref_decode_def chunk_done_def Let_def)
qed

section \<open>Encoding what was decoded\<close>

text \<open>Without line breaks every character of an accepted text is a step: a value or a pad.\<close>

definition no_break :: "byte list \<Rightarrow> bool" where
  "no_break s \<longleftrightarrow> 10 \<notin> set s \<and> 13 \<notin> set s"

lemma no_break_Cons [simp]: "no_break (c # s) \<longleftrightarrow> c \<noteq> 10 \<and> c \<noteq> 13 \<and> no_break s"
  by (auto simp: no_break_def)

definition pad_allowed :: "nat \<Rightarrow> byte option \<Rightarrow> bool" where
  "pad_allowed pos prev \<longleftrightarrow> (case prev of None \<Rightarrow> False
    | Some p \<Rightarrow> pos mod 4 = 2 \<and> p \<in> set before_pad2 \<or> pos mod 4 = 3 \<and> p \<in> set before_pad3)"

definition put_value :: "byte \<Rightarrow> byte list \<Rightarrow> byte list" where
  "put_value x chunk = (if length chunk = 4 then [] else chunk) @ [x]"

lemma length_put_value: "length (put_value x chunk) mod 4 = Suc (length chunk) mod 4"
  by (simp add: put_value_def)

lemma loop_step:
  assumes "ref_loop dopt_none True pos prev (c # s) chunk pads out = Inr r" "c \<noteq> 10" "c \<noteq> 13"
  obtains (Value) x where "pads = 0" "unat x < 64" "c = b64 x"
      "ref_loop dopt_none True (Suc pos) (Some c) s (put_value x chunk) 0
        (if length (put_value x chunk) = 4 then out @ decode_chunk (put_value x chunk) else out) = Inr r"
    | (Pad) "c = pad" "pad_allowed pos prev"
      "ref_loop dopt_none True (Suc pos) (Some c) s (put_value 0 chunk) (Suc pads)
        (if length (put_value 0 chunk) = 4 then out @ decode_chunk (put_value 0 chunk) else out) = Inr r"
proof (cases "c = pad")
  case True
  then show thesis using assms(1) Pad
    by (auto simp: ref_loop.simps(2) char_value_def pad_allowed_def put_value_def Let_def bindE_eq_Inr
        split: if_splits option.splits)
next
  case False
  then have "pads = 0" "decode_table ! unat c \<noteq> -1"
    using assms(1) by (auto simp: ref_loop.simps(2) char_value_def dopt_none_def split: if_splits)
  with table_values [of c] assms(2,3) have "0 \<le> decode_table ! unat c" by auto
  then obtain x where x: "unat x < 64" "c = b64 x" by (rule value_b64)
  from Value [OF \<open>pads = 0\<close> x] show thesis
    using assms(1) \<open>pads = 0\<close> unfolding x(2) loop_char [OF x(1)] \<open>pads = 0\<close> by (simp only: Let_def flip: put_value_def)
qed

lemma loop_length:
  "ref_loop dopt_none True pos prev s chunk pads out = Inr (chunk', pads', out') \<Longrightarrow> no_break s
    \<Longrightarrow> length chunk' mod 4 = (length chunk + length s) mod 4"
proof (induction s arbitrary: pos prev chunk pads out)
  case (Cons c s)
  from Cons.prems obtain x pads2 out2 pos2 where
    "ref_loop dopt_none True pos2 (Some c) s (put_value x chunk) pads2 out2 = Inr (chunk', pads', out')"
    by (auto elim: loop_step)
  from Cons.IH [OF this] Cons.prems(2) show ?case
    using length_put_value [of x chunk] by (simp add: mod_add_left_eq [symmetric, of "length (put_value x chunk)"])
      (simp add: mod_add_left_eq)
qed simp

lemma pads_end:
  "ref_loop dopt_none True pos prev s chunk (Suc pads) out = Inr r \<Longrightarrow> pos mod 4 = 0 \<Longrightarrow> no_break s \<Longrightarrow> s = []"
  by (cases s) (auto elim!: loop_step simp: pad_allowed_def split: option.splits)


text \<open>The values of a chunk are what the encoder makes of the bytes it is decoded to.\<close>

lemma chunk_bytes:
  assumes "unat u0 < 64" "unat u1 < 64" "unat u2 < 64" "unat u3 < 64"
  obtains a b c where "decode_chunk [u0, u1, u2, u3] = [a, b, c]" "sextets a b c = [u0, u1, u2, u3]"
proof -
  obtain a b c where "decode_chunk [u0, u1, u2, u3] = [a, b, c]" by (simp add: decode_chunk.simps)
  then show thesis using that sextets_decode [OF assms] by blast
qed

lemma decode_zero3:
  assumes "unat u2 mod 4 = 0" "decode_chunk [u0, u1, u2, 0] = [a, b, c]" shows "c = 0"
  using assms unfolding mod_bits decode_chunk.simps masks by (auto simp: byte_bits_eq bit_simps)

lemma decode_zero2:
  assumes "unat u1 mod 16 = 0" "decode_chunk [u0, u1, 0, 0] = [a, b, c]" shows "b = 0 \<and> c = 0"
  using assms unfolding mod_bits decode_chunk.simps masks by (auto simp: byte_bits_eq bit_simps)

lemma chunk_step:
  assumes r: "ref_loop dopt_none True pos prev (c0 # c1 # c2 # c3 # s) chunk 0 out = Inr r"
    and nb: "no_break (c0 # c1 # c2 # c3 # s)" and pos: "pos mod 4 = 0" and ch: "chunk_done chunk"
  obtains (Full) a b c chunk' where "encode_chunk [a, b, c] = [c0, c1, c2, c3]" "length chunk' = 4"
      "ref_loop dopt_none True (Suc (Suc (Suc (Suc pos)))) (Some c3) s chunk' 0 (out @ [a, b, c]) = Inr r"
    | (Two) a b chunk' where "encode_b64 [a, b] = [c0, c1, c2, c3]" "s = []" "r = (chunk', Suc 0, out @ [a, b, 0])"
    | (One) a chunk' where "encode_b64 [a] = [c0, c1, c2, c3]" "s = []" "r = (chunk', Suc (Suc 0), out @ [a, 0, 0])"
proof -
  have p: "Suc pos mod 4 = 1" "Suc (Suc pos) mod 4 = 2" "Suc (Suc (Suc pos)) mod 4 = 3" "Suc (Suc (Suc (Suc pos))) mod 4 = 0"
    using pos by presburger+
  have nn: "c0 \<noteq> 10" "c0 \<noteq> 13" "c1 \<noteq> 10" "c1 \<noteq> 13" "c2 \<noteq> 10" "c2 \<noteq> 13" "c3 \<noteq> 10" "c3 \<noteq> 13" "no_break s" using nb by auto
  have z0: "unat (0 :: byte) < 64" by simp
  have ch2: "(if length chunk = 4 then [] else chunk) = []" using ch by (auto simp: chunk_done_def)
  from r nn(1,2) obtain u0 where u0: "unat u0 < 64" "c0 = b64 u0"
    and r1: "ref_loop dopt_none True (Suc pos) (Some c0) (c1 # c2 # c3 # s) [u0] 0 out = Inr r"
    by (rule loop_step) (use pos in \<open>auto simp: put_value_def ch2 pad_allowed_def split: option.splits\<close>)
  from r1 nn(3,4) obtain u1 where u1: "unat u1 < 64" "c1 = b64 u1"
    and r2: "ref_loop dopt_none True (Suc (Suc pos)) (Some c1) (c2 # c3 # s) [u0, u1] 0 out = Inr r"
    by (rule loop_step) (use p in \<open>auto simp: put_value_def pad_allowed_def split: option.splits\<close>)
  from r2 nn(5,6) show thesis
  proof (cases rule: loop_step)
    case (Value u2)
    note u2 = this
    have r3: "ref_loop dopt_none True (Suc (Suc (Suc pos))) (Some c2) (c3 # s) [u0, u1, u2] 0 out = Inr r"
      using u2(4) by (simp add: put_value_def)
    from r3 nn(7,8) show thesis
    proof (cases rule: loop_step)
      case (Value u3)
      obtain a b c where d: "decode_chunk [u0, u1, u2, u3] = [a, b, c]" "sextets a b c = [u0, u1, u2, u3]"
        using chunk_bytes [OF u0(1) u1(1) u2(2) Value(2)] .
      show thesis
        by (rule Full [of a b c "[u0, u1, u2, u3]"]) (use Value(4) d u0 u1 u2 Value in \<open>simp_all add: encode_chunk_sextets put_value_def\<close>)
    next
      case Pad
      have m: "unat u2 mod 4 = 0" using Pad(2) p u2 b64_value(4) [of u2] by (simp add: pad_allowed_def)
      obtain a b c where d: "decode_chunk [u0, u1, u2, 0] = [a, b, c]" "sextets a b c = [u0, u1, u2, 0]"
        using chunk_bytes [OF u0(1) u1(1) u2(2) z0] .
      then have "c = 0" using decode_zero3 [OF m d(1)] by simp
      have r4: "ref_loop dopt_none True (Suc (Suc (Suc (Suc pos)))) (Some c3) s [u0, u1, u2, 0] (Suc 0) (out @ [a, b, 0]) = Inr r"
        using Pad(3) d \<open>c = 0\<close> by (simp add: put_value_def)
      then have "s = []" using pads_end [OF _ p(4) nn(9)] by blast
      show thesis
        by (rule Two [of a b "[u0, u1, u2, 0]"]) (use r4 \<open>s = []\<close> d \<open>c = 0\<close> u0 u1 u2 Pad in \<open>simp_all add: encode_two numeral_3_eq_3 del: encode_b64.simps\<close>)
    qed
  next
    case Pad
    have m: "unat u1 mod 16 = 0" using Pad(2) p u1 b64_value(3) [of u1] by (simp add: pad_allowed_def)
    have r3: "ref_loop dopt_none True (Suc (Suc (Suc pos))) (Some c2) (c3 # s) [u0, u1, 0] (Suc 0) out = Inr r"
      using Pad(3) by (simp add: put_value_def)
    obtain a b c where d: "decode_chunk [u0, u1, 0, 0] = [a, b, c]" "sextets a b c = [u0, u1, 0, 0]"
      using chunk_bytes [OF u0(1) u1(1) z0 z0] .
    then have z: "b = 0" "c = 0" using decode_zero2 [OF m d(1)] by simp_all
    from r3 nn(7,8) have "c3 = pad"
      and r4: "ref_loop dopt_none True (Suc (Suc (Suc (Suc pos)))) (Some c3) s [u0, u1, 0, 0] (Suc (Suc 0)) (out @ [a, 0, 0]) = Inr r"
      by (rule loop_step; use d z in \<open>simp add: put_value_def\<close>)+
    then have "s = []" using pads_end [OF _ p(4) nn(9)] by blast
    show thesis
      by (rule One [of a "[u0, u1, 0, 0]"]) (use r4 \<open>s = []\<close> d z u0 u1 Pad \<open>c3 = pad\<close> in \<open>simp_all add: encode_one numeral_2_eq_2 del: encode_b64.simps\<close>)
  qed
qed

lemma encode_decode:
  assumes "ref_loop dopt_none True pos prev s chunk 0 out = Inr (chunk', pads, out')" "no_break s"
    "pos mod 4 = 0" "chunk_done chunk" "length s mod 4 = 0"
  shows "\<exists>ys. s = encode_b64 ys \<and> take (length out' - pads) out' = out @ ys"
  using assms
proof (induction "length s div 4" arbitrary: pos prev s chunk out)
  case 0
  then have "length s = 0" by presburger
  then have "s = []" by simp
  then show ?case using "0.prems"(1) by (auto intro!: exI [of _ "[]"])
next
  case (Suc n)
  obtain c0 c1 c2 c3 s2 where s: "s = c0 # c1 # c2 # c3 # s2"
  proof -
    have "Suc (Suc (Suc (Suc 0))) \<le> length s" using Suc.hyps(2) by presburger
    then show thesis using that by (auto simp: Suc_le_length_iff)
  qed
  have l: "length s = length s2 + 4" by (simp add: s)
  have n: "n = length s2 div 4" "length s2 mod 4 = 0" using Suc.hyps(2) Suc.prems(5) unfolding l by simp_all
  from Suc.prems(1,2,3,4) show ?case unfolding s
  proof (cases rule: chunk_step)
    case (Full a b c chunk2)
    have "Suc (Suc (Suc (Suc pos))) mod 4 = 0" using Suc.prems(3) by presburger
    from Suc.hyps(1) [OF n(1) Full(3) _ this _ n(2)] obtain ys
      where "s2 = encode_b64 ys" "take (length out' - pads) out' = (out @ [a, b, c]) @ ys"
      using Suc.prems(2) s Full(2) by (auto simp: chunk_done_def)
    then show "\<exists>ys. c0 # c1 # c2 # c3 # s2 = encode_b64 ys \<and> take (length out' - pads) out' = out @ ys"
      using Full(1) by (intro exI [of _ "a # b # c # ys"]) simp
  next
    case (Two a b)
    then show "\<exists>ys. c0 # c1 # c2 # c3 # s2 = encode_b64 ys \<and> take (length out' - pads) out' = out @ ys"
      by (intro exI [of _ "[a, b]"]) (simp del: encode_b64.simps)
  next
    case (One a)
    then show "\<exists>ys. c0 # c1 # c2 # c3 # s2 = encode_b64 ys \<and> take (length out' - pads) out' = out @ ys"
      by (intro exI [of _ "[a]"]) (simp del: encode_b64.simps)
  qed
qed

lemma encode_decode_b64:
  assumes "decode_b64 dopt_none True s = Inr xs" "no_break s"
  shows "s = encode_b64 xs"
proof -
  obtain chunk pads out where l: "ref_loop dopt_none True 0 None s [] 0 [] = Inr (chunk, pads, out)" "length chunk mod 4 = 0"
    and xs: "xs = take (length out - pads) (if length chunk > 1 \<and> length chunk < 4
      then out @ take (length chunk - 1) (decode_chunk (take 4 (chunk @ [0, 0]))) else out)"
    using assms(1) by (auto simp: decode_b64_ref ref_decode_def dopt_none_def bindE_eq_Inr Let_def split: if_splits)
  have "length s mod 4 = 0" using loop_length [OF l(1) assms(2)] l(2) by simp
  from encode_decode [OF l(1) assms(2) _ _ this] xs l(2) show ?thesis by (auto simp: chunk_done_def)
qed


section \<open>Sizes\<close>

lemma length_chunk: "length (encode_chunk [a, b, c]) = 4"
  by (simp add: encode_chunk_sextets sextets_def)

lemma length_encode: "length (encode_b64 xs) = encoded_size (length xs)"
proof (induction xs rule: encode_b64.induct)
  case (1 a b c xs)
  have "encoded_size (length (a # b # c # xs)) = encoded_size (length xs) + 4"
    unfolding encoded_size_def using div_add_self2 [of 3 "length xs + 2"] by (simp add: algebra_simps)
  with 1 show ?case by (simp add: length_chunk)
qed (simp_all add: encoded_size_def encode_one encode_two sextets_def del: encode_b64.simps(3,4))

section \<open>Streams\<close>

lemma encode_append: "length xs mod 3 = 0 \<Longrightarrow> encode_b64 (xs @ ys) = encode_b64 xs @ encode_b64 ys"
  by (induction xs rule: encode_b64.induct) (simp_all del: encode_b64.simps(3,4))

lemma encode_split: "encode_b64 xs = encode_b64 (take 3072 xs) @ encode_b64 (drop 3072 xs)"
proof (cases "3072 \<le> length xs")
  case True
  then have "length (take 3072 xs) mod 3 = 0" by simp
  from encode_append [OF this, of "drop 3072 xs"] show ?thesis by simp
qed simp

lemma encode_stream_eq: "encode_stream xs = encode_b64 xs"
proof (induction xs rule: encode_stream.induct)
  case (1 xs)
  then show ?case using encode_split [of xs] by (subst encode_stream.simps) auto
qed

lemma encode_take: "take 4096 (encode_b64 xs) = encode_b64 (take 3072 xs)" "drop 4096 (encode_b64 xs) = encode_b64 (drop 3072 xs)"
proof -
  have l: "length (encode_b64 (take 3072 xs)) = (if 3072 \<le> length xs then 4096 else encoded_size (length xs))"
    "length xs \<le> 3072 \<Longrightarrow> encoded_size (length xs) \<le> 4096"
    by (auto simp: length_encode encoded_size_def)
  show "take 4096 (encode_b64 xs) = encode_b64 (take 3072 xs)"
    by (subst encode_split) (use l in \<open>auto simp del: length_take\<close>)
  show "drop 4096 (encode_b64 xs) = encode_b64 (drop 3072 xs)"
    by (subst encode_split) (use l in \<open>auto simp del: length_take\<close>)
qed

lemma encode_Nil_iff: "encode_b64 xs = [] \<longleftrightarrow> xs = []"
  using length_encode [of xs] by (cases xs) (auto simp: encoded_size_def)

lemma decode_stream_encode: "decode_stream dopt_none (encode_b64 xs) = Inr xs"
proof (induction xs rule: encode_stream.induct)
  case (1 xs)
  have "length (encode_b64 (take 3072 xs)) \<le> 4096" by (simp add: length_encode encoded_size_def)
  from decode_at_stack [OF this, of dopt_none "\<lambda>out. Inr (out @ drop 3072 xs)"] 1 show ?case
    by (subst decode_stream.simps)
      (auto simp: Let_def dopt_none_def [THEN arg_cong, of dopt_ignore_ws] encode_Nil_iff encode_take
        decode_encode_b64 decode_b64_ref [symmetric])
qed

lemma encode_vector_loop_eq: "encode_vector_loop from (length to) to = Inr (length to + length (encode_b64 from), to @ encode_b64 from)"
proof (induction "length from" arbitrary: "from" to rule: less_induct)
  case less
  show ?case
  proof (cases "from = []")
    case True
    then show ?thesis by (subst encode_vector_loop.simps) simp
  next
    case False
    define enc where "enc = encode_b64 (take 3072 from)"
    have w: "write_at (length to) enc (to @ replicate (encoded_size (length (take 3072 from))) 0) = Inr (to @ enc)"
      using length_encode [of "take 3072 from"] by (simp add: write_at_def enc_def)
    have "length (drop 3072 from) < length from" using False by simp
    from less [OF this, of "to @ enc"] have "encode_vector_loop (drop 3072 from) (length to + length enc) (to @ enc)
        = Inr (length to + length (encode_b64 from), to @ encode_b64 from)"
      by (subst (1 2) encode_split) (simp add: enc_def)
    then show ?thesis using False w by (subst encode_vector_loop.simps) (simp add: enc_def Let_def)
  qed
qed

lemma encode_A: "encode_b64 [65] = [81, 81, 61, 61]"
  by (simp add: encode_one sextets_def b64_def alphabet_eq pad_def take_bit_eq_mod del: encode_b64.simps)

lemmas decode_b64_eval = decode_b64_ref ref_decode_def ref_loop.simps(2) decode_chunk.simps char_value_def pad_def before_pad2_def
  before_pad3_def dopt_none_def decode_table_def Let_def

section \<open>Properties\<close>

text \<open>
  C15: \<open>decode\<close> gives back the bytes that \<open>encode\<close> was given, whatever their number, and a text without
  line breaks is decoded without an exception only if it is what \<open>encode\<close> makes of the result: no second form
  of padding and no stray bits are accepted.
\<close>

theorem base64_codec:
  "decode_b64 dopt_none True (encode_b64 xs) = Inr xs
   \<and> (10 \<notin> set s \<longrightarrow> 13 \<notin> set s \<longrightarrow> decode_b64 dopt_none True s = Inr ys \<longrightarrow> s = encode_b64 ys)"
  using decode_encode_b64 encode_decode_b64 [of s ys] by (simp add: no_break_def)

theorem base64_codec_witness:
  "decode_b64 dopt_none True [81, 85, 74, 68, 81, 81, 61, 61] = Inr [65, 66, 67, 65]
   \<and> [81, 85, 74, 68, 81, 81, 61, 61] = encode_b64 [65, 66, 67, 65]"
proof -
  have d: "decode_b64 dopt_none True [81, 85, 74, 68, 81, 81, 61, 61] = Inr [65, 66, 67, 65]" by (simp add: decode_b64_eval)
  then show ?thesis using base64_codec [of "[]" "[81, 85, 74, 68, 81, 81, 61, 61]" "[65, 66, 67, 65]"] by simp
qed

text \<open>
  C33: encoding a stream in pieces of 3072 bytes, or into an empty vector, gives the text that encoding
  it in one buffer gives, and decoding that text from a stream in pieces of 4096 characters gives the bytes back.
\<close>

theorem base64_streams:
  "encode_stream xs = encode_b64 xs \<and> encode_vector xs [] = Inr (encode_b64 xs)
   \<and> decode_stream dopt_none (encode_stream xs) = Inr xs"
  using encode_stream_eq [of xs] decode_stream_encode [of xs] encode_vector_loop_eq [of xs "[]"]
  by (simp add: encode_vector_def resize_def)

text \<open>
  C34: the buffers that \<open>encoded_size\<close> and \<open>decoded_size\<close> tell the callers to make are large enough, for
  all options and all texts. \<open>encode\<close> writes exactly \<open>encoded_size\<close> characters. \<open>decode\<close> into an array that has
  \<open>decoded_size\<close> bytes from \<open>to\<close> on never writes outside of these bytes, not even when it throws or when it
  writes three bytes for an incomplete chunk; the number it returns is that of the decoded bytes, which
  stand in front, and the rest of the array is as before.
\<close>

theorem base64_sizes:
  "length (encode_b64 xs) = encoded_size (length xs)
   \<and> (i + decoded_size (length s) \<le> length v \<longrightarrow>
       (case decode_b64 opts True s of
          Inl e \<Rightarrow> e \<noteq> Undefined \<and> decode_at opts s (Some (v, i)) = Inl e
        | Inr ys \<Rightarrow> \<exists>w. length ys + length w = decoded_size (length s)
            \<and> decode_at opts s (Some (v, i)) = Inr (length ys, take i v @ ys @ w @ drop (i + decoded_size (length s)) v)))"
proof -
  have "case ref_decode opts True s of
          Inl e \<Rightarrow> e \<noteq> Undefined \<and> decode_at opts s (Some (v, i)) = Inl e
        | Inr ys \<Rightarrow> \<exists>w. length ys + length w = decoded_size (length s)
            \<and> decode_at opts s (Some (v, i)) = Inr (length ys, take i v @ ys @ w @ drop (i + decoded_size (length s)) v)"
    if "i + decoded_size (length s) \<le> length v"
  proof -
    have "decoded_size (length s) \<le> length (drop i v)" "length (take i v) = i" using that by simp_all
    from decode_at_ref [OF this(1), of opts "take i v"] this(2) ref_decode_defined [of opts True s]
    show ?thesis by (cases "ref_decode opts True s") (auto simp: add.commute)
  qed
  then show ?thesis using length_encode by (simp only: decode_b64_ref) simp
qed

theorem base64_sizes_witness:
  "length (encode_b64 [65]) = encoded_size 1
   \<and> (\<exists>w. 1 + length w = 3
       \<and> decode_at \<lparr>dopt_any_len = True, dopt_ignore_ws = False\<rparr> [81, 81] (Some ([7, 7, 7, 7, 7], 1)) = Inr (1, [7, 65] @ w @ [7]))"
proof -
  let ?opts = "\<lparr>dopt_any_len = True, dopt_ignore_ws = False\<rparr>"
  have d: "decode_b64 ?opts True [81, 81] = Inr [65]" "decoded_size (length [81, 81 :: byte]) = 3"
    by (simp_all add: decode_b64_eval decoded_size_def)
  have "1 + decoded_size (length [81, 81 :: byte]) \<le> length [7, 7, 7, 7, 7 :: byte]" unfolding d(2) by simp
  then obtain w where "length [65 :: byte] + length w = 3"
    "decode_at ?opts [81, 81] (Some ([7, 7, 7, 7, 7], 1)) = Inr (length [65 :: byte], take 1 [7, 7, 7, 7, 7] @ [65] @ w @ drop (1 + 3) [7, 7, 7, 7, 7])"
    using base64_sizes [of "[]" 1 "[81, 81]" "[7, 7, 7, 7, 7]" ?opts] unfolding d by auto
  then show ?thesis using length_encode [of "[65]"] by auto
qed

text \<open>
  Line breaks are meant to be skipped, but they are counted in the position that decides where
  padding may stand: a text that is accepted on one line is rejected on two. Encoding a stream
  into a vector that is not empty overwrites its elements and fills up with zeros instead of appending.
\<close>

lemma base64_defects:
  "decode_b64 dopt_none True [81, 85, 74, 68, 81, 81, 61, 61] = Inr [65, 66, 67, 65]
   \<and> decode_b64 dopt_none True [81, 85, 74, 68, 10, 81, 81, 61, 61] = Inl (Base64_exception 61 8)
   \<and> encode_vector [65] [1, 2, 3, 4, 5] = Inr [81, 81, 61, 61, 5, 0, 0, 0, 0]"
proof (intro conjI)
  show "encode_vector [65] [1, 2, 3, 4, 5] = Inr [81, 81, 61, 61, 5, 0, 0, 0, 0]"
    by (simp add: encode_vector_def encode_vector_loop.simps encode_A resize_def write_at_def encoded_size_def Let_def del: encode_b64.simps)
qed (simp_all add: decode_b64_eval)

end
