(* ===== verification/Json_Lexer.thy ===== *)
theory Json_Lexer
  imports Utf8 "HOL-Library.Char_ord"
begin

text \<open>
  The JSON lexer (\<open>util/json_parser.cpp\<close>, \<open>util/json_parser.h\<close>).

  The input stream is the list of the bytes that have not been read. Lines and columns have the widths of
  \<open>location::line_type\<close> (\<open>unsigned\<close>) and \<open>location::column_type\<close> (\<open>unsigned short\<close>) and wrap around. What a \<open>string_appender\<close> holds
  back is appended when it goes out of scope, before anything reads the string; the model appends at once.
  With \<open>throw_exceptions\<close> unset an operation that would throw gives back \<open>None\<close> instead.
\<close>

section \<open>Characters\<close>

text \<open>Of \<open>util/ascii_util.h\<close> and \<open>util/unicode_util.h\<close>.\<close>

definition is_alpha :: "byte \<Rightarrow> bool" where
  "is_alpha c \<longleftrightarrow> 65 \<le> c \<and> c \<le> 90 \<or> 97 \<le> c \<and> c \<le> 122"

definition is_digit :: "byte \<Rightarrow> bool" where
  "is_digit c \<longleftrightarrow> 48 \<le> c \<and> c \<le> 57"

definition is_alnum :: "byte \<Rightarrow> bool" where
  "is_alnum c \<longleftrightarrow> is_alpha c \<or> is_digit c"

definition is_xdigit :: "byte \<Rightarrow> bool" where
  "is_xdigit c \<longleftrightarrow> is_digit c \<or> 65 \<le> c \<and> c \<le> 70 \<or> 97 \<le> c \<and> c \<le> 102"

definition to_upper :: "byte \<Rightarrow> byte" where
  "to_upper c = (if 97 \<le> c \<and> c \<le> 122 then c - 32 else c)"

definition is_high_surrogate :: "code_point \<Rightarrow> bool" where
  "is_high_surrogate n \<longleftrightarrow> 0xD800 \<le> n \<and> n \<le> 0xDBFF"

definition is_low_surrogate :: "code_point \<Rightarrow> bool" where
  "is_low_surrogate n \<longleftrightarrow> 0xDC00 \<le> n \<and> n \<le> 0xDFFF"

definition convert_surrogate :: "code_point \<Rightarrow> code_point \<Rightarrow> code_point" where
  "convert_surrogate high low = 0x10000 + push_bit 10 (high - 0xD800) + (low - 0xDC00)"

section \<open>Locations, tokens and exceptions\<close>

type_synonym column = "16 word"

record location =
  loc_file :: string
  loc_line :: u32
  loc_column :: column
  loc_line_end :: u32
  loc_column_end :: column

definition set_range :: "u32 \<Rightarrow> column \<Rightarrow> u32 \<Rightarrow> column \<Rightarrow> location \<Rightarrow> location" where
  "set_range l c le ce loc = loc\<lparr>loc_line := l, loc_column := c, loc_line_end := le, loc_column_end := ce\<rparr>"

definition no_location :: location where
  "no_location = \<lparr>loc_file = [], loc_line = 0, loc_column = 0, loc_line_end = 0, loc_column_end = 0\<rparr>"

datatype token_type = T_none | Begin_array | Begin_object | End_array | End_object | Name_separator | Value_separator
  | T_string | T_number | T_false | T_null | T_true

datatype numeric_type = Non_numeric | N_integer | N_decimal | N_floating_point

record token =
  tok_loc :: location
  tok_type :: token_type
  tok_numeric :: numeric_type
  tok_value :: "byte list"

definition new_token :: token where
  "new_token = \<lparr>tok_loc = no_location, tok_type = T_none, tok_numeric = Non_numeric, tok_value = []\<rparr>"

definition clear_token :: "token \<Rightarrow> token" where
  "clear_token t = t\<lparr>tok_type := T_none, tok_numeric := Non_numeric, tok_value := []\<rparr>"

text \<open>The exceptions of the lexer and the parser, and undefined behaviour.\<close>

datatype json_err = Illegal_character location byte | Illegal_codepoint location "byte list"
  | Illegal_escape location byte | Illegal_literal location | Illegal_number location
  | Unexpected_token token | Unterminated_string location | Json_undefined

section \<open>The state of the lexer\<close>

record lexer =
  lx_in :: "byte list"
  lx_line :: u32
  lx_prev_line :: u32
  lx_col :: column
  lx_prev_col :: column
  lx_cur_loc :: location
  lx_value :: "byte list"

definition new_lexer :: "byte list \<Rightarrow> lexer" where
  "new_lexer is = \<lparr>lx_in = is, lx_line = 1, lx_prev_line = 1, lx_col = 1, lx_prev_col = 1,
    lx_cur_loc = no_location, lx_value = []\<rparr>"

definition get_char :: "lexer \<Rightarrow> (byte \<times> lexer) option" where
  "get_char lx = (case lx_in lx of [] \<Rightarrow> None
    | temp # rest \<Rightarrow>
      let lx = lx\<lparr>lx_in := rest, lx_prev_line := lx_line lx, lx_prev_col := lx_col lx\<rparr>;
          lx = (if temp = 10 then lx\<lparr>lx_line := lx_line lx + 1, lx_col := 1\<rparr> else lx\<lparr>lx_col := lx_col lx + 1\<rparr>)
      in Some (temp, lx))"

definition peek_char :: "lexer \<Rightarrow> byte option" where
  "peek_char lx = (case lx_in lx of [] \<Rightarrow> None | c # _ \<Rightarrow> Some c)"

definition set_cur_loc :: "lexer \<Rightarrow> lexer" where
  "set_cur_loc lx = lx\<lparr>lx_cur_loc := set_range (lx_line lx) (lx_col lx) (lx_line lx) (lx_col lx) (lx_cur_loc lx)\<rparr>"

definition set_loc_end :: "location \<Rightarrow> u32 \<Rightarrow> column \<Rightarrow> location" where
  "set_loc_end loc line_end col_end = set_range (loc_line loc) (loc_column loc) line_end col_end loc"

definition cur_loc_end :: "bool \<Rightarrow> lexer \<Rightarrow> location" where
  "cur_loc_end prev lx =
    (if prev then set_loc_end (lx_cur_loc lx) (lx_prev_line lx) (lx_prev_col lx)
     else set_loc_end (lx_cur_loc lx) (lx_line lx) (lx_col lx))"

definition set_loc_range :: "lexer \<Rightarrow> location" where
  "set_loc_range lx = set_range (loc_line (lx_cur_loc lx)) (loc_column (lx_cur_loc lx)) (lx_prev_line lx) (lx_prev_col lx) (lx_cur_loc lx)"

definition set_loc :: "string option \<Rightarrow> u32 \<Rightarrow> column \<Rightarrow> lexer \<Rightarrow> lexer" where
  "set_loc file line col lx =
    (let lx = lx\<lparr>lx_line := line, lx_col := col\<rparr> in
     case file of None \<Rightarrow> lx
     | Some f \<Rightarrow> lx\<lparr>lx_cur_loc := (set_range line col line col (lx_cur_loc lx))\<lparr>loc_file := f\<rparr>\<rparr>)"

definition fail :: "bool \<Rightarrow> json_err \<Rightarrow> lexer \<Rightarrow> json_err + ('a option \<times> lexer)" where
  "fail throw e lx = (if throw then Inl e else Inr (None, lx))"

definition append_value :: "byte list \<Rightarrow> lexer \<Rightarrow> lexer" where
  "append_value s lx = lx\<lparr>lx_value := lx_value lx @ s\<rparr>"

lemma get_char_length: "get_char lx = Some (c, lx') \<Longrightarrow> length (lx_in lx) = Suc (length (lx_in lx'))"
  by (auto simp: get_char_def Let_def split: list.splits if_splits)

lemma lx_in_simps [simp]: "lx_in (set_cur_loc lx) = lx_in lx" "lx_in (append_value s lx) = lx_in lx"
  by (simp_all add: set_cur_loc_def append_value_def)

section \<open>Escaped code points\<close>

definition hex_digits :: "byte list" where
  "hex_digits = map of_char ''0123456789ABCDEF''"

text \<open>The place of the digit in the string of digits.\<close>

definition hex_value :: "byte \<Rightarrow> code_point" where
  "hex_value c = of_nat (length (takeWhile (\<lambda>d. d \<noteq> to_upper c) hex_digits))"

text \<open>
  The four digits of an escape. Where they cannot be read the result tells whether the location of the error
  ends at the character read last or at the next one.
\<close>

fun read_hex :: "nat \<Rightarrow> code_point \<Rightarrow> byte list \<Rightarrow> lexer \<Rightarrow> (bool \<times> byte list \<times> lexer) + (code_point \<times> byte list \<times> lexer)" where
  "read_hex 0 cp cp_string lx = Inr (cp, cp_string, lx)"
| "read_hex (Suc i) cp cp_string lx =
    (case get_char lx of None \<Rightarrow> Inl (False, cp_string, lx)
     | Some (c, lx) \<Rightarrow>
       if \<not> is_xdigit c then Inl (True, cp_string @ [c], lx)
       else read_hex i (push_bit 4 cp OR hex_value c) (cp_string @ [c]) lx)"

definition fail_codepoint :: "bool \<Rightarrow> bool \<Rightarrow> byte list \<Rightarrow> lexer \<Rightarrow> json_err + (code_point option \<times> lexer)" where
  "fail_codepoint throw prev cp_string lx = fail throw (Illegal_codepoint (cur_loc_end prev lx) cp_string) lx"

function codepoint_loop :: "bool \<Rightarrow> code_point \<Rightarrow> byte list \<Rightarrow> lexer \<Rightarrow> json_err + (code_point option \<times> lexer)" where
  "codepoint_loop throw high_surrogate cp_string lx =
    (case read_hex 4 0 cp_string lx of
       Inl (prev, cp_string, lx) \<Rightarrow> fail_codepoint throw prev cp_string lx
     | Inr (cp, cp_string, lx) \<Rightarrow>
       if is_high_surrogate cp then
         if high_surrogate \<noteq> 0 then fail_codepoint throw True cp_string lx
         else (case get_char lx of None \<Rightarrow> fail_codepoint throw False cp_string lx
           | Some (c, lx) \<Rightarrow>
             if c \<noteq> of_char CHR 0x5C then fail_codepoint throw True (cp_string @ [c]) lx
             else (case get_char lx of None \<Rightarrow> fail_codepoint throw True (cp_string @ [c]) lx
               | Some (c', lx) \<Rightarrow>
                 if c' \<noteq> of_char CHR ''u'' then fail_codepoint throw True (cp_string @ [c, c']) lx
                 else codepoint_loop throw cp (cp_string @ [c, c']) lx))
       else if is_low_surrogate cp then
         if high_surrogate = 0 then fail_codepoint throw True cp_string lx
         else Inr (Some (convert_surrogate high_surrogate cp), lx)
       else if high_surrogate \<noteq> 0 then fail_codepoint throw True cp_string lx
       else Inr (Some cp, lx))"
  by pat_completeness auto

termination
  by (relation "measure (\<lambda>(throw, high, s, lx). if high = 0 then 1 else 0)") (auto simp: is_high_surrogate_def)

declare codepoint_loop.simps [simp del]

definition parse_codepoint :: "bool \<Rightarrow> lexer \<Rightarrow> json_err + (code_point option \<times> lexer)" where
  "parse_codepoint throw lx = codepoint_loop throw 0 (map of_char [CHR 0x5C, CHR ''u'']) lx"

lemma read_hex_length:
  "read_hex i cp s lx = Inr (cp', s', lx') \<Longrightarrow> length (lx_in lx') \<le> length (lx_in lx)"
  "read_hex i cp s lx = Inl (p, s', lx') \<Longrightarrow> length (lx_in lx') \<le> length (lx_in lx)"
proof (induction i arbitrary: cp s lx)
  case (Suc i)
  { case 1
    then show ?case using Suc.IH(1) by (fastforce split: option.splits if_splits dest: get_char_length) }
  { case 2
    then show ?case using Suc.IH(2) by (fastforce split: option.splits if_splits dest: get_char_length) }
qed auto

text \<open>A second high surrogate is an error, so that the loop runs at most twice.\<close>

lemma codepoint_length_low:
  assumes "codepoint_loop throw high s lx = Inr (r, lx')" "high \<noteq> 0" shows "length (lx_in lx') \<le> length (lx_in lx)"
  using assms by (subst (asm) codepoint_loop.simps)
    (auto simp: fail_codepoint_def fail_def split: sum.splits if_splits dest: read_hex_length)

lemma codepoint_length:
  assumes "codepoint_loop throw high s lx = Inr (r, lx')" shows "length (lx_in lx') \<le> length (lx_in lx)"
proof (cases "high = 0")
  case True
  have "is_high_surrogate cp \<Longrightarrow> cp \<noteq> 0" for cp by (auto simp: is_high_surrogate_def)
  with True assms show ?thesis by (subst (asm) codepoint_loop.simps)
    (fastforce simp: fail_codepoint_def fail_def split: sum.splits option.splits if_splits
      dest: read_hex_length get_char_length codepoint_length_low)
qed (use assms codepoint_length_low in blast)

section \<open>Literals\<close>

definition literal_text :: "token_type \<Rightarrow> byte list" where
  "literal_text tt = map of_char (if tt = T_false then ''false'' else if tt = T_null then ''null'' else ''true'')"

fun match_rest :: "byte list \<Rightarrow> lexer \<Rightarrow> (bool \<times> lexer) + lexer" where
  "match_rest [] lx = Inr lx"
| "match_rest (d # s) lx =
    (case get_char lx of None \<Rightarrow> Inl (False, lx)
     | Some (c, lx) \<Rightarrow> if c \<noteq> d then Inl (True, lx) else match_rest s lx)"

definition fail_literal :: "bool \<Rightarrow> bool \<Rightarrow> lexer \<Rightarrow> json_err + (token_type option \<times> lexer)" where
  "fail_literal throw prev lx = fail throw (Illegal_literal (cur_loc_end prev lx)) lx"

definition parse_literal :: "bool \<Rightarrow> byte \<Rightarrow> lexer \<Rightarrow> json_err + (token_type option \<times> lexer)" where
  "parse_literal throw first_c lx =
    (let tt = (if first_c = of_char CHR ''f'' then T_false else if first_c = of_char CHR ''n'' then T_null else T_true);
         lx = lx\<lparr>lx_value := literal_text tt\<rparr>
     in case match_rest (tl (literal_text tt)) lx of
       Inl (prev, lx) \<Rightarrow> fail_literal throw prev lx
     | Inr lx \<Rightarrow>
       (case peek_char lx of None \<Rightarrow> Inr (Some tt, lx)
        | Some c \<Rightarrow> if is_alnum c \<or> c = of_char CHR ''_'' then fail_literal throw False lx else Inr (Some tt, lx)))"

section \<open>Numbers\<close>

text \<open>
  The loops over digits. They end at the end of the input (\<open>Done\<close>), at a letter (\<open>Bad\<close>) or at another character,
  which stays unread (\<open>Next\<close>). In the loops of the integral and the fractional part \<open>e\<close> is not taken as a letter.
\<close>

datatype digits_end = Done | Bad | Next byte

function digits_loop :: "bool \<Rightarrow> lexer \<Rightarrow> digits_end \<times> lexer" where
  "digits_loop allow_e lx =
    (case peek_char lx of None \<Rightarrow> (Done, lx)
     | Some c \<Rightarrow>
       if is_alpha c \<and> (allow_e \<longrightarrow> c \<noteq> of_char CHR ''e'' \<and> c \<noteq> of_char CHR ''E'') then (Bad, lx)
       else if \<not> is_digit c then (Next c, lx)
       else (case get_char lx of None \<Rightarrow> (Done, lx) | Some (c, lx) \<Rightarrow> digits_loop allow_e (append_value [c] lx)))"
  by pat_completeness auto

termination
  by (relation "measure (\<lambda>(allow_e, lx). length (lx_in lx))") (auto dest: get_char_length)

declare digits_loop.simps [simp del]

definition fail_number :: "bool \<Rightarrow> bool \<Rightarrow> lexer \<Rightarrow> json_err + (numeric_type option \<times> lexer)" where
  "fail_number throw prev lx = fail throw (Illegal_number (cur_loc_end prev lx)) lx"

definition exp_digits :: "bool \<Rightarrow> byte \<Rightarrow> lexer \<Rightarrow> json_err + (numeric_type option \<times> lexer)" where
  "exp_digits throw c lx =
    (if \<not> is_digit c then fail_number throw True lx
     else (case digits_loop False (append_value [c] lx) of
         (Done, lx) \<Rightarrow> Inr (Some N_floating_point, lx)
       | (Bad, lx) \<Rightarrow> fail_number throw False lx
       | (Next c, lx) \<Rightarrow> Inr (Some N_floating_point, lx)))"

text \<open>From the exponent on; \<open>c\<close> is the character that has been peeked at.\<close>

definition parse_exp :: "bool \<Rightarrow> numeric_type \<Rightarrow> byte \<Rightarrow> lexer \<Rightarrow> json_err + (numeric_type option \<times> lexer)" where
  "parse_exp throw numeric_type c lx =
    (if c = of_char CHR ''e'' \<or> c = of_char CHR ''E'' then
       (case get_char lx of None \<Rightarrow> Inl Json_undefined
        | Some (c, lx) \<Rightarrow>
          let lx = append_value [c] lx in
          (case get_char lx of None \<Rightarrow> fail_number throw False lx
           | Some (c, lx) \<Rightarrow>
             if c = of_char CHR ''+'' \<or> c = of_char CHR ''-'' then
               let lx = append_value [c] lx in
               (case get_char lx of None \<Rightarrow> fail_number throw False lx | Some (c, lx) \<Rightarrow> exp_digits throw c lx)
             else exp_digits throw c lx))
     else Inr (Some numeric_type, lx))"

text \<open>From the fraction on.\<close>

definition parse_frac :: "bool \<Rightarrow> byte \<Rightarrow> lexer \<Rightarrow> json_err + (numeric_type option \<times> lexer)" where
  "parse_frac throw c lx =
    (if c = of_char CHR ''.'' then
       (case get_char lx of None \<Rightarrow> Inl Json_undefined
        | Some (c, lx) \<Rightarrow>
          let lx = append_value [c] lx in
          (case get_char lx of None \<Rightarrow> fail_number throw False lx
           | Some (c, lx) \<Rightarrow>
             if \<not> is_digit c then fail_number throw True lx
             else (case digits_loop True (append_value [c] lx) of
                 (Done, lx) \<Rightarrow> Inr (Some N_decimal, lx)
               | (Bad, lx) \<Rightarrow> fail_number throw False lx
               | (Next c, lx) \<Rightarrow> parse_exp throw N_decimal c lx)))
     else parse_exp throw N_integer c lx)"

text \<open>The integral part: \<open>c\<close> is its first character.\<close>

definition parse_int :: "bool \<Rightarrow> byte \<Rightarrow> lexer \<Rightarrow> json_err + (numeric_type option \<times> lexer)" where
  "parse_int throw c lx =
    (if \<not> is_digit c then fail_number throw True lx
     else
       let lx = append_value [c] lx in
       if c = of_char CHR ''0'' then
         (case peek_char lx of None \<Rightarrow> Inr (Some N_integer, lx)
          | Some c \<Rightarrow> if is_alnum c then fail_number throw False lx else parse_frac throw c lx)
       else
         (case digits_loop True lx of
            (Done, lx) \<Rightarrow> Inr (Some N_integer, lx)
          | (Bad, lx) \<Rightarrow> fail_number throw False lx
          | (Next c, lx) \<Rightarrow> parse_frac throw c lx))"

definition parse_number :: "bool \<Rightarrow> byte \<Rightarrow> lexer \<Rightarrow> json_err + (numeric_type option \<times> lexer)" where
  "parse_number throw first_c lx =
    (let lx = lx\<lparr>lx_value := []\<rparr> in
     if first_c = of_char CHR ''-'' then
       let lx = append_value [first_c] lx in
       case get_char lx of None \<Rightarrow> fail_number throw False lx | Some (c, lx) \<Rightarrow> parse_int throw c lx
     else parse_int throw first_c lx)"

section \<open>Strings\<close>

text \<open>The character that a one-letter escape stands for.\<close>

definition simple_escape :: "byte \<Rightarrow> byte option" where
  "simple_escape c =
    (if c = of_char CHR 0x22 \<or> c = of_char CHR ''/'' \<or> c = of_char CHR 0x5C then Some c
     else if c = of_char CHR ''b'' then Some 8
     else if c = of_char CHR ''f'' then Some 12
     else if c = of_char CHR ''n'' then Some 10
     else if c = of_char CHR ''r'' then Some 13
     else if c = of_char CHR ''t'' then Some 9
     else None)"

function string_loop :: "bool \<Rightarrow> location \<Rightarrow> bool \<Rightarrow> lexer \<Rightarrow> json_err + (unit option \<times> lexer)" where
  "string_loop throw start_loc got_backslash lx =
    (let lx = set_cur_loc lx in
     case get_char lx of
       None \<Rightarrow> fail throw (Unterminated_string (set_loc_end start_loc (lx_line lx) (lx_col lx))) lx
     | Some (c, lx) \<Rightarrow>
       if got_backslash then
         (case simple_escape c of
            Some d \<Rightarrow> string_loop throw start_loc False (append_value [d] lx)
          | None \<Rightarrow>
            if c = of_char CHR ''u'' then
              bindE (parse_codepoint throw lx) (\<lambda>(r, lx).
                case r of None \<Rightarrow> Inr (None, lx)
                | Some cp \<Rightarrow> string_loop throw start_loc False (append_value (encode cp) lx))
            else fail throw (Illegal_escape (cur_loc_end True lx) c) lx)
       else if c = of_char CHR 0x5C then string_loop throw start_loc True lx
       else if c = of_char CHR 0x22 then Inr (Some (), lx)
       else string_loop throw start_loc False (append_value [c] lx))"
  by pat_completeness auto

termination
  by (relation "measure (\<lambda>(throw, start_loc, got_backslash, lx). length (lx_in lx))")
    (auto simp: parse_codepoint_def dest!: get_char_length codepoint_length)

declare string_loop.simps [simp del]

definition parse_string :: "bool \<Rightarrow> lexer \<Rightarrow> json_err + (unit option \<times> lexer)" where
  "parse_string throw lx = string_loop throw (lx_cur_loc lx) False (lx\<lparr>lx_value := []\<rparr>)"

section \<open>The next token\<close>

definition structural :: "byte \<Rightarrow> token_type option" where
  "structural c =
    (if c = of_char CHR ''['' then Some Begin_array
     else if c = of_char CHR ''{'' then Some Begin_object
     else if c = of_char CHR '']'' then Some End_array
     else if c = of_char CHR ''}'' then Some End_object
     else if c = of_char CHR '':'' then Some Name_separator
     else if c = of_char CHR '','' then Some Value_separator
     else None)"

definition is_ws :: "byte \<Rightarrow> bool" where
  "is_ws c \<longleftrightarrow> c = 32 \<or> c = 10 \<or> c = 13 \<or> c = 9"

function lexer_next :: "bool \<Rightarrow> token \<Rightarrow> lexer \<Rightarrow> json_err + (bool \<times> token \<times> lexer)" where
  "lexer_next throw t lx =
    (let lx = set_cur_loc lx in
     case get_char lx of None \<Rightarrow> Inr (False, t, lx)
     | Some (c, lx) \<Rightarrow>
       if is_ws c then lexer_next throw t lx
       else if c = of_char CHR 0x22 then
         let quote_line = loc_line (lx_cur_loc lx); quote_col = loc_column (lx_cur_loc lx) in
         bindE (parse_string throw lx) (\<lambda>(r, lx).
           case r of None \<Rightarrow> Inr (False, t, lx)
           | Some _ \<Rightarrow> Inr (True, t\<lparr>tok_value := lx_value lx, tok_type := T_string,
               tok_loc := set_range quote_line quote_col (lx_prev_line lx) (lx_prev_col lx) (lx_cur_loc lx)\<rparr>, lx))
       else if c = of_char CHR ''-'' \<or> is_digit c then
         bindE (parse_number throw c lx) (\<lambda>(r, lx).
           case r of None \<Rightarrow> Inr (False, t, lx)
           | Some nt \<Rightarrow> Inr (True, t\<lparr>tok_value := lx_value lx, tok_numeric := nt, tok_type := T_number,
               tok_loc := set_loc_range lx\<rparr>, lx))
       else if c = of_char CHR ''f'' \<or> c = of_char CHR ''n'' \<or> c = of_char CHR ''t'' then
         bindE (parse_literal throw c lx) (\<lambda>(r, lx).
           case r of None \<Rightarrow> Inr (False, t, lx)
           | Some tt \<Rightarrow> Inr (True, t\<lparr>tok_value := lx_value lx, tok_type := tt, tok_loc := set_loc_range lx\<rparr>, lx))
       else (case structural c of
           Some tt \<Rightarrow> Inr (True, t\<lparr>tok_type := tt, tok_loc := lx_cur_loc lx\<rparr>, lx)
         | None \<Rightarrow> if throw then Inl (Illegal_character (lx_cur_loc lx) c) else Inr (False, t, lx)))"
  by pat_completeness auto

termination
  by (relation "measure (\<lambda>(throw, t, lx). length (lx_in lx))") (auto dest!: get_char_length)

declare lexer_next.simps [simp del]

end
