(* ===== verification/Json_Lexemes.thy ===== *)
theory Json_Lexemes
  imports Json_Lexer Utf8_Roundtrip
begin

text \<open>
  The lexical grammar of JSON and the lexer: what it takes from its input, what the token holds and where it says
  the token is. The grammar (\<open>json_number\<close>, \<open>string_body\<close>, \<open>lexeme\<close>) is stated on byte strings, independently of the lexer.
\<close>

named_theorems lexed_rules \<open>composition of the parts of the input that have been read\<close>

section \<open>Reading\<close>

text \<open>The position after a text that starts at a given position, with the widths of the counters.\<close>

definition next_pos :: "byte \<Rightarrow> u32 \<times> column \<Rightarrow> u32 \<times> column" where
  "next_pos c p = (if c = 10 then (fst p + 1, 1) else (fst p, snd p + 1))"

definition pos_after :: "byte list \<Rightarrow> u32 \<times> column \<Rightarrow> u32 \<times> column" where
  "pos_after w p = fold next_pos w p"

definition lx_pos :: "lexer \<Rightarrow> u32 \<times> column" where
  "lx_pos lx = (lx_line lx, lx_col lx)"

definition lx_prev :: "lexer \<Rightarrow> u32 \<times> column" where
  "lx_prev lx = (lx_prev_line lx, lx_prev_col lx)"

text \<open>\<open>lexed w lx lx'\<close>: between the two states exactly \<open>w\<close> has been read.\<close>

definition lexed :: "byte list \<Rightarrow> lexer \<Rightarrow> lexer \<Rightarrow> bool" where
  "lexed w lx lx' \<longleftrightarrow> lx_in lx = w @ lx_in lx' \<and> lx_pos lx' = pos_after w (lx_pos lx)
    \<and> lx_prev lx' = (if w = [] then lx_prev lx else pos_after (butlast w) (lx_pos lx))
    \<and> loc_file (lx_cur_loc lx') = loc_file (lx_cur_loc lx)"

lemma pos_after_append [simp]: "pos_after (v @ w) p = pos_after w (pos_after v p)"
  by (simp add: pos_after_def)

lemma pos_after_Nil [simp]: "pos_after [] p = p"
  by (simp add: pos_after_def)

lemma lexed_refl: "lexed [] lx lx"
  by (simp add: lexed_def)

lemma lexed_trans [lexed_rules]: "lexed v lx lx1 \<Longrightarrow> lexed w lx1 lx2 \<Longrightarrow> lexed (v @ w) lx lx2"
  by (auto simp: lexed_def butlast_append)

lemma lexed_in: "lexed w lx lx' \<Longrightarrow> lx_in lx = w @ lx_in lx'"
  by (simp add: lexed_def)

lemma lexed_same [lexed_rules]:
  "lexed w lx (append_value s lx') \<longleftrightarrow> lexed w lx lx'" "lexed w lx (set_cur_loc lx') \<longleftrightarrow> lexed w lx lx'"
  "lexed w lx (lx'\<lparr>lx_value := v\<rparr>) \<longleftrightarrow> lexed w lx lx'" "lexed w (append_value s lx) lx' \<longleftrightarrow> lexed w lx lx'"
  "lexed w (set_cur_loc lx) lx' \<longleftrightarrow> lexed w lx lx'" "lexed w (lx\<lparr>lx_value := v\<rparr>) lx' \<longleftrightarrow> lexed w lx lx'"
  by (simp_all add: lexed_def lx_pos_def lx_prev_def append_value_def set_cur_loc_def set_range_def)

lemma value_simps [simp]:
  "lx_value (append_value s lx) = lx_value lx @ s" "lx_value (set_cur_loc lx) = lx_value lx"
  by (simp_all add: append_value_def set_cur_loc_def)

lemma get_char_Nil: "get_char lx = None \<longleftrightarrow> lx_in lx = []"
  by (simp add: get_char_def Let_def split: list.splits)

lemma get_char_SomeD:
  assumes "get_char lx = Some (c, lx')"
  shows "lexed [c] lx lx'" "lx_value lx' = lx_value lx" "lx_cur_loc lx' = lx_cur_loc lx"
  using assms by (auto simp: get_char_def Let_def lexed_def lx_pos_def lx_prev_def pos_after_def next_pos_def
      split: list.splits if_splits)

lemma get_char_Cons:
  assumes "lx_in lx = c # w"
  obtains lx' where "get_char lx = Some (c, lx')" "lexed [c] lx lx'" "lx_in lx' = w" "lx_value lx' = lx_value lx"
    "lx_cur_loc lx' = lx_cur_loc lx"
proof -
  obtain d lx' where g: "get_char lx = Some (d, lx')" using assms get_char_Nil [of lx] by (cases "get_char lx") auto
  from get_char_SomeD [OF g] assms have "c = d" "lx_in lx' = w" by (auto simp: lexed_def)
  with g get_char_SomeD [OF g] that show thesis by blast
qed

lemma peek_char_eq: "peek_char lx = (case lx_in lx of [] \<Rightarrow> None | c # _ \<Rightarrow> Some c)"
  by (simp add: peek_char_def)

section \<open>Hexadecimal digits\<close>

definition hex_digit :: "byte \<Rightarrow> nat" where
  "hex_digit c = (if c \<le> 57 then unat c - 48 else if c \<le> 70 then unat c - 55 else unat c - 87)"

definition hex_num :: "byte list \<Rightarrow> nat" where
  "hex_num ds = foldl (\<lambda>n d. 16 * n + hex_digit d) 0 ds"

lemma xdigit_cases:
  assumes "is_xdigit c"
  shows "c \<in> {48,49,50,51,52,53,54,55,56,57,65,66,67,68,69,70,97,98,99,100,101,102}"
proof -
  have "unat c \<in> {48..57} \<union> {65..70} \<union> {97..102}"
    using assms by (auto simp: is_xdigit_def is_digit_def word_le_nat_alt)
  then have "unat c \<in> {48,49,50,51,52,53,54,55,56,57,65,66,67,68,69,70,97,98,99,100,101,102}"
    by (simp only: Un_iff atLeastAtMost_iff insert_iff empty_iff) presburger
  then show ?thesis by (auto simp: word_unat_eq_iff)
qed

lemma hex_value_eq:
  assumes "is_xdigit c" shows "hex_value c = of_nat (hex_digit c) \<and> hex_digit c < 16"
  using xdigit_cases [OF assms]
  by (auto simp: hex_value_def hex_digits_def to_upper_def hex_digit_def)

lemma shift_or:
  assumes "y < 16" shows "push_bit 4 (of_nat x) OR of_nat y = (of_nat (16 * x + y) :: u32)"
proof -
  have "bit (of_nat y :: u32) n \<Longrightarrow> n < 4" for n
    using less_bit [of "of_nat y :: u32" 4 n] assms by (simp add: unat_of_nat)
  then have "push_bit 4 (of_nat x) AND of_nat y = (0 :: u32)"
    by (intro bit_word_eqI) (fastforce simp: bit_and_iff bit_push_bit_iff)
  then have "push_bit 4 (of_nat x) OR of_nat y = push_bit 4 (of_nat x) + (of_nat y :: u32)"
    by (simp add: disjunctive_add_eq_or)
  then show ?thesis by (simp add: push_bit_eq_mult)
qed

lemma read_hex_ok:
  assumes "lx_in lx = ds @ w" "list_all is_xdigit ds"
  obtains lx' where "read_hex (length ds) (of_nat n) s lx = Inr (of_nat (foldl (\<lambda>n d. 16 * n + hex_digit d) n ds), s @ ds, lx')"
    "lexed ds lx lx'" "lx_in lx' = w" "lx_value lx' = lx_value lx" "lx_cur_loc lx' = lx_cur_loc lx"
  using assms
proof (induction ds arbitrary: n s lx thesis)
  case Nil
  then show ?case by (auto simp: lexed_refl)
next
  case (Cons d ds)
  from Cons.prems(2) have "lx_in lx = d # (ds @ w)" by simp
  then obtain lx1 where g: "get_char lx = Some (d, lx1)" "lexed [d] lx lx1" "lx_in lx1 = ds @ w"
    "lx_value lx1 = lx_value lx" "lx_cur_loc lx1 = lx_cur_loc lx" by (rule get_char_Cons)
  have d: "is_xdigit d" "list_all is_xdigit ds" using Cons.prems(3) by simp_all
  obtain lx2 where r: "read_hex (length ds) (of_nat (16 * n + hex_digit d)) (s @ [d]) lx1
      = Inr (of_nat (foldl (\<lambda>n d. 16 * n + hex_digit d) (16 * n + hex_digit d) ds), (s @ [d]) @ ds, lx2)"
    "lexed ds lx1 lx2" "lx_in lx2 = w" "lx_value lx2 = lx_value lx1" "lx_cur_loc lx2 = lx_cur_loc lx1"
    using Cons.IH [OF _ g(3) d(2)] by blast
  have "push_bit 4 (of_nat n) OR hex_value d = (of_nat (16 * n + hex_digit d) :: u32)"
    using hex_value_eq [OF d(1)] shift_or [of "hex_digit d" n] by simp
  then have "read_hex (length (d # ds)) (of_nat n) s lx
      = Inr (of_nat (foldl (\<lambda>n d. 16 * n + hex_digit d) n (d # ds)), s @ d # ds, lx2)"
    using g(1) d(1) r(1) by (simp del: of_nat_add of_nat_mult)
  then show ?case using Cons.prems(1) [of lx2] lexed_trans [OF g(2) r(2)] r g by simp
qed

lemma read_hexD:
  assumes "read_hex i (of_nat n) s lx = Inr (cp, s', lx')"
  obtains ds where "length ds = i" "list_all is_xdigit ds" "lexed ds lx lx'" "s' = s @ ds"
    "cp = of_nat (foldl (\<lambda>n d. 16 * n + hex_digit d) n ds)" "lx_value lx' = lx_value lx" "lx_cur_loc lx' = lx_cur_loc lx"
proof -
  have "\<exists>ds. length ds = i \<and> list_all is_xdigit ds \<and> (\<exists>w. lx_in lx = ds @ w)"
    using assms
  proof (induction i arbitrary: n s lx)
    case (Suc i)
    then obtain c lx1 where g: "get_char lx = Some (c, lx1)" "is_xdigit c"
      "read_hex i (push_bit 4 (of_nat n) OR hex_value c) (s @ [c]) lx1 = Inr (cp, s', lx')"
      by (auto split: option.splits if_splits)
    have "push_bit 4 (of_nat n) OR hex_value c = (of_nat (16 * n + hex_digit c) :: u32)"
      using hex_value_eq [OF g(2)] shift_or [of "hex_digit c" n] by simp
    with Suc.IH g(3) obtain ds w where "length ds = i" "list_all is_xdigit ds" "lx_in lx1 = ds @ w" by metis
    then show ?case using g get_char_SomeD(1) [OF g(1)] by (intro exI [of _ "c # ds"]) (auto simp: lexed_def)
  qed simp
  then obtain ds w where ds: "length ds = i" "list_all is_xdigit ds" "lx_in lx = ds @ w" by blast
  from ds(3,2) show thesis by (rule read_hex_ok [of lx ds w n s]) (use assms ds that in auto)
qed

lemma hex_foldl_less: "list_all is_xdigit ds \<Longrightarrow> foldl (\<lambda>n d. 16 * n + hex_digit d) n ds < (n + 1) * 16 ^ length ds"
proof (induction ds arbitrary: n)
  case (Cons d ds)
  then have "foldl (\<lambda>n d. 16 * n + hex_digit d) (16 * n + hex_digit d) ds < (16 * n + hex_digit d + 1) * 16 ^ length ds"
    by simp
  also have "\<dots> \<le> (n + 1) * 16 * 16 ^ length ds"
    using hex_value_eq [of d] Cons.prems by (intro mult_right_mono) auto
  finally show ?case by (simp add: algebra_simps)
qed simp

lemma hex_num_less: "length ds = 4 \<Longrightarrow> list_all is_xdigit ds \<Longrightarrow> hex_num ds < 65536"
  using hex_foldl_less [of ds 0] by (simp add: hex_num_def)

definition high_num :: "nat \<Rightarrow> bool" where "high_num n \<longleftrightarrow> 0xD800 \<le> n \<and> n \<le> 0xDBFF"
definition low_num :: "nat \<Rightarrow> bool" where "low_num n \<longleftrightarrow> 0xDC00 \<le> n \<and> n \<le> 0xDFFF"

lemma surrogate_of_nat:
  "n < 65536 \<Longrightarrow> is_high_surrogate (of_nat n) \<longleftrightarrow> high_num n" "n < 65536 \<Longrightarrow> is_low_surrogate (of_nat n) \<longleftrightarrow> low_num n"
  by (simp_all add: is_high_surrogate_def is_low_surrogate_def high_num_def low_num_def word_le_nat_alt unat_of_nat)

text \<open>The code point of a pair of surrogates.\<close>

definition pair_num :: "nat \<Rightarrow> nat \<Rightarrow> nat" where
  "pair_num h l = 0x10000 + 1024 * (h - 0xD800) + (l - 0xDC00)"

lemma convert_surrogate_of_nat:
  "high_num h \<Longrightarrow> low_num l \<Longrightarrow> convert_surrogate (of_nat h) (of_nat l) = of_nat (pair_num h l)"
  by (simp add: convert_surrogate_def pair_num_def high_num_def low_num_def push_bit_eq_mult of_nat_diff)

definition hex4 :: "byte list \<Rightarrow> bool" where
  "hex4 h \<longleftrightarrow> length h = 4 \<and> list_all is_xdigit h"

lemma read_hex4:
  assumes "lx_in lx = h @ w" "hex4 h"
  obtains lx' where "read_hex 4 0 s lx = Inr (of_nat (hex_num h), s @ h, lx')"
    "lexed h lx lx'" "lx_in lx' = w" "lx_value lx' = lx_value lx" "lx_cur_loc lx' = lx_cur_loc lx"
proof -
  from assms have "list_all is_xdigit h" by (simp add: hex4_def)
  with assms(1) obtain lx' where "read_hex (length h) (of_nat 0) s lx = Inr (of_nat (hex_num h), s @ h, lx')"
    "lexed h lx lx'" "lx_in lx' = w" "lx_value lx' = lx_value lx" "lx_cur_loc lx' = lx_cur_loc lx"
    unfolding hex_num_def by (rule read_hex_ok)
  then show thesis using that assms(2) by (simp add: hex4_def)
qed

lemma read_hex4D:
  assumes "read_hex 4 0 s lx = Inr (cp, s', lx')"
  obtains h where "hex4 h" "lexed h lx lx'" "cp = of_nat (hex_num h)" "lx_value lx' = lx_value lx"
proof -
  from assms have "read_hex 4 (of_nat 0) s lx = Inr (cp, s', lx')" by simp
  then show thesis by (rule read_hexD) (use that in \<open>auto simp: hex4_def hex_num_def\<close>)
qed

lemma hex4_less: "hex4 h \<Longrightarrow> hex_num h < 65536"
  by (simp add: hex4_def hex_num_less)

lemma of_nat_eq_0_small: "n < 65536 \<Longrightarrow> (of_nat n :: u32) = 0 \<longleftrightarrow> n = 0"
  by (simp add: word_unat_eq_iff unat_of_nat)

text \<open>The escape of a code point in the basic plane, and the two escapes of one beyond it.\<close>

inductive escape_num :: "byte list \<Rightarrow> nat \<Rightarrow> bool" where
  escape_one: "hex4 h \<Longrightarrow> \<not> high_num (hex_num h) \<Longrightarrow> \<not> low_num (hex_num h) \<Longrightarrow> escape_num h (hex_num h)"
| escape_two: "hex4 h \<Longrightarrow> hex4 l \<Longrightarrow> high_num (hex_num h) \<Longrightarrow> low_num (hex_num l)
    \<Longrightarrow> escape_num (h @ [0x5C, 0x75] @ l) (pair_num (hex_num h) (hex_num l))"

lemma codepoint_ok:
  assumes "escape_num e n" "lx_in lx = e @ w"
  obtains lx' where "parse_codepoint throw lx = Inr (Some (of_nat n), lx')" "lexed e lx lx'" "lx_value lx' = lx_value lx"
  using assms
proof cases
  case escape_one
  from assms(2) have i: "lx_in lx = e @ w" "hex4 e" using escape_one by simp_all
  define s :: "byte list" where "s = map of_char [CHR 0x5C, CHR ''u'']"
  from i obtain lx1 where "read_hex 4 0 s lx = Inr (of_nat (hex_num e), s @ e, lx1)"
    "lexed e lx lx1" "lx_value lx1 = lx_value lx" by (rule read_hex4)
  then show thesis using that escape_one surrogate_of_nat hex4_less [of e]
    by (simp add: parse_codepoint_def codepoint_loop.simps s_def)
next
  case (escape_two h l)
  define s :: "byte list" where "s = map of_char [CHR 0x5C, CHR ''u'']"
  from assms(2) escape_two have i: "lx_in lx = h @ [0x5C, 0x75] @ l @ w" by simp
  from i escape_two(3) obtain lx1 where lx1: "read_hex 4 0 s lx = Inr (of_nat (hex_num h), s @ h, lx1)"
    "lexed h lx lx1" "lx_in lx1 = [0x5C, 0x75] @ l @ w" "lx_value lx1 = lx_value lx" by (rule read_hex4)
  then have "lx_in lx1 = 0x5C # 0x75 # l @ w" by simp
  then obtain lx2 where lx2: "get_char lx1 = Some (0x5C, lx2)" "lexed [0x5C] lx1 lx2" "lx_in lx2 = 0x75 # l @ w"
    "lx_value lx2 = lx_value lx1" by (rule get_char_Cons)
  from lx2(3) obtain lx3 where lx3: "get_char lx2 = Some (0x75, lx3)" "lexed [0x75] lx2 lx3" "lx_in lx3 = l @ w"
    "lx_value lx3 = lx_value lx2" by (rule get_char_Cons)
  define s2 where "s2 = (s @ h) @ [0x5C, 0x75]"
  from lx3(3) escape_two(4) obtain lx4 where lx4: "read_hex 4 0 s2 lx3 = Inr (of_nat (hex_num l), s2 @ l, lx4)"
    "lexed l lx3 lx4" "lx_value lx4 = lx_value lx3" by (rule read_hex4)
  have nz: "(of_nat (hex_num h) :: u32) \<noteq> 0" using escape_two(5) hex4_less [OF escape_two(3)]
    by (simp add: of_nat_eq_0_small high_num_def)
  have n: "\<not> high_num (hex_num l)" using escape_two(6) by (auto simp: high_num_def low_num_def)
  have two: "codepoint_loop throw (of_nat (hex_num h)) s2 lx3 = Inr (Some (of_nat n), lx4)"
    using lx4 nz escape_two n hex4_less [OF escape_two(4)] surrogate_of_nat
    by (simp add: codepoint_loop.simps convert_surrogate_of_nat)
  have "codepoint_loop throw 0 s lx = Inr (Some (of_nat n), lx4)"
    using lx1(1) lx2(1) lx3(1) two escape_two hex4_less [OF escape_two(3)] surrogate_of_nat
    by (subst codepoint_loop.simps) (simp add: s2_def)
  moreover have "lexed (h @ [0x5C] @ [0x75] @ l) lx lx4" using lx1 lx2 lx3 lx4 by (intro lexed_trans)
  ultimately show thesis using that lx1 lx2 lx3 lx4 escape_two(1) by (simp add: parse_codepoint_def s_def)
qed

lemma codepointD_low:
  assumes "codepoint_loop throw high s lx = Inr (Some cp, lx')" "high \<noteq> 0"
  obtains l where "hex4 l" "low_num (hex_num l)" "cp = convert_surrogate high (of_nat (hex_num l))"
    "lexed l lx lx'" "lx_value lx' = lx_value lx"
proof -
  obtain cp2 s2 where r: "read_hex 4 0 s lx = Inr (cp2, s2, lx')" "is_low_surrogate cp2" "cp = convert_surrogate high cp2"
    using assms by (subst (asm) codepoint_loop.simps)
      (auto simp: fail_codepoint_def fail_def split: sum.splits if_splits)
  from r(1) show thesis by (rule read_hex4D) (use r that surrogate_of_nat hex4_less in auto)
qed

lemma codepointD:
  assumes "parse_codepoint throw lx = Inr (Some cp, lx')"
  obtains e n where "escape_num e n" "cp = of_nat n" "lexed e lx lx'" "lx_value lx' = lx_value lx"
proof -
  define s :: "byte list" where "s = map of_char [CHR 0x5C, CHR ''u'']"
  have a: "codepoint_loop throw 0 s lx = Inr (Some cp, lx')" using assms by (simp add: parse_codepoint_def s_def)
  then obtain cp1 s1 lx1 where r: "read_hex 4 0 s lx = Inr (cp1, s1, lx1)"
    by (subst (asm) codepoint_loop.simps) (auto simp: fail_codepoint_def fail_def split: sum.splits if_splits)
  from r obtain h where h: "hex4 h" "lexed h lx lx1" "cp1 = of_nat (hex_num h)" "lx_value lx1 = lx_value lx"
    by (rule read_hex4D)
  show thesis
  proof (cases "is_high_surrogate cp1")
    case False
    then have "cp = cp1" "lx' = lx1" "\<not> is_low_surrogate cp1" using a r
      by (subst (asm) codepoint_loop.simps, auto simp: fail_codepoint_def fail_def split: if_splits)+
    then show thesis using that [of h "hex_num h"] h False surrogate_of_nat [OF hex4_less [OF h(1)]]
      by (auto intro: escape_one)
  next
    case True
    then obtain lx2 lx3 where g: "get_char lx1 = Some (0x5C, lx2)" "get_char lx2 = Some (0x75, lx3)"
      "codepoint_loop throw cp1 (s1 @ [0x5C, 0x75]) lx3 = Inr (Some cp, lx')"
      using a r by (subst (asm) codepoint_loop.simps)
        (auto simp: fail_codepoint_def fail_def split: option.splits if_splits)
    have "cp1 \<noteq> 0" using True by (auto simp: is_high_surrogate_def)
    with g(3) obtain l where l: "hex4 l" "low_num (hex_num l)" "cp = convert_surrogate cp1 (of_nat (hex_num l))"
      "lexed l lx3 lx'" "lx_value lx' = lx_value lx3" by (rule codepointD_low)
    have hh: "high_num (hex_num h)" using True surrogate_of_nat [OF hex4_less [OF h(1)]] h by simp
    have "lexed (h @ [0x5C] @ [0x75] @ l) lx lx'" using h l g get_char_SomeD by (intro lexed_trans)
    then show thesis using that [OF escape_two [OF h(1) l(1) hh l(2)]] l h hh g get_char_SomeD
      by (simp add: convert_surrogate_of_nat)
  qed
qed

section \<open>Strings\<close>

text \<open>What may stand between the quotes of a string, and what it stands for.\<close>

inductive string_body :: "byte list \<Rightarrow> byte list \<Rightarrow> bool" where
  body_Nil: "string_body [] []"
| body_char: "c \<noteq> 0x22 \<Longrightarrow> c \<noteq> 0x5C \<Longrightarrow> string_body w v \<Longrightarrow> string_body (c # w) (c # v)"
| body_escape: "simple_escape c = Some d \<Longrightarrow> string_body w v \<Longrightarrow> string_body (0x5C # c # w) (d # v)"
| body_code: "escape_num e n \<Longrightarrow> string_body w v \<Longrightarrow> string_body (0x5C # 0x75 # e @ w) (encode (of_nat n) @ v)"

lemma simple_escape_u: "simple_escape 0x75 = None" "simple_escape (of_char CHR ''u'') = None"
  by (simp_all add: simple_escape_def)

lemma string_loop_ok:
  assumes "string_body w v" "lx_in lx = w @ 0x22 # rest"
  shows "\<exists>lx'. string_loop throw loc False lx = Inr (Some (), lx') \<and> lexed (w @ [0x22]) lx lx' \<and> lx_value lx' = lx_value lx @ v"
  using assms
proof (induction w v arbitrary: lx)
  case body_Nil
  then have "lx_in (set_cur_loc lx) = 0x22 # rest" by simp
  then obtain lx1 where "get_char (set_cur_loc lx) = Some (0x22, lx1)" "lexed [0x22] (set_cur_loc lx) lx1"
    "lx_value lx1 = lx_value (set_cur_loc lx)" by (rule get_char_Cons)
  then show ?case by (subst string_loop.simps) (simp add: lexed_rules)
next
  case (body_char c w v)
  then have "lx_in (set_cur_loc lx) = c # w @ 0x22 # rest" by simp
  then obtain lx1 where g: "get_char (set_cur_loc lx) = Some (c, lx1)" "lexed [c] (set_cur_loc lx) lx1" "lx_in lx1 = w @ 0x22 # rest"
    "lx_value lx1 = lx_value (set_cur_loc lx)" by (rule get_char_Cons)
  then have "lx_in (append_value [c] lx1) = w @ 0x22 # rest" by simp
  from body_char.IH [OF this] obtain lx2 where "string_loop throw loc False (append_value [c] lx1) = Inr (Some (), lx2)"
    "lexed (w @ [0x22]) lx1 lx2" "lx_value lx2 = lx_value lx1 @ c # v" by (auto simp: lexed_rules)
  then show ?case using g body_char.hyps lexed_trans [of "[c]" lx lx1 "w @ [0x22]" lx2]
    by (subst string_loop.simps) (simp add: lexed_same)
next
  case (body_escape c d w v)
  then have "lx_in (set_cur_loc lx) = 0x5C # c # w @ 0x22 # rest" by simp
  then obtain lx1 where g: "get_char (set_cur_loc lx) = Some (0x5C, lx1)" "lexed [0x5C] (set_cur_loc lx) lx1" "lx_in lx1 = c # w @ 0x22 # rest"
    "lx_value lx1 = lx_value (set_cur_loc lx)" by (rule get_char_Cons)
  then have "lx_in (set_cur_loc lx1) = c # w @ 0x22 # rest" by simp
  then obtain lx2 where g2: "get_char (set_cur_loc lx1) = Some (c, lx2)" "lexed [c] (set_cur_loc lx1) lx2" "lx_in lx2 = w @ 0x22 # rest"
    "lx_value lx2 = lx_value (set_cur_loc lx1)" by (rule get_char_Cons)
  then have "lx_in (append_value [d] lx2) = w @ 0x22 # rest" by simp
  from body_escape.IH [OF this] obtain lx3 where g3: "string_loop throw loc False (append_value [d] lx2) = Inr (Some (), lx3)"
    "lexed (w @ [0x22]) lx2 lx3" "lx_value lx3 = lx_value lx2 @ d # v" by (auto simp: lexed_rules)
  have "lexed ([0x5C] @ [c] @ w @ [0x22]) lx lx3"
    using lexed_trans [OF g(2) [unfolded lexed_same] lexed_trans [OF g2(2) [unfolded lexed_same] g3(2)]] .
  then show ?case using g g2 g3 body_escape.hyps
    by (subst string_loop.simps, simp, subst string_loop.simps, simp)
next
  case (body_code e n w v)
  then have "lx_in (set_cur_loc lx) = 0x5C # 0x75 # e @ w @ 0x22 # rest" by simp
  then obtain lx1 where g: "get_char (set_cur_loc lx) = Some (0x5C, lx1)" "lexed [0x5C] (set_cur_loc lx) lx1"
    "lx_in lx1 = 0x75 # e @ w @ 0x22 # rest" "lx_value lx1 = lx_value (set_cur_loc lx)" by (rule get_char_Cons)
  then have "lx_in (set_cur_loc lx1) = 0x75 # e @ w @ 0x22 # rest" by simp
  then obtain lx2 where g2: "get_char (set_cur_loc lx1) = Some (0x75, lx2)" "lexed [0x75] (set_cur_loc lx1) lx2"
    "lx_in lx2 = e @ w @ 0x22 # rest" "lx_value lx2 = lx_value (set_cur_loc lx1)" by (rule get_char_Cons)
  from body_code.hyps(1) g2(3) obtain lx3 where g3: "parse_codepoint throw lx2 = Inr (Some (of_nat n), lx3)"
    "lexed e lx2 lx3" "lx_value lx3 = lx_value lx2" by (rule codepoint_ok)
  then have "lx_in (append_value (encode (of_nat n)) lx3) = w @ 0x22 # rest" using g2(3) lexed_in [OF g3(2)] by simp
  from body_code.IH [OF this] obtain lx4 where g4: "string_loop throw loc False (append_value (encode (of_nat n)) lx3) = Inr (Some (), lx4)"
    "lexed (w @ [0x22]) lx3 lx4" "lx_value lx4 = lx_value lx3 @ encode (of_nat n) @ v" by (auto simp: lexed_rules)
  have "lexed ([0x5C] @ [0x75] @ e @ w @ [0x22]) lx lx4"
    using lexed_trans [OF g(2) [unfolded lexed_same] lexed_trans [OF g2(2) [unfolded lexed_same] lexed_trans [OF g3(2) g4(2)]]] .
  then show ?case using g g2 g3 g4
    by (subst string_loop.simps, simp, subst string_loop.simps, simp add: simple_escape_u)
qed

text \<open>Soundness; after a backslash the rest of the body starts inside an escape.\<close>

lemma string_loopD:
  assumes "string_loop throw loc b lx = Inr (Some (), lx')"
  shows "\<exists>w v. string_body (if b then 0x5C # w else w) v \<and> lexed (w @ [0x22]) lx lx' \<and> lx_value lx' = lx_value lx @ v"
  using assms
proof (induction throw loc b lx rule: string_loop.induct)
  case (1 throw loc b lx)
  define lx0 where "lx0 = set_cur_loc lx"
  note prem = "1.prems" [unfolded string_loop.simps [of throw loc b lx] Let_def, folded lx0_def]
  obtain c lx1 where g: "get_char lx0 = Some (c, lx1)" using prem by (auto simp: fail_def split: option.splits if_splits)
  then have l: "lexed [c] lx lx1" "lx_value lx1 = lx_value lx" using get_char_SomeD [OF g] by (simp_all add: lx0_def lexed_same)
  note IH = "1.IH" [OF lx0_def g refl]
  have step: "\<exists>w v. string_body w v \<and> lexed (w @ [0x22]) lx1 lx' \<and> lx_value lx' = lx_value lx1 @ d @ v"
    if "\<exists>w v. string_body (if False then 0x5C # w else w) v \<and> lexed (w @ [0x22]) (append_value d lx1) lx' \<and> lx_value lx' = lx_value (append_value d lx1) @ v" for d
    using that by (simp add: lexed_same)
  show ?case
  proof (cases b)
    case True
    show ?thesis
    proof (cases "simple_escape c")
      case (Some d)
      then have "string_loop throw loc False (append_value [d] lx1) = Inr (Some (), lx')" using prem g True by simp
      from step [OF IH(2) [OF True Some this]] obtain w v where w: "string_body w v" "lexed (w @ [0x22]) lx1 lx'" "lx_value lx' = lx_value lx1 @ d # v"
        by auto
      have "string_body (0x5C # c # w) (d # v)" using Some w(1) by (rule body_escape)
      then show ?thesis using lexed_trans [OF l(1) w(2)] w(3) l(2) True by (intro exI [of _ "c # w"] exI [of _ "d # v"]) simp
    next
      case None
      then have u: "c = 0x75" and "\<exists>cp lx2. parse_codepoint throw lx1 = Inr (Some cp, lx2)
          \<and> string_loop throw loc False (append_value (encode cp) lx2) = Inr (Some (), lx')"
        using prem g True by (auto simp: fail_def bindE_eq_Inr split: if_splits option.splits)
      then obtain cp lx2 where p: "parse_codepoint throw lx1 = Inr (Some cp, lx2)"
        "string_loop throw loc False (append_value (encode cp) lx2) = Inr (Some (), lx')" by blast
      from IH(1) [OF True None _ p(1) refl refl p(2)] u obtain w v where w: "string_body w v" "lexed (w @ [0x22]) lx2 lx'"
        "lx_value lx' = lx_value lx2 @ encode cp @ v" by (auto simp: lexed_same)
      from p(1) obtain e n where e: "escape_num e n" "cp = of_nat n" "lexed e lx1 lx2" "lx_value lx2 = lx_value lx1"
        by (rule codepointD)
      have "string_body (0x5C # 0x75 # e @ w) (encode cp @ v)" unfolding e(2) using e(1) w(1) by (rule body_code)
      moreover have "lexed ([c] @ e @ w @ [0x22]) lx lx'" using lexed_trans [OF l(1) lexed_trans [OF e(3) w(2)]] .
      ultimately show ?thesis using w(3) e l u True by (intro exI [of _ "c # e @ w"] exI [of _ "encode cp @ v"]) simp
    qed
  next
    case False
    consider (Esc) "c = 0x5C" | (Quote) "c = 0x22" | (Other) "c \<noteq> 0x5C" "c \<noteq> 0x22" by blast
    then show ?thesis
    proof cases
      case Esc
      then have "string_loop throw loc True lx1 = Inr (Some (), lx')" using prem g False by simp
      from IH(3) [OF False _ this] Esc obtain w v where w: "string_body (0x5C # w) v" "lexed (w @ [0x22]) lx1 lx'" "lx_value lx' = lx_value lx1 @ v"
        by auto
      then show ?thesis using lexed_trans [OF l(1) w(2)] l(2) False Esc by (intro exI [of _ "c # w"] exI [of _ v]) simp
    next
      case Quote
      then have "lx' = lx1" using prem g False by simp
      then show ?thesis using l Quote False body_Nil by (intro exI [of _ "[]"]) simp
    next
      case Other
      then have "string_loop throw loc False (append_value [c] lx1) = Inr (Some (), lx')" using prem g False by simp
      from step [OF IH(4) [OF False _ _ this]] Other obtain w v where w: "string_body w v" "lexed (w @ [0x22]) lx1 lx'" "lx_value lx' = lx_value lx1 @ c # v"
        by auto
      have "string_body (c # w) (c # v)" using Other w(1) by (intro body_char)
      then show ?thesis using lexed_trans [OF l(1) w(2)] w(3) l(2) False by (intro exI [of _ "c # w"] exI [of _ "c # v"]) simp
    qed
  qed
qed

section \<open>Numbers\<close>

definition int_part :: "byte list \<Rightarrow> bool" where
  "int_part w \<longleftrightarrow> w = [48] \<or> (\<exists>d ds. w = d # ds \<and> is_digit d \<and> d \<noteq> 48 \<and> list_all is_digit ds)"

definition frac_part :: "byte list \<Rightarrow> bool" where
  "frac_part w \<longleftrightarrow> (\<exists>ds. w = 46 # ds \<and> ds \<noteq> [] \<and> list_all is_digit ds)"

definition exp_part :: "byte list \<Rightarrow> bool" where
  "exp_part w \<longleftrightarrow> (\<exists>c sign ds. w = c # sign @ ds \<and> c \<in> {101, 69} \<and> sign \<in> {[], [43], [45]} \<and> ds \<noteq> [] \<and> list_all is_digit ds)"

text \<open>The numbers of JSON: a sign, an integral part, a fraction and an exponent.\<close>

definition number_parts :: "byte list \<Rightarrow> byte list \<Rightarrow> byte list \<Rightarrow> byte list \<Rightarrow> bool" where
  "number_parts s i f e \<longleftrightarrow> s \<in> {[], [45]} \<and> int_part i \<and> (f = [] \<or> frac_part f) \<and> (e = [] \<or> exp_part e)"

definition number_type :: "byte list \<Rightarrow> byte list \<Rightarrow> numeric_type" where
  "number_type f e = (if e \<noteq> [] then N_floating_point else if f \<noteq> [] then N_decimal else N_integer)"

text \<open>What the lexer does not take: an exponent right after a zero.\<close>

definition json_number :: "numeric_type \<Rightarrow> byte list \<Rightarrow> bool" where
  "json_number nt w \<longleftrightarrow> (\<exists>s i f e. w = s @ i @ f @ e \<and> number_parts s i f e \<and> nt = number_type f e \<and> \<not> (i = [48] \<and> f = [] \<and> e \<noteq> []))"

text \<open>
  What may stand behind a number: no letter and no digit, and behind an integer no point. (A point behind a
  fraction or an exponent, or an underscore, ends the number and is an illegal character of its own.)
\<close>

definition number_end :: "numeric_type \<Rightarrow> byte list \<Rightarrow> bool" where
  "number_end nt w \<longleftrightarrow> w = [] \<or> \<not> is_alnum (hd w) \<and> (nt = N_integer \<longrightarrow> hd w \<noteq> 46)"

definition digits_stop :: "bool \<Rightarrow> byte list \<Rightarrow> digits_end" where
  "digits_stop allow_e w = (case w of [] \<Rightarrow> Done
    | c # _ \<Rightarrow> if is_alpha c \<and> (allow_e \<longrightarrow> c \<noteq> 101 \<and> c \<noteq> 69) then Bad else Next c)"

lemma digits_loop_eq:
  "\<exists>lx'. digits_loop a lx = (digits_stop a (lx_in lx'), lx') \<and> lexed (takeWhile is_digit (lx_in lx)) lx lx'
    \<and> lx_value lx' = lx_value lx @ takeWhile is_digit (lx_in lx)"
proof (induction a lx rule: digits_loop.induct)
  case (1 a lx)
  show ?case
  proof (cases "lx_in lx")
    case Nil
    then show ?thesis by (subst digits_loop.simps) (simp add: peek_char_def digits_stop_def lexed_refl)
  next
    case (Cons c w)
    have ad: "is_digit c \<Longrightarrow> \<not> is_alpha c" by (auto simp: is_digit_def is_alpha_def word_le_nat_alt)
    show ?thesis
    proof (cases "is_digit c")
      case False
      then show ?thesis using Cons by (subst digits_loop.simps) (simp add: peek_char_def digits_stop_def lexed_refl)
    next
      case True
      from Cons obtain lx1 where g: "get_char lx = Some (c, lx1)" "lexed [c] lx lx1" "lx_in lx1 = w" "lx_value lx1 = lx_value lx"
        by (rule get_char_Cons)
      have p: "peek_char lx = Some c" using Cons by (simp add: peek_char_def)
      from "1.IH" [OF p _ _ g(1) refl] True ad obtain lx2 where
        r: "digits_loop a (append_value [c] lx1) = (digits_stop a (lx_in lx2), lx2)"
        "lexed (takeWhile is_digit w) lx1 lx2" "lx_value lx2 = lx_value lx1 @ c # takeWhile is_digit w"
        using g by (auto simp: lexed_same)
      show ?thesis using p True ad g r lexed_trans [OF g(2) r(2)] Cons by (subst digits_loop.simps) simp
    qed
  qed
qed

lemma digits_loop_ok:
  assumes "lx_in lx = ds @ w" "list_all is_digit ds" "w = [] \<or> \<not> is_digit (hd w)"
  obtains lx' where "digits_loop a lx = (digits_stop a w, lx')" "lexed ds lx lx'" "lx_in lx' = w" "lx_value lx' = lx_value lx @ ds"
proof -
  have "takeWhile is_digit (ds @ w) = ds" using assms(2,3) by (cases w) (auto simp: list_all_iff takeWhile_append)
  with digits_loop_eq [of a lx] assms(1) obtain lx' where r: "digits_loop a lx = (digits_stop a (lx_in lx'), lx')" "lexed ds lx lx'"
    "lx_value lx' = lx_value lx @ ds" by auto
  then have "lx_in lx' = w" using lexed_in [OF r(2)] assms(1) by simp
  with r that show thesis by metis
qed

lemma digits_loopD:
  assumes "digits_loop a lx = (r, lx')"
  obtains ds where "lexed ds lx lx'" "list_all is_digit ds" "lx_value lx' = lx_value lx @ ds" "r = digits_stop a (lx_in lx')"
    "lx_in lx' = [] \<or> \<not> is_digit (hd (lx_in lx'))"
proof -
  from digits_loop_eq [of a lx] assms have r: "r = digits_stop a (lx_in lx')" "lexed (takeWhile is_digit (lx_in lx)) lx lx'"
    "lx_value lx' = lx_value lx @ takeWhile is_digit (lx_in lx)" by auto
  have "list_all is_digit (takeWhile is_digit (lx_in lx))" by (auto simp: list_all_iff dest: set_takeWhileD)
  moreover have "lx_in lx' = dropWhile is_digit (lx_in lx)"
    using lexed_in [OF r(2)] by (metis same_append_eq takeWhile_dropWhile_id)
  then have "lx_in lx' = [] \<or> \<not> is_digit (hd (lx_in lx'))" by (metis hd_dropWhile)
  ultimately show thesis using that r by blast
qed

lemma digits_stopD:
  "digits_stop a w = Done \<Longrightarrow> w = []" "digits_stop a w = Next c \<Longrightarrow> \<exists>w'. w = c # w' \<and> (is_alpha c \<longrightarrow> a \<and> (c = 101 \<or> c = 69))"
  by (auto simp: digits_stop_def split: list.splits if_splits)

text \<open>The exponent.\<close>

lemma exp_partI: "c = 101 \<or> c = 69 \<Longrightarrow> sign \<in> {[], [43], [45]} \<Longrightarrow> is_digit d \<Longrightarrow> list_all is_digit ds \<Longrightarrow> exp_part (c # sign @ d # ds)"
  unfolding exp_part_def by (intro exI [of _ c] exI [of _ sign] exI [of _ "d # ds"]) simp

lemma exp_partE:
  assumes "exp_part e"
  obtains c sign d ds where "e = c # sign @ d # ds" "c = 101 \<or> c = 69" "sign \<in> {[], [43], [45]}" "is_digit d" "list_all is_digit ds"
proof -
  from assms obtain c sign dd where e: "e = c # sign @ dd" "c \<in> {101, 69}" "sign \<in> {[], [43], [45]}" "dd \<noteq> []" "list_all is_digit dd"
    unfolding exp_part_def by blast
  then show thesis using that [of c sign "hd dd" "tl dd"] by (cases dd) auto
qed

lemma exp_digitsD:
  assumes "exp_digits throw c lx = Inr (Some nt, lx')"
  obtains ds where "nt = N_floating_point" "is_digit c" "list_all is_digit ds" "lexed ds lx lx'" "lx_value lx' = lx_value lx @ c # ds"
    "number_end N_floating_point (lx_in lx')"
proof -
  obtain r where r: "digits_loop False (append_value [c] lx) = (r, lx')" "is_digit c" "nt = N_floating_point" "r \<noteq> Bad"
    using assms by (auto simp: exp_digits_def fail_number_def fail_def split: if_splits prod.splits digits_end.splits)
  from r(1) obtain ds where ds: "lexed ds (append_value [c] lx) lx'" "list_all is_digit ds" "lx_value lx' = lx_value (append_value [c] lx) @ ds"
    "r = digits_stop False (lx_in lx')" "lx_in lx' = [] \<or> \<not> is_digit (hd (lx_in lx'))" by (rule digits_loopD)
  then have "number_end N_floating_point (lx_in lx')"
    using r(4) by (cases "lx_in lx'") (auto simp: digits_stop_def number_end_def is_alnum_def split: if_splits)
  with ds r that show thesis by (auto simp: lexed_same)
qed

lemma parse_expD:
  assumes "parse_exp throw nt c lx = Inr (Some nt', lx')" "lx_in lx = c # w"
  obtains e where "lexed e lx lx'" "lx_value lx' = lx_value lx @ e" "e = [] \<and> nt' = nt \<or> exp_part e \<and> nt' = N_floating_point"
    "if e = [] then lx' = lx \<and> c \<notin> {101, 69} else number_end N_floating_point (lx_in lx')"
proof (cases "c = 101 \<or> c = 69")
  case False
  then have "lx' = lx" "nt' = nt" using assms(1) by (simp_all add: parse_exp_def)
  with False show thesis using that [of "[]"] by (simp add: lexed_refl)
next
  case True
  from assms(2) obtain lx1 where g1: "get_char lx = Some (c, lx1)" "lexed [c] lx lx1" "lx_value lx1 = lx_value lx" by (rule get_char_Cons)
  define lx1' where "lx1' = append_value [c] lx1"
  have l1: "lexed [c] lx lx1'" "lx_value lx1' = lx_value lx @ [c]" using g1 by (simp_all add: lx1'_def lexed_same)
  from assms(1) g1 True obtain d lx2 where g2: "get_char lx1' = Some (d, lx2)"
    and r: "if d = 43 \<or> d = 45 then (case get_char (append_value [d] lx2) of None \<Rightarrow> False
        | Some (c, lx) \<Rightarrow> exp_digits throw c lx = Inr (Some nt', lx')) else exp_digits throw d lx2 = Inr (Some nt', lx')"
    by (auto simp: parse_exp_def Let_def lx1'_def fail_number_def fail_def split: option.splits if_splits)
  note l2 = get_char_SomeD(1,2) [OF g2]
  show thesis
  proof (cases "d = 43 \<or> d = 45")
    case True
    then obtain k lx3 where g3: "get_char (append_value [d] lx2) = Some (k, lx3)" "exp_digits throw k lx3 = Inr (Some nt', lx')"
      using r by (auto split: option.splits)
    note l3 = get_char_SomeD(1,2) [OF g3(1)]
    from g3(2) obtain ds where ds: "nt' = N_floating_point" "is_digit k" "list_all is_digit ds" "lexed ds lx3 lx'" "lx_value lx' = lx_value lx3 @ k # ds"
      "number_end N_floating_point (lx_in lx')" by (rule exp_digitsD)
    have "lexed ([c] @ [d] @ [k] @ ds) lx lx'"
      using lexed_trans [OF l1(1) lexed_trans [OF l2(1) lexed_trans [OF l3(1) [unfolded lexed_same] ds(4)]]] .
    moreover have "exp_part (c # [d] @ k # ds)" using \<open>c = 101 \<or> c = 69\<close> True ds by (intro exp_partI) auto
    ultimately show thesis using that [of "c # [d] @ k # ds"] ds l1 l2 l3 by simp
  next
    case False
    then have "exp_digits throw d lx2 = Inr (Some nt', lx')" using r by simp
    then obtain ds where ds: "nt' = N_floating_point" "is_digit d" "list_all is_digit ds" "lexed ds lx2 lx'" "lx_value lx' = lx_value lx2 @ d # ds"
      "number_end N_floating_point (lx_in lx')" by (rule exp_digitsD)
    have "lexed ([c] @ [d] @ ds) lx lx'" using lexed_trans [OF l1(1) lexed_trans [OF l2(1) ds(4)]] .
    moreover have "exp_part (c # [] @ d # ds)" using \<open>c = 101 \<or> c = 69\<close> ds by (intro exp_partI) auto
    ultimately show thesis using that [of "c # d # ds"] ds l1 l2 by simp
  qed
qed

lemma number_end_stop:
  assumes "number_end nt w"
  shows "w = [] \<or> \<not> is_digit (hd w)" "digits_stop a w = (if w = [] then Done else Next (hd w))" "w \<noteq> [] \<Longrightarrow> hd w \<notin> {101, 69}"
    "number_end N_floating_point w"
  using assms by (cases w; auto simp: number_end_def digits_stop_def is_alnum_def is_alpha_def is_digit_def)+

lemma exp_digits_ok:
  assumes "lx_in lx = ds @ w" "list_all is_digit ds" "is_digit c" "number_end N_floating_point w"
  obtains lx' where "exp_digits throw c lx = Inr (Some N_floating_point, lx')" "lexed ds lx lx'" "lx_value lx' = lx_value lx @ c # ds"
proof -
  from assms(1) have "lx_in (append_value [c] lx) = ds @ w" by simp
  from this assms(2) number_end_stop(1) [OF assms(4)] obtain lx' where "digits_loop False (append_value [c] lx) = (digits_stop False w, lx')" "lexed ds (append_value [c] lx) lx'"
    "lx_value lx' = lx_value (append_value [c] lx) @ ds" by (rule digits_loop_ok)
  then show thesis using that assms(3) number_end_stop(2) [OF assms(4), of False] by (simp add: exp_digits_def lexed_same)
qed

lemma parse_exp_ok:
  assumes "exp_part e" "lx_in lx = e @ w" "number_end N_floating_point w" "c = hd e"
  obtains lx' where "parse_exp throw nt c lx = Inr (Some N_floating_point, lx')" "lexed e lx lx'" "lx_value lx' = lx_value lx @ e"
proof -
  obtain sign d ds where e: "e = c # sign @ d # ds" "c = 101 \<or> c = 69" "sign \<in> {[], [43], [45]}" "is_digit d" "list_all is_digit ds"
    using assms(1) by (rule exp_partE) (use assms(4) in auto)
  from assms(2) e have "lx_in lx = c # sign @ d # ds @ w" by simp
  then obtain lx1 where g1: "get_char lx = Some (c, lx1)" "lexed [c] lx lx1" "lx_in lx1 = sign @ d # ds @ w" "lx_value lx1 = lx_value lx" by (rule get_char_Cons)
  define lx1' where "lx1' = append_value [c] lx1"
  have l1: "lexed [c] lx lx1'" "lx_value lx1' = lx_value lx @ [c]" "lx_in lx1' = sign @ d # ds @ w" using g1 by (simp_all add: lx1'_def lexed_same)
  show thesis
  proof (cases "sign = []")
    case True
    with l1 have "lx_in lx1' = d # ds @ w" by simp
    then obtain lx2 where g2: "get_char lx1' = Some (d, lx2)" "lexed [d] lx1' lx2" "lx_in lx2 = ds @ w" "lx_value lx2 = lx_value lx1'" by (rule get_char_Cons)
    from g2(3) e(5,4) assms(3) obtain lx' where r: "exp_digits throw d lx2 = Inr (Some N_floating_point, lx')" "lexed ds lx2 lx'" "lx_value lx' = lx_value lx2 @ d # ds"
      by (rule exp_digits_ok)
    have "d \<noteq> 43" "d \<noteq> 45" using e(4) by (auto simp: is_digit_def)
    moreover have "lexed ([c] @ [d] @ ds) lx lx'" using lexed_trans [OF l1(1) lexed_trans [OF g2(2) r(2)]] .
    ultimately show thesis using that [of lx'] g1(1) e(2) g2 r l1 True e(1) by (simp add: parse_exp_def Let_def flip: lx1'_def)
  next
    case False
    then obtain k where k: "sign = [k]" "k = 43 \<or> k = 45" using e(3) by auto
    with l1 have "lx_in lx1' = k # d # ds @ w" by simp
    then obtain lx2 where g2: "get_char lx1' = Some (k, lx2)" "lexed [k] lx1' lx2" "lx_in lx2 = d # ds @ w" "lx_value lx2 = lx_value lx1'" by (rule get_char_Cons)
    then have "lx_in (append_value [k] lx2) = d # ds @ w" by simp
    then obtain lx3 where g3: "get_char (append_value [k] lx2) = Some (d, lx3)" "lexed [d] (append_value [k] lx2) lx3" "lx_in lx3 = ds @ w"
      "lx_value lx3 = lx_value (append_value [k] lx2)" by (rule get_char_Cons)
    from g3(3) e(5,4) assms(3) obtain lx' where r: "exp_digits throw d lx3 = Inr (Some N_floating_point, lx')" "lexed ds lx3 lx'" "lx_value lx' = lx_value lx3 @ d # ds"
      by (rule exp_digits_ok)
    have "lexed ([c] @ [k] @ [d] @ ds) lx lx'"
      using lexed_trans [OF l1(1) lexed_trans [OF g2(2) lexed_trans [OF g3(2) [unfolded lexed_same] r(2)]]] .
    then show thesis using that [of lx'] g1(1) e(2) g2 g3 r l1 k e(1) by (auto simp: parse_exp_def Let_def simp flip: lx1'_def)
  qed
qed

text \<open>The fraction and the integral part.\<close>

lemma number_type_cases: "e = [] \<and> nt' = nt \<or> exp_part e \<and> nt' = N_floating_point
    \<Longrightarrow> nt = (if f \<noteq> [] then N_decimal else N_integer) \<Longrightarrow> nt' = number_type f e \<and> (e = [] \<or> exp_part e)"
  by (auto simp: number_type_def exp_part_def)

lemma parse_fracD:
  assumes "parse_frac throw c lx = Inr (Some nt, lx')" "lx_in lx = c # w" "is_alnum c \<longrightarrow> c \<in> {101, 69}"
  obtains f e where "lexed (f @ e) lx lx'" "lx_value lx' = lx_value lx @ f @ e" "f = [] \<or> frac_part f" "e = [] \<or> exp_part e" "nt = number_type f e"
    "number_end nt (lx_in lx')"
proof (cases "c = 46")
  case False
  then have "parse_exp throw N_integer c lx = Inr (Some nt, lx')" using assms(1) by (simp add: parse_frac_def)
  then obtain e where e: "lexed e lx lx'" "lx_value lx' = lx_value lx @ e" "e = [] \<and> nt = N_integer \<or> exp_part e \<and> nt = N_floating_point"
    "if e = [] then lx' = lx \<and> c \<notin> {101, 69} else number_end N_floating_point (lx_in lx')"
    using assms(2) by (rule parse_expD)
  from number_type_cases [OF e(3), of "[]"] have "nt = number_type [] e" "e = [] \<or> exp_part e" by simp_all
  moreover have "number_end nt (lx_in lx')"
    using e(3,4) assms(2,3) False by (cases "e = []") (auto simp: number_end_def exp_part_def)
  ultimately show thesis using e by (intro that [of "[]" e]) simp_all
next
  case True
  from assms(2) obtain lx1 where g1: "get_char lx = Some (c, lx1)" "lexed [c] lx lx1" "lx_value lx1 = lx_value lx" by (rule get_char_Cons)
  define lx1' where "lx1' = append_value [c] lx1"
  have l1: "lexed [c] lx lx1'" "lx_value lx1' = lx_value lx @ [c]" using g1 by (simp_all add: lx1'_def lexed_same)
  from assms(1) g1 True obtain d lx2 r lx3 where g2: "get_char lx1' = Some (d, lx2)" "is_digit d"
    "digits_loop True (append_value [d] lx2) = (r, lx3)"
    and r: "r = Done \<and> nt = N_decimal \<and> lx' = lx3 \<or> (\<exists>k. r = Next k \<and> parse_exp throw N_decimal k lx3 = Inr (Some nt, lx'))"
    by (auto simp: parse_frac_def Let_def lx1'_def fail_number_def fail_def split: option.splits if_splits prod.splits digits_end.splits)
  note l2 = get_char_SomeD(1,2) [OF g2(1)]
  from g2(3) obtain ds where ds: "lexed ds lx2 lx3" "list_all is_digit ds" "lx_value lx3 = lx_value lx2 @ d # ds" "r = digits_stop True (lx_in lx3)"
    "lx_in lx3 = [] \<or> \<not> is_digit (hd (lx_in lx3))" by (rule digits_loopD) (auto simp: lexed_same)
  have l3: "lexed ([c] @ [d] @ ds) lx lx3" using lexed_trans [OF l1(1) lexed_trans [OF l2(1) ds(1)]] .
  have f: "frac_part (c # d # ds)" using True g2(2) ds(2) by (simp add: frac_part_def)
  from r show thesis
  proof (elim disjE exE conjE)
    assume "r = Done" "nt = N_decimal" "lx' = lx3"
    moreover have "lx_in lx3 = []" using ds(4) \<open>r = Done\<close> digits_stopD(1) by metis
    ultimately show thesis using that [of "c # d # ds" "[]"] l3 f ds l1 l2 by (simp add: number_type_def number_end_def)
  next
    fix k assume k: "r = Next k" "parse_exp throw N_decimal k lx3 = Inr (Some nt, lx')"
    then obtain w' where w': "lx_in lx3 = k # w'" "is_alpha k \<longrightarrow> k = 101 \<or> k = 69" using ds(4) digits_stopD(2) [of True "lx_in lx3" k] by auto
    with k(2) obtain e where e: "lexed e lx3 lx'" "lx_value lx' = lx_value lx3 @ e" "e = [] \<and> nt = N_decimal \<or> exp_part e \<and> nt = N_floating_point"
      "if e = [] then lx' = lx3 \<and> k \<notin> {101, 69} else number_end N_floating_point (lx_in lx')"
      using parse_expD [OF k(2) w'(1)] by blast
    have "number_end nt (lx_in lx')"
      using e(3,4) w' ds(5) by (cases "e = []") (auto simp: number_end_def exp_part_def is_alnum_def)
    from number_type_cases [OF e(3), of "c # d # ds"] have "nt = number_type (c # d # ds) e" "e = [] \<or> exp_part e" by simp_all
    with lexed_trans [OF l3 e(1)] e(2) f ds(3) l1(2) l2(2) \<open>number_end nt (lx_in lx')\<close> show thesis by (intro that [of "c # d # ds" e]) simp_all
  qed
qed

lemma parse_frac_ok:
  assumes "f = [] \<or> frac_part f" "e = [] \<or> exp_part e" "lx_in lx = f @ e @ w" "number_end (number_type f e) w" "f @ e @ w = c # w'"
  obtains lx' where "parse_frac throw c lx = Inr (Some (number_type f e), lx')" "lexed (f @ e) lx lx'" "lx_value lx' = lx_value lx @ f @ e"
proof (cases "f = []")
  case True
  show thesis
  proof (cases "e = []")
    case e: True
    then have "c \<notin> {101, 69, 46}" using number_end_stop(3) [OF assms(4)] assms(4,5) True by (auto simp: number_end_def number_type_def)
    then show thesis using that [of lx] True e by (simp add: parse_frac_def parse_exp_def number_type_def lexed_refl)
  next
    case False
    with assms(2) have e: "exp_part e" by simp
    moreover from assms(3) True have i: "lx_in lx = e @ w" by simp
    moreover have c: "c = hd e" using assms(5) True False by (cases e) auto
    ultimately obtain lx' where "parse_exp throw N_integer c lx = Inr (Some N_floating_point, lx')" "lexed e lx lx'" "lx_value lx' = lx_value lx @ e"
      using parse_exp_ok [OF e i number_end_stop(4) [OF assms(4)] c] by blast
    moreover have "c \<noteq> 46" using c e by (auto simp: exp_part_def)
    ultimately show thesis using that True False by (simp add: parse_frac_def number_type_def)
  qed
next
  case False
  with assms(1) obtain dd where "f = 46 # dd" "dd \<noteq> []" "list_all is_digit dd" by (auto simp: frac_part_def)
  then obtain d ds where f: "f = 46 # d # ds" "is_digit d" "list_all is_digit ds" by (cases dd) auto
  then have c: "c = 46" using assms(5) by simp
  from assms(3) f have "lx_in lx = 46 # d # ds @ e @ w" by simp
  then obtain lx1 where g1: "get_char lx = Some (46, lx1)" "lexed [46] lx lx1" "lx_in lx1 = d # ds @ e @ w" "lx_value lx1 = lx_value lx" by (rule get_char_Cons)
  define lx1' where "lx1' = append_value [46] lx1"
  have l1: "lexed [46] lx lx1'" "lx_value lx1' = lx_value lx @ [46]" "lx_in lx1' = d # ds @ e @ w" using g1 by (simp_all add: lx1'_def lexed_same)
  from l1(3) obtain lx2 where g2: "get_char lx1' = Some (d, lx2)" "lexed [d] lx1' lx2" "lx_in lx2 = ds @ e @ w" "lx_value lx2 = lx_value lx1'" by (rule get_char_Cons)
  have nd: "e @ w = [] \<or> \<not> is_digit (hd (e @ w))"
    using assms(2) number_end_stop(1) [OF assms(4)] by (cases e) (auto simp: exp_part_def is_digit_def)
  from g2(3) have "lx_in (append_value [d] lx2) = ds @ e @ w" by simp
  from this f(3) nd obtain lx3 where g3: "digits_loop True (append_value [d] lx2) = (digits_stop True (e @ w), lx3)"
    "lexed ds (append_value [d] lx2) lx3" "lx_in lx3 = e @ w" "lx_value lx3 = lx_value (append_value [d] lx2) @ ds" by (rule digits_loop_ok)
  have l3: "lexed ([46] @ [d] @ ds) lx lx3" using lexed_trans [OF l1(1) lexed_trans [OF g2(2) g3(2) [unfolded lexed_same]]] .
  note ev = parse_frac_def Let_def c g1(1) f(2) g2(1) g3(1)
  show thesis
  proof (cases "e = []")
    case True
    have "parse_frac throw c lx = Inr (Some N_decimal, lx3)"
      using number_end_stop(2,3) [OF assms(4)] True by (simp add: ev parse_exp_def flip: lx1'_def)
    then show thesis using that [of lx3] l3 l1 g2 g3 f(1) True by (simp add: number_type_def)
  next
    case False
    with assms(2) have e: "exp_part e" by simp
    then have st: "digits_stop True (e @ w) = Next (hd e)" by (auto simp: exp_part_def digits_stop_def)
    from e g3(3) number_end_stop(4) [OF assms(4)] refl obtain lx' where r: "parse_exp throw N_decimal (hd e) lx3 = Inr (Some N_floating_point, lx')"
      "lexed e lx3 lx'" "lx_value lx' = lx_value lx3 @ e" by (rule parse_exp_ok)
    have "parse_frac throw c lx = Inr (Some N_floating_point, lx')" using r(1) by (simp add: ev st flip: lx1'_def)
    then show thesis using that [of lx'] lexed_trans [OF l3 r(2)] r(3) l1 g2 g3 f(1) False by (simp add: number_type_def)
  qed
qed

lemma parse_intD:
  assumes "parse_int throw c lx = Inr (Some nt, lx')"
  obtains i f e where "int_part (c # i)" "lexed (i @ f @ e) lx lx'" "lx_value lx' = lx_value lx @ c # i @ f @ e"
    "f = [] \<or> frac_part f" "e = [] \<or> exp_part e" "nt = number_type f e" "\<not> (c # i = [48] \<and> f = [] \<and> e \<noteq> [])"
    "number_end nt (lx_in lx')"
proof -
  have d: "is_digit c" using assms by (auto simp: parse_int_def fail_number_def fail_def split: if_splits)
  define lx1 where "lx1 = append_value [c] lx"
  show thesis
  proof (cases "c = 48")
    case True
    show thesis
    proof (cases "lx_in lx1")
      case Nil
      then have "nt = N_integer" "lx' = lx1" using assms d True by (simp_all add: parse_int_def Let_def peek_char_def lx1_def)
      then show thesis using that [of "[]" "[]" "[]"] Nil True by (simp add: int_part_def number_type_def number_end_def lx1_def lexed_same lexed_refl)
    next
      case (Cons k w)
      then have k: "\<not> is_alnum k" "parse_frac throw k lx1 = Inr (Some nt, lx')"
        using assms d True by (auto simp: parse_int_def Let_def peek_char_def lx1_def fail_number_def fail_def split: if_splits)
      from k(2) Cons obtain f e where r: "lexed (f @ e) lx1 lx'" "lx_value lx' = lx_value lx1 @ f @ e" "f = [] \<or> frac_part f"
        "e = [] \<or> exp_part e" "nt = number_type f e" "number_end nt (lx_in lx')" by (rule parse_fracD) (use k(1) in blast)
      have "e = []" if "f = []"
      proof (rule ccontr)
        assume "e \<noteq> []"
        with r(4) have "hd e = 101 \<or> hd e = 69" by (auto simp: exp_part_def)
        moreover have "hd e = k" using lexed_in [OF r(1)] Cons that \<open>e \<noteq> []\<close> by (cases e) auto
        ultimately show False using k(1) by (auto simp: is_alnum_def is_alpha_def)
      qed
      then show thesis using that [of "[]" f e] r True by (auto simp: int_part_def lx1_def lexed_same)
    qed
  next
    case False
    obtain r lx2 where g: "digits_loop True lx1 = (r, lx2)"
      and r: "r = Done \<and> nt = N_integer \<and> lx' = lx2 \<or> (\<exists>k. r = Next k \<and> parse_frac throw k lx2 = Inr (Some nt, lx'))"
      using assms d False by (auto simp: parse_int_def Let_def lx1_def fail_number_def fail_def split: if_splits prod.splits digits_end.splits)
    from g obtain ds where ds: "lexed ds lx1 lx2" "list_all is_digit ds" "lx_value lx2 = lx_value lx1 @ ds" "r = digits_stop True (lx_in lx2)"
      "lx_in lx2 = [] \<or> \<not> is_digit (hd (lx_in lx2))" by (rule digits_loopD)
    have i: "int_part (c # ds)" using False d ds(2) by (auto simp: int_part_def)
    from r show thesis
    proof (elim disjE exE conjE)
      assume "r = Done" "nt = N_integer" "lx' = lx2"
      moreover have "lx_in lx2 = []" using ds(4) \<open>r = Done\<close> digits_stopD(1) by metis
      ultimately show thesis using that [of ds "[]" "[]"] i ds False by (simp add: number_type_def number_end_def lx1_def lexed_same)
    next
      fix k assume k: "r = Next k" "parse_frac throw k lx2 = Inr (Some nt, lx')"
      then obtain w' where w': "lx_in lx2 = k # w'" "is_alpha k \<longrightarrow> k = 101 \<or> k = 69" using ds(4) digits_stopD(2) [of True "lx_in lx2" k] by auto
      have "is_alnum k \<longrightarrow> k \<in> {101, 69}" using w' ds(5) by (auto simp: is_alnum_def)
      with k(2) w'(1) obtain f e where e: "lexed (f @ e) lx2 lx'" "lx_value lx' = lx_value lx2 @ f @ e" "f = [] \<or> frac_part f"
        "e = [] \<or> exp_part e" "nt = number_type f e" "number_end nt (lx_in lx')" by (rule parse_fracD)
      then show thesis using that [of ds f e] i lexed_trans [OF ds(1) e(1)] ds False by (simp add: lx1_def lexed_same)
    qed
  qed
qed

lemma int_part_cases: "int_part w \<Longrightarrow> (\<exists>c i. w = c # i \<and> is_digit c \<and> list_all is_digit i \<and> (c = 48 \<longrightarrow> i = []))"
  by (auto simp: int_part_def is_digit_def)

lemma parse_int_ok:
  assumes "int_part (c # i)" "f = [] \<or> frac_part f" "e = [] \<or> exp_part e" "lx_in lx = i @ f @ e @ w" "number_end (number_type f e) w"
    "\<not> (c # i = [48] \<and> f = [] \<and> e \<noteq> [])"
  obtains lx' where "parse_int throw c lx = Inr (Some (number_type f e), lx')" "lexed (i @ f @ e) lx lx'" "lx_value lx' = lx_value lx @ c # i @ f @ e"
proof -
  have d: "is_digit c" "list_all is_digit i" "c = 48 \<longrightarrow> i = []" using int_part_cases [OF assms(1)] by auto
  define lx1 where "lx1 = append_value [c] lx"
  have i1: "lx_in lx1 = i @ f @ e @ w" using assms(4) by (simp add: lx1_def)
  have fe: "f @ e @ w = [] \<or> \<not> is_digit (hd (f @ e @ w)) \<and> (is_alpha (hd (f @ e @ w)) \<longrightarrow> f = [] \<and> e \<noteq> [] \<and> hd e \<in> {101, 69})"
  proof (cases "f = []")
    case f: True
    show ?thesis
    proof (cases "e = []")
      case True
      then show ?thesis using f assms(5) by (auto simp: number_end_def is_alnum_def)
    next
      case False
      with assms(3) show ?thesis using f by (auto simp: exp_part_def is_digit_def is_alpha_def)
    qed
  next
    case False
    with assms(2) show ?thesis by (auto simp: frac_part_def is_digit_def is_alpha_def)
  qed
  have e0: "f = []" "e = []" if "f @ e @ w = []" using that by simp_all
  show thesis
  proof (cases "c = 48")
    case True
    then have i2: "lx_in lx1 = f @ e @ w" "lx_in lx = f @ e @ w" using i1 d(3) assms(4) by simp_all
    show thesis
    proof (cases "f @ e @ w")
      case Nil
      have "parse_int throw c lx = Inr (Some N_integer, lx1)" using d True i2 Nil by (simp add: parse_int_def Let_def peek_char_def lx1_def)
      then show thesis using that [of lx1] e0 Nil d True by (simp add: number_type_def lx1_def lexed_same lexed_refl)
    next
      case (Cons k w')
      have k: "\<not> is_alnum k" using fe Cons assms(6) d(3) True by (auto simp: is_alnum_def)
      from assms(2,3) i2(1) assms(5) Cons obtain lx' where r: "parse_frac throw k lx1 = Inr (Some (number_type f e), lx')" "lexed (f @ e) lx1 lx'"
        "lx_value lx' = lx_value lx1 @ f @ e" by (rule parse_frac_ok)
      have "parse_int throw c lx = Inr (Some (number_type f e), lx')"
        using d True i2 Cons k r(1) by (simp add: parse_int_def Let_def peek_char_def lx1_def)
      then show thesis using that [of lx'] r d True by (simp add: lx1_def lexed_same)
    qed
  next
    case False
    from fe have fe1: "f @ e @ w = [] \<or> \<not> is_digit (hd (f @ e @ w))" by blast
    from i1 d(2) fe1 obtain lx2 where g: "digits_loop True lx1 = (digits_stop True (f @ e @ w), lx2)" "lexed i lx1 lx2" "lx_in lx2 = f @ e @ w"
      "lx_value lx2 = lx_value lx1 @ i" by (rule digits_loop_ok)
    show thesis
    proof (cases "f @ e @ w")
      case Nil
      have "parse_int throw c lx = Inr (Some N_integer, lx2)"
        using d False g(1) Nil by (simp add: parse_int_def Let_def digits_stop_def flip: lx1_def)
      then show thesis using that [of lx2] e0 Nil g by (simp add: number_type_def lx1_def lexed_same)
    next
      case (Cons k w')
      have "is_alpha k \<longrightarrow> k = 101 \<or> k = 69" using fe Cons by (cases e) auto
      then have st: "digits_stop True (f @ e @ w) = Next k" using Cons by (auto simp: digits_stop_def)
      from assms(2,3) g(3) assms(5) Cons obtain lx' where r: "parse_frac throw k lx2 = Inr (Some (number_type f e), lx')" "lexed (f @ e) lx2 lx'"
        "lx_value lx' = lx_value lx2 @ f @ e" by (rule parse_frac_ok)
      have "parse_int throw c lx = Inr (Some (number_type f e), lx')"
        using d False g(1) st r(1) by (simp add: parse_int_def Let_def flip: lx1_def)
      then show thesis using that [of lx'] r lexed_trans [OF g(2) r(2)] g by (simp add: lx1_def lexed_same)
    qed
  qed
qed

lemma parse_numberD:
  assumes "parse_number throw c lx = Inr (Some nt, lx')"
  obtains w where "json_number nt (c # w)" "lexed w lx lx'" "lx_value lx' = c # w" "number_end nt (lx_in lx')"
proof (cases "c = 45")
  case True
  define lx1 where "lx1 = append_value [c] (lx\<lparr>lx_value := []\<rparr>)"
  obtain d lx2 where g: "get_char lx1 = Some (d, lx2)" "parse_int throw d lx2 = Inr (Some nt, lx')"
    using assms True by (auto simp: parse_number_def Let_def lx1_def fail_number_def fail_def split: option.splits if_splits)
  note l = get_char_SomeD(1,2) [OF g(1)]
  from g(2) obtain i f e where r: "int_part (d # i)" "lexed (i @ f @ e) lx2 lx'" "lx_value lx' = lx_value lx2 @ d # i @ f @ e"
    "f = [] \<or> frac_part f" "e = [] \<or> exp_part e" "nt = number_type f e" "\<not> (d # i = [48] \<and> f = [] \<and> e \<noteq> [])"
    "number_end nt (lx_in lx')" by (rule parse_intD)
  have "json_number nt (c # d # i @ f @ e)" unfolding json_number_def number_parts_def
    by (rule exI [of _ "[c]"], rule exI [of _ "d # i"], rule exI [of _ f], rule exI [of _ e]) (use r True in simp)
  then show thesis using that [of "d # i @ f @ e"] lexed_trans [OF l(1) r(2)] r(3,8) l(2) by (simp add: lx1_def lexed_same)
next
  case False
  then have "parse_int throw c (lx\<lparr>lx_value := []\<rparr>) = Inr (Some nt, lx')" using assms by (simp add: parse_number_def Let_def)
  then obtain i f e where r: "int_part (c # i)" "lexed (i @ f @ e) (lx\<lparr>lx_value := []\<rparr>) lx'" "lx_value lx' = lx_value (lx\<lparr>lx_value := []\<rparr>) @ c # i @ f @ e"
    "f = [] \<or> frac_part f" "e = [] \<or> exp_part e" "nt = number_type f e" "\<not> (c # i = [48] \<and> f = [] \<and> e \<noteq> [])"
    "number_end nt (lx_in lx')" by (rule parse_intD)
  have "json_number nt (c # i @ f @ e)" unfolding json_number_def number_parts_def
    by (rule exI [of _ "[]"], rule exI [of _ "c # i"], rule exI [of _ f], rule exI [of _ e]) (use r in simp)
  then show thesis using that [of "i @ f @ e"] r by (simp add: lexed_same)
qed

lemma parse_number_ok:
  assumes "json_number nt (c # v)" "lx_in lx = v @ w" "number_end nt w"
  obtains lx' where "parse_number throw c lx = Inr (Some nt, lx')" "lexed v lx lx'" "lx_value lx' = c # v"
proof -
  obtain s i f e where r: "c # v = s @ i @ f @ e" "s \<in> {[], [45]}" "int_part i" "f = [] \<or> frac_part f" "e = [] \<or> exp_part e"
    "nt = number_type f e" "\<not> (i = [48] \<and> f = [] \<and> e \<noteq> [])" using assms(1) unfolding json_number_def number_parts_def by blast
  obtain d i' where i: "i = d # i'" "is_digit d" using int_part_cases [OF r(3)] by auto
  have ip: "int_part (d # i')" "\<not> (d # i' = [48] \<and> f = [] \<and> e \<noteq> [])" using r i by simp_all
  define lx0 where "lx0 = lx\<lparr>lx_value := []\<rparr>"
  show thesis
  proof (cases "s = []")
    case True
    then have v: "c = d" "v = i' @ f @ e" using r(1) i by simp_all
    have "lx_in lx0 = i' @ f @ e @ w" using assms(2) v by (simp add: lx0_def)
    with ip(1) r(4,5) obtain lx' where "parse_int throw d lx0 = Inr (Some (number_type f e), lx')" "lexed (i' @ f @ e) lx0 lx'"
      "lx_value lx' = lx_value lx0 @ d # i' @ f @ e" using assms(3) [unfolded r(6)] ip(2) by (rule parse_int_ok)
    moreover have "c \<noteq> 45" using v i by (auto simp: is_digit_def)
    ultimately show thesis using that [of lx'] v r(6) by (simp add: parse_number_def Let_def lx0_def lexed_same)
  next
    case False
    then have v: "c = 45" "v = d # i' @ f @ e" using r(1,2) i by auto
    define lx1 where "lx1 = append_value [45] lx0"
    have "lx_in lx1 = d # i' @ f @ e @ w" using assms(2) v by (simp add: lx0_def lx1_def)
    then obtain lx2 where g: "get_char lx1 = Some (d, lx2)" "lexed [d] lx1 lx2" "lx_in lx2 = i' @ f @ e @ w" "lx_value lx2 = lx_value lx1"
      by (rule get_char_Cons)
    from ip(1) r(4,5) g(3) assms(3) [unfolded r(6)] ip(2) obtain lx' where r2: "parse_int throw d lx2 = Inr (Some (number_type f e), lx')" "lexed (i' @ f @ e) lx2 lx'"
      "lx_value lx' = lx_value lx2 @ d # i' @ f @ e" by (rule parse_int_ok)
    have "parse_number throw c lx = Inr (Some nt, lx')" using v r(6) g(1) r2(1) by (simp add: parse_number_def Let_def lx0_def lx1_def)
    then show thesis using that [of lx'] lexed_trans [OF g(2) r2(2)] g(4) r2(3) v by (simp add: lx0_def lx1_def lexed_same)
  qed
qed

section \<open>Literals\<close>

lemma match_rest_ok:
  assumes "lx_in lx = s @ w" obtains lx' where "match_rest s lx = Inr lx'" "lexed s lx lx'" "lx_in lx' = w" "lx_value lx' = lx_value lx"
  using assms
proof (induction s arbitrary: lx thesis)
  case (Cons c s)
  from Cons.prems(2) have "lx_in lx = c # (s @ w)" by simp
  then obtain lx1 where g: "get_char lx = Some (c, lx1)" "lexed [c] lx lx1" "lx_in lx1 = s @ w" "lx_value lx1 = lx_value lx" by (rule get_char_Cons)
  from Cons.IH [OF _ g(3)] obtain lx2 where r: "match_rest s lx1 = Inr lx2" "lexed s lx1 lx2" "lx_in lx2 = w" "lx_value lx2 = lx_value lx1" by blast
  then show ?case using Cons.prems(1) [of lx2] g lexed_trans [OF g(2) r(2)] by simp
qed (simp add: lexed_refl)

lemma match_restD:
  assumes "match_rest s lx = Inr lx'" shows "lexed s lx lx' \<and> lx_value lx' = lx_value lx"
  using assms
proof (induction s arbitrary: lx)
  case (Cons c s)
  then obtain lx1 where g: "get_char lx = Some (c, lx1)" "match_rest s lx1 = Inr lx'" by (auto split: option.splits if_splits)
  from Cons.IH [OF g(2)] get_char_SomeD [OF g(1)] show ?case using lexed_trans [of "[c]" lx lx1 s lx'] by simp
qed (simp add: lexed_refl)

text \<open>What may stand behind a literal: no letter, no digit and no underscore.\<close>

definition literal_end :: "byte list \<Rightarrow> bool" where
  "literal_end w \<longleftrightarrow> w = [] \<or> \<not> is_alnum (hd w) \<and> hd w \<noteq> 95"

definition literal_type :: "byte \<Rightarrow> token_type" where
  "literal_type c = (if c = 102 then T_false else if c = 110 then T_null else T_true)"

lemma char_codes: "of_char CHR ''f'' = (102 :: byte)" "of_char CHR ''n'' = (110 :: byte)" "of_char CHR ''t'' = (116 :: byte)"
  "of_char CHR ''_'' = (95 :: byte)" "of_char CHR ''-'' = (45 :: byte)" "of_char CHR 0x22 = (34 :: byte)"
  by simp_all

lemma parse_literal_eq: "parse_literal throw c lx =
    (case match_rest (tl (literal_text (literal_type c))) (lx\<lparr>lx_value := literal_text (literal_type c)\<rparr>) of
       Inl (prev, lx) \<Rightarrow> fail_literal throw prev lx
     | Inr lx \<Rightarrow> (case peek_char lx of None \<Rightarrow> Inr (Some (literal_type c), lx)
        | Some c' \<Rightarrow> if is_alnum c' \<or> c' = 95 then fail_literal throw False lx else Inr (Some (literal_type c), lx)))"
  by (simp only: parse_literal_def literal_type_def Let_def char_codes)

lemma parse_literalD:
  assumes "parse_literal throw c lx = Inr (Some tt, lx')"
  shows "tt = literal_type c \<and> lexed (tl (literal_text tt)) lx lx' \<and> lx_value lx' = literal_text tt \<and> literal_end (lx_in lx')"
  using assms by (auto simp: parse_literal_eq fail_literal_def fail_def lexed_same literal_end_def peek_char_eq
      split: sum.splits option.splits if_splits list.splits dest!: match_restD)

lemma parse_literal_ok:
  assumes "tt = literal_type c" "lx_in lx = tl (literal_text tt) @ w" "literal_end w"
  obtains lx' where "parse_literal throw c lx = Inr (Some tt, lx')" "lexed (tl (literal_text tt)) lx lx'" "lx_value lx' = literal_text tt"
proof -
  define lx0 where "lx0 = lx\<lparr>lx_value := literal_text tt\<rparr>"
  from assms(2) have "lx_in lx0 = tl (literal_text tt) @ w" by (simp add: lx0_def)
  then obtain lx' where r: "match_rest (tl (literal_text tt)) lx0 = Inr lx'" "lexed (tl (literal_text tt)) lx0 lx'" "lx_in lx' = w"
    "lx_value lx' = lx_value lx0" by (rule match_rest_ok)
  have "parse_literal throw c lx = Inr (Some tt, lx')"
    using r assms(3) unfolding parse_literal_eq assms(1) [symmetric] lx0_def [symmetric]
    by (cases w) (simp_all add: peek_char_def literal_end_def)
  then show thesis using that [of lx'] r by (simp add: lx0_def lexed_same)
qed

section \<open>Tokens\<close>

text \<open>The text of a token of a type, with its value; tokens that have no value have the empty one.\<close>

definition structural_text :: "token_type \<Rightarrow> byte list" where
  "structural_text tt = map of_char (case tt of Begin_array \<Rightarrow> ''['' | Begin_object \<Rightarrow> ''{'' | End_array \<Rightarrow> '']'' | End_object \<Rightarrow> ''}''
    | Name_separator \<Rightarrow> '':'' | Value_separator \<Rightarrow> '','' | _ \<Rightarrow> [])"

definition lexeme :: "token_type \<Rightarrow> numeric_type \<Rightarrow> byte list \<Rightarrow> byte list \<Rightarrow> bool" where
  "lexeme tt nt v w \<longleftrightarrow> (case tt of T_none \<Rightarrow> False
    | T_string \<Rightarrow> nt = Non_numeric \<and> (\<exists>b. w = 0x22 # b @ [0x22] \<and> string_body b v)
    | T_number \<Rightarrow> json_number nt w \<and> v = w
    | T_false \<Rightarrow> nt = Non_numeric \<and> w = literal_text tt \<and> v = w
    | T_null \<Rightarrow> nt = Non_numeric \<and> w = literal_text tt \<and> v = w
    | T_true \<Rightarrow> nt = Non_numeric \<and> w = literal_text tt \<and> v = w
    | _ \<Rightarrow> nt = Non_numeric \<and> w = structural_text tt \<and> v = [])"

text \<open>What may stand behind the text of a token.\<close>

definition token_end :: "token_type \<Rightarrow> numeric_type \<Rightarrow> byte list \<Rightarrow> bool" where
  "token_end tt nt rest \<longleftrightarrow> (tt = T_number \<longrightarrow> number_end nt rest) \<and> (tt \<in> {T_false, T_null, T_true} \<longrightarrow> literal_end rest)"

definition cleared :: "token \<Rightarrow> bool" where
  "cleared t \<longleftrightarrow> tok_numeric t = Non_numeric \<and> tok_value t = []"

definition location_of :: "string \<Rightarrow> u32 \<times> column \<Rightarrow> u32 \<times> column \<Rightarrow> location" where
  "location_of f p q = \<lparr>loc_file = f, loc_line = fst p, loc_column = snd p, loc_line_end = fst q, loc_column_end = snd q\<rparr>"

lemma set_range_of: "set_range (fst p) (snd p) (fst q) (snd q) loc = location_of (loc_file loc) p q"
  by (simp add: set_range_def location_of_def)

lemma skip_ws:
  assumes "lx_in lx = ws @ w" "list_all is_ws ws"
  obtains lx' where "lexer_next throw t lx = lexer_next throw t lx'" "lexed ws lx lx'" "lx_in lx' = w"
  using assms
proof (induction ws arbitrary: lx thesis)
  case Nil
  then show ?case by (simp add: lexed_refl)
next
  case (Cons c ws)
  from Cons.prems(2) have "lx_in (set_cur_loc lx) = c # (ws @ w)" by simp
  then obtain lx1 where g: "get_char (set_cur_loc lx) = Some (c, lx1)" "lexed [c] (set_cur_loc lx) lx1" "lx_in lx1 = ws @ w"
    by (rule get_char_Cons)
  from Cons.IH [OF _ g(3)] Cons.prems(3) obtain lx2 where r: "lexer_next throw t lx1 = lexer_next throw t lx2" "lexed ws lx1 lx2" "lx_in lx2 = w" by auto
  have "lexer_next throw t lx = lexer_next throw t lx1" using g(1) Cons.prems(3) by (subst lexer_next.simps) simp
  then show ?case using Cons.prems(1) [of lx2] r lexed_trans [OF g(2) [unfolded lexed_same] r(2)] by simp
qed

text \<open>The state in which the first character of a token has been read.\<close>

lemma first_char:
  assumes "lx_in lx = c # w"
  obtains lx1 where "get_char (set_cur_loc lx) = Some (c, lx1)" "lexed [c] lx lx1" "lx_in lx1 = w"
    "lx_cur_loc lx1 = location_of (loc_file (lx_cur_loc lx)) (lx_pos lx) (lx_pos lx)"
proof -
  from assms have "lx_in (set_cur_loc lx) = c # w" by simp
  then obtain lx1 where "get_char (set_cur_loc lx) = Some (c, lx1)" "lexed [c] (set_cur_loc lx) lx1" "lx_in lx1 = w"
    "lx_cur_loc lx1 = lx_cur_loc (set_cur_loc lx)" by (rule get_char_Cons)
  moreover have "lx_cur_loc (set_cur_loc lx) = location_of (loc_file (lx_cur_loc lx)) (lx_pos lx) (lx_pos lx)"
    using set_range_of [of "lx_pos lx" "lx_pos lx" "lx_cur_loc lx"] by (simp add: set_cur_loc_def lx_pos_def)
  ultimately show thesis using that by (simp add: lexed_same)
qed

text \<open>Between the first character and the end of the token only the end of the location is found out.\<close>

lemma range_location:
  assumes "lexed [c] lx lx1" "lx_cur_loc lx1 = location_of f p p" "lexed w lx1 lx'"
  shows "set_range (fst p) (snd p) (lx_prev_line lx') (lx_prev_col lx') (lx_cur_loc lx')
    = location_of f p (pos_after (butlast (c # w)) (lx_pos lx))"
proof -
  have "lexed (c # w) lx lx'" using lexed_trans [OF assms(1,3)] by simp
  then have "lx_prev lx' = pos_after (butlast (c # w)) (lx_pos lx)" "loc_file (lx_cur_loc lx') = loc_file (lx_cur_loc lx)" by (simp_all add: lexed_def)
  moreover have "loc_file (lx_cur_loc lx) = f" using assms(1,2) by (simp add: lexed_def location_of_def)
  ultimately show ?thesis using set_range_of [of p "lx_prev lx'" "lx_cur_loc lx'"] by (metis fst_conv snd_conv lx_prev_def)
qed

lemma cur_loc_append [simp]: "lx_cur_loc (append_value s lx) = lx_cur_loc lx"
  by (simp add: append_value_def)

lemma cur_loc_digits: "digits_loop a lx = (r, lx') \<Longrightarrow> lx_cur_loc lx' = lx_cur_loc lx"
proof (induction a lx arbitrary: r rule: digits_loop.induct)
  case (1 a lx)
  show ?case
  proof (cases "\<exists>c lx1. peek_char lx = Some c \<and> is_digit c \<and> get_char lx = Some (c, lx1)")
    case True
    then obtain c lx1 where c: "peek_char lx = Some c" "is_digit c" "get_char lx = Some (c, lx1)" by blast
    have a: "\<not> is_alpha c" using c(2) by (auto simp: is_digit_def is_alpha_def word_le_nat_alt)
    have "digits_loop a lx = digits_loop a (append_value [c] lx1)" using c a by (subst digits_loop.simps) simp
    with "1.IH" [OF c(1) _ _ c(3) refl] "1.prems" a c show ?thesis using get_char_SomeD(3) [OF c(3)] by simp
  next
    case False
    then have "lx' = lx" using "1.prems"
      by (subst (asm) digits_loop.simps) (auto simp: peek_char_def get_char_def Let_def split: list.splits if_splits)
    then show ?thesis by simp
  qed
qed

lemma cur_loc_exp_digits: "exp_digits throw c lx = Inr (Some nt, lx') \<Longrightarrow> lx_cur_loc lx' = lx_cur_loc lx"
  by (auto simp: exp_digits_def fail_number_def fail_def split: if_splits prod.splits digits_end.splits dest!: cur_loc_digits)

lemma cur_loc_exp: "parse_exp throw n c lx = Inr (Some nt, lx') \<Longrightarrow> lx_cur_loc lx' = lx_cur_loc lx"
  by (auto simp: parse_exp_def Let_def fail_number_def fail_def split: if_splits option.splits
      dest!: cur_loc_exp_digits get_char_SomeD(3))

lemma cur_loc_frac: "parse_frac throw c lx = Inr (Some nt, lx') \<Longrightarrow> lx_cur_loc lx' = lx_cur_loc lx"
  by (auto simp: parse_frac_def Let_def fail_number_def fail_def split: if_splits option.splits prod.splits digits_end.splits
      dest!: cur_loc_exp cur_loc_digits get_char_SomeD(3))

lemma cur_loc_int: "parse_int throw c lx = Inr (Some nt, lx') \<Longrightarrow> lx_cur_loc lx' = lx_cur_loc lx"
  by (auto simp: parse_int_def Let_def fail_number_def fail_def split: if_splits option.splits prod.splits digits_end.splits
      dest!: cur_loc_frac cur_loc_digits)

lemma cur_loc_number: "parse_number throw c lx = Inr (Some nt, lx') \<Longrightarrow> lx_cur_loc lx' = lx_cur_loc lx"
  by (auto simp: parse_number_def Let_def fail_number_def fail_def split: if_splits option.splits
      dest!: cur_loc_int get_char_SomeD(3))

lemma cur_loc_match: "match_rest s lx = Inr lx' \<Longrightarrow> lx_cur_loc lx' = lx_cur_loc lx"
  by (induction s arbitrary: lx) (auto split: option.splits if_splits dest: get_char_SomeD(3))

lemma cur_loc_literal: "parse_literal throw c lx = Inr (Some tt, lx') \<Longrightarrow> lx_cur_loc lx' = lx_cur_loc lx"
  by (auto simp: parse_literal_eq fail_literal_def fail_def split: sum.splits option.splits if_splits dest!: cur_loc_match)

text \<open>The kinds of first characters are disjoint.\<close>

definition starts_number :: "byte \<Rightarrow> bool" where "starts_number c \<longleftrightarrow> c = 45 \<or> is_digit c"
definition starts_literal :: "byte \<Rightarrow> bool" where "starts_literal c \<longleftrightarrow> c = 102 \<or> c = 110 \<or> c = 116"

definition token_at :: "token \<Rightarrow> lexer \<Rightarrow> byte list \<Rightarrow> bool" where
  "token_at t lx w \<longleftrightarrow> tok_loc t = location_of (loc_file (lx_cur_loc lx)) (lx_pos lx) (pos_after (butlast w) (lx_pos lx))"

lemma next_string:
  assumes "get_char (set_cur_loc lx) = Some (34, lx1)"
  shows "lexer_next throw t lx = bindE (parse_string throw lx1) (\<lambda>(r, lx').
    case r of None \<Rightarrow> Inr (False, t, lx')
    | Some _ \<Rightarrow> Inr (True, t\<lparr>tok_value := lx_value lx', tok_type := T_string,
        tok_loc := set_range (loc_line (lx_cur_loc lx1)) (loc_column (lx_cur_loc lx1)) (lx_prev_line lx') (lx_prev_col lx') (lx_cur_loc lx')\<rparr>, lx'))"
  using assms by (subst lexer_next.simps) (simp add: is_ws_def)

lemma next_number:
  assumes "get_char (set_cur_loc lx) = Some (c, lx1)" "starts_number c"
  shows "lexer_next throw t lx = bindE (parse_number throw c lx1) (\<lambda>(r, lx').
    case r of None \<Rightarrow> Inr (False, t, lx')
    | Some nt \<Rightarrow> Inr (True, t\<lparr>tok_value := lx_value lx', tok_numeric := nt, tok_type := T_number, tok_loc := set_loc_range lx'\<rparr>, lx'))"
proof -
  have "\<not> is_ws c" "c \<noteq> 34" using assms(2) by (auto simp: is_ws_def starts_number_def is_digit_def)
  then show ?thesis using assms by (subst lexer_next.simps) (simp add: starts_number_def)
qed

lemma next_literal:
  assumes "get_char (set_cur_loc lx) = Some (c, lx1)" "starts_literal c"
  shows "lexer_next throw t lx = bindE (parse_literal throw c lx1) (\<lambda>(r, lx').
    case r of None \<Rightarrow> Inr (False, t, lx')
    | Some tt \<Rightarrow> Inr (True, t\<lparr>tok_value := lx_value lx', tok_type := tt, tok_loc := set_loc_range lx'\<rparr>, lx'))"
proof -
  have "\<not> is_ws c" "c \<noteq> 34" "c \<noteq> 45" "\<not> is_digit c" using assms(2) by (auto simp: is_ws_def starts_literal_def is_digit_def)
  then show ?thesis using assms by (subst lexer_next.simps) (simp add: starts_literal_def)
qed

lemma next_structural:
  assumes "get_char (set_cur_loc lx) = Some (c, lx1)" "\<not> is_ws c" "c \<noteq> 34" "\<not> starts_number c" "\<not> starts_literal c"
  shows "lexer_next throw t lx = (case structural c of Some tt \<Rightarrow> Inr (True, t\<lparr>tok_type := tt, tok_loc := lx_cur_loc lx1\<rparr>, lx1)
     | None \<Rightarrow> if throw then Inl (Illegal_character (lx_cur_loc lx1) c) else Inr (False, t, lx1))"
  using assms by (subst lexer_next.simps) (simp add: starts_literal_def starts_number_def)

lemma structural_iff: "structural c = Some tt \<longleftrightarrow> structural_text tt = [c]"
  by (auto simp: structural_def structural_text_def split: token_type.splits)

lemma structural_types: "structural_text tt = [c] \<Longrightarrow> tt \<notin> {T_none, T_string, T_number, T_false, T_null, T_true}"
  by (auto simp: structural_text_def)

lemma lexeme_structural: "structural_text tt = [c] \<Longrightarrow> lexeme tt Non_numeric [] [c]"
  by (auto simp: lexeme_def structural_text_def split: token_type.splits)

lemma loc_range_at:
  assumes "lexed [c] lx lx1" "lx_cur_loc lx1 = location_of (loc_file (lx_cur_loc lx)) (lx_pos lx) (lx_pos lx)" "lexed w lx1 lx'"
  shows "set_range (loc_line (lx_cur_loc lx1)) (loc_column (lx_cur_loc lx1)) (lx_prev_line lx') (lx_prev_col lx') (lx_cur_loc lx')
    = location_of (loc_file (lx_cur_loc lx)) (lx_pos lx) (pos_after (butlast (c # w)) (lx_pos lx))"
  using range_location [OF assms] assms(2) by (simp add: location_of_def)

lemma next_first_sound:
  assumes lx: "lx_in lx = c # w" "\<not> is_ws c" and n: "lexer_next throw t0 lx = Inr (True, t, lx')" and t0: "cleared t0"
  shows "\<exists>v. lexeme (tok_type t) (tok_numeric t) (tok_value t) v \<and> lexed v lx lx' \<and> token_at t lx v
    \<and> token_end (tok_type t) (tok_numeric t) (lx_in lx')"
proof -
  from lx(1) obtain lx1 where g: "get_char (set_cur_loc lx) = Some (c, lx1)" "lexed [c] lx lx1" "lx_in lx1 = w"
    "lx_cur_loc lx1 = location_of (loc_file (lx_cur_loc lx)) (lx_pos lx) (lx_pos lx)" by (rule first_char)
  note at = loc_range_at [OF g(2,4)]
  consider (String) "c = 34" | (Number) "starts_number c" | (Literal) "starts_literal c"
    | (Struct) "c \<noteq> 34" "\<not> starts_number c" "\<not> starts_literal c" by blast
  then show ?thesis
  proof cases
    case String
    then obtain r where p: "parse_string throw lx1 = Inr (Some r, lx')" and t: "t = t0\<lparr>tok_value := lx_value lx', tok_type := T_string,
        tok_loc := set_range (loc_line (lx_cur_loc lx1)) (loc_column (lx_cur_loc lx1)) (lx_prev_line lx') (lx_prev_col lx') (lx_cur_loc lx')\<rparr>"
      using n next_string [of lx lx1 throw t0] g(1) by (auto simp: bindE_eq_Inr split: option.splits)
    from p obtain b v where b: "string_body b v" "lexed (b @ [34]) lx1 lx'" "lx_value lx' = v"
      using string_loopD [of throw "lx_cur_loc lx1" False "lx1\<lparr>lx_value := []\<rparr>" lx'] by (auto simp: parse_string_def lexed_same)
    have "lexed (34 # b @ [34]) lx lx'" using lexed_trans [OF g(2) b(2)] String by simp
    then show ?thesis using b t t0 at [OF b(2)] String
      by (intro exI [of _ "34 # b @ [34]"]) (auto simp: lexeme_def token_at_def cleared_def token_end_def)
  next
    case Number
    then obtain nt where p: "parse_number throw c lx1 = Inr (Some nt, lx')"
      and t: "t = t0\<lparr>tok_value := lx_value lx', tok_numeric := nt, tok_type := T_number, tok_loc := set_loc_range lx'\<rparr>"
      using n next_number [OF g(1) Number, of throw t0] by (auto simp: bindE_eq_Inr split: option.splits)
    from p obtain v where v: "json_number nt (c # v)" "lexed v lx1 lx'" "lx_value lx' = c # v"
      "number_end nt (lx_in lx')" by (rule parse_numberD)
    have "lexed (c # v) lx lx'" using lexed_trans [OF g(2) v(2)] by simp
    then show ?thesis using v t at [OF v(2)] cur_loc_number [OF p]
      by (intro exI [of _ "c # v"]) (simp add: lexeme_def token_at_def set_loc_range_def token_end_def)
  next
    case Literal
    then obtain tt where p: "parse_literal throw c lx1 = Inr (Some tt, lx')"
      and t: "t = t0\<lparr>tok_value := lx_value lx', tok_type := tt, tok_loc := set_loc_range lx'\<rparr>"
      using n next_literal [OF g(1) Literal, of throw t0] by (auto simp: bindE_eq_Inr split: option.splits)
    from parse_literalD [OF p] have v: "tt = literal_type c" "lexed (tl (literal_text tt)) lx1 lx'" "lx_value lx' = literal_text tt"
      "literal_end (lx_in lx')" by blast+
    have l: "literal_text tt = c # tl (literal_text tt)" "tt \<in> {T_false, T_null, T_true}"
      using v(1) Literal by (auto simp: literal_type_def starts_literal_def literal_text_def)
    have "lexed (literal_text tt) lx lx'" using lexed_trans [OF g(2) v(2)] l(1) by simp
    moreover have "token_at t lx (literal_text tt)" using t at [OF v(2), unfolded l(1) [symmetric]] cur_loc_literal [OF p]
      by (simp add: token_at_def set_loc_range_def)
    ultimately show ?thesis using v(3,4) t t0 l(2)
      by (intro exI [of _ "literal_text tt"]) (auto simp: lexeme_def cleared_def token_end_def)
  next
    case Struct
    note e = next_structural [OF g(1) lx(2) Struct, of throw t0, unfolded n]
    show ?thesis
    proof (cases "structural c")
      case None
      with e show ?thesis by (simp split: if_splits)
    next
      case (Some tt)
      with e have s: "t = t0\<lparr>tok_type := tt, tok_loc := lx_cur_loc lx1\<rparr>" "lx' = lx1" by simp_all
      have "lexeme tt Non_numeric [] [c]" using Some by (intro lexeme_structural) (simp add: structural_iff)
      moreover have "token_end tt nt lx_rest" for nt lx_rest
        using structural_types [of tt c] Some by (auto simp: structural_iff token_end_def)
      ultimately show ?thesis using s g(2,4) t0 by (intro exI [of _ "[c]"]) (simp add: token_at_def cleared_def)
    qed
  qed
qed

lemma lexeme_first:
  assumes "lexeme tt nt v w" obtains c w' where "w = c # w'" "\<not> is_ws c"
proof -
  have "w \<noteq> [] \<and> \<not> is_ws (hd w)"
  proof (cases "tt = T_number")
    case True
    then obtain s i f e where "w = s @ i @ f @ e" "s \<in> {[], [45]}" "int_part i" using assms
      by (auto simp: lexeme_def json_number_def number_parts_def)
    then show ?thesis by (auto simp: int_part_def is_digit_def is_ws_def)
  next
    case False
    then show ?thesis using assms by (auto simp: lexeme_def structural_text_def literal_text_def is_ws_def split: token_type.splits)
  qed
  then show thesis using that by (cases w) auto
qed


lemma next_first_complete:
  assumes l: "lexeme tt nt v w" and lx: "lx_in lx = w @ rest" and fo: "token_end tt nt rest" and t0: "cleared t0"
  shows "\<exists>t lx'. lexer_next throw t0 lx = Inr (True, t, lx') \<and> tok_type t = tt \<and> tok_numeric t = nt \<and> tok_value t = v \<and> lexed w lx lx'"
proof -
  obtain c w' where w: "w = c # w'" "\<not> is_ws c" using l by (rule lexeme_first)
  from lx w have "lx_in lx = c # (w' @ rest)" by simp
  then obtain lx1 where g: "get_char (set_cur_loc lx) = Some (c, lx1)" "lexed [c] lx lx1" "lx_in lx1 = w' @ rest" by (rule first_char)
  consider (String) "tt = T_string" | (Number) "tt = T_number" | (Literal) "tt \<in> {T_false, T_null, T_true}"
    | (Struct) "structural_text tt = w" "v = []" "nt = Non_numeric"
    using l by (cases tt) (auto simp: lexeme_def)
  then show ?thesis
  proof cases
    case String
    then obtain b where b: "w = 34 # b @ [34]" "string_body b v" "nt = Non_numeric" using l by (auto simp: lexeme_def)
    then have "lx_in (lx1\<lparr>lx_value := []\<rparr>) = b @ 34 # rest" using g(3) w by simp
    from string_loop_ok [OF b(2) this] obtain lx' where r: "string_loop throw (lx_cur_loc lx1) False (lx1\<lparr>lx_value := []\<rparr>) = Inr (Some (), lx')"
      "lexed (b @ [34]) lx1 lx'" "lx_value lx' = v" by (auto simp: lexed_same)
    have "lexed w lx lx'" using lexed_trans [OF g(2) r(2)] b w by simp
    then show ?thesis using next_string [of lx lx1 throw t0] g(1) r b w t0 String by (simp add: parse_string_def cleared_def)
  next
    case Number
    then have j: "json_number nt (c # w')" "v = w" using l w by (simp_all add: lexeme_def)
    then have c: "starts_number c" by (auto simp: json_number_def number_parts_def int_part_def starts_number_def is_digit_def Cons_eq_append_conv)
    have "number_end nt rest" using fo Number by (simp add: token_end_def)
    with j(1) g(3) obtain lx' where r: "parse_number throw c lx1 = Inr (Some nt, lx')" "lexed w' lx1 lx'" "lx_value lx' = c # w'" by (rule parse_number_ok)
    have "lexed w lx lx'" using lexed_trans [OF g(2) r(2)] w by simp
    then show ?thesis using next_number [OF g(1) c, of throw t0] r w j Number by simp
  next
    case Literal
    then have j: "w = literal_text tt" "v = w" "nt = Non_numeric" using l by (auto simp: lexeme_def)
    then have c: "starts_literal c" "tt = literal_type c" "w' = tl (literal_text tt)" using w Literal
      by (auto simp: literal_text_def starts_literal_def literal_type_def)
    have "literal_end rest" using fo Literal by (auto simp: token_end_def)
    from g(3) have "lx_in lx1 = tl (literal_text tt) @ rest" using c(3) by simp
    from c(2) this \<open>literal_end rest\<close> obtain lx' where r: "parse_literal throw c lx1 = Inr (Some tt, lx')" "lexed (tl (literal_text tt)) lx1 lx'"
      "lx_value lx' = literal_text tt" by (rule parse_literal_ok)
    have "lexed w lx lx'" using lexed_trans [OF g(2) r(2)] w c by simp
    then show ?thesis using next_literal [OF g(1) c(1), of throw t0] r j t0 by (simp add: cleared_def)
  next
    case Struct
    then have c: "structural_text tt = [c]" "w' = []" using w by (cases tt; auto simp: structural_text_def)+
    then have s: "structural c = Some tt" by (simp add: structural_iff)
    moreover from s have "c \<noteq> 34 \<and> \<not> starts_number c \<and> \<not> starts_literal c"
      by (auto simp: structural_def starts_number_def starts_literal_def is_digit_def split: if_splits)
    ultimately show ?thesis using next_structural [OF g(1) w(2), of throw t0] g(2) t0 Struct c w by (simp add: cleared_def)
  qed
qed

lemma next_end:
  assumes "list_all is_ws (lx_in lx)"
  obtains lx' where "lexer_next throw t lx = Inr (False, t, lx')" "lexed (lx_in lx) lx lx'"
proof -
  from assms obtain lx1 where s: "lexer_next throw t lx = lexer_next throw t lx1" "lexed (lx_in lx) lx lx1" "lx_in lx1 = []"
    using skip_ws [of lx "lx_in lx" "[]"] by auto
  then have "lexer_next throw t lx1 = Inr (False, t, set_cur_loc lx1)"
    using get_char_Nil [of "set_cur_loc lx1"] by (subst lexer_next.simps) simp
  then show thesis using that [of "set_cur_loc lx1"] s by (simp add: lexed_same)
qed

lemma next_not_end:
  assumes "lx_in lx = c # w" "\<not> is_ws c" shows "lexer_next True t lx \<noteq> Inr (False, t', lx')"
proof -
  from assms(1) obtain lx1 where g: "get_char (set_cur_loc lx) = Some (c, lx1)" by (rule first_char)
  have nf: "codepoint_loop True h s lx \<noteq> Inr (None, lx')" for h s lx lx'
    by (induction True h s lx rule: codepoint_loop.induct, subst codepoint_loop.simps)
      (auto simp: fail_codepoint_def fail_def split: sum.splits option.splits)
  have ns: "string_loop True loc b lx \<noteq> Inr (None, lx')" for loc b lx lx'
  proof (induction True loc b lx rule: string_loop.induct)
    case (1 loc b lx)
    then show ?case
      by (subst string_loop.simps) (auto simp: fail_def Let_def parse_codepoint_def bindE_eq_Inr nf split: option.splits)
  qed
  have n1: "exp_digits True c lx \<noteq> Inr (None, lx')" for c lx lx'
    by (auto simp: exp_digits_def fail_number_def fail_def split: prod.splits digits_end.splits)
  have n2: "parse_exp True n c lx \<noteq> Inr (None, lx')" for n c lx lx'
    by (simp add: parse_exp_def fail_number_def fail_def Let_def n1 split: option.splits)
  have n3: "parse_frac True c lx \<noteq> Inr (None, lx')" for c lx lx'
    by (simp add: parse_frac_def fail_number_def fail_def Let_def n2 split: option.splits prod.splits digits_end.splits)
  have n4: "parse_int True c lx \<noteq> Inr (None, lx')" for c lx lx'
    by (simp add: parse_int_def fail_number_def fail_def Let_def n3 split: option.splits prod.splits digits_end.splits)
  have nn: "parse_number True c lx \<noteq> Inr (None, lx')" for c lx lx'
    by (simp add: parse_number_def fail_number_def fail_def Let_def n4 split: option.splits)
  have nl: "parse_literal True c lx \<noteq> Inr (None, lx')" for c lx lx'
    by (auto simp: parse_literal_eq fail_literal_def fail_def split: sum.splits option.splits)
  consider (String) "c = 34" | (Number) "starts_number c" | (Literal) "starts_literal c"
    | (Struct) "c \<noteq> 34" "\<not> starts_number c" "\<not> starts_literal c" by blast
  then show ?thesis
  proof cases
    case String
    then show ?thesis using next_string [of lx lx1 True t] g ns by (auto simp: parse_string_def bindE_eq_Inr split: option.splits)
  next
    case Number
    then show ?thesis using next_number [OF g Number, of True t] nn by (auto simp: bindE_eq_Inr split: option.splits)
  next
    case Literal
    then show ?thesis using next_literal [OF g Literal, of True t] nl by (auto simp: bindE_eq_Inr split: option.splits)
  next
    case Struct
    then show ?thesis using next_structural [OF g assms(2) Struct, of True t] by (auto split: option.splits)
  qed
qed

end
