(* ===== verification/Json_Tokens.thy ===== *)
theory Json_Tokens
  imports Json_Lexemes
begin

text \<open>
  The lexer as a whole, on any white space: what it gives back is the next token of the text with its location, and it gives back every token
  of the grammar. The values of string tokens are UTF-8 if the input is.
\<close>

section \<open>White space and the next token\<close>

lemma next_sound:
  assumes n: "lexer_next throw t0 lx = Inr (True, t, lx')" and t0: "cleared t0"
  obtains ws w where "list_all is_ws ws" "lexeme (tok_type t) (tok_numeric t) (tok_value t) w" "lexed (ws @ w) lx lx'"
    "tok_loc t = location_of (loc_file (lx_cur_loc lx)) (pos_after ws (lx_pos lx)) (pos_after (ws @ butlast w) (lx_pos lx))"
    "token_end (tok_type t) (tok_numeric t) (lx_in lx')"
proof -
  define ws where "ws = takeWhile is_ws (lx_in lx)"
  have ws: "list_all is_ws ws" by (auto simp: ws_def list_all_iff dest: set_takeWhileD)
  have split: "lx_in lx = ws @ dropWhile is_ws (lx_in lx)" by (simp add: ws_def)
  from split ws obtain lx1 where s: "lexer_next throw t0 lx = lexer_next throw t0 lx1" "lexed ws lx lx1" "lx_in lx1 = dropWhile is_ws (lx_in lx)"
    by (rule skip_ws)
  obtain c w0 where c: "lx_in lx1 = c # w0" "\<not> is_ws c"
  proof (cases "lx_in lx1")
    case Nil
    then have "lexer_next throw t0 lx1 = Inr (False, t0, set_cur_loc lx1)" using get_char_Nil [of "set_cur_loc lx1"] by (subst lexer_next.simps) simp
    with n s show thesis by simp
  next
    case (Cons c w0)
    then show thesis using that [of c w0] s(3) by (metis dropWhile_eq_Cons_conv)
  qed
  from next_first_sound [OF c, of throw t0 t lx'] n s t0 obtain w where w: "lexeme (tok_type t) (tok_numeric t) (tok_value t) w" "lexed w lx1 lx'" "token_at t lx1 w"
    "token_end (tok_type t) (tok_numeric t) (lx_in lx')" by auto
  from s(2) have "loc_file (lx_cur_loc lx1) = loc_file (lx_cur_loc lx)" "lx_pos lx1 = pos_after ws (lx_pos lx)" by (simp_all add: lexed_def)
  with w show thesis by (intro that [OF ws w(1) lexed_trans [OF s(2) w(2)]]) (simp add: token_at_def)
qed

lemma next_complete:
  assumes "lexeme tt nt v w" "lx_in lx = ws @ w @ rest" "list_all is_ws ws" "token_end tt nt rest" "cleared t0"
  obtains t lx' where "lexer_next throw t0 lx = Inr (True, t, lx')" "tok_type t = tt" "tok_numeric t = nt" "tok_value t = v" "lexed (ws @ w) lx lx'" "lx_in lx' = rest"
proof -
  from assms(2,3) obtain lx1 where s: "lexer_next throw t0 lx = lexer_next throw t0 lx1" "lexed ws lx lx1" "lx_in lx1 = w @ rest" by (rule skip_ws)
  from next_first_complete [OF assms(1) s(3) assms(4,5), of throw] obtain t lx' where r: "lexer_next throw t0 lx1 = Inr (True, t, lx')"
    "tok_type t = tt" "tok_numeric t = nt" "tok_value t = v" "lexed w lx1 lx'" by blast
  moreover have "lx_in lx' = rest" using lexed_in [OF r(5)] s(3) by simp
  ultimately show thesis using that s lexed_trans [OF s(2) r(5)] by auto
qed

lemma next_end_iff: "(\<exists>t lx'. lexer_next True t0 lx = Inr (False, t, lx')) \<longleftrightarrow> list_all is_ws (lx_in lx)"
proof
  assume "\<exists>t lx'. lexer_next True t0 lx = Inr (False, t, lx')"
  then obtain t lx' where n: "lexer_next True t0 lx = Inr (False, t, lx')" by blast
  define ws where "ws = takeWhile is_ws (lx_in lx)"
  have ws: "list_all is_ws ws" by (auto simp: ws_def list_all_iff dest: set_takeWhileD)
  have split: "lx_in lx = ws @ dropWhile is_ws (lx_in lx)" by (simp add: ws_def)
  from split ws obtain lx1 where s: "lexer_next True t0 lx = lexer_next True t0 lx1" "lx_in lx1 = dropWhile is_ws (lx_in lx)" by (rule skip_ws)
  show "list_all is_ws (lx_in lx)"
  proof (cases "lx_in lx1")
    case Nil
    then show ?thesis using s by (simp add: list_all_iff)
  next
    case (Cons c w)
    then have "\<not> is_ws c" using s(2) by (metis dropWhile_eq_Cons_conv)
    with next_not_end [OF Cons] n s show ?thesis by auto
  qed
next
  assume "list_all is_ws (lx_in lx)"
  then show "\<exists>t lx'. lexer_next True t0 lx = Inr (False, t, lx')" by (rule next_end) blast
qed

section \<open>UTF-8\<close>

lemma utf8_wf_Nil [simp]: "utf8_wf []"
  by (simp add: utf8_wf.simps)

lemma utf8_wf_Cons: "utf8_wf (b # s) \<longleftrightarrow> (\<exists>q s'. b # s = q @ s' \<and> utf8_seq q \<and> utf8_wf s')"
proof
  assume a: "utf8_wf (b # s)"
  then obtain n where n: "char_length b = Inr n" "n - 1 \<le> length s" "list_all is_continuation_byte (take (n - 1) s)" "utf8_wf (drop (n - 1) s)"
    by (subst (asm) utf8_wf.simps) (auto split: sum.splits)
  have "0 < n" using n(1) by (auto simp: char_length_def Let_def split: if_splits)
  then have "utf8_seq (b # take (n - 1) s)" using n by (simp add: min_def)
  then show "\<exists>q s'. b # s = q @ s' \<and> utf8_seq q \<and> utf8_wf s'" using n by (intro exI [of _ "b # take (n - 1) s"] exI [of _ "drop (n - 1) s"]) simp
qed (use wf_seq in auto)

lemma utf8_wf_induct [consumes 1, case_names Nil Seq]:
  assumes "utf8_wf s" "P []" "\<And>q s. utf8_seq q \<Longrightarrow> utf8_wf s \<Longrightarrow> P s \<Longrightarrow> P (q @ s)" shows "P s"
  using assms(1)
proof (induction "length s" arbitrary: s rule: less_induct)
  case less
  show ?case
  proof (cases s)
    case (Cons b s')
    with less.prems obtain q s2 where q: "s = q @ s2" "utf8_seq q" "utf8_wf s2" using utf8_wf_Cons by metis
    then have "length s2 < length s" by (cases q) auto
    with q less.hyps assms(3) show ?thesis by blast
  qed (use assms(2) in simp)
qed

lemma utf8_wf_append: "utf8_wf p \<Longrightarrow> utf8_wf s \<Longrightarrow> utf8_wf (p @ s)"
  by (induction rule: utf8_wf_induct) (simp_all add: wf_seq)

lemma ascii_seq: "unat c < 128 \<Longrightarrow> utf8_seq [c]"
  by (simp add: char_length_eq)

lemma ascii_wf: "unat c < 128 \<Longrightarrow> utf8_wf (c # s) \<longleftrightarrow> utf8_wf s"
  using wf_seq [OF ascii_seq, of c s] by simp

lemma ascii_not_cont: "unat c < 128 \<Longrightarrow> \<not> is_continuation_byte c"
  by (simp add: is_continuation_byte_def word_le_nat_alt)

text \<open>An ASCII character is never inside the sequence of another one.\<close>

lemma utf8_wf_split:
  assumes "utf8_wf (p @ c # w)" "unat c < 128" shows "utf8_wf p \<and> utf8_wf w"
  using assms(1)
proof (induction "length p" arbitrary: p rule: less_induct)
  case less
  show ?case
  proof (cases p)
    case Nil
    then show ?thesis using less.prems wf_seq [OF ascii_seq [OF assms(2)], of w] by simp
  next
    case (Cons b p')
    with less.prems obtain q s where q: "p @ c # w = q @ s" "utf8_seq q" "utf8_wf s" using utf8_wf_Cons by (metis append_Cons)
    obtain r where r: "p = q @ r"
    proof (cases "length q \<le> length p")
      case True
      then show thesis using that q(1) by (metis append_eq_append_conv_if append_take_drop_id)
    next
      case False
      then obtain b0 cs where q0: "q = b0 # cs" "list_all is_continuation_byte cs" using q(2) by (auto elim: utf8_seqE)
      have "q ! length p = c" using q(1) False by (metis nth_append nth_append_length not_le)
      moreover have "q ! length p \<in> set cs" using False q0 Cons by (cases "length p") auto
      ultimately show thesis using q0 ascii_not_cont [OF assms(2)] by (auto simp: list_all_iff)
    qed
    have "length r < length p" using r q(2) by (cases q) auto
    moreover have "utf8_wf (r @ c # w)" using q r by simp
    ultimately have "utf8_wf r \<and> utf8_wf w" using less.hyps by blast
    then show ?thesis using r q(2) wf_seq by auto
  qed
qed

lemma encode_wf: "utf8_wf (encode cp)"
proof (cases "is_valid cp")
  case True
  then show ?thesis using wf_text [of "[cp]"] by (simp add: text_of_def)
qed (simp add: encode_def)

lemma escape_ascii: "simple_escape c = Some d \<Longrightarrow> unat c < 128 \<and> unat d < 128"
  by (auto simp: simple_escape_def split: if_splits)

lemma ascii_prefix: "\<forall>c\<in>set h. unat c < 128 \<Longrightarrow> utf8_wf (h @ w) \<Longrightarrow> utf8_wf w"
proof (induction h)
  case (Cons c h)
  then show ?case using utf8_wf_split [of "[]" c "h @ w"] by simp
qed simp

lemma escape_num_ascii: "escape_num e n \<Longrightarrow> c \<in> set e \<Longrightarrow> unat c < 128"
  by (induction rule: escape_num.induct) (fastforce simp: hex4_def list_all_iff dest: xdigit_cases)+

lemma body_wf: "string_body w v \<Longrightarrow> utf8_wf (p @ w) \<Longrightarrow> utf8_wf (p @ v)"
proof (induction arbitrary: p rule: string_body.induct)
  case (body_char c w v)
  then show ?case using body_char.IH [of "p @ [c]"] by simp
next
  case (body_escape c d w v)
  from utf8_wf_split [of p "0x5C" "c # w"] body_escape.prems have p: "utf8_wf p" "utf8_wf (c # w)" by simp_all
  then have "utf8_wf w" using utf8_wf_split [of "[]" c w] escape_ascii [OF body_escape.hyps(1)] by simp
  then have "utf8_wf (d # v)" using body_escape.IH [of "[]"] escape_ascii [OF body_escape.hyps(1)] by (simp add: ascii_wf)
  then show ?case using utf8_wf_append [OF p(1)] by simp
next
  case (body_code e n w v)
  from utf8_wf_split [of p "0x5C" "0x75 # e @ w"] body_code.prems have p: "utf8_wf p" "utf8_wf ((0x75 # e) @ w)" by simp_all
  have "\<forall>c\<in>set (0x75 # e). unat c < 128" using escape_num_ascii [OF body_code.hyps(1)] by simp
  then have "utf8_wf w" using p(2) by (rule ascii_prefix)
  then have "utf8_wf (encode (of_nat n) @ v)" using body_code.IH [of "[]"] by (intro utf8_wf_append encode_wf) simp
  then show ?case using utf8_wf_append [OF p(1)] by simp
qed simp

lemma digits_ascii: "list_all is_digit w \<Longrightarrow> \<forall>c\<in>set w. unat c < 128"
  by (auto simp: list_all_iff is_digit_def word_le_nat_alt)

lemma number_ascii: "json_number nt w \<Longrightarrow> \<forall>c\<in>set w. unat c < 128"
proof -
  have "\<forall>c\<in>set w. unat c < 128" if "int_part w" for w
    using int_part_cases [OF that] digits_ascii by (auto dest: digits_ascii [of "[_]", simplified])
  moreover have "\<forall>c\<in>set w. unat c < 128" if "frac_part w" for w using that digits_ascii by (auto simp: frac_part_def)
  moreover have "\<forall>c\<in>set w. unat c < 128" if "exp_part w" for w using that digits_ascii by (fastforce simp: exp_part_def)
  moreover assume "json_number nt w"
  ultimately show "\<forall>c\<in>set w. unat c < 128" unfolding json_number_def number_parts_def by fastforce
qed

lemma lexeme_value_wf:
  assumes "lexeme tt nt v w" "utf8_wf (w @ rest)" shows "utf8_wf v" "utf8_wf rest"
proof -
  have asc: "\<forall>c\<in>set w. unat c < 128" if "tt \<noteq> T_string"
    using that assms(1) number_ascii by (cases tt) (auto simp: lexeme_def literal_text_def structural_text_def)
  have "utf8_wf v \<and> utf8_wf rest"
  proof (cases "tt = T_string")
    case True
    then obtain b where b: "w = 0x22 # b @ [0x22]" "string_body b v" using assms(1) by (auto simp: lexeme_def)
    then have "utf8_wf (b @ 0x22 # rest)" using assms(2) utf8_wf_split [of "[]" "0x22"] by simp
    then have "utf8_wf b" "utf8_wf rest" using utf8_wf_split [of b "0x22" rest] by simp_all
    then show ?thesis using body_wf [OF b(2), of "[]"] by simp
  next
    case False
    from asc [OF False] have "utf8_wf rest" using assms(2) by (rule ascii_prefix)
    moreover have "utf8_wf w"
      using asc [OF False] by (induction w) (simp_all add: ascii_wf)
    moreover have "v = [] \<or> v = w" using False assms(1) by (cases tt) (auto simp: lexeme_def)
    ultimately show ?thesis by auto
  qed
  then show "utf8_wf v" "utf8_wf rest" by simp_all
qed

lemma ws_ascii: "list_all is_ws ws \<Longrightarrow> \<forall>c\<in>set ws. unat c < 128"
  by (auto simp: list_all_iff is_ws_def)

lemma validate_iff: "validate_len s (length s) = Inr None \<longleftrightarrow> utf8_wf s"
  using validate_wf [of "[]" s] by (auto simp: validate_len_def)

section \<open>Properties\<close>

text \<open>
  C14: with exceptions on, the lexer gives back a token exactly where the rest of the input is white space, then a text of the lexical grammar
  that it takes, and then nothing that would continue that text: no letter, digit or underscore behind a literal, no letter or digit behind a number and
  no point behind an integer. The token has the type and the value of that text; its location starts at the line and the
  column of its first character and ends at those of its last one, in the widths of the counters. The end is
  reported exactly when only white space is left, and in all other cases an exception is thrown. The grammar is that of RFC 4627 except that
  a string may contain control characters as they are and that an exponent may not follow a single zero (\<open>0e1\<close>).
\<close>

theorem json_lexer:
  assumes "cleared t0"
  shows "(lexer_next True t0 lx = Inr (True, t, lx') \<longrightarrow>
      (\<exists>ws w. list_all is_ws ws \<and> lexeme (tok_type t) (tok_numeric t) (tok_value t) w \<and> lx_in lx = ws @ w @ lx_in lx'
        \<and> token_end (tok_type t) (tok_numeric t) (lx_in lx')
        \<and> tok_loc t = location_of (loc_file (lx_cur_loc lx)) (pos_after ws (lx_pos lx)) (pos_after (ws @ butlast w) (lx_pos lx))
        \<and> lx_pos lx' = pos_after (ws @ w) (lx_pos lx)))
    \<and> (list_all is_ws ws \<longrightarrow> lexeme tt nt v w \<longrightarrow> token_end tt nt rest \<longrightarrow> lx_in lx = ws @ w @ rest \<longrightarrow>
      (\<exists>t lx'. lexer_next True t0 lx = Inr (True, t, lx') \<and> (tok_type t, tok_numeric t, tok_value t) = (tt, nt, v) \<and> lx_in lx' = rest))
    \<and> ((\<exists>t lx'. lexer_next True t0 lx = Inr (False, t, lx')) \<longleftrightarrow> list_all is_ws (lx_in lx))
    \<and> ((\<exists>e. lexer_next True t0 lx = Inl e) \<longleftrightarrow> \<not> list_all is_ws (lx_in lx)
      \<and> \<not> (\<exists>ws tt nt v w rest. list_all is_ws ws \<and> lexeme tt nt v w \<and> token_end tt nt rest \<and> lx_in lx = ws @ w @ rest))"
proof -
  have sound: "\<exists>ws w. list_all is_ws ws \<and> lexeme (tok_type t) (tok_numeric t) (tok_value t) w \<and> lx_in lx = ws @ w @ lx_in lx'
        \<and> token_end (tok_type t) (tok_numeric t) (lx_in lx')
        \<and> tok_loc t = location_of (loc_file (lx_cur_loc lx)) (pos_after ws (lx_pos lx)) (pos_after (ws @ butlast w) (lx_pos lx))
        \<and> lx_pos lx' = pos_after (ws @ w) (lx_pos lx)" if "lexer_next True t0 lx = Inr (True, t, lx')" for t lx'
  proof -
    from that assms obtain ws w where "list_all is_ws ws" "lexeme (tok_type t) (tok_numeric t) (tok_value t) w" "lexed (ws @ w) lx lx'"
      "tok_loc t = location_of (loc_file (lx_cur_loc lx)) (pos_after ws (lx_pos lx)) (pos_after (ws @ butlast w) (lx_pos lx))"
      "token_end (tok_type t) (tok_numeric t) (lx_in lx')" by (rule next_sound)
    then show ?thesis by (intro exI [of _ ws] exI [of _ w]) (simp add: lexed_def)
  qed
  have complete: "\<exists>t lx'. lexer_next True t0 lx = Inr (True, t, lx') \<and> (tok_type t, tok_numeric t, tok_value t) = (tt, nt, v) \<and> lx_in lx' = rest"
    if "list_all is_ws ws" "lexeme tt nt v w" "token_end tt nt rest" "lx_in lx = ws @ w @ rest" for ws tt nt v w rest
    using next_complete [OF that(2,4,1,3) assms, of True] by (metis prod.inject)
  have "(\<exists>e. lexer_next True t0 lx = Inl e) \<longleftrightarrow> \<not> (\<exists>t lx'. lexer_next True t0 lx = Inr (False, t, lx')) \<and> \<not> (\<exists>t lx'. lexer_next True t0 lx = Inr (True, t, lx'))"
  proof (cases "lexer_next True t0 lx")
    case (Inr r)
    then show ?thesis by (cases r; cases "fst r") auto
  qed simp
  then have "(\<exists>e. lexer_next True t0 lx = Inl e) \<longleftrightarrow> \<not> list_all is_ws (lx_in lx)
      \<and> \<not> (\<exists>ws tt nt v w rest. list_all is_ws ws \<and> lexeme tt nt v w \<and> token_end tt nt rest \<and> lx_in lx = ws @ w @ rest)"
    unfolding next_end_iff by (metis sound complete)
  with sound complete next_end_iff show ?thesis by simp
qed

theorem json_lexer_witness:
  "(\<exists>t lx'. lexer_next True new_token (new_lexer [32, 45, 49, 46, 53, 44]) = Inr (True, t, lx')
     \<and> (tok_type t, tok_numeric t, tok_value t) = (T_number, N_decimal, [45, 49, 46, 53]) \<and> lx_in lx' = [44])"
proof -
  have "number_parts [45] [49] [46, 53] []" by (simp add: number_parts_def int_part_def frac_part_def is_digit_def)
  then have "json_number N_decimal ([45] @ [49] @ [46, 53] @ [])" unfolding json_number_def
    by (intro exI [of _ "[45]"] exI [of _ "[49]"] exI [of _ "[46, 53]"] exI [of _ "[]"]) (simp add: number_type_def)
  then have "lexeme T_number N_decimal [45, 49, 46, 53] [45, 49, 46, 53]" by (simp add: lexeme_def)
  moreover have "token_end T_number N_decimal [44]" by (simp add: token_end_def number_end_def is_alnum_def is_alpha_def is_digit_def)
  moreover have "cleared new_token" by (simp add: cleared_def new_token_def)
  ultimately show ?thesis using json_lexer [of new_token "new_lexer [32, 45, 49, 46, 53, 44]" new_token "new_lexer []" "[32]" T_number N_decimal
      "[45, 49, 46, 53]" "[45, 49, 46, 53]" "[44]"] by (simp add: is_ws_def new_lexer_def)
qed

text \<open>
  C32: the lexer reads bytes, but what it makes of UTF-8 is UTF-8: if \<open>validate\<close> accepts the rest of the input,
  it accepts the value of the next token, with all escapes (surrogate pairs included) replaced, and the rest of the input
  after it.
\<close>

theorem json_utf8:
  assumes "cleared t0" "lexer_next throw t0 lx = Inr (True, t, lx')" "validate_len (lx_in lx) (length (lx_in lx)) = Inr None"
  shows "validate_len (tok_value t) (length (tok_value t)) = Inr None \<and> validate_len (lx_in lx') (length (lx_in lx')) = Inr None"
proof -
  from assms(2,1) obtain ws w where w: "list_all is_ws ws" "lexeme (tok_type t) (tok_numeric t) (tok_value t) w" "lexed (ws @ w) lx lx'"
    by (rule next_sound)
  have "utf8_wf (ws @ w @ lx_in lx')" using assms(3) lexed_in [OF w(3)] unfolding validate_iff by simp
  with ws_ascii [OF w(1)] have "utf8_wf (w @ lx_in lx')" by (rule ascii_prefix)
  from lexeme_value_wf [OF w(2) this] show ?thesis by (simp add: validate_iff)
qed

theorem json_utf8_witness:
  "\<exists>t lx'. lexer_next True new_token (new_lexer [34, 0xC3, 0xA9, 34]) = Inr (True, t, lx')
    \<and> validate_len (tok_value t) (length (tok_value t)) = Inr None"
proof -
  have "string_body [0xC3, 0xA9] [0xC3, 0xA9]" by (intro body_char body_Nil) simp_all
  then have l: "lexeme T_string Non_numeric [0xC3, 0xA9] (34 # [0xC3, 0xA9] @ [34])" by (auto simp: lexeme_def)
  have c: "cleared new_token" by (simp add: cleared_def new_token_def)
  have i: "lx_in (new_lexer [34, 0xC3, 0xA9, 34]) = [] @ (34 # [0xC3, 0xA9] @ [34]) @ []" by (simp add: new_lexer_def)
  have "list_all is_ws []" "token_end T_string Non_numeric []" by (simp_all add: token_end_def)
  from next_complete [OF l i this c, of True]
  obtain t lx' where t: "lexer_next True new_token (new_lexer [34, 0xC3, 0xA9, 34]) = Inr (True, t, lx')" .
  have "utf8_seq [0xC3, 0xA9]" by (simp add: char_length_eq is_continuation_byte_def)
  then have "utf8_wf [34, 0xC3, 0xA9, 34]" using ascii_wf [of 34] wf_seq [of "[0xC3, 0xA9]" "[34]"] by simp
  then have "validate_len (lx_in (new_lexer [34, 0xC3, 0xA9, 34])) (length (lx_in (new_lexer [34, 0xC3, 0xA9, 34]))) = Inr None"
    by (simp add: new_lexer_def flip: validate_iff)
  with json_utf8 [OF c t] t show ?thesis by auto
qed

end
