(* ===== verification/Json_Parser.thy ===== *)
theory Json_Parser
  imports Json_Tokens
begin

text \<open>
  The JSON parser (\<open>json::parser\<close> of \<open>util/json_parser.cpp\<close>): a state machine with a stack of states that hands out one token at a time and checks
  the grammar while doing so. \<open>GOTO_STATE\<close>, \<open>PUSH_STATE\<close> and \<open>POP_STATE\<close> are the macros of the release build; the top of the stack is the head of
  the list.
\<close>

section \<open>State\<close>

datatype pstate = A0 | A1 | A2 | E0 | E1 | J0 | J1 | M0 | M1 | O0 | O1 | O2 | P0 | P1 | V0

record parser =
  pr_allow_multiple :: bool
  pr_lexer :: lexer
  pr_peeked :: token
  pr_stack :: "pstate list"
  pr_state :: pstate

definition push_state :: "pstate \<Rightarrow> parser \<Rightarrow> parser" where
  "push_state s p = p\<lparr>pr_stack := s # pr_stack p\<rparr>"

definition goto_state :: "pstate \<Rightarrow> parser \<Rightarrow> parser" where
  "goto_state s p = p\<lparr>pr_state := s\<rparr>"

definition pop_state :: "parser \<Rightarrow> json_err + parser" where
  "pop_state p = (case pr_stack p of [] \<Rightarrow> Inl Json_undefined | s # ss \<Rightarrow> Inr (p\<lparr>pr_state := s, pr_stack := ss\<rparr>))"

definition new_parser :: "lexer \<Rightarrow> bool \<Rightarrow> parser" where
  "new_parser lx allow_multiple =
    push_state J0 \<lparr>pr_allow_multiple = allow_multiple, pr_lexer = lx, pr_peeked = new_token, pr_stack = [], pr_state = J0\<rparr>"

definition clear_parser :: "parser \<Rightarrow> parser" where
  "clear_parser p = push_state J0 (p\<lparr>pr_peeked := clear_token (pr_peeked p), pr_stack := []\<rparr>)"

section \<open>Tokens\<close>

definition get_token :: "token \<Rightarrow> parser \<Rightarrow> json_err + (bool \<times> token \<times> parser)" where
  "get_token t p =
    (if tok_type (pr_peeked p) \<noteq> T_none then Inr (True, pr_peeked p, p\<lparr>pr_peeked := clear_token (pr_peeked p)\<rparr>)
     else bindE (lexer_next True (clear_token t) (pr_lexer p)) (\<lambda>(got, t, lx). Inr (got, t, p\<lparr>pr_lexer := lx\<rparr>)))"

definition peek_token :: "parser \<Rightarrow> json_err + (token_type \<times> parser)" where
  "peek_token p =
    (if tok_type (pr_peeked p) = T_none then
       bindE (lexer_next True (pr_peeked p) (pr_lexer p)) (\<lambda>(got, t, lx).
         Inr (tok_type t, p\<lparr>pr_peeked := t, pr_lexer := lx\<rparr>))
     else Inr (tok_type (pr_peeked p), p))"

definition matches_token :: "token_type \<Rightarrow> token \<Rightarrow> parser \<Rightarrow> json_err + (bool \<times> token \<times> parser)" where
  "matches_token tt t p = bindE (peek_token p) (\<lambda>(peeked, p).
    if peeked = tt then get_token t p else Inr (False, pr_peeked p, p))"

definition require_token :: "token_type \<Rightarrow> token \<Rightarrow> parser \<Rightarrow> json_err + (token \<times> parser)" where
  "require_token tt t p = bindE (get_token t p) (\<lambda>(got, t, p).
    if \<not> got \<or> tok_type t \<noteq> tt then Inl (Unexpected_token t) else Inr (t, p))"

section \<open>The next token\<close>

text \<open>
  What one turn of the loop does: it ends (\<open>Return\<close>, with the result and the token), or goes on with another state. Falling through
  from J0 to J1 returns \<open>false\<close>.
\<close>

datatype turn = Return bool token parser | Continue token parser

definition require_and_push :: "token_type \<Rightarrow> pstate option \<Rightarrow> token \<Rightarrow> parser \<Rightarrow> json_err + turn" where
  "require_and_push tt s t p = bindE (require_token tt t p) (\<lambda>(t, p).
    Inr (Return True t (case s of None \<Rightarrow> p | Some s \<Rightarrow> push_state s p)))"

definition end_or_first :: "token_type \<Rightarrow> pstate \<Rightarrow> pstate \<Rightarrow> token \<Rightarrow> parser \<Rightarrow> json_err + turn" where
  "end_or_first tt rest first t p = bindE (matches_token tt t p) (\<lambda>(matched, t, p).
    if matched then Inr (Return True t p) else Inr (Continue t (goto_state first (push_state rest p))))"

definition separator_or_pop :: "pstate \<Rightarrow> token \<Rightarrow> parser \<Rightarrow> json_err + turn" where
  "separator_or_pop s t p = bindE (matches_token Value_separator t p) (\<lambda>(matched, t, p).
    if matched then Inr (Return True t (push_state s p)) else bindE (pop_state p) (\<lambda>p. Inr (Continue t p)))"

definition parser_turn :: "token \<Rightarrow> parser \<Rightarrow> json_err + turn" where
  "parser_turn t p = (case pr_state p of
      J0 \<Rightarrow> bindE (peek_token (push_state (if pr_allow_multiple p then J0 else J1) p)) (\<lambda>(tt, p).
        if tt = Begin_array then Inr (Continue t (goto_state A0 p))
        else if tt = Begin_object then Inr (Continue t (goto_state O0 p))
        else if tt = T_none then Inr (Return False t p)
        else Inl (Unexpected_token (pr_peeked p)))
    | J1 \<Rightarrow> Inr (Return False t p)
    | A0 \<Rightarrow> require_and_push Begin_array (Some A1) t p
    | A1 \<Rightarrow> end_or_first End_array A2 E0 t p
    | A2 \<Rightarrow> require_and_push End_array None t p
    | E0 \<Rightarrow> Inr (Continue t (goto_state V0 (push_state E1 p)))
    | E1 \<Rightarrow> separator_or_pop E0 t p
    | O0 \<Rightarrow> require_and_push Begin_object (Some O1) t p
    | O1 \<Rightarrow> end_or_first End_object O2 M0 t p
    | O2 \<Rightarrow> require_and_push End_object None t p
    | M0 \<Rightarrow> Inr (Continue t (goto_state P0 (push_state M1 p)))
    | M1 \<Rightarrow> separator_or_pop M0 t p
    | P0 \<Rightarrow> require_and_push T_string (Some P1) t p
    | P1 \<Rightarrow> require_and_push Name_separator (Some V0) t p
    | V0 \<Rightarrow> bindE (peek_token p) (\<lambda>(tt, p).
        if tt = Begin_array then Inr (Continue t (goto_state A0 p))
        else if tt = Begin_object then Inr (Continue t (goto_state O0 p))
        else if tt \<in> {T_string, T_number, T_false, T_null, T_true} then
          bindE (get_token t p) (\<lambda>(got, t, p). Inr (Return True t p))
        else Inl (Unexpected_token (pr_peeked p))))"

text \<open>The loop ends: the states E1 and M1 shorten the stack, all others go on to a state of a lower rank.\<close>

fun rank :: "pstate \<Rightarrow> nat" where
  "rank A1 = 3" | "rank O1 = 3" | "rank E0 = 2" | "rank M0 = 2" | "rank V0 = 1" | "rank J0 = 1" | "rank _ = 0"

definition popping :: "parser \<Rightarrow> nat" where
  "popping p = (if pr_state p \<in> {E1, M1} then Suc (length (pr_stack p)) else 0)"

lemma stack_simps [simp]:
  "pr_stack (push_state s p) = s # pr_stack p" "pr_state (push_state s p) = pr_state p" "pr_lexer (push_state s p) = pr_lexer p"
  "pr_peeked (push_state s p) = pr_peeked p" "pr_allow_multiple (push_state s p) = pr_allow_multiple p"
  "pr_stack (goto_state s p) = pr_stack p" "pr_state (goto_state s p) = s" "pr_lexer (goto_state s p) = pr_lexer p"
  "pr_peeked (goto_state s p) = pr_peeked p" "pr_allow_multiple (goto_state s p) = pr_allow_multiple p"
  by (simp_all add: push_state_def goto_state_def)

lemma token_stack:
  "get_token t p = Inr (b, t', p') \<Longrightarrow> pr_stack p' = pr_stack p \<and> pr_state p' = pr_state p \<and> pr_allow_multiple p' = pr_allow_multiple p"
  "peek_token p = Inr (tt, p') \<Longrightarrow> pr_stack p' = pr_stack p \<and> pr_state p' = pr_state p \<and> pr_allow_multiple p' = pr_allow_multiple p"
  by (auto simp: get_token_def peek_token_def bindE_eq_Inr split: if_splits)

lemma matches_stack:
  "matches_token tt t p = Inr (b, t', p') \<Longrightarrow> pr_stack p' = pr_stack p \<and> pr_state p' = pr_state p \<and> pr_allow_multiple p' = pr_allow_multiple p"
  by (auto simp: matches_token_def bindE_eq_Inr split: if_splits dest!: token_stack)

lemma turn_decreases:
  assumes "parser_turn t p = Inr (Continue t' p')"
  shows "popping p' < popping p \<or> popping p' = popping p \<and> rank (pr_state p') < rank (pr_state p)"
proof -
  consider (Pop) "pr_state p = E1 \<or> pr_state p = M1" | (Other) "pr_state p \<notin> {E1, M1}" by blast
  then show ?thesis
  proof cases
    case Pop
    then obtain s where "separator_or_pop s t p = Inr (Continue t' p')" using assms by (auto simp: parser_turn_def)
    then obtain q where "matches_token Value_separator t p = Inr (False, t', q)" "pop_state q = Inr p'"
      by (auto simp: separator_or_pop_def bindE_eq_Inr split: if_splits)
    then show ?thesis using Pop by (auto simp: pop_state_def popping_def split: list.splits dest!: matches_stack)
  next
    case Other
    then show ?thesis using assms
      by (cases "pr_state p")
        (auto simp: parser_turn_def popping_def require_and_push_def end_or_first_def bindE_eq_Inr split: if_splits
          dest!: matches_stack token_stack)
  qed
qed

function parser_loop :: "token \<Rightarrow> parser \<Rightarrow> json_err + (bool \<times> token \<times> parser)" where
  "parser_loop t p = bindE (parser_turn t p) (\<lambda>r.
    case r of Return b t p \<Rightarrow> Inr (b, t, p) | Continue t p \<Rightarrow> parser_loop t p)"
  by pat_completeness auto

termination
proof (relation "measures [\<lambda>(t, p). popping p, \<lambda>(t, p). rank (pr_state p)]")
  show "\<And>t p r x21 x22. parser_turn t p = Inr r \<Longrightarrow> r = Continue x21 x22 \<Longrightarrow>
       ((x21, x22), t, p) \<in> measures [\<lambda>(t, p). popping p, \<lambda>(t, p). rank (pr_state p)]"
    using turn_decreases by (auto simp: measures_less measures_lesseq)
qed simp

declare parser_loop.simps [simp del]

definition parser_next :: "token \<Rightarrow> parser \<Rightarrow> json_err + (bool \<times> token \<times> parser)" where
  "parser_next t p =
    (if pr_stack p = [] then Inr (False, t, p)
     else bindE (pop_state p) (\<lambda>p. parser_loop t p))"

definition parser_peek :: "parser \<Rightarrow> json_err + (token_type \<times> token option \<times> parser)" where
  "parser_peek p = bindE (peek_token p) (\<lambda>(tt, p). Inr (if tt \<noteq> T_none then (tt, Some (pr_peeked p), p) else (T_none, None, p)))"

end
