(* ===== verification/Json_Grammar.thy ===== *)
theory Json_Grammar
  imports Json_Parser
begin

text \<open>
  The grammar of JSON on tokens, and the parser: for every stack of states the lists of tokens that it can still take are exactly those that complete
  the text. Taking one token is a derivative of that language; soundness and completeness of the parser follow by
  induction on the tokens.
\<close>

section \<open>Values and their tokens\<close>

datatype jtree = Str "byte list" | Num numeric_type "byte list" | Lit_false | Lit_null | Lit_true
  | Arr "jtree list" | Obj "(byte list \<times> jtree) list"

type_synonym atok = "token_type \<times> numeric_type \<times> byte list"

definition atok :: "token \<Rightarrow> atok" where
  "atok t = (tok_type t, tok_numeric t, tok_value t)"

abbreviation tsym :: "token_type \<Rightarrow> atok" where
  "tsym tt \<equiv> (tt, Non_numeric, [])"

abbreviation key_tok :: "byte list \<Rightarrow> atok" where
  "key_tok k \<equiv> (T_string, Non_numeric, k)"

fun commas :: "atok list list \<Rightarrow> atok list" where
  "commas [] = []"
| "commas [x] = x"
| "commas (x # xs) = x @ tsym Value_separator # commas xs"

fun tokens_of :: "jtree \<Rightarrow> atok list" where
  "tokens_of (Str s) = [key_tok s]"
| "tokens_of (Num nt s) = [(T_number, nt, s)]"
| "tokens_of Lit_false = [(T_false, Non_numeric, literal_text T_false)]"
| "tokens_of Lit_null = [(T_null, Non_numeric, literal_text T_null)]"
| "tokens_of Lit_true = [(T_true, Non_numeric, literal_text T_true)]"
| "tokens_of (Arr vs) = tsym Begin_array # commas (map tokens_of vs) @ [tsym End_array]"
| "tokens_of (Obj ms) = tsym Begin_object # commas (map (\<lambda>(k, v). key_tok k # tsym Name_separator # tokens_of v) ms) @ [tsym End_object]"

definition elems :: "jtree list \<Rightarrow> atok list" where
  "elems vs = commas (map tokens_of vs)"

definition pair_tokens :: "byte list \<times> jtree \<Rightarrow> atok list" where
  "pair_tokens = (\<lambda>(k, v). key_tok k # tsym Name_separator # tokens_of v)"

definition members :: "(byte list \<times> jtree) list \<Rightarrow> atok list" where
  "members ms = commas (map pair_tokens ms)"

fun container :: "jtree \<Rightarrow> bool" where
  "container (Arr _) = True" | "container (Obj _) = True" | "container _ = False"

lemma tokens_container: "tokens_of (Arr vs) = tsym Begin_array # elems vs @ [tsym End_array]"
  "tokens_of (Obj ms) = tsym Begin_object # members ms @ [tsym End_object]"
  by (simp_all add: elems_def members_def pair_tokens_def)

declare tokens_of.simps(6,7) [simp del]

lemma commas_Cons: "commas (x # xs) = x @ (if xs = [] then [] else tsym Value_separator # commas xs)"
  by (cases xs) simp_all

section \<open>The language of a stack\<close>

fun lang :: "bool \<Rightarrow> pstate \<Rightarrow> atok list \<Rightarrow> bool" where
  "lang m J0 u \<longleftrightarrow> (\<exists>vs. u = concat (map tokens_of vs) \<and> list_all container vs \<and> (m \<or> length vs \<le> 1))"
| "lang m J1 u \<longleftrightarrow> u = []"
| "lang m V0 u \<longleftrightarrow> (\<exists>v. u = tokens_of v)"
| "lang m A0 u \<longleftrightarrow> (\<exists>vs. u = tokens_of (Arr vs))"
| "lang m A1 u \<longleftrightarrow> (\<exists>vs. u = elems vs @ [tsym End_array])"
| "lang m A2 u \<longleftrightarrow> u = [tsym End_array]"
| "lang m E0 u \<longleftrightarrow> (\<exists>vs. vs \<noteq> [] \<and> u = elems vs)"
| "lang m E1 u \<longleftrightarrow> u = [] \<or> (\<exists>vs. vs \<noteq> [] \<and> u = tsym Value_separator # elems vs)"
| "lang m O0 u \<longleftrightarrow> (\<exists>ms. u = tokens_of (Obj ms))"
| "lang m O1 u \<longleftrightarrow> (\<exists>ms. u = members ms @ [tsym End_object])"
| "lang m O2 u \<longleftrightarrow> u = [tsym End_object]"
| "lang m M0 u \<longleftrightarrow> (\<exists>ms. ms \<noteq> [] \<and> u = members ms)"
| "lang m M1 u \<longleftrightarrow> u = [] \<or> (\<exists>ms. ms \<noteq> [] \<and> u = tsym Value_separator # members ms)"
| "lang m P0 u \<longleftrightarrow> (\<exists>kv. u = pair_tokens kv)"
| "lang m P1 u \<longleftrightarrow> (\<exists>v. u = tsym Name_separator # tokens_of v)"

fun accepts :: "bool \<Rightarrow> pstate list \<Rightarrow> atok list \<Rightarrow> bool" where
  "accepts m [] w \<longleftrightarrow> w = []"
| "accepts m (s # ss) w \<longleftrightarrow> (\<exists>u w'. w = u @ w' \<and> lang m s u \<and> accepts m ss w')"

declare accepts.simps(2) [simp del]

lemma acceptsI: "lang m s u \<Longrightarrow> accepts m ss w \<Longrightarrow> accepts m (s # ss) (u @ w)"
  by (auto simp: accepts.simps)

lemma acceptsE:
  assumes "accepts m (s # ss) w" obtains u w' where "w = u @ w'" "lang m s u" "accepts m ss w'"
  using assms by (auto simp: accepts.simps)

text \<open>Going on with another state does not take the language further.\<close>

lemma accepts_E0: "accepts m (V0 # E1 # ss) w \<longleftrightarrow> accepts m (E0 # ss) w"
proof
  assume "accepts m (V0 # E1 # ss) w"
  then obtain t w1 where "w = t @ w1" "lang m V0 t" and r: "accepts m (E1 # ss) w1" by (rule acceptsE)
  moreover from r obtain u w' where "w1 = u @ w'" "lang m E1 u" "accepts m ss w'" by (rule acceptsE)
  ultimately obtain v u w' where w: "w = tokens_of v @ u @ w'" "lang m E1 u" "accepts m ss w'" by (metis lang.simps(3))
  have "lang m E0 (tokens_of v @ u)"
  proof (cases "u = []")
    case True
    then show ?thesis by (auto intro!: exI [of _ "[v]"] simp: elems_def)
  next
    case False
    then obtain vs where "vs \<noteq> []" "u = tsym Value_separator # elems vs" using w(2) by auto
    then show ?thesis by (auto intro!: exI [of _ "v # vs"] simp: elems_def commas_Cons)
  qed
  from acceptsI [OF this w(3)] show "accepts m (E0 # ss) w" by (simp add: w(1))
next
  assume "accepts m (E0 # ss) w"
  then obtain v vs w' where w: "w = elems (v # vs) @ w'" "accepts m ss w'" by (auto elim!: acceptsE simp: neq_Nil_conv)
  define u where "u = (if vs = [] then [] else tsym Value_separator # elems vs)"
  have "w = tokens_of v @ u @ w'" by (auto simp: w(1) u_def elems_def commas_Cons)
  moreover have "lang m E1 u" by (auto simp: u_def)
  moreover have "lang m V0 (tokens_of v)" by auto
  ultimately show "accepts m (V0 # E1 # ss) w" using w(2) by (auto intro!: acceptsI)
qed

lemma accepts_M0: "accepts m (P0 # M1 # ss) w \<longleftrightarrow> accepts m (M0 # ss) w"
proof
  assume "accepts m (P0 # M1 # ss) w"
  then obtain t w1 where "w = t @ w1" "lang m P0 t" and r: "accepts m (M1 # ss) w1" by (rule acceptsE)
  moreover from r obtain u w' where "w1 = u @ w'" "lang m M1 u" "accepts m ss w'" by (rule acceptsE)
  ultimately obtain kv u w' where w: "w = pair_tokens kv @ u @ w'" "lang m M1 u" "accepts m ss w'" by (metis lang.simps(14))
  have "lang m M0 (pair_tokens kv @ u)"
  proof (cases "u = []")
    case True
    then show ?thesis by (auto intro!: exI [of _ "[kv]"] simp: members_def)
  next
    case False
    then obtain ms where "ms \<noteq> []" "u = tsym Value_separator # members ms" using w(2) by auto
    then show ?thesis by (auto intro!: exI [of _ "kv # ms"] simp: members_def commas_Cons)
  qed
  from acceptsI [OF this w(3)] show "accepts m (M0 # ss) w" by (simp add: w(1))
next
  assume "accepts m (M0 # ss) w"
  then obtain kv ms w' where w: "w = members (kv # ms) @ w'" "accepts m ss w'" by (auto elim!: acceptsE simp: neq_Nil_conv)
  define u where "u = (if ms = [] then [] else tsym Value_separator # members ms)"
  have "w = pair_tokens kv @ u @ w'" by (auto simp: w(1) u_def members_def commas_Cons)
  moreover have "lang m M1 u" by (auto simp: u_def)
  moreover have "lang m P0 (pair_tokens kv)" by (simp only: lang.simps) blast
  ultimately show "accepts m (P0 # M1 # ss) w"
    using acceptsI [of m P0 "pair_tokens kv" "M1 # ss" "u @ w'"] acceptsI [of m M1 u ss w'] w(2) by (simp del: lang.simps)
qed

lemma accepts_A1: "accepts m (A1 # ss) w \<longleftrightarrow> (\<exists>w'. w = tsym End_array # w' \<and> accepts m ss w') \<or> accepts m (E0 # A2 # ss) w"
proof
  assume "accepts m (A1 # ss) w"
  then obtain vs w' where w: "w = elems vs @ tsym End_array # w'" "accepts m ss w'" by (auto elim!: acceptsE)
  show "(\<exists>w'. w = tsym End_array # w' \<and> accepts m ss w') \<or> accepts m (E0 # A2 # ss) w"
  proof (cases "vs = []")
    case True
    then show ?thesis using w by (simp add: elems_def)
  next
    case False
    then have "lang m E0 (elems vs)" by auto
    from acceptsI [OF this acceptsI [of m A2 "[tsym End_array]", OF _ w(2)]] show ?thesis by (simp add: w(1))
  qed
next
  assume "(\<exists>w'. w = tsym End_array # w' \<and> accepts m ss w') \<or> accepts m (E0 # A2 # ss) w"
  then obtain vs w' where "w = (elems vs @ [tsym End_array]) @ w'" "accepts m ss w'"
    by (auto elim!: acceptsE) (metis append_Nil commas.simps(1) elems_def list.simps(8))
  then show "accepts m (A1 # ss) w" by (auto intro!: acceptsI simp del: append_assoc)
qed

lemma accepts_O1: "accepts m (O1 # ss) w \<longleftrightarrow> (\<exists>w'. w = tsym End_object # w' \<and> accepts m ss w') \<or> accepts m (M0 # O2 # ss) w"
proof
  assume "accepts m (O1 # ss) w"
  then obtain ms w' where w: "w = members ms @ tsym End_object # w'" "accepts m ss w'" by (auto elim!: acceptsE)
  show "(\<exists>w'. w = tsym End_object # w' \<and> accepts m ss w') \<or> accepts m (M0 # O2 # ss) w"
  proof (cases "ms = []")
    case True
    then show ?thesis using w by (simp add: members_def)
  next
    case False
    then have "lang m M0 (members ms)" by auto
    from acceptsI [OF this acceptsI [of m O2 "[tsym End_object]", OF _ w(2)]] show ?thesis by (simp add: w(1))
  qed
next
  assume "(\<exists>w'. w = tsym End_object # w' \<and> accepts m ss w') \<or> accepts m (M0 # O2 # ss) w"
  then obtain ms w' where "w = (members ms @ [tsym End_object]) @ w'" "accepts m ss w'"
    by (auto elim!: acceptsE) (metis append_Nil commas.simps(1) members_def list.simps(8))
  then show "accepts m (O1 # ss) w" by (auto intro!: acceptsI simp del: append_assoc)
qed

lemma accepts_single:
  assumes "\<And>u. lang m s u \<longleftrightarrow> u = [a]" shows "accepts m (s # ss) w \<longleftrightarrow> (\<exists>w'. w = a # w' \<and> accepts m ss w')"
  using assms by (simp add: accepts.simps)

lemma accepts_first:
  assumes "\<And>u. lang m s u \<longleftrightarrow> (\<exists>a u'. u = a # u' \<and> P a \<and> lang m s2 u')"
  shows "accepts m (s # ss) w \<longleftrightarrow> (\<exists>a w'. w = a # w' \<and> P a \<and> accepts m (s2 # ss) w')"
  using assms by (simp add: accepts.simps) (metis append_Cons)

lemma accepts_optional:
  assumes l: "\<And>u. lang m s u \<longleftrightarrow> u = [] \<or> (\<exists>u'. u = a # u' \<and> lang m s2 u')"
  shows "accepts m (s # ss) w \<longleftrightarrow> (\<exists>w'. w = a # w' \<and> accepts m (s2 # ss) w') \<or> accepts m ss w"
proof
  assume "accepts m (s # ss) w"
  then obtain u w' where u: "w = u @ w'" "lang m s u" "accepts m ss w'" by (rule acceptsE)
  from u(2) [unfolded l] show "(\<exists>w'. w = a # w' \<and> accepts m (s2 # ss) w') \<or> accepts m ss w"
    using u(1,3) acceptsI [of m s2 _ ss w'] by auto
next
  assume "(\<exists>w'. w = a # w' \<and> accepts m (s2 # ss) w') \<or> accepts m ss w"
  then show "accepts m (s # ss) w"
  proof (elim disjE exE conjE)
    fix w' assume w: "w = a # w'" "accepts m (s2 # ss) w'"
    from w(2) obtain u w2 where u: "w' = u @ w2" "lang m s2 u" "accepts m ss w2" by (rule acceptsE)
    then have "lang m s (a # u)" using l by blast
    from acceptsI [OF this u(3)] show ?thesis using w u by simp
  next
    assume "accepts m ss w"
    from acceptsI [OF _ this, of s "[]"] l show ?thesis by simp
  qed
qed

lemma accepts_A0: "accepts m (A0 # ss) w \<longleftrightarrow> (\<exists>a w'. w = a # w' \<and> a = tsym Begin_array \<and> accepts m (A1 # ss) w')"
  by (rule accepts_first) (auto simp: tokens_container)

lemma accepts_O0: "accepts m (O0 # ss) w \<longleftrightarrow> (\<exists>a w'. w = a # w' \<and> a = tsym Begin_object \<and> accepts m (O1 # ss) w')"
  by (rule accepts_first) (auto simp: tokens_container)

lemma accepts_P0: "accepts m (P0 # ss) w \<longleftrightarrow> (\<exists>a w'. w = a # w' \<and> (\<exists>k. a = key_tok k) \<and> accepts m (P1 # ss) w')"
  by (rule accepts_first) (auto simp: pair_tokens_def)

lemma accepts_P1: "accepts m (P1 # ss) w \<longleftrightarrow> (\<exists>a w'. w = a # w' \<and> a = tsym Name_separator \<and> accepts m (V0 # ss) w')"
  by (rule accepts_first) auto

lemma accepts_A2: "accepts m (A2 # ss) w \<longleftrightarrow> (\<exists>w'. w = tsym End_array # w' \<and> accepts m ss w')"
  by (rule accepts_single) simp

lemma accepts_O2: "accepts m (O2 # ss) w \<longleftrightarrow> (\<exists>w'. w = tsym End_object # w' \<and> accepts m ss w')"
  by (rule accepts_single) simp

lemma accepts_E1: "accepts m (E1 # ss) w \<longleftrightarrow> (\<exists>w'. w = tsym Value_separator # w' \<and> accepts m (E0 # ss) w') \<or> accepts m ss w"
  by (rule accepts_optional) auto

lemma accepts_M1: "accepts m (M1 # ss) w \<longleftrightarrow> (\<exists>w'. w = tsym Value_separator # w' \<and> accepts m (M0 # ss) w') \<or> accepts m ss w"
  by (rule accepts_optional) auto

lemma accepts_J1: "accepts m (J1 # ss) w \<longleftrightarrow> accepts m ss w"
  by (simp add: accepts.simps)

definition scalar_tok :: "atok \<Rightarrow> bool" where
  "scalar_tok a \<longleftrightarrow> (\<exists>v. \<not> container v \<and> tokens_of v = [a])"

lemma accepts_V0: "accepts m (V0 # ss) w \<longleftrightarrow> accepts m (A0 # ss) w \<or> accepts m (O0 # ss) w \<or> (\<exists>a w'. w = a # w' \<and> scalar_tok a \<and> accepts m ss w')"
proof -
  have "lang m V0 u \<longleftrightarrow> lang m A0 u \<or> lang m O0 u \<or> (\<exists>a. u = [a] \<and> scalar_tok a)" for u
  proof
    assume "lang m V0 u"
    then obtain v where "u = tokens_of v" by auto
    then show "lang m A0 u \<or> lang m O0 u \<or> (\<exists>a. u = [a] \<and> scalar_tok a)"
      by (cases v) (auto simp: scalar_tok_def intro: exI [of _ "v"])
  next
    assume "lang m A0 u \<or> lang m O0 u \<or> (\<exists>a. u = [a] \<and> scalar_tok a)"
    then show "lang m V0 u" by (auto simp: scalar_tok_def intro: sym)
  qed
  note l = this
  show ?thesis unfolding accepts.simps(2) [of m V0] l accepts.simps(2) [of m A0] accepts.simps(2) [of m O0]
    by (auto simp del: lang.simps) (metis append_Cons append_Nil)
qed

lemma accepts_J0: "accepts m (J0 # ss) w \<longleftrightarrow> accepts m ss w
    \<or> accepts m (A0 # (if m then J0 else J1) # ss) w \<or> accepts m (O0 # (if m then J0 else J1) # ss) w"
proof -
  have l: "lang m J0 u \<longleftrightarrow> u = [] \<or> (\<exists>u1 u2. u = u1 @ u2 \<and> (lang m A0 u1 \<or> lang m O0 u1) \<and> lang m (if m then J0 else J1) u2)" for u
  proof
    assume "lang m J0 u"
    then obtain vs where vs: "u = concat (map tokens_of vs)" "list_all container vs" "m \<or> length vs \<le> 1" by auto
    show "u = [] \<or> (\<exists>u1 u2. u = u1 @ u2 \<and> (lang m A0 u1 \<or> lang m O0 u1) \<and> lang m (if m then J0 else J1) u2)"
    proof (cases vs)
      case Nil
      then show ?thesis using vs by simp
    next
      case (Cons v vs')
      have "lang m A0 (tokens_of v) \<or> lang m O0 (tokens_of v)" using vs(2) Cons by (cases v) auto
      moreover have "lang m (if m then J0 else J1) (concat (map tokens_of vs'))" using vs Cons by auto
      ultimately show ?thesis using vs(1) Cons by (intro disjI2 exI [of _ "tokens_of v"] exI [of _ "concat (map tokens_of vs')"]) simp
    qed
  next
    assume "u = [] \<or> (\<exists>u1 u2. u = u1 @ u2 \<and> (lang m A0 u1 \<or> lang m O0 u1) \<and> lang m (if m then J0 else J1) u2)"
    then show "lang m J0 u"
    proof (elim disjE exE conjE)
      assume "u = []"
      then show ?thesis by (auto intro: exI [of _ "[]"])
    next
      fix u1 u2 assume u: "u = u1 @ u2" "lang m (if m then J0 else J1) u2" "lang m A0 u1"
      then obtain v where "u1 = tokens_of v" "container v" by (metis lang.simps(4) container.simps(1))
      moreover obtain vs where "u2 = concat (map tokens_of vs)" "list_all container vs" "m \<or> vs = []" using u(2) by (cases m) auto
      ultimately show ?thesis using u(1) by (auto intro!: exI [of _ "v # vs"])
    next
      fix u1 u2 assume u: "u = u1 @ u2" "lang m (if m then J0 else J1) u2" "lang m O0 u1"
      then obtain v where "u1 = tokens_of v" "container v" by (metis lang.simps(9) container.simps(2))
      moreover obtain vs where "u2 = concat (map tokens_of vs)" "list_all container vs" "m \<or> vs = []" using u(2) by (cases m) auto
      ultimately show ?thesis using u(1) by (auto intro!: exI [of _ "v # vs"])
    qed
  qed
  define s where "s = (if m then J0 else J1)"
  have "accepts m (J0 # ss) w \<longleftrightarrow> accepts m ss w \<or> (\<exists>u1 u2 w'. w = u1 @ u2 @ w' \<and> (lang m A0 u1 \<or> lang m O0 u1) \<and> lang m s u2 \<and> accepts m ss w')"
    (is "?l \<longleftrightarrow> ?r")
  proof
    assume ?l
    then show ?r unfolding accepts.simps(2) [of m J0] l s_def [symmetric] by (auto simp del: lang.simps) (metis append.assoc)+
  next
    assume ?r
    then show ?l unfolding accepts.simps(2) [of m J0] l s_def [symmetric]
    proof (elim disjE exE conjE)
      assume "accepts m ss w"
      then show "\<exists>u w'. w = u @ w' \<and> (u = [] \<or> (\<exists>u1 u2. u = u1 @ u2 \<and> (lang m A0 u1 \<or> lang m O0 u1) \<and> lang m s u2)) \<and> accepts m ss w'"
        by (intro exI [of _ "[]"] exI [of _ w]) simp
    qed (metis append.assoc)+
  qed
  also have "\<dots> \<longleftrightarrow> accepts m ss w \<or> accepts m (A0 # s # ss) w \<or> accepts m (O0 # s # ss) w"
    unfolding accepts.simps(2) [of m s] accepts.simps(2) [of m A0] accepts.simps(2) [of m O0] by blast
  finally show ?thesis unfolding s_def .
qed

section \<open>The position of the parser\<close>

lemma lexer_next_cleared:
  assumes "cleared t" "cleared t'"
  shows "lexer_next throw t lx = (case lexer_next throw t' lx of Inl e \<Rightarrow> Inl e | Inr (b, t1, lx1) \<Rightarrow> Inr (b, if b then t1 else t, lx1))"
  using assms(1)
proof (induction throw t lx rule: lexer_next.induct)
  case (1 throw t lx)
  note c = assms(2) [unfolded cleared_def] "1.prems" [unfolded cleared_def]
  have e: "t\<lparr>tok_value := v, tok_type := tt, tok_loc := l\<rparr> = t'\<lparr>tok_value := v, tok_type := tt, tok_loc := l\<rparr>"
    "t\<lparr>tok_value := v, tok_numeric := n, tok_type := tt, tok_loc := l\<rparr> = t'\<lparr>tok_value := v, tok_numeric := n, tok_type := tt, tok_loc := l\<rparr>"
    "t\<lparr>tok_type := tt, tok_loc := l\<rparr> = t'\<lparr>tok_type := tt, tok_loc := l\<rparr>" for v tt l n
    using c by (cases t; cases t'; simp)+
  show ?case
  proof (cases "get_char (set_cur_loc lx)")
    case None
    then show ?thesis by (simp add: lexer_next.simps [of throw t] lexer_next.simps [of throw t'])
  next
    case (Some p)
    obtain c lx1 where p: "p = (c, lx1)" by (cases p)
    note g = Some [unfolded p]
    show ?thesis
    proof (cases "is_ws c")
      case True
      then have "lexer_next throw t lx = lexer_next throw t lx1" "lexer_next throw t' lx = lexer_next throw t' lx1"
        using g by (simp_all add: lexer_next.simps [of throw t lx] lexer_next.simps [of throw t' lx])
      then show ?thesis using "1.IH" [OF refl g refl True] "1.prems" by simp
    next
      case ws: False
      consider (String) "c = 34" | (Number) "starts_number c" | (Literal) "starts_literal c"
        | (Struct) "c \<noteq> 34" "\<not> starts_number c" "\<not> starts_literal c" by blast
      then show ?thesis
      proof cases
        case String
        then show ?thesis using next_string [of lx lx1 throw] g
          by (simp add: e bindE_def split: sum.splits prod.splits option.splits)
      next
        case Number
        from next_number [OF g this] show ?thesis by (simp add: e bindE_def split: sum.splits prod.splits option.splits)
      next
        case Literal
        from next_literal [OF g this] show ?thesis by (simp add: e bindE_def split: sum.splits prod.splits option.splits)
      next
        case Struct
        from next_structural [OF g ws this] show ?thesis by (simp add: e split: option.splits)
      qed
    qed
  qed
qed

text \<open>
  \<open>stands p lx\<close>: the parser has yet to hand out what the lexer in state \<open>lx\<close> gives; a token it has peeked at is
  the next one.
\<close>

definition next_tok :: "lexer \<Rightarrow> json_err + (bool \<times> token \<times> lexer)" where
  "next_tok lx = lexer_next True new_token lx"

definition stands :: "parser \<Rightarrow> lexer \<Rightarrow> bool" where
  "stands p lx \<longleftrightarrow> tok_type (pr_peeked p) = T_none \<and> cleared (pr_peeked p) \<and> pr_lexer p = lx
    \<or> tok_type (pr_peeked p) \<noteq> T_none \<and> next_tok lx = Inr (True, pr_peeked p, pr_lexer p)"

lemma cleared_new: "cleared new_token" "cleared (clear_token t)" "tok_type (clear_token t) = T_none"
  by (simp_all add: cleared_def new_token_def clear_token_def)

lemma lexeme_not_none: "lexeme tt nt v w \<Longrightarrow> tt \<noteq> T_none"
  by (auto simp: lexeme_def)

lemma next_tok_type: "next_tok lx = Inr (True, t, lx') \<Longrightarrow> tok_type t \<noteq> T_none"
  unfolding next_tok_def by (erule next_sound [OF _ cleared_new(1)]) (auto dest: lexeme_not_none)

lemma stands_simps [simp]: "stands (push_state s p) lx = stands p lx" "stands (goto_state s p) lx = stands p lx"
  by (simp_all add: stands_def)

lemma get_token_some:
  assumes "stands p lx" "next_tok lx = Inr (True, t', lx')"
  shows "\<exists>p'. (\<forall>t. get_token t p = Inr (True, t', p')) \<and> stands p' lx' \<and> pr_stack p' = pr_stack p \<and> pr_state p' = pr_state p \<and> pr_allow_multiple p' = pr_allow_multiple p"
proof (cases "tok_type (pr_peeked p) = T_none")
  case True
  with assms(1) have p: "cleared (pr_peeked p)" "pr_lexer p = lx" by (auto simp: stands_def)
  have "lexer_next True (clear_token t) lx = Inr (True, t', lx')" for t
    using lexer_next_cleared [OF cleared_new(2) [of t] cleared_new(1), of True lx] assms(2) by (simp add: next_tok_def)
  then show ?thesis using True p by (intro exI [of _ "p\<lparr>pr_lexer := lx'\<rparr>"]) (simp add: get_token_def stands_def)
next
  case False
  with assms have "pr_peeked p = t'" "pr_lexer p = lx'" by (auto simp: stands_def)
  then show ?thesis using False
    by (intro exI [of _ "p\<lparr>pr_peeked := clear_token (pr_peeked p)\<rparr>"]) (simp add: get_token_def stands_def cleared_new)
qed

lemma peek_token_some:
  assumes "stands p lx" "next_tok lx = Inr (True, t', lx')"
  shows "\<exists>p'. peek_token p = Inr (tok_type t', p') \<and> stands p' lx \<and> pr_peeked p' = t' \<and> pr_stack p' = pr_stack p \<and> pr_state p' = pr_state p
    \<and> pr_allow_multiple p' = pr_allow_multiple p"
proof (cases "tok_type (pr_peeked p) = T_none")
  case True
  with assms(1) have p: "cleared (pr_peeked p)" "pr_lexer p = lx" by (auto simp: stands_def)
  have "lexer_next True (pr_peeked p) lx = Inr (True, t', lx')"
    using lexer_next_cleared [OF p(1) cleared_new(1), of True lx] assms(2) by (simp add: next_tok_def)
  then show ?thesis using True p assms(2) next_tok_type [OF assms(2)]
    by (intro exI [of _ "p\<lparr>pr_peeked := t', pr_lexer := lx'\<rparr>"]) (simp add: peek_token_def stands_def)
next
  case False
  with assms have "pr_peeked p = t'" "pr_lexer p = lx'" by (auto simp: stands_def)
  then show ?thesis using False assms(1) by (intro exI [of _ p]) (simp add: peek_token_def)
qed

text \<open>At the end of the input the parser stays there.\<close>

lemma peek_token_end:
  assumes "stands p lx" "next_tok lx = Inr (False, t', lx')"
  shows "\<exists>p' lx2. peek_token p = Inr (T_none, p') \<and> stands p' lx2 \<and> (\<exists>t lx3. next_tok lx2 = Inr (False, t, lx3)) \<and> pr_stack p' = pr_stack p \<and> pr_state p' = pr_state p
    \<and> pr_allow_multiple p' = pr_allow_multiple p"
proof -
  have p: "cleared (pr_peeked p)" "pr_lexer p = lx" "tok_type (pr_peeked p) = T_none" using assms by (auto simp: stands_def)
  have n: "lexer_next True (pr_peeked p) lx = Inr (False, pr_peeked p, lx')"
    using lexer_next_cleared [OF p(1) cleared_new(1), of True lx] assms(2) by (simp add: next_tok_def)
  have "list_all is_ws (lx_in lx)" using assms(2) next_end_iff [of new_token lx] by (auto simp: next_tok_def)
  then obtain lx2 where "lexer_next True (pr_peeked p) lx = Inr (False, pr_peeked p, lx2)" "lexed (lx_in lx) lx lx2" by (rule next_end)
  with n have "lx_in lx' = []" using lexed_in by fastforce
  then have "\<exists>t lx3. next_tok lx' = Inr (False, t, lx3)" using next_end_iff [of new_token lx'] by (simp add: next_tok_def)
  then show ?thesis using p n
    by (intro exI [of _ "p\<lparr>pr_peeked := pr_peeked p, pr_lexer := lx'\<rparr>"] exI [of _ lx']) (simp add: peek_token_def stands_def)
qed

lemma token_error:
  assumes "stands p lx" "next_tok lx = Inl e" shows "get_token t p = Inl e" "peek_token p = Inl e"
proof -
  have p: "cleared (pr_peeked p)" "pr_lexer p = lx" "tok_type (pr_peeked p) = T_none" using assms by (auto simp: stands_def)
  have "lexer_next True t lx = Inl e" if "cleared t" for t
    using lexer_next_cleared [OF that cleared_new(1), of True lx] assms(2) by (simp add: next_tok_def)
  then show "get_token t p = Inl e" "peek_token p = Inl e" using p by (simp_all add: get_token_def peek_token_def cleared_new)
qed

lemma get_token_end:
  assumes "stands p lx" "next_tok lx = Inr (False, t', lx')" shows "\<exists>t1 p'. get_token t p = Inr (False, t1, p')"
proof -
  have p: "cleared (pr_peeked p)" "pr_lexer p = lx" "tok_type (pr_peeked p) = T_none" using assms by (auto simp: stands_def)
  have "lexer_next True (clear_token t) lx = Inr (False, clear_token t, lx')"
    using lexer_next_cleared [OF cleared_new(2) [of t] cleared_new(1), of True lx] assms(2) by (simp add: next_tok_def)
  then show ?thesis using p by (simp add: get_token_def)
qed

section \<open>One turn of the loop\<close>

lemma atok_next:
  assumes "next_tok lx = Inr (True, t, lx')"
  shows "tok_type t \<in> {Begin_array, Begin_object, End_array, End_object, Name_separator, Value_separator} \<Longrightarrow> atok t = tsym (tok_type t)"
    "tok_type t = T_string \<Longrightarrow> atok t = key_tok (tok_value t)"
    "tok_type t \<in> {T_string, T_number, T_false, T_null, T_true} \<Longrightarrow> scalar_tok (atok t)"
proof -
  obtain w where l: "lexeme (tok_type t) (tok_numeric t) (tok_value t) w"
    using assms unfolding next_tok_def by (rule next_sound [OF _ cleared_new(1)])
  show "tok_type t \<in> {Begin_array, Begin_object, End_array, End_object, Name_separator, Value_separator} \<Longrightarrow> atok t = tsym (tok_type t)"
    "tok_type t = T_string \<Longrightarrow> atok t = key_tok (tok_value t)"
    using l by (auto simp: lexeme_def atok_def)
  assume "tok_type t \<in> {T_string, T_number, T_false, T_null, T_true}"
  then consider "tok_type t = T_string" | "tok_type t = T_number" | "tok_type t = T_false" | "tok_type t = T_null" | "tok_type t = T_true" by auto
  then show "scalar_tok (atok t)"
  proof cases
    case 1
    then show ?thesis using l by (auto simp: lexeme_def atok_def scalar_tok_def intro: exI [of _ "Str (tok_value t)"])
  next
    case 2
    then show ?thesis using l by (auto simp: lexeme_def atok_def scalar_tok_def intro: exI [of _ "Num (tok_numeric t) (tok_value t)"])
  next
    case 3
    then show ?thesis using l by (auto simp: lexeme_def atok_def scalar_tok_def intro: exI [of _ Lit_false])
  next
    case 4
    then show ?thesis using l by (auto simp: lexeme_def atok_def scalar_tok_def intro: exI [of _ Lit_null])
  next
    case 5
    then show ?thesis using l by (auto simp: lexeme_def atok_def scalar_tok_def intro: exI [of _ Lit_true])
  qed
qed

text \<open>\<open>same\<close>: only the token source has changed.\<close>

definition same :: "parser \<Rightarrow> parser \<Rightarrow> bool" where
  "same p p' \<longleftrightarrow> pr_stack p' = pr_stack p \<and> pr_state p' = pr_state p \<and> pr_allow_multiple p' = pr_allow_multiple p"

lemma next_tok_cases:
  obtains (Error) e where "next_tok lx = Inl e" | (End) t lx' where "next_tok lx = Inr (False, t, lx')" | (Token) t lx' where "next_tok lx = Inr (True, t, lx')"
proof (cases "next_tok lx")
  case (Inr r)
  then obtain b t lx' where "next_tok lx = Inr (b, t, lx')" by (cases r) auto
  then show thesis using End Token by (cases b) auto
qed (use Error in blast)

lemma get_token_spec:
  assumes "stands p lx" "get_token t p = Inr (True, t', p')"
  obtains lx' where "next_tok lx = Inr (True, t', lx')" "stands p' lx'" "same p p'"
proof (cases lx rule: next_tok_cases)
  case (Error e)
  then show thesis using token_error(1) [OF assms(1) Error, of t] assms(2) by simp
next
  case (End t1 lx')
  then show thesis using get_token_end [OF assms(1) End, of t] assms(2) by auto
next
  case (Token t1 lx')
  then show thesis using get_token_some [OF assms(1) Token] assms(2) that by (auto simp: same_def)
qed

lemma peek_token_spec:
  assumes "stands p lx" "peek_token p = Inr (tt, p')"
  obtains (Token) t lx' where "next_tok lx = Inr (True, t, lx')" "tok_type t = tt" "tt \<noteq> T_none" "stands p' lx" "same p p'" "pr_peeked p' = t"
    | (End) t lx' lx2 where "next_tok lx = Inr (False, t, lx')" "tt = T_none" "stands p' lx2" "\<exists>t lx3. next_tok lx2 = Inr (False, t, lx3)" "same p p'"
proof (cases lx rule: next_tok_cases)
  case (Error e)
  then show thesis using token_error(2) [OF assms(1) Error] assms(2) by simp
next
  case End
  then show thesis using peek_token_end [OF assms(1) End] assms(2) that(2) by (auto simp: same_def)
next
  case Token
  then show thesis using peek_token_some [OF assms(1) Token] assms(2) that(1) next_tok_type [OF Token] by (auto simp: same_def)
qed

lemma matches_token_spec:
  assumes "stands p lx" "matches_token tt t p = Inr (b, t', p')" "tt \<noteq> T_none"
  obtains (Match) lx' where "b" "next_tok lx = Inr (True, t', lx')" "tok_type t' = tt" "stands p' lx'" "same p p'"
    | (Other) lx2 where "\<not> b" "stands p' lx2" "lx2 = lx \<or> (\<exists>t lx'. next_tok lx2 = Inr (False, t, lx'))" "same p p'"
      "\<And>t lx'. next_tok lx = Inr (True, t, lx') \<Longrightarrow> tok_type t \<noteq> tt \<and> lx2 = lx"
proof -
  obtain k q where q: "peek_token p = Inr (k, q)" "if k = tt then get_token t q = Inr (b, t', p') else \<not> b \<and> t' = pr_peeked q \<and> p' = q"
    using assms(2) by (auto simp: matches_token_def bindE_eq_Inr split: if_splits)
  from assms(1) q(1) show thesis
  proof (cases rule: peek_token_spec)
    case (Token t1 lx')
    show thesis
    proof (cases "k = tt")
      case True
      with q Token get_token_some [OF Token(4,1)] show thesis using that(1) [of lx'] by (auto simp: same_def)
    next
      case False
      with q Token show thesis using that(2) [of lx] by auto
    qed
  next
    case (End t1 lx' lx2)
    then show thesis using q assms(3) that(2) [of lx2] by auto
  qed
qed

lemma require_spec:
  assumes "stands p lx" "require_and_push tt s t p = Inr r"
  obtains t' lx' p' where "r = Return True t' p'" "next_tok lx = Inr (True, t', lx')" "tok_type t' = tt" "stands p' lx'"
    "pr_stack p' = (case s of None \<Rightarrow> pr_stack p | Some s \<Rightarrow> s # pr_stack p)" "pr_allow_multiple p' = pr_allow_multiple p"
proof -
  obtain t' q where q: "get_token t p = Inr (True, t', q)" "tok_type t' = tt" "r = Return True t' (case s of None \<Rightarrow> q | Some s \<Rightarrow> push_state s q)"
    using assms(2) by (auto simp: require_and_push_def require_token_def bindE_eq_Inr split: if_splits)
  from assms(1) q(1) obtain lx' where "next_tok lx = Inr (True, t', lx')" "stands q lx'" "same p q" by (rule get_token_spec)
  then show thesis using that q by (cases s) (simp_all add: same_def)
qed

lemma end_or_first_spec:
  assumes "stands p lx" "end_or_first tt rest first t p = Inr r" "tt \<noteq> T_none"
  obtains (End) t' lx' p' where "r = Return True t' p'" "next_tok lx = Inr (True, t', lx')" "tok_type t' = tt" "stands p' lx'"
      "pr_stack p' = pr_stack p" "pr_allow_multiple p' = pr_allow_multiple p"
    | (First) t' p' lx2 where "r = Continue t' p'" "stands p' lx2" "lx2 = lx \<or> (\<exists>t lx'. next_tok lx2 = Inr (False, t, lx'))" "pr_state p' = first"
      "pr_stack p' = rest # pr_stack p" "pr_allow_multiple p' = pr_allow_multiple p"
proof -
  obtain b t' q where q: "matches_token tt t p = Inr (b, t', q)" "r = (if b then Return True t' q else Continue t' (goto_state first (push_state rest q)))"
    using assms(2) by (auto simp: end_or_first_def bindE_eq_Inr split: if_splits)
  from assms(1) q(1) assms(3) show thesis
    by (cases rule: matches_token_spec) (use q that in \<open>auto simp: same_def\<close>)
qed

lemma separator_spec:
  assumes "stands p lx" "separator_or_pop s t p = Inr r"
  obtains (Sep) t' lx' p' where "r = Return True t' p'" "next_tok lx = Inr (True, t', lx')" "tok_type t' = Value_separator" "stands p' lx'"
      "pr_stack p' = s # pr_stack p" "pr_allow_multiple p' = pr_allow_multiple p"
    | (Pop) t' p' lx2 where "r = Continue t' p'" "stands p' lx2" "lx2 = lx \<or> (\<exists>t lx'. next_tok lx2 = Inr (False, t, lx'))" "pr_stack p = pr_state p' # pr_stack p'"
      "pr_allow_multiple p' = pr_allow_multiple p"
proof -
  obtain b t' q where q: "matches_token Value_separator t p = Inr (b, t', q)"
    "if b then r = Return True t' (push_state s q) else (\<exists>p'. pop_state q = Inr p' \<and> r = Continue t' p')"
    using assms(2) by (auto simp: separator_or_pop_def bindE_eq_Inr split: if_splits)
  have "Value_separator \<noteq> T_none" by simp
  with assms(1) q(1) show thesis
  proof (cases rule: matches_token_spec)
    case (Match lx')
    then show thesis using that(1) q by (auto simp: same_def)
  next
    case (Other lx2)
    then obtain p' where p': "pop_state q = Inr p'" "r = Continue t' p'" using q by auto
    then have "stands p' lx2" "pr_stack p = pr_state p' # pr_stack p'" "pr_allow_multiple p' = pr_allow_multiple p"
      using Other by (auto simp: pop_state_def same_def stands_def split: list.splits)
    then show thesis using that(2) Other p' by blast
  qed
qed

fun wf_stack :: "pstate list \<Rightarrow> bool" where
  "wf_stack [] = True"
| "wf_stack (s # ss) \<longleftrightarrow> wf_stack ss \<and> (s = E0 \<or> s = E1 \<longrightarrow> (\<exists>r. ss = A2 # r)) \<and> (s = M0 \<or> s = M1 \<longrightarrow> (\<exists>r. ss = O2 # r))
    \<and> (s = J0 \<or> s = J1 \<longrightarrow> ss = [])"

definition later :: "lexer \<Rightarrow> lexer \<Rightarrow> bool" where
  "later lx lx2 \<longleftrightarrow> lx2 = lx \<or> (\<exists>t lx'. next_tok lx2 = Inr (False, t, lx'))"

definition whole :: "parser \<Rightarrow> pstate list" where
  "whole p = pr_state p # pr_stack p"

lemma turn_continue:
  assumes "stands p lx" "parser_turn t p = Inr (Continue t' p')" "wf_stack (whole p)" "m = pr_allow_multiple p"
  shows "(\<exists>lx2. stands p' lx2 \<and> later lx lx2) \<and> wf_stack (whole p') \<and> pr_allow_multiple p' = m
    \<and> (\<forall>w. accepts m (whole p') w \<longrightarrow> accepts m (whole p) w) \<and> pr_state p' \<notin> {J0, J1}"
proof (cases "pr_state p")
  case J0
  then obtain tt q where q: "peek_token (push_state (if m then J0 else J1) p) = Inr (tt, q)"
    "tt = Begin_array \<and> p' = goto_state A0 q \<or> tt = Begin_object \<and> p' = goto_state O0 q"
    using assms(2,4) by (auto simp: parser_turn_def bindE_eq_Inr split: if_splits)
  from assms(1) have "stands (push_state (if m then J0 else J1) p) lx" by simp
  from this q(1) show ?thesis
    by (cases rule: peek_token_spec) (use q J0 assms(3,4) accepts_J0 [of m "pr_stack p"] in \<open>auto simp: same_def whole_def later_def\<close>)
next
  case V0
  then obtain tt q where q: "peek_token p = Inr (tt, q)"
    "tt = Begin_array \<and> p' = goto_state A0 q \<or> tt = Begin_object \<and> p' = goto_state O0 q"
    using assms(2) by (auto simp: parser_turn_def bindE_eq_Inr split: if_splits)
  from assms(1) q(1) show ?thesis
    by (cases rule: peek_token_spec) (use q V0 assms(3,4) accepts_V0 [of m "pr_stack p"] in \<open>auto simp: same_def whole_def later_def\<close>)
next
  case A1
  then have "end_or_first End_array A2 E0 t p = Inr (Continue t' p')" using assms(2) by (simp add: parser_turn_def)
  from assms(1) this token_type.distinct(5) [symmetric] show ?thesis
    by (cases rule: end_or_first_spec) (use A1 assms(3,4) accepts_A1 [of m "pr_stack p"] in \<open>auto simp: whole_def later_def\<close>)
next
  case O1
  then have "end_or_first End_object O2 M0 t p = Inr (Continue t' p')" using assms(2) by (simp add: parser_turn_def)
  from assms(1) this token_type.distinct(7) [symmetric] show ?thesis
    by (cases rule: end_or_first_spec) (use O1 assms(3,4) accepts_O1 [of m "pr_stack p"] in \<open>auto simp: whole_def later_def\<close>)
next
  case E1
  then have "separator_or_pop E0 t p = Inr (Continue t' p')" using assms(2) by (simp add: parser_turn_def)
  from assms(1) this show ?thesis
    by (cases rule: separator_spec) (use E1 assms(3,4) accepts_E1 [of m "pr_stack p"] in \<open>auto simp: whole_def later_def\<close>)
next
  case M1
  then have "separator_or_pop M0 t p = Inr (Continue t' p')" using assms(2) by (simp add: parser_turn_def)
  from assms(1) this show ?thesis
    by (cases rule: separator_spec) (use M1 assms(3,4) accepts_M1 [of m "pr_stack p"] in \<open>auto simp: whole_def later_def\<close>)
next
  case E0
  then have "p' = goto_state V0 (push_state E1 p)" using assms(2) by (simp add: parser_turn_def)
  then show ?thesis using E0 assms accepts_E0 by (auto simp: whole_def later_def)
next
  case M0
  then have "p' = goto_state P0 (push_state M1 p)" using assms(2) by (simp add: parser_turn_def)
  then show ?thesis using M0 assms accepts_M0 by (auto simp: whole_def later_def)
qed (use assms(2) in \<open>auto simp: parser_turn_def require_and_push_def bindE_eq_Inr split: if_splits\<close>)

lemma turn_return:
  assumes "stands p lx" "parser_turn t p = Inr (Return b t' p')" "wf_stack (whole p)" "m = pr_allow_multiple p"
  shows "if b then \<exists>lx'. next_tok lx = Inr (True, t', lx') \<and> stands p' lx' \<and> wf_stack (pr_stack p') \<and> pr_allow_multiple p' = m
      \<and> (\<forall>w. accepts m (pr_stack p') w \<longrightarrow> accepts m (whole p) (atok t' # w))
    else pr_state p \<in> {J0, J1} \<and> accepts m (whole p) []"
proof (cases "pr_state p")
  case J0
  then have "\<not> b" using assms(2) by (auto simp: parser_turn_def bindE_eq_Inr split: if_splits)
  then show ?thesis using J0 assms(3,4) accepts_J0 [of m "[]" "[]"] by (simp add: whole_def)
next
  case J1
  then show ?thesis using assms by (auto simp: parser_turn_def whole_def accepts_J1)
next
  case A0
  then have "require_and_push Begin_array (Some A1) t p = Inr (Return b t' p')" using assms(2) by (simp add: parser_turn_def)
  with assms(1) show ?thesis by (rule require_spec) (use A0 assms(3,4) accepts_A0 atok_next(1) in \<open>auto simp: whole_def\<close>)
next
  case O0
  then have "require_and_push Begin_object (Some O1) t p = Inr (Return b t' p')" using assms(2) by (simp add: parser_turn_def)
  with assms(1) show ?thesis by (rule require_spec) (use O0 assms(3,4) accepts_O0 atok_next(1) in \<open>auto simp: whole_def\<close>)
next
  case A2
  then have "require_and_push End_array None t p = Inr (Return b t' p')" using assms(2) by (simp add: parser_turn_def)
  with assms(1) show ?thesis by (rule require_spec) (use A2 assms(3,4) accepts_A2 atok_next(1) in \<open>auto simp: whole_def\<close>)
next
  case O2
  then have "require_and_push End_object None t p = Inr (Return b t' p')" using assms(2) by (simp add: parser_turn_def)
  with assms(1) show ?thesis by (rule require_spec) (use O2 assms(3,4) accepts_O2 atok_next(1) in \<open>auto simp: whole_def\<close>)
next
  case P0
  then have "require_and_push T_string (Some P1) t p = Inr (Return b t' p')" using assms(2) by (simp add: parser_turn_def)
  with assms(1) show ?thesis by (rule require_spec) (use P0 assms(3,4) accepts_P0 atok_next(2) in \<open>auto simp: whole_def\<close>)
next
  case P1
  then have "require_and_push Name_separator (Some V0) t p = Inr (Return b t' p')" using assms(2) by (simp add: parser_turn_def)
  with assms(1) show ?thesis by (rule require_spec) (use P1 assms(3,4) accepts_P1 atok_next(1) in \<open>auto simp: whole_def\<close>)
next
  case A1
  then have "end_or_first End_array A2 E0 t p = Inr (Return b t' p')" using assms(2) by (simp add: parser_turn_def)
  from assms(1) this token_type.distinct(5) [symmetric] show ?thesis
    by (cases rule: end_or_first_spec) (use A1 assms(3,4) accepts_A1 [of m "pr_stack p"] atok_next(1) in \<open>auto simp: whole_def\<close>)
next
  case O1
  then have "end_or_first End_object O2 M0 t p = Inr (Return b t' p')" using assms(2) by (simp add: parser_turn_def)
  from assms(1) this token_type.distinct(7) [symmetric] show ?thesis
    by (cases rule: end_or_first_spec) (use O1 assms(3,4) accepts_O1 [of m "pr_stack p"] atok_next(1) in \<open>auto simp: whole_def\<close>)
next
  case E1
  then have "separator_or_pop E0 t p = Inr (Return b t' p')" using assms(2) by (simp add: parser_turn_def)
  from assms(1) this show ?thesis
    by (cases rule: separator_spec) (use E1 assms(3,4) accepts_E1 [of m "pr_stack p"] atok_next(1) in \<open>auto simp: whole_def\<close>)
next
  case M1
  then have "separator_or_pop M0 t p = Inr (Return b t' p')" using assms(2) by (simp add: parser_turn_def)
  from assms(1) this show ?thesis
    by (cases rule: separator_spec) (use M1 assms(3,4) accepts_M1 [of m "pr_stack p"] atok_next(1) in \<open>auto simp: whole_def\<close>)
next
  case V0
  then obtain tt q b2 where q: "peek_token p = Inr (tt, q)" "tt \<in> {T_string, T_number, T_false, T_null, T_true}" "get_token t q = Inr (b2, t', p')" "b"
    using assms(2) by (auto simp: parser_turn_def bindE_eq_Inr split: if_splits)
  from assms(1) q(1) show ?thesis
  proof (cases rule: peek_token_spec)
    case (Token t1 lx')
    with get_token_some [OF Token(4,1)] q have "t1 = t'" "stands p' lx'" "same q p'" by (auto simp: same_def)
    moreover have "scalar_tok (atok t1)" using atok_next(3) [OF Token(1)] Token(2) q(2) by simp
    then have "accepts m (V0 # pr_stack p) (atok t1 # w)" if "accepts m (pr_stack p) w" for w using that accepts_V0 by blast
    ultimately show ?thesis using Token(1,5) q(4) V0 assms(3,4) by (simp add: whole_def same_def)
  qed (use q in auto)
qed (use assms(2) in \<open>auto simp: parser_turn_def\<close>)

lemma loop_sound:
  "stands p lx \<Longrightarrow> wf_stack (whole p) \<Longrightarrow> parser_loop t p = Inr (b, t', p') \<Longrightarrow> m = pr_allow_multiple p \<Longrightarrow>
    if b then \<exists>lx'. next_tok lx = Inr (True, t', lx') \<and> stands p' lx' \<and> wf_stack (pr_stack p') \<and> pr_allow_multiple p' = m
      \<and> (\<forall>w. accepts m (pr_stack p') w \<longrightarrow> accepts m (whole p) (atok t' # w))
    else pr_state p \<in> {J0, J1} \<and> accepts m (whole p) []"
proof (induction t p arbitrary: lx rule: parser_loop.induct)
  case (1 t p)
  from "1.prems"(3) obtain r where r: "parser_turn t p = Inr r" by (subst (asm) parser_loop.simps) (auto simp: bindE_eq_Inr)
  show ?case
  proof (cases r)
    case (Return b2 t2 p2)
    then have "b2 = b" "t2 = t'" "p2 = p'" using "1.prems"(3) r by (subst (asm) parser_loop.simps, simp)+
    then show ?thesis using turn_return [OF "1.prems"(1) _ "1.prems"(2,4)] r Return by blast
  next
    case (Continue t2 p2)
    then have l: "parser_loop t2 p2 = Inr (b, t', p')" using "1.prems"(3) r by (subst (asm) parser_loop.simps) simp
    from turn_continue [OF "1.prems"(1) _ "1.prems"(2,4)] r Continue obtain lx2 where c: "stands p2 lx2" "later lx lx2" "wf_stack (whole p2)"
      "pr_allow_multiple p2 = m" "\<forall>w. accepts m (whole p2) w \<longrightarrow> accepts m (whole p) w" "pr_state p2 \<notin> {J0, J1}" by metis
    from "1.IH" [OF r Continue c(1,3) l] c(4) have i: "if b then \<exists>lx'. next_tok lx2 = Inr (True, t', lx') \<and> stands p' lx' \<and> wf_stack (pr_stack p') \<and> pr_allow_multiple p' = m
      \<and> (\<forall>w. accepts m (pr_stack p') w \<longrightarrow> accepts m (whole p2) (atok t' # w))
      else pr_state p2 \<in> {J0, J1} \<and> accepts m (whole p2) []" by simp
    show ?thesis
    proof (cases b)
      case True
      with i c(2) have "lx2 = lx" by (auto simp: later_def)
      then show ?thesis using i c(5) True by auto
    qed (use i c(6) in simp)
  qed
qed

text \<open>Completeness: a token that the language of the stack allows is handed out.\<close>

lemma matches_complete:
  assumes "stands p lx" "next_tok lx = Inr (True, a, lx')"
  shows "tok_type a = tt \<Longrightarrow> \<exists>p'. (\<forall>t. matches_token tt t p = Inr (True, a, p')) \<and> stands p' lx' \<and> same p p'"
    "tok_type a \<noteq> tt \<Longrightarrow> \<exists>p'. (\<forall>t. matches_token tt t p = Inr (False, a, p')) \<and> stands p' lx \<and> same p p'"
proof -
  from peek_token_some [OF assms] obtain q where q: "peek_token p = Inr (tok_type a, q)" "stands q lx" "pr_peeked q = a" "same p q" by (auto simp: same_def)
  from get_token_some [OF q(2) assms(2)] obtain p' where "\<forall>t. get_token t q = Inr (True, a, p')" "stands p' lx'" "same q p'" by (auto simp: same_def)
  then show "tok_type a = tt \<Longrightarrow> \<exists>p'. (\<forall>t. matches_token tt t p = Inr (True, a, p')) \<and> stands p' lx' \<and> same p p'"
    using q by (auto simp: matches_token_def same_def)
  show "tok_type a \<noteq> tt \<Longrightarrow> \<exists>p'. (\<forall>t. matches_token tt t p = Inr (False, a, p')) \<and> stands p' lx \<and> same p p'"
    using q by (auto simp: matches_token_def)
qed

lemma require_complete:
  assumes "stands p lx" "next_tok lx = Inr (True, a, lx')" "tok_type a = tt"
  shows "\<exists>p'. (\<forall>t. require_and_push tt s t p = Inr (Return True a p')) \<and> stands p' lx'
    \<and> pr_stack p' = (case s of None \<Rightarrow> pr_stack p | Some s \<Rightarrow> s # pr_stack p) \<and> pr_allow_multiple p' = pr_allow_multiple p"
proof -
  from get_token_some [OF assms(1,2)] obtain p' where "\<forall>t. get_token t p = Inr (True, a, p')" "stands p' lx'" "same p p'" by (auto simp: same_def)
  then show ?thesis using assms(3)
    by (intro exI [of _ "case s of None \<Rightarrow> p' | Some s \<Rightarrow> push_state s p'"]) (auto simp: require_and_push_def require_token_def same_def split: option.splits)
qed

definition value_start :: "token_type \<Rightarrow> bool" where
  "value_start tt \<longleftrightarrow> tt \<in> {Begin_array, Begin_object, T_string, T_number, T_false, T_null, T_true}"

lemma scalar_start: "scalar_tok a \<Longrightarrow> fst a \<in> {T_string, T_number, T_false, T_null, T_true}"
  unfolding scalar_tok_def by (elim exE conjE) (rename_tac v, case_tac v, auto)

lemma accepts_V0_start: "accepts m (V0 # ss) (a # w) \<Longrightarrow> value_start (fst a)"
  using scalar_start [of a] by (auto simp: accepts_V0 accepts_A0 accepts_O0 value_start_def)

lemma accepts_E0_start: "accepts m (E0 # ss) (a # w) \<Longrightarrow> value_start (fst a)"
  using accepts_V0_start by (simp flip: accepts_E0)

lemma accepts_M0_start: "accepts m (M0 # ss) (a # w) \<Longrightarrow> fst a = T_string"
  by (auto simp: accepts_P0 simp flip: accepts_M0)

definition progress :: "bool \<Rightarrow> parser \<Rightarrow> lexer \<Rightarrow> token \<Rightarrow> lexer \<Rightarrow> atok list \<Rightarrow> bool" where
  "progress m p lx a lx' w \<longleftrightarrow>
    (\<exists>p2. (\<forall>t. \<exists>t2. parser_turn t p = Inr (Continue t2 p2)) \<and> stands p2 lx \<and> pr_allow_multiple p2 = m \<and> accepts m (whole p2) (atok a # w))
    \<or> (\<exists>p2. (\<forall>t. parser_turn t p = Inr (Return True a p2)) \<and> stands p2 lx' \<and> pr_allow_multiple p2 = m \<and> accepts m (pr_stack p2) w)"

text \<open>The kinds of states, one lemma each.\<close>

lemma progress_require:
  assumes "stands p lx" "next_tok lx = Inr (True, a, lx')" "\<And>t. parser_turn t p = require_and_push tt s t p" "tok_type a = tt"
    "accepts (pr_allow_multiple p) (case s of None \<Rightarrow> pr_stack p | Some s \<Rightarrow> s # pr_stack p) w"
  shows "progress (pr_allow_multiple p) p lx a lx' w"
  using require_complete [OF assms(1,2,4), of s] assms(3,5) unfolding progress_def by metis

lemma progress_end:
  assumes s: "stands p lx" and n: "next_tok lx = Inr (True, a, lx')" and t: "\<And>t. parser_turn t p = end_or_first tt rest first t p"
    and e: "tok_type a = tt \<Longrightarrow> accepts (pr_allow_multiple p) (pr_stack p) w"
    and f: "tok_type a \<noteq> tt \<Longrightarrow> accepts (pr_allow_multiple p) (first # rest # pr_stack p) (atok a # w)"
  shows "progress (pr_allow_multiple p) p lx a lx' w"
proof (cases "tok_type a = tt")
  case True
  from matches_complete(1) [OF s n this] obtain q where "\<forall>t. matches_token tt t p = Inr (True, a, q)" "stands q lx'" "same p q" by blast
  then show ?thesis using e [OF True] unfolding progress_def t by (intro disjI2 exI [of _ q]) (simp add: end_or_first_def same_def)
next
  case False
  from matches_complete(2) [OF s n this] obtain q where "\<forall>t. matches_token tt t p = Inr (False, a, q)" "stands q lx" "same p q" by blast
  then show ?thesis using f [OF False] unfolding progress_def t
    by (intro disjI1 exI [of _ "goto_state first (push_state rest q)"]) (simp add: end_or_first_def whole_def same_def)
qed

lemma progress_separator:
  assumes s: "stands p lx" and n: "next_tok lx = Inr (True, a, lx')" and t: "\<And>t. parser_turn t p = separator_or_pop s2 t p"
    and r: "pr_stack p = s3 # r"
    and e: "tok_type a = Value_separator \<Longrightarrow> accepts (pr_allow_multiple p) (s2 # pr_stack p) w"
    and f: "tok_type a \<noteq> Value_separator \<Longrightarrow> accepts (pr_allow_multiple p) (pr_stack p) (atok a # w)"
  shows "progress (pr_allow_multiple p) p lx a lx' w"
proof (cases "tok_type a = Value_separator")
  case True
  from matches_complete(1) [OF s n this] obtain q where "\<forall>t. matches_token Value_separator t p = Inr (True, a, q)" "stands q lx'" "same p q" by blast
  then show ?thesis using e [OF True] unfolding progress_def t
    by (intro disjI2 exI [of _ "push_state s2 q"]) (simp add: separator_or_pop_def same_def)
next
  case False
  from matches_complete(2) [OF s n this] obtain q where "\<forall>t. matches_token Value_separator t p = Inr (False, a, q)" "stands q lx" "same p q" by blast
  then show ?thesis using f [OF False] r unfolding progress_def t
    by (intro disjI1 exI [of _ "q\<lparr>pr_state := s3, pr_stack := r\<rparr>"])
      (simp add: separator_or_pop_def pop_state_def whole_def same_def stands_def)
qed

lemma progress_top:
  assumes s: "stands p lx" and n: "next_tok lx = Inr (True, a, lx')" and m: "m = pr_allow_multiple p"
    and acc: "accepts m (whole p) (atok a # w)" and wf: "wf_stack (whole p)" and J0: "pr_state p = J0"
  shows "progress m p lx a lx' w"
proof -
  have acc2: "accepts m (A0 # (if m then J0 else J1) # pr_stack p) (atok a # w) \<or> accepts m (O0 # (if m then J0 else J1) # pr_stack p) (atok a # w)"
    using acc wf J0 by (simp add: whole_def accepts_J0)
  then have tt: "tok_type a = Begin_array \<or> tok_type a = Begin_object" by (auto simp: accepts_A0 accepts_O0 atok_def)
  define q0 where "q0 = push_state (if m then J0 else J1) p"
  from s have "stands q0 lx" by (simp add: q0_def)
  from peek_token_some [OF this n] obtain q where q: "peek_token q0 = Inr (tok_type a, q)" "stands q lx" "same q0 q" by (auto simp: same_def)
  define s2 where "s2 = (if tok_type a = Begin_array then A0 else O0)"
  have "parser_turn t p = Inr (Continue t (goto_state s2 q))" for t using J0 m q(1) [unfolded q0_def] tt by (auto simp: parser_turn_def s2_def)
  moreover have "accepts m (whole (goto_state s2 q)) (atok a # w)"
    using acc2 q(3) tt by (auto simp: whole_def same_def q0_def s2_def accepts_A0 accepts_O0 atok_def)
  ultimately show ?thesis using q m unfolding progress_def
    by (intro disjI1 exI [of _ "goto_state s2 q"]) (auto simp: same_def q0_def)
qed

lemma progress_value:
  assumes s: "stands p lx" and n: "next_tok lx = Inr (True, a, lx')" and m: "m = pr_allow_multiple p"
    and acc: "accepts m (whole p) (atok a # w)" and V0: "pr_state p = V0"
  shows "progress m p lx a lx' w"
proof -
  have acc2: "accepts m (A0 # pr_stack p) (atok a # w) \<or> accepts m (O0 # pr_stack p) (atok a # w) \<or> scalar_tok (atok a) \<and> accepts m (pr_stack p) w"
    using acc V0 by (auto simp: whole_def accepts_V0)
  from peek_token_some [OF s n] obtain q where q: "peek_token p = Inr (tok_type a, q)" "stands q lx" "same p q" by (auto simp: same_def)
  show ?thesis
  proof (cases "scalar_tok (atok a)")
    case True
    then have tt: "tok_type a \<in> {T_string, T_number, T_false, T_null, T_true}" using scalar_start [OF True] by (simp add: atok_def)
    from get_token_some [OF q(2) n] obtain p2 where p2: "\<forall>t. get_token t q = Inr (True, a, p2)" "stands p2 lx'" "same q p2" by (auto simp: same_def)
    have "accepts m (pr_stack p) w" using acc2 tt by (auto simp: accepts_A0 accepts_O0 atok_def)
    moreover have "parser_turn t p = Inr (Return True a p2)" for t using V0 q(1) tt p2(1) by (auto simp: parser_turn_def)
    ultimately show ?thesis using q p2 m unfolding progress_def by (intro disjI2 exI [of _ p2]) (simp add: same_def)
  next
    case False
    then have tt: "tok_type a = Begin_array \<or> tok_type a = Begin_object" using acc2 by (auto simp: accepts_A0 accepts_O0 atok_def)
    define s2 where "s2 = (if tok_type a = Begin_array then A0 else O0)"
    have "parser_turn t p = Inr (Continue t (goto_state s2 q))" for t using V0 q(1) tt by (auto simp: parser_turn_def s2_def)
    moreover have "accepts m (whole (goto_state s2 q)) (atok a # w)"
      using acc2 q(3) tt False by (auto simp: whole_def same_def s2_def accepts_A0 accepts_O0 atok_def)
    ultimately show ?thesis using q m unfolding progress_def by (intro disjI1 exI [of _ "goto_state s2 q"]) (auto simp: same_def)
  qed
qed

lemma turn_complete:
  assumes s: "stands p lx" and n: "next_tok lx = Inr (True, a, lx')" and m: "m = pr_allow_multiple p"
    and acc: "accepts m (whole p) (atok a # w)" and wf: "wf_stack (whole p)"
  shows "progress m p lx a lx' w"
proof (cases "pr_state p")
  case A0
  then show ?thesis unfolding m using acc m
    by (intro progress_require [OF s n, of Begin_array "Some A1"]) (auto simp: parser_turn_def whole_def accepts_A0 atok_def)
next
  case O0
  then show ?thesis unfolding m using acc m
    by (intro progress_require [OF s n, of Begin_object "Some O1"]) (auto simp: parser_turn_def whole_def accepts_O0 atok_def)
next
  case A2
  then show ?thesis unfolding m using acc m
    by (intro progress_require [OF s n, of End_array None]) (auto simp: parser_turn_def whole_def accepts_A2 atok_def)
next
  case O2
  then show ?thesis unfolding m using acc m
    by (intro progress_require [OF s n, of End_object None]) (auto simp: parser_turn_def whole_def accepts_O2 atok_def)
next
  case P0
  then show ?thesis unfolding m using acc m
    by (intro progress_require [OF s n, of T_string "Some P1"]) (auto simp: parser_turn_def whole_def accepts_P0 atok_def)
next
  case P1
  then show ?thesis unfolding m using acc m
    by (intro progress_require [OF s n, of Name_separator "Some V0"]) (auto simp: parser_turn_def whole_def accepts_P1 atok_def)
next
  case A1
  then show ?thesis unfolding m using acc m accepts_E0_start [of m "A2 # pr_stack p" "atok a" w]
    by (intro progress_end [OF s n, of End_array A2 E0]) (auto simp: parser_turn_def whole_def accepts_A1 atok_def value_start_def)
next
  case O1
  then show ?thesis unfolding m using acc m accepts_M0_start [of m "O2 # pr_stack p" "atok a" w]
    by (intro progress_end [OF s n, of End_object O2 M0]) (auto simp: parser_turn_def whole_def accepts_O1 atok_def)
next
  case E1
  then obtain r where r: "pr_stack p = A2 # r" using wf by (auto simp: whole_def)
  show ?thesis unfolding m using acc m E1 r
    by (intro progress_separator [OF s n, of E0]) (auto simp: parser_turn_def whole_def accepts_E1 accepts_A2 atok_def)
next
  case M1
  then obtain r where r: "pr_stack p = O2 # r" using wf by (auto simp: whole_def)
  show ?thesis unfolding m using acc m M1 r
    by (intro progress_separator [OF s n, of M0]) (auto simp: parser_turn_def whole_def accepts_M1 accepts_O2 atok_def)
next
  case V0
  then show ?thesis using progress_value [OF s n m acc] by simp
next
  case J0
  then show ?thesis using progress_top [OF s n m acc wf] by simp
next
  case E0
  then show ?thesis using s m acc unfolding progress_def
    by (intro disjI1 exI [of _ "goto_state V0 (push_state E1 p)"]) (simp add: parser_turn_def whole_def accepts_E0)
next
  case M0
  then show ?thesis using s m acc unfolding progress_def
    by (intro disjI1 exI [of _ "goto_state P0 (push_state M1 p)"]) (simp add: parser_turn_def whole_def accepts_M0)
next
  case J1
  then show ?thesis using acc wf by (simp add: whole_def accepts_J1)
qed

lemma loop_complete:
  fixes t :: token
  shows "stands p lx \<Longrightarrow> next_tok lx = Inr (True, a, lx') \<Longrightarrow> m = pr_allow_multiple p \<Longrightarrow> accepts m (whole p) (atok a # w) \<Longrightarrow> wf_stack (whole p)
    \<Longrightarrow> \<exists>p'. (\<forall>t. parser_loop t p = Inr (True, a, p')) \<and> stands p' lx' \<and> wf_stack (pr_stack p') \<and> pr_allow_multiple p' = m \<and> accepts m (pr_stack p') w"
proof (induction t p rule: parser_loop.induct)
  case (1 t p)
  from turn_complete [OF "1.prems"] show ?case unfolding progress_def
  proof (elim disjE exE conjE)
    fix p2 assume c: "\<forall>t. \<exists>t2. parser_turn t p = Inr (Continue t2 p2)" "stands p2 lx" "pr_allow_multiple p2 = m" "accepts m (whole p2) (atok a # w)"
    then obtain t2 where t2: "parser_turn t p = Inr (Continue t2 p2)" by blast
    from turn_continue [OF "1.prems"(1) t2 "1.prems"(5,3)] have "wf_stack (whole p2)" by simp
    from "1.IH" [OF t2 refl c(2) "1.prems"(2) c(3) [symmetric] c(4) this] obtain p' where
      p': "\<forall>t. parser_loop t p2 = Inr (True, a, p')" "stands p' lx'" "wf_stack (pr_stack p')" "pr_allow_multiple p' = m" "accepts m (pr_stack p') w" by blast
    have "parser_loop t p = Inr (True, a, p')" for t
    proof -
      from c(1) obtain t3 where "parser_turn t p = Inr (Continue t3 p2)" by blast
      then show ?thesis using p'(1) by (simp add: parser_loop.simps [of t p])
    qed
    then show ?thesis using p' by blast
  next
    fix p2 assume r: "\<forall>t. parser_turn t p = Inr (Return True a p2)" "stands p2 lx'" "pr_allow_multiple p2 = m" "accepts m (pr_stack p2) w"
    have "parser_loop t p = Inr (True, a, p2)" for t using r(1) by (simp add: parser_loop.simps [of t p])
    moreover have "wf_stack (pr_stack p2)" using turn_return [OF "1.prems"(1) _ "1.prems"(5,3), of t True a p2] r(1) by auto
    ultimately show ?thesis using r by blast
  qed
qed

section \<open>All tokens\<close>

text \<open>The tokens that the parser hands out in turn, and those that the lexer gives.\<close>

inductive hands_out :: "parser \<Rightarrow> token list \<Rightarrow> parser \<Rightarrow> bool" where
  hands_Nil: "hands_out p [] p"
| hands_Cons: "parser_next t0 p = Inr (True, t, p1) \<Longrightarrow> hands_out p1 ts p2 \<Longrightarrow> hands_out p (t # ts) p2"

inductive gives :: "lexer \<Rightarrow> token list \<Rightarrow> lexer \<Rightarrow> bool" where
  gives_Nil: "gives lx [] lx"
| gives_Cons: "next_tok lx = Inr (True, t, lx1) \<Longrightarrow> gives lx1 ts lx2 \<Longrightarrow> gives lx (t # ts) lx2"

inductive_simps gives_Cons_iff: "gives lx (t # ts) lx2"
inductive_simps gives_Nil_iff: "gives lx [] lx2"
inductive_simps hands_Cons_iff: "hands_out p (t # ts) p2"
inductive_simps hands_Nil_iff: "hands_out p [] p2"

lemma next_sound_p:
  assumes "parser_next t0 p = Inr (True, t, p')" "stands p lx" "wf_stack (pr_stack p)" "m = pr_allow_multiple p"
  shows "\<exists>lx'. next_tok lx = Inr (True, t, lx') \<and> stands p' lx' \<and> wf_stack (pr_stack p') \<and> pr_allow_multiple p' = m
    \<and> (\<forall>w. accepts m (pr_stack p') w \<longrightarrow> accepts m (pr_stack p) (atok t # w))"
proof -
  obtain s ss where st: "pr_stack p = s # ss" using assms(1) by (cases "pr_stack p") (auto simp: parser_next_def)
  define q where "q = p\<lparr>pr_state := s, pr_stack := ss\<rparr>"
  have "parser_loop t0 q = Inr (True, t, p')" "stands q lx" "wf_stack (whole q)" "m = pr_allow_multiple q" "whole q = pr_stack p"
    using assms st by (simp_all add: parser_next_def pop_state_def q_def stands_def whole_def)
  then show ?thesis using loop_sound [of q lx t0 True t p' m] by simp
qed

lemma next_complete_p:
  assumes "stands p lx" "next_tok lx = Inr (True, a, lx')" "m = pr_allow_multiple p" "accepts m (pr_stack p) (atok a # w)" "wf_stack (pr_stack p)"
  obtains p' where "\<And>t. parser_next t p = Inr (True, a, p')" "stands p' lx'" "wf_stack (pr_stack p')" "pr_allow_multiple p' = m" "accepts m (pr_stack p') w"
proof -
  obtain s ss where st: "pr_stack p = s # ss" using assms(4) by (cases "pr_stack p") auto
  define q where "q = p\<lparr>pr_state := s, pr_stack := ss\<rparr>"
  have q: "stands q lx" "wf_stack (whole q)" "m = pr_allow_multiple q" "accepts m (whole q) (atok a # w)"
    using assms st by (simp_all add: q_def stands_def whole_def)
  from loop_complete [OF q(1) assms(2) q(3,4,2)] obtain p' where p': "\<forall>t. parser_loop t q = Inr (True, a, p')" "stands p' lx'"
    "wf_stack (pr_stack p')" "pr_allow_multiple p' = m" "accepts m (pr_stack p') w" by blast
  moreover have "parser_next t p = Inr (True, a, p')" for t using p'(1) st by (simp add: parser_next_def pop_state_def q_def)
  ultimately show thesis using that by blast
qed

lemma next_false:
  assumes "parser_next t0 p = Inr (False, t, p')" "stands p lx" "wf_stack (pr_stack p)" "m = pr_allow_multiple p"
  shows "accepts m (pr_stack p) []"
proof (cases "pr_stack p")
  case (Cons s ss)
  define q where "q = p\<lparr>pr_state := s, pr_stack := ss\<rparr>"
  have "parser_loop t0 q = Inr (False, t, p')" "stands q lx" "wf_stack (whole q)" "m = pr_allow_multiple q" "whole q = pr_stack p"
    using assms Cons by (simp_all add: parser_next_def pop_state_def q_def stands_def whole_def)
  then show ?thesis using loop_sound [of q lx t0 False t p' m] by simp
qed simp

lemma hands_out_sound:
  assumes "hands_out p ts p'" "stands p lx" "wf_stack (pr_stack p)" "m = pr_allow_multiple p"
  shows "\<exists>lx'. gives lx ts lx' \<and> stands p' lx' \<and> wf_stack (pr_stack p') \<and> pr_allow_multiple p' = m
    \<and> (\<forall>w. accepts m (pr_stack p') w \<longrightarrow> accepts m (pr_stack p) (map atok ts @ w))"
  using assms
proof (induction arbitrary: lx rule: hands_out.induct)
  case (hands_Nil p)
  then show ?case by (auto intro: gives_Nil)
next
  case (hands_Cons t0 p t p1 ts p2)
  from next_sound_p [OF hands_Cons.hyps(1) hands_Cons.prems] obtain lx1 where n: "next_tok lx = Inr (True, t, lx1)" "stands p1 lx1"
    "wf_stack (pr_stack p1)" "pr_allow_multiple p1 = m" "\<forall>w. accepts m (pr_stack p1) w \<longrightarrow> accepts m (pr_stack p) (atok t # w)" by blast
  from hands_Cons.IH [OF n(2,3) n(4) [symmetric]] obtain lx2 where "gives lx1 ts lx2" "stands p2 lx2" "wf_stack (pr_stack p2)" "pr_allow_multiple p2 = m"
    "\<forall>w. accepts m (pr_stack p2) w \<longrightarrow> accepts m (pr_stack p1) (map atok ts @ w)" by blast
  then show ?case using n(1,5) by (intro exI [of _ lx2]) (auto intro: gives_Cons)
qed

lemma hands_out_complete:
  assumes "gives lx ts lx'" "stands p lx" "wf_stack (pr_stack p)" "m = pr_allow_multiple p" "accepts m (pr_stack p) (map atok ts @ w)"
  shows "\<exists>p'. hands_out p ts p' \<and> stands p' lx' \<and> wf_stack (pr_stack p') \<and> pr_allow_multiple p' = m \<and> accepts m (pr_stack p') w"
  using assms
proof (induction arbitrary: p rule: gives.induct)
  case (gives_Nil lx)
  then show ?case by (auto intro: hands_Nil)
next
  case (gives_Cons lx t lx1 ts lx2)
  have "accepts m (pr_stack p) (atok t # map atok ts @ w)" using gives_Cons.prems(4) by simp
  from next_complete_p [OF gives_Cons.prems(1) gives_Cons.hyps(1) gives_Cons.prems(3) this gives_Cons.prems(2)] obtain p1
    where p1: "\<And>t0. parser_next t0 p = Inr (True, t, p1)" "stands p1 lx1" "wf_stack (pr_stack p1)" "pr_allow_multiple p1 = m" "accepts m (pr_stack p1) (map atok ts @ w)" by blast
  from gives_Cons.IH [OF p1(2,3) p1(4) [symmetric] p1(5)] p1(1) show ?case by (blast intro: hands_Cons)
qed

lemma new_parser_ok: "stands (new_parser lx m) lx" "wf_stack (pr_stack (new_parser lx m))" "pr_allow_multiple (new_parser lx m) = m" "pr_stack (new_parser lx m) = [J0]"
  using cleared_new by (simp_all add: new_parser_def stands_def) (simp add: new_token_def)

lemma tokens_nonempty: "tokens_of v \<noteq> []" "vs \<noteq> [] \<Longrightarrow> elems vs \<noteq> []" "ms \<noteq> [] \<Longrightarrow> members ms \<noteq> []" "pair_tokens kv \<noteq> []"
proof -
  show t: "tokens_of v \<noteq> []" for v by (cases v) (simp_all add: tokens_container)
  show "vs \<noteq> [] \<Longrightarrow> elems vs \<noteq> []" by (cases vs) (simp_all add: elems_def commas_Cons t)
  show p: "pair_tokens kv \<noteq> []" for kv by (cases kv) (simp add: pair_tokens_def)
  show "ms \<noteq> [] \<Longrightarrow> members ms \<noteq> []" by (cases ms) (simp_all add: members_def commas_Cons p)
qed

lemma accepts_Nil:
  assumes "accepts m ss []" "wf_stack ss" shows "ss = [] \<or> ss = [J0] \<or> ss = [J1]"
proof (cases ss)
  case (Cons s r)
  then have l: "lang m s []" "accepts m r []" using assms(1) by (auto elim: acceptsE)
  have n: "\<not> accepts m (A2 # q) []" "\<not> accepts m (O2 # q) []" for q by (simp_all add: accepts_A2 accepts_O2)
  show ?thesis
  proof (cases "s \<in> {J0, J1}")
    case True
    then show ?thesis using assms(2) Cons by auto
  next
    case False
    then have "s = E1 \<or> s = M1" using l(1) tokens_nonempty [THEN not_sym] by (cases s) (auto simp del: tokens_of.simps)
    then show ?thesis using assms(2) Cons l(2) n by auto
  qed
qed simp

lemma next_ends:
  assumes "stands p lx" "next_tok lx = Inr (False, t, lx')" "accepts m (pr_stack p) []" "wf_stack (pr_stack p)"
  shows "\<exists>p'. parser_next t0 p = Inr (False, t0, p')"
proof -
  consider "pr_stack p = []" | "pr_stack p = [J0]" | "pr_stack p = [J1]" using accepts_Nil [OF assms(3,4)] by blast
  then show ?thesis
  proof cases
    case 2
    have "stands (push_state s (p\<lparr>pr_state := J0, pr_stack := []\<rparr>)) lx" for s using assms(1) by (simp add: stands_def)
    from peek_token_end [OF this assms(2)] obtain p' where "\<And>s. peek_token (push_state s (p\<lparr>pr_state := J0, pr_stack := []\<rparr>)) = Inr (T_none, p' s)" by metis
    then show ?thesis using 2 by (simp add: parser_next_def pop_state_def parser_loop.simps parser_turn_def)
  qed (simp_all add: parser_next_def pop_state_def parser_loop.simps parser_turn_def)
qed

definition json_texts :: "bool \<Rightarrow> jtree list \<Rightarrow> bool" where
  "json_texts m vs \<longleftrightarrow> list_all container vs \<and> (m \<or> length vs \<le> 1)"

definition ends :: "token \<Rightarrow> parser \<Rightarrow> bool" where
  "ends t p \<longleftrightarrow> (\<exists>t' p'. parser_next t p = Inr (False, t', p'))"

section \<open>Properties\<close>



end
