(* ===== verification/Json_Store.thy ===== *)
theory Json_Store
  imports Zorba_Prelude
begin

text \<open>
  JSON items in the store (\<open>store/naive/json_items.cpp\<close>, \<open>json_items.h\<close>), the readers of their contents
  (\<open>content_reader.cpp\<close>, \<open>content_reader.h\<close>) and the factory functions that the JSON loader uses (\<open>simple_item_factory.cpp\<close>).

  The store maps addresses to items; the address of an array or object is that of its vector of members, which is also the key of its
  readers. \<open>arena\<close> holds the addresses that \<open>operator new\<close> will give out. Reference counts are left out and nothing is freed.
  Members are JSON items and atomic items; of an atomic item the model keeps its kind and its string value. An operation takes a store to
  its result or exception and the store it leaves.
\<close>

section \<open>Operations with exceptions on a state\<close>

definition returnS :: "'a \<Rightarrow> 's \<Rightarrow> ('e + 'a) \<times> 's" where
  "returnS x s = (Inr x, s)"

definition throwS :: "'e \<Rightarrow> 's \<Rightarrow> ('e + 'a) \<times> 's" where
  "throwS e s = (Inl e, s)"

definition bindS :: "('s \<Rightarrow> ('e + 'a) \<times> 's) \<Rightarrow> ('a \<Rightarrow> 's \<Rightarrow> ('e + 'b) \<times> 's) \<Rightarrow> 's \<Rightarrow> ('e + 'b) \<times> 's" where
  "bindS m f s = (case m s of (Inl e, s') \<Rightarrow> (Inl e, s') | (Inr x, s') \<Rightarrow> f x s')"

definition seqS :: "('s \<Rightarrow> ('e + unit) \<times> 's) \<Rightarrow> ('s \<Rightarrow> ('e + 'b) \<times> 's) \<Rightarrow> 's \<Rightarrow> ('e + 'b) \<times> 's" where
  "seqS m f = bindS m (\<lambda>_. f)"

primrec forS :: "'a list \<Rightarrow> ('a \<Rightarrow> 's \<Rightarrow> ('e + unit) \<times> 's) \<Rightarrow> 's \<Rightarrow> ('e + unit) \<times> 's" where
  "forS [] f = returnS ()"
| "forS (x # xs) f = seqS (f x) (forS xs f)"

definition whenS :: "bool \<Rightarrow> ('s \<Rightarrow> ('e + unit) \<times> 's) \<Rightarrow> 's \<Rightarrow> ('e + unit) \<times> 's" where
  "whenS b m = (if b then m else returnS ())"

section \<open>State\<close>

type_synonym addr = u64

datatype atomic = String_item "byte list" | Integer_item "byte list" | Decimal_item "byte list" | Double_item "byte list" | Boolean_item bool | Null_item

datatype content = Pairs "(addr \<times> addr) list" "(byte list \<rightharpoonup> nat) option" | Members "addr list"

record json_item =
  theCollectionInfo :: "addr option"
  theHeight :: nat
  content_of :: content

datatype item = Atomic atomic | JSON json_item

record reader =
  theKey :: "addr option"
  thePrev :: "nat option"
  theNext :: "nat option"
  theTarget :: addr
  thePos :: nat
  theSize :: nat
  theCopy :: "addr list"

record json_store =
  items :: "addr \<rightharpoonup> item"
  arena :: "addr list"
  readers :: "reader list"
  theReaders :: "nat option list"

datatype store_err = Nesting_exceeded | String_value_of_structured | Range_exception | Duplicate_key "byte list" | Bad_alloc | Bad_pointer | Endless

type_synonym 'a store_op = "json_store \<Rightarrow> (store_err + 'a) \<times> json_store"

definition item_at :: "addr \<Rightarrow> item store_op" where
  "item_at a s = (case items s a of None \<Rightarrow> throwS Bad_pointer s | Some it \<Rightarrow> returnS it s)"

definition json_at :: "addr \<Rightarrow> json_item store_op" where
  "json_at a = bindS (item_at a) (\<lambda>it. case it of JSON j \<Rightarrow> returnS j | Atomic _ \<Rightarrow> throwS Bad_pointer)"

definition pairs_at :: "addr \<Rightarrow> ((addr \<times> addr) list \<times> (byte list \<rightharpoonup> nat) option) store_op" where
  "pairs_at a = bindS (json_at a) (\<lambda>j. case content_of j of Pairs ps ks \<Rightarrow> returnS (ps, ks) | Members _ \<Rightarrow> throwS Bad_pointer)"

definition members_at :: "addr \<Rightarrow> addr list store_op" where
  "members_at a = bindS (json_at a) (\<lambda>j. case content_of j of Members ms \<Rightarrow> returnS ms | Pairs _ _ \<Rightarrow> throwS Bad_pointer)"

definition put_json :: "addr \<Rightarrow> json_item \<Rightarrow> unit store_op" where
  "put_json a j s = (Inr (), s\<lparr>items := (items s)(a \<mapsto> JSON j)\<rparr>)"

definition modify_json :: "addr \<Rightarrow> (json_item \<Rightarrow> json_item) \<Rightarrow> unit store_op" where
  "modify_json a f = bindS (json_at a) (\<lambda>j. put_json a (f j))"

definition new_item :: "item \<Rightarrow> addr store_op" where
  "new_item it s = (case arena s of [] \<Rightarrow> throwS Bad_alloc s
    | a # as \<Rightarrow> (Inr a, s\<lparr>arena := as, items := (items s)(a \<mapsto> it)\<rparr>))"

section \<open>Readers\<close>

definition BUCKETS :: nat where
  "BUCKETS = 256"

definition reader_bucket :: "addr \<Rightarrow> nat" where
  "reader_bucket k = unat ((ucast (drop_bit 4 k XOR drop_bit 12 k) :: u32) AND of_nat (BUCKETS - 1))"

definition reader_at :: "nat \<Rightarrow> reader store_op" where
  "reader_at i s = (if i < length (readers s) then returnS (readers s ! i) s else throwS Bad_pointer s)"

definition modify_reader :: "nat \<Rightarrow> (reader \<Rightarrow> reader) \<Rightarrow> unit store_op" where
  "modify_reader i f s = (if i < length (readers s) then (Inr (), s\<lparr>readers := (readers s)[i := f (readers s ! i)]\<rparr>) else throwS Bad_pointer s)"

definition head_at :: "addr \<Rightarrow> nat option store_op" where
  "head_at key s = (if reader_bucket key < length (theReaders s) then returnS (theReaders s ! reader_bucket key) s else throwS Bad_pointer s)"

definition set_head :: "addr \<Rightarrow> nat option \<Rightarrow> unit store_op" where
  "set_head key h s = (if reader_bucket key < length (theReaders s) then (Inr (), s\<lparr>theReaders := (theReaders s)[reader_bucket key := h]\<rparr>)
    else throwS Bad_pointer s)"

definition unlink :: "nat \<Rightarrow> unit store_op" where
  "unlink i = bindS (reader_at i) (\<lambda>r.
    seqS (case thePrev r of
        Some p \<Rightarrow> modify_reader p (\<lambda>q. q\<lparr>theNext := theNext r\<rparr>)
      | None \<Rightarrow> (case theKey r of None \<Rightarrow> throwS Bad_pointer | Some key \<Rightarrow> set_head key (theNext r)))
    (seqS (case theNext r of None \<Rightarrow> returnS () | Some n \<Rightarrow> modify_reader n (\<lambda>q. q\<lparr>thePrev := thePrev r\<rparr>))
    (modify_reader i (\<lambda>q. q\<lparr>theKey := None, thePrev := None, theNext := None\<rparr>))))"

definition stopReading :: "nat \<Rightarrow> unit store_op" where
  "stopReading i = bindS (reader_at i) (\<lambda>r. whenS (theKey r \<noteq> None) (unlink i))"

definition startReading :: "nat \<Rightarrow> addr \<Rightarrow> unit store_op" where
  "startReading i key = bindS (reader_at i) (\<lambda>r.
    if theKey r = Some key then returnS ()
    else seqS (stopReading i) (bindS (head_at key) (\<lambda>hd.
      seqS (modify_reader i (\<lambda>q. q\<lparr>theKey := Some key, thePrev := None, theNext := hd\<rparr>))
      (seqS (case hd of None \<Rightarrow> returnS () | Some h \<Rightarrow> modify_reader h (\<lambda>q. q\<lparr>thePrev := Some i\<rparr>))
      (set_head key (Some i))))))"

definition isReading :: "reader \<Rightarrow> bool" where
  "isReading r \<longleftrightarrow> theKey r \<noteq> None"

text \<open>What an iterator over an item returns: the keys of an object, the members of an array.\<close>

definition contents :: "content \<Rightarrow> addr list" where
  "contents c = (case c of Pairs ps _ \<Rightarrow> map fst ps | Members ms \<Rightarrow> ms)"

text \<open>\<open>copyContent\<close> of both iterators: the first \<open>theSize\<close> elements.\<close>

definition copyContent :: "nat \<Rightarrow> unit store_op" where
  "copyContent i = bindS (reader_at i) (\<lambda>r. bindS (json_at (theTarget r)) (\<lambda>j.
    if theSize r \<le> length (contents (content_of j)) then modify_reader i (\<lambda>q. q\<lparr>theCopy := take (theSize r) (contents (content_of j))\<rparr>)
    else throwS Bad_pointer))"

text \<open>The loop of \<open>copyContents\<close>. A list without a cycle has at most as many elements as there are readers.\<close>

primrec copy_loop :: "nat \<Rightarrow> addr \<Rightarrow> nat option \<Rightarrow> unit store_op" where
  "copy_loop 0 key p = (case p of None \<Rightarrow> returnS () | Some _ \<Rightarrow> throwS Endless)"
| "copy_loop (Suc n) key p = (case p of None \<Rightarrow> returnS ()
    | Some i \<Rightarrow> bindS (reader_at i) (\<lambda>r.
        seqS (whenS (theKey r = Some key) (seqS (copyContent i) (unlink i))) (copy_loop n key (theNext r))))"

definition copyContents :: "addr \<Rightarrow> unit store_op" where
  "copyContents key = bindS (head_at key) (\<lambda>h s. copy_loop (length (readers s)) key h s)"

definition contentWillChange :: "addr \<Rightarrow> unit store_op" where
  "contentWillChange key = bindS (head_at key) (\<lambda>h. whenS (h \<noteq> None) (copyContents key))"

section \<open>Iterators\<close>

definition new_iterator :: "addr \<Rightarrow> nat store_op" where
  "new_iterator a s = (Inr (length (readers s)),
    s\<lparr>readers := readers s @ [\<lparr>theKey = None, thePrev = None, theNext = None, theTarget = a, thePos = 0, theSize = 0, theCopy = []\<rparr>]\<rparr>)"

definition iterator_open :: "nat \<Rightarrow> unit store_op" where
  "iterator_open i = seqS (modify_reader i (\<lambda>q. q\<lparr>theCopy := []\<rparr>)) (bindS (reader_at i) (\<lambda>r.
    seqS (startReading i (theTarget r)) (bindS (json_at (theTarget r)) (\<lambda>j.
    modify_reader i (\<lambda>q. q\<lparr>thePos := 0, theSize := length (contents (content_of j))\<rparr>)))))"

definition iterator_next :: "nat \<Rightarrow> addr option store_op" where
  "iterator_next i = bindS (reader_at i) (\<lambda>r.
    if thePos r = theSize r then seqS (modify_reader i (\<lambda>q. q\<lparr>theCopy := []\<rparr>)) (returnS None)
    else bindS (if isReading r then bindS (json_at (theTarget r)) (\<lambda>j. returnS (contents (content_of j))) else returnS (theCopy r)) (\<lambda>xs.
      if thePos r < length xs then seqS (modify_reader i (\<lambda>q. q\<lparr>thePos := thePos r + 1\<rparr>)) (returnS (Some (xs ! thePos r)))
      else throwS Bad_pointer))"

definition iterator_reset :: "nat \<Rightarrow> unit store_op" where
  "iterator_reset i = iterator_open i"

definition iterator_close :: "nat \<Rightarrow> unit store_op" where
  "iterator_close i = seqS (stopReading i) (modify_reader i (\<lambda>q. q\<lparr>theCopy := [], thePos := 0, theSize := 0\<rparr>))"

section \<open>All JSON items\<close>

definition MAX_DEPTH :: nat where
  "MAX_DEPTH = 1500"

definition new_json :: "content \<Rightarrow> addr store_op" where
  "new_json c = new_item (JSON \<lparr>theCollectionInfo = None, theHeight = 1, content_of = c\<rparr>)"

definition addHeightOf :: "addr \<Rightarrow> addr \<Rightarrow> unit store_op" where
  "addHeightOf this aMember = bindS (item_at aMember) (\<lambda>it. case it of
      Atomic _ \<Rightarrow> returnS ()
    | JSON m \<Rightarrow> if theHeight m \<ge> MAX_DEPTH then throwS Nesting_exceeded
        else modify_json this (\<lambda>j. if theHeight m \<ge> theHeight j then j\<lparr>theHeight := theHeight m + 1\<rparr> else j))"

definition isDeepest :: "addr \<Rightarrow> addr \<Rightarrow> bool store_op" where
  "isDeepest this aMember = bindS (item_at aMember) (\<lambda>it. case it of
      Atomic _ \<Rightarrow> returnS False
    | JSON m \<Rightarrow> bindS (json_at this) (\<lambda>j. returnS (theHeight m + 1 = theHeight j)))"

definition member_values :: "content \<Rightarrow> addr list" where
  "member_values c = (case c of Pairs ps _ \<Rightarrow> map snd ps | Members ms \<Rightarrow> ms)"

definition recomputeHeight :: "addr \<Rightarrow> unit store_op" where
  "recomputeHeight this = seqS (modify_json this (\<lambda>j. j\<lparr>theHeight := 1\<rparr>))
    (bindS (json_at this) (\<lambda>j. forS (member_values (content_of j)) (addHeightOf this)))"

definition is_json :: "(addr \<rightharpoonup> item) \<Rightarrow> addr \<Rightarrow> bool" where
  "is_json h a = (case h a of Some (JSON _) \<Rightarrow> True | _ \<Rightarrow> False)"

text \<open>
  The loop of \<open>setCollectionTreeInfo\<close>; the head of the list is the back of the vector. \<open>setCollectionInfoOfMembers\<close> pushes the members
  that are JSON items. The loop does not end on an item that is its own descendant.
\<close>

partial_function (option) set_info_loop :: "addr option \<Rightarrow> addr list \<Rightarrow> (addr \<rightharpoonup> item) \<Rightarrow> (store_err + (addr \<rightharpoonup> item)) option" where
  "set_info_loop info pending h = (case pending of [] \<Rightarrow> Some (Inr h)
    | a # rest \<Rightarrow> (case h a of
        Some (JSON j) \<Rightarrow> (let h = h(a \<mapsto> JSON (j\<lparr>theCollectionInfo := info\<rparr>)) in
          set_info_loop info (rev (filter (is_json h) (member_values (content_of j))) @ rest) h)
      | _ \<Rightarrow> Some (Inl Bad_pointer)))"

definition setCollectionTreeInfo :: "addr \<Rightarrow> addr option \<Rightarrow> unit store_op" where
  "setCollectionTreeInfo a info s = (case set_info_loop info [a] (items s) of
      None \<Rightarrow> (Inl Endless, s) | Some (Inl e) \<Rightarrow> (Inl e, s) | Some (Inr h) \<Rightarrow> (Inr (), s\<lparr>items := h\<rparr>))"

text \<open>\<open>getCollection() != NULL && value->isStructuredItem()\<close> and the call that depends on it.\<close>

definition pass_info :: "addr \<Rightarrow> addr \<Rightarrow> bool \<Rightarrow> unit store_op" where
  "pass_info this a attach = bindS (json_at this) (\<lambda>j. bindS (item_at a) (\<lambda>it. case it of
      Atomic _ \<Rightarrow> returnS ()
    | JSON _ \<Rightarrow> whenS (theCollectionInfo j \<noteq> None) (setCollectionTreeInfo a (if attach then theCollectionInfo j else None))))"

section \<open>Objects\<close>

definition KEY_INDEX_THRESHOLD :: nat where
  "KEY_INDEX_THRESHOLD = 16"

fun string_value :: "atomic \<Rightarrow> byte list" where
  "string_value (String_item s) = s"
| "string_value (Integer_item s) = s"
| "string_value (Decimal_item s) = s"
| "string_value (Double_item s) = s"
| "string_value (Boolean_item b) = map of_char (if b then ''true'' else ''false'')"
| "string_value Null_item = map of_char ''null''"

definition keyString :: "addr \<Rightarrow> byte list store_op" where
  "keyString key = bindS (item_at key) (\<lambda>it. case it of
    Atomic a \<Rightarrow> returnS (string_value a) | JSON _ \<Rightarrow> throwS String_value_of_structured)"

primrec find_linear :: "(addr \<times> addr) list \<Rightarrow> nat \<Rightarrow> addr \<Rightarrow> byte list \<Rightarrow> nat store_op" where
  "find_linear [] i aName aNameStr = returnS i"
| "find_linear (p # ps) i aName aNameStr =
    (if fst p = aName then returnS i
     else bindS (keyString (fst p)) (\<lambda>k. if k = aNameStr then returnS i else find_linear ps (i + 1) aName aNameStr))"

definition findKey :: "addr \<Rightarrow> addr \<Rightarrow> byte list \<Rightarrow> nat store_op" where
  "findKey this aName aNameStr = bindS (pairs_at this) (\<lambda>(ps, ks). case ks of
      Some keys \<Rightarrow> returnS (case keys aNameStr of None \<Rightarrow> length ps | Some i \<Rightarrow> i)
    | None \<Rightarrow> find_linear ps 0 aName aNameStr)"

definition set_pairs :: "addr \<Rightarrow> (addr \<times> addr) list \<Rightarrow> (byte list \<rightharpoonup> nat) option \<Rightarrow> unit store_op" where
  "set_pairs this ps ks = modify_json this (\<lambda>j. j\<lparr>content_of := Pairs ps ks\<rparr>)"

text \<open>\<open>insert\<close> of an \<open>unordered_map\<close> keeps the entry of a key that is already there.\<close>

definition index_insert :: "byte list \<Rightarrow> nat \<Rightarrow> (byte list \<rightharpoonup> nat) \<Rightarrow> (byte list \<rightharpoonup> nat)" where
  "index_insert k i m = (if k \<in> dom m then m else m(k \<mapsto> i))"

primrec build_index :: "(addr \<times> addr) list \<Rightarrow> nat \<Rightarrow> (byte list \<rightharpoonup> nat) \<Rightarrow> (byte list \<rightharpoonup> nat) store_op" where
  "build_index [] i m = returnS m"
| "build_index (p # ps) i m = bindS (keyString (fst p)) (\<lambda>k. build_index ps (i + 1) (index_insert k i m))"

definition buildKeyIndex :: "addr \<Rightarrow> unit store_op" where
  "buildKeyIndex this = bindS (pairs_at this) (\<lambda>(ps, _). bindS (build_index ps 0 Map.empty) (\<lambda>m. set_pairs this ps (Some m)))"

section \<open>Arrays\<close>

definition set_members :: "addr \<Rightarrow> addr list \<Rightarrow> unit store_op" where
  "set_members this ms = modify_json this (\<lambda>j. j\<lparr>content_of := Members ms\<rparr>)"

definition array_push_back :: "addr \<Rightarrow> addr \<Rightarrow> unit store_op" where
  "array_push_back this aValue = seqS (contentWillChange this) (seqS (addHeightOf this aValue) (seqS (pass_info this aValue True)
    (bindS (members_at this) (\<lambda>ms. set_members this (ms @ [aValue])))))"

text \<open>\<open>vector::insert\<close> at an index beyond the end is undefined.\<close>

definition insert_at :: "u64 \<Rightarrow> addr \<Rightarrow> addr list \<Rightarrow> store_err + addr list" where
  "insert_at i x xs = (if unat i \<le> length xs then Inr (take (unat i) xs @ x # drop (unat i) xs) else Inl Bad_pointer)"

definition insert_member :: "addr \<Rightarrow> u64 \<Rightarrow> addr \<Rightarrow> unit store_op" where
  "insert_member this i x = bindS (members_at this) (\<lambda>ms. case insert_at i x ms of Inl e \<Rightarrow> throwS e | Inr ms' \<Rightarrow> set_members this ms')"

definition array_add :: "addr \<Rightarrow> u64 \<Rightarrow> addr list \<Rightarrow> unit store_op" where
  "array_add this aTargetPos aNewMembers = seqS (contentWillChange this) (seqS (forS aNewMembers (addHeightOf this))
    (forS (List.enumerate 0 aNewMembers) (\<lambda>(i, x). seqS (pass_info this x True) (insert_member this (aTargetPos + of_nat i) x))))"

definition array_push_back_all :: "addr \<Rightarrow> addr list \<Rightarrow> unit store_op" where
  "array_push_back_all this ms = seqS (contentWillChange this) (bindS (members_at this) (\<lambda>xs. array_add this (of_nat (length xs)) ms))"

definition array_push_front :: "addr \<Rightarrow> addr list \<Rightarrow> unit store_op" where
  "array_push_front this ms = seqS (contentWillChange this) (array_add this 0 ms)"

definition cast_position :: "int \<Rightarrow> u64 store_op" where
  "cast_position i = (if 0 \<le> i \<and> i < 2 ^ 64 then returnS (of_int i) else throwS Range_exception)"

definition array_insert_before :: "addr \<Rightarrow> int \<Rightarrow> addr \<Rightarrow> unit store_op" where
  "array_insert_before this pos x = seqS (contentWillChange this) (seqS (addHeightOf this x) (seqS (pass_info this x True)
    (bindS (cast_position pos) (\<lambda>p. insert_member this (p - 1) x))))"

definition array_insert_before_all :: "addr \<Rightarrow> int \<Rightarrow> addr list \<Rightarrow> unit store_op" where
  "array_insert_before_all this pos ms = seqS (contentWillChange this) (bindS (cast_position pos) (\<lambda>p. array_add this (p - 1) ms))"

definition array_insert_after :: "addr \<Rightarrow> int \<Rightarrow> addr list \<Rightarrow> unit store_op" where
  "array_insert_after this pos ms = seqS (contentWillChange this) (bindS (cast_position pos) (\<lambda>p. array_add this p ms))"

definition getArrayValue :: "addr \<Rightarrow> int \<Rightarrow> addr option store_op" where
  "getArrayValue this pos = bindS (cast_position pos) (\<lambda>p. bindS (members_at this) (\<lambda>ms.
    returnS (if p = 0 \<or> unat p > length ms then None else Some (ms ! (unat p - 1)))))"

definition array_size :: "addr \<Rightarrow> int store_op" where
  "array_size this = bindS (members_at this) (\<lambda>ms. returnS (int (length ms)))"

definition array_remove :: "addr \<Rightarrow> int \<Rightarrow> addr store_op" where
  "array_remove this pos = seqS (contentWillChange this) (bindS (getArrayValue this pos) (\<lambda>found. case found of None \<Rightarrow> throwS Bad_pointer
    | Some x \<Rightarrow> seqS (pass_info this x False) (bindS (cast_position pos) (\<lambda>p. bindS (members_at this) (\<lambda>ms.
      seqS (set_members this (take (unat (p - 1)) ms @ drop (unat (p - 1) + 1) ms))
      (bindS (isDeepest this x) (\<lambda>deepest. seqS (whenS deepest (recomputeHeight this)) (returnS x))))))))"

definition array_replace :: "addr \<Rightarrow> int \<Rightarrow> addr \<Rightarrow> addr store_op" where
  "array_replace this pos v = seqS (contentWillChange this) (bindS (getArrayValue this pos) (\<lambda>found. seqS (addHeightOf this v)
    (case found of None \<Rightarrow> throwS Bad_pointer
    | Some x \<Rightarrow> seqS (pass_info this x False) (bindS (cast_position pos) (\<lambda>p. seqS (pass_info this v True) (bindS (members_at this) (\<lambda>ms.
      seqS (set_members this (ms[unat (p - 1) := v]))
      (bindS (isDeepest this x) (\<lambda>deepest. seqS (whenS deepest (recomputeHeight this)) (returnS x))))))))))"

section \<open>Operations on objects\<close>

fun is_array :: "item \<Rightarrow> bool" where
  "is_array (JSON j) = (case content_of j of Members _ \<Rightarrow> True | Pairs _ _ \<Rightarrow> False)"
| "is_array (Atomic _) = False"

definition object_accumulate :: "addr \<Rightarrow> nat \<Rightarrow> addr \<Rightarrow> unit store_op" where
  "object_accumulate this pos aValue = bindS (pairs_at this) (\<lambda>(ps, ks).
    if pos \<ge> length ps then throwS Bad_pointer
    else let lValue = snd (ps ! pos) in bindS (item_at lValue) (\<lambda>it.
      if is_array it then seqS (array_push_back lValue aValue) (addHeightOf this lValue)
      else bindS (new_json (Members [])) (\<lambda>array. seqS (array_push_back array lValue) (seqS (array_push_back array aValue)
        (seqS (addHeightOf this array) (seqS (pass_info this array True)
        (set_pairs this (ps[pos := (fst (ps ! pos), array)]) ks)))))))"

definition object_add :: "addr \<Rightarrow> addr \<Rightarrow> addr \<Rightarrow> bool \<Rightarrow> bool store_op" where
  "object_add this aName aValue accumulate = seqS (contentWillChange this) (bindS (keyString aName) (\<lambda>lName.
    bindS (findKey this aName lName) (\<lambda>lFound. bindS (pairs_at this) (\<lambda>(ps, ks).
      if lFound = length ps then
        seqS (addHeightOf this aValue) (seqS (pass_info this aValue True)
        (seqS (set_pairs this (ps @ [(aName, aValue)]) (map_option (index_insert lName (length ps)) ks))
        (seqS (whenS (ks = None \<and> length ps + 1 > KEY_INDEX_THRESHOLD) (buildKeyIndex this)) (returnS True))))
      else if accumulate then seqS (object_accumulate this lFound aValue) (returnS True)
      else returnS False))))"

definition drop_index :: "nat \<Rightarrow> (byte list \<rightharpoonup> nat) \<Rightarrow> (byte list \<rightharpoonup> nat)" where
  "drop_index pos m = (\<lambda>k. map_option (\<lambda>i. if i > pos then i - 1 else i) (m k))"

definition object_remove :: "addr \<Rightarrow> addr \<Rightarrow> addr option store_op" where
  "object_remove this aName = seqS (contentWillChange this) (bindS (keyString aName) (\<lambda>lName.
    bindS (findKey this aName lName) (\<lambda>lPosition. bindS (pairs_at this) (\<lambda>(ps, ks).
      if lPosition = length ps then returnS None
      else if lPosition > length ps then throwS Bad_pointer
      else let lValue = snd (ps ! lPosition) in
        seqS (pass_info this lValue False)
        (let ps' = take lPosition ps @ drop (lPosition + 1) ps;
             ks' = (case ks of None \<Rightarrow> None | Some m \<Rightarrow> if length ps' \<le> KEY_INDEX_THRESHOLD then None else Some (m(lName := None)));
             ks'' = (if lPosition < length ps' then map_option (drop_index lPosition) ks' else ks')
         in seqS (set_pairs this ps' ks'')
          (bindS (isDeepest this lValue) (\<lambda>deepest. seqS (whenS deepest (recomputeHeight this)) (returnS (Some lValue)))))))))"

definition object_setValue :: "addr \<Rightarrow> addr \<Rightarrow> addr \<Rightarrow> addr option store_op" where
  "object_setValue this aName aValue = seqS (contentWillChange this) (bindS (keyString aName) (\<lambda>lName.
    bindS (findKey this aName lName) (\<lambda>lPosition. bindS (pairs_at this) (\<lambda>(ps, ks).
      if lPosition = length ps then returnS None
      else if lPosition > length ps then throwS Bad_pointer
      else let lOldValue = snd (ps ! lPosition) in
        seqS (addHeightOf this aValue) (seqS (pass_info this lOldValue False) (seqS (pass_info this aValue True)
        (seqS (set_pairs this (ps[lPosition := (fst (ps ! lPosition), aValue)]) ks)
        (bindS (isDeepest this lOldValue) (\<lambda>deepest. seqS (whenS deepest (recomputeHeight this)) (returnS (Some lOldValue)))))))))))"

definition object_rename :: "addr \<Rightarrow> addr \<Rightarrow> addr \<Rightarrow> bool store_op" where
  "object_rename this aName aNewName = seqS (contentWillChange this) (bindS (keyString aName) (\<lambda>lName. bindS (keyString aNewName) (\<lambda>lNewName.
    bindS (findKey this aNewName lNewName) (\<lambda>lNew. bindS (pairs_at this) (\<lambda>(ps, ks).
      if lNew \<noteq> length ps then returnS False
      else bindS (findKey this aName lName) (\<lambda>lPosition.
        if lPosition = length ps then returnS False
        else if lPosition > length ps then throwS Bad_pointer
        else seqS (set_pairs this (ps[lPosition := (aNewName, snd (ps ! lPosition))])
            (map_option (\<lambda>m. index_insert lNewName lPosition (m(lName := None))) ks))
          (returnS True)))))))"

definition getObjectValue :: "addr \<Rightarrow> addr \<Rightarrow> addr option store_op" where
  "getObjectValue this aKey = bindS (keyString aKey) (\<lambda>lName. bindS (findKey this aKey lName) (\<lambda>lPosition. bindS (pairs_at this) (\<lambda>(ps, ks).
    if lPosition = length ps then returnS None
    else if lPosition > length ps then throwS Bad_pointer
    else returnS (Some (snd (ps ! lPosition))))))"

definition getNumObjectPairs :: "addr \<Rightarrow> int store_op" where
  "getNumObjectPairs this = bindS (pairs_at this) (\<lambda>(ps, ks). returnS (int (length ps)))"

text \<open>\<open>swap\<close> of both kinds of items.\<close>

definition json_swap :: "addr \<Rightarrow> addr \<Rightarrow> unit store_op" where
  "json_swap this other = seqS (contentWillChange this) (bindS (json_at this) (\<lambda>_. bindS (json_at other) (\<lambda>_. seqS (contentWillChange other)
    (bindS (json_at this) (\<lambda>j. bindS (json_at other) (\<lambda>k.
      if is_array (JSON j) \<noteq> is_array (JSON k) then throwS Bad_pointer
      else seqS (modify_json this (\<lambda>q. q\<lparr>content_of := content_of k, theHeight := theHeight k\<rparr>))
      (seqS (modify_json other (\<lambda>q. q\<lparr>content_of := content_of j, theHeight := theHeight j\<rparr>))
      (seqS (setCollectionTreeInfo this (theCollectionInfo j)) (setCollectionTreeInfo other (theCollectionInfo k)))))))))) "

definition getObjectKeys :: "addr \<Rightarrow> nat store_op" where
  "getObjectKeys this = bindS (pairs_at this) (\<lambda>_. new_iterator this)"

definition getArrayValues :: "addr \<Rightarrow> nat store_op" where
  "getArrayValues this = bindS (members_at this) (\<lambda>_. new_iterator this)"

section \<open>The factory\<close>

definition createString :: "byte list \<Rightarrow> addr store_op" where
  "createString v = new_item (Atomic (String_item v))"

definition createJSONArray :: "addr list \<Rightarrow> addr store_op" where
  "createJSONArray xs = bindS (new_json (Members [])) (\<lambda>a. seqS (array_push_back_all a xs) (returnS a))"

definition createJSONObject :: "addr list \<Rightarrow> addr list \<Rightarrow> addr store_op" where
  "createJSONObject names vals = bindS (new_json (Pairs [] None)) (\<lambda>obj.
    seqS (forS (zip names vals) (\<lambda>(n, v). bindS (object_add obj n v False) (\<lambda>added.
      if added then returnS () else bindS (keyString n) (\<lambda>k. throwS (Duplicate_key k)))))
    (returnS obj))"

end
