(* ===== verification/Json_Readers.thy ===== *)
theory Json_Readers
  imports Json_Store
begin

text \<open>
  The readers of JSON items: the lists of readers stay linked, and an iteration goes on with the contents that the item had
  when it was opened, whatever happens to the item meanwhile.
\<close>

section \<open>Running operations\<close>

lemma run_simps [simp]:
  "returnS x s = (Inr x, s)" "throwS e s = (Inl e, s)" "whenS False m = returnS ()" "whenS True m = m"
  "forS [] f = returnS ()"
  by (simp_all add: returnS_def throwS_def whenS_def)

lemma bindS_run: "m s = (Inr x, s') \<Longrightarrow> bindS m f s = f x s'"
  by (simp add: bindS_def)

lemma seqS_run: "m s = (Inr (), s') \<Longrightarrow> seqS m f s = f s'"
  by (simp add: seqS_def bindS_def)

lemma bindS_eq: "bindS m f s = (r, s') \<longleftrightarrow> (\<exists>e. m s = (Inl e, s') \<and> r = Inl e) \<or> (\<exists>x s1. m s = (Inr x, s1) \<and> f x s1 = (r, s'))"
  by (auto simp: bindS_def split: prod.splits sum.splits)

lemma seqS_eq: "seqS m f s = (r, s') \<longleftrightarrow> (\<exists>e. m s = (Inl e, s') \<and> r = Inl e) \<or> (\<exists>s1. m s = (Inr (), s1) \<and> f s1 = (r, s'))"
  by (auto simp: seqS_def bindS_eq)

lemma reader_bucket_less: "reader_bucket k < 256"
proof -
  have "unat (x AND 255 :: u32) < 256" for x
  proof -
    have "x AND 255 \<le> 255" by (rule word_and_le1)
    then show ?thesis by (simp add: word_le_nat_alt)
  qed
  then show ?thesis by (simp add: reader_bucket_def BUCKETS_def)
qed

section \<open>The lists of readers\<close>

fun linked :: "reader list \<Rightarrow> nat option \<Rightarrow> nat option \<Rightarrow> nat list \<Rightarrow> bool" where
  "linked rs prev p [] \<longleftrightarrow> p = None"
| "linked rs prev p (i # is) \<longleftrightarrow> p = Some i \<and> i < length rs \<and> thePrev (rs ! i) = prev \<and> linked rs (Some i) (theNext (rs ! i)) is"

lemma linked_cong:
  "(\<And>i. i \<in> set is \<Longrightarrow> i < length rs' \<and> thePrev (rs' ! i) = thePrev (rs ! i) \<and> theNext (rs' ! i) = theNext (rs ! i)) \<Longrightarrow>
    linked rs prev p is \<Longrightarrow> linked rs' prev p is"
  by (induction "is" arbitrary: prev p) simp_all

lemma linked_bound: "linked rs prev p is \<Longrightarrow> i \<in> set is \<Longrightarrow> i < length rs"
  by (induction "is" arbitrary: prev p) auto

lemma linked_next: "linked rs prev p (xs @ i # ys) \<Longrightarrow> theNext (rs ! i) = (case ys of [] \<Rightarrow> None | y # _ \<Rightarrow> Some y)"
proof (induction xs arbitrary: prev p)
  case Nil
  then show ?case by (cases ys) simp_all
next
  case (Cons a xs)
  then have "linked rs (Some a) (theNext (rs ! a)) (xs @ i # ys)" by simp
  then show ?case by (rule Cons.IH)
qed

lemma linked_prev: "linked rs prev p (xs @ i # ys) \<Longrightarrow> thePrev (rs ! i) = (if xs = [] then prev else Some (last xs))"
proof (induction xs arbitrary: prev p)
  case (Cons x xs)
  then show ?case by (cases xs) auto
qed simp

lemma linked_first: "linked rs prev p (xs @ ys) \<Longrightarrow> p = (case xs @ ys of [] \<Rightarrow> None | y # _ \<Rightarrow> Some y)"
  by (cases "xs @ ys") simp_all

lemma linked_remove:
  assumes "linked rs prev p (xs @ i # ys)" "distinct (xs @ i # ys)" "length rs' = length rs"
    and prev: "\<And>j. j \<in> set (xs @ ys) \<Longrightarrow> thePrev (rs' ! j) = (if ys \<noteq> [] \<and> j = hd ys then thePrev (rs ! i) else thePrev (rs ! j))"
    and nxt: "\<And>j. j \<in> set (xs @ ys) \<Longrightarrow> theNext (rs' ! j) = (if xs \<noteq> [] \<and> j = last xs then theNext (rs ! i) else theNext (rs ! j))"
  shows "linked rs' prev (if xs = [] then theNext (rs ! i) else p) (xs @ ys)"
  using assms
proof (induction xs arbitrary: prev p)
  case Nil
  then show ?case
  proof (cases ys)
    case (Cons y ys')
    have "linked rs (Some y) (theNext (rs ! y)) ys'" "theNext (rs ! i) = Some y" "y < length rs" "thePrev (rs ! i) = prev" using Nil Cons by auto
    moreover have "linked rs' (Some y) (theNext (rs ! y)) ys'"
      by (rule linked_cong [OF _ calculation(1)]) (use Nil Cons linked_bound [OF calculation(1)] in auto)
    moreover have "thePrev (rs' ! y) = thePrev (rs ! i)" "theNext (rs' ! y) = theNext (rs ! y)" using Nil Cons by auto
    ultimately show ?thesis using Cons Nil(3) by simp
  qed simp
next
  case (Cons x xs)
  have x: "p = Some x" "x < length rs" "thePrev (rs ! x) = prev" and l: "linked rs (Some x) (theNext (rs ! x)) (xs @ i # ys)" using Cons.prems(1) by auto
  have d: "distinct (xs @ i # ys)" "x \<notin> set (xs @ i # ys)" using Cons.prems(2) by auto
  have "linked rs' (Some x) (if xs = [] then theNext (rs ! i) else theNext (rs ! x)) (xs @ ys)"
  proof (rule Cons.IH [OF l d(1) Cons.prems(3)])
    fix j assume j: "j \<in> set (xs @ ys)"
    then have "j \<in> set ((x # xs) @ ys)" by simp
    from Cons.prems(4) [OF this] show "thePrev (rs' ! j) = (if ys \<noteq> [] \<and> j = hd ys then thePrev (rs ! i) else thePrev (rs ! j))" .
    from Cons.prems(5) [OF \<open>j \<in> set ((x # xs) @ ys)\<close>] show "theNext (rs' ! j) = (if xs \<noteq> [] \<and> j = last xs then theNext (rs ! i) else theNext (rs ! j))"
      using j d Cons.prems(2) by (auto split: if_splits)
  qed
  moreover have "theNext (rs' ! x) = (if xs = [] then theNext (rs ! i) else theNext (rs ! x))"
    using Cons.prems(5) [of x] d(2) by (auto split: if_splits)
  moreover have "thePrev (rs' ! x) = prev" using Cons.prems(4) [of x] d(2) x(3) by (auto split: if_splits simp: hd_in_set)
  ultimately show ?case using x Cons.prems(3) by simp
qed

text \<open>\<open>L b\<close> are the readers of the bucket \<open>b\<close>.\<close>

definition lists_ok :: "json_store \<Rightarrow> (nat \<Rightarrow> nat list) \<Rightarrow> bool" where
  "lists_ok s L \<longleftrightarrow> length (theReaders s) = 256
    \<and> (\<forall>b < 256. linked (readers s) None (theReaders s ! b) (L b) \<and> distinct (L b))
    \<and> (\<forall>b < 256. \<forall>i. i \<in> set (L b) \<longleftrightarrow> i < length (readers s) \<and> map_option reader_bucket (theKey (readers s ! i)) = Some b)"

text \<open>The fields of an iterator that linking does not touch.\<close>

definition iter_data :: "reader \<Rightarrow> addr \<times> nat \<times> nat \<times> addr list" where
  "iter_data r = (theTarget r, thePos r, theSize r, theCopy r)"

definition relinked :: "json_store \<Rightarrow> json_store \<Rightarrow> (nat \<Rightarrow> addr option) \<Rightarrow> bool" where
  "relinked s s' keys \<longleftrightarrow> items s' = items s \<and> arena s' = arena s \<and> length (readers s') = length (readers s)
    \<and> (\<forall>j < length (readers s). iter_data (readers s' ! j) = iter_data (readers s ! j) \<and> theKey (readers s' ! j) = keys j)"

lemma lists_okD:
  assumes "lists_ok s L"
  shows "length (theReaders s) = 256" "b < 256 \<Longrightarrow> linked (readers s) None (theReaders s ! b) (L b)" "b < 256 \<Longrightarrow> distinct (L b)"
    "b < 256 \<Longrightarrow> i \<in> set (L b) \<longleftrightarrow> i < length (readers s) \<and> map_option reader_bucket (theKey (readers s ! i)) = Some b"
  using assms by (auto simp: lists_ok_def)

text \<open>One list is changed: the readers of the others keep their links and their keys.\<close>

lemma other_list: "lists_ok s L \<Longrightarrow> b < 256 \<Longrightarrow> c < 256 \<Longrightarrow> c \<noteq> b \<Longrightarrow> j \<in> set (L c) \<Longrightarrow> j < length (readers s) \<and> j \<notin> set (L b)"
  using lists_okD(4) [of s L c j] lists_okD(4) [of s L b j] by auto

lemma lists_ok_update:
  assumes ok: "lists_ok s L" and b: "b < 256" and len: "length rs = length (readers s)" and l: "linked rs None h M" "distinct M"
    and keep: "\<And>j c. c < 256 \<Longrightarrow> c \<noteq> b \<Longrightarrow> j \<in> set (L c) \<Longrightarrow> thePrev (rs ! j) = thePrev (readers s ! j) \<and> theNext (rs ! j) = theNext (readers s ! j)"
    and mem: "\<And>j. j \<in> set M \<longleftrightarrow> j < length rs \<and> map_option reader_bucket (theKey (rs ! j)) = Some b"
    and key: "\<And>j c. c \<noteq> b \<Longrightarrow> j < length rs \<Longrightarrow> map_option reader_bucket (theKey (rs ! j)) = Some c \<longleftrightarrow> map_option reader_bucket (theKey (readers s ! j)) = Some c"
  shows "lists_ok (s\<lparr>readers := rs, theReaders := (theReaders s)[b := h]\<rparr>) (L(b := M))"
  unfolding lists_ok_def
proof (intro conjI allI impI)
  let ?s = "s\<lparr>readers := rs, theReaders := (theReaders s)[b := h]\<rparr>"
  show "length (theReaders ?s) = 256" using lists_okD(1) [OF ok] by simp
  fix c :: nat assume c: "c < 256"
  show "linked (readers ?s) None (theReaders ?s ! c) ((L(b := M)) c)"
  proof (cases "c = b")
    case True
    then show ?thesis using l(1) b lists_okD(1) [OF ok] by simp
  next
    case False
    have "linked rs None (theReaders s ! c) (L c)"
      by (rule linked_cong [OF _ lists_okD(2) [OF ok c]]) (use keep [OF c False] other_list [OF ok b c False] len in auto)
    then show ?thesis using False by simp
  qed
  show "distinct ((L(b := M)) c)" using l(2) lists_okD(3) [OF ok c] by simp
  show "j \<in> set ((L(b := M)) c) \<longleftrightarrow> j < length (readers ?s) \<and> map_option reader_bucket (theKey (readers ?s ! j)) = Some c" for j
    using mem [of j] key [of c j] lists_okD(4) [OF ok c, of j] len by (cases "c = b") auto
qed

lemma unlink_ok:
  assumes ok: "lists_ok s L" and i: "i < length (readers s)" and k: "theKey (readers s ! i) = Some k"
  shows "\<exists>s'. unlink i s = (Inr (), s') \<and> lists_ok s' (L(reader_bucket k := remove1 i (L (reader_bucket k))))
    \<and> relinked s s' (\<lambda>j. if j = i then None else theKey (readers s ! j))"
proof -
  let ?b = "reader_bucket k" and ?rs = "readers s"
  have b: "?b < 256" by (rule reader_bucket_less)
  have "i \<in> set (L ?b)" using lists_okD(4) [OF ok b, of i] i k by simp
  then obtain xs ys where L: "L ?b = xs @ i # ys" by (meson split_list)
  have l: "linked ?rs None (theReaders s ! ?b) (xs @ i # ys)" and d: "distinct (xs @ i # ys)" using lists_okD(2,3) [OF ok b] L by simp_all
  have prev: "thePrev (?rs ! i) = (if xs = [] then None else Some (last xs))" using linked_prev [OF l] .
  have nxt: "theNext (?rs ! i) = (case ys of [] \<Rightarrow> None | y # _ \<Rightarrow> Some y)" using linked_next [OF l] .
  have last: "xs \<noteq> [] \<Longrightarrow> last xs < length ?rs" using linked_bound [OF l] by simp
  have first: "ys \<noteq> [] \<Longrightarrow> hd ys < length ?rs" using linked_bound [OF l] by simp
  define r1 where "r1 = (if xs = [] then ?rs else ?rs[last xs := (?rs ! last xs)\<lparr>theNext := theNext (?rs ! i)\<rparr>])"
  define t1 where "t1 = (if xs = [] then (theReaders s)[?b := theNext (?rs ! i)] else theReaders s)"
  define r2 where "r2 = (if ys = [] then r1 else r1[hd ys := (r1 ! hd ys)\<lparr>thePrev := thePrev (?rs ! i)\<rparr>])"
  define r3 where "r3 = r2[i := (r2 ! i)\<lparr>theKey := None, thePrev := None, theNext := None\<rparr>]"
  have len: "length r1 = length ?rs" "length r2 = length ?rs" "length r3 = length ?rs" by (simp_all add: r1_def r2_def r3_def)
  define s' where "s' = s\<lparr>readers := r3, theReaders := t1\<rparr>"
  have run: "unlink i s = (Inr (), s')"
    using i k b lists_okD(1) [OF ok] last first len
    by (cases "xs = []"; cases ys)
      (auto simp: unlink_def bindS_def seqS_def reader_at_def modify_reader_def set_head_def prev nxt r1_def t1_def r2_def r3_def s'_def)
  have ne: "xs \<noteq> [] \<Longrightarrow> last xs \<noteq> i" "ys \<noteq> [] \<Longrightarrow> hd ys \<noteq> i" "xs \<noteq> [] \<Longrightarrow> ys \<noteq> [] \<Longrightarrow> hd ys \<noteq> last xs"
    using d by auto (metis disjoint_iff last_in_set hd_in_set)
  have r1: "r1 ! j = (if xs \<noteq> [] \<and> j = last xs then (?rs ! j)\<lparr>theNext := theNext (?rs ! i)\<rparr> else ?rs ! j)" if "j < length ?rs" for j
    using that last by (simp add: r1_def nth_list_update)
  have r2: "r2 ! j = (if ys \<noteq> [] \<and> j = hd ys then (r1 ! j)\<lparr>thePrev := thePrev (?rs ! i)\<rparr> else r1 ! j)" if "j < length ?rs" for j
    using that first len by (simp add: r2_def nth_list_update)
  have r3: "j \<noteq> i \<Longrightarrow> r3 ! j = r2 ! j" "r3 ! i = (r2 ! i)\<lparr>theKey := None, thePrev := None, theNext := None\<rparr>" for j
    using i len by (simp_all add: r3_def)
  have nth: "thePrev (r3 ! j) = (if ys \<noteq> [] \<and> j = hd ys then thePrev (?rs ! i) else thePrev (?rs ! j))"
    "theNext (r3 ! j) = (if xs \<noteq> [] \<and> j = last xs then theNext (?rs ! i) else theNext (?rs ! j))" if "j < length ?rs" "j \<noteq> i" for j
    unfolding r3(1) [OF that(2)] r2 [OF that(1)] r1 [OF that(1)] by simp_all
  have lb: "linked r3 None (if xs = [] then theNext (?rs ! i) else theReaders s ! ?b) (xs @ ys)"
  proof (rule linked_remove [OF l d len(3)])
    fix j assume j: "j \<in> set (xs @ ys)"
    then have "j < length ?rs" "j \<noteq> i" using linked_bound [OF l] d by auto
    from nth [OF this] show "thePrev (r3 ! j) = (if ys \<noteq> [] \<and> j = hd ys then thePrev (?rs ! i) else thePrev (?rs ! j))"
      "theNext (r3 ! j) = (if xs \<noteq> [] \<and> j = last xs then theNext (?rs ! i) else theNext (?rs ! j))" .
  qed
  have rem: "remove1 i (L ?b) = xs @ ys" using L d by (simp add: remove1_append)
  have key: "theKey (r3 ! j) = (if j = i then None else theKey (?rs ! j))" "iter_data (r3 ! j) = iter_data (?rs ! j)" if "j < length ?rs" for j
    using that by (cases "j = i"; simp add: r3 r2 r1 iter_data_def)+
  have mem: "j \<in> set (xs @ ys) \<longleftrightarrow> j < length r3 \<and> map_option reader_bucket (theKey (r3 ! j)) = Some ?b" for j
  proof (cases "j < length ?rs")
    case True
    then show ?thesis using lists_okD(4) [OF ok b, of j, unfolded L] d unfolding key(1) [OF True] len by auto
  next
    case False
    then show ?thesis using linked_bound [OF l, of j] by (auto simp: len)
  qed
  have bucket: "map_option reader_bucket (theKey (r3 ! j)) = Some c \<longleftrightarrow> map_option reader_bucket (theKey (?rs ! j)) = Some c" if "c \<noteq> ?b" "j < length r3" for j c
    using that key(1) [of j] k len(3) by (cases "j = i") auto
  have s': "s' = s\<lparr>readers := r3, theReaders := (theReaders s)[?b := if xs = [] then theNext (?rs ! i) else theReaders s ! ?b]\<rparr>" by (simp add: s'_def t1_def)
  have "lists_ok s' (L(?b := remove1 i (L ?b)))" unfolding rem s'
  proof (rule lists_ok_update [OF ok b len(3) lb _ _ mem bucket])
    fix j c assume c: "c < 256" "c \<noteq> ?b" "j \<in> set (L c)"
    from other_list [OF ok b c] have j: "j < length ?rs" "j \<noteq> i" "\<not> (xs \<noteq> [] \<and> j = last xs)" "\<not> (ys \<noteq> [] \<and> j = hd ys)" unfolding L by auto
    show "thePrev (r3 ! j) = thePrev (?rs ! j) \<and> theNext (r3 ! j) = theNext (?rs ! j)" unfolding nth [OF j(1,2)] if_not_P [OF j(3)] if_not_P [OF j(4)] by simp
  qed (use d in auto)
  moreover have "relinked s s' (\<lambda>j. if j = i then None else theKey (?rs ! j))" using key len by (simp add: relinked_def s'_def)
  ultimately show ?thesis using run by blast
qed

lemma stopReading_ok:
  assumes ok: "lists_ok s L" and i: "i < length (readers s)"
  shows "\<exists>s' L'. stopReading i s = (Inr (), s') \<and> lists_ok s' L' \<and> relinked s s' (\<lambda>j. if j = i then None else theKey (readers s ! j))"
proof (cases "theKey (readers s ! i)")
  case None
  then have "stopReading i s = (Inr (), s)" using i by (simp add: stopReading_def bindS_def reader_at_def)
  moreover have "relinked s s (\<lambda>j. if j = i then None else theKey (readers s ! j))" using None by (simp add: relinked_def)
  ultimately show ?thesis using ok by blast
next
  case (Some k)
  have "stopReading i s = unlink i s" using i Some by (simp add: stopReading_def bindS_def reader_at_def)
  moreover obtain s' where "unlink i s = (Inr (), s')" "lists_ok s' (L(reader_bucket k := remove1 i (L (reader_bucket k))))"
    "relinked s s' (\<lambda>j. if j = i then None else theKey (readers s ! j))" using unlink_ok [OF ok i Some] by blast
  ultimately show ?thesis by auto
qed

lemma startReading_ok:
  assumes ok: "lists_ok s L" and i: "i < length (readers s)"
  shows "\<exists>s' L'. startReading i key s = (Inr (), s') \<and> lists_ok s' L' \<and> relinked s s' (\<lambda>j. if j = i then Some key else theKey (readers s ! j))"
proof (cases "theKey (readers s ! i) = Some key")
  case True
  then have "startReading i key s = (Inr (), s)" using i by (simp add: startReading_def bindS_def reader_at_def)
  moreover have "relinked s s (\<lambda>j. if j = i then Some key else theKey (readers s ! j))" using True by (simp add: relinked_def)
  ultimately show ?thesis using ok by blast
next
  case False
  obtain s1 L1 where s1: "stopReading i s = (Inr (), s1)" "lists_ok s1 L1" "relinked s s1 (\<lambda>j. if j = i then None else theKey (readers s ! j))"
    using stopReading_ok [OF ok i] by blast
  let ?rs = "readers s1" and ?b = "reader_bucket key"
  have i1: "i < length ?rs" "theKey (?rs ! i) = None" using s1(3) i by (auto simp: relinked_def)
  have b: "?b < 256" by (rule reader_bucket_less)
  have l: "linked ?rs None (theReaders s1 ! ?b) (L1 ?b)" and d: "distinct (L1 ?b)" using lists_okD(2,3) [OF s1(2) b] by simp_all
  have ni: "i \<notin> set (L1 c)" if "c < 256" for c using lists_okD(4) [OF s1(2) that, of i] i1 by simp
  have first: "theReaders s1 ! ?b = (case L1 ?b of [] \<Rightarrow> None | y # _ \<Rightarrow> Some y)" using l by (cases "L1 ?b") simp_all
  define r1 where "r1 = ?rs[i := (?rs ! i)\<lparr>theKey := Some key, thePrev := None, theNext := theReaders s1 ! ?b\<rparr>]"
  define r2 where "r2 = (case L1 ?b of [] \<Rightarrow> r1 | y # _ \<Rightarrow> r1[y := (r1 ! y)\<lparr>thePrev := Some i\<rparr>])"
  define s' where "s' = s1\<lparr>readers := r2, theReaders := (theReaders s1)[?b := Some i]\<rparr>"
  have len: "length r1 = length ?rs" "length r2 = length ?rs" by (simp_all add: r1_def r2_def split: list.splits)
  have y: "y < length ?rs" if "L1 ?b = y # ys" for y ys using linked_bound [OF l, of y] that by simp
  have run: "startReading i key s = (Inr (), s')"
    using i i1 False s1(1) b lists_okD(1) [OF s1(2)] first y
    by (cases "L1 ?b") (auto simp: startReading_def bindS_def seqS_def reader_at_def modify_reader_def head_at_def set_head_def s'_def r2_def r1_def)
  have r1i: "r1 ! i = (?rs ! i)\<lparr>theKey := Some key, thePrev := None, theNext := theReaders s1 ! ?b\<rparr>" "j \<noteq> i \<Longrightarrow> r1 ! j = ?rs ! j" for j
    using i1 by (simp_all add: r1_def)
  have r2i: "r2 ! j = (if L1 ?b \<noteq> [] \<and> j = hd (L1 ?b) then (?rs ! j)\<lparr>thePrev := Some i\<rparr> else r1 ! j)" for j
    using ni [OF b] y len by (cases "L1 ?b") (auto simp: r2_def nth_list_update r1i)
  have hd: "L1 ?b \<noteq> [] \<Longrightarrow> i \<noteq> hd (L1 ?b)" using ni [OF b] hd_in_set [of "L1 ?b"] by auto
  have r2r: "r2 ! i = (?rs ! i)\<lparr>theKey := Some key, thePrev := None, theNext := theReaders s1 ! ?b\<rparr>"
    using r2i [of i] hd r1i(1) by auto
  have lb: "linked r2 None (Some i) (i # L1 ?b)"
  proof (cases "L1 ?b")
    case Nil
    then show ?thesis using i1 len r2r first by simp
  next
    case (Cons y ys)
    have "linked ?rs (Some y) (theNext (?rs ! y)) ys" using l Cons by simp
    moreover have "j < length r2 \<and> thePrev (r2 ! j) = thePrev (?rs ! j) \<and> theNext (r2 ! j) = theNext (?rs ! j)" if "j \<in> set ys" for j
    proof -
      have "j \<noteq> i" "j \<noteq> y" "j < length ?rs" using that Cons d ni [OF b] linked_bound [OF l, of j] by auto
      then show ?thesis using r2i [of j] r1i(2) [of j] Cons len by simp
    qed
    ultimately have "linked r2 (Some y) (theNext (?rs ! y)) ys" by (rule linked_cong [rotated])
    then show ?thesis using Cons i1 len r2r first r2i [of y] y [OF Cons] by simp
  qed
  have key: "theKey (r2 ! j) = (if j = i then Some key else theKey (?rs ! j))" "iter_data (r2 ! j) = iter_data (?rs ! j)" for j
    using hd by (cases "j = i"; simp add: r2r; simp add: r2i r1i(2) iter_data_def)+
  have mem: "j \<in> set (i # L1 ?b) \<longleftrightarrow> j < length r2 \<and> map_option reader_bucket (theKey (r2 ! j)) = Some ?b" for j
    using lists_okD(4) [OF s1(2) b, of j] key(1) [of j] len i1 by auto
  have "lists_ok s' (L1(?b := i # L1 ?b))" unfolding s'_def
  proof (rule lists_ok_update [OF s1(2) b len(2) lb _ _ mem])
    fix j c assume c: "c < 256" "c \<noteq> ?b" "j \<in> set (L1 c)"
    from other_list [OF s1(2) b c] have "\<not> (L1 ?b \<noteq> [] \<and> j = hd (L1 ?b))" by auto
    moreover have "j \<noteq> i" using c ni by blast
    ultimately show "thePrev (r2 ! j) = thePrev (?rs ! j) \<and> theNext (r2 ! j) = theNext (?rs ! j)" using r2i [of j] r1i(2) [of j] by auto
  qed (use d ni [OF b] key(1) i1(2) in auto)
  moreover have "relinked s s' (\<lambda>j. if j = i then Some key else theKey (readers s ! j))"
    using s1(3) key len by (auto simp: relinked_def s'_def)
  ultimately show ?thesis using run by blast
qed

section \<open>What an iteration has yet to return\<close>

definition contents_at :: "(addr \<rightharpoonup> item) \<Rightarrow> addr \<Rightarrow> addr list" where
  "contents_at h a = (case h a of Some (JSON j) \<Rightarrow> contents (content_of j) | _ \<Rightarrow> [])"

definition remaining_of :: "(addr \<rightharpoonup> item) \<Rightarrow> reader \<Rightarrow> addr list" where
  "remaining_of h r = drop (thePos r) (take (theSize r) (if theKey r \<noteq> None then contents_at h (theTarget r) else theCopy r))"

definition iter_ok :: "(addr \<rightharpoonup> item) \<Rightarrow> reader \<Rightarrow> bool" where
  "iter_ok h r \<longleftrightarrow> is_json h (theTarget r) \<and> thePos r \<le> theSize r
    \<and> (case theKey r of Some k \<Rightarrow> k = theTarget r \<and> theSize r \<le> length (contents_at h (theTarget r))
       | None \<Rightarrow> thePos r = theSize r \<or> theSize r \<le> length (theCopy r))"

abbreviation remaining :: "json_store \<Rightarrow> nat \<Rightarrow> addr list" where
  "remaining s i \<equiv> remaining_of (items s) (readers s ! i)"

definition store_inv :: "json_store \<Rightarrow> bool" where
  "store_inv s \<longleftrightarrow> (\<exists>L. lists_ok s L) \<and> (\<forall>i < length (readers s). iter_ok (items s) (readers s ! i))
    \<and> distinct (arena s) \<and> set (arena s) \<inter> dom (items s) = {}"

definition quiet :: "addr set \<Rightarrow> json_store \<Rightarrow> bool" where
  "quiet K s \<longleftrightarrow> (\<forall>i < length (readers s). \<forall>k \<in> K. theKey (readers s ! i) \<noteq> Some k)"

definition rest_same :: "json_store \<Rightarrow> json_store \<Rightarrow> bool" where
  "rest_same s s' \<longleftrightarrow> length (readers s) \<le> length (readers s')
    \<and> (\<forall>i < length (readers s). remaining s' i = remaining s i \<and> theTarget (readers s' ! i) = theTarget (readers s ! i))"

lemma rest_same_refl [simp]: "rest_same s s"
  by (simp add: rest_same_def)

lemma rest_same_trans: "rest_same s s1 \<Longrightarrow> rest_same s1 s2 \<Longrightarrow> rest_same s s2"
  by (auto simp: rest_same_def)

lemma lists_ok_cong:
  assumes "lists_ok s L" "theReaders s' = theReaders s" "length (readers s') = length (readers s)"
    and "\<And>j. j < length (readers s) \<Longrightarrow> theKey (readers s' ! j) = theKey (readers s ! j) \<and> thePrev (readers s' ! j) = thePrev (readers s ! j)
      \<and> theNext (readers s' ! j) = theNext (readers s ! j)"
  shows "lists_ok s' L"
  unfolding lists_ok_def
proof (intro conjI allI impI)
  show "length (theReaders s') = 256" using assms(2) lists_okD(1) [OF assms(1)] by simp
  fix b :: nat assume b: "b < 256"
  show "linked (readers s') None (theReaders s' ! b) (L b)" unfolding assms(2)
    by (rule linked_cong [OF _ lists_okD(2) [OF assms(1) b]]) (use assms(3,4) linked_bound [OF lists_okD(2) [OF assms(1) b]] in auto)
  show "distinct (L b)" using lists_okD(3) [OF assms(1) b] .
  show "i \<in> set (L b) \<longleftrightarrow> i < length (readers s') \<and> map_option reader_bucket (theKey (readers s' ! i)) = Some b" for i
    using lists_okD(4) [OF assms(1) b, of i] assms(3,4) by auto
qed

lemma remaining_cong: "iter_data r' = iter_data r \<Longrightarrow> theKey r' = theKey r \<Longrightarrow> remaining_of h r' = remaining_of h r"
  by (simp add: iter_data_def remaining_of_def)

lemma iter_ok_cong: "iter_data r' = iter_data r \<Longrightarrow> theKey r' = theKey r \<Longrightarrow> iter_ok h r' = iter_ok h r"
  by (simp add: iter_data_def iter_ok_def split: option.split)

lemma copied:
  assumes "iter_ok h r" "theKey r = Some k"
  defines "q \<equiv> r\<lparr>theCopy := take (theSize r) (contents_at h (theTarget r))\<rparr>"
  assumes "iter_data r' = iter_data q" "theKey r' = None"
  shows "remaining_of h r' = remaining_of h r" "iter_ok h r'"
  using assms by (simp_all add: iter_data_def remaining_of_def iter_ok_def)

text \<open>One step of \<open>copyContents\<close>: the iteration goes on with a copy.\<close>

lemma copy_one:
  assumes ok: "lists_ok s L" and i: "i < length (readers s)" and k: "theKey (readers s ! i) = Some key" and it: "iter_ok (items s) (readers s ! i)"
  shows "\<exists>s'. seqS (copyContent i) (unlink i) s = (Inr (), s') \<and> lists_ok s' (L(reader_bucket key := remove1 i (L (reader_bucket key))))
    \<and> items s' = items s \<and> arena s' = arena s \<and> length (readers s') = length (readers s)
    \<and> (\<forall>j < length (readers s). theKey (readers s' ! j) = (if j = i then None else theKey (readers s ! j))
        \<and> theTarget (readers s' ! j) = theTarget (readers s ! j) \<and> remaining s' j = remaining s j
        \<and> (iter_ok (items s) (readers s ! j) \<longrightarrow> iter_ok (items s) (readers s' ! j)))"
proof -
  let ?r = "readers s ! i"
  define q where "q = ?r\<lparr>theCopy := take (theSize ?r) (contents_at (items s) (theTarget ?r))\<rparr>"
  define s1 where "s1 = s\<lparr>readers := (readers s)[i := q]\<rparr>"
  obtain j where j: "items s (theTarget ?r) = Some (JSON j)" "theSize ?r \<le> length (contents (content_of j))"
    using it k by (auto simp: iter_ok_def is_json_def contents_at_def split: option.splits item.splits)
  then have c: "copyContent i s = (Inr (), s1)"
    using i by (simp add: copyContent_def bindS_def reader_at_def json_at_def item_at_def modify_reader_def s1_def q_def contents_at_def)
  have nth: "readers s1 ! l = (if l = i then q else readers s ! l)" for l using i by (simp add: s1_def)
  have len: "length (readers s1) = length (readers s)" by (simp add: s1_def)
  have "theReaders s1 = theReaders s" by (simp add: s1_def)
  from lists_ok_cong [OF ok this len] have ok1: "lists_ok s1 L" by (simp add: nth q_def)
  have k1: "theKey (readers s1 ! i) = Some key" using k by (simp add: nth q_def)
  obtain s' where s': "unlink i s1 = (Inr (), s')" "lists_ok s' (L(reader_bucket key := remove1 i (L (reader_bucket key))))"
    "relinked s1 s' (\<lambda>j. if j = i then None else theKey (readers s1 ! j))" using unlink_ok [OF ok1 _ k1] i len by auto
  have rl: "items s' = items s" "arena s' = arena s" "length (readers s') = length (readers s)" using s'(3) len by (auto simp: relinked_def s1_def)
  have d: "iter_data (readers s' ! l) = iter_data (readers s1 ! l)" "theKey (readers s' ! l) = (if l = i then None else theKey (readers s1 ! l))"
    if "l < length (readers s)" for l using s'(3) that len by (auto simp: relinked_def)
  have "theKey (readers s' ! l) = (if l = i then None else theKey (readers s ! l)) \<and> theTarget (readers s' ! l) = theTarget (readers s ! l)
      \<and> remaining s' l = remaining s l \<and> (iter_ok (items s) (readers s ! l) \<longrightarrow> iter_ok (items s) (readers s' ! l))" if l: "l < length (readers s)" for l
  proof (cases "l = i")
    case True
    have "iter_data (readers s' ! i) = iter_data q" "theKey (readers s' ! i) = None" using d [OF l] True by (auto simp: nth)
    from copied [OF it k this [unfolded q_def]] this show ?thesis unfolding True rl by (simp add: iter_data_def q_def)
  next
    case False
    have "iter_data (readers s' ! l) = iter_data (readers s ! l)" "theKey (readers s' ! l) = theKey (readers s ! l)" using d [OF l] False by (auto simp: nth)
    from remaining_cong [OF this] iter_ok_cong [OF this] this show ?thesis unfolding rl using False by (simp add: iter_data_def)
  qed
  moreover have "seqS (copyContent i) (unlink i) s = (Inr (), s')" using c s'(1) by (simp add: seqS_run)
  ultimately show ?thesis using s'(2) rl by blast
qed

text \<open>\<open>copied_readers D s s'\<close>: the readers in \<open>D\<close> have been taken off the lists, all go on as before.\<close>

definition copied_readers :: "nat set \<Rightarrow> json_store \<Rightarrow> json_store \<Rightarrow> bool" where
  "copied_readers D s s' \<longleftrightarrow> (\<exists>L. lists_ok s' L) \<and> items s' = items s \<and> arena s' = arena s \<and> length (readers s') = length (readers s)
    \<and> (\<forall>j < length (readers s). theKey (readers s' ! j) = (if j \<in> D then None else theKey (readers s ! j))
        \<and> theTarget (readers s' ! j) = theTarget (readers s ! j) \<and> remaining s' j = remaining s j \<and> iter_ok (items s) (readers s' ! j))"

lemma copy_loop_ok:
  "lists_ok s L \<Longrightarrow> b < 256 \<Longrightarrow> L b = xs @ ys \<Longrightarrow> length ys \<le> n \<Longrightarrow> p = (case ys of [] \<Rightarrow> None | y # _ \<Rightarrow> Some y) \<Longrightarrow>
    \<forall>i < length (readers s). iter_ok (items s) (readers s ! i) \<Longrightarrow>
    \<exists>s'. copy_loop n key p s = (Inr (), s') \<and> copied_readers {i \<in> set ys. theKey (readers s ! i) = Some key} s s'"
proof (induction ys arbitrary: s L xs n p)
  case Nil
  then have "copy_loop n key p s = (Inr (), s)" by (cases n) simp_all
  moreover have "copied_readers {i \<in> set []. theKey (readers s ! i) = Some key} s s" using Nil by (auto simp: copied_readers_def)
  ultimately show ?case by blast
next
  case (Cons i ys)
  then obtain m where n: "n = Suc m" "length ys \<le> m" by (cases n) auto
  have p: "p = Some i" using Cons.prems by simp
  have l: "linked (readers s) None (theReaders s ! b) (xs @ i # ys)" and d: "distinct (xs @ i # ys)"
    using lists_okD(2,3) [OF Cons.prems(1,2)] Cons.prems(3) by simp_all
  have i: "i < length (readers s)" "map_option reader_bucket (theKey (readers s ! i)) = Some b"
    using lists_okD(4) [OF Cons.prems(1,2), of i] Cons.prems(3) by simp_all
  note nxt = linked_next [OF l]
  have run: "copy_loop n key p s = seqS (whenS (theKey (readers s ! i) = Some key) (seqS (copyContent i) (unlink i))) (copy_loop m key (theNext (readers s ! i))) s"
    using i by (simp add: n(1) p bindS_def reader_at_def)
  show ?case
  proof (cases "theKey (readers s ! i) = Some key")
    case False
    then have "copy_loop n key p s = copy_loop m key (theNext (readers s ! i)) s" by (simp add: run seqS_def bindS_def)
    moreover have "L b = (xs @ [i]) @ ys" using Cons.prems(3) by simp
    from Cons.IH [OF Cons.prems(1,2) this n(2) nxt Cons.prems(6)] obtain s' where "copy_loop m key (theNext (readers s ! i)) s = (Inr (), s')"
      "copied_readers {i \<in> set ys. theKey (readers s ! i) = Some key} s s'" by blast
    moreover have "{j \<in> set (i # ys). theKey (readers s ! j) = Some key} = {i \<in> set ys. theKey (readers s ! i) = Some key}" using False by auto
    ultimately show ?thesis by auto
  next
    case True
    then have b: "reader_bucket key = b" using i(2) by simp
    obtain s1 where s1: "seqS (copyContent i) (unlink i) s = (Inr (), s1)" "lists_ok s1 (L(b := remove1 i (L b)))"
      "items s1 = items s" "arena s1 = arena s" "length (readers s1) = length (readers s)"
      "\<forall>j < length (readers s). theKey (readers s1 ! j) = (if j = i then None else theKey (readers s ! j))
        \<and> theTarget (readers s1 ! j) = theTarget (readers s ! j) \<and> remaining s1 j = remaining s j
        \<and> (iter_ok (items s) (readers s ! j) \<longrightarrow> iter_ok (items s) (readers s1 ! j))"
      using copy_one [OF Cons.prems(1) i(1) True] Cons.prems(6) i(1) unfolding b by blast
    have L1: "(L(b := remove1 i (L b))) b = xs @ ys" using Cons.prems(3) d by (simp add: remove1_append)
    have it: "\<forall>j < length (readers s1). iter_ok (items s1) (readers s1 ! j)" using s1 Cons.prems(6) by simp
    from Cons.IH [OF s1(2) Cons.prems(2) L1 n(2) nxt it] obtain s' where s': "copy_loop m key (theNext (readers s ! i)) s1 = (Inr (), s')"
      "copied_readers {j \<in> set ys. theKey (readers s1 ! j) = Some key} s1 s'" by blast
    have "theKey (readers s1 ! j) = theKey (readers s ! j)" if "j \<in> set ys" for j
    proof -
      have "j < length (readers s)" "j \<noteq> i" using linked_bound [OF l, of j] that d by auto
      then show ?thesis using s1(6) by simp
    qed
    then have "{j \<in> set ys. theKey (readers s1 ! j) = Some key} = {j \<in> set ys. theKey (readers s ! j) = Some key}" by auto
    then have "copied_readers {j \<in> set (i # ys). theKey (readers s ! j) = Some key} s s'" using s'(2) s1(3-6) True unfolding copied_readers_def by auto
    moreover have "copy_loop n key p s = (Inr (), s')" using True s1(1) s'(1) by (simp add: run seqS_run)
    ultimately show ?thesis by blast
  qed
qed

lemma contentWillChange_ok:
  assumes "store_inv s"
  shows "\<exists>s'. contentWillChange key s = (Inr (), s') \<and> copied_readers {i. i < length (readers s) \<and> theKey (readers s ! i) = Some key} s s'"
proof -
  obtain L where ok: "lists_ok s L" and it: "\<forall>i < length (readers s). iter_ok (items s) (readers s ! i)" using assms by (auto simp: store_inv_def)
  let ?b = "reader_bucket key" and ?D = "{i. i < length (readers s) \<and> theKey (readers s ! i) = Some key}"
  have b: "?b < 256" by (rule reader_bucket_less)
  have l: "linked (readers s) None (theReaders s ! ?b) (L ?b)" and d: "distinct (L ?b)" using lists_okD(2,3) [OF ok b] by simp_all
  have first: "theReaders s ! ?b = (case L ?b of [] \<Rightarrow> None | y # _ \<Rightarrow> Some y)" using l by (cases "L ?b") simp_all
  have "set (L ?b) \<subseteq> {..<length (readers s)}" using linked_bound [OF l] by auto
  then have "card (set (L ?b)) \<le> length (readers s)" using card_mono [of "{..<length (readers s)}" "set (L ?b)"] by simp
  then have fuel: "length (L ?b) \<le> length (readers s)" using distinct_card [OF d] by simp
  have D: "{i \<in> set (L ?b). theKey (readers s ! i) = Some key} = ?D"
  proof (rule set_eqI)
    show "i \<in> {i \<in> set (L ?b). theKey (readers s ! i) = Some key} \<longleftrightarrow> i \<in> ?D" for i using lists_okD(4) [OF ok b, of i] by auto
  qed
  have h: "head_at key s = (Inr (theReaders s ! ?b), s)" using b lists_okD(1) [OF ok] by (simp add: head_at_def)
  have "L ?b = [] @ L ?b" by simp
  from copy_loop_ok [OF ok b this fuel first it, of key, unfolded D] obtain s' where s': "copy_loop (length (readers s)) key (theReaders s ! ?b) s = (Inr (), s')"
    "copied_readers ?D s s'" by (elim exE conjE)
  show ?thesis
  proof (cases "theReaders s ! ?b")
    case None
    then have "L ?b = []" using first by (cases "L ?b") simp_all
    then have "?D = {}" unfolding D [symmetric] by simp
    then have "copied_readers ?D s s" using ok it by (auto simp: copied_readers_def)
    then show ?thesis using None h by (simp add: contentWillChange_def bindS_def)
  next
    case (Some i)
    then show ?thesis using s' h by (simp add: contentWillChange_def copyContents_def bindS_def)
  qed
qed

section \<open>Operations that leave iterations alone\<close>

text \<open>
  \<open>keeps K f K'\<close>: if no reader reads the items in \<open>K\<close>, the operation keeps the invariant and what every iteration has yet to return, also
  when it throws, and if it returns, no reader reads the items in \<open>K'\<close>.
\<close>

definition keeps :: "addr set \<Rightarrow> 'a store_op \<Rightarrow> addr set \<Rightarrow> bool" where
  "keeps K f K' \<longleftrightarrow> (\<forall>s r s'. store_inv s \<longrightarrow> quiet K s \<longrightarrow> f s = (r, s') \<longrightarrow>
    store_inv s' \<and> rest_same s s' \<and> ((\<exists>x. r = Inr x) \<longrightarrow> quiet K' s'))"

named_theorems keeps_rules \<open>rules for operations that leave iterations alone\<close>

lemma keepsD: "keeps K f K' \<Longrightarrow> store_inv s \<Longrightarrow> quiet K s \<Longrightarrow> f s = (r, s') \<Longrightarrow> store_inv s' \<and> rest_same s s' \<and> ((\<exists>x. r = Inr x) \<longrightarrow> quiet K' s')"
  by (simp add: keeps_def)

lemma keeps_return [keeps_rules]: "keeps K (returnS x) K"
  by (simp add: keeps_def)

lemma keeps_throw [keeps_rules]: "keeps K (throwS e) K'"
  by (simp add: keeps_def)

lemma keeps_bind [keeps_rules]:
  assumes "keeps K m K1" "\<And>x. keeps K1 (f x) K2" shows "keeps K (bindS m f) K2"
  unfolding keeps_def
proof (intro allI impI)
  fix s r s' assume s: "store_inv s" "quiet K s" and "bindS m f s = (r, s')"
  then consider e where "m s = (Inl e, s')" "r = Inl e" | x s1 where "m s = (Inr x, s1)" "f x s1 = (r, s')" by (auto simp: bindS_eq)
  then show "store_inv s' \<and> rest_same s s' \<and> ((\<exists>x. r = Inr x) \<longrightarrow> quiet K2 s')"
  proof cases
    case 1
    then show ?thesis using keepsD [OF assms(1) s] by auto
  next
    case 2
    from keepsD [OF assms(1) s 2(1)] have s1: "store_inv s1" "rest_same s s1" "quiet K1 s1" by auto
    from keepsD [OF assms(2) s1(1,3) 2(2)] rest_same_trans [OF s1(2)] show ?thesis by blast
  qed
qed

lemma keeps_seq [keeps_rules]: "keeps K m K1 \<Longrightarrow> keeps K1 f K2 \<Longrightarrow> keeps K (seqS m f) K2"
  unfolding seqS_def by (rule keeps_bind)

lemma keeps_when [keeps_rules]: "keeps K m K \<Longrightarrow> keeps K (whenS b m) K"
  by (cases b) (simp_all add: keeps_return)

lemma keeps_for [keeps_rules]: "(\<And>x. keeps K (f x) K) \<Longrightarrow> keeps K (forS xs f) K"
  by (induction xs) (auto intro: keeps_rules)

lemma keeps_split [keeps_rules]: "(\<And>y z. p = (y, z) \<Longrightarrow> keeps K (f y z) K') \<Longrightarrow> keeps K (case p of (y, z) \<Rightarrow> f y z) K'"
  by (cases p) simp

lemma keeps_if [keeps_rules]: "(b \<Longrightarrow> keeps K m K') \<Longrightarrow> (\<not> b \<Longrightarrow> keeps K m' K') \<Longrightarrow> keeps K (if b then m else m') K'"
  by simp

lemma keeps_option [keeps_rules]: "keeps K m K' \<Longrightarrow> (\<And>y. keeps K (f y) K') \<Longrightarrow> keeps K (case q of None \<Rightarrow> m | Some y \<Rightarrow> f y) K'"
  by (cases q) simp_all

lemma keeps_item [keeps_rules]: "(\<And>y. keeps K (f y) K') \<Longrightarrow> (\<And>y. keeps K (g y) K') \<Longrightarrow> keeps K (case it of Atomic y \<Rightarrow> f y | JSON z \<Rightarrow> g z) K'"
  by (cases it) simp_all

lemma keeps_sum [keeps_rules]: "(\<And>y. keeps K (f y) K') \<Longrightarrow> (\<And>y. keeps K (g y) K') \<Longrightarrow> keeps K (case r of Inl y \<Rightarrow> f y | Inr z \<Rightarrow> g z) K'"
  by (cases r) simp_all

lemma keeps_sub: "keeps K f K' \<Longrightarrow> K'' \<subseteq> K' \<Longrightarrow> keeps K f K''"
proof -
  assume a: "keeps K f K'" "K'' \<subseteq> K'"
  have "quiet K' s \<Longrightarrow> quiet K'' s" for s using a(2) by (auto simp: quiet_def)
  then show ?thesis using a(1) unfolding keeps_def by blast
qed

lemma keeps_read: "(\<And>s. snd (f s) = s) \<Longrightarrow> keeps K f K"
proof -
  assume "\<And>s. snd (f s) = s"
  then have "s' = s" if "f s = (r, s')" for s r s' using that by (metis snd_conv)
  then show ?thesis unfolding keeps_def by (intro allI impI) (metis rest_same_refl)
qed

lemma reading:
  "snd (item_at a s) = s" "snd (json_at a s) = s" "snd (pairs_at a s) = s" "snd (members_at a s) = s" "snd (keyString a s) = s" "snd (cast_position p s) = s"
  by (auto simp: item_at_def json_at_def pairs_at_def members_at_def keyString_def cast_position_def bindS_def
    split: option.splits item.splits content.splits)

lemma keeps_reading [keeps_rules]:
  "keeps K (item_at a) K" "keeps K (json_at a) K" "keeps K (pairs_at a) K" "keeps K (members_at a) K" "keeps K (keyString a) K" "keeps K (cast_position p) K"
  by (rule keeps_read, rule reading)+

lemma keeps_willChange [keeps_rules]: "keeps K (contentWillChange a) (insert a K)"
  unfolding keeps_def
proof (intro allI impI)
  fix s r s' assume s: "store_inv s" "quiet K s" and run: "contentWillChange a s = (r, s')"
  from contentWillChange_ok [OF s(1), of a] run have c: "copied_readers {i. i < length (readers s) \<and> theKey (readers s ! i) = Some a} s s'" by auto
  then have "store_inv s'" using s(1) by (auto simp: store_inv_def copied_readers_def)
  moreover have "rest_same s s'" using c by (auto simp: rest_same_def copied_readers_def)
  moreover have "quiet (insert a K) s'" using c s(2) by (auto simp: quiet_def copied_readers_def)
  ultimately show "store_inv s' \<and> rest_same s s' \<and> ((\<exists>x. r = Inr x) \<longrightarrow> quiet (insert a K) s')" by blast
qed

text \<open>A change of the items that leaves the contents of all items with readers as they are.\<close>

lemma items_changed:
  assumes s: "store_inv s" "quiet K s"
    and same: "\<And>b. is_json (items s) b \<Longrightarrow> is_json h b \<and> (b \<notin> K \<longrightarrow> contents_at h b = contents_at (items s) b)"
    and a: "distinct ar" "set ar \<inter> dom h = {}"
  shows "store_inv (s\<lparr>items := h, arena := ar\<rparr>) \<and> rest_same s (s\<lparr>items := h, arena := ar\<rparr>) \<and> quiet K (s\<lparr>items := h, arena := ar\<rparr>)"
proof -
  have r: "remaining_of h (readers s ! i) = remaining s i \<and> iter_ok h (readers s ! i)" if i: "i < length (readers s)" for i
  proof -
    have it: "iter_ok (items s) (readers s ! i)" using s(1) i by (simp add: store_inv_def)
    then have j: "is_json (items s) (theTarget (readers s ! i))" by (simp add: iter_ok_def)
    show ?thesis
    proof (cases "theKey (readers s ! i)")
      case None
      then show ?thesis using it same [OF j] by (simp add: remaining_of_def iter_ok_def)
    next
      case (Some k)
      then have "k = theTarget (readers s ! i)" using it by (simp add: iter_ok_def)
      moreover from this have "theTarget (readers s ! i) \<notin> K" using s(2) i Some by (auto simp: quiet_def)
      ultimately show ?thesis using it same [OF j] Some by (simp add: remaining_of_def iter_ok_def)
    qed
  qed
  obtain L where "lists_ok s L" using s(1) by (auto simp: store_inv_def)
  then have "lists_ok (s\<lparr>items := h, arena := ar\<rparr>) L" by (simp add: lists_ok_def)
  then show ?thesis using r s a by (auto simp: store_inv_def rest_same_def quiet_def)
qed

lemma items_changed':
  assumes s: "store_inv s" "quiet K s"
    and same: "\<And>b. is_json (items s) b \<Longrightarrow> is_json h b \<and> (b \<notin> K \<longrightarrow> contents_at h b = contents_at (items s) b)"
    and a: "dom h = dom (items s)"
  shows "store_inv (s\<lparr>items := h\<rparr>) \<and> rest_same s (s\<lparr>items := h\<rparr>) \<and> quiet K (s\<lparr>items := h\<rparr>)"
  using items_changed [OF s same, where ar = "arena s"] s(1) a by (simp add: store_inv_def)

lemma json_at_eq: "json_at a s = (Inr j, s') \<longleftrightarrow> s' = s \<and> items s a = Some (JSON j)"
  by (auto simp: json_at_def item_at_def bindS_def split: option.splits item.splits)

lemma json_at_run: "items s a = Some (JSON j) \<Longrightarrow> json_at a s = (Inr j, s)"
  by (simp add: json_at_eq)

lemma keeps_modify:
  assumes "a \<in> K \<or> (\<forall>j. contents (content_of (f j)) = contents (content_of j))"
  shows "keeps K (modify_json a f) K"
  unfolding keeps_def
proof (intro allI impI)
  fix s r s' assume s: "store_inv s" "quiet K s" and run: "modify_json a f s = (r, s')"
  then consider "s' = s" | j where "items s a = Some (JSON j)" "s' = s\<lparr>items := (items s)(a \<mapsto> JSON (f j))\<rparr>"
    using reading(2) [of a s] by (auto simp: modify_json_def bindS_eq put_json_def json_at_eq)
  then show "store_inv s' \<and> rest_same s s' \<and> ((\<exists>x. r = Inr x) \<longrightarrow> quiet K s')"
  proof cases
    case 1
    then show ?thesis using s by simp
  next
    case (2 j)
    have "is_json ((items s)(a \<mapsto> JSON (f j))) b \<and> (b \<notin> K \<longrightarrow> contents_at ((items s)(a \<mapsto> JSON (f j))) b = contents_at (items s) b)"
      if "is_json (items s) b" for b using that assms 2(1) by (auto simp: is_json_def contents_at_def)
    moreover have "dom ((items s)(a \<mapsto> JSON (f j))) = dom (items s)" using 2(1) by auto
    ultimately show ?thesis using items_changed' [OF s, of "(items s)(a \<mapsto> JSON (f j))"] 2(2) by simp
  qed
qed

lemma keeps_set [keeps_rules]: "a \<in> K \<Longrightarrow> keeps K (set_pairs a ps ks) K" "a \<in> K \<Longrightarrow> keeps K (set_members a ms) K"
  by (simp_all add: set_pairs_def set_members_def keeps_modify)

lemma keeps_new [keeps_rules]: "keeps K (new_item it) K"
  unfolding keeps_def
proof (intro allI impI)
  fix s r s' assume s: "store_inv s" "quiet K s" and run: "new_item it s = (r, s')"
  show "store_inv s' \<and> rest_same s s' \<and> ((\<exists>x. r = Inr x) \<longrightarrow> quiet K s')"
  proof (cases "arena s")
    case Nil
    then show ?thesis using run s by (simp add: new_item_def)
  next
    case (Cons a as)
    then have s': "s' = s\<lparr>items := (items s)(a \<mapsto> it), arena := as\<rparr>" using run by (auto simp: new_item_def)
    have a: "items s a = None" "distinct as" "set as \<inter> dom ((items s)(a \<mapsto> it)) = {}" using s(1) Cons by (auto simp: store_inv_def)
    have "is_json ((items s)(a \<mapsto> it)) b \<and> (b \<notin> K \<longrightarrow> contents_at ((items s)(a \<mapsto> it)) b = contents_at (items s) b)"
      if "is_json (items s) b" for b using that a(1) by (auto simp: is_json_def contents_at_def)
    from items_changed [OF s this a(2,3)] show ?thesis by (simp add: s')
  qed
qed

text \<open>\<open>setCollectionTreeInfo\<close> changes the collection information only.\<close>

definition plain :: "item \<Rightarrow> item" where
  "plain it = (case it of Atomic a \<Rightarrow> Atomic a | JSON j \<Rightarrow> JSON (j\<lparr>theCollectionInfo := None\<rparr>))"

definition same_values :: "(addr \<rightharpoonup> item) \<Rightarrow> (addr \<rightharpoonup> item) \<Rightarrow> bool" where
  "same_values h h' \<longleftrightarrow> (\<forall>a. map_option plain (h' a) = map_option plain (h a))"

lemma same_values_refl [simp]: "same_values h h"
  by (simp add: same_values_def)

lemma same_values_trans: "same_values h h1 \<Longrightarrow> same_values h1 h2 \<Longrightarrow> same_values h h2"
  by (simp add: same_values_def)

lemma same_values_info: "h a = Some (JSON j) \<Longrightarrow> same_values h (h(a \<mapsto> JSON (j\<lparr>theCollectionInfo := i\<rparr>)))"
  by (simp add: same_values_def plain_def)

lemma set_info_values:
  assumes "set_info_loop info pending h = Some r" shows "\<forall>h'. r = Inr h' \<longrightarrow> same_values h h'"
  using assms
proof (induction rule: set_info_loop.raw_induct [rotated, consumes 1, case_names Step])
  case (Step loop info pending h r)
  show ?case
  proof (cases pending)
    case Nil
    then show ?thesis using Step(2) by auto
  next
    case (Cons a rest)
    show ?thesis
    proof (cases "\<exists>j. h a = Some (JSON j)")
      case True
      then obtain j where j: "h a = Some (JSON j)" by blast
      then have "\<exists>p. loop info p (h(a \<mapsto> JSON (j\<lparr>theCollectionInfo := info\<rparr>))) = Some r" using Step(2) Cons by (auto simp: Let_def)
      then show ?thesis using Step(1) same_values_info [of h a j info, OF j] same_values_trans by blast
    next
      case False
      then show ?thesis using Step(2) Cons by (auto split: option.splits item.splits)
    qed
  qed
qed

lemma info_fields: "(j :: json_item)\<lparr>theCollectionInfo := i\<rparr> = k\<lparr>theCollectionInfo := i\<rparr> \<longleftrightarrow> content_of j = content_of k \<and> theHeight j = theHeight k"
  by (cases j; cases k) auto

lemma same_values_cases:
  assumes "same_values h h'"
  obtains (None) "h a = None" "h' a = None" | (Atomic) x where "h a = Some (Atomic x)" "h' a = Some (Atomic x)"
    | (JSON) j k where "h a = Some (JSON j)" "h' a = Some (JSON k)" "content_of k = content_of j" "theHeight k = theHeight j"
proof -
  have e: "map_option plain (h' a) = map_option plain (h a)" using assms by (simp add: same_values_def)
  show thesis
  proof (cases "h a")
    case None
    then show thesis using e that(1) by simp
  next
    case (Some it)
    then obtain it' where it': "h' a = Some it'" "plain it' = plain it" using e by auto
    show thesis
    proof (cases it)
      case (Atomic x)
      then show thesis using it' Some that(2) by (cases it') (auto simp: plain_def)
    next
      case (JSON j)
      then show thesis using it' Some that(3) by (cases it') (auto simp: plain_def info_fields)
    qed
  qed
qed

lemma same_valuesD:
  assumes "same_values h h'"
  shows "h' a = None \<longleftrightarrow> h a = None" "is_json h' a = is_json h a" "contents_at h' a = contents_at h a" "dom h' = dom h"
proof -
  show n: "h' a = None \<longleftrightarrow> h a = None" for a by (rule same_values_cases [OF assms, of a]) simp_all
  show "dom h' = dom h" by (rule set_eqI) (simp add: domIff n)
  show "is_json h' a = is_json h a" by (rule same_values_cases [OF assms, of a]) (simp_all add: is_json_def)
  show "contents_at h' a = contents_at h a" by (rule same_values_cases [OF assms, of a]) (simp_all add: contents_at_def)
qed

lemma keeps_info [keeps_rules]: "keeps K (setCollectionTreeInfo a info) K"
  unfolding keeps_def
proof (intro allI impI)
  fix s r s' assume s: "store_inv s" "quiet K s" and run: "setCollectionTreeInfo a info s = (r, s')"
  then consider "s' = s" | h where "set_info_loop info [a] (items s) = Some (Inr h)" "s' = s\<lparr>items := h\<rparr>"
    by (auto simp: setCollectionTreeInfo_def split: option.splits sum.splits)
  then show "store_inv s' \<and> rest_same s s' \<and> ((\<exists>x. r = Inr x) \<longrightarrow> quiet K s')"
  proof cases
    case 1
    then show ?thesis using s by simp
  next
    case (2 h)
    then have "same_values (items s) h" using set_info_values [OF 2(1)] by simp
    from items_changed' [OF s, of h] same_valuesD [OF this] 2(2) show ?thesis by simp
  qed
qed

lemma keeps_sub_insert: "keeps K f (insert a K) \<Longrightarrow> keeps K f K"
  by (erule keeps_sub) auto

lemma keeps_addHeightOf [keeps_rules]: "keeps K (addHeightOf this a) K"
  unfolding addHeightOf_def by (rule keeps_rules keeps_modify | simp)+

lemma keeps_height [keeps_rules]: "keeps K (isDeepest this a) K" "keeps K (recomputeHeight this) K"
  unfolding isDeepest_def recomputeHeight_def by (rule keeps_rules keeps_modify | simp)+

lemma keeps_pass_info [keeps_rules]: "keeps K (pass_info this a b) K"
  unfolding pass_info_def by (rule keeps_rules)+

lemma keeps_insert_member [keeps_rules]: "this \<in> K \<Longrightarrow> keeps K (insert_member this i x) K"
  unfolding insert_member_def by (rule keeps_rules | assumption)+

lemma keeps_array_push_back [keeps_rules]: "keeps K (array_push_back this x) K"
  unfolding array_push_back_def by (rule keeps_sub_insert, (rule keeps_rules insertI1)+)

lemma keeps_array_add [keeps_rules]: "keeps K (array_add this p xs) K"
  unfolding array_add_def by (rule keeps_sub_insert, (rule keeps_rules insertI1)+)

lemma keeps_arrays [keeps_rules]:
  "keeps K (array_push_back_all this xs) K" "keeps K (array_push_front this xs) K" "keeps K (array_insert_before this pos x) K"
  "keeps K (array_insert_before_all this pos xs) K" "keeps K (array_insert_after this pos xs) K"
  unfolding array_push_back_all_def array_push_front_def array_insert_before_def array_insert_before_all_def array_insert_after_def
  by (rule keeps_sub_insert, ((rule keeps_rules insertI1)+)[1])+

lemma keeps_array_values [keeps_rules]: "keeps K (getArrayValue this pos) K" "keeps K (array_size this) K"
  unfolding getArrayValue_def array_size_def by (rule keeps_rules)+

lemma keeps_array_changes [keeps_rules]: "keeps K (array_remove this pos) K" "keeps K (array_replace this pos v) K"
  unfolding array_remove_def array_replace_def by (rule keeps_sub_insert, ((rule keeps_rules insertI1)+)[1])+

lemma keeps_new_json [keeps_rules]: "keeps K (new_json c) K"
  unfolding new_json_def by (rule keeps_new)

lemma keeps_find_linear [keeps_rules]: "keeps K (find_linear ps i a n) K"
  by (induction ps arbitrary: i) (auto intro!: keeps_bind keeps_reading keeps_return)

lemma keeps_findKey [keeps_rules]: "keeps K (findKey this a n) K"
  unfolding findKey_def by (rule keeps_rules)+

lemma keeps_build_index [keeps_rules]: "keeps K (build_index ps i m) K"
  by (induction ps arbitrary: i m) (auto intro!: keeps_bind keeps_reading keeps_return)

lemma keeps_buildKeyIndex [keeps_rules]: "this \<in> K \<Longrightarrow> keeps K (buildKeyIndex this) K"
  unfolding buildKeyIndex_def by (rule keeps_rules | assumption)+

lemma keeps_accumulate [keeps_rules]: "this \<in> K \<Longrightarrow> keeps K (object_accumulate this pos v) K"
  unfolding object_accumulate_def Let_def by (rule keeps_rules | assumption)+

lemma keeps_object_add [keeps_rules]: "keeps K (object_add this n v acc) K"
  unfolding object_add_def by (rule keeps_sub_insert, (rule keeps_rules insertI1)+)

lemma keeps_objects [keeps_rules]:
  "keeps K (object_remove this n) K" "keeps K (object_setValue this n v) K" "keeps K (object_rename this n n') K"
  unfolding object_remove_def object_setValue_def object_rename_def Let_def by (rule keeps_sub_insert, ((rule keeps_rules insertI1)+)[1])+

lemma keeps_object_values [keeps_rules]: "keeps K (getObjectValue this n) K" "keeps K (getNumObjectPairs this) K"
  unfolding getObjectValue_def getNumObjectPairs_def by (rule keeps_rules)+

lemma keeps_swap [keeps_rules]: "keeps K (json_swap this other) K"
proof -
  have "keeps K (json_swap this other) (insert other (insert this K))" unfolding json_swap_def
    by (rule keeps_rules keeps_modify | simp)+
  then show ?thesis by (rule keeps_sub) auto
qed

lemma keeps_factory [keeps_rules]: "keeps K (createString v) K" "keeps K (createJSONArray xs) K" "keeps K (createJSONObject ns vs) K"
  unfolding createString_def createJSONArray_def createJSONObject_def by (rule keeps_rules)+

section \<open>The iterators\<close>

lemma reader_data:
  assumes s: "store_inv s" and i: "i < length (readers s)" and q: "theKey q = theKey (readers s ! i)" "thePrev q = thePrev (readers s ! i)" "theNext q = theNext (readers s ! i)"
    "theTarget q = theTarget (readers s ! i)" "iter_ok (items s) q"
  shows "store_inv (s\<lparr>readers := (readers s)[i := q]\<rparr>)"
    "j < length (readers s) \<Longrightarrow> remaining (s\<lparr>readers := (readers s)[i := q]\<rparr>) j = (if j = i then remaining_of (items s) q else remaining s j)"
proof -
  obtain L where L: "lists_ok s L" using s by (auto simp: store_inv_def)
  have "lists_ok (s\<lparr>readers := (readers s)[i := q]\<rparr>) L" by (rule lists_ok_cong [OF L]) (use i q in \<open>auto simp: nth_list_update\<close>)
  then show "store_inv (s\<lparr>readers := (readers s)[i := q]\<rparr>)" using s i q(5) by (auto simp: store_inv_def nth_list_update)
  show "j < length (readers s) \<Longrightarrow> remaining (s\<lparr>readers := (readers s)[i := q]\<rparr>) j = (if j = i then remaining_of (items s) q else remaining s j)"
    using i by (simp add: nth_list_update)
qed

lemma remaining_length: "iter_ok h r \<Longrightarrow> length (remaining_of h r) = theSize r - thePos r"
  by (auto simp: remaining_of_def iter_ok_def split: option.splits)

lemma iterator_next_ok:
  assumes s: "store_inv s" and i: "i < length (readers s)"
  shows "\<exists>s'. iterator_next i s = (Inr (case remaining s i of [] \<Rightarrow> None | x # _ \<Rightarrow> Some x), s') \<and> store_inv s' \<and> length (readers s') = length (readers s)
    \<and> (\<forall>j < length (readers s). remaining s' j = (if j = i then tl (remaining s i) else remaining s j))"
proof -
  let ?r = "readers s ! i"
  have it: "iter_ok (items s) ?r" using s i by (simp add: store_inv_def)
  obtain j where j: "items s (theTarget ?r) = Some (JSON j)" using it by (auto simp: iter_ok_def is_json_def split: option.splits item.splits)
  show ?thesis
  proof (cases "thePos ?r = theSize ?r")
    case True
    then have e: "remaining s i = []" by (simp add: remaining_of_def)
    let ?q = "?r\<lparr>theCopy := []\<rparr>"
    have "iter_ok (items s) ?q" using it True by (simp add: iter_ok_def split: option.splits)
    note d = reader_data [OF s i, of ?q, simplified, OF this]
    have "remaining_of (items s) ?q = []" using True by (simp add: remaining_of_def)
    moreover have "iterator_next i s = (Inr None, s\<lparr>readers := (readers s)[i := ?q]\<rparr>)"
      using True i by (simp add: iterator_next_def bindS_def seqS_def reader_at_def modify_reader_def)
    ultimately show ?thesis using d e by auto
  next
    case False
    define xs where "xs = (if theKey ?r \<noteq> None then contents_at (items s) (theTarget ?r) else theCopy ?r)"
    have l: "thePos ?r < theSize ?r" "theSize ?r \<le> length xs" using it False by (auto simp: iter_ok_def xs_def split: option.splits)
    have rem: "remaining s i = xs ! thePos ?r # drop (thePos ?r + 1) (take (theSize ?r) xs)"
    proof -
      have "remaining s i = drop (thePos ?r) (take (theSize ?r) xs)" by (simp add: remaining_of_def xs_def)
      then show ?thesis using l Cons_nth_drop_Suc [of "thePos ?r" "take (theSize ?r) xs"] by simp
    qed
    let ?q = "?r\<lparr>thePos := Suc (thePos ?r)\<rparr>"
    have "iter_ok (items s) ?q" using it l by (auto simp: iter_ok_def split: option.splits)
    note d = reader_data [OF s i, of ?q, simplified, OF this]
    have "remaining_of (items s) ?q = tl (remaining s i)" unfolding rem by (simp add: remaining_of_def xs_def)
    moreover have "iterator_next i s = (Inr (Some (xs ! thePos ?r)), s\<lparr>readers := (readers s)[i := ?q]\<rparr>)"
      using False i l j
      by (cases "theKey ?r") (simp_all add: iterator_next_def bindS_def seqS_def reader_at_def modify_reader_def json_at_run isReading_def xs_def contents_at_def)
    ultimately show ?thesis using d rem by auto
  qed
qed

lemma relinked_others:
  assumes s: "store_inv s" and r: "relinked s s' (\<lambda>j. if j = i then k else theKey (readers s ! j))" and j: "j < length (readers s)" "j \<noteq> i"
  shows "remaining s' j = remaining s j" "iter_ok (items s') (readers s' ! j)"
proof -
  have e: "iter_data (readers s' ! j) = iter_data (readers s ! j)" "theKey (readers s' ! j) = theKey (readers s ! j)" "items s' = items s"
    using r j by (auto simp: relinked_def)
  have "iter_ok (items s) (readers s ! j)" using s j by (simp add: store_inv_def)
  then show "remaining s' j = remaining s j" "iter_ok (items s') (readers s' ! j)"
    using remaining_cong [OF e(1,2)] iter_ok_cong [OF e(1,2)] by (simp_all add: e(3))
qed

lemma iterator_open_ok:
  assumes s: "store_inv s" and i: "i < length (readers s)"
  shows "\<exists>s'. iterator_open i s = (Inr (), s') \<and> store_inv s' \<and> length (readers s') = length (readers s) \<and> items s' = items s
    \<and> (\<forall>j < length (readers s). remaining s' j = (if j = i then contents_at (items s) (theTarget (readers s ! i)) else remaining s j))"
proof -
  let ?t = "theTarget (readers s ! i)"
  define s0 where "s0 = s\<lparr>readers := (readers s)[i := (readers s ! i)\<lparr>theCopy := []\<rparr>]\<rparr>"
  obtain L where L: "lists_ok s L" using s by (auto simp: store_inv_def)
  have L0: "lists_ok s0 L" by (rule lists_ok_cong [OF L]) (use i in \<open>auto simp: nth_list_update s0_def\<close>)
  have s0: "i < length (readers s0)" "theTarget (readers s0 ! i) = ?t" "items s0 = items s" "arena s0 = arena s" "length (readers s0) = length (readers s)"
    "\<And>j. j \<noteq> i \<Longrightarrow> readers s0 ! j = readers s ! j" using i by (simp_all add: s0_def)
  obtain s1 L1 where s1: "startReading i ?t s0 = (Inr (), s1)" "lists_ok s1 L1" "relinked s0 s1 (\<lambda>j. if j = i then Some ?t else theKey (readers s0 ! j))"
    using startReading_ok [OF L0 s0(1)] by blast
  have r1: "items s1 = items s" "arena s1 = arena s" "length (readers s1) = length (readers s)" "theTarget (readers s1 ! i) = ?t" "theKey (readers s1 ! i) = Some ?t"
    using s1(3) s0 by (auto simp: relinked_def iter_data_def)
  have "iter_ok (items s) (readers s ! i)" using s i by (simp add: store_inv_def)
  then obtain j where j: "items s ?t = Some (JSON j)" by (auto simp: iter_ok_def is_json_def split: option.splits item.splits)
  define q where "q = (readers s1 ! i)\<lparr>thePos := 0, theSize := length (contents (content_of j))\<rparr>"
  define s' where "s' = s1\<lparr>readers := (readers s1)[i := q]\<rparr>"
  have run: "iterator_open i s = (Inr (), s')"
  proof -
    have "modify_reader i (\<lambda>q. q\<lparr>theCopy := []\<rparr>) s = (Inr (), s0)" using i by (simp add: modify_reader_def s0_def)
    moreover have "reader_at i s0 = (Inr (readers s0 ! i), s0)" using s0(1) by (simp add: reader_at_def)
    moreover have "json_at ?t s1 = (Inr j, s1)" using j r1(1) by (simp add: json_at_run)
    ultimately show ?thesis unfolding iterator_open_def using s1(1) s0(2) i r1(3)
      by (simp add: seqS_def bindS_def modify_reader_def s'_def q_def)
  qed
  have q: "remaining_of (items s) q = contents_at (items s) ?t" "iter_ok (items s) q"
    using r1 j by (auto simp: q_def remaining_of_def iter_ok_def contents_at_def is_json_def)
  have other: "remaining s' l = remaining s l \<and> iter_ok (items s') (readers s' ! l)" if l: "l < length (readers s)" "l \<noteq> i" for l
  proof -
    have "readers s' ! l = readers s1 ! l" "items s' = items s" using l by (simp_all add: s'_def r1)
    moreover have e: "iter_data (readers s1 ! l) = iter_data (readers s ! l)" "theKey (readers s1 ! l) = theKey (readers s ! l)"
      using s1(3) l s0 by (auto simp: relinked_def)
    ultimately show ?thesis using s l(1) remaining_cong [OF e] iter_ok_cong [OF e] by (simp add: store_inv_def)
  qed
  have "lists_ok s' L1" by (rule lists_ok_cong [OF s1(2)]) (use i r1 in \<open>auto simp: nth_list_update s'_def q_def\<close>)
  moreover have "iter_ok (items s') (readers s' ! l)" if "l < length (readers s')" for l
    using that other [of l] q(2) i r1 by (cases "l = i") (auto simp: s'_def)
  ultimately have "store_inv s'" using s r1 by (auto simp: store_inv_def s'_def)
  moreover have "remaining s' l = (if l = i then contents_at (items s) ?t else remaining s l)" if "l < length (readers s)" for l
    using that other [of l] q(1) i r1 by (cases "l = i") (auto simp: s'_def)
  ultimately show ?thesis using run r1 by (auto simp: s'_def)
qed

lemma iterator_close_ok:
  assumes s: "store_inv s" and i: "i < length (readers s)"
  shows "\<exists>s'. iterator_close i s = (Inr (), s') \<and> store_inv s' \<and> length (readers s') = length (readers s)
    \<and> (\<forall>j < length (readers s). remaining s' j = (if j = i then [] else remaining s j))"
proof -
  obtain L where L: "lists_ok s L" using s by (auto simp: store_inv_def)
  obtain s1 L1 where s1: "stopReading i s = (Inr (), s1)" "lists_ok s1 L1" "relinked s s1 (\<lambda>j. if j = i then None else theKey (readers s ! j))"
    using stopReading_ok [OF L i] by blast
  have r1: "items s1 = items s" "arena s1 = arena s" "length (readers s1) = length (readers s)" "theKey (readers s1 ! i) = None"
    "theTarget (readers s1 ! i) = theTarget (readers s ! i)"
    using s1(3) i by (auto simp: relinked_def iter_data_def)
  define q where "q = (readers s1 ! i)\<lparr>theCopy := [], thePos := 0, theSize := 0\<rparr>"
  define s' where "s' = s1\<lparr>readers := (readers s1)[i := q]\<rparr>"
  have run: "iterator_close i s = (Inr (), s')" using s1(1) i r1(3) by (simp add: iterator_close_def seqS_def bindS_def modify_reader_def s'_def q_def)
  have "iter_ok (items s) (readers s ! i)" using s i by (simp add: store_inv_def)
  then have q: "remaining_of (items s) q = []" "iter_ok (items s) q" using r1 by (auto simp: q_def remaining_of_def iter_ok_def)
  have other: "remaining s' l = remaining s l \<and> iter_ok (items s') (readers s' ! l)" if l: "l < length (readers s)" "l \<noteq> i" for l
    using relinked_others [OF s s1(3) l] l by (simp add: s'_def)
  have "lists_ok s' L1" by (rule lists_ok_cong [OF s1(2)]) (use i r1 in \<open>auto simp: nth_list_update s'_def q_def\<close>)
  moreover have "iter_ok (items s') (readers s' ! l)" if "l < length (readers s')" for l
    using that other [of l] q(2) i r1 by (cases "l = i") (auto simp: s'_def)
  ultimately have "store_inv s'" using s r1 by (auto simp: store_inv_def s'_def)
  moreover have "remaining s' l = (if l = i then [] else remaining s l)" if "l < length (readers s)" for l
    using that other [of l] q(1) i r1 by (cases "l = i") (auto simp: s'_def)
  ultimately show ?thesis using run r1 by (auto simp: s'_def)
qed

lemma new_iterator_ok:
  assumes s: "store_inv s" and a: "is_json (items s) a"
  shows "store_inv (snd (new_iterator a s)) \<and> rest_same s (snd (new_iterator a s)) \<and> length (readers (snd (new_iterator a s))) = length (readers s) + 1"
proof -
  let ?s = "snd (new_iterator a s)"
  obtain L where L: "lists_ok s L" using s by (auto simp: store_inv_def)
  have nth: "readers ?s ! j = readers s ! j" if "j < length (readers s)" for j using that by (simp add: new_iterator_def nth_append)
  have new: "readers ?s ! length (readers s) = \<lparr>theKey = None, thePrev = None, theNext = None, theTarget = a, thePos = 0, theSize = 0, theCopy = []\<rparr>"
    by (simp add: new_iterator_def)
  have len: "length (readers ?s) = Suc (length (readers s))" "items ?s = items s" "arena ?s = arena s" "theReaders ?s = theReaders s" by (simp_all add: new_iterator_def)
  have "lists_ok ?s L" unfolding lists_ok_def len
  proof (intro conjI allI impI)
    show "length (theReaders s) = 256" using lists_okD(1) [OF L] .
    fix b :: nat assume b: "b < 256"
    show "distinct (L b)" using lists_okD(3) [OF L b] .
    show "linked (readers ?s) None (theReaders s ! b) (L b)"
      by (rule linked_cong [OF _ lists_okD(2) [OF L b]]) (use linked_bound [OF lists_okD(2) [OF L b]] nth len in \<open>auto intro: less_SucI\<close>)
    show "i \<in> set (L b) \<longleftrightarrow> i < Suc (length (readers s)) \<and> map_option reader_bucket (theKey (readers ?s ! i)) = Some b" for i
      using lists_okD(4) [OF L b, of i] nth [of i] new by (cases "i = length (readers s)") auto
  qed
  moreover have "iter_ok (items s) (readers ?s ! i)" if "i < Suc (length (readers s))" for i
    using s nth [of i] new a that by (cases "i = length (readers s)") (auto simp: store_inv_def iter_ok_def)
  ultimately have "store_inv ?s" using s by (auto simp: store_inv_def len)
  moreover have "rest_same s ?s" using nth len by (auto simp: rest_same_def)
  ultimately show ?thesis using len by simp
qed

section \<open>Programs\<close>

text \<open>Everything that can be done with the items and the iterators.\<close>

datatype store_cmd =
    Object_add addr addr addr bool | Object_remove addr addr | Object_setValue addr addr addr | Object_rename addr addr addr
  | Array_push_back addr addr | Array_push_back_all addr "addr list" | Array_push_front addr "addr list"
  | Array_insert_before addr int addr | Array_insert_before_all addr int "addr list" | Array_insert_after addr int "addr list"
  | Array_remove addr int | Array_replace addr int addr | Swap addr addr
  | Create_string "byte list" | Create_array "addr list" | Create_object "addr list" "addr list"
  | Set_info addr "addr option" | Object_keys addr | Array_values addr
  | Iter_open nat | Iter_next nat | Iter_reset nat | Iter_close nat

definition resultS :: "('a \<Rightarrow> addr option) \<Rightarrow> 'a store_op \<Rightarrow> addr option store_op" where
  "resultS g m = bindS m (\<lambda>x. returnS (g x))"

fun exec_cmd :: "store_cmd \<Rightarrow> addr option store_op" where
  "exec_cmd (Object_add a n v acc) = resultS (\<lambda>_. None) (object_add a n v acc)"
| "exec_cmd (Object_remove a n) = object_remove a n"
| "exec_cmd (Object_setValue a n v) = object_setValue a n v"
| "exec_cmd (Object_rename a n m) = resultS (\<lambda>_. None) (object_rename a n m)"
| "exec_cmd (Array_push_back a v) = resultS (\<lambda>_. None) (array_push_back a v)"
| "exec_cmd (Array_push_back_all a vs) = resultS (\<lambda>_. None) (array_push_back_all a vs)"
| "exec_cmd (Array_push_front a vs) = resultS (\<lambda>_. None) (array_push_front a vs)"
| "exec_cmd (Array_insert_before a p v) = resultS (\<lambda>_. None) (array_insert_before a p v)"
| "exec_cmd (Array_insert_before_all a p vs) = resultS (\<lambda>_. None) (array_insert_before_all a p vs)"
| "exec_cmd (Array_insert_after a p vs) = resultS (\<lambda>_. None) (array_insert_after a p vs)"
| "exec_cmd (Array_remove a p) = resultS Some (array_remove a p)"
| "exec_cmd (Array_replace a p v) = resultS Some (array_replace a p v)"
| "exec_cmd (Swap a b) = resultS (\<lambda>_. None) (json_swap a b)"
| "exec_cmd (Create_string v) = resultS Some (createString v)"
| "exec_cmd (Create_array vs) = resultS Some (createJSONArray vs)"
| "exec_cmd (Create_object ns vs) = resultS Some (createJSONObject ns vs)"
| "exec_cmd (Set_info a i) = resultS (\<lambda>_. None) (setCollectionTreeInfo a i)"
| "exec_cmd (Object_keys a) = resultS (\<lambda>_. None) (getObjectKeys a)"
| "exec_cmd (Array_values a) = resultS (\<lambda>_. None) (getArrayValues a)"
| "exec_cmd (Iter_open i) = resultS (\<lambda>_. None) (iterator_open i)"
| "exec_cmd (Iter_next i) = iterator_next i"
| "exec_cmd (Iter_reset i) = resultS (\<lambda>_. None) (iterator_reset i)"
| "exec_cmd (Iter_close i) = resultS (\<lambda>_. None) (iterator_close i)"

text \<open>A program goes on after an exception. \<open>observed i\<close> are the results of \<open>next\<close> of the iterator \<open>i\<close>.\<close>

fun observed :: "nat \<Rightarrow> store_cmd list \<Rightarrow> json_store \<Rightarrow> (store_err + addr option) list" where
  "observed i [] s = []"
| "observed i (c # cs) s = (let (r, s') = exec_cmd c s in (if c = Iter_next i then [r] else []) @ observed i cs s')"

definition reopens :: "nat \<Rightarrow> store_cmd \<Rightarrow> bool" where
  "reopens i c \<longleftrightarrow> c \<in> {Iter_open i, Iter_reset i, Iter_close i}"

lemma keeps_result [keeps_rules]: "keeps K m K \<Longrightarrow> keeps K (resultS g m) K"
  unfolding resultS_def by (rule keeps_rules | assumption)+

lemma exec_other:
  assumes s: "store_inv s" and i: "i < length (readers s)" and c: "c \<noteq> Iter_next i" "\<not> reopens i c" and run: "exec_cmd c s = (r, s')"
  shows "store_inv s' \<and> i < length (readers s') \<and> remaining s' i = remaining s i"
proof -
  have q: "quiet {} s" by (simp add: quiet_def)
  have keeps: "?thesis" if "keeps {} (exec_cmd c) {}" using keepsD [OF that s q run] i by (auto simp: rest_same_def)
  consider (Iter) j where "c = Iter_open j \<or> c = Iter_next j \<or> c = Iter_reset j \<or> c = Iter_close j"
    | (New) a where "c = Object_keys a \<or> c = Array_values a" | (Other) "keeps {} (exec_cmd c) {}"
    by (cases c) (auto simp del: exec_cmd.simps intro: keeps_rules simp: exec_cmd.simps(1-17))
  then show ?thesis
  proof cases
    case (Iter j)
    then have ji: "j \<noteq> i" using c by (auto simp: reopens_def)
    show ?thesis
    proof (cases "j < length (readers s)")
      case True
      have "resultS g m s = (Inr (g x), s1)" if "m s = (Inr x, s1)" for g x s1 and m :: "unit store_op" using that by (simp add: resultS_def bindS_def)
      then show ?thesis using Iter run i ji iterator_open_ok [OF s True] iterator_next_ok [OF s True] iterator_close_ok [OF s True]
        by (auto simp: iterator_reset_def)
    next
      case False
      then have "s' = s" using Iter run
        by (auto simp: resultS_def iterator_open_def iterator_next_def iterator_reset_def iterator_close_def stopReading_def bindS_def seqS_def
          reader_at_def modify_reader_def)
      then show ?thesis using s i by simp
    qed
  next
    case (New a)
    then consider "s' = s" | "is_json (items s) a" "s' = snd (new_iterator a s)"
      using run reading(3,4) [of a s]
      by (auto simp: resultS_def getObjectKeys_def getArrayValues_def bindS_def new_iterator_def pairs_at_def members_at_def json_at_def item_at_def is_json_def
        split: option.splits item.splits content.splits)
    then show ?thesis using s i new_iterator_ok [OF s, of a] by cases (auto simp: rest_same_def)
  next
    case Other
    then show ?thesis by (rule keeps)
  qed
qed

text \<open>The answers of \<open>n\<close> calls of \<open>next\<close> on an iteration over \<open>xs\<close>.\<close>

definition answers :: "addr list \<Rightarrow> nat \<Rightarrow> (store_err + addr option) list" where
  "answers xs n = map (\<lambda>k. Inr (if k < length xs then Some (xs ! k) else None)) [0..<n]"

lemma answers_Suc: "answers xs (Suc n) = Inr (case xs of [] \<Rightarrow> None | x # _ \<Rightarrow> Some x) # answers (tl xs) n"
  unfolding answers_def upt_conv_Cons [OF zero_less_Suc] map_Suc_upt [symmetric] by (cases xs) (simp_all add: comp_def)

definition count_next :: "nat \<Rightarrow> store_cmd list \<Rightarrow> nat" where
  "count_next i cs = length (filter (\<lambda>c. c = Iter_next i) cs)"

lemma observed_remaining:
  "store_inv s \<Longrightarrow> i < length (readers s) \<Longrightarrow> list_all (\<lambda>c. \<not> reopens i c) cs \<Longrightarrow> observed i cs s = answers (remaining s i) (count_next i cs)"
proof (induction cs arbitrary: s)
  case Nil
  then show ?case by (simp add: answers_def count_next_def)
next
  case (Cons c cs)
  obtain r s' where run: "exec_cmd c s = (r, s')" by (cases "exec_cmd c s")
  show ?case
  proof (cases "c = Iter_next i")
    case True
    then obtain s1 where "iterator_next i s = (Inr (case remaining s i of [] \<Rightarrow> None | x # _ \<Rightarrow> Some x), s1)" "store_inv s1" "i < length (readers s1)"
      "remaining s1 i = tl (remaining s i)" using iterator_next_ok [OF Cons.prems(1,2)] Cons.prems(2) by auto
    then show ?thesis using Cons.IH [of s1] Cons.prems(3) True by (simp add: answers_Suc count_next_def)
  next
    case False
    have "\<not> reopens i c" using Cons.prems(3) by simp
    from exec_other [OF Cons.prems(1,2) False this run] Cons.IH [of s'] Cons.prems(3) False run show ?thesis by (simp add: count_next_def)
  qed
qed

section \<open>Properties\<close>

text \<open>
  C12: an iteration over an object or array returns what the item held when it was opened. After \<open>open\<close>, whatever is done to this or
  other items (adding, removing, replacing, renaming, swapping, exceptions included) and to other iterators, the calls of \<open>next\<close> return the
  keys or members of that moment, each once and in order, and then that there are no more.
\<close>

theorem json_iteration:
  assumes "store_inv s" "i < length (readers s)" "list_all (\<lambda>c. \<not> reopens i c) cs"
  shows "\<exists>s'. iterator_open i s = (Inr (), s')
    \<and> observed i cs s' = answers (contents_at (items s) (theTarget (readers s ! i))) (count_next i cs)"
proof -
  obtain s' where s': "iterator_open i s = (Inr (), s')" "store_inv s'" "i < length (readers s')"
    "remaining s' i = contents_at (items s) (theTarget (readers s ! i))" using iterator_open_ok [OF assms(1,2)] assms(2) by auto
  from observed_remaining [OF s'(2,3) assms(3)] s'(1,4) show ?thesis by simp
qed

theorem json_iteration_witness:
  "\<exists>s'. iterator_open 0 \<lparr>items = [16 \<mapsto> JSON \<lparr>theCollectionInfo = None, theHeight = 1, content_of = Members [32, 48]\<rparr>,
      32 \<mapsto> Atomic Null_item, 48 \<mapsto> Atomic (Boolean_item True)], arena = [],
      readers = [\<lparr>theKey = None, thePrev = None, theNext = None, theTarget = 16, thePos = 0, theSize = 0, theCopy = []\<rparr>],
      theReaders = replicate 256 None\<rparr> = (Inr (), s')
    \<and> observed 0 [Iter_next 0, Array_remove 16 2, Array_push_back 16 32, Iter_next 0, Iter_next 0] s' = [Inr (Some 32), Inr (Some 48), Inr None]"
  (is "\<exists>s'. iterator_open 0 ?s = _ \<and> observed 0 ?cs s' = _")
proof -
  have "lists_ok ?s (\<lambda>_. [])" by (auto simp: lists_ok_def less_Suc_eq)
  then have "store_inv ?s" by (auto simp: store_inv_def less_Suc_eq iter_ok_def is_json_def)
  moreover have "0 < length (readers ?s)" "list_all (\<lambda>c. \<not> reopens 0 c) ?cs" by (simp_all add: reopens_def)
  ultimately have "\<exists>s'. iterator_open 0 ?s = (Inr (), s')
    \<and> observed 0 ?cs s' = answers (contents_at (items ?s) (theTarget (readers ?s ! 0))) (count_next 0 ?cs)" by (rule json_iteration)
  moreover have "count_next 0 ?cs = 3" by (simp add: count_next_def)
  ultimately show ?thesis by (simp add: contents_at_def contents_def answers_def upt_rec numeral_3_eq_3)
qed

end
