(* ===== verification/Json_Items.thy ===== *)
theory Json_Items
  imports Json_Readers
begin

text \<open>
  JSON objects and arrays as values: an object is an ordered map from strings to items, an array a list, whatever index is kept; the height of an
  item is that of its deepest member plus one and never exceeds the limit. The steps of which the operations are made are lemmas; each operation
  is then a few of these steps.
\<close>

section \<open>Values\<close>

definition key_str :: "(addr \<rightharpoonup> item) \<Rightarrow> addr \<Rightarrow> byte list option" where
  "key_str h a = (case h a of Some (Atomic x) \<Rightarrow> Some (string_value x) | _ \<Rightarrow> None)"

definition hgt :: "(addr \<rightharpoonup> item) \<Rightarrow> addr \<Rightarrow> nat" where
  "hgt h a = (case h a of Some (JSON j) \<Rightarrow> theHeight j | _ \<Rightarrow> 0)"

definition tall :: "(addr \<rightharpoonup> item) \<Rightarrow> addr list \<Rightarrow> nat" where
  "tall h vs = foldr (\<lambda>v n. max (Suc (hgt h v)) n) vs 1"

text \<open>\<open>apart h r a\<close>: the descendants of \<open>a\<close> form no cycle and \<open>r\<close> is not among them.\<close>

inductive apart :: "(addr \<rightharpoonup> item) \<Rightarrow> addr \<Rightarrow> addr \<Rightarrow> bool" for h r where
  apart_Atomic: "a \<noteq> r \<Longrightarrow> h a = Some (Atomic x) \<Longrightarrow> apart h r a"
| apart_JSON: "a \<noteq> r \<Longrightarrow> h a = Some (JSON j) \<Longrightarrow> (\<And>m. m \<in> set (member_values (content_of j)) \<Longrightarrow> apart h r m) \<Longrightarrow> apart h r a"

definition others_same :: "addr \<Rightarrow> (addr \<rightharpoonup> item) \<Rightarrow> (addr \<rightharpoonup> item) \<Rightarrow> bool" where
  "others_same r h h' \<longleftrightarrow> (\<forall>a. a \<noteq> r \<longrightarrow> map_option plain (h' a) = map_option plain (h a))"

lemma others_same_refl [simp]: "others_same r h h"
  by (simp add: others_same_def)

lemma others_same_trans: "others_same r h h1 \<Longrightarrow> others_same r h1 h2 \<Longrightarrow> others_same r h h2"
  by (simp add: others_same_def)

lemma others_same_values: "same_values h h' \<Longrightarrow> others_same r h h'"
  by (simp add: others_same_def same_values_def)

lemma others_same_upd [simp]: "others_same r h (h(r \<mapsto> it))"
  by (simp add: others_same_def)

lemma others_same_cases:
  assumes "others_same r h h'" "a \<noteq> r"
  obtains (None) "h a = None" "h' a = None" | (Atomic) x where "h a = Some (Atomic x)" "h' a = Some (Atomic x)"
    | (JSON) j k where "h a = Some (JSON j)" "h' a = Some (JSON k)" "content_of k = content_of j" "theHeight k = theHeight j"
proof -
  have "same_values (h(r := None)) (h'(r := None))" using assms(1) by (simp add: same_values_def others_same_def)
  then show thesis by (cases rule: same_values_cases [of _ _ a]) (use that assms(2) in simp_all)
qed

lemma others_sameD:
  assumes "others_same r h h'" "a \<noteq> r"
  shows "key_str h' a = key_str h a" "hgt h' a = hgt h a"
  using assms by (cases rule: others_same_cases; simp add: key_str_def hgt_def)+

lemma apart_mono: "apart h r a \<Longrightarrow> others_same r h h' \<Longrightarrow> apart h' r a"
proof (induction rule: apart.induct)
  case (apart_Atomic a x)
  from apart_Atomic(3,1) show ?case by (cases rule: others_same_cases) (use apart_Atomic(1,2) in \<open>auto intro: apart.apart_Atomic\<close>)
next
  case (apart_JSON a j)
  from apart_JSON(5,1) obtain k where k: "h' a = Some (JSON k)" "content_of k = content_of j"
    by (cases rule: others_same_cases) (use apart_JSON(2) in auto)
  show ?case by (rule apart.apart_JSON [where a = a and h = h' and j = k and r = r, OF apart_JSON(1) k(1)]) (use apart_JSON(4,5) k(2) in simp)
qed

lemma apartD: "apart h r a \<Longrightarrow> a \<noteq> r \<and> h a \<noteq> None"
  by (erule apart.cases) auto

section \<open>Passing on the collection information\<close>

definition passes :: "addr option \<Rightarrow> addr \<Rightarrow> addr list \<Rightarrow> (addr \<rightharpoonup> item) \<Rightarrow> bool" where
  "passes info r ps h \<longleftrightarrow> (\<exists>h'. (\<forall>rest. set_info_loop info (ps @ rest) h = set_info_loop info rest h') \<and> same_values h h' \<and> h' r = h r)"

lemma passes_list:
  "(\<And>m h'. m \<in> set ps \<Longrightarrow> same_values h h' \<Longrightarrow> passes info r [m] h') \<Longrightarrow> same_values h h1 \<Longrightarrow> passes info r ps h1"
proof (induction ps arbitrary: h1)
  case Nil
  then show ?case by (auto simp: passes_def)
next
  case (Cons m ps)
  have "passes info r [m] h1" using Cons.prems by simp
  then obtain h2 where h2: "\<And>rest. set_info_loop info (m # rest) h1 = set_info_loop info rest h2" "same_values h1 h2" "h2 r = h1 r"
    by (auto simp: passes_def)
  have "passes info r ps h2" using Cons.IH Cons.prems same_values_trans [OF Cons.prems(2) h2(2)] by simp
  then obtain h3 where "\<And>rest. set_info_loop info (ps @ rest) h2 = set_info_loop info rest h3" "same_values h2 h3" "h3 r = h2 r"
    by (auto simp: passes_def)
  then show ?case using h2 same_values_trans unfolding passes_def by (intro exI [of _ h3]) auto
qed

lemma passes_apart: "apart h r a \<Longrightarrow> is_json h a \<Longrightarrow> same_values h h' \<Longrightarrow> passes info r [a] h'"
proof (induction arbitrary: h' rule: apart.induct)
  case (apart_Atomic a x)
  then show ?case by (simp add: is_json_def)
next
  case (apart_JSON a j)
  from apart_JSON(6) obtain k where k: "h' a = Some (JSON k)" "content_of k = content_of j"
    by (cases rule: same_values_cases [of _ _ a]) (use apart_JSON(2) in auto)
  define h1 where "h1 = h'(a \<mapsto> JSON (k\<lparr>theCollectionInfo := info\<rparr>))"
  have v: "same_values h h1" using same_values_trans [OF apart_JSON(6) same_values_info [of h' a k info, OF k(1)]] by (simp add: h1_def)
  let ?ps = "rev (filter (is_json h1) (member_values (content_of k)))"
  have "passes info r ?ps h1"
  proof (rule passes_list [OF _ v])
    fix m h' assume m: "m \<in> set ?ps" "same_values h h'"
    then show "passes info r [m] h'" using apart_JSON(4) [of m h'] k(2) same_valuesD(2) [OF v] by simp
  qed
  then obtain h2 where h2: "\<And>rest. set_info_loop info (?ps @ rest) h1 = set_info_loop info rest h2" "same_values h1 h2" "h2 r = h1 r" by (auto simp: passes_def)
  have "set_info_loop info ([a] @ rest) h' = set_info_loop info (?ps @ rest) h1" for rest
    by (subst set_info_loop.simps) (simp add: k(1) h1_def Let_def)
  moreover have "same_values h' h1" using same_values_info [of h' a k info, OF k(1)] by (simp add: h1_def)
  ultimately show ?case using h2 same_values_trans [of h' h1 h2] apart_JSON(1) unfolding passes_def by (intro exI [of _ h2]) (auto simp: h1_def)
qed

lemma pass_info_run:
  assumes "items s r = Some (JSON j)" "apart (items s) r v"
  shows "\<exists>h. pass_info r v b s = (Inr (), s\<lparr>items := h\<rparr>) \<and> same_values (items s) h \<and> h r = items s r"
proof (cases "is_json (items s) v \<and> theCollectionInfo j \<noteq> None")
  case True
  let ?i = "if b then theCollectionInfo j else None"
  obtain k where k: "items s v = Some (JSON k)" using True by (auto simp: is_json_def split: option.splits item.splits)
  obtain h where h: "\<And>rest. set_info_loop ?i (v # rest) (items s) = set_info_loop ?i rest h" "same_values (items s) h" "h r = items s r"
    using passes_apart [OF assms(2), of "items s" ?i] True by (auto simp: passes_def)
  have "set_info_loop ?i [v] (items s) = Some (Inr h)" using h(1) [of "[]"] by (simp add: set_info_loop.simps)
  then show ?thesis using h(2,3) assms(1) k True
    by (auto simp: pass_info_def bindS_def json_at_run item_at_def setCollectionTreeInfo_def)
next
  case False
  obtain it where it: "items s v = Some it" using apartD [OF assms(2)] by auto
  then have "pass_info r v b s = (Inr (), s\<lparr>items := items s\<rparr>)" using assms(1) False
    by (cases it) (auto simp: pass_info_def bindS_def json_at_run item_at_def is_json_def)
  then show ?thesis by (intro exI [of _ "items s"]) simp
qed

section \<open>Heights\<close>

lemma addHeightOf_run:
  assumes "items s r = Some (JSON j)" "items s v \<noteq> None" "hgt (items s) v < MAX_DEPTH" "1 \<le> theHeight j"
  shows "addHeightOf r v s = (Inr (), s\<lparr>items := (items s)(r \<mapsto> JSON (j\<lparr>theHeight := max (Suc (hgt (items s) v)) (theHeight j)\<rparr>))\<rparr>)"
proof -
  obtain it where it: "items s v = Some it" using assms(2) by auto
  have same: "(items s)(r \<mapsto> JSON j) = items s" using assms(1) by (simp add: map_upd_triv)
  show ?thesis
  proof (cases it)
    case (Atomic x)
    then have "hgt (items s) v = 0" using it by (simp add: hgt_def)
    then have "j\<lparr>theHeight := max (Suc (hgt (items s) v)) (theHeight j)\<rparr> = j" using assms(4) by (simp add: max_def)
    then show ?thesis using Atomic it same by (simp add: addHeightOf_def bindS_def item_at_def)
  next
    case (JSON m)
    then have m: "hgt (items s) v = theHeight m" using it by (simp add: hgt_def)
    then show ?thesis using JSON it assms(1,3) same
      by (auto simp: addHeightOf_def bindS_def item_at_def modify_json_def json_at_run put_json_def max_def)
  qed
qed

lemma addHeightOf_fails:
  assumes "items s v = Some (JSON m)" "MAX_DEPTH \<le> theHeight m"
  shows "addHeightOf r v s = (Inl Nesting_exceeded, s)"
  using assms by (simp add: addHeightOf_def bindS_def item_at_def)

lemma hgt_upd: "v \<noteq> r \<Longrightarrow> hgt (h(r := x)) v = hgt h v"
  by (simp add: hgt_def)

lemma tall_upd: "r \<notin> set vs \<Longrightarrow> tall (h(r := x)) vs = tall h vs"
  by (induction vs) (auto simp: tall_def hgt_upd)

lemma tall_same: "others_same r h h' \<Longrightarrow> r \<notin> set vs \<Longrightarrow> tall h' vs = tall h vs"
  by (induction vs) (auto simp: tall_def others_sameD(2))

lemma tall_ge: "1 \<le> tall h vs"
  by (induction vs) (simp_all add: tall_def)

lemma heights_run:
  "items s r = Some (JSON j) \<Longrightarrow> (\<And>v. v \<in> set vs \<Longrightarrow> v \<noteq> r \<and> items s v \<noteq> None \<and> hgt (items s) v < MAX_DEPTH) \<Longrightarrow> 1 \<le> theHeight j \<Longrightarrow>
    forS vs (addHeightOf r) s = (Inr (), s\<lparr>items := (items s)(r \<mapsto> JSON (j\<lparr>theHeight := max (tall (items s) vs) (theHeight j)\<rparr>))\<rparr>)"
proof (induction vs arbitrary: s j)
  case Nil
  then have "j\<lparr>theHeight := max (tall (items s) []) (theHeight j)\<rparr> = j" by (simp add: tall_def max_def)
  then show ?case using Nil by (simp add: map_upd_triv)
next
  case (Cons v vs)
  have v: "v \<noteq> r" "items s v \<noteq> None" "hgt (items s) v < MAX_DEPTH" using Cons.prems(2) by auto
  define j1 where "j1 = j\<lparr>theHeight := max (Suc (hgt (items s) v)) (theHeight j)\<rparr>"
  define s1 where "s1 = s\<lparr>items := (items s)(r \<mapsto> JSON j1)\<rparr>"
  have one: "addHeightOf r v s = (Inr (), s1)" using addHeightOf_run [OF Cons.prems(1) v(2,3) Cons.prems(3)] by (simp add: s1_def j1_def)
  have n: "r \<notin> set vs" using Cons.prems(2) by auto
  have "forS (v # vs) (addHeightOf r) s = forS vs (addHeightOf r) s1" using one by (simp add: seqS_run)
  also have "forS vs (addHeightOf r) s1 = (Inr (), s1\<lparr>items := (items s1)(r \<mapsto> JSON (j1\<lparr>theHeight := max (tall (items s1) vs) (theHeight j1)\<rparr>))\<rparr>)"
  proof (rule Cons.IH)
    show "v \<noteq> r \<and> items s1 v \<noteq> None \<and> hgt (items s1) v < MAX_DEPTH" if "v \<in> set vs" for v
      using Cons.prems(2) [of v] that hgt_upd [of v r "items s"] by (simp add: s1_def)
  qed (use Cons.prems(3) in \<open>simp_all add: s1_def j1_def\<close>)
  also have "max (tall (items s1) vs) (theHeight j1) = max (tall (items s) (v # vs)) (theHeight j)"
    using n by (simp add: s1_def j1_def tall_upd) (simp add: tall_def)
  also have "s1\<lparr>items := (items s1)(r \<mapsto> JSON (j1\<lparr>theHeight := n\<rparr>))\<rparr> = s\<lparr>items := (items s)(r \<mapsto> JSON (j\<lparr>theHeight := n\<rparr>))\<rparr>" for n
    by (simp add: s1_def j1_def)
  finally show ?case .
qed

lemma tall_le: "tall h vs \<le> n \<longleftrightarrow> 1 \<le> n \<and> (\<forall>v \<in> set vs. Suc (hgt h v) \<le> n)"
  by (induction vs) (auto simp: tall_def)

lemma tall_set: "set vs = set vs' \<Longrightarrow> tall h vs = tall h vs'"
  by (intro antisym) (use tall_le [of h vs "tall h vs"] tall_le [of h vs' "tall h vs'"] in \<open>simp_all add: tall_le\<close>)

lemma tall_Cons: "tall h (v # vs) = max (Suc (hgt h v)) (tall h vs)"
  by (simp add: tall_def)

section \<open>Arrays and objects\<close>

text \<open>\<open>fits h r v\<close>: \<open>v\<close> can be made a member of \<open>r\<close>.\<close>

definition fits :: "(addr \<rightharpoonup> item) \<Rightarrow> addr \<Rightarrow> addr \<Rightarrow> bool" where
  "fits h r v \<longleftrightarrow> apart h r v \<and> hgt h v < MAX_DEPTH"

definition holds :: "(addr \<rightharpoonup> item) \<Rightarrow> addr \<Rightarrow> content \<Rightarrow> bool" where
  "holds h r c \<longleftrightarrow> (\<exists>j. h r = Some (JSON j) \<and> content_of j = c \<and> theHeight j = tall h (member_values c)) \<and> (\<forall>v \<in> set (member_values c). fits h r v)"

lemma fits_same: "others_same r h h' \<Longrightarrow> fits h r v \<Longrightarrow> fits h' r v"
  using apart_mono others_sameD(2) apartD unfolding fits_def by metis

lemma fitsD: "fits h r v \<Longrightarrow> v \<noteq> r \<and> h v \<noteq> None \<and> hgt h v < MAX_DEPTH \<and> apart h r v"
  by (auto simp: fits_def dest: apartD)

lemma fits_notin: "(\<forall>v \<in> set vs. fits h r v) \<Longrightarrow> r \<notin> set vs"
  by (auto dest: fitsD)

text \<open>The steps of which the operations are made. \<open>state_at\<close>: the item \<open>r\<close> is \<open>j\<close>, all else is as in \<open>h\<close>.\<close>

definition state_at :: "(addr \<rightharpoonup> item) \<Rightarrow> addr \<Rightarrow> json_item \<Rightarrow> json_store \<Rightarrow> bool" where
  "state_at h r j s \<longleftrightarrow> items s r = Some (JSON j) \<and> others_same r h (items s)"

lemma state_at_fits: "state_at h r j s \<Longrightarrow> fits h r v \<Longrightarrow> fits (items s) r v \<and> hgt (items s) v = hgt h v"
  unfolding state_at_def using fits_same others_sameD(2) fitsD by metis

lemma state_at_tall: "state_at h r j s \<Longrightarrow> r \<notin> set vs \<Longrightarrow> tall (items s) vs = tall h vs"
  unfolding state_at_def using tall_same by blast

lemma holds_state: "holds (items s) r c \<longleftrightarrow> (\<exists>j. state_at (items s) r j s \<and> content_of j = c \<and> theHeight j = tall (items s) (member_values c)) \<and> (\<forall>v \<in> set (member_values c). fits (items s) r v)"
  by (simp add: holds_def state_at_def)

lemma state_holds:
  assumes "state_at h r j s" "content_of j = c" "theHeight j = tall h (member_values c)" "\<forall>v \<in> set (member_values c). fits h r v"
  shows "holds (items s) r c"
proof -
  have "tall (items s) (member_values c) = tall h (member_values c)" using state_at_tall [OF assms(1)] fits_notin [OF assms(4)] by blast
  then show ?thesis unfolding holds_def using assms state_at_fits [OF assms(1)] by (auto simp: state_at_def)
qed

lemma state_read: "state_at h r j s \<Longrightarrow> json_at r s = (Inr j, s)"
  by (simp add: state_at_def json_at_run)

lemma state_members: "state_at h r j s \<Longrightarrow> content_of j = Members ms \<Longrightarrow> members_at r s = (Inr ms, s)"
  by (simp add: members_at_def bindS_def state_read)

lemma state_pairs: "state_at h r j s \<Longrightarrow> content_of j = Pairs ps ks \<Longrightarrow> pairs_at r s = (Inr (ps, ks), s)"
  by (simp add: pairs_at_def bindS_def state_read)

lemma step_willChange:
  assumes "store_inv s" "state_at h r j s"
  obtains s' where "contentWillChange a s = (Inr (), s')" "store_inv s'" "state_at h r j s'" "arena s' = arena s"
proof -
  obtain s' where s': "contentWillChange a s = (Inr (), s')" "items s' = items s" "arena s' = arena s"
    using contentWillChange_ok [OF assms(1), of a] by (auto simp: copied_readers_def)
  moreover have "store_inv s'" using keepsD [OF keeps_willChange [of "{}"] assms(1) _ s'(1)] by (simp add: quiet_def)
  ultimately show thesis using that assms(2) by (simp add: state_at_def)
qed

lemma keeps_inv: "keeps {} f K \<Longrightarrow> store_inv s \<Longrightarrow> f s = (r, s') \<Longrightarrow> store_inv s'"
  using keepsD [of "{}" f K s r s'] by (simp add: quiet_def)

lemma step_modify:
  assumes "state_at h r j s"
  shows "\<exists>s'. modify_json r f s = (Inr (), s') \<and> state_at h r (f j) s' \<and> readers s' = readers s \<and> theReaders s' = theReaders s \<and> arena s' = arena s"
proof -
  have "modify_json r f s = (Inr (), s\<lparr>items := (items s)(r \<mapsto> JSON (f j))\<rparr>)"
    using state_read [OF assms] by (simp add: modify_json_def bindS_def put_json_def)
  moreover have "state_at h r (f j) (s\<lparr>items := (items s)(r \<mapsto> JSON (f j))\<rparr>)" using assms others_same_trans [of r h "items s"] by (simp add: state_at_def)
  ultimately show ?thesis by auto
qed

lemma step_height:
  assumes "state_at h r j s" "fits h r v" "1 \<le> theHeight j"
  shows "\<exists>s'. addHeightOf r v s = (Inr (), s') \<and> state_at h r (j\<lparr>theHeight := max (Suc (hgt h v)) (theHeight j)\<rparr>) s' \<and> arena s' = arena s"
proof -
  have v: "hgt (items s) v = hgt h v" "items s v \<noteq> None" "hgt (items s) v < MAX_DEPTH"
    using state_at_fits [OF assms(1,2)] fitsD [of "items s" r v] by auto
  from assms(1) have "items s r = Some (JSON j)" by (simp add: state_at_def)
  from addHeightOf_run [OF this v(2,3) assms(3)] show ?thesis using assms(1) others_same_trans [of r h "items s"] by (auto simp: state_at_def v(1))
qed

lemma step_info:
  assumes "state_at h r j s" "fits h r v"
  shows "\<exists>s'. pass_info r v b s = (Inr (), s') \<and> state_at h r j s' \<and> arena s' = arena s"
proof -
  have "items s r = Some (JSON j)" "apart (items s) r v" using assms state_at_fits [OF assms] by (auto simp: state_at_def fits_def)
  from pass_info_run [OF this, of b] obtain h' where h': "pass_info r v b s = (Inr (), s\<lparr>items := h'\<rparr>)" "same_values (items s) h'" "h' r = items s r" by blast
  from others_same_values [OF h'(2), of r] others_same_trans assms(1) h'(1,3) show ?thesis unfolding state_at_def by fastforce
qed

text \<open>Taking a member out: the height is recomputed if it may have become smaller.\<close>

lemma step_deepest:
  assumes s: "state_at h r j s" and x: "fits h r x" and vs: "\<forall>v \<in> set (member_values (content_of j)). fits h r v"
    and H: "theHeight j = tall h (x # member_values (content_of j))"
  shows "\<exists>s' k. bindS (isDeepest r x) (\<lambda>d. seqS (whenS d (recomputeHeight r)) (returnS y)) s = (Inr y, s') \<and> state_at h r k s'
    \<and> content_of k = content_of j \<and> theHeight k = tall h (member_values (content_of j)) \<and> arena s' = arena s"
proof -
  let ?vs = "member_values (content_of j)"
  obtain it where it: "items s x = Some it" using state_at_fits [OF s x] fitsD by blast
  have hx: "hgt (items s) x = hgt h x" using state_at_fits [OF s x] by simp
  show ?thesis
  proof (cases "is_json (items s) x \<and> Suc (hgt h x) = theHeight j")
    case True
    then have d: "isDeepest r x s = (Inr True, s)" using it hx state_read [OF s]
      by (cases it) (auto simp: isDeepest_def bindS_def item_at_def is_json_def hgt_def)
    obtain s1 where s1: "modify_json r (\<lambda>j. j\<lparr>theHeight := 1\<rparr>) s = (Inr (), s1)" "state_at h r (j\<lparr>theHeight := 1\<rparr>) s1" "arena s1 = arena s"
      using step_modify [OF s] by blast
    have "forS ?vs (addHeightOf r) s1 = (Inr (), s1\<lparr>items := (items s1)(r \<mapsto> JSON (j\<lparr>theHeight := 1\<rparr>\<lparr>theHeight := max (tall (items s1) ?vs) (theHeight (j\<lparr>theHeight := 1\<rparr>))\<rparr>))\<rparr>)"
    proof (rule heights_run)
      show "items s1 r = Some (JSON (j\<lparr>theHeight := 1\<rparr>))" using s1(2) by (simp add: state_at_def)
      show "v \<noteq> r \<and> items s1 v \<noteq> None \<and> hgt (items s1) v < MAX_DEPTH" if "v \<in> set ?vs" for v
        using vs that state_at_fits [OF s1(2), of v] fitsD [of "items s1" r v] by simp
    qed simp
    moreover have "tall (items s1) ?vs = tall h ?vs" using state_at_tall [OF s1(2)] fits_notin [OF vs] by blast
    moreover have "max (tall h ?vs) 1 = tall h ?vs" using tall_ge [of h ?vs] by (simp add: max_def)
    ultimately have "forS ?vs (addHeightOf r) s1 = (Inr (), s1\<lparr>items := (items s1)(r \<mapsto> JSON (j\<lparr>theHeight := tall h ?vs\<rparr>))\<rparr>)" by simp
    then have "recomputeHeight r s = (Inr (), s1\<lparr>items := (items s1)(r \<mapsto> JSON (j\<lparr>theHeight := tall h ?vs\<rparr>))\<rparr>)"
      using s1(1) state_read [OF s1(2)] by (simp add: recomputeHeight_def seqS_def bindS_def)
    then show ?thesis using d s1(2,3) others_same_trans [of r h "items s1"]
      by (intro exI [of _ "s1\<lparr>items := (items s1)(r \<mapsto> JSON (j\<lparr>theHeight := tall h ?vs\<rparr>))\<rparr>"] exI [of _ "j\<lparr>theHeight := tall h ?vs\<rparr>"])
        (auto simp: bindS_def seqS_def state_at_def)
  next
    case False
    then have d: "isDeepest r x s = (Inr False, s)" using it hx state_read [OF s]
      by (cases it) (auto simp: isDeepest_def bindS_def item_at_def is_json_def hgt_def)
    have "tall h (x # ?vs) = tall h ?vs"
    proof (cases "is_json (items s) x")
      case True
      then show ?thesis using False H by (simp add: tall_Cons max_def split: if_splits)
    next
      case nj: False
      then have "hgt h x = 0" using hx it by (cases it) (auto simp: is_json_def hgt_def)
      then show ?thesis using tall_ge [of h ?vs] by (simp add: tall_Cons max_def)
    qed
    then show ?thesis using d s H by (auto simp: bindS_def seqS_def)
  qed
qed

section \<open>Keys\<close>

fun key_pos :: "(addr \<Rightarrow> byte list option) \<Rightarrow> (addr \<times> addr) list \<Rightarrow> byte list \<Rightarrow> nat option" where
  "key_pos kf [] k = None"
| "key_pos kf (p # ps) k = (if kf (fst p) = Some k then Some 0 else map_option Suc (key_pos kf ps k))"

definition keys_ok :: "(addr \<Rightarrow> byte list option) \<Rightarrow> (addr \<times> addr) list \<Rightarrow> bool" where
  "keys_ok kf ps \<longleftrightarrow> (\<forall>p \<in> set ps. kf (fst p) \<noteq> None) \<and> distinct (map (kf \<circ> fst) ps)"

definition obj_ok :: "(addr \<Rightarrow> byte list option) \<Rightarrow> (addr \<times> addr) list \<Rightarrow> (byte list \<rightharpoonup> nat) option \<Rightarrow> bool" where
  "obj_ok kf ps ks \<longleftrightarrow> keys_ok kf ps
    \<and> (case ks of None \<Rightarrow> length ps \<le> KEY_INDEX_THRESHOLD | Some m \<Rightarrow> KEY_INDEX_THRESHOLD < length ps \<and> m = key_pos kf ps)"

lemma key_pos_None: "key_pos kf ps k = None \<longleftrightarrow> (\<forall>p \<in> set ps. kf (fst p) \<noteq> Some k)"
  by (induction ps) auto

lemma key_pos_SomeD: "key_pos kf ps k = Some i \<Longrightarrow> i < length ps \<and> kf (fst (ps ! i)) = Some k"
  by (induction ps arbitrary: i) (auto split: if_splits)

lemma key_pos_nth:
  assumes "keys_ok kf ps" "i < length ps" "kf (fst (ps ! i)) = Some k" shows "key_pos kf ps k = Some i"
  using assms
proof (induction ps arbitrary: i)
  case (Cons p ps)
  show ?case
  proof (cases i)
    case 0
    then show ?thesis using Cons.prems by simp
  next
    case (Suc l)
    have "Some k \<in> (kf \<circ> fst) ` set ps" by (rule image_eqI [of _ _ "ps ! l"]) (use Cons.prems(2,3) Suc in simp_all)
    moreover have "kf (fst p) \<notin> (kf \<circ> fst) ` set ps" using Cons.prems(1) by (simp add: keys_ok_def)
    ultimately have "kf (fst p) \<noteq> Some k" by metis
    then show ?thesis using Cons.IH [of l] Cons.prems Suc by (simp add: keys_ok_def)
  qed
qed simp

lemma key_pos_iff: "keys_ok kf ps \<Longrightarrow> key_pos kf ps k = Some i \<longleftrightarrow> i < length ps \<and> kf (fst (ps ! i)) = Some k"
  using key_pos_SomeD key_pos_nth by metis

lemma key_pos_eqI:
  assumes "keys_ok kf ps" "\<And>k i. m k = Some i \<longleftrightarrow> i < length ps \<and> kf (fst (ps ! i)) = Some k" shows "m = key_pos kf ps"
proof
  fix k show "m k = key_pos kf ps k"
  proof (cases "m k")
    case None
    then have "key_pos kf ps k \<noteq> Some i" for i using assms(2) [of k i] key_pos_iff [OF assms(1), of k i] by simp
    then show ?thesis using None by (cases "key_pos kf ps k") auto
  next
    case (Some i)
    then show ?thesis using assms(2) [of k i] key_pos_iff [OF assms(1), of k i] by simp
  qed
qed

lemma keys_ok_append: "keys_ok kf (ps @ [p]) \<longleftrightarrow> keys_ok kf ps \<and> (\<exists>k. kf (fst p) = Some k \<and> key_pos kf ps k = None)"
  unfolding keys_ok_def key_pos_None by (auto; force)

lemma keyString_run: "key_str (items s) a = Some k \<Longrightarrow> keyString a s = (Inr k, s)"
  by (auto simp: key_str_def keyString_def bindS_def item_at_def split: option.splits item.splits)

lemma find_linear_run:
  "\<forall>p \<in> set ps. key_str (items s) (fst p) \<noteq> None \<Longrightarrow> key_str (items s) a = Some k \<Longrightarrow>
    find_linear ps i a k s = (Inr (case key_pos (key_str (items s)) ps k of None \<Rightarrow> i + length ps | Some l \<Rightarrow> i + l), s)"
proof (induction ps arbitrary: i)
  case (Cons p ps)
  obtain k' where k': "key_str (items s) (fst p) = Some k'" using Cons.prems by auto
  then show ?case using Cons.IH [of "i + 1"] Cons.prems keyString_run [OF k'] by (auto simp: bindS_def split: option.splits)
qed simp

lemma findKey_run:
  assumes "state_at h r j s" "content_of j = Pairs ps ks" "obj_ok (key_str (items s)) ps ks" "key_str (items s) a = Some k"
  shows "findKey r a k s = (Inr (case key_pos (key_str (items s)) ps k of None \<Rightarrow> length ps | Some l \<Rightarrow> l), s)"
proof (cases ks)
  case None
  have "\<forall>p \<in> set ps. key_str (items s) (fst p) \<noteq> None" using assms(3) by (simp add: obj_ok_def keys_ok_def)
  from find_linear_run [OF this assms(4), of 0] show ?thesis using None state_pairs [OF assms(1,2)] by (simp add: findKey_def bindS_def split: option.split)
next
  case (Some m)
  then show ?thesis using state_pairs [OF assms(1,2)] assms(3) by (simp add: findKey_def bindS_def obj_ok_def)
qed

lemma build_index_run:
  "\<forall>p \<in> set ps. key_str (items s) (fst p) \<noteq> None \<Longrightarrow>
    build_index ps i m s = (Inr (\<lambda>k. case m k of Some l \<Rightarrow> Some l | None \<Rightarrow> map_option ((+) i) (key_pos (key_str (items s)) ps k)), s)"
proof (induction ps arbitrary: i m)
  case Nil
  have "(\<lambda>k. case m k of None \<Rightarrow> map_option ((+) i) (key_pos (key_str (items s)) [] k) | Some l \<Rightarrow> Some l) = m" by (auto split: option.splits)
  then show ?case by simp
next
  case (Cons p ps)
  obtain k' where k': "key_str (items s) (fst p) = Some k'" using Cons.prems by auto
  have "(\<lambda>k. case index_insert k' i m k of Some l \<Rightarrow> Some l | None \<Rightarrow> map_option ((+) (i + 1)) (key_pos (key_str (items s)) ps k))
    = (\<lambda>k. case m k of Some l \<Rightarrow> Some l | None \<Rightarrow> map_option ((+) i) (key_pos (key_str (items s)) (p # ps) k))"
    (is "?l = ?r")
  proof
    have "(+) (Suc i) = (\<lambda>x. Suc (i + x))" by auto
    then show "?l k = ?r k" for k by (auto simp: index_insert_def k' dom_def option.map_comp comp_def split: option.splits)
  qed
  then show ?case using Cons.IH [of "i + 1" "index_insert k' i m"] Cons.prems keyString_run [OF k'] by (simp add: bindS_def)
qed

lemma buildKeyIndex_run:
  assumes "state_at h r j s" "content_of j = Pairs ps ks" "keys_ok (key_str (items s)) ps"
  shows "\<exists>s'. buildKeyIndex r s = (Inr (), s') \<and> state_at h r (j\<lparr>content_of := Pairs ps (Some (key_pos (key_str (items s)) ps))\<rparr>) s' \<and> arena s' = arena s"
proof -
  have "\<forall>p \<in> set ps. key_str (items s) (fst p) \<noteq> None" using assms(3) by (simp add: keys_ok_def)
  then have b: "build_index ps 0 Map.empty s = (Inr (key_pos (key_str (items s)) ps), s)"
  proof -
    have "(+) 0 = (\<lambda>n :: nat. n)" by auto
    then show ?thesis using build_index_run [OF \<open>\<forall>p \<in> set ps. key_str (items s) (fst p) \<noteq> None\<close>, of 0 Map.empty] by (simp add: option.map_ident)
  qed
  obtain s' where "modify_json r (\<lambda>j. j\<lparr>content_of := Pairs ps (Some (key_pos (key_str (items s)) ps))\<rparr>) s = (Inr (), s')"
    "state_at h r (j\<lparr>content_of := Pairs ps (Some (key_pos (key_str (items s)) ps))\<rparr>) s'" "arena s' = arena s"
    using step_modify [OF assms(1), of "\<lambda>j. j\<lparr>content_of := Pairs ps (Some (key_pos (key_str (items s)) ps))\<rparr>"] by blast
  then show ?thesis using b state_pairs [OF assms(1,2)] by (simp add: buildKeyIndex_def bindS_def set_pairs_def)
qed

lemma key_str_same:
  assumes "others_same r h h'" "h r = Some (JSON j)" "h' r = Some (JSON k)" shows "key_str h' = key_str h"
proof
  fix a show "key_str h' a = key_str h a" using others_sameD(1) [OF assms(1), of a] assms(2,3) by (cases "a = r") (simp_all add: key_str_def)
qed

section \<open>Operations on objects\<close>

definition obj :: "json_store \<Rightarrow> addr \<Rightarrow> (addr \<times> addr) list \<Rightarrow> (byte list \<rightharpoonup> nat) option \<Rightarrow> bool" where
  "obj s r ps ks \<longleftrightarrow> store_inv s \<and> holds (items s) r (Pairs ps ks) \<and> obj_ok (key_str (items s)) ps ks"

lemma member_values_simps [simp]: "member_values (Pairs ps ks) = map snd ps" "member_values (Members ms) = ms"
  by (simp_all add: member_values_def)

lemma obj_state:
  assumes "obj s r ps ks"
  obtains j where "state_at (items s) r j s" "content_of j = Pairs ps ks" "theHeight j = tall (items s) (map snd ps)" "\<forall>p \<in> set ps. fits (items s) r (snd p)"
    "store_inv s" "obj_ok (key_str (items s)) ps ks" "1 \<le> theHeight j"
  using assms that tall_ge [of "items s" "map snd ps"] unfolding obj_def holds_state by fastforce

lemma state_key_str: "state_at h r j s \<Longrightarrow> h r = Some (JSON k) \<Longrightarrow> key_str (items s) = key_str h"
  unfolding state_at_def using key_str_same by blast

text \<open>The beginning of every operation on an object.\<close>

lemma object_begin:
  assumes "obj s r ps ks" "key_str (items s) n = Some k"
  obtains j s1 where "contentWillChange r s = (Inr (), s1)" "state_at (items s) r j s1" "content_of j = Pairs ps ks" "theHeight j = tall (items s) (map snd ps)"
    "1 \<le> theHeight j" "\<forall>p \<in> set ps. fits (items s) r (snd p)" "arena s1 = arena s" "keyString n s1 = (Inr k, s1)" "pairs_at r s1 = (Inr (ps, ks), s1)"
    "findKey r n k s1 = (Inr (case key_pos (key_str (items s)) ps k of None \<Rightarrow> length ps | Some l \<Rightarrow> l), s1)"
proof -
  from assms(1) obtain j where j: "state_at (items s) r j s" "content_of j = Pairs ps ks" "theHeight j = tall (items s) (map snd ps)"
    "\<forall>p \<in> set ps. fits (items s) r (snd p)" "store_inv s" "obj_ok (key_str (items s)) ps ks" "1 \<le> theHeight j" by (rule obj_state)
  from j(5,1) obtain s1 where s1: "contentWillChange r s = (Inr (), s1)" "store_inv s1" "state_at (items s) r j s1" "arena s1 = arena s" by (rule step_willChange)
  have kf: "key_str (items s1) = key_str (items s)" using state_key_str [OF s1(3)] j(1) by (simp add: state_at_def)
  have "keyString n s1 = (Inr k, s1)" using keyString_run [of s1 n k] assms(2) kf by simp
  moreover have "findKey r n k s1 = (Inr (case key_pos (key_str (items s)) ps k of None \<Rightarrow> length ps | Some l \<Rightarrow> l), s1)"
    using findKey_run [OF s1(3) j(2), of n k] j(6) assms(2) kf by simp
  ultimately show thesis using that s1 j state_pairs [OF s1(3) j(2)] by blast
qed

text \<open>The end of every operation on an object.\<close>

lemma object_end:
  assumes "obj s r ps ks" "state_at (items s) r j s'" "content_of j = Pairs ps' ks'" "theHeight j = tall (items s) (map snd ps')"
    "\<forall>p \<in> set ps'. fits (items s) r (snd p)" "obj_ok (key_str (items s)) ps' ks'" "f s = (x, s')" "keeps {} f {}"
  shows "obj s' r ps' ks' \<and> others_same r (items s) (items s')"
proof -
  obtain j0 where "state_at (items s) r j0 s" "store_inv s" using obj_state [OF assms(1)] by metis
  then have kf: "key_str (items s') = key_str (items s)" using state_key_str [OF assms(2)] by (simp add: state_at_def)
  have "holds (items s') r (Pairs ps' ks')" using state_holds [OF assms(2,3)] assms(4,5) by simp
  then show ?thesis using assms(2,6) kf keeps_inv [OF assms(8) \<open>store_inv s\<close> assms(7)] by (simp add: obj_def state_at_def)
qed

lemma object_add_new:
  assumes o: "obj s r ps ks" and n: "key_str (items s) n = Some k" "key_pos (key_str (items s)) ps k = None" and v: "fits (items s) r v"
  shows "\<exists>s' ks'. object_add r n v acc s = (Inr True, s') \<and> obj s' r (ps @ [(n, v)]) ks' \<and> others_same r (items s) (items s') \<and> arena s' = arena s"
proof -
  let ?h = "items s" let ?kf = "key_str ?h" let ?ps = "ps @ [(n, v)]"
  from o n(1) obtain j s1 where s1: "contentWillChange r s = (Inr (), s1)" "state_at ?h r j s1" "content_of j = Pairs ps ks" "theHeight j = tall ?h (map snd ps)"
    "1 \<le> theHeight j" "\<forall>p \<in> set ps. fits ?h r (snd p)" "arena s1 = arena s" "keyString n s1 = (Inr k, s1)" "pairs_at r s1 = (Inr (ps, ks), s1)"
    "findKey r n k s1 = (Inr (case key_pos ?kf ps k of None \<Rightarrow> length ps | Some l \<Rightarrow> l), s1)" by (rule object_begin)
  define j1 where "j1 = j\<lparr>theHeight := max (Suc (hgt ?h v)) (theHeight j)\<rparr>"
  obtain s2 where s2: "addHeightOf r v s1 = (Inr (), s2)" "state_at ?h r j1 s2" "arena s2 = arena s1" using step_height [OF s1(2) v s1(5)] unfolding j1_def by blast
  obtain s3 where s3: "pass_info r v True s2 = (Inr (), s3)" "state_at ?h r j1 s3" "arena s3 = arena s2" using step_info [OF s2(2) v] by blast
  define ks1 where "ks1 = map_option (index_insert k (length ps)) ks"
  obtain s4 where s4: "set_pairs r ?ps ks1 s3 = (Inr (), s4)" "state_at ?h r (j1\<lparr>content_of := Pairs ?ps ks1\<rparr>) s4" "arena s4 = arena s3"
    using step_modify [OF s3(2), of "\<lambda>j. j\<lparr>content_of := Pairs ?ps ks1\<rparr>"] unfolding set_pairs_def by blast
  have H: "theHeight j1 = tall ?h (map snd ?ps)" using s1(4) tall_set [of "v # map snd ps" "map snd ?ps" ?h] by (simp add: j1_def tall_Cons)
  have fit: "\<forall>p \<in> set ?ps. fits ?h r (snd p)" using s1(6) v by auto
  have ok: "obj_ok ?kf ps ks" using o by (simp add: obj_def)
  then have keys: "keys_ok ?kf ?ps" using n by (simp add: keys_ok_append obj_ok_def)
  have kf4: "key_str (items s4) = ?kf" using state_key_str [OF s4(2)] o by (auto simp: obj_def holds_def)
  have run: "object_add r n v acc s = seqS (whenS (ks = None \<and> length ps + 1 > KEY_INDEX_THRESHOLD) (buildKeyIndex r)) (returnS True) s4"
    using s1 s2(1) s3(1) s4(1) n(2) by (simp add: object_add_def bindS_def seqS_def ks1_def)
  show ?thesis
  proof (cases "ks = None \<and> length ps + 1 > KEY_INDEX_THRESHOLD")
    case True
    obtain s5 where s5: "buildKeyIndex r s4 = (Inr (), s5)" "state_at ?h r (j1\<lparr>content_of := Pairs ?ps ks1\<rparr>\<lparr>content_of := Pairs ?ps (Some (key_pos ?kf ?ps))\<rparr>) s5" "arena s5 = arena s4"
      using buildKeyIndex_run [OF s4(2), of ?ps ks1] keys kf4 by auto
    have "object_add r n v acc s = (Inr True, s5)" using run True s5(1) by (simp add: seqS_def bindS_def)
    moreover have "obj_ok ?kf ?ps (Some (key_pos ?kf ?ps))" using True keys by (simp add: obj_ok_def)
    ultimately show ?thesis using object_end [OF o s5(2) _ _ fit _ _ keeps_object_add] H s5(3) s4(3) s3(3) s2(3) s1(7) by (simp; blast)
  next
    case False
    then have r: "object_add r n v acc s = (Inr True, s4)" using run by (auto simp: seqS_def bindS_def)
    have "obj_ok ?kf ?ps ks1"
    proof (cases ks)
      case None
      then show ?thesis using False keys by (auto simp: obj_ok_def ks1_def)
    next
      case (Some m)
      then have m: "m = key_pos ?kf ps" "KEY_INDEX_THRESHOLD < length ps" using ok by (simp_all add: obj_ok_def)
      have "index_insert k (length ps) m = key_pos ?kf ?ps"
      proof (rule key_pos_eqI [OF keys])
        show "index_insert k (length ps) m k' = Some i \<longleftrightarrow> i < length ?ps \<and> ?kf (fst (?ps ! i)) = Some k'" for k' i
          using key_pos_iff [of ?kf ps k' i] ok n m(1) by (auto simp: index_insert_def obj_ok_def nth_append less_Suc_eq domIff)
      qed
      then show ?thesis using Some m keys by (simp add: obj_ok_def ks1_def)
    qed
    from object_end [OF o s4(2) _ _ fit this r keeps_object_add] r H s4(3) s3(3) s2(3) s1(7) show ?thesis by (simp; blast)
  qed
qed

definition too_deep :: "(addr \<rightharpoonup> item) \<Rightarrow> addr \<Rightarrow> bool" where
  "too_deep h v \<longleftrightarrow> is_json h v \<and> MAX_DEPTH \<le> hgt h v"

lemma step_too_deep: "state_at h r j s \<Longrightarrow> too_deep h v \<Longrightarrow> v \<noteq> r \<Longrightarrow> addHeightOf r v s = (Inl Nesting_exceeded, s)"
  unfolding state_at_def by (elim conjE, erule others_same_cases [of r h "items s" v])
    (auto simp: too_deep_def is_json_def hgt_def addHeightOf_fails)

text \<open>Operations that find nothing to do, or refuse to.\<close>

lemma object_unchanged:
  assumes o: "obj s r ps ks" and n: "key_str (items s) n = Some k"
  shows "key_pos (key_str (items s)) ps k \<noteq> None \<Longrightarrow> \<exists>s'. object_add r n v False s = (Inr False, s') \<and> obj s' r ps ks \<and> others_same r (items s) (items s') \<and> arena s' = arena s"
    "key_pos (key_str (items s)) ps k = None \<Longrightarrow> too_deep (items s) v \<Longrightarrow> v \<noteq> r \<Longrightarrow>
      \<exists>s'. object_add r n v acc s = (Inl Nesting_exceeded, s') \<and> obj s' r ps ks \<and> others_same r (items s) (items s') \<and> arena s' = arena s"
    "key_pos (key_str (items s)) ps k = None \<Longrightarrow> \<exists>s'. object_remove r n s = (Inr None, s') \<and> obj s' r ps ks \<and> others_same r (items s) (items s') \<and> arena s' = arena s"
    "key_pos (key_str (items s)) ps k = None \<Longrightarrow> \<exists>s'. object_setValue r n v s = (Inr None, s') \<and> obj s' r ps ks \<and> others_same r (items s) (items s') \<and> arena s' = arena s"
    "key_pos (key_str (items s)) ps k \<noteq> None \<Longrightarrow> too_deep (items s) v \<Longrightarrow> v \<noteq> r \<Longrightarrow>
      \<exists>s'. object_setValue r n v s = (Inl Nesting_exceeded, s') \<and> obj s' r ps ks \<and> others_same r (items s) (items s') \<and> arena s' = arena s"
    "getObjectValue r n s = (Inr (map_option (\<lambda>i. snd (ps ! i)) (key_pos (key_str (items s)) ps k)), s)"
proof -
  let ?h = "items s" let ?kf = "key_str ?h"
  from o n obtain j s1 where s1: "contentWillChange r s = (Inr (), s1)" "state_at ?h r j s1" "content_of j = Pairs ps ks" "theHeight j = tall ?h (map snd ps)"
    "1 \<le> theHeight j" "\<forall>p \<in> set ps. fits ?h r (snd p)" "arena s1 = arena s" "keyString n s1 = (Inr k, s1)" "pairs_at r s1 = (Inr (ps, ks), s1)"
    "findKey r n k s1 = (Inr (case key_pos ?kf ps k of None \<Rightarrow> length ps | Some l \<Rightarrow> l), s1)" by (rule object_begin)
  have ok: "obj_ok ?kf ps ks" using o by (simp add: obj_def)
  have "obj s1 r ps ks \<and> others_same r ?h (items s1)"
    by (rule object_end [OF o s1(2-4,6) ok s1(1) keeps_sub_insert [OF keeps_willChange]])
  then have s': "obj s1 r ps ks" "others_same r ?h (items s1)" "arena s1 = arena s" using s1(7) by simp_all
  have lt: "l < length ps" if "key_pos ?kf ps k = Some l" for l using key_pos_SomeD [OF that] by simp
  show "key_pos ?kf ps k \<noteq> None \<Longrightarrow> \<exists>s'. object_add r n v False s = (Inr False, s') \<and> obj s' r ps ks \<and> others_same r ?h (items s') \<and> arena s' = arena s"
    using s1 s' lt by (fastforce simp: object_add_def bindS_def seqS_def)
  show "key_pos ?kf ps k = None \<Longrightarrow> too_deep ?h v \<Longrightarrow> v \<noteq> r \<Longrightarrow>
      \<exists>s'. object_add r n v acc s = (Inl Nesting_exceeded, s') \<and> obj s' r ps ks \<and> others_same r ?h (items s') \<and> arena s' = arena s"
    using s1 s' step_too_deep [OF s1(2)] by (simp add: object_add_def bindS_def seqS_def)
  show "key_pos ?kf ps k = None \<Longrightarrow> \<exists>s'. object_remove r n s = (Inr None, s') \<and> obj s' r ps ks \<and> others_same r ?h (items s') \<and> arena s' = arena s"
    using s1 s' by (simp add: object_remove_def bindS_def seqS_def)
  show "key_pos ?kf ps k = None \<Longrightarrow> \<exists>s'. object_setValue r n v s = (Inr None, s') \<and> obj s' r ps ks \<and> others_same r ?h (items s') \<and> arena s' = arena s"
    using s1 s' by (simp add: object_setValue_def bindS_def seqS_def)
  show "key_pos ?kf ps k \<noteq> None \<Longrightarrow> too_deep ?h v \<Longrightarrow> v \<noteq> r \<Longrightarrow>
      \<exists>s'. object_setValue r n v s = (Inl Nesting_exceeded, s') \<and> obj s' r ps ks \<and> others_same r ?h (items s') \<and> arena s' = arena s"
    using s1 s' lt step_too_deep [OF s1(2)] by (fastforce simp: object_setValue_def bindS_def seqS_def Let_def)
  obtain j0 where j0: "state_at ?h r j0 s" "content_of j0 = Pairs ps ks" using obj_state [OF o] by metis
  show "getObjectValue r n s = (Inr (map_option (\<lambda>i. snd (ps ! i)) (key_pos ?kf ps k)), s)"
    using keyString_run [OF n] state_pairs [OF j0] findKey_run [OF j0 ok n] lt
    by (cases "key_pos ?kf ps k") (fastforce simp: getObjectValue_def bindS_def)+
qed

lemma keys_ok_remove: "keys_ok kf ps \<Longrightarrow> keys_ok kf (take l ps @ drop (Suc l) ps)"
  unfolding keys_ok_def
proof (intro conjI)
  assume a: "(\<forall>p \<in> set ps. kf (fst p) \<noteq> None) \<and> distinct (map (kf \<circ> fst) ps)"
  then show "\<forall>p \<in> set (take l ps @ drop (Suc l) ps). kf (fst p) \<noteq> None" by (auto dest: in_set_takeD in_set_dropD)
  have "distinct (map (kf \<circ> fst) (take l ps) @ map (kf \<circ> fst) (drop l ps))" using a by (simp flip: map_append)
  then show "distinct (map (kf \<circ> fst) (take l ps @ drop (Suc l) ps))"
    by (cases "l < length ps") (auto simp: Cons_nth_drop_Suc [symmetric])
qed

lemma key_pos_remove:
  assumes k: "keys_ok kf ps" and l: "l < length ps" "kf (fst (ps ! l)) = Some k"
  shows "key_pos kf (take l ps @ drop (Suc l) ps) = drop_index l ((key_pos kf ps)(k := None))"
proof (rule key_pos_eqI [OF keys_ok_remove [OF k], symmetric])
  fix k' i
  have nth: "i < length (take l ps @ drop (Suc l) ps) \<Longrightarrow> (take l ps @ drop (Suc l) ps) ! i = ps ! (if i < l then i else Suc i)"
    using l by (simp add: nth_append)
  have "drop_index l ((key_pos kf ps)(k := None)) k' = Some i \<longleftrightarrow> k' \<noteq> k \<and> (\<exists>m. key_pos kf ps k' = Some m \<and> i = (if m > l then m - 1 else m))"
    by (simp add: drop_index_def eq_commute [of i])
  also have "\<dots> \<longleftrightarrow> k' \<noteq> k \<and> (\<exists>m. (m < length ps \<and> kf (fst (ps ! m)) = Some k') \<and> i = (if m > l then m - 1 else m))"
    by (simp add: key_pos_iff [OF k])
  also have "\<dots> \<longleftrightarrow> (\<exists>m. m \<noteq> l \<and> m < length ps \<and> kf (fst (ps ! m)) = Some k' \<and> i = (if m > l then m - 1 else m))"
    using l key_pos_nth [OF k] by (metis option.inject)
  also have "\<dots> \<longleftrightarrow> i < length (take l ps @ drop (Suc l) ps) \<and> kf (fst ((take l ps @ drop (Suc l) ps) ! i)) = Some k'" (is "?a \<longleftrightarrow> ?b")
  proof
    assume ?a
    then show ?b using nth l by (auto split: if_splits)
  next
    assume ?b
    then show ?a using nth l by (intro exI [of _ "if i < l then i else Suc i"]) auto
  qed
  finally show "drop_index l ((key_pos kf ps)(k := None)) k' = Some i \<longleftrightarrow> i < length (take l ps @ drop (Suc l) ps) \<and> kf (fst ((take l ps @ drop (Suc l) ps) ! i)) = Some k'" .
qed

lemma set_remove: "l < length ps \<Longrightarrow> set ps = insert (ps ! l) (set (take l ps @ drop (Suc l) ps))"
  using id_take_nth_drop [of l ps] by (metis insert_is_Un list.simps(15) set_append Un_insert_right append_Cons)

lemma set_replace: "l < length ps \<Longrightarrow> insert (ps ! l) (set (ps[l := p])) = insert p (set ps)"
proof -
  assume l: "l < length ps"
  have "set (ps[l := p]) = insert p (set (take l ps @ drop (Suc l) ps))" using l by (simp add: upd_conv_take_nth_drop)
  then show ?thesis using set_remove [OF l] by auto
qed

lemma object_remove_found:
  assumes o: "obj s r ps ks" and n: "key_str (items s) n = Some k" "key_pos (key_str (items s)) ps k = Some l"
  shows "\<exists>s' ks'. object_remove r n s = (Inr (Some (snd (ps ! l))), s') \<and> obj s' r (take l ps @ drop (Suc l) ps) ks' \<and> others_same r (items s) (items s') \<and> arena s' = arena s"
proof -
  let ?h = "items s" let ?kf = "key_str ?h" let ?v = "snd (ps ! l)" let ?ps = "take l ps @ drop (Suc l) ps"
  from o n(1) obtain j s1 where s1: "contentWillChange r s = (Inr (), s1)" "state_at ?h r j s1" "content_of j = Pairs ps ks" "theHeight j = tall ?h (map snd ps)"
    "1 \<le> theHeight j" "\<forall>p \<in> set ps. fits ?h r (snd p)" "arena s1 = arena s" "keyString n s1 = (Inr k, s1)" "pairs_at r s1 = (Inr (ps, ks), s1)"
    "findKey r n k s1 = (Inr (case key_pos ?kf ps k of None \<Rightarrow> length ps | Some l \<Rightarrow> l), s1)" by (rule object_begin)
  have l: "l < length ps" "?kf (fst (ps ! l)) = Some k" using key_pos_SomeD [OF n(2)] by simp_all
  have v: "fits ?h r ?v" using s1(6) l by simp
  have ok: "obj_ok ?kf ps ks" using o by (simp add: obj_def)
  then have keys: "keys_ok ?kf ps" by (simp add: obj_ok_def)
  obtain s2 where s2: "pass_info r ?v False s1 = (Inr (), s2)" "state_at ?h r j s2" "arena s2 = arena s1" using step_info [OF s1(2) v] by blast
  define ks1 where "ks1 = (case ks of None \<Rightarrow> None | Some m \<Rightarrow> if length ?ps \<le> KEY_INDEX_THRESHOLD then None else Some (m(k := None)))"
  define ks2 where "ks2 = (if l < length ?ps then map_option (drop_index l) ks1 else ks1)"
  define j2 where "j2 = j\<lparr>content_of := Pairs ?ps ks2\<rparr>"
  obtain s3 where s3: "set_pairs r ?ps ks2 s2 = (Inr (), s3)" "state_at ?h r j2 s3" "arena s3 = arena s2"
    using step_modify [OF s2(2), of "\<lambda>j. j\<lparr>content_of := Pairs ?ps ks2\<rparr>"] unfolding set_pairs_def j2_def by blast
  have fit: "\<forall>p \<in> set ?ps. fits ?h r (snd p)" using s1(6) set_remove [OF l(1)] by auto
  have "tall ?h (map snd ps) = tall ?h (?v # map snd ?ps)" by (rule tall_set) (use set_remove [OF l(1)] in auto)
  then have H: "theHeight j2 = tall ?h (?v # member_values (content_of j2))" using s1(4) by (simp add: j2_def)
  have "\<forall>v \<in> set (member_values (content_of j2)). fits ?h r v" using fit by (auto simp: j2_def)
  note deepest = step_deepest [OF s3(2) v this H, of "Some ?v"]
  obtain s4 j4 where s4: "bindS (isDeepest r ?v) (\<lambda>d. seqS (whenS d (recomputeHeight r)) (returnS (Some ?v))) s3 = (Inr (Some ?v), s4)"
    "state_at ?h r j4 s4" "content_of j4 = content_of j2" "theHeight j4 = tall ?h (member_values (content_of j2))" "arena s4 = arena s3"
    using deepest by (elim exE conjE)
  have run: "object_remove r n s = (Inr (Some ?v), s4)"
    using l n(2) s1(1,8,9,10) s2(1) s3(1) s4(1) by (simp add: object_remove_def bindS_def seqS_def ks2_def ks1_def Let_def cong: if_cong)
  have "obj_ok ?kf ?ps ks2"
  proof (cases "ks1")
    case None
    then have "length ?ps \<le> KEY_INDEX_THRESHOLD" using ok l(1) by (auto simp: ks1_def obj_ok_def split: option.splits if_splits)
    then show ?thesis using None keys_ok_remove [OF keys] l(1) by (auto simp: obj_ok_def ks2_def)
  next
    case (Some m)
    then have m: "m = (key_pos ?kf ps)(k := None)" "KEY_INDEX_THRESHOLD < length ?ps" using ok by (auto simp: ks1_def obj_ok_def split: option.splits if_splits)
    have d: "drop_index l m = key_pos ?kf ?ps" using key_pos_remove [OF keys l] m(1) by simp
    moreover have "drop_index l m = m" if "\<not> l < length ?ps"
    proof
      fix k' show "drop_index l m k' = m k'" using that l m(1) key_pos_SomeD [of ?kf ps k'] by (cases "key_pos ?kf ps k'") (auto simp: drop_index_def)
    qed
    ultimately show ?thesis using Some m(2) keys_ok_remove [OF keys] by (auto simp: obj_ok_def ks2_def)
  qed
  from object_end [OF o s4(2) _ _ fit this run keeps_objects(1)] s4(3,4) have "obj s4 r ?ps ks2 \<and> others_same r ?h (items s4)" by (simp add: j2_def)
  then show ?thesis using run s4(5) s3(3) s2(3) s1(7) by auto
qed

lemma keys_by_fst:
  assumes "map fst qs = map fst ps" shows "keys_ok kf qs = keys_ok kf ps" "key_pos kf qs = key_pos kf ps"
proof -
  have "keys_ok kf ps \<longleftrightarrow> (\<forall>a \<in> set (map fst ps). kf a \<noteq> None) \<and> distinct (map kf (map fst ps))" for ps :: "(addr \<times> addr) list"
    by (simp add: keys_ok_def)
  then show "keys_ok kf qs = keys_ok kf ps" using assms by metis
  show "key_pos kf qs = key_pos kf ps"
  proof
    fix k show "key_pos kf qs k = key_pos kf ps k" using assms
    proof (induction qs arbitrary: ps)
      case (Cons q qs)
      then obtain p ps' where p: "ps = p # ps'" "fst p = fst q" "map fst qs = map fst ps'" by (cases ps) auto
      show ?case unfolding p(1) using Cons.IH [OF p(3)] p(2) by simp
    qed simp
  qed
qed

lemma object_setValue_found:
  assumes o: "obj s r ps ks" and n: "key_str (items s) n = Some k" "key_pos (key_str (items s)) ps k = Some l" and v: "fits (items s) r v"
  shows "\<exists>s'. object_setValue r n v s = (Inr (Some (snd (ps ! l))), s') \<and> obj s' r (ps[l := (fst (ps ! l), v)]) ks \<and> others_same r (items s) (items s') \<and> arena s' = arena s"
proof -
  let ?h = "items s" let ?kf = "key_str ?h" let ?x = "snd (ps ! l)" let ?ps = "ps[l := (fst (ps ! l), v)]"
  from o n(1) obtain j s1 where s1: "contentWillChange r s = (Inr (), s1)" "state_at ?h r j s1" "content_of j = Pairs ps ks" "theHeight j = tall ?h (map snd ps)"
    "1 \<le> theHeight j" "\<forall>p \<in> set ps. fits ?h r (snd p)" "arena s1 = arena s" "keyString n s1 = (Inr k, s1)" "pairs_at r s1 = (Inr (ps, ks), s1)"
    "findKey r n k s1 = (Inr (case key_pos ?kf ps k of None \<Rightarrow> length ps | Some l \<Rightarrow> l), s1)" by (rule object_begin)
  have l: "l < length ps" "?kf (fst (ps ! l)) = Some k" using key_pos_SomeD [OF n(2)] by simp_all
  have x: "fits ?h r ?x" using s1(6) l by simp
  have ok: "obj_ok ?kf ps ks" using o by (simp add: obj_def)
  define j1 where "j1 = j\<lparr>theHeight := max (Suc (hgt ?h v)) (theHeight j)\<rparr>"
  obtain s2 where s2: "addHeightOf r v s1 = (Inr (), s2)" "state_at ?h r j1 s2" "arena s2 = arena s1" using step_height [OF s1(2) v s1(5)] unfolding j1_def by blast
  obtain s3 where s3: "pass_info r ?x False s2 = (Inr (), s3)" "state_at ?h r j1 s3" "arena s3 = arena s2" using step_info [OF s2(2) x] by blast
  obtain s4 where s4: "pass_info r v True s3 = (Inr (), s4)" "state_at ?h r j1 s4" "arena s4 = arena s3" using step_info [OF s3(2) v] by blast
  define j2 where "j2 = j1\<lparr>content_of := Pairs ?ps ks\<rparr>"
  obtain s5 where s5: "set_pairs r ?ps ks s4 = (Inr (), s5)" "state_at ?h r j2 s5" "arena s5 = arena s4"
    using step_modify [OF s4(2), of "\<lambda>j. j\<lparr>content_of := Pairs ?ps ks\<rparr>"] unfolding set_pairs_def j2_def by blast
  have sub: "set ?ps \<subseteq> insert (fst (ps ! l), v) (set ps)" by (rule set_update_subset_insert)
  then have fit: "\<forall>p \<in> set ?ps. fits ?h r (snd p)" using s1(6) v by auto
  have "snd ` insert (ps ! l) (set ?ps) = snd ` insert (fst (ps ! l), v) (set ps)" using set_replace [OF l(1)] by metis
  then have "set (v # map snd ps) = set (?x # map snd ?ps)" by simp
  from tall_set [OF this] have H: "theHeight j2 = tall ?h (?x # member_values (content_of j2))" using s1(4) by (simp add: j2_def j1_def tall_Cons)
  have "\<forall>v \<in> set (member_values (content_of j2)). fits ?h r v" using fit by (auto simp: j2_def)
  note deepest = step_deepest [OF s5(2) x this H, of "Some ?x"]
  obtain s6 j6 where s6: "bindS (isDeepest r ?x) (\<lambda>d. seqS (whenS d (recomputeHeight r)) (returnS (Some ?x))) s5 = (Inr (Some ?x), s6)"
    "state_at ?h r j6 s6" "content_of j6 = content_of j2" "theHeight j6 = tall ?h (member_values (content_of j2))" "arena s6 = arena s5"
    using deepest by (elim exE conjE)
  have run: "object_setValue r n v s = (Inr (Some ?x), s6)"
    using l n(2) s1(1,8,9,10) s2(1) s3(1) s4(1) s5(1) s6(1) by (simp add: object_setValue_def bindS_def seqS_def Let_def)
  have fst: "map fst ?ps = map fst ps" by (simp add: map_update list_update_same_conv l)
  have "obj_ok ?kf ?ps ks" using ok keys_by_fst [OF fst, of ?kf] by (simp add: obj_ok_def split: option.splits)
  from object_end [OF o s6(2) _ _ fit this run keeps_objects(2)] s6(3,4) have "obj s6 r ?ps ks \<and> others_same r ?h (items s6)" by (simp add: j2_def)
  then show ?thesis using run s6(5) s5(3) s4(3) s3(3) s2(3) s1(7) by auto
qed

text \<open>Renaming the key at a position: the keys stay distinct and the index exact.\<close>

lemma keys_ok_rename:
  assumes keys: "keys_ok kf ps" and n: "kf n' = Some k'" "key_pos kf ps k' = None" and l: "l < length ps"
  shows "keys_ok kf (ps[l := (n', v)])"
  unfolding keys_ok_def
proof (intro conjI ballI)
  fix p assume "p \<in> set (ps[l := (n', v)])"
  then have "p = (n', v) \<or> p \<in> set ps" using set_update_subset_insert by fast
  then show "kf (fst p) \<noteq> None" using keys n(1) by (auto simp: keys_ok_def)
next
  have "Some k' \<notin> set (map (kf \<circ> fst) ps)" using n(2) by (auto simp: key_pos_None)
  then show "distinct (map (kf \<circ> fst) (ps[l := (n', v)]))" using keys n(1) l by (simp add: map_update keys_ok_def distinct_list_update)
qed

lemma obj_ok_rename:
  assumes ok: "obj_ok kf ps ks" and n: "kf n' = Some k'" "key_pos kf ps k' = None" and k: "key_pos kf ps k = Some l"
  shows "obj_ok kf (ps[l := (n', v)]) (map_option (\<lambda>m. index_insert k' l (m(k := None))) ks)"
proof -
  let ?ps = "ps[l := (n', v)]"
  have keys: "keys_ok kf ps" using ok by (simp add: obj_ok_def)
  have l: "l < length ps" using key_pos_SomeD [OF k] by simp
  note keys' = keys_ok_rename [OF keys n l, of v]
  show ?thesis
  proof (cases ks)
    case None
    then show ?thesis using ok keys' by (simp add: obj_ok_def)
  next
    case (Some m)
    have m: "m = key_pos kf ps" "KEY_INDEX_THRESHOLD < length ps" using ok Some by (simp_all add: obj_ok_def)
    have "k' \<noteq> k" using n(2) k by auto
    have "index_insert k' l (m(k := None)) = key_pos kf ?ps"
    proof (rule key_pos_eqI [OF keys'])
      fix q i
      have "index_insert k' l (m(k := None)) q = (if q = k' then Some l else if q = k then None else key_pos kf ps q)"
        using n(2) \<open>k' \<noteq> k\<close> by (auto simp: index_insert_def m(1))
      moreover have "i < length ps \<Longrightarrow> kf (fst (ps ! i)) \<noteq> Some k'" using key_pos_nth [OF keys, of i k'] n(2) by auto
      moreover have "i < length ps \<Longrightarrow> kf (fst (ps ! i)) = Some k \<longleftrightarrow> i = l" using key_pos_nth [OF keys, of i k] key_pos_SomeD [OF k] k by auto
      ultimately show "index_insert k' l (m(k := None)) q = Some i \<longleftrightarrow> i < length ?ps \<and> kf (fst (?ps ! i)) = Some q"
        using key_pos_iff [OF keys, of q i] l n(1) by (cases "i = l"; cases "q = k'"; cases "q = k") simp_all
    qed
    then show ?thesis using Some m keys' by (simp add: obj_ok_def)
  qed
qed

lemma object_rename_found:
  assumes o: "obj s r ps ks" and n: "key_str (items s) n = Some k" "key_str (items s) n' = Some k'"
  shows "case key_pos (key_str (items s)) ps k of
      Some l \<Rightarrow> if key_pos (key_str (items s)) ps k' = None
        then \<exists>s' ks'. object_rename r n n' s = (Inr True, s') \<and> obj s' r (ps[l := (n', snd (ps ! l))]) ks' \<and> others_same r (items s) (items s') \<and> arena s' = arena s
        else \<exists>s'. object_rename r n n' s = (Inr False, s') \<and> obj s' r ps ks \<and> others_same r (items s) (items s') \<and> arena s' = arena s
    | None \<Rightarrow> \<exists>s'. object_rename r n n' s = (Inr False, s') \<and> obj s' r ps ks \<and> others_same r (items s) (items s') \<and> arena s' = arena s"
proof -
  let ?h = "items s" let ?kf = "key_str ?h"
  from o n(1) obtain j s1 where s1: "contentWillChange r s = (Inr (), s1)" "state_at ?h r j s1" "content_of j = Pairs ps ks" "theHeight j = tall ?h (map snd ps)"
    "1 \<le> theHeight j" "\<forall>p \<in> set ps. fits ?h r (snd p)" "arena s1 = arena s" "keyString n s1 = (Inr k, s1)" "pairs_at r s1 = (Inr (ps, ks), s1)"
    "findKey r n k s1 = (Inr (case key_pos ?kf ps k of None \<Rightarrow> length ps | Some l \<Rightarrow> l), s1)" by (rule object_begin)
  have ok: "obj_ok ?kf ps ks" using o by (simp add: obj_def)
  then have keys: "keys_ok ?kf ps" by (simp add: obj_ok_def)
  have kf: "key_str (items s1) = ?kf" using state_key_str [OF s1(2)] o by (auto simp: obj_def holds_def)
  have s1n: "keyString n' s1 = (Inr k', s1)" "findKey r n' k' s1 = (Inr (case key_pos ?kf ps k' of None \<Rightarrow> length ps | Some l \<Rightarrow> l), s1)"
    using keyString_run [of s1 n' k'] findKey_run [OF s1(2,3), of n' k'] n(2) kf ok by simp_all
  have "obj s1 r ps ks \<and> others_same r ?h (items s1)"
    by (rule object_end [OF o s1(2-4,6) ok s1(1) keeps_sub_insert [OF keeps_willChange]])
  then have same: "\<exists>s'. object_rename r n n' s = (Inr False, s') \<and> obj s' r ps ks \<and> others_same r (items s) (items s') \<and> arena s' = arena s"
    if "object_rename r n n' s = (Inr False, s1)" using that s1(7) by auto
  have lt: "l < length ps" if "key_pos ?kf ps q = Some l" for l q using key_pos_SomeD [OF that] by simp
  show ?thesis
  proof (cases "key_pos ?kf ps k'")
    case (Some l')
    then have "object_rename r n n' s = (Inr False, s1)" using s1(1,8,9) s1n lt [OF Some] by (simp add: object_rename_def bindS_def seqS_def)
    from same [OF this] Some show ?thesis by (simp split: option.split)
  next
    case new: None
    show ?thesis
    proof (cases "key_pos ?kf ps k")
      case None
      then have "object_rename r n n' s = (Inr False, s1)" using s1(1,8,9,10) s1n new by (simp add: object_rename_def bindS_def seqS_def)
      from same [OF this] None show ?thesis by simp
    next
      case (Some l)
      have l: "l < length ps" "?kf (fst (ps ! l)) = Some k" using key_pos_SomeD [OF Some] by simp_all
      let ?ps = "ps[l := (n', snd (ps ! l))]"
      define ks1 where "ks1 = map_option (\<lambda>m. index_insert k' l (m(k := None))) ks"
      obtain s2 where s2: "set_pairs r ?ps ks1 s1 = (Inr (), s2)" "state_at ?h r (j\<lparr>content_of := Pairs ?ps ks1\<rparr>) s2" "arena s2 = arena s1"
        using step_modify [OF s1(2), of "\<lambda>j. j\<lparr>content_of := Pairs ?ps ks1\<rparr>"] unfolding set_pairs_def by blast
      have run: "object_rename r n n' s = (Inr True, s2)"
        using s1(1,8,9,10) s1n new Some l s2(1) by (simp add: object_rename_def bindS_def seqS_def ks1_def)
      have snd: "map snd ?ps = map snd ps" using l by (simp add: map_update list_update_same_conv)
      have "\<forall>v \<in> set (map snd ?ps). fits ?h r v" unfolding snd using s1(6) by simp
      then have fit: "\<forall>p \<in> set ?ps. fits ?h r (snd p)" by (simp del: set_update_memI)
      have "obj_ok ?kf ?ps ks1" unfolding ks1_def by (rule obj_ok_rename [OF ok n(2) new Some])
      from object_end [OF o s2(2) _ _ fit this run keeps_objects(3)] s1(4) have "obj s2 r ?ps ks1 \<and> others_same r ?h (items s2)" unfolding snd by simp
      then show ?thesis using run s2(3) s1(7) new Some by auto
    qed
  qed
qed

section \<open>Objects as ordered maps\<close>

definition view :: "(addr \<Rightarrow> byte list option) \<Rightarrow> (addr \<times> addr) list \<Rightarrow> (byte list \<times> addr) list" where
  "view kf ps = map (\<lambda>p. (the (kf (fst p)), snd p)) ps"

lemma view_nth: "i < length ps \<Longrightarrow> view kf ps ! i = (the (kf (fst (ps ! i))), snd (ps ! i))" "length (view kf ps) = length ps"
  by (simp_all add: view_def)

lemma view_Cons [simp]: "view kf (p # ps) = (the (kf (fst p)), snd p) # view kf ps" "view kf [] = []"
  by (simp_all add: view_def)

lemma keys_ok_Cons: "keys_ok kf (p # ps) \<longleftrightarrow> (\<exists>k. kf (fst p) = Some k \<and> key_pos kf ps k = None) \<and> keys_ok kf ps"
  unfolding keys_ok_def key_pos_None by (auto simp: image_iff) (metis fst_conv)

lemma view_keys: "keys_ok kf ps \<Longrightarrow> k \<in> fst ` set (view kf ps) \<longleftrightarrow> key_pos kf ps k \<noteq> None"
  by (induction ps) (auto simp: keys_ok_Cons)

lemma view_map_of: "keys_ok kf ps \<Longrightarrow> map_of (view kf ps) k = map_option (\<lambda>i. snd (ps ! i)) (key_pos kf ps k)"
proof (induction ps)
  case (Cons p ps)
  then show ?case by (auto simp: keys_ok_Cons option.map_comp comp_def)
qed simp

lemma view_distinct: "keys_ok kf ps \<Longrightarrow> distinct (map fst (view kf ps))"
proof (induction ps)
  case (Cons p ps)
  then obtain k where "kf (fst p) = Some k" "key_pos kf ps k = None" "keys_ok kf ps" by (auto simp: keys_ok_Cons)
  then show ?case using Cons.IH view_keys [of kf ps k] by simp
qed simp

lemma view_filter_other: "keys_ok kf ps \<Longrightarrow> key_pos kf ps k = None \<Longrightarrow> filter (\<lambda>q. fst q \<noteq> k) (view kf ps) = view kf ps"
  using view_keys [of kf ps k] by (intro filter_True) force

lemma view_remove:
  "keys_ok kf ps \<Longrightarrow> key_pos kf ps k = Some l \<Longrightarrow> view kf (take l ps @ drop (Suc l) ps) = filter (\<lambda>q. fst q \<noteq> k) (view kf ps)"
proof (induction ps arbitrary: l)
  case (Cons p ps)
  then obtain k' where k': "kf (fst p) = Some k'" "key_pos kf ps k' = None" "keys_ok kf ps" by (auto simp: keys_ok_Cons)
  show ?case
  proof (cases "k' = k")
    case True
    then show ?thesis using Cons.prems k' view_filter_other [OF k'(3)] by simp
  next
    case False
    then obtain m where "l = Suc m" "key_pos kf ps k = Some m" using Cons.prems(2) k' by auto
    then show ?thesis using Cons.IH [OF k'(3)] k' False by simp
  qed
qed simp

lemma view_update:
  "keys_ok kf ps \<Longrightarrow> key_pos kf ps k = Some l \<Longrightarrow> view kf (ps[l := (n, x)]) = map (\<lambda>q. if fst q = k then (the (kf n), x) else q) (view kf ps)"
proof (induction ps arbitrary: l)
  case (Cons p ps)
  then obtain k' where k': "kf (fst p) = Some k'" "key_pos kf ps k' = None" "keys_ok kf ps" by (auto simp: keys_ok_Cons)
  show ?case
  proof (cases "k' = k")
    case True
    have "fst q \<noteq> k" if "q \<in> set (view kf ps)" for q using view_keys [OF k'(3), of k] k'(2) True that by force
    then have "map (\<lambda>q. if fst q = k then (the (kf n), x) else q) (view kf ps) = view kf ps" by (intro map_idI) auto
    then show ?thesis using Cons.prems k' True by simp
  next
    case False
    then obtain m where "l = Suc m" "key_pos kf ps k = Some m" using Cons.prems(2) k' by auto
    then show ?thesis using Cons.IH [OF k'(3)] k' False by simp
  qed
qed simp

text \<open>The machine on ordered maps; \<open>deep v\<close> are the values at the limit.\<close>

datatype obj_cmd = O_add addr addr | O_remove addr | O_set addr addr | O_rename addr addr | O_get addr | O_size

datatype obj_res = Done bool | Found "addr option" | Count int

fun exec_obj :: "addr \<Rightarrow> obj_cmd \<Rightarrow> obj_res store_op" where
  "exec_obj r (O_add n v) = bindS (object_add r n v False) (\<lambda>b. returnS (Done b))"
| "exec_obj r (O_remove n) = bindS (object_remove r n) (\<lambda>x. returnS (Found x))"
| "exec_obj r (O_set n v) = bindS (object_setValue r n v) (\<lambda>x. returnS (Found x))"
| "exec_obj r (O_rename n n') = bindS (object_rename r n n') (\<lambda>b. returnS (Done b))"
| "exec_obj r (O_get n) = bindS (getObjectValue r n) (\<lambda>x. returnS (Found x))"
| "exec_obj r O_size = bindS (getNumObjectPairs r) (\<lambda>i. returnS (Count i))"

fun spec_obj :: "(addr \<Rightarrow> byte list) \<Rightarrow> (addr \<Rightarrow> bool) \<Rightarrow> obj_cmd \<Rightarrow> (byte list \<times> addr) list \<Rightarrow> (store_err + obj_res) \<times> (byte list \<times> addr) list" where
  "spec_obj kf deep (O_add n v) L = (if map_of L (kf n) \<noteq> None then (Inr (Done False), L)
    else if deep v then (Inl Nesting_exceeded, L) else (Inr (Done True), L @ [(kf n, v)]))"
| "spec_obj kf deep (O_remove n) L = (Inr (Found (map_of L (kf n))), filter (\<lambda>q. fst q \<noteq> kf n) L)"
| "spec_obj kf deep (O_set n v) L = (if map_of L (kf n) = None then (Inr (Found None), L)
    else if deep v then (Inl Nesting_exceeded, L) else (Inr (Found (map_of L (kf n))), map (\<lambda>q. if fst q = kf n then (kf n, v) else q) L))"
| "spec_obj kf deep (O_rename n n') L = (if map_of L (kf n') \<noteq> None \<or> map_of L (kf n) = None then (Inr (Done False), L)
    else (Inr (Done True), map (\<lambda>q. if fst q = kf n then (kf n', snd q) else q) L))"
| "spec_obj kf deep (O_get n) L = (Inr (Found (map_of L (kf n))), L)"
| "spec_obj kf deep O_size L = (Inr (Count (int (length L))), L)"

fun obj_cmd_ok :: "(addr \<rightharpoonup> item) \<Rightarrow> addr \<Rightarrow> obj_cmd \<Rightarrow> bool" where
  "obj_cmd_ok h r (O_add n v) \<longleftrightarrow> key_str h n \<noteq> None \<and> apart h r v"
| "obj_cmd_ok h r (O_remove n) \<longleftrightarrow> key_str h n \<noteq> None"
| "obj_cmd_ok h r (O_set n v) \<longleftrightarrow> key_str h n \<noteq> None \<and> apart h r v"
| "obj_cmd_ok h r (O_rename n n') \<longleftrightarrow> key_str h n \<noteq> None \<and> key_str h n' \<noteq> None"
| "obj_cmd_ok h r (O_get n) \<longleftrightarrow> key_str h n \<noteq> None"
| "obj_cmd_ok h r O_size \<longleftrightarrow> True"

lemma apart_fits: "apart h r v \<Longrightarrow> fits h r v \<or> too_deep h v \<and> v \<noteq> r"
  by (auto simp: fits_def too_deep_def is_json_def hgt_def MAX_DEPTH_def elim: apart.cases split: option.splits item.splits)

lemma fits_not_deep: "fits h r v \<Longrightarrow> \<not> too_deep h v"
  by (auto simp: fits_def too_deep_def)

definition obj_step :: "addr \<Rightarrow> (addr \<times> addr) list \<Rightarrow> obj_cmd \<Rightarrow> json_store \<Rightarrow> bool" where
  "obj_step r ps c s \<longleftrightarrow> (\<exists>x s' ps' ks'. exec_obj r c s = (x, s') \<and> obj s' r ps' ks' \<and> others_same r (items s) (items s') \<and> arena s' = arena s
    \<and> spec_obj (the \<circ> key_str (items s)) (too_deep (items s)) c (view (key_str (items s)) ps) = (x, view (key_str (items s)) ps'))"

lemma obj_stepI:
  assumes "\<exists>s' ks'. res = (y, s') \<and> obj s' r ps' ks' \<and> others_same r (items s) (items s') \<and> arena s' = arena s" "\<And>s'. res = (y, s') \<Longrightarrow> exec_obj r c s = (x, s')"
    "spec_obj (the \<circ> key_str (items s)) (too_deep (items s)) c (view (key_str (items s)) ps) = (x, view (key_str (items s)) ps')"
  shows "obj_step r ps c s"
  unfolding obj_step_def using assms by blast

lemma obj_step_same:
  assumes "\<exists>s'. res = (y, s') \<and> obj s' r ps ks \<and> others_same r (items s) (items s') \<and> arena s' = arena s" "\<And>s'. res = (y, s') \<Longrightarrow> exec_obj r c s = (x, s')"
    "spec_obj (the \<circ> key_str (items s)) (too_deep (items s)) c (view (key_str (items s)) ps) = (x, view (key_str (items s)) ps)"
  shows "obj_step r ps c s"
  by (rule obj_stepI [of res y, OF _ assms(2,3)]) (use assms(1) in blast)

lemma obj_keys: "obj s r ps ks \<Longrightarrow> keys_ok (key_str (items s)) ps"
  by (simp add: obj_def obj_ok_def)

lemma exec_add_step:
  assumes o: "obj s r ps ks" and k: "key_str (items s) n = Some k" and w: "fits (items s) r w \<or> too_deep (items s) w \<and> w \<noteq> r"
  shows "obj_step r ps (O_add n w) s"
proof -
  note v = view_map_of [OF obj_keys [OF o]] and u = object_unchanged [OF o]
  let ?kf = "key_str (items s)"
  consider (Some) l where "key_pos ?kf ps k = Some l" | (Deep) "key_pos ?kf ps k = None" "too_deep (items s) w" "w \<noteq> r"
    | (New) "key_pos ?kf ps k = None" "fits (items s) r w" using w by (cases "key_pos ?kf ps k") auto
  then show ?thesis
  proof cases
    case Some
    show ?thesis by (rule obj_step_same [OF u(1) [OF k, of w]]) (use Some v k in \<open>auto simp: bindS_def\<close>)
  next
    case Deep
    show ?thesis by (rule obj_step_same [OF u(2) [OF k Deep, of False]]) (use Deep v k in \<open>auto simp: bindS_def\<close>)
  next
    case New
    show ?thesis by (rule obj_stepI [OF object_add_new [OF o k New, of False]]) (use New v k fits_not_deep [OF New(2)] in \<open>auto simp: bindS_def view_def\<close>)
  qed
qed

lemma exec_remove_step:
  assumes o: "obj s r ps ks" and k: "key_str (items s) n = Some k" shows "obj_step r ps (O_remove n) s"
proof -
  note v = view_map_of [OF obj_keys [OF o]] and u = object_unchanged [OF o]
  show ?thesis
  proof (cases "key_pos (key_str (items s)) ps k")
    case (Some l)
    show ?thesis
      by (rule obj_stepI [OF object_remove_found [OF o k Some]]) (use Some view_remove [OF obj_keys [OF o] Some] v k in \<open>auto simp: bindS_def\<close>)
  next
    case None
    show ?thesis
      by (rule obj_step_same [OF u(3) [OF k None]]) (use None view_filter_other [OF obj_keys [OF o] None] v k in \<open>auto simp: bindS_def\<close>)
  qed
qed

lemma exec_set_step:
  assumes o: "obj s r ps ks" and k: "key_str (items s) n = Some k" and w: "fits (items s) r w \<or> too_deep (items s) w \<and> w \<noteq> r"
  shows "obj_step r ps (O_set n w) s"
proof -
  note v = view_map_of [OF obj_keys [OF o]] and u = object_unchanged [OF o]
  let ?kf = "key_str (items s)"
  consider (None) "key_pos ?kf ps k = None" | (Deep) l where "key_pos ?kf ps k = Some l" "too_deep (items s) w" "w \<noteq> r"
    | (Some) l where "key_pos ?kf ps k = Some l" "fits (items s) r w" using w by (cases "key_pos ?kf ps k") auto
  then show ?thesis
  proof cases
    case None
    show ?thesis by (rule obj_step_same [OF u(4) [OF k None, of w]]) (use None v k in \<open>auto simp: bindS_def\<close>)
  next
    case Deep
    show ?thesis by (rule obj_step_same [OF u(5) [OF k _ Deep(2,3)]]) (use Deep v k in \<open>auto simp: bindS_def\<close>)
  next
    case Some
    have e: "\<exists>s' ks'. object_setValue r n w s = (Inr (Some (snd (ps ! l))), s') \<and> obj s' r (ps[l := (fst (ps ! l), w)]) ks' \<and> others_same r (items s) (items s') \<and> arena s' = arena s"
      using object_setValue_found [OF o k Some] by blast
    show ?thesis by (rule obj_stepI [OF e])
      (use Some view_update [OF obj_keys [OF o] Some(1), of "fst (ps ! l)" w] key_pos_SomeD [OF Some(1)] fits_not_deep [OF Some(2)] v k in \<open>auto simp: bindS_def\<close>)
  qed
qed

lemma view_rename:
  assumes keys: "keys_ok kf ps" and k: "kf n' = Some k'" "key_pos kf ps k = Some l"
  shows "view kf (ps[l := (n', snd (ps ! l))]) = map (\<lambda>q. if fst q = k then (k', snd q) else q) (view kf ps)"
proof -
  have "map (\<lambda>q. if fst q = k then (k', snd (ps ! l)) else q) (view kf ps) = map (\<lambda>q. if fst q = k then (k', snd q) else q) (view kf ps)"
  proof (intro map_cong refl)
    fix q assume "q \<in> set (view kf ps)"
    then obtain i where i: "i < length ps" "q = view kf ps ! i" by (auto simp: in_set_conv_nth view_nth(2))
    have "kf (fst (ps ! i)) \<noteq> None" using keys i by (simp add: keys_ok_def)
    then have "fst q = k \<Longrightarrow> i = l" using key_pos_nth [OF keys i(1), of k] i k(2) by (auto simp: view_nth)
    then show "(if fst q = k then (k', snd (ps ! l)) else q) = (if fst q = k then (k', snd q) else q)" using i by (auto simp: view_nth)
  qed
  then show ?thesis using view_update [OF keys k(2), of n' "snd (ps ! l)"] k(1) by (simp only: option.sel)
qed

lemma exec_rename_step:
  assumes o: "obj s r ps ks" and k: "key_str (items s) n = Some k" "key_str (items s) n' = Some k'"
  shows "obj_step r ps (O_rename n n') s"
proof -
  let ?kf = "key_str (items s)"
  note v = view_map_of [OF obj_keys [OF o]] and rn = object_rename_found [OF o k]
  consider (Some) l where "key_pos ?kf ps k = Some l" "key_pos ?kf ps k' = None" | (Other) "key_pos ?kf ps k = None \<or> key_pos ?kf ps k' \<noteq> None"
    by (cases "key_pos ?kf ps k") auto
  then show ?thesis
  proof cases
    case Other
    then have e: "\<exists>s'. object_rename r n n' s = (Inr False, s') \<and> obj s' r ps ks \<and> others_same r (items s) (items s') \<and> arena s' = arena s"
      using rn by (auto split: option.splits)
    show ?thesis by (rule obj_step_same [OF e]) (use Other v k in \<open>auto simp: bindS_def\<close>)
  next
    case Some
    have e: "\<exists>s' ks'. object_rename r n n' s = (Inr True, s') \<and> obj s' r (ps[l := (n', snd (ps ! l))]) ks' \<and> others_same r (items s) (items s') \<and> arena s' = arena s"
      using rn Some by simp
    show ?thesis by (rule obj_stepI [OF e]) (use Some view_rename [OF obj_keys [OF o] k(2) Some(1)] v k in \<open>auto simp: bindS_def\<close>)
  qed
qed

lemma exec_obj_step:
  assumes o: "obj s r ps ks" and c: "obj_cmd_ok (items s) r c"
  shows "obj_step r ps c s"
proof (cases c)
  case (O_add n w)
  then show ?thesis using c exec_add_step [OF o] apart_fits by auto
next
  case (O_remove n)
  then show ?thesis using c by (auto intro: exec_remove_step [OF o])
next
  case (O_set n w)
  then show ?thesis using c exec_set_step [OF o] apart_fits by auto
next
  case (O_rename n n')
  then show ?thesis using c by (auto intro: exec_rename_step [OF o])
next
  case (O_get n)
  then obtain k where k: "key_str (items s) n = Some k" using c by auto
  then show ?thesis using object_unchanged(6) [OF o k] view_map_of [OF obj_keys [OF o]] O_get o by (auto simp: bindS_def obj_step_def)
next
  case O_size
  obtain j where j: "state_at (items s) r j s" "content_of j = Pairs ps ks" using obj_state [OF o] by metis
  then show ?thesis using O_size state_pairs [OF j] o by (auto simp: bindS_def getNumObjectPairs_def view_nth(2) obj_step_def)
qed

fun run_obj :: "addr \<Rightarrow> obj_cmd list \<Rightarrow> json_store \<Rightarrow> (store_err + obj_res) list \<times> json_store" where
  "run_obj r [] s = ([], s)"
| "run_obj r (c # cs) s = (let (x, s) = exec_obj r c s; (xs, s) = run_obj r cs s in (x # xs, s))"

fun spec_run :: "(addr \<Rightarrow> byte list) \<Rightarrow> (addr \<Rightarrow> bool) \<Rightarrow> obj_cmd list \<Rightarrow> (byte list \<times> addr) list \<Rightarrow> (store_err + obj_res) list \<times> (byte list \<times> addr) list" where
  "spec_run kf deep [] L = ([], L)"
| "spec_run kf deep (c # cs) L = (let (x, L) = spec_obj kf deep c L; (xs, L) = spec_run kf deep cs L in (x # xs, L))"

fun cmd_values :: "obj_cmd \<Rightarrow> addr list" where
  "cmd_values (O_add n v) = [v]" | "cmd_values (O_set n v) = [v]" | "cmd_values _ = []"

lemma obj_cmd_ok_same:
  assumes "others_same r h h'" "key_str h' = key_str h" "obj_cmd_ok h r c" shows "obj_cmd_ok h' r c"
  using assms apart_mono by (cases c) auto

lemma spec_obj_deep: "(\<And>v. v \<in> set (cmd_values c) \<Longrightarrow> deep v = deep' v) \<Longrightarrow> spec_obj kf deep c L = spec_obj kf deep' c L"
  by (cases c) simp_all

lemma deep_same: "others_same r h h' \<Longrightarrow> obj_cmd_ok h r c \<Longrightarrow> v \<in> set (cmd_values c) \<Longrightarrow> too_deep h' v = too_deep h v"
proof -
  assume a: "others_same r h h'" "obj_cmd_ok h r c" "v \<in> set (cmd_values c)"
  then have "v \<noteq> r" by (cases c) (auto dest: apartD)
  with a(1) show ?thesis by (cases rule: others_same_cases) (simp_all add: too_deep_def is_json_def hgt_def)
qed

lemma run_obj_spec:
  "obj s r ps ks \<Longrightarrow> list_all (obj_cmd_ok (items s) r) cs \<Longrightarrow> kf = key_str (items s) \<Longrightarrow> (\<And>c v. c \<in> set cs \<Longrightarrow> v \<in> set (cmd_values c) \<Longrightarrow> deep v = too_deep (items s) v) \<Longrightarrow>
    \<exists>s' ps' ks'. run_obj r cs s = (fst (spec_run (the \<circ> kf) deep cs (view kf ps)), s') \<and> obj s' r ps' ks' \<and> key_str (items s') = kf
      \<and> view kf ps' = snd (spec_run (the \<circ> kf) deep cs (view kf ps))"
proof (induction cs arbitrary: s ps ks)
  case Nil
  then show ?case by auto
next
  case (Cons c cs)
  from Cons.prems have c: "obj_cmd_ok (items s) r c" by simp
  obtain x s1 ps1 ks1 where s1: "exec_obj r c s = (x, s1)" "obj s1 r ps1 ks1" "others_same r (items s) (items s1)"
    "spec_obj (the \<circ> kf) (too_deep (items s)) c (view kf ps) = (x, view kf ps1)"
    using exec_obj_step [OF Cons.prems(1) c, unfolded obj_step_def, folded Cons.prems(3)] by blast
  have spec: "spec_obj (the \<circ> kf) deep c (view kf ps) = (x, view kf ps1)"
  proof -
    have "\<And>v. v \<in> set (cmd_values c) \<Longrightarrow> deep v = too_deep (items s) v" using Cons.prems(4) [of c] by simp
    from spec_obj_deep [of c deep "too_deep (items s)", OF this] s1(4) show ?thesis by simp
  qed
  have kf: "key_str (items s1) = key_str (items s)"
    using key_str_same [OF s1(3)] Cons.prems(1) s1(2) by (auto simp: obj_def holds_def)
  have "list_all (obj_cmd_ok (items s1) r) cs" using Cons.prems(2) obj_cmd_ok_same [OF s1(3) kf] by (auto simp: list_all_iff)
  moreover have "deep v = too_deep (items s1) v" if "d \<in> set cs" "v \<in> set (cmd_values d)" for d v
    using Cons.prems(2,4) deep_same [OF s1(3) _ that(2)] that by (auto simp: list_all_iff)
  ultimately obtain s' ps' ks' where s': "run_obj r cs s1 = (fst (spec_run (the \<circ> kf) deep cs (view kf ps1)), s')" "obj s' r ps' ks'" "key_str (items s') = kf"
    "view kf ps' = snd (spec_run (the \<circ> kf) deep cs (view kf ps1))" using Cons.IH [OF s1(2)] Cons.prems(3) kf by metis
  define g where "g = the \<circ> kf"
  have "spec_run g deep (c # cs) (view kf ps) = (x # fst (spec_run g deep cs (view kf ps1)), snd (spec_run g deep cs (view kf ps1)))"
    using spec [folded g_def] by (simp add: case_prod_unfold Let_def)
  moreover have "run_obj r (c # cs) s = (x # fst (spec_run g deep cs (view kf ps1)), s')" using s1(1) s'(1) [folded g_def] by simp
  ultimately show ?case using s'(2-4) [folded g_def] unfolding g_def [symmetric] by auto
qed

section \<open>Properties\<close>

text \<open>
  C11: an object is an ordered map from strings to values. Every sequence of insertions, removals, replacements, renamings and lookups gives the
  results that the map gives and leaves the object that represents the map after it, with the index of the keys built and dropped as the object grows and shrinks
  and the height of the object one more than that of its deepest value. A value at the nesting limit is refused with an error and the object stays as it is. The keys
  have to be atomic and the values must not contain the object itself.
\<close>

theorem json_object:
  assumes "obj s r ps ks" "list_all (obj_cmd_ok (items s) r) cs"
  shows "\<exists>s' ps' ks'. run_obj r cs s = (fst (spec_run (the \<circ> key_str (items s)) (too_deep (items s)) cs (view (key_str (items s)) ps)), s') \<and> obj s' r ps' ks'
    \<and> view (key_str (items s')) ps' = snd (spec_run (the \<circ> key_str (items s)) (too_deep (items s)) cs (view (key_str (items s)) ps))"
  using run_obj_spec [OF assms refl refl] by metis

theorem json_object_witness:
  "\<exists>s'. run_obj 16 [O_add 32 48, O_add 32 64, O_get 32, O_size] \<lparr>items = [16 \<mapsto> JSON \<lparr>theCollectionInfo = Some 8, theHeight = 1, content_of = Pairs [] None\<rparr>,
      32 \<mapsto> Atomic (String_item [97]), 48 \<mapsto> JSON \<lparr>theCollectionInfo = None, theHeight = 1, content_of = Members [64]\<rparr>, 64 \<mapsto> Atomic Null_item], arena = [],
      readers = [], theReaders = replicate 256 None\<rparr>
    = ([Inr (Done True), Inr (Done False), Inr (Found (Some 48)), Inr (Count 1)], s')"
  (is "\<exists>s'. run_obj 16 ?cs ?s = _")
proof -
  have "lists_ok ?s (\<lambda>_. [])" by (auto simp: lists_ok_def)
  then have "store_inv ?s" by (auto simp: store_inv_def)
  then have o: "obj ?s 16 [] None" by (simp add: obj_def holds_def tall_def obj_ok_def keys_ok_def KEY_INDEX_THRESHOLD_def)
  have n: "apart (items ?s) 16 64" by (rule apart_Atomic) simp_all
  have "apart (items ?s) 16 48" by (rule apart_JSON [where j = "\<lparr>theCollectionInfo = None, theHeight = 1, content_of = Members [64]\<rparr>"]) (use n in simp_all)
  then have c: "list_all (obj_cmd_ok (items ?s) 16) ?cs" using n by (simp add: key_str_def)
  have "fst (spec_run (the \<circ> key_str (items ?s)) (too_deep (items ?s)) ?cs (view (key_str (items ?s)) []))
    = [Inr (Done True), Inr (Done False), Inr (Found (Some 48)), Inr (Count 1)]" by (simp add: key_str_def too_deep_def hgt_def MAX_DEPTH_def)
  with json_object [OF o c] show ?thesis by (elim exE conjE) (auto intro!: exI)
qed

end
