(* ===== verification/Json_Loader.thy ===== *)
theory Json_Loader
  imports Json_Grammar Json_Items
begin

text \<open>
  The JSON loader (\<open>json::loader\<close> of \<open>runtime/json/json_loader.cpp\<close>), which turns the tokens of the parser into items of the store, and \<open>jn:parse-json\<close>
  (\<open>JSONParseIterator\<close> of \<open>jsoniq_functions_impl.cpp\<close>), which calls it. The top of the stack is the head of the list. The conversion of
  the text of a number to its value (\<open>xs_integer\<close>, \<open>xs_decimal\<close>, \<open>xs_double\<close>) is a parameter; \<open>None\<close> stands for \<open>std::range_error\<close>.
\<close>

section \<open>The byte order mark\<close>

definition BOM :: "byte list" where
  "BOM = [0xEF, 0xBB, 0xBF]"

text \<open>The stream buffer is the list of the bytes that it will give; \<open>in_avail\<close> of them are in its get area.\<close>

definition skip_bom_bytes :: "nat \<Rightarrow> byte list \<Rightarrow> bool \<times> byte list" where
  "skip_bom_bytes in_avail buf =
    (if buf = [] \<or> hd buf \<noteq> BOM ! 0 \<or> in_avail < length BOM then (False, buf)
     else let buf1 = tl buf in
       if buf1 \<noteq> [] \<and> hd buf1 = BOM ! 1 then
         let buf2 = tl buf1 in
         if buf2 \<noteq> [] \<and> hd buf2 = BOM ! 2 then (True, tl buf2) else (False, hd buf # hd buf1 # buf2)
       else (False, hd buf # buf1))"

text \<open>\<open>iword\<close> is the word that the stream keeps.\<close>

definition skip_utf8_bom :: "nat \<Rightarrow> bool \<Rightarrow> byte list \<times> int \<Rightarrow> bool \<times> byte list \<times> int" where
  "skip_utf8_bom in_avail remember st = (let (skipped, buf) = skip_bom_bytes in_avail (fst st) in
    (skipped, buf, if skipped \<and> remember then 1 else snd st))"

definition skip_utf8_bom_again :: "nat \<Rightarrow> byte list \<times> int \<Rightarrow> byte list \<times> int" where
  "skip_utf8_bom_again in_avail st = (if snd st \<noteq> 0 then
      let (skipped, buf) = skip_bom_bytes in_avail (fst st) in (buf, if skipped then snd st else 0)
    else st)"

section \<open>Atomic items\<close>

record numbers =
  xs_integer :: "byte list \<Rightarrow> int option"
  xs_decimal :: "byte list \<Rightarrow> byte list option"
  xs_double :: "byte list \<Rightarrow> byte list option"

record factory =
  theTrueItem :: addr
  theFalseItem :: addr
  theNullItem :: addr
  theSmallIntegers :: "addr list"

definition SMALL_INTEGER_MIN :: int where
  "SMALL_INTEGER_MIN = -128"

definition SMALL_INTEGER_MAX :: int where
  "SMALL_INTEGER_MAX = 1023"

fun nat_text :: "nat \<Rightarrow> byte list" where
  "nat_text n = (if n < 10 then [48 + of_nat n] else nat_text (n div 10) @ [48 + of_nat (n mod 10)])"

definition int_text :: "int \<Rightarrow> byte list" where
  "int_text i = (if i < 0 then 45 # nat_text (nat (- i)) else nat_text (nat i))"

definition createInteger :: "factory \<Rightarrow> int \<Rightarrow> addr store_op" where
  "createInteger fac i = (if SMALL_INTEGER_MIN \<le> i \<and> i \<le> SMALL_INTEGER_MAX then
      let n = nat (i - SMALL_INTEGER_MIN) in if n < length (theSmallIntegers fac) then returnS (theSmallIntegers fac ! n) else throwS Bad_pointer
    else new_item (Atomic (Integer_item (int_text i))))"

definition createDecimal :: "byte list \<Rightarrow> addr store_op" where
  "createDecimal x = new_item (Atomic (Decimal_item x))"

definition createDouble :: "byte list \<Rightarrow> addr store_op" where
  "createDouble x = new_item (Atomic (Double_item x))"

definition createBoolean :: "factory \<Rightarrow> bool \<Rightarrow> addr store_op" where
  "createBoolean fac b = returnS (if b then theTrueItem fac else theFalseItem fac)"

definition createJSONNull :: "factory \<Rightarrow> addr store_op" where
  "createJSONNull fac = returnS (theNullItem fac)"

section \<open>State of the loader\<close>

datatype stack_element = Array_elem "addr list" | Object_elem "addr list" "addr list" | Key_elem addr

record loader =
  ld_parser :: parser
  strip_top_level_array :: bool
  stripped_top_level_array :: bool
  unbox_top_level_arrays :: bool
  in_top_level_array :: bool
  check_only :: bool
  last_value_was_array :: bool
  depth :: u32
  ld_stack :: "stack_element list"
  ld_keys :: "(byte list \<times> addr) list"

definition max_shared_keys :: nat where
  "max_shared_keys = 1024"

definition max_shared_key_length :: nat where
  "max_shared_key_length = 256"

text \<open>
  \<open>JNDY0021\<close> stands for the exception that is made of each exception of the lexer and parser; the iterator raises it too, without one, for
  content after the first item.
\<close>

datatype load_err = JNDY0021 "json_err option" | Too_deep location | Number_range "byte list" location | Raised store_err | JNTY0020 "byte list" | Load_undefined

type_synonym 'a load_op = "json_store \<Rightarrow> (load_err + 'a) \<times> json_store"

definition liftS :: "'a store_op \<Rightarrow> 'a load_op" where
  "liftS m s = (case m s of (Inl e, s') \<Rightarrow> (Inl (Raised e), s') | (Inr x, s') \<Rightarrow> (Inr x, s'))"

definition new_loader :: "nat \<Rightarrow> byte list \<Rightarrow> bool \<Rightarrow> bool \<Rightarrow> bool \<Rightarrow> loader" where
  "new_loader in_avail input allow_multiple strip skip_bom =
    \<lparr>ld_parser = new_parser (new_lexer (if skip_bom then fst (snd (skip_utf8_bom in_avail False (input, 0))) else input)) allow_multiple,
     strip_top_level_array = strip, stripped_top_level_array = False, unbox_top_level_arrays = False, in_top_level_array = False,
     check_only = False, last_value_was_array = False, depth = 0, ld_stack = [], ld_keys = []\<rparr>"

definition push_elem :: "stack_element \<Rightarrow> loader \<Rightarrow> loader" where
  "push_elem e ld = ld\<lparr>ld_stack := e # ld_stack ld\<rparr>"

definition clear_loader :: "loader \<Rightarrow> loader" where
  "clear_loader ld = ld\<lparr>ld_parser := clear_parser (ld_parser ld), ld_stack := [], ld_keys := [], stripped_top_level_array := False,
    in_top_level_array := False, depth := 0\<rparr>"

section \<open>Values and keys\<close>

text \<open>The item is null (\<open>None\<close>) only if the loader does not build items.\<close>

definition add_value :: "addr option \<Rightarrow> loader \<Rightarrow> load_err + loader" where
  "add_value v ld = (case ld_stack ld of
      Array_elem xs # st \<Rightarrow>
        if check_only ld then Inr ld
        else (case v of None \<Rightarrow> Inl Load_undefined | Some x \<Rightarrow> Inr (ld\<lparr>ld_stack := Array_elem (xs @ [x]) # st\<rparr>))
    | Object_elem ks vs # st \<Rightarrow> (case v of None \<Rightarrow> Inl Load_undefined | Some k \<Rightarrow> Inr (push_elem (Key_elem k) ld))
    | Key_elem k # Object_elem ks vs # st \<Rightarrow>
        if check_only ld then Inr (ld\<lparr>ld_stack := Object_elem (ks @ [k]) vs # st\<rparr>)
        else (case v of None \<Rightarrow> Inl Load_undefined | Some x \<Rightarrow> Inr (ld\<lparr>ld_stack := Object_elem (ks @ [k]) (vs @ [x]) # st\<rparr>))
    | _ \<Rightarrow> Inl Load_undefined)"

definition max_linear :: nat where
  "max_linear = 16"

primrec equals_any :: "addr list \<Rightarrow> addr \<Rightarrow> bool store_op" where
  "equals_any [] k = returnS False"
| "equals_any (x # xs) k = (if x = k then returnS True
    else bindS (keyString x) (\<lambda>a. bindS (keyString k) (\<lambda>b. if a = b then returnS True else equals_any xs k)))"

definition raise_duplicate :: "addr \<Rightarrow> unit store_op" where
  "raise_duplicate k = bindS (keyString k) (\<lambda>a. throwS (Duplicate_key a))"

primrec duplicates_linear :: "addr list \<Rightarrow> addr list \<Rightarrow> unit store_op" where
  "duplicates_linear earlier [] = returnS ()"
| "duplicates_linear earlier (k # ks) = bindS (equals_any earlier k) (\<lambda>duplicate.
    if duplicate then raise_duplicate k else duplicates_linear (earlier @ [k]) ks)"

primrec duplicates_seen :: "byte list set \<Rightarrow> addr list \<Rightarrow> unit store_op" where
  "duplicates_seen seen [] = returnS ()"
| "duplicates_seen seen (k # ks) = bindS (keyString k) (\<lambda>a.
    if a \<in> seen then raise_duplicate k else duplicates_seen (insert a seen) ks)"

definition check_duplicate_keys :: "addr list \<Rightarrow> unit store_op" where
  "check_duplicate_keys keys = (if length keys \<le> max_linear then duplicates_linear [] keys else duplicates_seen {} keys)"

definition check_depth :: "token \<Rightarrow> loader \<Rightarrow> load_err + loader" where
  "check_depth t ld = (if unat (depth ld) \<ge> MAX_DEPTH then Inl (Too_deep (tok_loc t)) else Inr (ld\<lparr>depth := depth ld + 1\<rparr>))"

definition make_key :: "byte list \<Rightarrow> loader \<Rightarrow> (addr \<times> loader) store_op" where
  "make_key s ld = (case map_of (ld_keys ld) s of
      Some k \<Rightarrow> returnS (k, ld)
    | None \<Rightarrow> bindS (createString s) (\<lambda>k. returnS (k,
        if length (ld_keys ld) < max_shared_keys \<and> length s \<le> max_shared_key_length then ld\<lparr>ld_keys := (s, k) # ld_keys ld\<rparr> else ld)))"

section \<open>One token\<close>

text \<open>
  What the switch on a token does: it goes on to the next token (\<open>Next\<close>), ends with the item that the token completes (\<open>Item\<close>),
  or returns the null item that ends a top-level array (\<open>End_of_array\<close>).
\<close>

datatype token_result = Next loader | Item "addr option" loader | End_of_array loader

definition bindL :: "load_err + 'a \<Rightarrow> ('a \<Rightarrow> 'b load_op) \<Rightarrow> 'b load_op" where
  "bindL r f = (case r of Inl e \<Rightarrow> throwS e | Inr x \<Rightarrow> f x)"

definition open_array :: "token \<Rightarrow> loader \<Rightarrow> load_err + loader" where
  "open_array t ld =
    (if unbox_top_level_arrays ld \<and> ld_stack ld = [] \<and> \<not> in_top_level_array ld then
       bindE (check_depth t ld) (\<lambda>ld. Inr (ld\<lparr>in_top_level_array := True\<rparr>))
     else if strip_top_level_array ld \<and> \<not> stripped_top_level_array ld \<and> ld_stack ld = [] then Inr (ld\<lparr>stripped_top_level_array := True\<rparr>)
     else bindE (check_depth t ld) (\<lambda>ld. Inr (push_elem (Array_elem []) ld)))"

definition close_container :: "addr option \<Rightarrow> loader \<Rightarrow> token_result load_op" where
  "close_container item ld = (case ld_stack ld of
      Array_elem xs # st \<Rightarrow> let ld = ld\<lparr>ld_stack := st, depth := depth ld - 1\<rparr> in
        if check_only ld then returnS (Item item ld) else bindS (liftS (createJSONArray xs)) (\<lambda>a. returnS (Item (Some a) ld))
    | Object_elem ks vs # st \<Rightarrow> let ld = ld\<lparr>ld_stack := st, depth := depth ld - 1\<rparr> in
        if check_only ld then bindS (liftS (check_duplicate_keys ks)) (\<lambda>_. returnS (Item item ld))
        else bindS (liftS (createJSONObject ks vs)) (\<lambda>a. returnS (Item (Some a) ld))
    | _ \<Rightarrow> throwS Load_undefined)"

definition close_array :: "addr option \<Rightarrow> loader \<Rightarrow> token_result load_op" where
  "close_array item ld =
    (if unbox_top_level_arrays ld \<and> ld_stack ld = [] then
       returnS (End_of_array (ld\<lparr>depth := depth ld - 1, in_top_level_array := False, last_value_was_array := True\<rparr>))
     else if ld_stack ld = [] \<and> strip_top_level_array ld then returnS (Next (ld\<lparr>stripped_top_level_array := False\<rparr>))
     else close_container item ld)"

datatype number_value = Integer_value int | Decimal_value "byte list" | Double_value "byte list"

definition number_of_text :: "numbers \<Rightarrow> numeric_type \<Rightarrow> byte list \<Rightarrow> number_value option" where
  "number_of_text nums nt v = (case nt of
      N_integer \<Rightarrow> (case xs_integer nums v of Some i \<Rightarrow> Some (Integer_value i) | None \<Rightarrow> map_option Decimal_value (xs_decimal nums v))
    | N_decimal \<Rightarrow> map_option Decimal_value (xs_decimal nums v)
    | N_floating_point \<Rightarrow> map_option Double_value (xs_double nums v)
    | Non_numeric \<Rightarrow> None)"

definition create_number :: "factory \<Rightarrow> number_value \<Rightarrow> addr store_op" where
  "create_number fac n = (case n of
    Integer_value i \<Rightarrow> createInteger fac i | Decimal_value x \<Rightarrow> createDecimal x | Double_value x \<Rightarrow> createDouble x)"

definition load_number :: "numbers \<Rightarrow> factory \<Rightarrow> token \<Rightarrow> addr option \<Rightarrow> loader \<Rightarrow> token_result load_op" where
  "load_number nums fac t item ld = (case number_of_text nums (tok_numeric t) (tok_value t) of
      None \<Rightarrow> throwS (if tok_numeric t = Non_numeric then Load_undefined else Number_range (tok_value t) (tok_loc t))
    | Some n \<Rightarrow> if check_only ld then returnS (Item item ld) else bindS (liftS (create_number fac n)) (\<lambda>a. returnS (Item (Some a) ld)))"

definition at_key :: "loader \<Rightarrow> bool" where
  "at_key ld = (case ld_stack ld of Object_elem _ _ # _ \<Rightarrow> True | _ \<Rightarrow> False)"

definition load_string :: "token \<Rightarrow> addr option \<Rightarrow> loader \<Rightarrow> token_result load_op" where
  "load_string t item ld =
    (if at_key ld then bindS (liftS (make_key (tok_value t) ld)) (\<lambda>(k, ld). returnS (Item (Some k) ld))
     else if \<not> check_only ld then bindS (liftS (createString (tok_value t))) (\<lambda>a. returnS (Item (Some a) ld))
     else returnS (Item item ld))"

definition load_shared :: "addr store_op \<Rightarrow> addr option \<Rightarrow> loader \<Rightarrow> token_result load_op" where
  "load_shared create item ld = (if check_only ld then returnS (Item item ld) else bindS (liftS create) (\<lambda>a. returnS (Item (Some a) ld)))"

definition load_token :: "numbers \<Rightarrow> factory \<Rightarrow> token \<Rightarrow> addr option \<Rightarrow> loader \<Rightarrow> token_result load_op" where
  "load_token nums fac t item ld = (case tok_type t of
      Begin_array \<Rightarrow> bindL (open_array t ld) (\<lambda>ld. returnS (Next ld))
    | Begin_object \<Rightarrow> bindL (check_depth t ld) (\<lambda>ld. returnS (Next (push_elem (Object_elem [] []) ld)))
    | End_array \<Rightarrow> close_array item ld
    | End_object \<Rightarrow> close_container item ld
    | Name_separator \<Rightarrow> returnS (Next ld)
    | Value_separator \<Rightarrow> returnS (Next ld)
    | T_number \<Rightarrow> load_number nums fac t item ld
    | T_string \<Rightarrow> load_string t item ld
    | T_false \<Rightarrow> load_shared (createBoolean fac False) item ld
    | T_true \<Rightarrow> load_shared (createBoolean fac True) item ld
    | T_null \<Rightarrow> load_shared (createJSONNull fac) item ld
    | T_none \<Rightarrow> throwS Load_undefined)"

section \<open>The next item\<close>

text \<open>Every token that the parser hands out takes at least one byte of the input, or is one that it has peeked at.\<close>

definition weight :: "parser \<Rightarrow> nat" where
  "weight p = length (lx_in (pr_lexer p)) + (if tok_type (pr_peeked p) \<noteq> T_none then 1 else 0)"

lemma lexer_next_any:
  "map_sum id (\<lambda>(b, _, lx'). (b, lx')) (lexer_next throw t lx) = map_sum id (\<lambda>(b, _, lx'). (b, lx')) (lexer_next throw t' lx)"
proof (induction throw t lx rule: lexer_next.induct)
  case (1 throw t lx)
  show ?case
  proof (cases "get_char (set_cur_loc lx)")
    case None
    then show ?thesis by (simp add: lexer_next.simps [of throw t] lexer_next.simps [of throw t'])
  next
    case (Some p)
    obtain c lx1 where p: "p = (c, lx1)" by (cases p)
    note g = Some [unfolded p]
    show ?thesis
    proof (cases "is_ws c")
      case True
      then have "lexer_next throw t lx = lexer_next throw t lx1" "lexer_next throw t' lx = lexer_next throw t' lx1"
        using g by (simp_all add: lexer_next.simps [of throw t lx] lexer_next.simps [of throw t' lx])
      then show ?thesis using "1.IH" [OF refl g refl True] by simp
    next
      case ws: False
      consider (String) "c = 34" | (Number) "starts_number c" | (Literal) "starts_literal c"
        | (Struct) "c \<noteq> 34" "\<not> starts_number c" "\<not> starts_literal c" by blast
      then show ?thesis
      proof cases
        case String
        then show ?thesis using next_string [of lx lx1 throw] g by (simp add: bindE_def split: sum.splits prod.splits option.splits)
      next
        case Number
        from next_number [OF g this] show ?thesis by (simp add: bindE_def split: sum.splits prod.splits option.splits)
      next
        case Literal
        from next_literal [OF g this] show ?thesis by (simp add: bindE_def split: sum.splits prod.splits option.splits)
      next
        case Struct
        from next_structural [OF g ws this] show ?thesis by (simp split: option.splits)
      qed
    qed
  qed
qed

lemma lexer_next_shrinks:
  assumes "lexer_next True t lx = Inr (b, t', lx')"
  shows "if b then length (lx_in lx') < length (lx_in lx) else t' = t \<and> lx_in lx' = []"
proof -
  obtain t1 where n: "lexer_next True new_token lx = Inr (b, t1, lx')"
    using lexer_next_any [of True t lx new_token] assms by (cases "lexer_next True new_token lx") auto
  show ?thesis
  proof (cases b)
    case True
    then obtain ws w where "lexeme (tok_type t1) (tok_numeric t1) (tok_value t1) w" "lexed (ws @ w) lx lx'"
      using next_sound [OF _ cleared_new(1)] n by metis
    moreover from this(1) have "w \<noteq> []" using lexeme_first by fastforce
    ultimately show ?thesis using True by (auto dest!: lexed_in)
  next
    case False
    then have "list_all is_ws (lx_in lx)" using n next_end_iff [of new_token lx] by auto
    then obtain lx2 where "lexer_next True t lx = Inr (False, t, lx2)" "lexed (lx_in lx) lx lx2" by (rule next_end)
    then show ?thesis using False assms by (auto dest!: lexed_in)
  qed
qed

lemma token_weight:
  "peek_token p = Inr (tt, p') \<Longrightarrow> weight p' \<le> weight p \<and> tt = tok_type (pr_peeked p')"
  "get_token t p = Inr (b, t', p') \<Longrightarrow> weight p' \<le> weight p \<and> (b \<longrightarrow> weight p' < weight p)"
  using lexer_next_shrinks [of "pr_peeked p" "pr_lexer p"] lexer_next_shrinks [of "clear_token t" "pr_lexer p"]
  by (auto simp: peek_token_def get_token_def bindE_eq_Inr weight_def cleared_new split: if_splits; fastforce)+

lemma weight_simps [simp]:
  "weight (push_state s p) = weight p" "weight (goto_state s p) = weight p" "pop_state p = Inr p' \<Longrightarrow> weight p' = weight p"
  by (auto simp: weight_def pop_state_def split: list.splits)

lemma matches_weight:
  assumes "matches_token tt t p = Inr (b, t', p')" "tt \<noteq> T_none" shows "weight p' \<le> weight p \<and> (b \<longrightarrow> weight p' < weight p)"
  using assms by (auto simp: matches_token_def bindE_eq_Inr split: if_splits dest!: token_weight)

fun turn_parser :: "turn \<Rightarrow> parser" where
  "turn_parser (Return b t p) = p" | "turn_parser (Continue t p) = p"

fun gives_token :: "turn \<Rightarrow> bool" where
  "gives_token (Return b t p) = b" | "gives_token (Continue t p) = False"

definition lighter :: "parser \<Rightarrow> turn \<Rightarrow> bool" where
  "lighter p r \<longleftrightarrow> weight (turn_parser r) \<le> weight p \<and> (gives_token r \<longrightarrow> weight (turn_parser r) < weight p)"

lemma require_weight: "require_and_push tt s t p = Inr r \<Longrightarrow> lighter p r"
  by (auto simp: require_and_push_def require_token_def lighter_def bindE_eq_Inr split: if_splits option.splits dest!: token_weight(2))

lemma end_or_first_weight: "end_or_first tt rest first t p = Inr r \<Longrightarrow> tt \<noteq> T_none \<Longrightarrow> lighter p r"
  by (auto simp: end_or_first_def lighter_def bindE_eq_Inr split: if_splits dest!: matches_weight)

lemma separator_weight: "separator_or_pop s t p = Inr r \<Longrightarrow> lighter p r"
  by (auto simp: separator_or_pop_def lighter_def bindE_eq_Inr split: if_splits dest!: matches_weight)

lemma value_weight:
  assumes "peek_token p = Inr (tt, p1)" "tt \<noteq> T_none" "get_token t p1 = Inr (b, t', p')" shows "lighter p (Return True t' p')"
proof -
  have "weight p1 \<le> weight p" "tok_type (pr_peeked p1) \<noteq> T_none" using token_weight(1) [OF assms(1)] assms(2) by simp_all
  moreover from this(2) have "b" using assms(3) by (simp add: get_token_def)
  ultimately show ?thesis using token_weight(2) [OF assms(3)] by (simp add: lighter_def)
qed

lemma turn_weight: "parser_turn t p = Inr r \<Longrightarrow> lighter p r"
proof (cases "pr_state p = J0 \<or> pr_state p = V0")
  case True
  assume "parser_turn t p = Inr r"
  with True show ?thesis using value_weight [of p _ _ t]
    by (auto simp: parser_turn_def lighter_def bindE_eq_Inr split: if_splits dest: token_weight(1); fastforce dest: token_weight(1))
next
  case False
  assume "parser_turn t p = Inr r"
  with False show ?thesis
    by (cases "pr_state p") (auto simp: parser_turn_def intro: require_weight end_or_first_weight separator_weight, auto simp: lighter_def)
qed

lemma loop_weight: "parser_loop t p = Inr (b, t', p') \<Longrightarrow> weight p' \<le> weight p \<and> (b \<longrightarrow> weight p' < weight p)"
proof (induction t p rule: parser_loop.induct)
  case (1 t p)
  obtain r where r: "parser_turn t p = Inr r" using "1.prems" by (cases "parser_turn t p") (simp_all add: parser_loop.simps [of t p])
  note w = turn_weight [OF r, unfolded lighter_def]
  show ?case
  proof (cases r)
    case (Return b1 t1 p1)
    then show ?thesis using "1.prems" r w by (simp add: parser_loop.simps [of t p])
  next
    case (Continue t1 p1)
    then show ?thesis using "1.IH" [OF r Continue] "1.prems" r w by (auto simp: parser_loop.simps [of t p])
  qed
qed

lemma next_weight: "parser_next t p = Inr (True, t', p') \<Longrightarrow> weight p' < weight p"
  using loop_weight by (fastforce simp: parser_next_def bindE_eq_Inr split: if_splits)

text \<open>The switch on a token leaves the parser as it is.\<close>

fun result_loader :: "token_result \<Rightarrow> loader" where
  "result_loader (Next ld) = ld" | "result_loader (Item item ld) = ld" | "result_loader (End_of_array ld) = ld"

lemma bindS_cases: "bindS m f s = (Inr y, s') \<Longrightarrow> (\<And>x s1. m s = (Inr x, s1) \<Longrightarrow> f x s1 = (Inr y, s') \<Longrightarrow> P) \<Longrightarrow> P"
  by (auto simp: bindS_eq)

lemma make_key_parser: "make_key v ld s = (Inr (k, ld'), s') \<Longrightarrow> ld_parser ld' = ld_parser ld"
  by (auto simp: make_key_def bindS_eq split: option.splits if_splits)

lemma load_token_parser:
  assumes "load_token nums fac t item ld s = (Inr r, s')" shows "ld_parser (result_loader r) = ld_parser ld"
proof -
  have d: "check_depth t ld = Inr ld' \<Longrightarrow> ld_parser ld' = ld_parser ld" for ld' by (auto simp: check_depth_def split: if_splits)
  have o: "open_array t ld = Inr ld' \<Longrightarrow> ld_parser ld' = ld_parser ld" for ld'
    by (auto simp: open_array_def bindE_eq_Inr push_elem_def split: if_splits dest: d)
  have c: "close_container item ld s = (Inr r, s') \<Longrightarrow> ld_parser (result_loader r) = ld_parser ld"
    by (auto simp: close_container_def Let_def split: list.splits stack_element.splits if_splits elim!: bindS_cases)
  have st: "load_string t item ld s = (Inr r, s') \<Longrightarrow> ld_parser (result_loader r) = ld_parser ld"
    by (auto simp: load_string_def liftS_def split: if_splits prod.splits sum.splits elim!: bindS_cases) (rule make_key_parser)
  show ?thesis using assms
    by (cases "tok_type t")
      (auto simp: load_token_def bindL_def close_array_def load_number_def load_shared_def push_elem_def split: if_splits sum.splits option.splits
        elim!: bindS_cases dest: d o c st)
qed

lemma add_value_parser: "add_value v ld = Inr ld' \<Longrightarrow> ld_parser ld' = ld_parser ld"
  by (auto simp: add_value_def push_elem_def split: list.splits stack_element.splits if_splits option.splits)

text \<open>
  The loop of \<open>next\<close>; \<open>t\<close> and \<open>item\<close> are the local variables that live through its turns. The result is the item, which may be null, or \<open>None\<close> for
  \<open>false\<close>. An exception leaves no loader.
\<close>

function loader_loop :: "numbers \<Rightarrow> factory \<Rightarrow> token \<Rightarrow> addr option \<Rightarrow> loader \<Rightarrow> (addr option option \<times> loader) load_op" where
  "loader_loop nums fac t item ld s = (case parser_next t (ld_parser ld) of
      Inl e \<Rightarrow> (Inl (JNDY0021 (Some e)), s)
    | Inr (got, t, p) \<Rightarrow>
        if \<not> got then (Inr (None, ld\<lparr>ld_parser := p\<rparr>), s)
        else (case load_token nums fac t item (ld\<lparr>ld_parser := p\<rparr>) s of
            (Inl e, s) \<Rightarrow> (Inl e, s)
          | (Inr r, s) \<Rightarrow> (case r of
                Next ld \<Rightarrow> loader_loop nums fac t item ld s
              | End_of_array ld \<Rightarrow> (Inr (Some None, ld), s)
              | Item item ld \<Rightarrow>
                  if ld_stack ld = [] then (Inr (Some item, if check_only ld then ld\<lparr>last_value_was_array := False\<rparr> else ld), s)
                  else (case add_value item ld of Inl e \<Rightarrow> (Inl e, s) | Inr ld \<Rightarrow> loader_loop nums fac t item ld s))))"
  by pat_completeness auto

termination
proof (relation "measure (\<lambda>(nums, fac, t, item, ld, s). weight (ld_parser ld))", goal_cases)
  case 2
  from load_token_parser [OF 2(5) [symmetric, unfolded 2(6)]] 2 show ?case by (auto dest: next_weight)
next
  case 3
  from load_token_parser [OF 3(5) [symmetric, unfolded 3(6)]] 3 show ?case by (auto dest!: add_value_parser dest: next_weight)
qed simp

declare loader_loop.simps [simp del]

definition loader_next :: "numbers \<Rightarrow> factory \<Rightarrow> loader \<Rightarrow> (addr option option \<times> loader) load_op" where
  "loader_next nums fac = loader_loop nums fac new_token None"

lemma loader_loop_cases:
  assumes "loader_loop nums fac t item ld s = (x, s')"
  obtains (Parser) e where "parser_next t (ld_parser ld) = Inl e" "x = Inl (JNDY0021 (Some e))" "s' = s"
    | (End) t1 p where "parser_next t (ld_parser ld) = Inr (False, t1, p)" "x = Inr (None, ld\<lparr>ld_parser := p\<rparr>)" "s' = s"
    | (Token) t1 p e where "parser_next t (ld_parser ld) = Inr (True, t1, p)" "load_token nums fac t1 item (ld\<lparr>ld_parser := p\<rparr>) s = (Inl e, s')" "x = Inl e"
    | (Next) t1 p ld1 s1 where "parser_next t (ld_parser ld) = Inr (True, t1, p)" "load_token nums fac t1 item (ld\<lparr>ld_parser := p\<rparr>) s = (Inr (Next ld1), s1)"
        "ld_parser ld1 = p" "loader_loop nums fac t1 item ld1 s1 = (x, s')"
    | (Array) t1 p ld1 where "parser_next t (ld_parser ld) = Inr (True, t1, p)" "load_token nums fac t1 item (ld\<lparr>ld_parser := p\<rparr>) s = (Inr (End_of_array ld1), s')"
        "ld_parser ld1 = p" "x = Inr (Some None, ld1)"
    | (Top) t1 p i ld1 where "parser_next t (ld_parser ld) = Inr (True, t1, p)" "load_token nums fac t1 item (ld\<lparr>ld_parser := p\<rparr>) s = (Inr (Item i ld1), s')"
        "ld_parser ld1 = p" "ld_stack ld1 = []" "x = Inr (Some i, if check_only ld1 then ld1\<lparr>last_value_was_array := False\<rparr> else ld1)"
    | (Add_error) t1 p i ld1 e where "parser_next t (ld_parser ld) = Inr (True, t1, p)" "load_token nums fac t1 item (ld\<lparr>ld_parser := p\<rparr>) s = (Inr (Item i ld1), s')"
        "ld_parser ld1 = p" "add_value i ld1 = Inl e" "x = Inl e"
    | (Add) t1 p i ld1 s1 ld2 where "parser_next t (ld_parser ld) = Inr (True, t1, p)" "load_token nums fac t1 item (ld\<lparr>ld_parser := p\<rparr>) s = (Inr (Item i ld1), s1)"
        "ld_parser ld1 = p" "add_value i ld1 = Inr ld2" "ld_parser ld2 = p" "loader_loop nums fac t1 i ld2 s1 = (x, s')"
proof (cases "parser_next t (ld_parser ld)")
  case (Inl e)
  then show thesis using that(1) assms by (simp add: loader_loop.simps [of nums fac t])
next
  case (Inr y)
  obtain b t1 p where y: "y = (b, t1, p)" by (cases y)
  note n = Inr [unfolded y]
  obtain z s1 where l: "load_token nums fac t1 item (ld\<lparr>ld_parser := p\<rparr>) s = (z, s1)" by fastforce
  note e = assms [unfolded loader_loop.simps [of nums fac t], unfolded n sum.case prod.case l]
  show thesis
  proof (cases "b \<and> (\<exists>r. z = Inr r)")
    case False
    then show thesis using e n l that(2,3) by (cases z) (auto split: if_splits)
  next
    case True
    then obtain r where r: "z = Inr r" "b" by blast
    note w = load_token_parser [OF l [unfolded r(1)]]
    show thesis
    proof (cases r)
      case (Next ld1)
      show thesis by (rule that(4) [of t1 p ld1 s1]) (use n l e r Next w in simp_all)
    next
      case (End_of_array ld1)
      show thesis by (rule that(5) [of t1 p ld1]) (use n l e r End_of_array w in simp_all)
    next
      case (Item i ld1)
      show thesis
      proof (cases "ld_stack ld1 = []")
        case True
        show thesis by (rule that(6) [of t1 p i ld1]) (use n l e r Item w True in simp_all)
      next
        case False
        show thesis
        proof (cases "add_value i ld1")
          case (Inl e1)
          show thesis by (rule that(7) [of t1 p i ld1 e1]) (use n l e r Item w False Inl in simp_all)
        next
          case (Inr ld2)
          show thesis by (rule that(8) [of t1 p i ld1 s1 ld2]) (use n l e r Item w False Inr add_value_parser [OF Inr] in simp_all)
        qed
      qed
    qed
  qed
qed

lemma loader_next_weight: "loader_loop nums fac t item ld s = (Inr (Some r, ld'), s') \<Longrightarrow> weight (ld_parser ld') < weight (ld_parser ld)"
proof (induction "weight (ld_parser ld)" arbitrary: t item ld s rule: less_induct)
  case less
  note w = next_weight [of t "ld_parser ld"]
  from less.prems show ?case
  proof (cases rule: loader_loop_cases)
    case (Next t1 p ld1 s1)
    then show ?thesis using less.hyps [of ld1] w [OF Next(1)] by fastforce
  next
    case (Add t1 p i ld1 s1 ld2)
    then show ?thesis using less.hyps [of ld2] w [OF Add(1)] by fastforce
  qed (use w in auto)
qed

section \<open>\<open>jn:parse-json\<close>\<close>

record parse_state =
  theAllowMultiple :: bool
  theInput :: bool
  theGotOne :: bool

definition init_state :: parse_state where
  "init_state = \<lparr>theAllowMultiple = True, theInput = False, theGotOne = False\<rparr>"

definition reset_state :: "parse_state \<Rightarrow> parse_state" where
  "reset_state ps = ps\<lparr>theGotOne := False\<rparr>"

text \<open>The value of the option, or \<open>old\<close> if it is not given.\<close>

definition processBooleanOption :: "addr \<Rightarrow> byte list \<Rightarrow> bool \<Rightarrow> bool load_op" where
  "processBooleanOption options name old = bindS (liftS (createString name)) (\<lambda>n. bindS (liftS (getObjectValue options n)) (\<lambda>v.
    case v of None \<Rightarrow> returnS old
    | Some a \<Rightarrow> bindS (liftS (item_at a)) (\<lambda>it. case it of Atomic (Boolean_item b) \<Rightarrow> returnS b | _ \<Rightarrow> throwS (JNTY0020 name))))"

definition process_options :: "addr option \<Rightarrow> parse_state \<Rightarrow> (bool \<times> parse_state) load_op" where
  "process_options options ps = (case options of None \<Rightarrow> returnS (False, ps)
    | Some opts \<Rightarrow> bindS (processBooleanOption opts (map of_char ''jsoniq-multiple-top-level-items'') (theAllowMultiple ps)) (\<lambda>multiple.
        bindS (processBooleanOption opts (map of_char ''jsoniq-strip-top-level-array'') False) (\<lambda>strip.
        bindS (processBooleanOption opts (map of_char ''zorba-streaming-members'') False) (\<lambda>_.
        returnS (strip, ps\<lparr>theAllowMultiple := multiple\<rparr>)))))"

text \<open>All items that the iterator returns, one per call, and the exception it ends with, if any.\<close>

function parse_results :: "numbers \<Rightarrow> factory \<Rightarrow> parse_state \<Rightarrow> loader \<Rightarrow> json_store \<Rightarrow> addr option list \<times> load_err option \<times> json_store" where
  "parse_results nums fac ps ld s = (case loader_next nums fac ld s of
      (Inl e, s) \<Rightarrow> ([], Some e, s)
    | (Inr (r, ld), s) \<Rightarrow> (case r of None \<Rightarrow> ([], None, s)
        | Some item \<Rightarrow>
            if \<not> theAllowMultiple ps \<and> theGotOne ps then ([], Some (JNDY0021 None), s)
            else let (items, e, s) = parse_results nums fac (ps\<lparr>theGotOne := True\<rparr>) ld s in (item # items, e, s)))"
  by pat_completeness auto

termination
proof (relation "measure (\<lambda>(nums, fac, ps, ld, s). weight (ld_parser ld))", goal_cases)
  case 2
  then show ?case using loader_next_weight unfolding loader_next_def by (metis case_prod_conv in_measure)
qed simp

declare parse_results.simps [simp del]

datatype input = Streamable nat "byte list" | Text "byte list"

text \<open>A text reaches the loader up to its first null character.\<close>

fun input_stream :: "input \<Rightarrow> nat \<times> byte list" where
  "input_stream (Streamable in_avail bs) = (in_avail, bs)"
| "input_stream (Text v) = (let bs = takeWhile (\<lambda>c. c \<noteq> 0) v in (length bs, bs))"

fun is_streamable :: "input \<Rightarrow> bool" where
  "is_streamable (Streamable _ _) = True" | "is_streamable (Text _) = False"

definition json_parse :: "numbers \<Rightarrow> factory \<Rightarrow> input \<Rightarrow> addr option \<Rightarrow> parse_state \<Rightarrow> json_store \<Rightarrow> addr option list \<times> load_err option \<times> json_store" where
  "json_parse nums fac inp options ps s = (case process_options options ps s of
      (Inl e, s) \<Rightarrow> ([], Some e, s)
    | (Inr (strip, ps), s) \<Rightarrow>
        let (in_avail, bs) = input_stream inp; ps = (if is_streamable inp then ps\<lparr>theInput := True\<rparr> else ps) in
        parse_results nums fac ps (new_loader in_avail bs True strip True) s)"

end
