(* ===== verification/Json_Text.thy ===== *)
theory Json_Text
  imports Json_Grammar
begin

text \<open>
  JSON texts as byte strings, defined by a grammar and not by the lexer: white space and the texts of tokens in turn, where the tokens are those of
  arrays and objects. \<open>json_text\<close> has the lexical grammar that the code takes, \<open>rfc_text\<close> that of RFC 4627; the lexer is shown to find the tokens of
  every such text, and only of these, and the two grammars are compared.
\<close>

section \<open>Grammars\<close>

text \<open>
  The lexical grammar of RFC 4627: other than \<open>lexeme\<close> it has no control characters in strings, and numbers such as \<open>0e1\<close>. As in \<open>lexeme\<close>, the
  escapes of surrogates come in pairs.
\<close>

definition rfc_lexeme :: "token_type \<Rightarrow> numeric_type \<Rightarrow> byte list \<Rightarrow> byte list \<Rightarrow> bool" where
  "rfc_lexeme tt nt v w \<longleftrightarrow> (case tt of
      T_string \<Rightarrow> nt = Non_numeric \<and> (\<exists>b. w = 0x22 # b @ [0x22] \<and> string_body b v \<and> (\<forall>c\<in>set b. 0x20 \<le> c))
    | T_number \<Rightarrow> (\<exists>s i f e. w = s @ i @ f @ e \<and> number_parts s i f e \<and> nt = number_type f e) \<and> v = w
    | _ \<Rightarrow> lexeme tt nt v w)"

inductive json_lex :: "(token_type \<Rightarrow> numeric_type \<Rightarrow> byte list \<Rightarrow> byte list \<Rightarrow> bool) \<Rightarrow> byte list \<Rightarrow> atok list \<Rightarrow> bool"
  for L where
  lex_end: "list_all is_ws ws \<Longrightarrow> json_lex L ws []"
| lex_token: "list_all is_ws ws \<Longrightarrow> L tt nt v w \<Longrightarrow> json_lex L rest as \<Longrightarrow> json_lex L (ws @ w @ rest) ((tt, nt, v) # as)"

inductive_cases json_lex_ConsE: "json_lex L bs (a # as)"

text \<open>\<open>json_text bs vs\<close>: the bytes are a sequence of JSON texts, with the values \<open>vs\<close>.\<close>

definition json_text :: "byte list \<Rightarrow> jtree list \<Rightarrow> bool" where
  "json_text bs vs \<longleftrightarrow> list_all container vs \<and> json_lex lexeme bs (concat (map tokens_of vs))"

definition rfc_text :: "byte list \<Rightarrow> jtree list \<Rightarrow> bool" where
  "rfc_text bs vs \<longleftrightarrow> list_all container vs \<and> json_lex rfc_lexeme bs (concat (map tokens_of vs))"

section \<open>The two grammars\<close>

text \<open>A number whose exponent follows a single zero.\<close>

definition zero_exponent :: "byte list \<Rightarrow> bool" where
  "zero_exponent w \<longleftrightarrow> (\<exists>s c e. w = s @ 48 # c # e \<and> s \<in> {[], [45]} \<and> c \<in> {101, 69})"

lemma lexeme_rfc: "lexeme tt nt v w \<Longrightarrow> \<forall>c\<in>set w. 0x20 \<le> c \<Longrightarrow> rfc_lexeme tt nt v w"
  by (cases tt) (auto simp: lexeme_def rfc_lexeme_def json_number_def)

lemma rfc_lexeme_taken:
  assumes "rfc_lexeme tt nt v w" "tt = T_number \<Longrightarrow> \<not> zero_exponent v" shows "lexeme tt nt v w"
proof (cases "tt = T_number")
  case True
  then obtain s i f e where w: "w = s @ i @ f @ e" "number_parts s i f e" "nt = number_type f e" "v = w"
    using assms(1) by (auto simp: rfc_lexeme_def)
  have "\<not> (i = [48] \<and> f = [] \<and> e \<noteq> [])"
  proof
    assume a: "i = [48] \<and> f = [] \<and> e \<noteq> []"
    with w(2) obtain c e' where "e = c # e'" "c \<in> {101, 69}" by (auto simp: number_parts_def exp_part_def)
    with a w(1,2) have "zero_exponent w" unfolding zero_exponent_def number_parts_def by (intro exI [of _ s] exI [of _ c] exI [of _ e']) simp
    with assms(2) True w(4) show False by simp
  qed
  then have "json_number nt w" unfolding json_number_def using w by blast
  then show ?thesis using True w(4) by (simp add: lexeme_def)
next
  case False
  then show ?thesis using assms(1) by (cases tt) (auto simp: rfc_lexeme_def lexeme_def)
qed

lemma rfc_text_taken:
  assumes "rfc_text bs vs" "\<forall>nt v. (T_number, nt, v) \<in> set (concat (map tokens_of vs)) \<longrightarrow> \<not> zero_exponent v" shows "json_text bs vs"
proof -
  have "json_lex rfc_lexeme bs as \<Longrightarrow> \<forall>nt v. (T_number, nt, v) \<in> set as \<longrightarrow> \<not> zero_exponent v \<Longrightarrow> json_lex lexeme bs as" for as
    by (induction rule: json_lex.induct) (auto intro!: json_lex.intros rfc_lexeme_taken)
  with assms show ?thesis unfolding rfc_text_def json_text_def by blast
qed

lemma taken_text_rfc:
  assumes "json_text bs vs" "\<forall>c\<in>set bs. 0x20 \<le> c" shows "rfc_text bs vs"
proof -
  have "json_lex lexeme bs as \<Longrightarrow> \<forall>c\<in>set bs. 0x20 \<le> c \<Longrightarrow> json_lex rfc_lexeme bs as" for as
    by (induction rule: json_lex.induct) (auto intro!: json_lex.intros lexeme_rfc)
  with assms show ?thesis unfolding rfc_text_def json_text_def by blast
qed

section \<open>Tokens that end where they should\<close>

text \<open>
  In the tokens of arrays and objects a number or a literal stands before a structural token. So what may stand behind it is no part of the grammar of
  texts.
\<close>

definition bare :: "atok \<Rightarrow> bool" where
  "bare a \<longleftrightarrow> fst a \<in> {T_number, T_false, T_null, T_true}"

definition symbol :: "atok \<Rightarrow> bool" where
  "symbol a \<longleftrightarrow> fst a \<notin> {T_string, T_number, T_false, T_null, T_true}"

fun spaced :: "atok list \<Rightarrow> bool" where
  "spaced [] = True"
| "spaced (a # as) \<longleftrightarrow> (bare a \<longrightarrow> as = [] \<or> symbol (hd as)) \<and> spaced as"

lemma spaced_commas:
  assumes "\<And>x r. x \<in> set xs \<Longrightarrow> spaced r \<Longrightarrow> r = [] \<or> symbol (hd r) \<Longrightarrow> spaced (x @ r)" "spaced r" "r = [] \<or> symbol (hd r)"
  shows "spaced (commas xs @ r)"
  using assms(1)
proof (induction xs)
  case Nil
  then show ?case using assms(2) by simp
next
  case (Cons x xs)
  have "spaced (commas xs @ r)" using Cons by simp
  then have "spaced (tsym Value_separator # commas xs @ r)" by (simp add: bare_def)
  moreover have "symbol (tsym Value_separator)" by (simp add: symbol_def)
  ultimately show ?case using Cons.prems [of x "tsym Value_separator # commas xs @ r"] Cons.prems [of x r] assms(2,3)
    by (simp add: commas_Cons)
qed

lemma spaced_tokens: "spaced r \<Longrightarrow> r = [] \<or> symbol (hd r) \<or> container v \<Longrightarrow> spaced (tokens_of v @ r)"
proof (induction v arbitrary: r)
  case (Arr vs)
  have "spaced (tsym End_array # r)" "symbol (tsym End_array)" using Arr.prems by (simp_all add: bare_def symbol_def)
  then have "spaced (commas (map tokens_of vs) @ tsym End_array # r)"
    using Arr.IH by (intro spaced_commas) auto
  then show ?case by (simp add: tokens_of.simps bare_def)
next
  case (Obj ms)
  have e: "spaced (tsym End_object # r)" "symbol (tsym End_object)" using Obj.prems by (simp_all add: bare_def symbol_def)
  have "spaced (commas (map (\<lambda>(k, v). key_tok k # tsym Name_separator # tokens_of v) ms) @ tsym End_object # r)"
  proof (rule spaced_commas)
    fix x r' assume x: "x \<in> set (map (\<lambda>(k, v). key_tok k # tsym Name_separator # tokens_of v) ms)" and r': "spaced r'" "r' = [] \<or> symbol (hd r')"
    then obtain k v where kv: "(k, v) \<in> set ms" "x = key_tok k # tsym Name_separator # tokens_of v" by auto
    have "spaced (tokens_of v @ r')" using Obj.IH [OF kv(1), of v r'] r' by (auto simp: snds.simps)
    then show "spaced (x @ r')" by (simp add: kv(2) bare_def)
  qed (use e in auto)
  then show ?case by (simp add: tokens_of.simps bare_def)
qed (auto simp: bare_def)

lemma spaced_texts: "list_all container vs \<Longrightarrow> spaced (concat (map tokens_of vs))"
  by (induction vs) (simp_all add: spaced_tokens)

section \<open>The lexer\<close>

lemma symbol_text:
  assumes "lexeme tt nt v w" "symbol (tt, nt, v)" shows "w \<noteq> []" "token_end tt' nt' (w @ rest)"
  using assms by (cases tt; auto simp: lexeme_def symbol_def structural_text_def token_end_def number_end_def literal_end_def is_alnum_def is_alpha_def is_digit_def)+

lemma ws_token_end: "is_ws c \<Longrightarrow> token_end tt nt (c # w)"
  by (auto simp: is_ws_def token_end_def number_end_def literal_end_def is_alnum_def is_alpha_def is_digit_def)

lemma symbol_token_end:
  assumes "json_lex lexeme rest as" "as = [] \<or> symbol (hd as)" shows "token_end tt nt rest"
  using assms
proof cases
  case lex_end
  then show ?thesis
  proof (cases rest)
    case Nil
    then show ?thesis by (simp add: token_end_def number_end_def literal_end_def)
  qed (simp add: ws_token_end)
next
  case (lex_token ws tt' nt' v w rest' as')
  then show ?thesis
    using assms(2) symbol_text(2) [OF lex_token(4)] ws_token_end by (cases ws) auto
qed

lemma token_end_strings: "\<not> bare (tt, nt, v) \<Longrightarrow> token_end tt nt rest"
  by (auto simp: bare_def token_end_def)

lemma lex_gives:
  "json_lex lexeme bs as \<Longrightarrow> spaced as \<Longrightarrow> lx_in lx = bs
    \<Longrightarrow> \<exists>ts lx' t lx''. gives lx ts lx' \<and> next_tok lx' = Inr (False, t, lx'') \<and> map atok ts = as"
proof (induction arbitrary: lx rule: json_lex.induct)
  case (lex_end ws)
  then obtain t lx'' where "next_tok lx = Inr (False, t, lx'')" using next_end_iff [of new_token lx] by (auto simp: next_tok_def)
  then show ?case using gives_Nil by force
next
  case (lex_token ws tt nt v w rest as)
  have "token_end tt nt rest"
    using lex_token.prems(1) symbol_token_end [OF lex_token.hyps(3)] token_end_strings by (cases "bare (tt, nt, v)") auto
  from next_complete [OF lex_token.hyps(2) lex_token.prems(2) lex_token.hyps(1) this cleared_new(1), of True] obtain t lx1 where
    t: "next_tok lx = Inr (True, t, lx1)" "atok t = (tt, nt, v)" "lx_in lx1 = rest" unfolding next_tok_def atok_def by (metis)
  from lex_token.IH [OF _ t(3)] lex_token.prems(1) obtain ts lx' t' lx'' where
    "gives lx1 ts lx'" "next_tok lx' = Inr (False, t', lx'')" "map atok ts = as" by auto
  then show ?case using t by (intro exI [of _ "t # ts"]) (auto intro: gives_Cons)
qed

lemma gives_lex:
  "gives lx ts lx' \<Longrightarrow> next_tok lx' = Inr (False, t', lx'') \<Longrightarrow> json_lex lexeme (lx_in lx) (map atok ts)"
proof (induction rule: gives.induct)
  case (gives_Nil lx)
  then show ?case using next_end_iff [of new_token lx] by (auto simp: next_tok_def intro: lex_end)
next
  case (gives_Cons lx t lx1 ts lx2)
  from gives_Cons.hyps(1) [unfolded next_tok_def] cleared_new(1) obtain ws w where
    "list_all is_ws ws" "lexeme (tok_type t) (tok_numeric t) (tok_value t) w" "lexed (ws @ w) lx lx1" by (rule next_sound)
  with gives_Cons lexed_in [of "ws @ w" lx lx1] show ?case by (simp add: atok_def lex_token)
qed

text \<open>The lexer and the parser read a text as the grammar has it.\<close>

lemma json_text_iff:
  "json_text bs vs \<longleftrightarrow> (\<exists>ts lx t lx'. gives (new_lexer bs) ts lx \<and> next_tok lx = Inr (False, t, lx') \<and> json_texts True vs \<and> map atok ts = concat (map tokens_of vs))"
proof
  assume "json_text bs vs"
  then have c: "list_all container vs" "json_lex lexeme bs (concat (map tokens_of vs))" by (simp_all add: json_text_def)
  from lex_gives [OF c(2) spaced_texts [OF c(1)], of "new_lexer bs"] c(1)
  show "\<exists>ts lx t lx'. gives (new_lexer bs) ts lx \<and> next_tok lx = Inr (False, t, lx') \<and> json_texts True vs \<and> map atok ts = concat (map tokens_of vs)"
    by (auto simp: new_lexer_def json_texts_def)
next
  assume "\<exists>ts lx t lx'. gives (new_lexer bs) ts lx \<and> next_tok lx = Inr (False, t, lx') \<and> json_texts True vs \<and> map atok ts = concat (map tokens_of vs)"
  then show "json_text bs vs" using gives_lex [of "new_lexer bs"] by (fastforce simp: json_text_def json_texts_def new_lexer_def)
qed

end
