(* ===== verification/Json_Load.thy ===== *)
theory Json_Load
  imports Json_Loader Json_Text
begin

text \<open>
  What the loader makes of a JSON text: the items that it builds denote the values of the text, in order, and the exceptions it raises are those
  that a walk over the values predicts. The lemmas follow a value through the loop of the loader, from its first token to its last.
\<close>

section \<open>Values in the store\<close>

fun number_atom :: "number_value \<Rightarrow> atomic" where
  "number_atom (Integer_value i) = Integer_item (int_text i)"
| "number_atom (Decimal_value x) = Decimal_item x"
| "number_atom (Double_value x) = Double_item x"

fun atom_of :: "numbers \<Rightarrow> jtree \<Rightarrow> atomic option" where
  "atom_of nums (Str s) = Some (String_item s)"
| "atom_of nums (Num nt s) = map_option number_atom (number_of_text nums nt s)"
| "atom_of nums Lit_false = Some (Boolean_item False)"
| "atom_of nums Lit_true = Some (Boolean_item True)"
| "atom_of nums Lit_null = Some Null_item"
| "atom_of nums (Arr vs) = None"
| "atom_of nums (Obj ms) = None"

fun height :: "jtree \<Rightarrow> nat" where
  "height (Arr vs) = foldr (\<lambda>v n. max (Suc (height v)) n) vs 1"
| "height (Obj ms) = foldr (\<lambda>m n. max (Suc (height (snd m))) n) ms 1"
| "height _ = 0"

inductive denotes :: "numbers \<Rightarrow> (addr \<rightharpoonup> item) \<Rightarrow> addr \<Rightarrow> jtree \<Rightarrow> bool" for nums h where
  denotes_atom: "h a = Some (Atomic x) \<Longrightarrow> atom_of nums v = Some x \<Longrightarrow> denotes nums h a v"
| denotes_Arr: "h a = Some (JSON j) \<Longrightarrow> content_of j = Members ms \<Longrightarrow> theHeight j = height (Arr vs) \<Longrightarrow> length ms = length vs \<Longrightarrow>
    (\<And>i. i < length vs \<Longrightarrow> denotes nums h (ms ! i) (vs ! i)) \<Longrightarrow> denotes nums h a (Arr vs)"
| denotes_Obj: "h a = Some (JSON j) \<Longrightarrow> content_of j = Pairs ps ks \<Longrightarrow> theHeight j = height (Obj ms) \<Longrightarrow> length ps = length ms \<Longrightarrow> obj_ok (key_str h) ps ks \<Longrightarrow>
    (\<And>i. i < length ms \<Longrightarrow> h (fst (ps ! i)) = Some (Atomic (String_item (fst (ms ! i)))) \<and> denotes nums h (snd (ps ! i)) (snd (ms ! i))) \<Longrightarrow>
    denotes nums h a (Obj ms)"

definition grows :: "(addr \<rightharpoonup> item) \<Rightarrow> (addr \<rightharpoonup> item) \<Rightarrow> bool" where
  "grows h h' \<longleftrightarrow> (\<forall>a. h a \<noteq> None \<longrightarrow> map_option plain (h' a) = map_option plain (h a))"

lemma grows_refl [simp]: "grows h h"
  by (simp add: grows_def)

lemma grows_trans: "grows h h1 \<Longrightarrow> grows h1 h2 \<Longrightarrow> grows h h2"
  unfolding grows_def by (metis map_option_is_None)

lemma grows_others: "others_same r h h' \<Longrightarrow> h r = None \<Longrightarrow> grows h h'"
  unfolding others_same_def grows_def by metis

lemma grows_upd: "h r = None \<Longrightarrow> grows h (h(r \<mapsto> it))"
  by (auto simp: grows_def)

lemma growsD:
  assumes "grows h h'"
  shows "h a = Some (Atomic x) \<Longrightarrow> h' a = Some (Atomic x)"
    "h a = Some (JSON j) \<Longrightarrow> \<exists>k. h' a = Some (JSON k) \<and> content_of k = content_of j \<and> theHeight k = theHeight j"
    "h' a = None \<Longrightarrow> h a = None"
proof -
  have e: "h a \<noteq> None \<Longrightarrow> map_option plain (h' a) = map_option plain (h a)" using assms by (simp add: grows_def)
  show "h a = Some (Atomic x) \<Longrightarrow> h' a = Some (Atomic x)" using e by (cases "h' a") (auto simp: plain_def split: item.split_asm)
  show "h' a = None \<Longrightarrow> h a = None" using e by (cases "h a") auto
  assume j: "h a = Some (JSON j)"
  with e obtain it where it: "h' a = Some it" "plain it = plain (JSON j)" by auto
  then show "\<exists>k. h' a = Some (JSON k) \<and> content_of k = content_of j \<and> theHeight k = theHeight j"
    by (cases it) (auto simp: plain_def info_fields)
qed

lemma denotes_mono: "denotes nums h a v \<Longrightarrow> grows h h' \<Longrightarrow> denotes nums h' a v"
proof (induction rule: denotes.induct)
  case (denotes_atom a x v)
  from growsD(1) [OF this(3,1)] show ?case using denotes_atom(2) by (rule denotes.denotes_atom)
next
  case (denotes_Arr a j ms vs)
  then obtain k where k: "h' a = Some (JSON k)" "content_of k = content_of j" "theHeight k = theHeight j" using growsD(2) by blast
  show ?case by (rule denotes.denotes_Arr [where h = h' and a = a and j = k and ms = ms]) (use denotes_Arr k in simp_all)
next
  case (denotes_Obj a j ps ks ms)
  then obtain k where k: "h' a = Some (JSON k)" "content_of k = content_of j" "theHeight k = theHeight j" using growsD(2) by blast
  have kf: "\<forall>p \<in> set ps. \<exists>x. key_str h (fst p) = Some x \<and> key_str h' (fst p) = Some x"
  proof
    fix p assume "p \<in> set ps"
    then obtain i where "i < length ms" "p = ps ! i" using denotes_Obj.hyps(4) by (auto simp: in_set_conv_nth)
    then show "\<exists>x. key_str h (fst p) = Some x \<and> key_str h' (fst p) = Some x"
      using denotes_Obj.IH [of i] growsD(1) [OF denotes_Obj.prems] by (auto simp: key_str_def)
  qed
  have "key_pos (key_str h') ps x = key_pos (key_str h) ps x" for x using kf by (induction ps) auto
  then have "key_pos (key_str h') ps = key_pos (key_str h) ps" by blast
  moreover have "distinct (map (key_str h' \<circ> fst) ps) = distinct (map (key_str h \<circ> fst) ps)"
  proof -
    have "map (key_str h' \<circ> fst) ps = map (key_str h \<circ> fst) ps" using kf by auto
    then show ?thesis by presburger
  qed
  ultimately have "obj_ok (key_str h') ps ks" using denotes_Obj.hyps(5) kf by (auto simp: obj_ok_def keys_ok_def split: option.splits)
  then show ?case using denotes_Obj k growsD(1) [OF denotes_Obj.prems] by (intro denotes.denotes_Obj [where h = h' and a = a and j = k and ps = ps and ks = ks]) simp_all
qed

lemma denotes_apart: "denotes nums h a v \<Longrightarrow> h r = None \<Longrightarrow> apart h r a"
proof (induction rule: denotes.induct)
  case (denotes_atom a x v)
  then show ?case by (auto intro: apart_Atomic)
next
  case (denotes_Arr a j ms vs)
  show ?case by (rule apart_JSON [where h = h and a = a and j = j]) (use denotes_Arr in \<open>auto simp: in_set_conv_nth\<close>)
next
  case (denotes_Obj a j ps ks ms)
  show ?case by (rule apart_JSON [where h = h and a = a and j = j]) (use denotes_Obj in \<open>auto simp: in_set_conv_nth, metis snd_conv\<close>)
qed

lemma denotes_height: "denotes nums h a v \<Longrightarrow> hgt h a = height v"
proof (induction rule: denotes.induct)
  case (denotes_atom a x v)
  then show ?case by (cases v) (simp_all add: hgt_def)
qed (simp_all add: hgt_def)

lemma denotes_tall: "list_all2 (denotes nums h) ms vs \<Longrightarrow> tall h ms = height (Arr vs)"
  by (induction rule: list_all2_induct) (simp_all add: tall_def denotes_height)

section \<open>Making items\<close>

lemma new_item_run:
  assumes "store_inv s" "arena s \<noteq> []"
  obtains a s' where "new_item it s = (Inr a, s')" "items s a = None" "items s' = (items s)(a \<mapsto> it)" "arena s' = tl (arena s)" "store_inv s'"
proof -
  obtain a as where a: "arena s = a # as" using assms(2) by (cases "arena s") auto
  define s' where "s' = s\<lparr>arena := as, items := (items s)(a \<mapsto> it)\<rparr>"
  have n: "new_item it s = (Inr a, s')" by (simp add: new_item_def a s'_def)
  moreover have "items s a = None" using assms(1) a by (auto simp: store_inv_def)
  moreover have "store_inv s'" using keeps_inv [OF keeps_new assms(1) n] .
  ultimately show thesis using that a by (simp add: s'_def)
qed

definition ready_value :: "(addr \<rightharpoonup> item) \<Rightarrow> addr \<Rightarrow> bool" where
  "ready_value h v \<longleftrightarrow> (\<forall>r. h r = None \<longrightarrow> apart h r v) \<and> hgt h v < MAX_DEPTH"

lemma ready_fits: "ready_value h v \<Longrightarrow> h r = None \<Longrightarrow> fits h r v \<and> fits (h(r \<mapsto> it)) r v"
  using fits_same [of r h "h(r \<mapsto> it)"] by (simp add: ready_value_def fits_def)

definition add_member :: "addr \<Rightarrow> nat \<times> addr \<Rightarrow> unit store_op" where
  "add_member r = (\<lambda>(i, x). seqS (pass_info r x True) (insert_member r (0 + of_nat i) x))"

lemma members_loop:
  "state_at h r j s \<Longrightarrow> content_of j = Members ms \<Longrightarrow> \<forall>x \<in> set xs. fits h r x \<Longrightarrow> length ms + length xs < 2 ^ 64 \<Longrightarrow>
    \<exists>s'. forS (List.enumerate (length ms) xs) (add_member r) s = (Inr (), s')
      \<and> state_at h r (j\<lparr>content_of := Members (ms @ xs)\<rparr>) s' \<and> arena s' = arena s"
proof (induction xs arbitrary: s j ms)
  case Nil
  then have e: "j\<lparr>content_of := Members ms\<rparr> = j" by (cases j) simp
  show ?case unfolding append_Nil2 e using Nil.prems(1) by simp
next
  case (Cons x xs)
  obtain s1 where s1: "pass_info r x True s = (Inr (), s1)" "state_at h r j s1" "arena s1 = arena s" using step_info [OF Cons.prems(1)] Cons.prems(3) by force
  let ?j = "j\<lparr>content_of := Members (ms @ [x])\<rparr>"
  obtain s2 where s2: "set_members r (ms @ [x]) s1 = (Inr (), s2)" "state_at h r ?j s2" "arena s2 = arena s1"
    using step_modify [OF s1(2), of "\<lambda>j. j\<lparr>content_of := Members (ms @ [x])\<rparr>"] unfolding set_members_def by blast
  have "unat (of_nat (length ms) :: u64) = length ms" using Cons.prems(4) by (simp add: unat_of_nat take_bit_nat_eq_self)
  then have i: "insert_member r (0 + of_nat (length ms)) x s1 = (Inr (), s2)" using state_members [OF s1(2) Cons.prems(2)] s2(1)
    by (simp add: insert_member_def bindS_def insert_at_def)
  have "\<exists>s'. forS (List.enumerate (length (ms @ [x])) xs) (add_member r) s2 = (Inr (), s')
      \<and> state_at h r (?j\<lparr>content_of := Members ((ms @ [x]) @ xs)\<rparr>) s' \<and> arena s' = arena s2"
    by (rule Cons.IH [OF s2(2)]) (use Cons.prems(3,4) in simp_all)
  moreover have "forS (List.enumerate (length ms) (x # xs)) (add_member r) s = forS (List.enumerate (length (ms @ [x])) xs) (add_member r) s2"
    using s1(1) i seqS_run [of "add_member r (length ms, x)" s s2] by (simp add: add_member_def seqS_run)
  ultimately show ?case using s1(3) s2(3) by simp
qed

lemma createJSONArray_run:
  assumes s: "store_inv s" "arena s \<noteq> []" and xs: "\<forall>x \<in> set xs. ready_value (items s) x" and len: "length xs < 2 ^ 64"
  obtains a j s' where "createJSONArray xs s = (Inr a, s')" "items s a = None" "others_same a (items s) (items s')" "items s' a = Some (JSON j)"
    "content_of j = Members xs" "theHeight j = tall (items s) xs" "arena s' = tl (arena s)" "store_inv s'"
proof -
  let ?j = "\<lparr>theCollectionInfo = None, theHeight = 1, content_of = Members []\<rparr>"
  obtain a s1 where s1: "new_item (JSON ?j) s = (Inr a, s1)" "items s a = None" "items s1 = (items s)(a \<mapsto> JSON ?j)" "arena s1 = tl (arena s)" "store_inv s1"
    using s by (rule new_item_run)
  let ?h = "items s1"
  have st: "state_at ?h a ?j s1" by (simp add: state_at_def s1(3))
  have f: "\<forall>x \<in> set xs. fits ?h a x" using xs ready_fits s1(2,3) by auto
  from s1(5) st obtain s2 where s2: "contentWillChange a s1 = (Inr (), s2)" "store_inv s2" "state_at ?h a ?j s2" "arena s2 = arena s1" by (rule step_willChange)
  from s2(2,3) obtain s3 where s3: "contentWillChange a s2 = (Inr (), s3)" "store_inv s3" "state_at ?h a ?j s3" "arena s3 = arena s2" by (rule step_willChange)
  define s4 where "s4 = s3\<lparr>items := (items s3)(a \<mapsto> JSON (?j\<lparr>theHeight := max (tall (items s3) xs) 1\<rparr>))\<rparr>"
  have f3: "v \<noteq> a \<and> items s3 v \<noteq> None \<and> hgt (items s3) v < MAX_DEPTH" if "v \<in> set xs" for v
    using f that state_at_fits [OF s3(3), of v] fitsD [of "items s3" a v] by blast
  have "items s3 a = Some (JSON ?j)" using s3(3) by (simp add: state_at_def)
  from heights_run [OF this f3] have fr: "forS xs (addHeightOf a) s3 = (Inr (), s4)" by (simp add: s4_def)
  have "max (tall (items s3) xs) 1 = tall (items s) xs"
    using state_at_tall [OF s3(3)] fits_notin [OF f] tall_upd [of a xs "items s"] tall_ge [of "items s" xs] s1(3) by (simp add: max_def)
  then have st4: "state_at ?h a (?j\<lparr>theHeight := tall (items s) xs\<rparr>) s4" using s3(3) others_same_trans [of a ?h "items s3"] by (simp add: s4_def state_at_def)
  obtain s5 where s5: "forS (List.enumerate 0 xs) (add_member a) s4 = (Inr (), s5)"
    "state_at ?h a (?j\<lparr>theHeight := tall (items s) xs\<rparr>\<lparr>content_of := Members xs\<rparr>) s5" "arena s5 = arena s4"
    using members_loop [OF st4, of "[]" xs] f len by auto
  have m: "members_at a s2 = (Inr [], s2)" using state_members [OF s2(3)] by simp
  have run: "createJSONArray xs s = (Inr a, s5)"
    using s1(1) s2(1) s3(1) fr s5(1) m 
    by (simp add: createJSONArray_def new_json_def bindS_def seqS_def array_push_back_all_def array_add_def add_member_def)
  moreover have "others_same a (items s) (items s5)" using s5(2) others_same_trans [of a "items s" ?h] s1(3) by (simp add: state_at_def)
  ultimately show thesis using that [OF run s1(2)] s5 s4_def s3(4) s2(4) s1(4) keeps_inv [OF keeps_factory(2) s(1) run] by (simp add: state_at_def)
qed

fun first_dup :: "byte list list \<Rightarrow> byte list list \<Rightarrow> byte list option" where
  "first_dup seen [] = None"
| "first_dup seen (k # ks) = (if k \<in> set seen then Some k else first_dup (seen @ [k]) ks)"

definition add_pair :: "addr \<Rightarrow> addr \<times> addr \<Rightarrow> unit store_op" where
  "add_pair r = (\<lambda>(n, v). bindS (object_add r n v False) (\<lambda>added. if added then returnS () else bindS (keyString n) (\<lambda>k. throwS (Duplicate_key k))))"

lemma pairs_loop:
  "obj s r ps ks \<Longrightarrow> \<forall>m \<in> set ms. key_str (items s) (fst m) \<noteq> None \<and> fits (items s) r (snd m) \<Longrightarrow> g = (\<lambda>m. the (key_str (items s) (fst m))) \<Longrightarrow>
    case first_dup (map (g) ps) (map (g) ms) of
      Some k \<Rightarrow> \<exists>s'. forS ms (add_pair r) s = (Inl (Duplicate_key k), s') \<and> others_same r (items s) (items s')
    | None \<Rightarrow> \<exists>s' ks'. forS ms (add_pair r) s = (Inr (), s') \<and> obj s' r (ps @ ms) ks' \<and> others_same r (items s) (items s') \<and> arena s' = arena s"
proof (induction ms arbitrary: s ps ks)
  case Nil
  then show ?case by auto
next
  case (Cons m ms)
  let ?kf = "key_str (items s)"
  obtain n v where m: "m = (n, v)" by (cases m)
  obtain k where k: "?kf n = Some k" using Cons.prems(2) m by auto
  then have gm: "g m = k" by (simp add: Cons.prems(3) m)
  have "\<forall>p \<in> set ps. ?kf (fst p) \<noteq> None" using Cons.prems(1) by (simp add: obj_def obj_ok_def keys_ok_def)
  then have "\<forall>p \<in> set ps. ?kf (fst p) = Some k \<longleftrightarrow> g p = k" using Cons.prems(3) by auto
  then have kp: "key_pos ?kf ps k = None \<longleftrightarrow> k \<notin> set (map g ps)" unfolding key_pos_None by auto
  show ?case
  proof (cases "key_pos ?kf ps k")
    case None
    obtain s1 ks1 where s1: "object_add r n v False s = (Inr True, s1)" "obj s1 r (ps @ [m]) ks1" "others_same r (items s) (items s1)" "arena s1 = arena s"
      using object_add_new [OF Cons.prems(1) k, of v False] None Cons.prems(2,3) m by auto
    have kf1: "key_str (items s1) = ?kf" using key_str_same [OF s1(3)] Cons.prems(1) s1(2) by (auto simp: obj_def holds_def)
    have ms: "\<forall>m \<in> set ms. key_str (items s1) (fst m) \<noteq> None \<and> fits (items s1) r (snd m)" using Cons.prems(2) kf1 fits_same [OF s1(3)] by simp
    have step: "forS (m # ms) (add_pair r) s = forS ms (add_pair r) s1" using s1(1) m by (simp add: add_pair_def seqS_def bindS_def)
    have d: "first_dup (map g ps) (map g (m # ms)) = first_dup (map g (ps @ [m])) (map g ms)" using None kp gm by simp
    have "g = (\<lambda>m. the (key_str (items s1) (fst m)))" using Cons.prems(3) kf1 by simp
    note IH = Cons.IH [OF s1(2) ms this]
    show ?thesis
    proof (cases "first_dup (map g (ps @ [m])) (map g ms)")
      case None
      then show ?thesis using IH others_same_trans [OF s1(3)] s1(4) unfolding step d by auto
    next
      case (Some x)
      then show ?thesis using IH others_same_trans [OF s1(3)] unfolding step d by auto
    qed
  next
    case (Some l)
    obtain s1 where s1: "object_add r n v False s = (Inr False, s1)" "obj s1 r ps ks" "others_same r (items s) (items s1)"
      using object_unchanged(1) [OF Cons.prems(1) k, of v] Some by auto
    have "key_str (items s1) = ?kf" using key_str_same [OF s1(3)] Cons.prems(1) s1(2) by (auto simp: obj_def holds_def)
    then have "forS (m # ms) (add_pair r) s = (Inl (Duplicate_key k), s1)" using s1(1) m k keyString_run [of s1 n k] by (simp add: add_pair_def seqS_def bindS_def)
    moreover have "first_dup (map g ps) (map g (m # ms)) = Some k" using Some kp gm by simp
    ultimately show ?thesis using s1(3) by simp
  qed
qed


lemma createJSONObject_run:
  assumes s: "store_inv s" "arena s \<noteq> []" and len: "length names = length vals"
    and n: "\<forall>n \<in> set names. key_str (items s) n \<noteq> None" and v: "\<forall>v \<in> set vals. ready_value (items s) v"
  shows "case first_dup [] (map (the \<circ> key_str (items s)) names) of
      Some k \<Rightarrow> \<exists>s'. createJSONObject names vals s = (Inl (Duplicate_key k), s') \<and> grows (items s) (items s')
    | None \<Rightarrow> \<exists>a j ks s'. createJSONObject names vals s = (Inr a, s') \<and> items s a = None \<and> others_same a (items s) (items s') \<and> items s' a = Some (JSON j)
      \<and> content_of j = Pairs (zip names vals) ks \<and> theHeight j = tall (items s) vals \<and> arena s' = tl (arena s) \<and> store_inv s'
      \<and> obj_ok (key_str (items s')) (zip names vals) ks"
proof -
  let ?j = "\<lparr>theCollectionInfo = None, theHeight = 1, content_of = Pairs [] None\<rparr>"
  obtain a s1 where s1: "new_item (JSON ?j) s = (Inr a, s1)" "items s a = None" "items s1 = (items s)(a \<mapsto> JSON ?j)" "arena s1 = tl (arena s)" "store_inv s1"
    using s by (rule new_item_run)
  let ?h = "items s1" and ?ms = "zip names vals"
  have "obj s1 a [] None" using s1(3,5) by (simp add: obj_def holds_def tall_def obj_ok_def keys_ok_def)
  have kf: "key_str ?h = key_str (items s)" using s1(2,3) by (auto simp: key_str_def)
  have f: "fits ?h a v" if "v \<in> set vals" for v using v ready_fits s1(2,3) that by auto
  define g where "g = (\<lambda>m :: addr \<times> addr. the (key_str ?h (fst m)))"
  have g: "map (the \<circ> key_str (items s)) names = map g ?ms" using len kf by (auto simp: g_def comp_def intro!: nth_equalityI)
  have ms: "\<forall>m \<in> set ?ms. key_str ?h (fst m) \<noteq> None \<and> fits ?h a (snd m)" using n f kf by (auto dest: set_zip_leftD set_zip_rightD)
  note loop = pairs_loop [OF \<open>obj s1 a [] None\<close> ms g_def, simplified]
  have run: "createJSONObject names vals s = bindS (forS ?ms (add_pair a)) (\<lambda>_. returnS a) s1"
    using s1(1) by (simp add: createJSONObject_def new_json_def bindS_def seqS_def add_pair_def)
  show ?thesis
  proof (cases "first_dup [] (map g ?ms)")
    case (Some k)
    then obtain s' where s': "forS ?ms (add_pair a) s1 = (Inl (Duplicate_key k), s')" "others_same a ?h (items s')" using loop by auto
    have "others_same a (items s) (items s')" using s'(2) others_same_trans [of a "items s" ?h] s1(3) by simp
    from grows_others [OF this s1(2)] show ?thesis using Some run s'(1) unfolding g by (auto simp: bindS_def)
  next
    case None
    then obtain s' ks where s': "forS ?ms (add_pair a) s1 = (Inr (), s')" "obj s' a ?ms ks" "others_same a ?h (items s')" "arena s' = arena s1" using loop by auto
    from s'(2) obtain j where j: "state_at (items s') a j s'" "content_of j = Pairs ?ms ks" "theHeight j = tall (items s') (map snd ?ms)" "store_inv s'" "obj_ok (key_str (items s')) ?ms ks"
      by (rule obj_state)
    have os: "others_same a (items s) (items s')" using s'(3) others_same_trans [of a "items s" ?h] s1(3) by simp
    have "a \<notin> set vals" using f fitsD by blast
    then have "tall (items s') vals = tall (items s) vals" using tall_same [OF os] by blast
    moreover have "createJSONObject names vals s = (Inr a, s')" using run s'(1) by (simp add: bindS_def)
    ultimately show ?thesis using None j os s1(2,4) s'(4) len unfolding g by (auto simp: state_at_def)
  qed
qed

lemma equals_any_run:
  assumes "\<forall>x \<in> set xs. kf x \<noteq> None" "kf k = Some c" "kf = key_str (items s)"
  shows "equals_any xs k s = (Inr (c \<in> set (map (\<lambda>x. the (kf x)) xs)), s)"
  using assms(1)
proof (induction xs)
  case (Cons x xs)
  obtain b where "kf x = Some b" using Cons.prems by auto
  then show ?case using Cons assms(2,3) keyString_run [of s x b] keyString_run [of s k c] by (auto simp: bindS_def)
qed simp

lemma duplicates_run:
  assumes kf: "kf = key_str (items s)"
  shows "\<forall>x \<in> set earlier. kf x \<noteq> None \<Longrightarrow> \<forall>x \<in> set ks. kf x \<noteq> None \<Longrightarrow>
      duplicates_linear earlier ks s = (case first_dup (map (\<lambda>x. the (kf x)) earlier) (map (\<lambda>x. the (kf x)) ks) of None \<Rightarrow> Inr () | Some k \<Rightarrow> Inl (Duplicate_key k), s)"
    "\<forall>x \<in> set ks. kf x \<noteq> None \<Longrightarrow>
      duplicates_seen (set seen) ks s = (case first_dup seen (map (\<lambda>x. the (kf x)) ks) of None \<Rightarrow> Inr () | Some k \<Rightarrow> Inl (Duplicate_key k), s)"
proof -
  have raise: "kf k = Some c \<Longrightarrow> raise_duplicate k s = (Inl (Duplicate_key c), s)" for k c
    using keyString_run [of s k c] kf by (simp add: raise_duplicate_def bindS_def)
  show "\<forall>x \<in> set earlier. kf x \<noteq> None \<Longrightarrow> \<forall>x \<in> set ks. kf x \<noteq> None \<Longrightarrow>
      duplicates_linear earlier ks s = (case first_dup (map (\<lambda>x. the (kf x)) earlier) (map (\<lambda>x. the (kf x)) ks) of None \<Rightarrow> Inr () | Some k \<Rightarrow> Inl (Duplicate_key k), s)"
  proof (induction ks arbitrary: earlier)
    case (Cons k ks)
    obtain c where c: "kf k = Some c" using Cons.prems by auto
    then show ?case using Cons equals_any_run [OF Cons.prems(1) c kf] raise [OF c] by (simp add: bindS_def)
  qed simp
  show "\<forall>x \<in> set ks. kf x \<noteq> None \<Longrightarrow>
      duplicates_seen (set seen) ks s = (case first_dup seen (map (\<lambda>x. the (kf x)) ks) of None \<Rightarrow> Inr () | Some k \<Rightarrow> Inl (Duplicate_key k), s)"
  proof (induction ks arbitrary: seen)
    case (Cons k ks)
    obtain c where c: "kf k = Some c" using Cons.prems by auto
    then show ?case using Cons.IH [of "seen @ [c]"] Cons.prems raise [OF c] keyString_run [of s k c] kf by (simp add: bindS_def)
  qed simp
qed

lemma check_duplicate_keys_run:
  assumes "\<forall>k \<in> set ks. key_str (items s) k \<noteq> None"
  shows "check_duplicate_keys ks s = (case first_dup [] (map (the \<circ> key_str (items s)) ks) of None \<Rightarrow> Inr () | Some k \<Rightarrow> Inl (Duplicate_key k), s)"
  using duplicates_run(1) [OF refl, of "[]" s ks] duplicates_run(2) [OF refl, of ks s "[]"] assms
  by (simp add: check_duplicate_keys_def comp_def)

section \<open>What is wrong with a value\<close>

datatype load_fault = F_depth | F_range "byte list" | F_duplicate "byte list" | F_extra

fun first_some :: "'a option list \<Rightarrow> 'a option" where
  "first_some [] = None"
| "first_some (Some x # xs) = Some x"
| "first_some (None # xs) = first_some xs"

text \<open>The first fault in the order of the text, of a value at the given depth.\<close>

fun fault :: "numbers \<Rightarrow> nat \<Rightarrow> jtree \<Rightarrow> load_fault option" where
  "fault nums d (Arr vs) = (if MAX_DEPTH \<le> d then Some F_depth else first_some (map (fault nums (Suc d)) vs))"
| "fault nums d (Obj ms) = (if MAX_DEPTH \<le> d then Some F_depth
    else case first_some (map (\<lambda>m. fault nums (Suc d) (snd m)) ms) of Some f \<Rightarrow> Some f | None \<Rightarrow> map_option F_duplicate (first_dup [] (map fst ms)))"
| "fault nums d (Num nt v) = (if number_of_text nums nt v = None then Some (F_range v) else None)"
| "fault nums d _ = None"

fun fault_of :: "load_err \<Rightarrow> load_fault option" where
  "fault_of (Too_deep _) = Some F_depth"
| "fault_of (Number_range v _) = Some (F_range v)"
| "fault_of (Raised (Duplicate_key k)) = Some (F_duplicate k)"
| "fault_of (JNDY0021 None) = Some F_extra"
| "fault_of _ = None"

lemma first_some_None: "first_some xs = None \<longleftrightarrow> (\<forall>x \<in> set xs. x = None)"
  by (induction xs rule: first_some.induct) auto

lemma foldr_max_le: "foldr (\<lambda>x n. max (f x) n) xs (1 :: nat) \<le> k \<longleftrightarrow> 1 \<le> k \<and> (\<forall>x \<in> set xs. f x \<le> k)"
  by (induction xs) auto

lemma fault_height: "fault nums d v = None \<Longrightarrow> d \<le> MAX_DEPTH \<Longrightarrow> d + height v \<le> MAX_DEPTH"
proof (induction v arbitrary: d)
  case (Arr vs)
  then have d: "d < MAX_DEPTH" "\<forall>v \<in> set vs. fault nums (Suc d) v = None" by (auto simp: first_some_None split: if_splits)
  have "height (Arr vs) \<le> MAX_DEPTH - d" unfolding height.simps foldr_max_le
  proof (intro conjI ballI)
    fix v assume "v \<in> set vs"
    then show "Suc (height v) \<le> MAX_DEPTH - d" using Arr.IH [of v "Suc d"] d by fastforce
  qed (use d in simp)
  then show ?case using d(1) by linarith
next
  case (Obj ms)
  then have d: "d < MAX_DEPTH" "\<forall>m \<in> set ms. fault nums (Suc d) (snd m) = None" by (auto simp: first_some_None split: if_splits option.splits)
  have "height (Obj ms) \<le> MAX_DEPTH - d" unfolding height.simps foldr_max_le
  proof (intro conjI ballI)
    fix m assume "m \<in> set ms"
    then have "Suc d + height (snd m) \<le> MAX_DEPTH" using Obj.IH [of m "snd m" "Suc d"] d by (simp add: snds.intros)
    then show "Suc (height (snd m)) \<le> MAX_DEPTH - d" by linarith
  qed (use d in simp)
  then show ?case using d(1) by linarith
qed simp_all

text \<open>The number of items that may have to be made for a value.\<close>

fun need :: "jtree \<Rightarrow> nat" where
  "need (Arr vs) = Suc (sum_list (map need vs))"
| "need (Obj ms) = Suc (sum_list (map (\<lambda>m. Suc (need (snd m))) ms))"
| "need _ = 1"

section \<open>The state of the loader\<close>

definition factory_ok :: "factory \<Rightarrow> (addr \<rightharpoonup> item) \<Rightarrow> bool" where
  "factory_ok fac h \<longleftrightarrow> h (theTrueItem fac) = Some (Atomic (Boolean_item True)) \<and> h (theFalseItem fac) = Some (Atomic (Boolean_item False))
    \<and> h (theNullItem fac) = Some (Atomic Null_item) \<and> length (theSmallIntegers fac) = nat (SMALL_INTEGER_MAX - SMALL_INTEGER_MIN + 1)
    \<and> (\<forall>i < length (theSmallIntegers fac). h (theSmallIntegers fac ! i) = Some (Atomic (Integer_item (int_text (int i + SMALL_INTEGER_MIN)))))"

definition load_inv :: "factory \<Rightarrow> (byte list \<times> addr) list \<Rightarrow> json_store \<Rightarrow> bool" where
  "load_inv fac keys s \<longleftrightarrow> store_inv s \<and> factory_ok fac (items s) \<and> (\<forall>k a. (k, a) \<in> set keys \<longrightarrow> items s a = Some (Atomic (String_item k)))"

definition moved :: "nat \<Rightarrow> json_store \<Rightarrow> json_store \<Rightarrow> bool" where
  "moved n s s' \<longleftrightarrow> grows (items s) (items s') \<and> length (arena s) \<le> length (arena s') + n"

lemma moved_refl [simp]: "moved n s s"
  by (simp add: moved_def)

lemma moved_trans: "moved m s s1 \<Longrightarrow> moved n s1 s2 \<Longrightarrow> moved (m + n) s s2"
  by (auto simp: moved_def intro: grows_trans)

lemma load_inv_grows: "load_inv fac keys s \<Longrightarrow> grows (items s) (items s') \<Longrightarrow> store_inv s' \<Longrightarrow> load_inv fac keys s'"
  using growsD(1) by (fastforce simp: load_inv_def factory_ok_def)

text \<open>\<open>hands p as p'\<close>: the parser hands out the tokens \<open>as\<close>, whatever token it is given to fill.\<close>

fun hands :: "parser \<Rightarrow> atok list \<Rightarrow> parser \<Rightarrow> bool" where
  "hands p [] p' \<longleftrightarrow> p' = p"
| "hands p (a # as) p' \<longleftrightarrow> (\<exists>t p1. (\<forall>t0. parser_next t0 p = Inr (True, t, p1)) \<and> atok t = a \<and> (tok_type t = T_number \<longrightarrow> tok_numeric t \<noteq> Non_numeric) \<and> hands p1 as p')"

lemma hands_append: "hands p (as @ bs) p' \<longleftrightarrow> (\<exists>q. hands p as q \<and> hands q bs p')"
  by (induction as arbitrary: p) auto

text \<open>What the loop does after the switch.\<close>

definition finish :: "numbers \<Rightarrow> factory \<Rightarrow> token \<Rightarrow> addr option \<Rightarrow> loader \<Rightarrow> (addr option option \<times> loader) load_op" where
  "finish nums fac t item ld s =
    (if ld_stack ld = [] then (Inr (Some item, if check_only ld then ld\<lparr>last_value_was_array := False\<rparr> else ld), s)
     else (case add_value item ld of Inl e \<Rightarrow> (Inl e, s) | Inr ld \<Rightarrow> loader_loop nums fac t item ld s))"

lemma loop_token:
  assumes "\<forall>t0. parser_next t0 (ld_parser ld) = Inr (True, t1, p)"
  shows "load_token nums fac t1 item (ld\<lparr>ld_parser := p\<rparr>) s = (Inl e, s1) \<Longrightarrow> loader_loop nums fac t item ld s = (Inl e, s1)"
    "load_token nums fac t1 item (ld\<lparr>ld_parser := p\<rparr>) s = (Inr (Next ld1), s1) \<Longrightarrow> loader_loop nums fac t item ld s = loader_loop nums fac t1 item ld1 s1"
    "load_token nums fac t1 item (ld\<lparr>ld_parser := p\<rparr>) s = (Inr (Item i ld1), s1) \<Longrightarrow> loader_loop nums fac t item ld s = finish nums fac t1 i ld1 s1"
    "load_token nums fac t1 item (ld\<lparr>ld_parser := p\<rparr>) s = (Inr (End_of_array ld1), s1) \<Longrightarrow> loader_loop nums fac t item ld s = (Inr (Some None, ld1), s1)"
  using assms by (simp_all add: loader_loop.simps [of nums fac t] finish_def)

section \<open>Loading a value\<close>

definition makes :: "factory \<Rightarrow> (byte list \<times> addr) list \<Rightarrow> atomic \<Rightarrow> addr store_op \<Rightarrow> json_store \<Rightarrow> bool" where
  "makes fac keys x m s \<longleftrightarrow> (\<exists>a s'. m s = (Inr a, s') \<and> items s' a = Some (Atomic x) \<and> load_inv fac keys s' \<and> moved 1 s s')"

lemma makes_new:
  assumes "load_inv fac keys s" "arena s \<noteq> []" shows "makes fac keys x (new_item (Atomic x)) s"
proof -
  have "store_inv s" using assms(1) by (simp add: load_inv_def)
  from this assms(2) obtain a s' where a: "new_item (Atomic x) s = (Inr a, s')" "items s a = None" "items s' = (items s)(a \<mapsto> Atomic x)"
    "arena s' = tl (arena s)" "store_inv s'" by (rule new_item_run)
  have g: "grows (items s) (items s')" using grows_upd [of "items s" a "Atomic x", OF a(2)] a(3) by simp
  with load_inv_grows [OF assms(1) g a(5)] show ?thesis unfolding makes_def using a(1,3,4) by (auto simp: moved_def)
qed

lemma makes_shared:
  assumes "load_inv fac keys s" "items s a = Some (Atomic x)" shows "makes fac keys x (returnS a) s"
  using assms by (auto simp: makes_def)

lemma makes_number:
  assumes "load_inv fac keys s" "arena s \<noteq> []" shows "makes fac keys (number_atom n) (create_number fac n) s"
proof (cases n)
  case (Integer_value i)
  show ?thesis
  proof (cases "SMALL_INTEGER_MIN \<le> i \<and> i \<le> SMALL_INTEGER_MAX")
    case True
    let ?n = "nat (i - SMALL_INTEGER_MIN)"
    have f: "factory_ok fac (items s)" using assms(1) by (simp add: load_inv_def)
    then have n: "?n < length (theSmallIntegers fac)" using True by (simp add: factory_ok_def nat_less_eq_zless)
    then have "items s (theSmallIntegers fac ! ?n) = Some (Atomic (Integer_item (int_text (int ?n + SMALL_INTEGER_MIN))))" using f by (simp add: factory_ok_def)
    moreover have "int ?n + SMALL_INTEGER_MIN = i" using True by simp
    ultimately have "makes fac keys (Integer_item (int_text i)) (returnS (theSmallIntegers fac ! ?n)) s" using makes_shared [OF assms(1)] by simp
    then show ?thesis using True n Integer_value by (simp add: create_number_def createInteger_def Let_def)
  next
    case False
    then show ?thesis using makes_new [OF assms] Integer_value by (auto simp: create_number_def createInteger_def)
  qed
qed (use makes_new [OF assms] in \<open>simp_all add: create_number_def createDecimal_def createDouble_def\<close>)

definition value_pos :: "loader \<Rightarrow> jtree \<Rightarrow> bool" where
  "value_pos ld v \<longleftrightarrow> (case ld_stack ld of
      [] \<Rightarrow> (case v of Arr _ \<Rightarrow> (unbox_top_level_arrays ld \<longrightarrow> in_top_level_array ld) \<and> (strip_top_level_array ld \<longrightarrow> stripped_top_level_array ld) | _ \<Rightarrow> True)
    | Array_elem _ # _ \<Rightarrow> True
    | Key_elem _ # Object_elem _ _ # _ \<Rightarrow> True
    | _ \<Rightarrow> False)"

definition loaded :: "numbers \<Rightarrow> factory \<Rightarrow> token \<Rightarrow> addr option \<Rightarrow> loader \<Rightarrow> json_store \<Rightarrow> parser \<Rightarrow> jtree \<Rightarrow> bool" where
  "loaded nums fac t item ld s p' v \<longleftrightarrow> (case fault nums (unat (depth ld)) v of
      Some f \<Rightarrow> \<exists>e s'. loader_loop nums fac t item ld s = (Inl e, s') \<and> fault_of e = Some f \<and> grows (items s) (items s')
    | None \<Rightarrow> \<exists>t' item' ks s'. loader_loop nums fac t item ld s = finish nums fac t' item' (ld\<lparr>ld_parser := p', ld_keys := ks\<rparr>) s'
        \<and> load_inv fac ks s' \<and> moved (need v) s s' \<and> (\<not> check_only ld \<longrightarrow> (\<exists>a. item' = Some a \<and> denotes nums (items s') a v)))"

definition loads :: "numbers \<Rightarrow> factory \<Rightarrow> jtree \<Rightarrow> bool" where
  "loads nums fac v \<longleftrightarrow> (\<forall>t item ld s p'. hands (ld_parser ld) (tokens_of v) p' \<longrightarrow> value_pos ld v \<longrightarrow> unat (depth ld) \<le> MAX_DEPTH \<longrightarrow>
    load_inv fac (ld_keys ld) s \<longrightarrow> need v \<le> length (arena s) \<longrightarrow> length (tokens_of v) < 2 ^ 64 \<longrightarrow> loaded nums fac t item ld s p' v)"

text \<open>Scalar values: the token makes the item, or nothing is made.\<close>

lemma loaded_scalar:
  assumes p: "\<forall>t0. parser_next t0 (ld_parser ld) = Inr (True, t1, p')"
    and run: "load_token nums fac t1 item (ld\<lparr>ld_parser := p'\<rparr>) = load_shared m item (ld\<lparr>ld_parser := p'\<rparr>)"
    and m: "makes fac (ld_keys ld) x m s" and v: "atom_of nums v = Some x" "fault nums (unat (depth ld)) v = None" "need v = 1" and inv: "load_inv fac (ld_keys ld) s"
  shows "loaded nums fac t item ld s p' v"
proof (cases "check_only ld")
  case True
  then have "load_token nums fac t1 item (ld\<lparr>ld_parser := p'\<rparr>) s = (Inr (Item item (ld\<lparr>ld_parser := p'\<rparr>)), s)" using run by (simp add: load_shared_def)
  from loop_token(3) [OF p this] have "loader_loop nums fac t item ld s = finish nums fac t1 item (ld\<lparr>ld_parser := p', ld_keys := ld_keys ld\<rparr>) s" by simp
  then show ?thesis unfolding loaded_def v(2) using True inv by (auto intro!: exI)
next
  case False
  from m obtain a s' where a: "m s = (Inr a, s')" "items s' a = Some (Atomic x)" "load_inv fac (ld_keys ld) s'" "moved 1 s s'" by (auto simp: makes_def)
  have "load_token nums fac t1 item (ld\<lparr>ld_parser := p'\<rparr>) s = (Inr (Item (Some a) (ld\<lparr>ld_parser := p'\<rparr>)), s')"
    using run False a(1) by (simp add: load_shared_def bindS_def liftS_def)
  from loop_token(3) [OF p this] have "loader_loop nums fac t item ld s = finish nums fac t1 (Some a) (ld\<lparr>ld_parser := p', ld_keys := ld_keys ld\<rparr>) s'" by simp
  moreover have "denotes nums (items s') a v" using a(2) v(1) by (rule denotes_atom)
  ultimately show ?thesis unfolding loaded_def v(2) using a(3,4) v(3) by (auto intro!: exI)
qed

lemma value_pos_not_key: "value_pos ld v \<Longrightarrow> \<not> at_key (ld\<lparr>ld_parser := p\<rparr>)"
  by (auto simp: value_pos_def at_key_def split: list.splits stack_element.splits)

lemma loads_scalar: "\<not> container v \<Longrightarrow> loads nums fac v"
  unfolding loads_def
proof (intro allI impI)
  fix t item ld s p'
  assume v: "\<not> container v" and h: "hands (ld_parser ld) (tokens_of v) p'" and pos: "value_pos ld v" and inv: "load_inv fac (ld_keys ld) s" and n: "need v \<le> length (arena s)"
  obtain a where "tokens_of v = [a]" using v by (cases v) auto
  with h obtain t1 where p: "\<forall>t0. parser_next t0 (ld_parser ld) = Inr (True, t1, p')" and t1: "[atok t1] = tokens_of v" "tok_type t1 = T_number \<longrightarrow> tok_numeric t1 \<noteq> Non_numeric" by auto
  have ar: "arena s \<noteq> []" using n by (cases v) auto
  let ?ld = "ld\<lparr>ld_parser := p'\<rparr>"
  note ty = t1(1) [unfolded atok_def] and sc = loaded_scalar [OF p]
  note fac = inv [unfolded load_inv_def factory_ok_def]
  show "loaded nums fac t item ld s p' v"
  proof (cases v)
    case (Str x)
    have "load_token nums fac t1 item ?ld = load_shared (createString x) item ?ld"
      using ty Str value_pos_not_key [OF pos] by (simp add: load_token_def load_string_def load_shared_def)
    from sc [where x = "String_item x", OF this] show ?thesis using makes_new [OF inv ar] inv Str by (simp add: createString_def)
  next
    case (Num nt x)
    have run: "load_token nums fac t1 item ?ld = load_number nums fac t1 item ?ld" "tok_value t1 = x" "tok_numeric t1 = nt" using ty Num by (simp_all add: load_token_def)
    show ?thesis
    proof (cases "number_of_text nums nt x")
      case None
      then have "load_token nums fac t1 item ?ld s = (Inl (Number_range x (tok_loc t1)), s)" using run t1(2) ty Num by (simp add: load_number_def)
      from loop_token(1) [OF p this] show ?thesis using None Num by (simp add: loaded_def)
    next
      case (Some n)
      then have "load_token nums fac t1 item ?ld = load_shared (create_number fac n) item ?ld" using run by (simp add: load_number_def load_shared_def)
      from sc [where x = "number_atom n", OF this] show ?thesis using makes_number [OF inv ar] inv Num Some by simp
    qed
  next
    case Lit_false
    have "load_token nums fac t1 item ?ld = load_shared (createBoolean fac False) item ?ld" using ty Lit_false by (simp add: load_token_def)
    from sc [where x = "Boolean_item False", OF this] show ?thesis using makes_shared [OF inv] inv fac Lit_false by (simp add: createBoolean_def)
  next
    case Lit_true
    have "load_token nums fac t1 item ?ld = load_shared (createBoolean fac True) item ?ld" using ty Lit_true by (simp add: load_token_def)
    from sc [where x = "Boolean_item True", OF this] show ?thesis using makes_shared [OF inv] inv fac Lit_true by (simp add: createBoolean_def)
  next
    case Lit_null
    have "load_token nums fac t1 item ?ld = load_shared (createJSONNull fac) item ?ld" using ty Lit_null by (simp add: load_token_def)
    from sc [where x = "Null_item", OF this] show ?thesis using makes_shared [OF inv] inv fac Lit_null by (simp add: createJSONNull_def)
  qed (use v in simp_all)
qed

text \<open>The elements of an array.\<close>

lemma hands_ConsE:
  assumes "hands p (a # as) p'"
  obtains t p1 where "\<forall>t0. parser_next t0 p = Inr (True, t, p1)" "tok_type t = fst a" "tok_numeric t = fst (snd a)" "tok_value t = snd (snd a)" "hands p1 as p'"
proof -
  from assms obtain t p1 where t: "\<forall>t0. parser_next t0 p = Inr (True, t, p1)" "atok t = a" "hands p1 as p'" by auto
  from that [OF t(1) _ _ _ t(3)] t(2) show thesis by (auto simp: atok_def)
qed

lemma loop_separator:
  assumes "hands (ld_parser ld) (tsym tt # as) p'" "tt \<in> {Name_separator, Value_separator}"
  obtains t1 p1 where "hands p1 as p'" "\<And>t item s. loader_loop nums fac t item ld s = loader_loop nums fac t1 item (ld\<lparr>ld_parser := p1\<rparr>) s"
proof -
  from assms(1) obtain t1 p1 where p: "\<forall>t0. parser_next t0 (ld_parser ld) = Inr (True, t1, p1)" "tok_type t1 = tt" "hands p1 as p'" by (rule hands_ConsE) simp
  have "load_token nums fac t1 item (ld\<lparr>ld_parser := p1\<rparr>) s = (Inr (Next (ld\<lparr>ld_parser := p1\<rparr>)), s)" for item s using p(2) assms(2) by (auto simp: load_token_def)
  from loop_token(2) [OF p(1) this] that [OF p(3)] show thesis by blast
qed

definition loaded_elems :: "numbers \<Rightarrow> factory \<Rightarrow> token \<Rightarrow> addr option \<Rightarrow> loader \<Rightarrow> json_store \<Rightarrow> parser \<Rightarrow> addr list \<Rightarrow> stack_element list \<Rightarrow> jtree list \<Rightarrow> bool" where
  "loaded_elems nums fac t item ld s p' xs st vs \<longleftrightarrow> (case first_some (map (fault nums (unat (depth ld))) vs) of
      Some f \<Rightarrow> \<exists>e s'. loader_loop nums fac t item ld s = (Inl e, s') \<and> fault_of e = Some f \<and> grows (items s) (items s')
    | None \<Rightarrow> \<exists>t' item' ks s' as. loader_loop nums fac t item ld s
          = loader_loop nums fac t' item' (ld\<lparr>ld_parser := p', ld_keys := ks, ld_stack := Array_elem (xs @ as) # st\<rparr>) s'
        \<and> load_inv fac ks s' \<and> moved (sum_list (map need vs)) s s' \<and> (if check_only ld then as = [] else list_all2 (denotes nums (items s')) as vs))"

lemma elems_Cons: "elems (v # vs) = tokens_of v @ (if vs = [] then [] else tsym Value_separator # elems vs)"
  by (simp add: elems_def commas_Cons)

lemma loop_comma:
  assumes "hands (ld_parser ld) (if b then w else tsym Value_separator # w) p'"
  shows "\<exists>t1 p1. hands p1 w p' \<and> (\<forall>item s. loader_loop nums fac t item ld s = loader_loop nums fac t1 item (ld\<lparr>ld_parser := p1\<rparr>) s)"
proof (cases b)
  case True
  then have "hands (ld_parser ld) w p'" using assms by simp
  moreover have "ld\<lparr>ld_parser := ld_parser ld\<rparr> = ld" by (cases ld) simp
  ultimately show ?thesis by (intro exI [of _ t] exI [of _ "ld_parser ld"]) simp
next
  case False
  then have "hands (ld_parser ld) (tsym Value_separator # w) p'" using assms by simp
  then obtain t1 p1 where "hands p1 w p'" "\<And>t item s. loader_loop nums fac t item ld s = loader_loop nums fac t1 item (ld\<lparr>ld_parser := p1\<rparr>) s"
    by (rule loop_separator [where nums = nums and fac = fac, OF _ insertI2 [OF insertI1]]) blast
  then show ?thesis by blast
qed

lemma list_all2_mono': "list_all2 (denotes nums h) as vs \<Longrightarrow> grows h h' \<Longrightarrow> list_all2 (denotes nums h') as vs"
  by (erule list_all2_mono) (rule denotes_mono)

text \<open>One element: the loop goes on with the element at the end of the array.\<close>

lemma elem_load:
  assumes v: "loads nums fac v" "hands (ld_parser ld) (tokens_of v) q" and ld: "ld_stack ld = Array_elem xs # st" "unat (depth ld) \<le> MAX_DEPTH"
    and inv: "load_inv fac (ld_keys ld) s" "need v \<le> length (arena s)" "length (tokens_of v) < 2 ^ 64" and f: "fault nums (unat (depth ld)) v = None"
  obtains t1 item1 ks as s1 where "loader_loop nums fac t item ld s = loader_loop nums fac t1 item1 (ld\<lparr>ld_parser := q, ld_keys := ks, ld_stack := Array_elem (xs @ as) # st\<rparr>) s1"
    "load_inv fac ks s1" "moved (need v) s s1" "if check_only ld then as = [] else list_all2 (denotes nums (items s1)) as [v]"
proof -
  have "value_pos ld v" using ld(1) by (simp add: value_pos_def)
  then have l: "loaded nums fac t item ld s q v" using v ld(2) inv by (auto simp: loads_def)
  from l [unfolded loaded_def f option.case] obtain t1 item1 ks s1 where
    one: "loader_loop nums fac t item ld s = finish nums fac t1 item1 (ld\<lparr>ld_parser := q, ld_keys := ks\<rparr>) s1"
    and s1: "load_inv fac ks s1" "moved (need v) s s1" and a: "\<not> check_only ld \<longrightarrow> (\<exists>a. item1 = Some a \<and> denotes nums (items s1) a v)" by blast
  define as where "as = (if check_only ld then [] else [the item1])"
  have "add_value item1 (ld\<lparr>ld_parser := q, ld_keys := ks\<rparr>) = Inr (ld\<lparr>ld_parser := q, ld_keys := ks, ld_stack := Array_elem (xs @ as) # st\<rparr>)"
    using a ld(1) by (cases "check_only ld") (auto simp: add_value_def as_def)
  then have "loader_loop nums fac t item ld s = loader_loop nums fac t1 item1 (ld\<lparr>ld_parser := q, ld_keys := ks, ld_stack := Array_elem (xs @ as) # st\<rparr>) s1"
    using one ld(1) by (simp add: finish_def)
  moreover have "if check_only ld then as = [] else list_all2 (denotes nums (items s1)) as [v]" using a by (auto simp: as_def)
  ultimately show thesis using that s1 by blast
qed

lemma loaded_elems_Nil: "hands (ld_parser ld) (elems []) p' \<Longrightarrow> ld_stack ld = Array_elem xs # st \<Longrightarrow> load_inv fac (ld_keys ld) s \<Longrightarrow> loaded_elems nums fac t item ld s p' xs st []"
proof -
  assume p: "hands (ld_parser ld) (elems []) p'" "ld_stack ld = Array_elem xs # st" "load_inv fac (ld_keys ld) s"
  then have e: "ld\<lparr>ld_parser := p', ld_keys := ld_keys ld, ld_stack := Array_elem (xs @ []) # st\<rparr> = ld" by (cases ld) (simp add: elems_def)
  show ?thesis unfolding loaded_elems_def
    by (simp only: list.map first_some.simps option.case sum_list.Nil)
      (intro exI [of _ t] exI [of _ item] exI [of _ "ld_keys ld"] exI [of _ s] exI [of _ "[]"], unfold e, use p(3) in simp)
qed

lemma loaded_elems_Cons:
  assumes f: "fault nums (unat (depth ld)) v = None" and run: "loader_loop nums fac t item ld s = loader_loop nums fac t1 item1 ld1 s1"
    and ld1: "ld1 = ld\<lparr>ld_parser := p1, ld_keys := ks, ld_stack := Array_elem (xs @ as1) # st\<rparr>"
    and s1: "moved (need v) s s1" "if check_only ld then as1 = [] else list_all2 (denotes nums (items s1)) as1 [v]" and rest: "loaded_elems nums fac t1 item1 ld1 s1 p' (xs @ as1) st vs"
  shows "loaded_elems nums fac t item ld s p' xs st (v # vs)"
proof -
  have ff: "first_some (map (fault nums (unat (depth ld))) (v # vs)) = first_some (map (fault nums (unat (depth ld))) vs)" using f by simp
  have g1: "grows (items s) (items s1)" using s1(1) by (simp add: moved_def)
  show ?thesis
  proof (cases "first_some (map (fault nums (unat (depth ld))) vs)")
    case (Some f)
    then obtain e s' where "loader_loop nums fac t1 item1 ld1 s1 = (Inl e, s')" "fault_of e = Some f" "grows (items s1) (items s')" using rest by (auto simp: loaded_elems_def ld1)
    then show ?thesis using grows_trans [OF g1] unfolding loaded_elems_def ff run Some by auto
  next
    case None
    with rest obtain t' item' ks' s' as where r: "loader_loop nums fac t1 item1 ld1 s1
        = loader_loop nums fac t' item' (ld1\<lparr>ld_parser := p', ld_keys := ks', ld_stack := Array_elem ((xs @ as1) @ as) # st\<rparr>) s'" "load_inv fac ks' s'"
      "moved (sum_list (map need vs)) s1 s'" "if check_only ld then as = [] else list_all2 (denotes nums (items s')) as vs" by (auto simp: loaded_elems_def ld1)
    have "if check_only ld then as1 @ as = [] else list_all2 (denotes nums (items s')) (as1 @ as) (v # vs)"
      using r(3,4) s1(2) list_all2_mono' [of nums "items s1" as1 "[v]" "items s'"] list_all2_appendI [of _ as1 "[v]" as vs] by (auto simp: moved_def split: if_splits)
    moreover have "moved (sum_list (map need (v # vs))) s s'" using moved_trans [OF s1(1) r(3)] by simp
    moreover have "ld1\<lparr>ld_parser := p', ld_keys := ks', ld_stack := Array_elem ((xs @ as1) @ as) # st\<rparr> = ld\<lparr>ld_parser := p', ld_keys := ks', ld_stack := Array_elem (xs @ (as1 @ as)) # st\<rparr>"
      by (simp add: ld1)
    ultimately show ?thesis unfolding loaded_elems_def ff None option.case run r(1) using r(2) by metis
  qed
qed

lemma elems_load:
  assumes "\<forall>v \<in> set vs. loads nums fac v" "hands (ld_parser ld) (elems vs) p'" "ld_stack ld = Array_elem xs # st" "unat (depth ld) \<le> MAX_DEPTH"
    "load_inv fac (ld_keys ld) s" "sum_list (map need vs) \<le> length (arena s)" "length (elems vs) < 2 ^ 64"
  shows "loaded_elems nums fac t item ld s p' xs st vs"
  using assms
proof (induction vs arbitrary: t item ld s xs)
  case (Cons v vs)
  from Cons.prems(2) obtain q where q: "hands (ld_parser ld) (tokens_of v) q" "hands q (if vs = [] then elems vs else tsym Value_separator # elems vs) p'"
    unfolding elems_Cons hands_append by (auto simp: elems_def split: if_splits)
  have b: "need v \<le> length (arena s)" "length (tokens_of v) < 2 ^ 64" "length (elems vs) < 2 ^ 64"
    using Cons.prems(6,7) by (auto simp: elems_Cons split: if_splits) (simp_all add: elems_def)
  have v: "loads nums fac v" using Cons.prems(1) by simp
  show ?case
  proof (cases "fault nums (unat (depth ld)) v")
    case (Some f)
    have "value_pos ld v" using Cons.prems(3) by (simp add: value_pos_def)
    then have "loaded nums fac t item ld s q v" using v q(1) Cons.prems(4,5) b by (auto simp: loads_def)
    then show ?thesis using Some by (simp add: loaded_def loaded_elems_def)
  next
    case None
    obtain t1 item1 ks as1 s1 where one: "loader_loop nums fac t item ld s = loader_loop nums fac t1 item1 (ld\<lparr>ld_parser := q, ld_keys := ks, ld_stack := Array_elem (xs @ as1) # st\<rparr>) s1"
      "load_inv fac ks s1" "moved (need v) s s1" "if check_only ld then as1 = [] else list_all2 (denotes nums (items s1)) as1 [v]"
      by (rule elem_load [OF v q(1) Cons.prems(3-5) b(1,2) None])
    let ?ld = "ld\<lparr>ld_parser := q, ld_keys := ks, ld_stack := Array_elem (xs @ as1) # st\<rparr>"
    from loop_comma [of ?ld "vs = []" "elems vs" p' nums fac t1] q(2) obtain t2 p2 where
      p2: "hands p2 (elems vs) p'" "loader_loop nums fac t1 item1 ?ld s1 = loader_loop nums fac t2 item1 (?ld\<lparr>ld_parser := p2\<rparr>) s1" by auto
    have run: "loader_loop nums fac t item ld s = loader_loop nums fac t2 item1 (?ld\<lparr>ld_parser := p2\<rparr>) s1" using one(1) p2(2) by (rule trans)
    have "sum_list (map need vs) \<le> length (arena s1)" using Cons.prems(6) one(3) by (simp add: moved_def)
    then have "loaded_elems nums fac t2 item1 (?ld\<lparr>ld_parser := p2\<rparr>) s1 p' (xs @ as1) st vs" using Cons.prems(1,4) p2(1) one(2) b(3) by (intro Cons.IH) simp_all
    from loaded_elems_Cons [where ?p1.0 = p2 and ks = ks, OF None run _ one(3,4) this] show ?thesis by simp
  qed
qed (rule loaded_elems_Nil)

text \<open>The members of an object.\<close>

lemma make_key_run:
  assumes "load_inv fac (ld_keys ld) s" "arena s \<noteq> []"
  shows "\<exists>k ks s'. make_key v ld s = (Inr (k, ld\<lparr>ld_keys := ks\<rparr>), s') \<and> items s' k = Some (Atomic (String_item v)) \<and> load_inv fac ks s' \<and> moved 1 s s'"
proof (cases "map_of (ld_keys ld) v")
  case (Some k)
  have e: "ld\<lparr>ld_keys := ld_keys ld\<rparr> = ld" by (cases ld) simp
  have "make_key v ld s = (Inr (k, ld\<lparr>ld_keys := ld_keys ld\<rparr>), s)" unfolding e using Some by (simp add: make_key_def)
  moreover have "items s k = Some (Atomic (String_item v))" using assms(1) map_of_SomeD [OF Some] by (simp add: load_inv_def)
  ultimately show ?thesis using assms(1) by (intro exI) auto
next
  case None
  from makes_new [OF assms, of "String_item v"] obtain k s' where k: "createString v s = (Inr k, s')" "items s' k = Some (Atomic (String_item v))"
    "load_inv fac (ld_keys ld) s'" "moved 1 s s'" by (auto simp: makes_def createString_def)
  define ks where "ks = (if length (ld_keys ld) < max_shared_keys \<and> length v \<le> max_shared_key_length then (v, k) # ld_keys ld else ld_keys ld)"
  have "make_key v ld s = (Inr (k, ld\<lparr>ld_keys := ks\<rparr>), s')" using None k(1) by (simp add: make_key_def bindS_def ks_def)
  moreover have "load_inv fac ks s'" using k(2,3) by (auto simp: load_inv_def ks_def)
  ultimately show ?thesis using k(2,4) by blast
qed

lemma loop_key:
  assumes p: "hands (ld_parser ld) (key_tok v # tsym Name_separator # as) p'" and st: "ld_stack ld = Object_elem ns xs # st"
    and inv: "load_inv fac (ld_keys ld) s" "arena s \<noteq> []"
  obtains t1 k ks p1 s1 where "hands p1 as p'" "loader_loop nums fac t item ld s = loader_loop nums fac t1 (Some k) (ld\<lparr>ld_parser := p1, ld_keys := ks, ld_stack := Key_elem k # ld_stack ld\<rparr>) s1"
    "items s1 k = Some (Atomic (String_item v))" "load_inv fac ks s1" "moved 1 s s1"
proof -
  from p obtain t0 p0 where t0: "\<forall>t. parser_next t (ld_parser ld) = Inr (True, t0, p0)" "tok_type t0 = T_string" "tok_value t0 = v" "hands p0 (tsym Name_separator # as) p'"
    by (rule hands_ConsE) simp
  let ?ld = "ld\<lparr>ld_parser := p0\<rparr>"
  obtain k ks s1 where k: "make_key v ?ld s = (Inr (k, ?ld\<lparr>ld_keys := ks\<rparr>), s1)" "items s1 k = Some (Atomic (String_item v))" "load_inv fac ks s1" "moved 1 s s1"
    using make_key_run [of fac ?ld s v] inv by auto
  have "load_token nums fac t0 item ?ld s = (Inr (Item (Some k) (?ld\<lparr>ld_keys := ks\<rparr>)), s1)"
    using t0(2,3) st k(1) by (simp add: load_token_def load_string_def at_key_def bindS_def liftS_def)
  from loop_token(3) [OF t0(1) this] have run0: "loader_loop nums fac t item ld s = finish nums fac t0 (Some k) (?ld\<lparr>ld_keys := ks\<rparr>) s1" for t .
  let ?ld1 = "ld\<lparr>ld_parser := p0, ld_keys := ks, ld_stack := Key_elem k # ld_stack ld\<rparr>"
  have "add_value (Some k) (?ld\<lparr>ld_keys := ks\<rparr>) = Inr ?ld1" using st by (simp add: add_value_def push_elem_def)
  then have run1: "loader_loop nums fac t item ld s = loader_loop nums fac t0 (Some k) ?ld1 s1" for t using run0 st by (simp add: finish_def)
  have "hands (ld_parser ?ld1) (tsym Name_separator # as) p'" using t0(4) by simp
  then obtain t1 p1 where p1: "hands p1 as p'" "\<And>t item s. loader_loop nums fac t item ?ld1 s = loader_loop nums fac t1 item (?ld1\<lparr>ld_parser := p1\<rparr>) s"
    by (rule loop_separator [where nums = nums and fac = fac, OF _ insertI1]) blast
  have e: "?ld1\<lparr>ld_parser := p1\<rparr> = ld\<lparr>ld_parser := p1, ld_keys := ks, ld_stack := Key_elem k # ld_stack ld\<rparr>" by simp
  have "loader_loop nums fac t item ld s = loader_loop nums fac t1 (Some k) (ld\<lparr>ld_parser := p1, ld_keys := ks, ld_stack := Key_elem k # ld_stack ld\<rparr>) s1"
    unfolding run1 p1(2) e ..
  from that [OF p1(1) this k(2-4)] show thesis .
qed

definition loaded_members :: "numbers \<Rightarrow> factory \<Rightarrow> token \<Rightarrow> addr option \<Rightarrow> loader \<Rightarrow> json_store \<Rightarrow> parser \<Rightarrow> addr list \<Rightarrow> addr list \<Rightarrow> stack_element list
    \<Rightarrow> (byte list \<times> jtree) list \<Rightarrow> bool" where
  "loaded_members nums fac t item ld s p' ns xs st ms \<longleftrightarrow> (case first_some (map (\<lambda>m. fault nums (unat (depth ld)) (snd m)) ms) of
      Some f \<Rightarrow> \<exists>e s'. loader_loop nums fac t item ld s = (Inl e, s') \<and> fault_of e = Some f \<and> grows (items s) (items s')
    | None \<Rightarrow> \<exists>t' item' ks s' ns' as. loader_loop nums fac t item ld s
          = loader_loop nums fac t' item' (ld\<lparr>ld_parser := p', ld_keys := ks, ld_stack := Object_elem (ns @ ns') (xs @ as) # st\<rparr>) s'
        \<and> load_inv fac ks s' \<and> moved (sum_list (map (\<lambda>m. Suc (need (snd m))) ms)) s s'
        \<and> list_all2 (\<lambda>n m. items s' n = Some (Atomic (String_item (fst m)))) ns' ms
        \<and> (if check_only ld then as = [] else list_all2 (\<lambda>a m. denotes nums (items s') a (snd m)) as ms))"

lemma members_Cons: "members (m # ms) = pair_tokens m @ (if ms = [] then [] else tsym Value_separator # members ms)"
  by (simp add: members_def commas_Cons)

text \<open>One member: its key, its value, and the loop goes on with both at the ends of the lists.\<close>

lemma pair_load:
  assumes v: "loads nums fac v" "hands p0 (tokens_of v) q" and ld: "unat (depth ld) \<le> MAX_DEPTH"
    and inv: "load_inv fac ks0 s" "need v \<le> length (arena s)" "length (tokens_of v) < 2 ^ 64" and ld0: "ld0 = ld\<lparr>ld_parser := p0, ld_keys := ks0, ld_stack := Key_elem n # Object_elem ns xs # st\<rparr>"
  shows "case fault nums (unat (depth ld)) v of
      Some f \<Rightarrow> \<exists>e s'. loader_loop nums fac t item ld0 s = (Inl e, s') \<and> fault_of e = Some f \<and> grows (items s) (items s')
    | None \<Rightarrow> \<exists>t1 item1 ks as s1. loader_loop nums fac t item ld0 s = loader_loop nums fac t1 item1 (ld\<lparr>ld_parser := q, ld_keys := ks, ld_stack := Object_elem (ns @ [n]) (xs @ as) # st\<rparr>) s1
      \<and> load_inv fac ks s1 \<and> moved (need v) s s1 \<and> (if check_only ld then as = [] else \<exists>a. as = [a] \<and> denotes nums (items s1) a v)"
proof -
  have "value_pos ld0 v" by (simp add: value_pos_def ld0)
  then have l: "loaded nums fac t item ld0 s q v" using v ld inv by (auto simp: loads_def ld0)
  show ?thesis
  proof (cases "fault nums (unat (depth ld)) v")
    case (Some f)
    then show ?thesis using l by (simp add: loaded_def ld0)
  next
    case None
    with l obtain t1 item1 ks s1 where one: "loader_loop nums fac t item ld0 s = finish nums fac t1 item1 (ld0\<lparr>ld_parser := q, ld_keys := ks\<rparr>) s1" "load_inv fac ks s1" "moved (need v) s s1"
      "\<not> check_only ld \<longrightarrow> (\<exists>a. item1 = Some a \<and> denotes nums (items s1) a v)" by (auto simp: loaded_def ld0)
    define as where "as = (if check_only ld then [] else [the item1])"
    have "add_value item1 (ld0\<lparr>ld_parser := q, ld_keys := ks\<rparr>) = Inr (ld\<lparr>ld_parser := q, ld_keys := ks, ld_stack := Object_elem (ns @ [n]) (xs @ as) # st\<rparr>)"
      using one(4) by (cases "check_only ld") (auto simp: add_value_def ld0 as_def)
    then have "loader_loop nums fac t item ld0 s = loader_loop nums fac t1 item1 (ld\<lparr>ld_parser := q, ld_keys := ks, ld_stack := Object_elem (ns @ [n]) (xs @ as) # st\<rparr>) s1"
      using one(1) by (simp add: finish_def ld0)
    moreover have "if check_only ld then as = [] else \<exists>a. as = [a] \<and> denotes nums (items s1) a v" using one(4) by (auto simp: as_def)
    ultimately show ?thesis using one(2,3) unfolding None option.case by blast
  qed
qed

lemma loaded_members_Nil:
  "hands (ld_parser ld) (members []) p' \<Longrightarrow> ld_stack ld = Object_elem ns xs # st \<Longrightarrow> load_inv fac (ld_keys ld) s \<Longrightarrow> loaded_members nums fac t item ld s p' ns xs st []"
proof -
  assume p: "hands (ld_parser ld) (members []) p'" "ld_stack ld = Object_elem ns xs # st" "load_inv fac (ld_keys ld) s"
  then have e: "ld\<lparr>ld_parser := p', ld_keys := ld_keys ld, ld_stack := Object_elem (ns @ []) (xs @ []) # st\<rparr> = ld" by (cases ld) (simp add: members_def)
  show ?thesis unfolding loaded_members_def
    by (simp only: list.map first_some.simps option.case sum_list.Nil)
      (intro exI [of _ t] exI [of _ item] exI [of _ "ld_keys ld"] exI [of _ s] exI [of _ "[]"], unfold e, use p(3) in simp)
qed

lemma loaded_members_Cons:
  assumes f: "fault nums (unat (depth ld)) (snd m) = None" and run: "loader_loop nums fac t item ld s = loader_loop nums fac t1 item1 ld1 s1"
    and ld1: "ld1 = ld\<lparr>ld_parser := p1, ld_keys := ks, ld_stack := Object_elem (ns @ [n]) (xs @ as1) # st\<rparr>" and s1: "moved (Suc (need (snd m))) s s1"
      "items s1 n = Some (Atomic (String_item (fst m)))" "if check_only ld then as1 = [] else \<exists>a. as1 = [a] \<and> denotes nums (items s1) a (snd m)"
    and rest: "loaded_members nums fac t1 item1 ld1 s1 p' (ns @ [n]) (xs @ as1) st ms"
  shows "loaded_members nums fac t item ld s p' ns xs st (m # ms)"
proof -
  let ?F = "\<lambda>m. fault nums (unat (depth ld)) (snd m)"
  have ff: "first_some (map ?F (m # ms)) = first_some (map ?F ms)" using f by simp
  have g1: "grows (items s) (items s1)" using s1(1) by (simp add: moved_def)
  show ?thesis
  proof (cases "first_some (map ?F ms)")
    case (Some f)
    then obtain e s' where "loader_loop nums fac t1 item1 ld1 s1 = (Inl e, s')" "fault_of e = Some f" "grows (items s1) (items s')" using rest by (auto simp: loaded_members_def ld1)
    then show ?thesis using grows_trans [OF g1] unfolding loaded_members_def ff run Some by auto
  next
    case None
    with rest obtain t' item' ks' s' ns' as where r: "loader_loop nums fac t1 item1 ld1 s1
        = loader_loop nums fac t' item' (ld1\<lparr>ld_parser := p', ld_keys := ks', ld_stack := Object_elem ((ns @ [n]) @ ns') ((xs @ as1) @ as) # st\<rparr>) s'" "load_inv fac ks' s'"
      "moved (sum_list (map (\<lambda>m. Suc (need (snd m))) ms)) s1 s'" "list_all2 (\<lambda>n m. items s' n = Some (Atomic (String_item (fst m)))) ns' ms"
      "if check_only ld then as = [] else list_all2 (\<lambda>a m. denotes nums (items s') a (snd m)) as ms" by (auto simp: loaded_members_def ld1)
    have g: "grows (items s1) (items s')" using r(3) by (simp add: moved_def)
    have "if check_only ld then as1 @ as = [] else list_all2 (\<lambda>a m. denotes nums (items s') a (snd m)) (as1 @ as) (m # ms)"
      using r(5) s1(3) denotes_mono [OF _ g] by (auto split: if_splits)
    moreover have "list_all2 (\<lambda>n m. items s' n = Some (Atomic (String_item (fst m)))) ([n] @ ns') (m # ms)" using r(4) growsD(1) [OF g s1(2)] by simp
    moreover have "moved (sum_list (map (\<lambda>m. Suc (need (snd m))) (m # ms))) s s'" using moved_trans [OF s1(1) r(3)] by simp
    moreover have "ld1\<lparr>ld_parser := p', ld_keys := ks', ld_stack := Object_elem ((ns @ [n]) @ ns') ((xs @ as1) @ as) # st\<rparr>
        = ld\<lparr>ld_parser := p', ld_keys := ks', ld_stack := Object_elem (ns @ ([n] @ ns')) (xs @ (as1 @ as)) # st\<rparr>" by (simp add: ld1)
    ultimately show ?thesis unfolding loaded_members_def ff None option.case run r(1) using r(2) by metis
  qed
qed

lemma members_load:
  assumes "\<forall>m \<in> set ms. loads nums fac (snd m)" "hands (ld_parser ld) (members ms) p'" "ld_stack ld = Object_elem ns xs # st" "unat (depth ld) \<le> MAX_DEPTH"
    "load_inv fac (ld_keys ld) s" "sum_list (map (\<lambda>m. Suc (need (snd m))) ms) \<le> length (arena s)" "length (members ms) < 2 ^ 64"
  shows "loaded_members nums fac t item ld s p' ns xs st ms"
  using assms
proof (induction ms arbitrary: t item ld s ns xs)
  case (Cons m ms)
  let ?rest = "if ms = [] then members ms else tsym Value_separator # members ms"
  obtain k v where m: "m = (k, v)" by (cases m)
  from Cons.prems(2) have "hands (ld_parser ld) (key_tok k # tsym Name_separator # (tokens_of v @ ?rest)) p'" by (cases "ms = []") (simp_all add: members_Cons m pair_tokens_def, simp add: members_def)
  moreover have "arena s \<noteq> []" using Cons.prems(6) by auto
  moreover note Cons.prems(3,5)
  ultimately obtain t0 n ks0 p0 s0 where k: "hands p0 (tokens_of v @ ?rest) p'"
    "loader_loop nums fac t item ld s = loader_loop nums fac t0 (Some n) (ld\<lparr>ld_parser := p0, ld_keys := ks0, ld_stack := Key_elem n # ld_stack ld\<rparr>) s0"
    "items s0 n = Some (Atomic (String_item k))" "load_inv fac ks0 s0" "moved 1 s s0"
    by (elim loop_key [where nums = nums and t = t and item = item])
  from k(1) obtain q where q: "hands p0 (tokens_of v) q" "hands q ?rest p'" unfolding hands_append by blast
  have b: "need v \<le> length (arena s0)" "length (tokens_of v) < 2 ^ 64" "length (members ms) < 2 ^ 64" using Cons.prems(6,7) k(5)
    by (auto simp: members_Cons m pair_tokens_def moved_def split: if_splits) (simp_all add: members_def)
  have v: "loads nums fac v" using Cons.prems(1) m by simp
  note pl = pair_load [where n = n and ns = ns and xs = xs and st = st and t = t0 and item = "Some n", OF v q(1) Cons.prems(4) k(4) b(1,2) refl] and run0 = k(2) [unfolded Cons.prems(3)]
  show ?case
  proof (cases "fault nums (unat (depth ld)) v")
    case (Some f)
    moreover have "grows (items s) (items s0)" using k(5) by (simp add: moved_def)
    ultimately show ?thesis using pl grows_trans [of "items s" "items s0"] unfolding loaded_members_def run0 by (auto simp: m)
  next
    case None
    with pl obtain t1 item1 ks as1 s1 where one: "loader_loop nums fac t item ld s = loader_loop nums fac t1 item1 (ld\<lparr>ld_parser := q, ld_keys := ks, ld_stack := Object_elem (ns @ [n]) (xs @ as1) # st\<rparr>) s1"
      "load_inv fac ks s1" "moved (need v) s0 s1" "if check_only ld then as1 = [] else \<exists>a. as1 = [a] \<and> denotes nums (items s1) a v" unfolding run0 by auto
    let ?ld = "ld\<lparr>ld_parser := q, ld_keys := ks, ld_stack := Object_elem (ns @ [n]) (xs @ as1) # st\<rparr>"
    have mv: "moved (Suc (need v)) s s1" using moved_trans [OF k(5) one(3)] by simp
    have n1: "items s1 n = Some (Atomic (String_item (fst m)))" using k(3) one(3) growsD(1) m by (auto simp: moved_def)
    from loop_comma [of ?ld "ms = []" "members ms" p' nums fac t1] q(2) obtain t2 p2 where
      p2: "hands p2 (members ms) p'" "loader_loop nums fac t1 item1 ?ld s1 = loader_loop nums fac t2 item1 (?ld\<lparr>ld_parser := p2\<rparr>) s1" by auto
    have run: "loader_loop nums fac t item ld s = loader_loop nums fac t2 item1 (?ld\<lparr>ld_parser := p2\<rparr>) s1" using one(1) p2(2) by (rule trans)
    have "sum_list (map (\<lambda>m. Suc (need (snd m))) ms) \<le> length (arena s1)" using Cons.prems(6) mv m by (simp add: moved_def)
    then have "loaded_members nums fac t2 item1 (?ld\<lparr>ld_parser := p2\<rparr>) s1 p' (ns @ [n]) (xs @ as1) st ms" using Cons.prems(1,4) p2(1) one(2) b(3) by (intro Cons.IH) simp_all
    from loaded_members_Cons [where ?p1.0 = p2 and ks = ks and m = m, OF _ run _ _ n1 _ this] None mv one(4) show ?thesis by (simp add: m)
  qed
qed (rule loaded_members_Nil)

text \<open>Arrays and objects: the elements are loaded one level deeper.\<close>

lemma length_elems: "length vs \<le> length (elems vs)"
proof (induction vs)
  case (Cons v vs)
  have "1 \<le> length (tokens_of v)" using tokens_nonempty(1) [of v] by (cases "tokens_of v") auto
  then show ?case using Cons by (auto simp: elems_Cons)
qed (simp add: elems_def)

lemma deeper: "d < MAX_DEPTH \<Longrightarrow> d = unat (w :: u32) \<Longrightarrow> unat (w + 1) = Suc d \<and> w + 1 - 1 = w"
  by (simp add: MAX_DEPTH_def unat_word_ariths)

lemma denotes_ready: "denotes nums h a v \<Longrightarrow> fault nums (Suc d) v = None \<Longrightarrow> Suc d \<le> MAX_DEPTH \<Longrightarrow> ready_value h a"
  using denotes_apart fault_height [of nums "Suc d" v] by (auto simp: ready_value_def denotes_height)

lemma makes_array:
  assumes inv: "load_inv fac keys s" "arena s \<noteq> []" and as: "list_all2 (denotes nums (items s)) as vs" and f: "\<forall>v \<in> set vs. fault nums (Suc d) v = None" "Suc d \<le> MAX_DEPTH"
    and len: "length vs < 2 ^ 64"
  obtains a s' where "createJSONArray as s = (Inr a, s')" "denotes nums (items s') a (Arr vs)" "load_inv fac keys s'" "moved 1 s s'"
proof -
  have s: "store_inv s" using inv(1) by (simp add: load_inv_def)
  have l: "length as = length vs" using as by (rule list_all2_lengthD)
  have "\<forall>x \<in> set as. ready_value (items s) x"
  proof
    fix x assume "x \<in> set as"
    then obtain i where "i < length as" "x = as ! i" by (auto simp: in_set_conv_nth)
    then show "ready_value (items s) x" using list_all2_nthD [OF as] f l denotes_ready [of nums "items s" x "vs ! i" d] by simp
  qed
  from s inv(2) this obtain a j s' where a: "createJSONArray as s = (Inr a, s')" "items s a = None" "others_same a (items s) (items s')" "items s' a = Some (JSON j)"
    "content_of j = Members as" "theHeight j = tall (items s) as" "arena s' = tl (arena s)" "store_inv s'"
    using createJSONArray_run len l by metis
  have g: "grows (items s) (items s')" using a(2,3) by (intro grows_others)
  have "denotes nums (items s') (as ! i) (vs ! i)" if "i < length vs" for i using list_all2_nthD [OF list_all2_mono' [OF as g]] that l by simp
  then have "denotes nums (items s') a (Arr vs)"
    by (intro denotes_Arr [where ms = as and j = j]) (use a l denotes_tall [OF as] in auto)
  then show thesis using that a(1,7) g load_inv_grows [OF inv(1) g a(8)] by (simp add: moved_def)
qed

lemma loader_swap: "ld\<lparr>ld_keys := ks, ld_parser := p\<rparr> = ld\<lparr>ld_parser := p, ld_keys := ks\<rparr>"
  by simp

text \<open>The end of an array: the loop goes on as after a scalar.\<close>

lemma close_Arr:
  assumes t2: "\<forall>t. parser_next t p1 = Inr (True, t2, p')" "tok_type t2 = End_array" and inv: "load_inv fac ks s" "arena s \<noteq> []" "length vs < 2 ^ 64"
    and vs: "\<not> check_only ld \<longrightarrow> list_all2 (denotes nums (items s)) as vs" "\<forall>v \<in> set vs. fault nums (Suc (unat (depth ld))) v = None" "Suc (unat (depth ld)) \<le> MAX_DEPTH"
    and ld1: "ld1 = ld\<lparr>ld_parser := p1, ld_keys := ks, depth := depth ld + 1, ld_stack := Array_elem as # ld_stack ld\<rparr>"
  shows "\<exists>item' s'. loader_loop nums fac t item ld1 s = finish nums fac t2 item' (ld\<lparr>ld_parser := p', ld_keys := ks\<rparr>) s' \<and> load_inv fac ks s' \<and> moved 1 s s'
    \<and> (\<not> check_only ld \<longrightarrow> (\<exists>a. item' = Some a \<and> denotes nums (items s') a (Arr vs)))"
proof -
  let ?ld = "ld\<lparr>ld_parser := p', ld_keys := ks\<rparr>"
  have close: "load_token nums fac t2 item (ld1\<lparr>ld_parser := p'\<rparr>) s = (if check_only ld then (Inr (Item item ?ld), s)
      else bindS (liftS (createJSONArray as)) (\<lambda>a. returnS (Item (Some a) ?ld)) s)"
    using t2(2) by (simp add: load_token_def close_array_def close_container_def ld1 Let_def loader_swap)
  have p2: "\<forall>t. parser_next t (ld_parser ld1) = Inr (True, t2, p')" using t2(1) by (simp add: ld1)
  show ?thesis
  proof (cases "check_only ld")
    case True
    then have "loader_loop nums fac t item ld1 s = finish nums fac t2 item ?ld s" using loop_token(3) [OF p2] close by simp
    then show ?thesis using True inv(1) moved_refl by blast
  next
    case False
    then obtain a s' where a: "createJSONArray as s = (Inr a, s')" "denotes nums (items s') a (Arr vs)" "load_inv fac ks s'" "moved 1 s s'"
      using makes_array [OF inv(1,2) _ vs(2)] vs(1,3) inv(3) by metis
    then have "load_token nums fac t2 item (ld1\<lparr>ld_parser := p'\<rparr>) s = (Inr (Item (Some a) ?ld), s')" using close False by (simp add: bindS_def liftS_def)
    from loop_token(3) [OF p2 this] show ?thesis using a(2-4) by blast
  qed
qed

lemma loads_Arr:
  assumes IH: "\<forall>v \<in> set vs. loads nums fac v" shows "loads nums fac (Arr vs)"
  unfolding loads_def
proof (intro allI impI)
  fix t item ld s p'
  assume h: "hands (ld_parser ld) (tokens_of (Arr vs)) p'" and pos: "value_pos ld (Arr vs)" and d: "unat (depth ld) \<le> MAX_DEPTH" and inv: "load_inv fac (ld_keys ld) s"
    and n: "need (Arr vs) \<le> length (arena s)" and len: "length (tokens_of (Arr vs)) < 2 ^ 64"
  let ?d = "unat (depth ld)"
  from h obtain t0 p0 where t0: "\<forall>t. parser_next t (ld_parser ld) = Inr (True, t0, p0)" "tok_type t0 = Begin_array" "hands p0 (elems vs @ [tsym End_array]) p'"
    unfolding tokens_container by (rule hands_ConsE) simp
  from t0(3) obtain p1 where p1: "hands p0 (elems vs) p1" "hands p1 [tsym End_array] p'" unfolding hands_append by blast
  from p1(2) obtain t2 where t2: "\<forall>t. parser_next t p1 = Inr (True, t2, p')" "tok_type t2 = End_array" by (rule hands_ConsE) simp
  have op: "open_array t0 (ld\<lparr>ld_parser := p0\<rparr>) = bindE (check_depth t0 (ld\<lparr>ld_parser := p0\<rparr>)) (\<lambda>ld. Inr (push_elem (Array_elem []) ld))"
    using pos by (auto simp: open_array_def value_pos_def split: list.splits)
  show "loaded nums fac t item ld s p' (Arr vs)"
  proof (cases "MAX_DEPTH \<le> ?d")
    case True
    then have "load_token nums fac t0 item (ld\<lparr>ld_parser := p0\<rparr>) s = (Inl (Too_deep (tok_loc t0)), s)" using t0(2) op by (simp add: load_token_def bindL_def check_depth_def bindE_def)
    from loop_token(1) [OF t0(1) this] show ?thesis using True by (simp add: loaded_def)
  next
    case False
    then have dd: "unat (depth ld + 1) = Suc ?d" "Suc ?d \<le> MAX_DEPTH" using deeper by simp_all
    define ld1 where "ld1 = ld\<lparr>ld_parser := p0, depth := depth ld + 1, ld_stack := Array_elem [] # ld_stack ld\<rparr>"
    have "load_token nums fac t0 item (ld\<lparr>ld_parser := p0\<rparr>) s = (Inr (Next ld1), s)"
      using t0(2) op False by (simp add: load_token_def bindL_def check_depth_def bindE_def push_elem_def ld1_def)
    from loop_token(2) [OF t0(1) this] have run1: "loader_loop nums fac t item ld s = loader_loop nums fac t0 item ld1 s" .
    have el: "loaded_elems nums fac t0 item ld1 s p1 [] (ld_stack ld) vs"
      by (rule elems_load [OF IH]) (use p1(1) dd inv n len in \<open>simp_all add: ld1_def tokens_container\<close>)
    show ?thesis
    proof (cases "first_some (map (fault nums (Suc ?d)) vs)")
      case (Some f)
      then show ?thesis using el False dd by (simp add: loaded_elems_def loaded_def ld1_def run1)
    next
      case None
      obtain t1 item1 ks s1 as where r: "loader_loop nums fac t0 item ld1 s = loader_loop nums fac t1 item1 (ld1\<lparr>ld_parser := p1, ld_keys := ks, ld_stack := Array_elem as # ld_stack ld\<rparr>) s1"
        "load_inv fac ks s1" "moved (sum_list (map need vs)) s s1" "\<not> check_only ld \<longrightarrow> list_all2 (denotes nums (items s1)) as vs"
        using el None dd by (auto simp: loaded_elems_def ld1_def)
      have f: "\<forall>v \<in> set vs. fault nums (Suc ?d) v = None" "fault nums ?d (Arr vs) = None" using None False by (auto simp: first_some_None)
      have b: "arena s1 \<noteq> []" "length vs < 2 ^ 64" using n r(3) len length_elems [of vs] by (auto simp: moved_def tokens_container)
      have e: "ld1\<lparr>ld_parser := p1, ld_keys := ks, ld_stack := Array_elem as # ld_stack ld\<rparr> = ld\<lparr>ld_parser := p1, ld_keys := ks, depth := depth ld + 1, ld_stack := Array_elem as # ld_stack ld\<rparr>"
        by (simp add: ld1_def)
      from close_Arr [OF t2 r(2) b r(4) f(1) dd(2) e, of t1 item1] moved_trans [OF r(3)] show ?thesis
        unfolding loaded_def f(2) option.case run1 r(1) by (fastforce simp: add.commute)
    qed
  qed
qed

lemma makes_object:
  assumes inv: "load_inv fac keys s" "arena s \<noteq> []" and ns: "list_all2 (\<lambda>n m. items s n = Some (Atomic (String_item (fst m)))) ns ms"
    and as: "list_all2 (\<lambda>a m. denotes nums (items s) a (snd m)) as ms" and f: "\<forall>m \<in> set ms. fault nums (Suc d) (snd m) = None" "Suc d \<le> MAX_DEPTH"
  shows "case first_dup [] (map fst ms) of
      Some k \<Rightarrow> \<exists>s'. createJSONObject ns as s = (Inl (Duplicate_key k), s') \<and> grows (items s) (items s')
    | None \<Rightarrow> \<exists>a s'. createJSONObject ns as s = (Inr a, s') \<and> denotes nums (items s') a (Obj ms) \<and> load_inv fac keys s' \<and> moved 1 s s'"
proof -
  have s: "store_inv s" using inv(1) by (simp add: load_inv_def)
  have l: "length ns = length ms" "length as = length ms" using ns as by (auto dest: list_all2_lengthD)
  have n: "items s (ns ! i) = Some (Atomic (String_item (fst (ms ! i))))" if "i < length ms" for i using list_all2_nthD [OF ns] that l by simp
  have v: "denotes nums (items s) (as ! i) (snd (ms ! i))" if "i < length ms" for i using list_all2_nthD [OF as] that l by simp
  have rv: "\<forall>x \<in> set as. ready_value (items s) x"
  proof
    fix x assume "x \<in> set as"
    then obtain i where "i < length ms" "x = as ! i" using l by (auto simp: in_set_conv_nth)
    then show "ready_value (items s) x" using v f denotes_ready [of nums "items s" x "snd (ms ! i)" d] by simp
  qed
  have kn: "\<forall>x \<in> set ns. key_str (items s) x \<noteq> None" using n l by (auto simp: in_set_conv_nth key_str_def)
  have k: "map (the \<circ> key_str (items s)) ns = map fst ms" using n l by (intro nth_equalityI) (simp_all add: key_str_def)
  note run = createJSONObject_run [OF s inv(2) _ kn rv, unfolded k]
  show ?thesis
  proof (cases "first_dup [] (map fst ms)")
    case (Some k)
    then show ?thesis using run l by simp
  next
    case None
    then obtain a j ks s' where a: "createJSONObject ns as s = (Inr a, s')" "items s a = None" "others_same a (items s) (items s')" "items s' a = Some (JSON j)"
      "content_of j = Pairs (zip ns as) ks" "theHeight j = tall (items s) as" "arena s' = tl (arena s)" "store_inv s'" "obj_ok (key_str (items s')) (zip ns as) ks"
      using run l by auto
    have g: "grows (items s) (items s')" using a(2,3) by (intro grows_others)
    have "list_all2 (denotes nums (items s)) as (map snd ms)" using as by (simp add: list_all2_map2)
    then have H: "tall (items s) as = height (Obj ms)" using denotes_tall [of nums "items s" as "map snd ms"] by (simp add: foldr_map comp_def)
    have "denotes nums (items s') a (Obj ms)"
    proof (rule denotes_Obj [where j = j and ps = "zip ns as" and ks = ks])
      show "items s' (fst (zip ns as ! i)) = Some (Atomic (String_item (fst (ms ! i)))) \<and> denotes nums (items s') (snd (zip ns as ! i)) (snd (ms ! i))" if "i < length ms" for i
        using that n [OF that] denotes_mono [OF v [OF that] g] growsD(1) [OF g] l by simp
    qed (use a H l in simp_all)
    then show ?thesis using None a(1,7) g load_inv_grows [OF inv(1) g a(8)] by (auto simp: moved_def)
  qed
qed

lemma checks_object:
  assumes "list_all2 (\<lambda>n m. items s n = Some (Atomic (String_item (fst m)))) ns ms"
  shows "check_duplicate_keys ns s = (case first_dup [] (map fst ms) of None \<Rightarrow> Inr () | Some k \<Rightarrow> Inl (Duplicate_key k), s)"
proof -
  have l: "length ns = length ms" using assms by (rule list_all2_lengthD)
  have n: "items s (ns ! i) = Some (Atomic (String_item (fst (ms ! i))))" if "i < length ms" for i using list_all2_nthD [OF assms] that l by simp
  have "\<forall>x \<in> set ns. key_str (items s) x \<noteq> None" using n l by (auto simp: in_set_conv_nth key_str_def)
  moreover have "map (the \<circ> key_str (items s)) ns = map fst ms" using n l by (intro nth_equalityI) (simp_all add: key_str_def)
  ultimately show ?thesis using check_duplicate_keys_run by metis
qed

lemma close_Obj:
  assumes t2: "\<forall>t. parser_next t p1 = Inr (True, t2, p')" "tok_type t2 = End_object" and inv: "load_inv fac ks s" "arena s \<noteq> []"
    and ms: "list_all2 (\<lambda>n m. items s n = Some (Atomic (String_item (fst m)))) ns ms" "\<not> check_only ld \<longrightarrow> list_all2 (\<lambda>a m. denotes nums (items s) a (snd m)) as ms"
      "\<forall>m \<in> set ms. fault nums (Suc (unat (depth ld))) (snd m) = None" "Suc (unat (depth ld)) \<le> MAX_DEPTH"
    and ld1: "ld1 = ld\<lparr>ld_parser := p1, ld_keys := ks, depth := depth ld + 1, ld_stack := Object_elem ns as # ld_stack ld\<rparr>"
  shows "case first_dup [] (map fst ms) of
      Some k \<Rightarrow> \<exists>s'. loader_loop nums fac t item ld1 s = (Inl (Raised (Duplicate_key k)), s') \<and> grows (items s) (items s')
    | None \<Rightarrow> \<exists>item' s'. loader_loop nums fac t item ld1 s = finish nums fac t2 item' (ld\<lparr>ld_parser := p', ld_keys := ks\<rparr>) s' \<and> load_inv fac ks s' \<and> moved 1 s s'
      \<and> (\<not> check_only ld \<longrightarrow> (\<exists>a. item' = Some a \<and> denotes nums (items s') a (Obj ms)))"
proof -
  let ?ld = "ld\<lparr>ld_parser := p', ld_keys := ks\<rparr>"
  have close: "load_token nums fac t2 item (ld1\<lparr>ld_parser := p'\<rparr>) s = (if check_only ld then bindS (liftS (check_duplicate_keys ns)) (\<lambda>_. returnS (Item item ?ld)) s
      else bindS (liftS (createJSONObject ns as)) (\<lambda>a. returnS (Item (Some a) ?ld)) s)"
    using t2(2) by (simp add: load_token_def close_container_def ld1 Let_def loader_swap)
  have p2: "\<forall>t. parser_next t (ld_parser ld1) = Inr (True, t2, p')" using t2(1) by (simp add: ld1)
  show ?thesis
  proof (cases "check_only ld")
    case True
    then have c: "load_token nums fac t2 item (ld1\<lparr>ld_parser := p'\<rparr>) s = (case first_dup [] (map fst ms) of None \<Rightarrow> Inr (Item item ?ld) | Some k \<Rightarrow> Inl (Raised (Duplicate_key k)), s)"
      using close checks_object [OF ms(1)] by (simp add: bindS_def liftS_def split: option.splits)
    show ?thesis using loop_token(1) [OF p2] loop_token(3) [OF p2] c True inv(1) by (cases "first_dup [] (map fst ms)") (auto intro!: exI)
  next
    case False
    note m = makes_object [OF inv ms(1) _ ms(3,4), of as]
    show ?thesis
    proof (cases "first_dup [] (map fst ms)")
      case (Some k)
      with m ms(2) False obtain s' where "createJSONObject ns as s = (Inl (Duplicate_key k), s')" "grows (items s) (items s')" by auto
      then show ?thesis using Some close False loop_token(1) [OF p2] by (simp add: bindS_def liftS_def)
    next
      case None
      with m ms(2) False obtain a s' where a: "createJSONObject ns as s = (Inr a, s')" "denotes nums (items s') a (Obj ms)" "load_inv fac ks s'" "moved 1 s s'" by auto
      then have "load_token nums fac t2 item (ld1\<lparr>ld_parser := p'\<rparr>) s = (Inr (Item (Some a) ?ld), s')" using close False by (simp add: bindS_def liftS_def)
      from loop_token(3) [OF p2 this] show ?thesis unfolding None option.case using a(2-4) by blast
    qed
  qed
qed

lemma loads_Obj:
  assumes IH: "\<forall>m \<in> set ms. loads nums fac (snd m)" shows "loads nums fac (Obj ms)"
  unfolding loads_def
proof (intro allI impI)
  fix t item s p' and ld :: loader
  assume h: "hands (ld_parser ld) (tokens_of (Obj ms)) p'" and d: "unat (depth ld) \<le> MAX_DEPTH" and inv: "load_inv fac (ld_keys ld) s"
    and n: "need (Obj ms) \<le> length (arena s)" and len: "length (tokens_of (Obj ms)) < 2 ^ 64"
  let ?d = "unat (depth ld)"
  from h obtain t0 p0 where t0: "\<forall>t. parser_next t (ld_parser ld) = Inr (True, t0, p0)" "tok_type t0 = Begin_object" "hands p0 (members ms @ [tsym End_object]) p'"
    unfolding tokens_container by (rule hands_ConsE) simp
  from t0(3) obtain p1 where p1: "hands p0 (members ms) p1" "hands p1 [tsym End_object] p'" unfolding hands_append by blast
  from p1(2) obtain t2 where t2: "\<forall>t. parser_next t p1 = Inr (True, t2, p')" "tok_type t2 = End_object" by (rule hands_ConsE) simp
  show "loaded nums fac t item ld s p' (Obj ms)"
  proof (cases "MAX_DEPTH \<le> ?d")
    case True
    then have "load_token nums fac t0 item (ld\<lparr>ld_parser := p0\<rparr>) s = (Inl (Too_deep (tok_loc t0)), s)" using t0(2) by (simp add: load_token_def bindL_def check_depth_def)
    from loop_token(1) [OF t0(1) this] show ?thesis using True by (simp add: loaded_def)
  next
    case False
    then have dd: "unat (depth ld + 1) = Suc ?d" "Suc ?d \<le> MAX_DEPTH" using deeper by simp_all
    define ld1 where "ld1 = ld\<lparr>ld_parser := p0, depth := depth ld + 1, ld_stack := Object_elem [] [] # ld_stack ld\<rparr>"
    have "load_token nums fac t0 item (ld\<lparr>ld_parser := p0\<rparr>) s = (Inr (Next ld1), s)"
      using t0(2) False by (simp add: load_token_def bindL_def check_depth_def push_elem_def ld1_def)
    from loop_token(2) [OF t0(1) this] have run1: "loader_loop nums fac t item ld s = loader_loop nums fac t0 item ld1 s" .
    have el: "loaded_members nums fac t0 item ld1 s p1 [] [] (ld_stack ld) ms"
      by (rule members_load [OF IH]) (use p1(1) dd inv n len in \<open>simp_all add: ld1_def tokens_container\<close>)
    show ?thesis
    proof (cases "first_some (map (\<lambda>m. fault nums (Suc ?d) (snd m)) ms)")
      case (Some f)
      then show ?thesis using el False dd by (simp add: loaded_members_def loaded_def ld1_def run1)
    next
      case None
      obtain t1 item1 ks s1 ns as where r: "loader_loop nums fac t0 item ld1 s = loader_loop nums fac t1 item1 (ld1\<lparr>ld_parser := p1, ld_keys := ks, ld_stack := Object_elem ns as # ld_stack ld\<rparr>) s1"
        "load_inv fac ks s1" "moved (sum_list (map (\<lambda>m. Suc (need (snd m))) ms)) s s1" "list_all2 (\<lambda>n m. items s1 n = Some (Atomic (String_item (fst m)))) ns ms"
        "\<not> check_only ld \<longrightarrow> list_all2 (\<lambda>a m. denotes nums (items s1) a (snd m)) as ms"
        using el None dd by (auto simp: loaded_members_def ld1_def)
      have f: "\<forall>m \<in> set ms. fault nums (Suc ?d) (snd m) = None" "fault nums ?d (Obj ms) = map_option F_duplicate (first_dup [] (map fst ms))"
        using None False first_some_None [of "map (\<lambda>m. fault nums (Suc ?d) (snd m)) ms"] by auto
      have ar: "arena s1 \<noteq> []" and g: "grows (items s) (items s1)" using n r(3) by (auto simp: moved_def)
      have e: "ld1\<lparr>ld_parser := p1, ld_keys := ks, ld_stack := Object_elem ns as # ld_stack ld\<rparr> = ld\<lparr>ld_parser := p1, ld_keys := ks, depth := depth ld + 1, ld_stack := Object_elem ns as # ld_stack ld\<rparr>"
        by (simp add: ld1_def)
      note c = close_Obj [OF t2 r(2) ar r(4,5) f(1) dd(2) e, of t1 item1]
      show ?thesis
      proof (cases "first_dup [] (map fst ms)")
        case (Some k)
        then show ?thesis using c grows_trans [OF g] unfolding loaded_def f(2) run1 r(1) by auto
      next
        case no_dup: None
        then have f2: "fault nums ?d (Obj ms) = None" using f(2) by simp
        from c no_dup moved_trans [OF r(3)] show ?thesis unfolding loaded_def f2 option.case run1 r(1) by (fastforce simp: add.commute)
      qed
    qed
  qed
qed

lemma loads_all: "loads nums fac v"
proof (induction v)
  case (Obj ms)
  then show ?case by (intro loads_Obj) (auto simp: snds.intros)
qed (auto intro: loads_scalar loads_Arr)

section \<open>The text\<close>

text \<open>The values that are to be returned: with \<open>strip\<close>, the elements of a top-level array instead of the array.\<close>

fun tops :: "bool \<Rightarrow> jtree list \<Rightarrow> jtree list" where
  "tops strip [] = []"
| "tops strip (Arr xs # vs) = (if strip then xs else [Arr xs]) @ tops strip vs"
| "tops strip (v # vs) = v # tops strip vs"

lemma tops_Cons: "\<not> strip \<or> (\<forall>xs. v \<noteq> Arr xs) \<Longrightarrow> tops strip (v # vs) = v # tops strip vs"
  by (cases v) auto

inductive position :: "bool \<Rightarrow> bool \<Rightarrow> atok list \<Rightarrow> jtree list \<Rightarrow> bool" for strip where
  Pos_top: "list_all container vs \<Longrightarrow> position strip False (concat (map tokens_of vs)) (tops strip vs)"
| Pos_first: "strip \<Longrightarrow> list_all container vs \<Longrightarrow> position strip True (elems xs @ tsym End_array # concat (map tokens_of vs)) (xs @ tops strip vs)"
| Pos_next: "strip \<Longrightarrow> list_all container vs \<Longrightarrow> xs \<noteq> [] \<Longrightarrow>
    position strip True (tsym Value_separator # elems xs @ tsym End_array # concat (map tokens_of vs)) (xs @ tops strip vs)"

definition top_level :: "bool \<Rightarrow> bool \<Rightarrow> loader \<Rightarrow> bool" where
  "top_level strip stripped ld \<longleftrightarrow> ld_stack ld = [] \<and> depth ld = 0 \<and> strip_top_level_array ld = strip \<and> stripped_top_level_array ld = stripped
    \<and> \<not> unbox_top_level_arrays ld \<and> \<not> check_only ld"

definition goes_on :: "numbers \<Rightarrow> factory \<Rightarrow> bool \<Rightarrow> loader \<Rightarrow> parser \<Rightarrow> jtree list \<Rightarrow> atok list \<Rightarrow> bool" where
  "goes_on nums fac strip ld pe W w \<longleftrightarrow> (\<exists>ld' stripped. ld_keys ld' = ld_keys ld \<and> top_level strip stripped ld'
    \<and> (\<forall>t. \<exists>t'. \<forall>item s. loader_loop nums fac t item ld s = loader_loop nums fac t' item ld' s)
    \<and> (W = [] \<and> ld_parser ld' = pe
      \<or> (\<exists>v W' w'. W = v # W' \<and> hands (ld_parser ld') (tokens_of v @ w') pe \<and> position strip stripped w' W' \<and> value_pos ld' v \<and> length (tokens_of v @ w') \<le> length w)))"

lemma goes_on_step:
  assumes "goes_on nums fac strip ld1 pe W w" "ld_keys ld1 = ld_keys ld" "\<And>t item s. loader_loop nums fac t item ld s = loader_loop nums fac t1 item ld1 s" "length w \<le> length w'"
  shows "goes_on nums fac strip ld pe W w'"
proof -
  from assms(1) obtain ld' stripped where a: "ld_keys ld' = ld_keys ld1" "top_level strip stripped ld'" "\<forall>t. \<exists>t'. \<forall>item s. loader_loop nums fac t item ld1 s = loader_loop nums fac t' item ld' s"
    "W = [] \<and> ld_parser ld' = pe
      \<or> (\<exists>v W' w'. W = v # W' \<and> hands (ld_parser ld') (tokens_of v @ w') pe \<and> position strip stripped w' W' \<and> value_pos ld' v \<and> length (tokens_of v @ w') \<le> length w)"
    unfolding goes_on_def by blast
  from a(3) obtain t' where "\<forall>item s. loader_loop nums fac t1 item ld1 s = loader_loop nums fac t' item ld' s" by blast
  then have "\<forall>t. \<exists>t'. \<forall>item s. loader_loop nums fac t item ld s = loader_loop nums fac t' item ld' s" using assms(3) by auto
  moreover have "W = [] \<and> ld_parser ld' = pe
      \<or> (\<exists>v W' w'1. W = v # W' \<and> hands (ld_parser ld') (tokens_of v @ w'1) pe \<and> position strip stripped w'1 W' \<and> value_pos ld' v \<and> length (tokens_of v @ w'1) \<le> length w')"
  proof -
    have "length (x :: atok list) \<le> length w \<Longrightarrow> length x \<le> length w'" for x using assms(4) by simp
    then show ?thesis using a(4) by blast
  qed
  ultimately show ?thesis unfolding goes_on_def using a(1,2) assms(2) by metis
qed

text \<open>The brackets of a top-level array that is stripped.\<close>

lemma strip_bracket:
  assumes h: "hands (ld_parser ld) (tsym tt # w) pe" and ld: "top_level True stripped ld" and tt: "tt = (if stripped then End_array else Begin_array)"
  obtains t1 ld1 where "\<And>t item s. loader_loop nums fac t item ld s = loader_loop nums fac t1 item ld1 s" "hands (ld_parser ld1) w pe" "top_level True (\<not> stripped) ld1" "ld_keys ld1 = ld_keys ld"
proof -
  from h obtain t1 p1 where t1: "\<forall>t0. parser_next t0 (ld_parser ld) = Inr (True, t1, p1)" "tok_type t1 = tt" "hands p1 w pe" by (rule hands_ConsE) simp
  let ?ld = "ld\<lparr>ld_parser := p1, stripped_top_level_array := \<not> stripped\<rparr>"
  have "load_token nums fac t1 item (ld\<lparr>ld_parser := p1\<rparr>) s = (Inr (Next ?ld), s)" for item s
    using ld t1(2) tt by (simp add: load_token_def open_array_def close_array_def top_level_def bindL_def)
  note run = loop_token(2) [OF t1(1) this]
  show thesis by (rule that [OF run]) (use t1(3) ld in \<open>simp_all add: top_level_def\<close>)
qed

lemma goes_on_here:
  "position strip stripped w' W' \<Longrightarrow> value_pos ld v \<Longrightarrow> hands (ld_parser ld) (tokens_of v @ w') pe \<Longrightarrow> top_level strip stripped ld \<Longrightarrow>
    goes_on nums fac strip ld pe (v # W') (tokens_of v @ w')"
  unfolding goes_on_def by (intro exI [of _ ld] exI [of _ stripped]) auto

lemma position_elem:
  "strip \<Longrightarrow> list_all container vs \<Longrightarrow> position strip True ((if xs = [] then [] else tsym Value_separator # elems xs) @ tsym End_array # concat (map tokens_of vs)) (xs @ tops strip vs)"
  using Pos_first [of strip vs "[]"] Pos_next [of strip vs xs] by (cases "xs = []") (simp_all add: elems_def)

lemma value_pos_top: "top_level strip stripped ld \<Longrightarrow> stripped \<or> \<not> strip \<or> (\<forall>xs. v \<noteq> Arr xs) \<Longrightarrow> value_pos ld v"
  by (auto simp: value_pos_def top_level_def split: jtree.splits)

lemma advance:
  assumes "position strip stripped w W" "hands (ld_parser ld) w pe" "top_level strip stripped ld"
  shows "goes_on nums fac strip ld pe W w"
  using assms
proof (induction "length w" arbitrary: stripped w ld rule: less_induct)
  case less
  have bracket: "goes_on nums fac strip ld pe W w"
    if w: "w = tsym (if stripped then End_array else Begin_array) # w'" "strip" "position strip (\<not> stripped) w' W" for w'
  proof -
    have "hands (ld_parser ld) (tsym (if stripped then End_array else Begin_array) # w') pe" "top_level True stripped ld" using less.prems(2,3) w(1,2) by simp_all
    then show ?thesis
    proof (rule strip_bracket [OF _ _ refl, where nums = nums and fac = fac])
      fix t1 ld1
      assume ld1: "\<And>t item s. loader_loop nums fac t item ld s = loader_loop nums fac t1 item ld1 s" "hands (ld_parser ld1) w' pe" "top_level True (\<not> stripped) ld1" "ld_keys ld1 = ld_keys ld"
      have "goes_on nums fac strip ld1 pe W w'" by (rule less.hyps [of _ "\<not> stripped"]) (use w ld1(2,3) in auto)
      then show ?thesis by (rule goes_on_step [OF _ ld1(4,1)]) (use w(1) in simp)
    qed
  qed
  from less.prems(1) show ?case
  proof cases
    case (Pos_top vs)
    show ?thesis
    proof (cases vs)
      case Nil
      then show ?thesis unfolding goes_on_def using less.prems(2,3) Pos_top by (intro exI [of _ ld] exI [of _ False]) auto
    next
      case (Cons v vs')
      show ?thesis
      proof (cases "strip \<and> (\<exists>xs. v = Arr xs)")
        case True
        then obtain xs where v: "v = Arr xs" by blast
        show ?thesis by (rule bracket) (use Pos_top Cons v True position.Pos_first [of strip vs' xs] in \<open>auto simp: tokens_container\<close>)
      next
        case False
        then show ?thesis using Pos_top Cons tops_Cons [of strip v vs'] goes_on_here [OF position.Pos_top value_pos_top, of vs' strip stripped ld v pe] less.prems(2,3) by auto
      qed
    qed
  next
    case (Pos_first vs xs)
    show ?thesis
    proof (cases xs)
      case Nil
      show ?thesis by (rule bracket) (use Pos_first Nil position.Pos_top [of vs strip] in \<open>auto simp: elems_def\<close>)
    next
      case (Cons v xs')
      then show ?thesis using goes_on_here [OF position_elem [of strip vs xs'] value_pos_top [of strip True ld v], of pe] Pos_first less.prems(2,3) by (simp add: elems_Cons)
    qed
  next
    case (Pos_next vs xs)
    have "hands (ld_parser ld) (tsym Value_separator # (elems xs @ tsym End_array # concat (map tokens_of vs))) pe" using less.prems(2) Pos_next by simp
    then obtain t1 p1 where p1: "hands p1 (elems xs @ tsym End_array # concat (map tokens_of vs)) pe"
      "\<And>t item s. loader_loop nums fac t item ld s = loader_loop nums fac t1 item (ld\<lparr>ld_parser := p1\<rparr>) s"
      by (rule loop_separator [where nums = nums and fac = fac, OF _ insertI2 [OF insertI1]]) blast
    have "goes_on nums fac strip (ld\<lparr>ld_parser := p1\<rparr>) pe W (elems xs @ tsym End_array # concat (map tokens_of vs))"
      by (rule less.hyps [of _ True]) (use p1(1) less.prems(3) Pos_next in \<open>auto simp: top_level_def intro: position.Pos_first\<close>)
    then show ?thesis by (rule goes_on_step) (use p1(2) Pos_next in auto)
  qed
qed

text \<open>One call of \<open>next\<close>.\<close>

lemma next_value:
  assumes pos: "position strip stripped w (v # W)" "hands (ld_parser ld) w pe" "top_level strip stripped ld" and inv: "load_inv fac (ld_keys ld) s"
    and n: "need v \<le> length (arena s)" and len: "length w < 2 ^ 64"
  shows "case fault nums 0 v of
      Some f \<Rightarrow> \<exists>e s'. loader_next nums fac ld s = (Inl e, s') \<and> fault_of e = Some f \<and> grows (items s) (items s')
    | None \<Rightarrow> \<exists>a ld' s' w' stripped'. loader_next nums fac ld s = (Inr (Some (Some a), ld'), s') \<and> denotes nums (items s') a v \<and> moved (need v) s s'
      \<and> load_inv fac (ld_keys ld') s' \<and> position strip stripped' w' W \<and> hands (ld_parser ld') w' pe \<and> top_level strip stripped' ld' \<and> length w' \<le> length w"
proof -
  from advance [OF pos, of nums fac, unfolded goes_on_def] obtain ld1 stripped1 w1 where ld1: "ld_keys ld1 = ld_keys ld" "top_level strip stripped1 ld1"
    "\<forall>t. \<exists>t'. \<forall>item s. loader_loop nums fac t item ld s = loader_loop nums fac t' item ld1 s" "hands (ld_parser ld1) (tokens_of v @ w1) pe"
    "position strip stripped1 w1 W" "value_pos ld1 v" "length (tokens_of v @ w1) \<le> length w" by blast
  from ld1(3) obtain t1 where run: "loader_next nums fac ld s = loader_loop nums fac t1 None ld1 s" unfolding loader_next_def by metis
  from ld1(4) obtain q where q: "hands (ld_parser ld1) (tokens_of v) q" "hands q w1 pe" unfolding hands_append by blast
  have d: "unat (depth ld1) = 0" "\<not> check_only ld1" "ld_stack ld1 = []" using ld1(2) by (simp_all add: top_level_def)
  have "loaded nums fac t1 None ld1 s q v" using loads_all [of nums fac v] q(1) ld1(1,6,7) d(1) inv n len by (auto simp: loads_def)
  note l = this [unfolded loaded_def d(1)]
  show ?thesis
  proof (cases "fault nums 0 v")
    case (Some f)
    then show ?thesis using l run by simp
  next
    case None
    with l d(2) obtain t' a ks s' where a: "loader_loop nums fac t1 None ld1 s = finish nums fac t' (Some a) (ld1\<lparr>ld_parser := q, ld_keys := ks\<rparr>) s'" "load_inv fac ks s'" "moved (need v) s s'"
      "denotes nums (items s') a v" by auto
    let ?ld = "ld1\<lparr>ld_parser := q, ld_keys := ks\<rparr>"
    have "loader_next nums fac ld s = (Inr (Some (Some a), ?ld), s')" using run a(1) d by (simp add: finish_def)
    moreover have "top_level strip stripped1 ?ld" using ld1(2) by (simp add: top_level_def)
    ultimately show ?thesis using None a ld1(5,7) q(2) by (auto intro!: exI)
  qed
qed

lemma next_item_end:
  assumes pos: "position strip stripped w []" "hands (ld_parser ld) w pe" "top_level strip stripped ld" and e: "\<forall>t. \<exists>t' p'. parser_next t pe = Inr (False, t', p')"
  shows "\<exists>ld'. loader_next nums fac ld s = (Inr (None, ld'), s)"
proof -
  from advance [OF pos, of nums fac, unfolded goes_on_def] obtain ld1 where ld1: "\<forall>t. \<exists>t'. \<forall>item s. loader_loop nums fac t item ld s = loader_loop nums fac t' item ld1 s"
    "ld_parser ld1 = pe" by blast
  from ld1(1) obtain t1 where run: "loader_next nums fac ld s = loader_loop nums fac t1 None ld1 s" unfolding loader_next_def by metis
  from e obtain t' p' where "parser_next t1 pe = Inr (False, t', p')" by blast
  then show ?thesis using run ld1(2) by (simp add: loader_loop.simps [of nums fac t1])
qed

text \<open>What \<open>jn:parse-json\<close> returns: the values up to the first fault, and the fault.\<close>

fun expected :: "numbers \<Rightarrow> bool \<Rightarrow> bool \<Rightarrow> jtree list \<Rightarrow> jtree list \<times> load_fault option" where
  "expected nums multiple got [] = ([], None)"
| "expected nums multiple got (v # W) = (case fault nums 0 v of Some f \<Rightarrow> ([], Some f)
    | None \<Rightarrow> if \<not> multiple \<and> got then ([], Some F_extra) else let (vs, f) = expected nums multiple True W in (v # vs, f))"

definition as_expected :: "numbers \<Rightarrow> jtree list \<times> load_fault option \<Rightarrow> addr option list \<times> load_err option \<times> json_store \<Rightarrow> bool" where
  "as_expected nums x r \<longleftrightarrow> (\<exists>as. fst r = map Some as \<and> list_all2 (denotes nums (items (snd (snd r)))) as (fst x))
    \<and> (case fst (snd r) of None \<Rightarrow> snd x = None | Some e \<Rightarrow> snd x \<noteq> None \<and> fault_of e = snd x)"

lemma parse_results_ok:
  assumes "position strip stripped w W" "hands (ld_parser ld) w pe" "top_level strip stripped ld" "load_inv fac (ld_keys ld) s" "sum_list (map need W) \<le> length (arena s)"
    "length w < 2 ^ 64" "\<forall>t. \<exists>t' p'. parser_next t pe = Inr (False, t', p')"
  shows "\<exists>xs e s'. parse_results nums fac ps ld s = (xs, e, s') \<and> as_expected nums (expected nums (theAllowMultiple ps) (theGotOne ps) W) (xs, e, s') \<and> grows (items s) (items s')"
  using assms
proof (induction W arbitrary: stripped w ld s ps rule: list.induct)
  case Nil
  from next_item_end [OF Nil.prems(1-3,7)] obtain ld' where "loader_next nums fac ld s = (Inr (None, ld'), s)" by blast
  then show ?case by (simp add: parse_results.simps [of nums fac ps] as_expected_def)
next
  case (Cons v W)
  let ?x = "expected nums (theAllowMultiple ps) (theGotOne ps) (v # W)"
  have n: "need v \<le> length (arena s)" using Cons.prems(5) by simp
  note nv = next_value [OF Cons.prems(1-4) n Cons.prems(6), of nums]
  show ?case
  proof (cases "fault nums 0 v")
    case (Some f)
    with nv obtain e s' where "loader_next nums fac ld s = (Inl e, s')" "fault_of e = Some f" "grows (items s) (items s')" by auto
    then show ?thesis using Some by (simp add: parse_results.simps [of nums fac ps] as_expected_def)
  next
    case None
    with nv obtain a ld' s1 w' stripped' where a: "loader_next nums fac ld s = (Inr (Some (Some a), ld'), s1)" "denotes nums (items s1) a v" "moved (need v) s s1"
      "load_inv fac (ld_keys ld') s1" "position strip stripped' w' W" "hands (ld_parser ld') w' pe" "top_level strip stripped' ld'" "length w' \<le> length w" by auto
    have g: "grows (items s) (items s1)" using a(3) by (simp add: moved_def)
    show ?thesis
    proof (cases "\<not> theAllowMultiple ps \<and> theGotOne ps")
      case True
      then show ?thesis using None a(1) g by (simp add: parse_results.simps [of nums fac ps] as_expected_def)
    next
      case False
      let ?ps = "ps\<lparr>theGotOne := True\<rparr>"
      have "sum_list (map need W) \<le> length (arena s1)" using Cons.prems(5) a(3) by (simp add: moved_def)
      then obtain xs e s' where r: "parse_results nums fac ?ps ld' s1 = (xs, e, s')" "as_expected nums (expected nums (theAllowMultiple ps) True W) (xs, e, s')" "grows (items s1) (items s')"
        using Cons.IH [OF a(5-7,4), of ?ps] Cons.prems(6,7) a(8) by auto
      obtain vs f where x: "expected nums (theAllowMultiple ps) True W = (vs, f)" by fastforce
      from r(2) obtain as where as: "xs = map Some as" "list_all2 (denotes nums (items s')) as vs" "case e of None \<Rightarrow> f = None | Some e \<Rightarrow> f \<noteq> None \<and> fault_of e = f"
        unfolding x as_expected_def fst_conv snd_conv by blast
      have "as_expected nums (v # vs, f) (Some a # xs, e, s')" unfolding as_expected_def fst_conv snd_conv using as denotes_mono [OF a(2) r(3)] by (auto intro!: exI [of _ "a # as"])
      moreover have "?x = (v # vs, f)" using False None x by simp
      moreover have "parse_results nums fac ps ld s = (Some a # xs, e, s')" using a(1) False r(1) by (subst parse_results.simps) auto
      ultimately show ?thesis using grows_trans [OF g r(3)] by simp
    qed
  qed
qed

section \<open>The parser below\<close>

lemma number_typed: "next_tok lx = Inr (True, t, lx') \<Longrightarrow> tok_type t = T_number \<Longrightarrow> tok_numeric t \<noteq> Non_numeric"
  unfolding next_tok_def by (erule next_sound [OF _ cleared_new(1)]) (auto simp: lexeme_def json_number_def number_type_def split: if_splits)

lemma hands_complete:
  assumes "gives lx ts lx'" "stands p lx" "wf_stack (pr_stack p)" "m = pr_allow_multiple p" "accepts m (pr_stack p) (map atok ts @ w)"
  shows "\<exists>p'. hands p (map atok ts) p' \<and> stands p' lx' \<and> wf_stack (pr_stack p') \<and> pr_allow_multiple p' = m \<and> accepts m (pr_stack p') w"
  using assms
proof (induction arbitrary: p rule: gives.induct)
  case (gives_Nil lx)
  then show ?case by auto
next
  case (gives_Cons lx t lx1 ts lx2)
  have "accepts m (pr_stack p) (atok t # map atok ts @ w)" using gives_Cons.prems(4) by simp
  from next_complete_p [OF gives_Cons.prems(1) gives_Cons.hyps(1) gives_Cons.prems(3) this gives_Cons.prems(2)] obtain p1
    where p1: "\<And>t0. parser_next t0 p = Inr (True, t, p1)" "stands p1 lx1" "wf_stack (pr_stack p1)" "pr_allow_multiple p1 = m" "accepts m (pr_stack p1) (map atok ts @ w)" by blast
  from gives_Cons.IH [OF p1(2,3) p1(4) [symmetric] p1(5)] p1(1) number_typed [OF gives_Cons.hyps(1)] show ?case by fastforce
qed

lemma gives_length: "gives lx ts lx' \<Longrightarrow> length ts + length (lx_in lx') \<le> length (lx_in lx)"
proof (induction rule: gives.induct)
  case (gives_Cons lx t lx1 ts lx2)
  then show ?case using lexer_next_shrinks [of new_token lx True t lx1] by (simp add: next_tok_def)
qed simp

text \<open>If multiple texts are allowed, the parser reports the end only at the end of the input.\<close>

definition grounded :: "pstate list \<Rightarrow> bool" where
  "grounded ss \<longleftrightarrow> ss \<noteq> [] \<and> last ss = J0"

lemma grounded_Cons: "grounded (s # ss) \<Longrightarrow> s \<noteq> J0 \<Longrightarrow> grounded ss" "grounded ss \<Longrightarrow> grounded (s # ss)"
  by (auto simp: grounded_def split: if_splits)

lemma turn_grounded:
  assumes "parser_turn t p = Inr r" "grounded (whole p)" "pr_allow_multiple p"
  shows "case r of Continue t' p' \<Rightarrow> grounded (whole p') | Return b t' p' \<Rightarrow> b \<longrightarrow> grounded (pr_stack p')"
proof -
  have g: "pr_state p \<noteq> J0 \<Longrightarrow> grounded (pr_stack p)" using assms(2) grounded_Cons(1) by (simp add: whole_def)
  have j: "pr_state p = J0 \<Longrightarrow> grounded (J0 # pr_stack p)" using assms(2) by (simp add: whole_def)
  have g2: "grounded ss \<Longrightarrow> grounded (s1 # s2 # ss)" for s1 s2 ss by (simp add: grounded_def)
  show ?thesis using assms(1,3) g j
    by (cases "pr_state p")
      (auto simp: parser_turn_def require_and_push_def require_token_def end_or_first_def separator_or_pop_def bindE_eq_Inr pop_state_def whole_def
        intro: grounded_Cons(2) g2 split: if_splits list.splits option.splits dest!: matches_stack token_stack)
qed

lemma loop_grounded:
  "parser_loop t p = Inr (b, t', p') \<Longrightarrow> grounded (whole p) \<Longrightarrow> pr_allow_multiple p \<Longrightarrow> stands p lx \<Longrightarrow> wf_stack (whole p) \<Longrightarrow>
    if b then grounded (pr_stack p') else pr_state p = J0 \<and> (\<exists>t lx'. next_tok lx = Inr (False, t, lx'))"
proof (induction t p arbitrary: lx rule: parser_loop.induct)
  case (1 t p)
  obtain r where r: "parser_turn t p = Inr r" using "1.prems"(1) by (cases "parser_turn t p") (simp_all add: parser_loop.simps [of t p])
  note g = turn_grounded [OF r "1.prems"(2,3)]
  show ?case
  proof (cases r)
    case (Return b1 t1 p1)
    then have e: "b1 = b" "p1 = p'" using "1.prems"(1) r by (simp_all add: parser_loop.simps [of t p])
    show ?thesis
    proof (cases b)
      case True
      then show ?thesis using g Return e by simp
    next
      case False
      then have "pr_state p = J0 \<or> pr_state p = J1" using turn_return [OF "1.prems"(4) r [unfolded Return] "1.prems"(5) refl] e by simp
      moreover have "pr_state p \<noteq> J1" using "1.prems"(2,5) by (auto simp: whole_def grounded_def)
      ultimately have j: "pr_state p = J0" by blast
      then obtain q where q: "peek_token (push_state J0 p) = Inr (T_none, q)"
        using r [unfolded Return] e False "1.prems"(3) by (auto simp: parser_turn_def bindE_eq_Inr split: if_splits)
      have "stands (push_state J0 p) lx" using "1.prems"(4) by simp
      from this q show ?thesis using j False by (cases rule: peek_token_spec) auto
    qed
  next
    case (Continue t1 p1)
    from turn_continue [OF "1.prems"(4) r [unfolded Continue] "1.prems"(5) refl] obtain lx2 where c: "stands p1 lx2" "wf_stack (whole p1)" "pr_allow_multiple p1 = pr_allow_multiple p"
      "pr_state p1 \<notin> {J0, J1}" by blast
    have "parser_loop t1 p1 = Inr (b, t', p')" using "1.prems"(1) r Continue by (simp add: parser_loop.simps [of t p])
    then show ?thesis using "1.IH" [OF r Continue _ _ _ c(1,2)] g Continue c(3,4) "1.prems"(3) by (auto split: if_splits)
  qed
qed

lemma next_grounded:
  assumes "parser_next t p = Inr (b, t', p')" "grounded (pr_stack p)" "pr_allow_multiple p" "stands p lx" "wf_stack (pr_stack p)"
  shows "if b then grounded (pr_stack p') else \<exists>t lx'. next_tok lx = Inr (False, t, lx')"
proof -
  obtain s ss where st: "pr_stack p = s # ss" using assms(2) by (cases "pr_stack p") (auto simp: grounded_def)
  define q where "q = p\<lparr>pr_state := s, pr_stack := ss\<rparr>"
  have "parser_loop t q = Inr (b, t', p')" "stands q lx" "whole q = pr_stack p" "pr_allow_multiple q" using assms st by (simp_all add: parser_next_def pop_state_def q_def stands_def whole_def)
  then show ?thesis using loop_grounded [of t q b t' p' lx] assms(2,5) by (auto split: if_splits)
qed

lemma hands_out_grounded:
  assumes "hands_out p ts p'" "stands p lx" "wf_stack (pr_stack p)" "pr_allow_multiple p" "grounded (pr_stack p)" shows "grounded (pr_stack p')"
  using assms
proof (induction arbitrary: lx rule: hands_out.induct)
  case (hands_Cons t0 p t p1 ts p2)
  from next_sound_p [OF hands_Cons.hyps(1) hands_Cons.prems(1,2) refl] obtain lx1 where "stands p1 lx1" "wf_stack (pr_stack p1)" "pr_allow_multiple p1 = pr_allow_multiple p" by blast
  then show ?case using hands_Cons.IH next_grounded [OF hands_Cons.hyps(1) hands_Cons.prems(4,3,1,2)] hands_Cons.prems(3) by simp
qed

text \<open>What the loader has read.\<close>

lemma hands_out_append: "hands_out p ts p1 \<Longrightarrow> hands_out p1 us p2 \<Longrightarrow> hands_out p (ts @ us) p2"
  by (induction rule: hands_out.induct) (auto intro: hands_out.intros)

lemma loader_loop_reads:
  "loader_loop nums fac t item ld s = (Inr (r, ld'), s') \<Longrightarrow> \<exists>ts p1. hands_out (ld_parser ld) ts p1
    \<and> (if r = None then \<exists>t0 t1. parser_next t0 p1 = Inr (False, t1, ld_parser ld') else p1 = ld_parser ld')"
proof (induction "weight (ld_parser ld)" arbitrary: t item ld s rule: less_induct)
  case less
  from less.prems show ?case
  proof (cases rule: loader_loop_cases)
    case (End t1 p)
    then show ?thesis by (auto intro!: exI [of _ "[]"] hands_Nil)
  next
    case (Next t1 p ld1 s1)
    have "weight (ld_parser ld1) < weight (ld_parser ld)" using next_weight [OF Next(1)] Next(3) by simp
    from less.hyps [OF this Next(4)] show ?thesis using Next(1,3) by (blast intro: hands_Cons)
  next
    case (Array t1 p ld1)
    then show ?thesis by (auto intro!: exI [of _ "[t1]"] intro: hands_out.intros)
  next
    case (Top t1 p i ld1)
    then show ?thesis by (auto intro!: exI [of _ "[t1]"] intro: hands_out.intros)
  next
    case (Add t1 p i ld1 s1 ld2)
    have "weight (ld_parser ld2) < weight (ld_parser ld)" using next_weight [OF Add(1)] Add(5) by simp
    from less.hyps [OF this Add(6)] show ?thesis using Add(1,5) by (blast intro: hands_Cons)
  qed simp_all
qed

lemma parse_results_reads:
  "parse_results nums fac ps ld s = (xs, None, s') \<Longrightarrow> \<exists>ts p1 t0 t1 p2. hands_out (ld_parser ld) ts p1 \<and> parser_next t0 p1 = Inr (False, t1, p2)"
proof (induction "weight (ld_parser ld)" arbitrary: ps ld s xs rule: less_induct)
  case less
  obtain x s1 where n: "loader_next nums fac ld s = (x, s1)" by fastforce
  show ?case
  proof (cases x)
    case (Inl e)
    then show ?thesis using less.prems n by (simp add: parse_results.simps [of nums fac ps])
  next
    case (Inr y)
    obtain r ld1 where y: "y = (r, ld1)" by (cases y)
    note l = n [unfolded Inr y]
    from loader_loop_reads [OF l [unfolded loader_next_def]] obtain ts p1 where p1: "hands_out (ld_parser ld) ts p1"
      "if r = None then \<exists>t0 t1. parser_next t0 p1 = Inr (False, t1, ld_parser ld1) else p1 = ld_parser ld1" by blast
    show ?thesis
    proof (cases r)
      case None
      then show ?thesis using p1 by (simp; blast)
    next
      case (Some i)
      have w: "weight (ld_parser ld1) < weight (ld_parser ld)" using loader_next_weight [OF l [unfolded loader_next_def Some]] .
      from less.prems l Some obtain xs1 where "parse_results nums fac (ps\<lparr>theGotOne := True\<rparr>) ld1 s1 = (xs1, None, s')"
        by (subst (asm) parse_results.simps) (auto split: if_splits prod.splits)
      from less.hyps [OF w this] show ?thesis using p1 Some hands_out_append by (simp; blast)
    qed
  qed
qed

section \<open>Properties\<close>

definition text_bytes :: "input \<Rightarrow> byte list" where
  "text_bytes inp = (let (in_avail, bs) = input_stream inp in snd (skip_bom_bytes in_avail bs))"

lemma skip_bom_bytes_eq:
  "length BOM \<le> in_avail \<Longrightarrow> skip_bom_bytes in_avail buf = (if take 3 buf = BOM then (True, drop 3 buf) else (False, buf))"
  "in_avail < length BOM \<Longrightarrow> skip_bom_bytes in_avail buf = (False, buf)"
proof -
  show "in_avail < length BOM \<Longrightarrow> skip_bom_bytes in_avail buf = (False, buf)" by (simp add: skip_bom_bytes_def)
  assume n: "length BOM \<le> in_avail"
  consider "length buf < 3" | a b c r where "buf = a # b # c # r" by (cases buf; cases "tl buf"; cases "tl (tl buf)") auto
  then show "skip_bom_bytes in_avail buf = (if take 3 buf = BOM then (True, drop 3 buf) else (False, buf))"
  proof cases
    case 1
    then have "take 3 buf \<noteq> BOM" using arg_cong [of "take 3 buf" BOM length] by (auto simp: BOM_def)
    moreover have "snd (skip_bom_bytes in_avail buf) = buf \<and> \<not> fst (skip_bom_bytes in_avail buf)"
      using 1 by (cases buf; cases "tl buf"; cases "tl (tl buf)") (auto simp: skip_bom_bytes_def Let_def)
    ultimately show ?thesis by (cases "skip_bom_bytes in_avail buf") simp
  next
    case 2
    then show ?thesis using n by (simp add: skip_bom_bytes_def BOM_def Let_def)
  qed
qed

lemma json_text_hands:
  assumes "json_text bs vs"
  obtains pe where "hands (new_parser (new_lexer bs) True) (concat (map tokens_of vs)) pe" "\<forall>t. \<exists>t' p'. parser_next t pe = Inr (False, t', p')" "list_all container vs"
    "length (concat (map tokens_of vs)) \<le> length bs"
proof -
  from assms obtain ts lx t lx' where ts: "gives (new_lexer bs) ts lx" "next_tok lx = Inr (False, t, lx')" "json_texts True vs" "map atok ts = concat (map tokens_of vs)"
    unfolding json_text_iff by blast
  have "lang True J0 (map atok ts)" using ts(3,4) by (auto simp: json_texts_def)
  then have "accepts True (pr_stack (new_parser (new_lexer bs) True)) (map atok ts @ [])" unfolding new_parser_ok by (intro acceptsI) simp_all
  from hands_complete [OF ts(1) new_parser_ok(1,2) new_parser_ok(3) [symmetric] this] obtain pe where
    pe: "hands (new_parser (new_lexer bs) True) (map atok ts) pe" "stands pe lx" "wf_stack (pr_stack pe)" "accepts True (pr_stack pe) []" by blast
  have "\<forall>t. \<exists>t' p'. parser_next t pe = Inr (False, t', p')" using next_ends [OF pe(2) ts(2) pe(4,3)] by blast
  moreover have "length (map atok ts) \<le> length bs" using gives_length [OF ts(1)] by (simp add: new_lexer_def)
  ultimately show thesis using that pe(1) ts(3) unfolding ts(4) by (auto simp: json_texts_def)
qed

lemma hands_out_text:
  assumes "hands_out (new_parser (new_lexer bs) True) ts p" "parser_next t0 p = Inr (False, t1, p2)" shows "\<exists>vs. json_text bs vs"
proof -
  let ?p = "new_parser (new_lexer bs) True"
  from hands_out_sound [OF assms(1) new_parser_ok(1,2) new_parser_ok(3) [symmetric]] obtain lx where
    lx: "gives (new_lexer bs) ts lx" "stands p lx" "wf_stack (pr_stack p)" "pr_allow_multiple p = True" "\<forall>w. accepts True (pr_stack p) w \<longrightarrow> accepts True [J0] (map atok ts @ w)"
    unfolding new_parser_ok(4) by blast
  have "grounded (pr_stack p)" using hands_out_grounded [OF assms(1) new_parser_ok(1,2)] by (simp add: new_parser_ok grounded_def)
  then obtain t lx' where "next_tok lx = Inr (False, t, lx')" using next_grounded [OF assms(2) _ _ lx(2,3)] lx(4) by auto
  moreover from next_false [OF assms(2) lx(2,3) lx(4) [symmetric]] lx(5) have "accepts True [J0] (map atok ts @ [])" by blast
  then obtain vs where "json_texts True vs" "map atok ts = concat (map tokens_of vs)" by (auto simp: json_texts_def elim!: acceptsE)
  ultimately show ?thesis using lx(1) unfolding json_text_iff by blast
qed

text \<open>The run of \<open>jn:parse-json\<close> with options that can be read: on a text, and to its end.\<close>

lemma json_parse_run:
  assumes "process_options options ps s0 = (Inr (strip, ps'), s)"
  obtains q ld where "json_parse nums fac inp options ps s0 = parse_results nums fac q ld s" "theAllowMultiple q = theAllowMultiple ps'" "theGotOne q = theGotOne ps'"
    "ld_parser ld = new_parser (new_lexer (text_bytes inp)) True" "top_level strip False ld" "ld_keys ld = []"
proof -
  obtain n bs where i: "input_stream inp = (n, bs)" by fastforce
  define q where "q = (if is_streamable inp then ps'\<lparr>theInput := True\<rparr> else ps')"
  define ld where "ld = new_loader n bs True strip True"
  have "json_parse nums fac inp options ps s0 = parse_results nums fac q ld s" using assms i by (simp add: json_parse_def ld_def q_def Let_def)
  moreover have "ld_parser ld = new_parser (new_lexer (text_bytes inp)) True" using i by (simp add: ld_def new_loader_def text_bytes_def skip_utf8_bom_def case_prod_unfold Let_def)
  moreover have "top_level strip False ld" "ld_keys ld = []" by (simp_all add: ld_def new_loader_def top_level_def)
  ultimately show thesis by (intro that [of q ld]) (simp_all add: q_def)
qed

lemma json_parse_loads:
  assumes opts: "process_options options ps s0 = (Inr (strip, ps'), s)" and s: "store_inv s" "factory_ok fac (items s)"
    and t: "json_text (text_bytes inp) vs" "length (text_bytes inp) < 2 ^ 64" and a: "sum_list (map need (tops strip vs)) \<le> length (arena s)"
  shows "\<exists>xs e s'. json_parse nums fac inp options ps s0 = (xs, e, s')
    \<and> as_expected nums (expected nums (theAllowMultiple ps') (theGotOne ps') (tops strip vs)) (xs, e, s') \<and> grows (items s) (items s')"
proof -
  from json_parse_run [OF opts, of nums fac inp] obtain q ld where run: "json_parse nums fac inp options ps s0 = parse_results nums fac q ld s"
    "theAllowMultiple q = theAllowMultiple ps'" "theGotOne q = theGotOne ps'" "ld_parser ld = new_parser (new_lexer (text_bytes inp)) True" "top_level strip False ld" "ld_keys ld = []" .
  from t(1) obtain pe where pe: "hands (ld_parser ld) (concat (map tokens_of vs)) pe" "\<forall>t. \<exists>t' p'. parser_next t pe = Inr (False, t', p')" "list_all container vs"
    "length (concat (map tokens_of vs)) \<le> length (text_bytes inp)" unfolding run(4) by (rule json_text_hands)
  from pe(4) t(2) have l: "length (concat (map tokens_of vs)) < 2 ^ 64" by simp
  have "load_inv fac (ld_keys ld) s" using s run(6) by (simp add: load_inv_def)
  from parse_results_ok [OF Pos_top [OF pe(3)] pe(1) run(5) this a l pe(2), of nums q] show ?thesis unfolding run(1-3) .
qed

lemma json_parse_ends:
  assumes "process_options options ps s0 = (Inr (strip, ps'), s)" "json_parse nums fac inp options ps s0 = (xs, None, s')"
  shows "\<exists>vs. json_text (text_bytes inp) vs"
proof -
  from json_parse_run [OF assms(1), of nums fac inp] obtain q ld where run: "json_parse nums fac inp options ps s0 = parse_results nums fac q ld s"
    "ld_parser ld = new_parser (new_lexer (text_bytes inp)) True" .
  from parse_results_reads [OF assms(2) [unfolded run(1)]] show ?thesis unfolding run(2) using hands_out_text by blast
qed

text \<open>
  C9: \<open>jn:parse-json\<close> is right from the bytes of the text to the items of the store. If the bytes, after a byte order mark, are a sequence of JSON
  texts, it returns one item per value, or per element of the top-level arrays if these are to be stripped; each item denotes its value, with its members in order and its
  height, in the store that the run leaves. It ends with an exception exactly if a value nests too deep, has a duplicate key or a number out of range, or is one too
  many, and then with the first one in the order of the text; the items before it are returned. If it ends without an exception, the
  bytes are a sequence of JSON texts. A JSON text is one of the grammar \<open>json_text\<close>: a text of RFC 4627 in which no exponent follows a single zero is one, and
  one is a text of RFC 4627 unless it contains control characters, which the code lets pass in strings.
\<close>

theorem json_load:
  assumes opts: "process_options options ps s0 = (Inr (strip, ps'), s)" and s: "store_inv s" "factory_ok fac (items s)"
  shows "(json_text (text_bytes inp) vs \<and> length (text_bytes inp) < 2 ^ 64 \<and> sum_list (map need (tops strip vs)) \<le> length (arena s) \<longrightarrow>
      (\<exists>xs e s'. json_parse nums fac inp options ps s0 = (xs, e, s')
        \<and> as_expected nums (expected nums (theAllowMultiple ps') (theGotOne ps') (tops strip vs)) (xs, e, s') \<and> grows (items s) (items s')))
    \<and> (json_parse nums fac inp options ps s0 = (xs, None, s') \<longrightarrow> (\<exists>vs. json_text (text_bytes inp) vs))
    \<and> (rfc_text (text_bytes inp) vs \<and> (\<forall>nt v. (T_number, nt, v) \<in> set (concat (map tokens_of vs)) \<longrightarrow> \<not> zero_exponent v) \<longrightarrow> json_text (text_bytes inp) vs)
    \<and> (json_text (text_bytes inp) vs \<and> (\<forall>c\<in>set (text_bytes inp). 0x20 \<le> c) \<longrightarrow> rfc_text (text_bytes inp) vs)"
  using json_parse_loads [OF assms, of inp vs nums] json_parse_ends [OF opts, of nums fac inp xs s'] rfc_text_taken [of "text_bytes inp" vs] taken_text_rfc [of "text_bytes inp" vs]
  by simp

definition sample_store :: json_store where
  "sample_store = \<lparr>items = (\<lambda>a. if unat a < 1152 then Some (Atomic (Integer_item (int_text (int (unat a) + SMALL_INTEGER_MIN)))) else if a = 2000 then Some (Atomic (Boolean_item True))
      else if a = 2001 then Some (Atomic (Boolean_item False)) else if a = 2002 then Some (Atomic Null_item) else None),
    arena = [4096, 4112, 4128, 4144, 4160, 4176, 4192, 4208], readers = [], theReaders = replicate 256 None\<rparr>"

definition sample_factory :: factory where
  "sample_factory = \<lparr>theTrueItem = 2000, theFalseItem = 2001, theNullItem = 2002, theSmallIntegers = map of_nat [0..<1152]\<rparr>"

definition sample_numbers :: numbers where
  "sample_numbers = \<lparr>xs_integer = (\<lambda>_. None), xs_decimal = Some, xs_double = Some\<rparr>"

lemma sample_ok: "store_inv sample_store" "factory_ok sample_factory (items sample_store)"
proof -
  have "lists_ok sample_store (\<lambda>_. [])" by (auto simp: lists_ok_def sample_store_def)
  then show "store_inv sample_store" unfolding store_inv_def by (auto simp: sample_store_def)
  have "unat (of_nat i :: u64) = i" if "i < 1152" for i using that by (simp add: unat_of_nat take_bit_nat_eq_self)
  then show "factory_ok sample_factory (items sample_store)"
    by (simp add: factory_ok_def sample_factory_def sample_store_def SMALL_INTEGER_MIN_def SMALL_INTEGER_MAX_def)
qed

lemma sample_text: "json_text [91, 32, 93] [Arr []]"
proof -
  have l: "lexeme Begin_array Non_numeric [] [91]" "lexeme End_array Non_numeric [] [93]" by (simp_all add: lexeme_def structural_text_def)
  have "json_lex lexeme ([] @ [91] @ [32] @ [93] @ []) (map tsym [Begin_array, End_array])"
    using l by (simp only: list.map) (intro json_lex.intros; simp add: is_ws_def)
  then show ?thesis by (simp add: json_text_def tokens_container elems_def)
qed

theorem json_load_witness:
  "\<exists>a s'. json_parse sample_numbers sample_factory (Text [91, 32, 93]) None init_state sample_store = ([Some a], None, s') \<and> denotes sample_numbers (items s') a (Arr [])"
proof -
  have o: "process_options None init_state sample_store = (Inr (False, init_state), sample_store)" by (simp add: process_options_def)
  have b: "text_bytes (Text [91, 32, 93]) = [91, 32, 93]" by (simp add: text_bytes_def skip_bom_bytes_def BOM_def)
  have "sum_list (map need (tops False [Arr []])) \<le> length (arena sample_store)" by (simp add: sample_store_def)
  then have "json_text (text_bytes (Text [91, 32, 93])) [Arr []] \<and> length (text_bytes (Text [91, 32, 93])) < 2 ^ 64 \<and> sum_list (map need (tops False [Arr []])) \<le> length (arena sample_store)"
    unfolding b using sample_text by simp
  from mp [OF json_load [OF o sample_ok, THEN conjunct1] this, of sample_numbers] obtain xs e s' where
    "json_parse sample_numbers sample_factory (Text [91, 32, 93]) None init_state sample_store = (xs, e, s')"
    "as_expected sample_numbers (expected sample_numbers (theAllowMultiple init_state) (theGotOne init_state) (tops False [Arr []])) (xs, e, s')" by blast
  moreover have "expected sample_numbers (theAllowMultiple init_state) (theGotOne init_state) (tops False [Arr []]) = ([Arr []], None)" by (simp add: MAX_DEPTH_def init_state_def)
  ultimately show ?thesis by (auto simp: as_expected_def list_all2_Cons2 split: option.splits)
qed

end
