(* ===== verification/Json_Bytes.thy ===== *)
theory Json_Bytes
  imports Json_Grammar
begin

text \<open>
  What the lexer gives depends on the bytes only, not on the lines and columns that it counts: two lexers at the same place of a text give the same tokens and
  stop at the same place. \<open>sim\<close> relates two lexers with the same bytes left; each function of the lexer takes related lexers to related results.
\<close>

section \<open>The tokens depend on the bytes only\<close>

definition sim :: "lexer \<Rightarrow> lexer \<Rightarrow> bool" where
  "sim lx lx' \<longleftrightarrow> lx_in lx' = lx_in lx \<and> lx_value lx' = lx_value lx"

abbreviation sim_results :: "('e + 'a option \<times> lexer) \<Rightarrow> ('e + 'a option \<times> lexer) \<Rightarrow> bool" where
  "sim_results \<equiv> rel_sum (\<lambda>_ _. True) (rel_prod (=) sim)"

lemma sim_get_char: "sim lx lx' \<Longrightarrow> rel_option (rel_prod (=) sim) (get_char lx) (get_char lx')"
  by (auto simp: sim_def get_char_def Let_def split: list.splits)

lemma sim_simps [simp]:
  "sim lx lx' \<Longrightarrow> sim (append_value s lx) (append_value s lx')" "sim lx lx' \<Longrightarrow> sim (set_cur_loc lx) (set_cur_loc lx')" "sim lx lx' \<Longrightarrow> peek_char lx' = peek_char lx"
  "lx_in lx' = lx_in lx \<Longrightarrow> sim (lx\<lparr>lx_value := v\<rparr>) (lx'\<lparr>lx_value := v\<rparr>)" "sim lx lx' \<Longrightarrow> lx_in lx' = lx_in lx" "sim lx lx' \<Longrightarrow> lx_value lx' = lx_value lx"
  by (simp_all add: sim_def append_value_def set_cur_loc_def peek_char_def)

lemma sim_get_char_cases:
  assumes "sim lx lx'"
  obtains "get_char lx = None" "get_char lx' = None" | c lx1 lx2 where "get_char lx = Some (c, lx1)" "get_char lx' = Some (c, lx2)" "sim lx1 lx2"
  using sim_get_char [OF assms] by (cases "get_char lx"; cases "get_char lx'") auto

lemma sim_fail: "sim lx lx' \<Longrightarrow> sim_results (fail throw e lx) (fail throw e' lx')"
  by (simp add: fail_def)

lemma sim_fails [simp]:
  "sim lx lx' \<Longrightarrow> sim_results (fail_number throw b lx) (fail_number throw b lx')" "sim lx lx' \<Longrightarrow> sim_results (fail_literal throw b lx) (fail_literal throw b lx')"
  "sim lx lx' \<Longrightarrow> sim_results (fail_codepoint throw b cs lx) (fail_codepoint throw b cs lx')"
  by (simp_all add: fail_number_def fail_literal_def fail_codepoint_def sim_fail)

lemma sim_case:
  assumes "sim lx lx'" "sim_results a a'" "\<And>c l l'. sim l l' \<Longrightarrow> sim_results (f c l) (f' c l')"
  shows "sim_results (case get_char lx of None \<Rightarrow> a | Some (c, l) \<Rightarrow> f c l) (case get_char lx' of None \<Rightarrow> a' | Some (c, l) \<Rightarrow> f' c l)"
  by (rule sim_get_char_cases [OF assms(1)]) (simp_all add: assms(2,3))

lemma sim_if: "(b \<Longrightarrow> sim_results x x') \<Longrightarrow> (\<not> b \<Longrightarrow> sim_results y y') \<Longrightarrow> sim_results (if b then x else y) (if b then x' else y')"
  by simp

lemma sim_digits: "sim lx lx' \<Longrightarrow> rel_prod (=) sim (digits_loop b lx) (digits_loop b lx')"
proof (induction b lx arbitrary: lx' rule: digits_loop.induct)
  case (1 b lx)
  show ?case
  proof (cases "peek_char lx")
    case None
    then show ?thesis using "1.prems" by (simp add: digits_loop.simps [of b lx] digits_loop.simps [of b lx'])
  next
    case (Some c)
    then obtain lx1 where g: "get_char lx = Some (c, lx1)" by (auto simp: peek_char_def get_char_def Let_def split: list.splits)
    with "1.prems" obtain lx2 where g2: "get_char lx' = Some (c, lx2)" "sim lx1 lx2" by (auto elim: sim_get_char_cases)
    then show ?thesis using "1.IH" [OF Some _ _ g refl, of "append_value [c] lx2"] "1.prems" Some g
      by (auto simp: digits_loop.simps [of b lx] digits_loop.simps [of b lx'])
  qed
qed

lemma sim_digits_case:
  assumes "sim lx lx'" "\<And>l l'. sim l l' \<Longrightarrow> sim_results (f l) (f' l')" "\<And>l l'. sim l l' \<Longrightarrow> sim_results (g l) (g' l')" "\<And>c l l'. sim l l' \<Longrightarrow> sim_results (h c l) (h' c l')"
  shows "sim_results (case digits_loop b lx of (digits_end.Done, l) \<Rightarrow> f l | (Bad, l) \<Rightarrow> g l | (digits_end.Next c, l) \<Rightarrow> h c l)
    (case digits_loop b lx' of (digits_end.Done, l) \<Rightarrow> f' l | (Bad, l) \<Rightarrow> g' l | (digits_end.Next c, l) \<Rightarrow> h' c l)"
  using sim_digits [OF assms(1), of b] assms(2-4) by (cases "digits_loop b lx"; cases "digits_loop b lx'") (auto split: digits_end.splits)

lemma sim_exp_digits: "sim lx lx' \<Longrightarrow> sim_results (exp_digits throw c lx) (exp_digits throw c lx')"
  unfolding exp_digits_def by (intro sim_if sim_digits_case) simp_all

lemma sim_exp: "sim lx lx' \<Longrightarrow> sim_results (parse_exp throw nt c lx) (parse_exp throw nt c lx')"
  unfolding parse_exp_def Let_def by (intro sim_if sim_case sim_exp_digits) simp_all

lemma sim_frac: "sim lx lx' \<Longrightarrow> sim_results (parse_frac throw c lx) (parse_frac throw c lx')"
  unfolding parse_frac_def Let_def by (intro sim_if sim_case sim_digits_case sim_exp) simp_all

lemma sim_int: "sim lx lx' \<Longrightarrow> sim_results (parse_int throw c lx) (parse_int throw c lx')"
proof -
  assume s: "sim lx lx'"
  then have p: "peek_char (append_value [c] lx') = peek_char (append_value [c] lx)" by simp
  show ?thesis unfolding parse_int_def Let_def p
    by (intro sim_if sim_digits_case sim_frac; (simp add: s)?) (use s in \<open>auto split: option.splits intro: sim_frac\<close>)
qed

lemma sim_number: "lx_in lx' = lx_in lx \<Longrightarrow> sim_results (parse_number throw c lx) (parse_number throw c lx')"
  unfolding parse_number_def Let_def by (intro sim_if sim_case sim_int) simp_all

lemma sim_match: "sim lx lx' \<Longrightarrow> rel_sum (rel_prod (=) sim) sim (match_rest s lx) (match_rest s lx')"
proof (induction s arbitrary: lx lx')
  case (Cons d s)
  from Cons.prems show ?case by (cases rule: sim_get_char_cases) (use Cons in simp_all)
qed simp

lemma sim_literal: "lx_in lx' = lx_in lx \<Longrightarrow> sim_results (parse_literal throw c lx) (parse_literal throw c lx')"
  using sim_match [of "lx\<lparr>lx_value := literal_text (literal_type c)\<rparr>" "lx'\<lparr>lx_value := literal_text (literal_type c)\<rparr>" "tl (literal_text (literal_type c))"]
  unfolding parse_literal_eq by (auto split: sum.splits option.splits)

lemma sim_hex: "sim lx lx' \<Longrightarrow> rel_sum (rel_prod (=) (rel_prod (=) sim)) (rel_prod (=) (rel_prod (=) sim)) (read_hex i cp cs lx) (read_hex i cp cs lx')"
proof (induction i arbitrary: cp cs lx lx')
  case (Suc i)
  from Suc.prems show ?case by (cases rule: sim_get_char_cases) (use Suc in simp_all)
qed simp

lemma sim_codepoint: "sim lx lx' \<Longrightarrow> sim_results (codepoint_loop throw hs cs lx) (codepoint_loop throw hs cs lx')"
proof (induction throw hs cs lx arbitrary: lx' rule: codepoint_loop.induct)
  case (1 throw hs cs lx)
  note h = sim_hex [OF "1.prems", of 4 0 cs]
  show ?case
  proof (cases "read_hex 4 0 cs lx")
    case (Inl x)
    then show ?thesis using h by (cases x) (auto simp: codepoint_loop.simps [of throw hs cs] rel_sum_simps split: sum.splits)
  next
    case (Inr x)
    obtain cp cs1 lx1 where x: "x = (cp, cs1, lx1)" by (cases x)
    with h Inr obtain lx2 where r: "read_hex 4 0 cs lx' = Inr (cp, cs1, lx2)" "sim lx1 lx2" by (auto simp: rel_sum.simps)
    have IH: "sim_results (codepoint_loop throw cp (cs1 @ [c, c']) l) (codepoint_loop throw cp (cs1 @ [c, c']) l')"
      if "is_high_surrogate cp" "\<not> hs \<noteq> 0" "get_char lx1 = Some (c, l0)" "\<not> c \<noteq> of_char CHR 0x5C" "get_char l0 = Some (c', l)" "\<not> c' \<noteq> of_char CHR ''u''" "sim l l'" for c c' l0 l l'
      using "1.IH" [OF Inr x [symmetric] refl that(1-2,3) refl that(4,5) refl that(6,7)] by simp
    from r(2) show ?thesis
    proof (cases rule: sim_get_char_cases)
      case 1
      then show ?thesis using Inr x r by (simp add: codepoint_loop.simps [of throw hs cs])
    next
      case (2 c l0 l0')
      from 2(3) show ?thesis
      proof (cases rule: sim_get_char_cases)
        case 1
        then show ?thesis using Inr x r 2 by (simp add: codepoint_loop.simps [of throw hs cs])
      next
        case (2 c' l l')
        then show ?thesis using Inr x r \<open>get_char lx1 = Some (c, l0)\<close> \<open>get_char lx2 = Some (c, l0')\<close> \<open>sim l0 l0'\<close> IH [of c l0 c' l l']
          by (simp add: codepoint_loop.simps [of throw hs cs])
      qed
    qed
  qed
qed

lemma sim_string: "sim lx lx' \<Longrightarrow> sim_results (string_loop throw loc b lx) (string_loop throw loc' b lx')"
proof (induction throw loc b lx arbitrary: loc' lx' rule: string_loop.induct)
  case (1 throw loc b lx)
  have s: "sim (set_cur_loc lx) (set_cur_loc lx')" using "1.prems" by simp
  from s show ?case
  proof (cases rule: sim_get_char_cases)
    case 1
    then show ?thesis using s by (simp add: string_loop.simps [of throw loc _ lx] string_loop.simps [of throw loc' _ lx'] Let_def sim_fail)
  next
    case (2 c l l')
    show ?thesis
    proof (cases b)
      case True
      show ?thesis
      proof (cases "simple_escape c")
        case (Some d)
        then show ?thesis using "1.IH"(2) [OF refl 2(1) refl True Some] 2 True
          by (simp add: string_loop.simps [of throw loc _ lx] string_loop.simps [of throw loc' _ lx'] Let_def)
      next
        case None
        have cp: "sim_results (parse_codepoint throw l) (parse_codepoint throw l')" using sim_codepoint [OF 2(3)] by (simp add: parse_codepoint_def)
        show ?thesis
        proof (cases "c = of_char CHR ''u''")
          case u: True
          show ?thesis
          proof (cases "parse_codepoint throw l")
            case (Inl e)
            then show ?thesis using cp 2 True None u
              by (auto simp: string_loop.simps [of throw loc _ lx] string_loop.simps [of throw loc' _ lx'] Let_def rel_sum.simps)
          next
            case (Inr x)
            obtain r l1 where x: "x = (r, l1)" by (cases x)
            with cp Inr obtain l2 where l2: "parse_codepoint throw l' = Inr (r, l2)" "sim l1 l2" by (auto simp: rel_sum.simps)
            show ?thesis
            proof (cases r)
              case rn: None
              then show ?thesis using 2 True None u Inr x l2 by (simp add: string_loop.simps [of throw loc _ lx] string_loop.simps [of throw loc' _ lx'] Let_def)
            next
              case (Some q)
              then show ?thesis using "1.IH"(1) [OF refl 2(1) refl True None u Inr x [symmetric] Some, of "append_value (encode q) l2"] 2 True None u Inr x l2
                by (simp add: string_loop.simps [of throw loc _ lx] string_loop.simps [of throw loc' _ lx'] Let_def)
            qed
          qed
        next
          case False
          then show ?thesis using 2 True None by (simp add: string_loop.simps [of throw loc _ lx] string_loop.simps [of throw loc' _ lx'] Let_def sim_fail)
        qed
      qed
    next
      case False
      then show ?thesis using "1.IH"(3) [OF refl 2(1) refl False] "1.IH"(4) [OF refl 2(1) refl False] 2
        by (simp add: string_loop.simps [of throw loc _ lx] string_loop.simps [of throw loc' _ lx'] Let_def)
    qed
  qed
qed

definition same_token :: "bool \<times> token \<times> lexer \<Rightarrow> bool \<times> token \<times> lexer \<Rightarrow> bool" where
  "same_token r r' \<longleftrightarrow> fst r' = fst r \<and> (fst r \<longrightarrow> atok (fst (snd r')) = atok (fst (snd r))) \<and> lx_in (snd (snd r')) = lx_in (snd (snd r))"

lemma next_same: "lx_in lx' = lx_in lx \<Longrightarrow> rel_sum (\<lambda>_ _. True) same_token (lexer_next throw t lx) (lexer_next throw t lx')"
proof (induction throw t lx arbitrary: lx' rule: lexer_next.induct)
  case (1 throw t lx)
  let ?l = "(set_cur_loc lx)\<lparr>lx_value := []\<rparr>"
  show ?case
  proof (cases "get_char (set_cur_loc lx)")
    case None
    then have "get_char (set_cur_loc lx') = None" using "1.prems" by (simp add: get_char_def Let_def split: list.splits)
    then show ?thesis using None "1.prems" by (simp add: lexer_next.simps [of throw t] same_token_def)
  next
    case (Some x)
    obtain c l where x: "x = (c, l)" by (cases x)
    note g = Some [unfolded x]
    from g "1.prems" obtain l' where g': "get_char (set_cur_loc lx') = Some (c, l')" "lx_in l' = lx_in l"
      by (auto simp: get_char_def Let_def split: list.splits)
    consider (WS) "is_ws c" | (String) "c = 34" | (Number) "starts_number c" | (Literal) "starts_literal c"
      | (Struct) "\<not> is_ws c" "c \<noteq> 34" "\<not> starts_number c" "\<not> starts_literal c" by blast
    then show ?thesis
    proof cases
      case WS
      then show ?thesis using "1.IH" [OF refl g refl WS g'(2)] g g'(1) by (simp add: lexer_next.simps [of throw t lx] lexer_next.simps [of throw t lx'])
    next
      case String
      have "sim_results (parse_string throw l) (parse_string throw l')" unfolding parse_string_def by (rule sim_string) (use g'(2) in simp)
      then show ?thesis using next_string [of lx l throw t] next_string [of lx' l' throw t] g g'(1) String
        by (auto simp: bindE_def same_token_def atok_def rel_sum.simps split: option.splits)
    next
      case Number
      from next_number [OF g Number] next_number [OF g'(1) Number] show ?thesis using sim_number [OF g'(2), of throw c]
        by (auto simp: bindE_def same_token_def atok_def rel_sum.simps split: option.splits)
    next
      case Literal
      from next_literal [OF g Literal] next_literal [OF g'(1) Literal] show ?thesis using sim_literal [OF g'(2), of throw c]
        by (auto simp: bindE_def same_token_def atok_def rel_sum.simps split: option.splits)
    next
      case Struct
      from next_structural [OF g Struct] next_structural [OF g'(1) Struct] show ?thesis using g'(2)
        by (auto simp: same_token_def atok_def split: option.splits)
    qed
  qed
qed

text \<open>\<open>reads bs as bs'\<close>: the bytes begin with tokens \<open>as\<close>, and \<open>bs'\<close> is what follows them.\<close>

definition reads :: "byte list \<Rightarrow> atok list \<Rightarrow> byte list \<Rightarrow> bool" where
  "reads bs as bs' \<longleftrightarrow> (\<exists>ts lx'. gives (new_lexer bs) ts lx' \<and> map atok ts = as \<and> lx_in lx' = bs')"

lemma gives_same: "gives lx1 ts lx2 \<Longrightarrow> lx_in lx = lx_in lx1 \<Longrightarrow> \<exists>ts' lx'. gives lx ts' lx' \<and> map atok ts' = map atok ts \<and> lx_in lx' = lx_in lx2"
proof (induction arbitrary: lx rule: gives.induct)
  case (gives_Nil lx1)
  then show ?case by (auto intro: gives.gives_Nil)
next
  case (gives_Cons lx1 t lx2 ts lx3)
  have "rel_sum (\<lambda>_ _. True) same_token (next_tok lx1) (next_tok lx)" unfolding next_tok_def by (rule next_same) (use gives_Cons.prems in simp)
  then obtain t' lx2' where n: "next_tok lx = Inr (True, t', lx2')" "atok t' = atok t" "lx_in lx2' = lx_in lx2"
    using gives_Cons.hyps(1) by (auto simp: same_token_def rel_sum.simps)
  from gives_Cons.IH [OF n(3)] obtain ts' lx' where "gives lx2' ts' lx'" "map atok ts' = map atok ts" "lx_in lx' = lx_in lx3" by blast
  then show ?case using n by (intro exI [of _ "t' # ts'"] exI [of _ lx']) (auto intro: gives.gives_Cons)
qed

lemma new_lexer_in [simp]: "lx_in (new_lexer bs) = bs"
  by (simp add: new_lexer_def)

lemma reads_gives: "reads (lx_in lx) as bs' \<Longrightarrow> \<exists>ts lx'. gives lx ts lx' \<and> map atok ts = as \<and> lx_in lx' = bs'"
  unfolding reads_def using gives_same [of "new_lexer (lx_in lx)" _ _ lx] by fastforce

lemma gives_append: "gives lx (ts @ us) lx' \<longleftrightarrow> (\<exists>lx1. gives lx ts lx1 \<and> gives lx1 us lx')"
  by (induction ts arbitrary: lx) (auto simp: gives_Cons_iff gives_Nil_iff)

lemma reads_append:
  assumes "reads bs (as @ as') bs'" obtains bs1 where "reads bs as bs1" "reads bs1 as' bs'"
proof -
  from assms obtain ts lx' where ts: "gives (new_lexer bs) ts lx'" "map atok ts = as @ as'" "lx_in lx' = bs'" unfolding reads_def by blast
  then obtain us ws where us: "ts = us @ ws" "map atok us = as" "map atok ws = as'" by (auto simp: map_eq_append_conv)
  with ts(1) obtain lx1 where lx1: "gives (new_lexer bs) us lx1" "gives lx1 ws lx'" by (auto simp: gives_append)
  from gives_same [OF lx1(2), of "new_lexer (lx_in lx1)"] have "reads (lx_in lx1) as' bs'" unfolding reads_def using us(3) ts(3) by auto
  moreover have "reads bs as (lx_in lx1)" unfolding reads_def using lx1(1) us(2) by blast
  ultimately show thesis using that by blast
qed

end
