(* ===== verification/Json_Scan.thy ===== *)
theory Json_Scan
  imports Json_Load Json_Bytes
begin

text \<open>
  What a loader that returns the members of top-level arrays one by one has read, for any input: the nesting that it counts is that of the tokens it has been
  handed, so that it is outside of every array exactly between two values. With that it stops, without an exception, only where the text has been a sequence of values.
\<close>

section \<open>Between two values\<close>

definition at_value :: "parser \<Rightarrow> bool" where
  "at_value p \<longleftrightarrow> pr_stack p = [J0] \<and> pr_allow_multiple p \<and> tok_type (pr_peeked p) = T_none \<and> cleared (pr_peeked p)"

lemma get_token_unpeeked: "get_token t p = Inr (b, t', p') \<Longrightarrow> tok_type (pr_peeked p') = T_none"
  by (auto simp: get_token_def bindE_eq_Inr cleared_new split: if_splits)

lemma turn_unpeeked: "parser_turn t p = Inr (Return True t' p') \<Longrightarrow> tok_type (pr_peeked p') = T_none"
  by (cases "pr_state p")
    (auto simp: parser_turn_def require_and_push_def require_token_def end_or_first_def separator_or_pop_def matches_token_def bindE_eq_Inr
      split: if_splits option.splits dest: get_token_unpeeked)

lemma loop_unpeeked: "parser_loop t p = Inr (True, t', p') \<Longrightarrow> tok_type (pr_peeked p') = T_none"
proof (induction t p rule: parser_loop.induct)
  case (1 t p)
  obtain r where r: "parser_turn t p = Inr r" using "1.prems" by (cases "parser_turn t p") (simp_all add: parser_loop.simps [of t p])
  show ?case
  proof (cases r)
    case (Return b t1 p1)
    then show ?thesis using "1.prems" r turn_unpeeked by (simp add: parser_loop.simps [of t p])
  next
    case (Continue t1 p1)
    then show ?thesis using "1.IH" [OF r Continue] "1.prems" r by (simp add: parser_loop.simps [of t p])
  qed
qed

lemma next_unpeeked: "parser_next t p = Inr (True, t', p') \<Longrightarrow> tok_type (pr_peeked p') = T_none"
  using loop_unpeeked by (fastforce simp: parser_next_def bindE_eq_Inr split: if_splits)

lemma hands_ConsD: "hands p (a # as) p' \<Longrightarrow> \<exists>t p1. (\<forall>t0. parser_next t0 p = Inr (True, t, p1)) \<and> hands p1 as p'"
  by auto

lemma hands_unpeeked: "hands p as p' \<Longrightarrow> as \<noteq> [] \<Longrightarrow> tok_type (pr_peeked p') = T_none"
proof (induction as arbitrary: p)
  case (Cons a as)
  from hands_ConsD [OF Cons.prems(1)] obtain t p1 where h: "\<forall>t0. parser_next t0 p = Inr (True, t, p1)" "hands p1 as p'" by blast
  show ?case using next_unpeeked [OF spec [OF h(1)]] Cons.IH [OF h(2)] h(2) by (cases "as = []") simp_all
qed simp

lemma hands_hands_out: "hands p as p' \<Longrightarrow> \<exists>ts. hands_out p ts p'"
proof (induction as arbitrary: p)
  case Nil
  then show ?case by (auto intro: hands_out.intros)
next
  case (Cons a as)
  from hands_ConsD [OF Cons.prems] obtain t p1 where "\<forall>t0. parser_next t0 p = Inr (True, t, p1)" "hands p1 as p'" by blast
  with Cons.IH show ?case by (blast intro: hands_out.intros)
qed

lemma at_value_stands: "at_value p \<Longrightarrow> stands p (pr_lexer p)" "at_value p \<Longrightarrow> wf_stack (pr_stack p)"
  by (simp_all add: at_value_def stands_def)

lemma value_hands:
  assumes p: "at_value p" and r: "reads (lx_in (pr_lexer p)) (tokens_of v) bs'" and v: "container v"
  shows "\<exists>p'. hands p (tokens_of v) p' \<and> at_value p' \<and> lx_in (pr_lexer p') = bs'"
proof -
  from reads_gives [OF r] obtain ts lx' where ts: "gives (pr_lexer p) ts lx'" "map atok ts = tokens_of v" "lx_in lx' = bs'" by blast
  have pa: "pr_stack p = [J0]" "pr_allow_multiple p" using p by (simp_all add: at_value_def)
  have "lang True J0 (tokens_of v)" using v by (simp; intro exI [of _ "[v]"]) simp
  from acceptsI [OF this, of "[]" "[]"] have "accepts True (pr_stack p) (map atok ts @ [])" using ts(2) pa by simp
  from hands_complete [OF ts(1) at_value_stands [OF p] _ this] pa(2) obtain p' where
    p': "hands p (tokens_of v) p'" "stands p' lx'" "wf_stack (pr_stack p')" "pr_allow_multiple p'" "accepts True (pr_stack p') []" using ts(2) by auto
  obtain us where "hands_out p us p'" using hands_hands_out [OF p'(1)] by blast
  from hands_out_grounded [OF this at_value_stands [OF p] pa(2)] have "grounded (pr_stack p')" using pa(1) by (simp add: grounded_def)
  then have "pr_stack p' = [J0]" using accepts_Nil [OF p'(5,3)] by (auto simp: grounded_def)
  moreover have n: "tok_type (pr_peeked p') = T_none" using hands_unpeeked [OF p'(1)] tokens_nonempty(1) by blast
  moreover have "cleared (pr_peeked p')" "pr_lexer p' = lx'" using p'(2) n by (simp_all add: stands_def)
  ultimately show ?thesis using p'(1,4) ts(3) by (auto simp: at_value_def)
qed

lemma value_end:
  assumes p: "at_value p" and w: "list_all is_ws (lx_in (pr_lexer p))"
  shows "\<exists>p'. parser_next t p = Inr (False, t, p')"
proof -
  obtain t' lx' where n: "next_tok (pr_lexer p) = Inr (False, t', lx')" using w next_end_iff [of new_token "pr_lexer p"] by (auto simp: next_tok_def)
  have "accepts True (pr_stack p) []" using p accepts_J0 [of True "[]" "[]"] by (simp add: at_value_def)
  from next_ends [OF at_value_stands(1) [OF p] n this at_value_stands(2) [OF p]] show ?thesis by blast
qed

section \<open>The balance of the tokens\<close>

definition nest_weight :: "atok \<Rightarrow> int" where
  "nest_weight a = (if fst a \<in> {Begin_array, Begin_object} then 1 else if fst a \<in> {End_array, End_object} then - 1 else 0)"

definition balance :: "atok list \<Rightarrow> int" where
  "balance as = sum_list (map nest_weight as)"

lemma balance_simps [simp]: "balance [] = 0" "balance (a # as) = nest_weight a + balance as" "balance (as @ bs) = balance as + balance bs"
  by (simp_all add: balance_def)

text \<open>Tokens that close what they open, and nothing else.\<close>

definition balanced :: "atok list \<Rightarrow> bool" where
  "balanced xs \<longleftrightarrow> balance xs = 0 \<and> (\<forall>as bs. xs = as @ bs \<longrightarrow> 0 \<le> balance as)"

lemma balanced_append: "balanced xs \<Longrightarrow> balanced ys \<Longrightarrow> balanced (xs @ ys)"
  unfolding balanced_def by (auto simp: append_eq_append_conv2)

lemma balanced_weightless: "nest_weight a = 0 \<Longrightarrow> balanced xs \<Longrightarrow> balanced (a # xs)"
  unfolding balanced_def by (auto simp: Cons_eq_append_conv)

lemma balanced_Nil [simp]: "balanced []"
  by (simp add: balanced_def)

lemma balanced_commas: "\<forall>x\<in>set xs. balanced x \<Longrightarrow> balanced (commas xs)"
  by (induction xs rule: commas.induct) (auto intro!: balanced_append balanced_weightless simp: nest_weight_def)

lemma balanced_wrap:
  assumes "balanced xs" "nest_weight a = 1" "nest_weight b = - 1"
  shows "balanced (a # xs @ [b])" "a # xs @ [b] = as @ bs \<Longrightarrow> as \<noteq> [] \<Longrightarrow> bs \<noteq> [] \<Longrightarrow> 0 < balance as"
proof -
  have inner: "0 < balance as" if "a # xs @ [b] = as @ bs" "as \<noteq> []" "bs \<noteq> []" for as bs
  proof -
    have ne: "bs \<noteq> []" using that by blast
    from that obtain as' where as: "as = a # as'" "xs @ [b] = as' @ bs" by (auto simp: Cons_eq_append_conv)
    then obtain bs' where "bs = bs' @ [b]" "xs = as' @ bs'" using ne by (cases bs rule: rev_cases) auto
    then show ?thesis using assms(1,2) as(1) by (auto simp: balanced_def)
  qed
  then show "a # xs @ [b] = as @ bs \<Longrightarrow> as \<noteq> [] \<Longrightarrow> bs \<noteq> [] \<Longrightarrow> 0 < balance as" .
  have z: "balance (a # xs @ [b]) = 0" using assms by (simp add: balanced_def)
  moreover have "0 \<le> balance as" if "a # xs @ [b] = as @ bs" for as bs
    using inner [OF that] z that by (cases "as = []"; cases "bs = []") (auto intro: less_imp_le)
  ultimately show "balanced (a # xs @ [b])" unfolding balanced_def by blast
qed

lemma balanced_tokens: "balanced (tokens_of v)"
proof (induction v)
  case (Arr vs)
  then have "balanced (commas (map tokens_of vs))" by (intro balanced_commas) simp
  then show ?case by (simp add: tokens_of.simps balanced_wrap nest_weight_def)
next
  case (Obj ms)
  have "balanced (commas (map (\<lambda>(k, v). key_tok k # tsym Name_separator # tokens_of v) ms))"
    using Obj by (intro balanced_commas) (fastforce intro!: balanced_weightless simp: nest_weight_def snds.simps)
  then show ?case by (simp add: tokens_of.simps balanced_wrap nest_weight_def)
qed (auto simp: balanced_weightless nest_weight_def)

lemma container_prefix:
  assumes "container v" "tokens_of v = as @ bs" "as \<noteq> []" "bs \<noteq> []" shows "0 < balance as"
proof (cases v)
  case (Arr vs)
  have "balanced (commas (map tokens_of vs))" using balanced_tokens by (intro balanced_commas) simp
  from balanced_wrap(2) [OF this, of "tsym Begin_array" "tsym End_array"] assms Arr show ?thesis
    by (simp add: tokens_of.simps nest_weight_def)
next
  case (Obj ms)
  have "balanced (commas (map (\<lambda>(k, v). key_tok k # tsym Name_separator # tokens_of v) ms))"
    using balanced_tokens by (intro balanced_commas) (auto intro!: balanced_weightless simp: nest_weight_def)
  from balanced_wrap(2) [OF this, of "tsym Begin_object" "tsym End_object"] assms Obj show ?thesis
    by (simp add: tokens_of.simps nest_weight_def)
qed (use assms(1) in simp_all)

lemma texts_prefix:
  assumes "concat (map tokens_of vs) = as @ bs" "list_all container vs"
  shows "0 \<le> balance as \<and> (balance as = 0 \<longrightarrow> (\<exists>us. list_all container us \<and> as = concat (map tokens_of us)))"
  using assms
proof (induction vs arbitrary: as)
  case Nil
  then show ?case by (auto intro!: exI [of _ "[]"])
next
  case (Cons v vs)
  from Cons.prems(1) obtain us where "as = tokens_of v @ us \<and> concat (map tokens_of vs) = us @ bs \<or> tokens_of v = as @ us \<and> bs = us @ concat (map tokens_of vs)"
    by (auto simp: append_eq_append_conv2)
  then show ?case
  proof (elim disjE conjE)
    assume a: "as = tokens_of v @ us" "concat (map tokens_of vs) = us @ bs"
    moreover have "balance (tokens_of v) = 0" using balanced_tokens by (simp add: balanced_def)
    moreover have "\<exists>vs. list_all container vs \<and> tokens_of v @ concat (map tokens_of us) = concat (map tokens_of vs)" if "list_all container us" for us
      using that Cons.prems(2) by (intro exI [of _ "v # us"]) simp
    ultimately show ?thesis using Cons.IH [OF a(2)] Cons.prems(2) by auto
  next
    assume a: "tokens_of v = as @ us"
    show ?thesis
    proof (cases "as = [] \<or> us = []")
      case True
      have "\<exists>us. list_all container us \<and> [] = concat (map tokens_of us)" by (intro exI [of _ "[]"]) simp
      moreover have "\<exists>us. list_all container us \<and> tokens_of v = concat (map tokens_of us)" using Cons.prems(2) by (intro exI [of _ "[v]"]) simp
      ultimately show ?thesis using True a balanced_tokens [of v] by (auto simp: balanced_def)
    next
      case False
      then show ?thesis using container_prefix [OF _ a] Cons.prems(2) by auto
    qed
  qed
qed

section \<open>The parser between two values\<close>

lemma lang_inhabited: "\<exists>u. lang m s u"
proof (cases s)
  case J0
  then show ?thesis by (auto intro!: exI [of _ "[]"])
next
  case E0
  then show ?thesis by (intro exI [of _ "elems [Lit_null]"]) auto
next
  case M0
  then show ?thesis by (intro exI [of _ "members [([], Lit_null)]"]) auto
qed auto

lemma accepts_inhabited: "\<exists>w. accepts m ss w"
proof (induction ss)
  case (Cons s ss)
  with lang_inhabited [of m s] acceptsI [of m s _ ss] show ?case by blast
qed simp

lemma handed_balance:
  assumes "at_value p" "hands_out p ts p'"
  obtains lx where "gives (pr_lexer p) ts lx" "stands p' lx" "wf_stack (pr_stack p')" "pr_allow_multiple p'" "0 \<le> balance (map atok ts)"
    "balance (map atok ts) = 0 \<longrightarrow> (\<exists>vs. list_all container vs \<and> map atok ts = concat (map tokens_of vs))"
proof -
  have pa: "pr_stack p = [J0]" "pr_allow_multiple p" using assms(1) by (simp_all add: at_value_def)
  from hands_out_sound [OF assms(2) at_value_stands [OF assms(1)], of True] pa obtain lx where
    lx: "gives (pr_lexer p) ts lx" "stands p' lx" "wf_stack (pr_stack p')" "pr_allow_multiple p'" "\<forall>w. accepts True (pr_stack p') w \<longrightarrow> accepts True [J0] (map atok ts @ w)" by auto
  obtain w where "accepts True (pr_stack p') w" using accepts_inhabited by blast
  with lx(5) have "accepts True [J0] (map atok ts @ w)" by blast
  then obtain vs where "concat (map tokens_of vs) = map atok ts @ w" "list_all container vs" by (auto elim!: acceptsE)
  from texts_prefix [OF this] lx that show thesis by blast
qed

lemma hands_out_det: "hands_out p ts p1 \<Longrightarrow> hands p (map atok ts) p2 \<Longrightarrow> p1 = p2"
proof (induction rule: hands_out.induct)
  case (hands_Cons t0 p t p1 ts p2')
  from hands_Cons.prems have "hands p (atok t # map atok ts) p2" by simp
  from hands_ConsD [OF this] obtain t' p1' where "\<forall>t0. parser_next t0 p = Inr (True, t', p1')" "hands p1' (map atok ts) p2" by blast
  with hands_Cons.hyps(1) hands_Cons.IH show ?case by simp
qed simp

lemma hands_at_value:
  assumes p: "at_value p" and h: "hands p as p'" "as \<noteq> []" "stands p' lx" "wf_stack (pr_stack p')" "pr_allow_multiple p'" "accepts True (pr_stack p') []"
  shows "at_value p' \<and> pr_lexer p' = lx"
proof -
  have pa: "pr_stack p = [J0]" "pr_allow_multiple p" using p by (simp_all add: at_value_def)
  obtain us where "hands_out p us p'" using hands_hands_out [OF h(1)] by blast
  from hands_out_grounded [OF this at_value_stands [OF p] pa(2)] have "grounded (pr_stack p')" using pa(1) by (simp add: grounded_def)
  then have "pr_stack p' = [J0]" using accepts_Nil [OF h(6,4)] by (auto simp: grounded_def)
  moreover have n: "tok_type (pr_peeked p') = T_none" using hands_unpeeked [OF h(1,2)] .
  moreover have "cleared (pr_peeked p')" "pr_lexer p' = lx" using h(3) n by (simp_all add: stands_def)
  ultimately show ?thesis using h(5) by (auto simp: at_value_def)
qed

text \<open>Where the balance of the tokens is zero, the parser is between two values.\<close>

lemma balanced_at_value:
  assumes p: "at_value p" and h: "hands_out p ts p'" and b: "balance (map atok ts) = 0"
  shows "at_value p' \<and> (\<exists>vs. list_all container vs \<and> reads (lx_in (pr_lexer p)) (concat (map tokens_of vs)) (lx_in (pr_lexer p')))"
proof (cases "ts = []")
  case True
  then have "p' = p" using h by (simp add: hands_Nil_iff)
  then show ?thesis using p by (auto simp: reads_def gives_Nil_iff intro!: exI [of _ "[]"] gives_Nil)
next
  case False
  from p h obtain lx vs where lx: "gives (pr_lexer p) ts lx" and vs: "list_all container vs" "map atok ts = concat (map tokens_of vs)"
    by (rule handed_balance) (use b in blast)
  have pa: "pr_stack p = [J0]" "pr_allow_multiple p" using p by (simp_all add: at_value_def)
  have "lang True J0 (map atok ts)" using vs by auto
  from acceptsI [OF this, of "[]" "[]"] have "accepts True (pr_stack p) (map atok ts @ [])" using pa by simp
  from hands_complete [OF lx at_value_stands [OF p] _ this] pa(2) obtain p2 where
    p2: "hands p (map atok ts) p2" "stands p2 lx" "wf_stack (pr_stack p2)" "pr_allow_multiple p2" "accepts True (pr_stack p2) []" by auto
  have e: "p' = p2" using hands_out_det [OF h p2(1)] .
  have "map atok ts \<noteq> []" using False by simp
  from hands_at_value [OF p p2(1) this p2(2-5)] e have a: "at_value p'" "pr_lexer p' = lx" by simp_all
  moreover have "reads (lx_in (pr_lexer p)) (map atok ts) (lx_in lx)"
    unfolding reads_def using gives_same [OF lx, of "new_lexer (lx_in (pr_lexer p))"] by simp
  ultimately show ?thesis using vs by auto
qed

lemma next_false_ws:
  assumes n: "parser_next t p = Inr (False, t', p')" and p: "grounded (pr_stack p)" "pr_allow_multiple p" "stands p lx" "wf_stack (pr_stack p)"
  shows "list_all is_ws (lx_in (pr_lexer p'))"
proof -
  obtain s ss where st: "pr_stack p = s # ss" using p(1) by (cases "pr_stack p") (auto simp: grounded_def)
  define q where "q = p\<lparr>pr_state := s, pr_stack := ss\<rparr>"
  have q: "parser_loop t q = Inr (False, t', p')" "stands q lx" "whole q = pr_stack p" "pr_allow_multiple q"
    using n p st by (simp_all add: parser_next_def pop_state_def q_def stands_def whole_def)
  have j: "pr_state q = J0" using loop_grounded [OF q(1) _ q(4,2)] q(3) p(1,4) by simp
  obtain r where r: "parser_turn t q = Inr r" using q(1) by (cases "parser_turn t q") (simp_all add: parser_loop.simps [of t q])
  show ?thesis
  proof (cases r)
    case (Return b t1 p1)
    then have "b = False" "p1 = p'" using q(1) r by (simp_all add: parser_loop.simps [of t q])
    then have k: "peek_token (push_state J0 q) = Inr (T_none, p')"
      using r Return j q(4) by (auto simp: parser_turn_def bindE_eq_Inr split: if_splits)
    have "stands (push_state J0 q) lx" using q(2) by simp
    from this k obtain lx2 where "stands p' lx2" "\<exists>t lx3. next_tok lx2 = Inr (False, t, lx3)" by (cases rule: peek_token_spec) auto
    moreover have "tok_type (pr_peeked p') = T_none" using k token_weight(1) by metis
    ultimately show ?thesis using next_end_iff [of new_token lx2] by (auto simp: stands_def next_tok_def)
  next
    case (Continue t1 p1)
    have "wf_stack (whole q)" using q(3) p(4) by simp
    from turn_continue [OF q(2) r [unfolded Continue] this refl] obtain lx2 where c: "stands p1 lx2" "wf_stack (whole p1)" "pr_allow_multiple p1" "pr_state p1 \<notin> {J0, J1}"
      using q(4) by auto
    have "grounded (whole p1)" using turn_grounded [OF r _ q(4)] q(3) p(1) Continue by simp
    moreover have "parser_loop t1 p1 = Inr (False, t', p')" using q(1) r Continue by (simp add: parser_loop.simps [of t q])
    ultimately show ?thesis using loop_grounded [OF _ _ c(3,1,2)] c(4) by fastforce
  qed
qed

text \<open>Where the parser reports the end, the text is complete and only white space is left.\<close>

lemma end_text:
  assumes p: "at_value p" and h: "hands_out p ts p1" and e: "parser_next t0 p1 = Inr (False, t1, p2)"
  shows "(\<exists>vs. json_text (lx_in (pr_lexer p)) vs) \<and> list_all is_ws (lx_in (pr_lexer p2))"
proof -
  have pa: "pr_stack p = [J0]" "pr_allow_multiple p" using p by (simp_all add: at_value_def)
  from hands_out_sound [OF h at_value_stands [OF p], of True] pa obtain lx where
    lx: "gives (pr_lexer p) ts lx" "stands p1 lx" "wf_stack (pr_stack p1)" "pr_allow_multiple p1" "\<forall>w. accepts True (pr_stack p1) w \<longrightarrow> accepts True [J0] (map atok ts @ w)" by auto
  have g: "grounded (pr_stack p1)" using hands_out_grounded [OF h at_value_stands [OF p] pa(2)] pa(1) by (simp add: grounded_def)
  then obtain t lx' where n: "next_tok lx = Inr (False, t, lx')" using next_grounded [OF e _ lx(4,2,3)] by auto
  from next_false [OF e lx(2,3), of True] lx(4,5) have "accepts True [J0] (map atok ts @ [])" by auto
  then obtain vs where "list_all container vs" "map atok ts = concat (map tokens_of vs)" by (auto elim!: acceptsE)
  with gives_lex [OF lx(1) n] next_false_ws [OF e g lx(4,2,3)] show ?thesis by (auto simp: json_text_def)
qed

lemma reads_trans: "reads bs as bs1 \<Longrightarrow> reads bs1 as' bs2 \<Longrightarrow> reads bs (as @ as') bs2"
proof -
  assume "reads bs as bs1" "reads bs1 as' bs2"
  then obtain ts lx where ts: "gives (new_lexer bs) ts lx" "map atok ts = as" "lx_in lx = bs1" and "reads (lx_in lx) as' bs2" by (auto simp: reads_def)
  from reads_gives [OF this(4)] obtain us lx' where us: "gives lx us lx'" "map atok us = as'" "lx_in lx' = bs2" by blast
  have "gives (new_lexer bs) (ts @ us) lx'" using ts(1) us(1) by (auto simp: gives_append)
  then show "reads bs (as @ as') bs2" unfolding reads_def using ts(2) us(2,3) by (intro exI [of _ "ts @ us"]) auto
qed

lemma reads_length: "reads bs as bs' \<Longrightarrow> length bs' \<le> length bs"
  by (auto simp: reads_def dest: gives_length)

lemma reads_ws:
  assumes "reads bs as bs'" "list_all is_ws bs" shows "list_all is_ws bs'"
proof -
  from assms(1) obtain ts lx where ts: "gives (new_lexer bs) ts lx" "lx_in lx = bs'" by (auto simp: reads_def)
  obtain t lx' where "next_tok (new_lexer bs) = Inr (False, t, lx')" using assms(2) next_end_iff [of new_token "new_lexer bs"] by (auto simp: next_tok_def)
  then have "ts = []" using ts(1) by (cases ts) (auto simp: gives_Cons_iff)
  then show ?thesis using ts assms(2) by (auto simp: gives_Nil_iff)
qed

lemma reads_text:
  assumes "reads bs (concat (map tokens_of us)) bs'" "list_all container us" "json_text bs' vs" shows "json_text bs (us @ vs)"
proof -
  have "gives lx ts lx' \<Longrightarrow> json_lex lexeme (lx_in lx') as \<Longrightarrow> json_lex lexeme (lx_in lx) (map atok ts @ as)" for lx ts lx' as
  proof (induction rule: gives.induct)
    case (gives_Cons lx t lx1 ts lx2)
    from gives_Cons.hyps(1) [unfolded next_tok_def] cleared_new(1) obtain ws w where
      "list_all is_ws ws" "lexeme (tok_type t) (tok_numeric t) (tok_value t) w" "lexed (ws @ w) lx lx1" by (rule next_sound)
    with gives_Cons lexed_in [of "ws @ w" lx lx1] show ?case by (simp add: atok_def lex_token)
  qed simp
  with assms show ?thesis unfolding reads_def json_text_def by fastforce
qed

section \<open>The nesting that the loader counts\<close>

definition open_containers :: "stack_element list \<Rightarrow> nat" where
  "open_containers st = length (filter (\<lambda>e. case e of Key_elem _ \<Rightarrow> False | _ \<Rightarrow> True) st)"

lemma open_containers_simps [simp]: "open_containers [] = 0" "open_containers (Key_elem k # st) = open_containers st"
  "open_containers (Array_elem xs # st) = Suc (open_containers st)" "open_containers (Object_elem ks vs # st) = Suc (open_containers st)"
  by (simp_all add: open_containers_def)

definition nesting :: "loader \<Rightarrow> nat" where
  "nesting ld = open_containers (ld_stack ld) + of_bool (in_top_level_array ld)"

text \<open>A loader that returns the members of top-level arrays, and counts its depth right.\<close>

definition counting :: "bool \<Rightarrow> loader \<Rightarrow> bool" where
  "counting check ld \<longleftrightarrow> unbox_top_level_arrays ld \<and> \<not> strip_top_level_array ld \<and> check_only ld = check \<and> unat (depth ld) = nesting ld"

lemma check_depth_counts:
  assumes "check_depth t ld = Inr ld'" shows "ld' = ld\<lparr>depth := depth ld + 1\<rparr> \<and> unat (depth ld') = Suc (unat (depth ld))"
proof -
  have "unat (depth ld) < MAX_DEPTH" using assms by (simp add: check_depth_def split: if_splits)
  then have "unat (depth ld + 1) = Suc (unat (depth ld))" by (subst unat_plus_if') (simp add: MAX_DEPTH_def)
  then show ?thesis using assms by (auto simp: check_depth_def split: if_splits)
qed

lemma unat_pred: "0 < unat (d :: 'a::len word) \<Longrightarrow> unat (d - 1) = unat d - 1"
  by (metis less_irrefl unat_0 unat_minus_one)

lemma close_counts:
  assumes "close_container item ld s = (Inr r, s')" "counting check ld"
  shows "\<exists>i ld'. r = Item i ld' \<and> counting check ld' \<and> Suc (nesting ld') = nesting ld \<and> (\<not> check \<longrightarrow> i \<noteq> None)"
proof -
  let ?ld = "ld\<lparr>ld_stack := tl (ld_stack ld), depth := depth ld - 1\<rparr>"
  have "(\<exists>i. r = Item i ?ld \<and> (\<not> check \<longrightarrow> i \<noteq> None))
      \<and> Suc (open_containers (tl (ld_stack ld))) = open_containers (ld_stack ld)"
    using assms by (auto simp: close_container_def counting_def Let_def split: list.splits stack_element.splits if_splits elim!: bindS_cases)
  moreover from this have "counting check ?ld" "Suc (nesting ?ld) = nesting ld"
    using assms(2) unat_pred [of "depth ld"] by (auto simp: counting_def nesting_def)
  ultimately show ?thesis by blast
qed

lemma make_key_same: "make_key v ld s = (Inr (k, ld'), s') \<Longrightarrow> \<exists>ks. ld' = ld\<lparr>ld_keys := ks\<rparr>"
  by (auto simp: make_key_def bindS_eq split: option.splits if_splits intro: exI [of _ "ld_keys ld"])

lemma open_counts:
  assumes "open_array t ld = Inr ld'" "counting check ld" shows "counting check ld' \<and> nesting ld' = Suc (nesting ld)"
  using assms by (auto simp: open_array_def counting_def nesting_def push_elem_def bindE_eq_Inr split: if_splits dest!: check_depth_counts)

lemma string_counts:
  assumes "load_string t item ld s = (Inr r, s')" "counting check ld"
  shows "counting check (result_loader r) \<and> nesting (result_loader r) = nesting ld \<and> (\<exists>i ld'. r = Item i ld' \<and> (\<not> check \<longrightarrow> i \<noteq> None))"
  using assms by (auto simp: load_string_def counting_def nesting_def liftS_def split: if_splits prod.splits sum.splits elim!: bindS_cases dest!: make_key_same)

text \<open>One token changes the nesting by its weight.\<close>

lemma load_token_counts:
  assumes l: "load_token nums fac t item ld s = (Inr r, s')" and c: "counting check ld" and e: "tok_type t = End_array \<Longrightarrow> 0 < nesting ld"
  shows "counting check (result_loader r) \<and> int (nesting (result_loader r)) = int (nesting ld) + nest_weight (atok t)
    \<and> (\<forall>ld'. r = End_of_array ld' \<longrightarrow> nesting ld' = 0 \<and> ld_stack ld' = []) \<and> (\<forall>i ld'. r = Item i ld' \<longrightarrow> \<not> check \<longrightarrow> i \<noteq> None)"
proof (cases "tok_type t")
  case Begin_array
  then show ?thesis using l open_counts [OF _ c, of t] by (auto simp: load_token_def bindL_def nest_weight_def atok_def split: sum.splits)
next
  case Begin_object
  then show ?thesis using l c
    by (auto simp: load_token_def bindL_def nest_weight_def atok_def push_elem_def counting_def nesting_def split: sum.splits dest!: check_depth_counts)
next
  case End_array
  show ?thesis
  proof (cases "ld_stack ld = []")
    case True
    then have "in_top_level_array ld" using e End_array by (simp add: nesting_def split: if_splits)
    then show ?thesis using l c End_array True unat_pred [of "depth ld"]
      by (auto simp: load_token_def close_array_def counting_def nesting_def nest_weight_def atok_def)
  next
    case False
    then have "close_container item ld s = (Inr r, s')" using l End_array by (simp add: load_token_def close_array_def)
    from close_counts [OF this c] show ?thesis using End_array by (auto simp: nest_weight_def atok_def)
  qed
next
  case End_object
  then have "close_container item ld s = (Inr r, s')" using l by (simp add: load_token_def)
  from close_counts [OF this c] show ?thesis using End_object by (auto simp: nest_weight_def atok_def)
next
  case T_string
  then show ?thesis using l string_counts [OF _ c, of t item s r s'] by (auto simp: load_token_def nest_weight_def atok_def)
qed (use l c in \<open>auto simp: load_token_def load_number_def load_shared_def counting_def nest_weight_def atok_def split: if_splits option.splits elim!: bindS_cases\<close>)

lemma add_value_counts: "add_value v ld = Inr ld' \<Longrightarrow> counting check ld \<Longrightarrow> counting check ld' \<and> nesting ld' = nesting ld"
  by (auto simp: add_value_def push_elem_def counting_def nesting_def split: list.splits stack_element.splits if_splits option.splits)

text \<open>
  The loader \<open>ld\<close> has been handed the tokens \<open>ts\<close> by a parser that was between two values at \<open>p\<close>, and its nesting is theirs.
\<close>

definition walked :: "bool \<Rightarrow> parser \<Rightarrow> token list \<Rightarrow> loader \<Rightarrow> bool" where
  "walked check p ts ld \<longleftrightarrow> at_value p \<and> hands_out p ts (ld_parser ld) \<and> counting check ld \<and> int (nesting ld) = balance (map atok ts)"

lemma hands_out_snoc: "hands_out p ts p1 \<Longrightarrow> parser_next t0 p1 = Inr (True, t, p2) \<Longrightarrow> hands_out p (ts @ [t]) p2"
  using hands_out_append hands_Cons hands_Nil by blast

lemma walked_token:
  assumes w: "walked check p ts ld" and n: "parser_next t0 (ld_parser ld) = Inr (True, t, q)"
    and l: "load_token nums fac t item (ld\<lparr>ld_parser := q\<rparr>) s = (Inr r, s')"
  shows "walked check p (ts @ [t]) (result_loader r) \<and> (\<forall>ld'. r = End_of_array ld' \<longrightarrow> nesting ld' = 0 \<and> ld_stack ld' = [])
    \<and> (\<forall>i ld'. r = Item i ld' \<longrightarrow> \<not> check \<longrightarrow> i \<noteq> None)"
proof -
  have h: "hands_out p (ts @ [t]) q" using hands_out_snoc w n by (simp add: walked_def) blast
  have "0 \<le> balance (map atok (ts @ [t]))" by (rule handed_balance [OF _ h]) (use w in \<open>simp_all add: walked_def\<close>)
  then have e: "tok_type t = End_array \<Longrightarrow> 0 < nesting (ld\<lparr>ld_parser := q\<rparr>)" using w by (auto simp: walked_def nesting_def nest_weight_def atok_def)
  have "counting check (ld\<lparr>ld_parser := q\<rparr>)" using w by (simp add: walked_def counting_def nesting_def)
  from load_token_counts [OF l this e] have c: "counting check (result_loader r)" "int (nesting (result_loader r)) = int (nesting (ld\<lparr>ld_parser := q\<rparr>)) + nest_weight (atok t)"
    "\<forall>ld'. r = End_of_array ld' \<longrightarrow> nesting ld' = 0 \<and> ld_stack ld' = []" "\<forall>i ld'. r = Item i ld' \<longrightarrow> \<not> check \<longrightarrow> i \<noteq> None" by blast+
  moreover have "nesting (ld\<lparr>ld_parser := q\<rparr>) = nesting ld" by (simp add: nesting_def)
  moreover have "ld_parser (result_loader r) = q" using load_token_parser [OF l] by simp
  ultimately show ?thesis using w h by (simp add: walked_def)
qed

text \<open>What \<open>next\<close> returns: the end of the text, or something that is complete.\<close>

lemma loop_walked:
  "loader_loop nums fac t item ld s = (Inr (r, ld'), s') \<Longrightarrow> walked check p ts ld \<Longrightarrow>
    case r of
      None \<Rightarrow> (\<exists>us p1 t0 t1. hands_out p us p1 \<and> parser_next t0 p1 = Inr (False, t1, ld_parser ld'))
    | Some i \<Rightarrow> (\<exists>us. walked check p us ld') \<and> ld_stack ld' = [] \<and> (i = None \<longrightarrow> \<not> check \<longrightarrow> nesting ld' = 0)"
proof (induction "weight (ld_parser ld)" arbitrary: t item ld s ts rule: less_induct)
  case less
  note w = less.prems(2)
  from less.prems(1) show ?case
  proof (cases rule: loader_loop_cases)
    case (End t1 q)
    then show ?thesis using w by (auto simp: walked_def)
  next
    case (Next t1 q ld1 s1)
    from walked_token [OF w Next(1,2)] have w1: "walked check p (ts @ [t1]) ld1" by simp
    have "weight (ld_parser ld1) < weight (ld_parser ld)" using next_weight [OF Next(1)] Next(3) by simp
    from less.hyps [OF this Next(4) w1] show ?thesis .
  next
    case (Array t1 q ld1)
    from walked_token [OF w Array(1,2)] Array(4) show ?thesis by auto
  next
    case (Top t1 q i ld1)
    from walked_token [OF w Top(1,2)] have w1: "walked check p (ts @ [t1]) ld1" "\<not> check \<longrightarrow> i \<noteq> None" by auto
    then have "walked check p (ts @ [t1]) (ld1\<lparr>last_value_was_array := False\<rparr>)" by (simp add: walked_def counting_def nesting_def)
    with w1 Top(4,5) show ?thesis by auto
  next
    case (Add t1 q i ld1 s1 ld2)
    from walked_token [OF w Add(1,2)] have w1: "walked check p (ts @ [t1]) ld1" by simp
    then have "walked check p (ts @ [t1]) ld2" using add_value_counts [OF Add(4)] Add(3,5) by (auto simp: walked_def)
    moreover have "weight (ld_parser ld2) < weight (ld_parser ld)" using next_weight [OF Add(1)] Add(5) by simp
    ultimately show ?thesis using less.hyps [OF _ Add(6)] by blast
  qed simp_all
qed

end
