(* ===== verification/Json_Members.thy ===== *)
theory Json_Members
  imports Json_Scan
begin

text \<open>
  The streaming evaluation of \<open>members(parse-json(...))\<close> (\<open>JSONParseMembersIterator\<close> of \<open>jsoniq_functions_impl.cpp\<close>): a scanner checks each top-level value without
  building items, and a loader that goes back to its start then returns its members one by one. Both read the same stream: a loader gets the bytes that are left when it is called and
  leaves those that it has not read. Seeking to a place is going back to the bytes that were left there. The work quota (\<open>chargeWork\<close>) is not modelled.
\<close>

section \<open>Two loaders on one stream\<close>

record members_state =
  theStream :: "byte list"
  theScanner :: loader
  theLoader :: loader
  theMembersGotOne :: bool

definition with_stream :: "byte list \<Rightarrow> loader \<Rightarrow> loader" where
  "with_stream bs ld = ld\<lparr>ld_parser := (ld_parser ld)\<lparr>pr_lexer := (pr_lexer (ld_parser ld))\<lparr>lx_in := bs\<rparr>\<rparr>\<rparr>"

definition stream_of :: "loader \<Rightarrow> byte list" where
  "stream_of ld = lx_in (pr_lexer (ld_parser ld))"

text \<open>The inner loop of \<open>scanToNextTopLevelArray\<close>: one top-level value.\<close>

function scan_value :: "numbers \<Rightarrow> factory \<Rightarrow> loader \<Rightarrow> (bool \<times> loader) load_op" where
  "scan_value nums fac scanner s = (case loader_next nums fac scanner s of
      (Inl e, s) \<Rightarrow> (Inl e, s)
    | (Inr (r, scanner), s) \<Rightarrow> (case r of None \<Rightarrow> (Inr (False, scanner), s)
        | Some item \<Rightarrow> if \<not> in_top_level_array scanner then (Inr (True, scanner), s) else scan_value nums fac scanner s))"
  by pat_completeness auto

termination
proof (relation "measure (\<lambda>(nums, fac, scanner, s). weight (ld_parser scanner))", goal_cases)
  case 2
  then show ?case using loader_next_weight unfolding loader_next_def by (metis case_prod_conv in_measure)
qed simp

declare scan_value.simps [simp del]

lemma scan_value_weight: "scan_value nums fac scanner s = (Inr (True, scanner'), s') \<Longrightarrow> weight (ld_parser scanner') < weight (ld_parser scanner)"
proof (induction nums fac scanner s rule: scan_value.induct)
  case (1 nums fac scanner s)
  obtain x s1 where n: "loader_next nums fac scanner s = (x, s1)" by fastforce
  with "1.prems" obtain i sc where x: "x = Inr (Some i, sc)" by (cases x) (auto simp: scan_value.simps [of nums fac scanner] split: option.splits)
  have w: "weight (ld_parser sc) < weight (ld_parser scanner)" using loader_next_weight n x by (simp add: loader_next_def)
  show ?case
  proof (cases "in_top_level_array sc")
    case True
    then have "scan_value nums fac sc s1 = (Inr (True, scanner'), s')" using "1.prems" n x by (simp add: scan_value.simps [of nums fac scanner])
    then show ?thesis using "1.IH" [OF n [symmetric] x refl refl] True w by fastforce
  next
    case False
    then show ?thesis using "1.prems" n x w by (simp add: scan_value.simps [of nums fac scanner])
  qed
qed

lemma scan_found_weight: "scan_value nums fac scanner s = (Inr (found, scanner'), s') \<Longrightarrow> \<not> \<not> found \<Longrightarrow> weight (ld_parser scanner') < weight (ld_parser scanner)"
  using scan_value_weight by simp

lemma with_stream_of [simp]: "with_stream (stream_of ld) ld = ld"
  by (simp add: with_stream_def stream_of_def)

function scanToNextTopLevelArray :: "numbers \<Rightarrow> factory \<Rightarrow> bool \<Rightarrow> members_state \<Rightarrow> (bool \<times> members_state) load_op" where
  "scanToNextTopLevelArray nums fac allowMultiple st s = (let valueStart = theStream st in
    case scan_value nums fac (with_stream valueStart (theScanner st)) s of
      (Inl e, s) \<Rightarrow> (Inl e, s)
    | (Inr (found, scanner), s) \<Rightarrow>
        if \<not> found then (Inr (False, st\<lparr>theScanner := scanner, theStream := stream_of scanner\<rparr>), s)
        else if \<not> allowMultiple \<and> theMembersGotOne st then (Inl (JNDY0021 None), s)
        else if last_value_was_array scanner then
          (Inr (True, st\<lparr>theScanner := scanner, theMembersGotOne := True, theStream := valueStart\<rparr>), s)
        else scanToNextTopLevelArray nums fac allowMultiple (st\<lparr>theScanner := scanner, theMembersGotOne := True, theStream := stream_of scanner\<rparr>) s)"
  by pat_completeness auto

termination
proof (relation "measure (\<lambda>(nums, fac, m, st, s). weight (ld_parser (with_stream (theStream st) (theScanner st))))", goal_cases)
  case 2
  from scan_found_weight [OF 2(2) [symmetric, unfolded 2(3), folded 2(4)] 2(5)] 2(1) show ?case by simp
qed simp

declare scanToNextTopLevelArray.simps [simp del]

text \<open>The loop that returns the members of one array, up to the null item that ends it.\<close>

function return_members :: "numbers \<Rightarrow> factory \<Rightarrow> loader \<Rightarrow> json_store \<Rightarrow> addr option list \<times> (load_err + loader) \<times> json_store" where
  "return_members nums fac ld s = (case loader_next nums fac ld s of
      (Inl e, s) \<Rightarrow> ([], Inl e, s)
    | (Inr (r, ld), s) \<Rightarrow> (case r of None \<Rightarrow> ([], Inr ld, s)
        | Some item \<Rightarrow> if item = None then ([], Inr ld, s)
            else let (items, x, s) = return_members nums fac ld s in (item # items, x, s)))"
  by pat_completeness auto

termination
proof (relation "measure (\<lambda>(nums, fac, ld, s). weight (ld_parser ld))", goal_cases)
  case 2
  then show ?case using loader_next_weight unfolding loader_next_def by (metis case_prod_conv in_measure)
qed simp

declare return_members.simps [simp del]

text \<open>All items that the iterator returns and the exception it ends with; \<open>None\<close> if it does not end.\<close>

partial_function (option) members_results :: "numbers \<Rightarrow> factory \<Rightarrow> bool \<Rightarrow> members_state \<Rightarrow> json_store \<Rightarrow> (addr option list \<times> load_err option \<times> json_store) option" where
  "members_results nums fac allowMultiple st s = (case scanToNextTopLevelArray nums fac allowMultiple st s of
      (Inl e, s) \<Rightarrow> Some ([], Some e, s)
    | (Inr (found, st), s) \<Rightarrow>
        if \<not> found then Some ([], None, s)
        else (case return_members nums fac (with_stream (theStream st) (theLoader st)) s of
            (xs, Inl e, s) \<Rightarrow> Some (xs, Some e, s)
          | (xs, Inr ld, s) \<Rightarrow> Option.bind (members_results nums fac allowMultiple (st\<lparr>theLoader := ld, theStream := stream_of ld\<rparr>) s)
              (\<lambda>(ys, e, s). Some (xs @ ys, e, s))))"

text \<open>The stream of the file is read itself only if nobody else can move it and it can seek (\<open>direct\<close>); else its text is copied first.\<close>

fun members_input :: "bool \<Rightarrow> input \<Rightarrow> input" where
  "members_input direct (Streamable in_avail bs) = (if direct then Streamable in_avail bs else Streamable (length bs) bs)"
| "members_input direct (Text v) = Text v"

definition openParseMembers :: "bool \<Rightarrow> input \<Rightarrow> members_state" where
  "openParseMembers direct inp = (let (in_avail, bs) = input_stream (members_input direct inp);
      scanner = new_loader in_avail bs True False True;
      ld = new_loader in_avail (stream_of scanner) True False False in
    \<lparr>theStream = stream_of scanner,
     theScanner = scanner\<lparr>unbox_top_level_arrays := True, check_only := True\<rparr>,
     theLoader = ld\<lparr>unbox_top_level_arrays := True\<rparr>,
     theMembersGotOne = False\<rparr>)"

definition json_members :: "numbers \<Rightarrow> factory \<Rightarrow> bool \<Rightarrow> input \<Rightarrow> bool \<Rightarrow> json_store \<Rightarrow> (addr option list \<times> load_err option \<times> json_store) option" where
  "json_members nums fac direct inp allowMultiple s = members_results nums fac allowMultiple (openParseMembers direct inp) s"

section \<open>The members of a top-level array\<close>

definition outside :: "bool \<Rightarrow> loader \<Rightarrow> bool" where
  "outside check ld \<longleftrightarrow> ld_stack ld = [] \<and> unbox_top_level_arrays ld \<and> \<not> strip_top_level_array ld \<and> check_only ld = check \<and> \<not> in_top_level_array ld \<and> depth ld = 0"

definition inside :: "bool \<Rightarrow> loader \<Rightarrow> bool" where
  "inside check ld \<longleftrightarrow> ld_stack ld = [] \<and> unbox_top_level_arrays ld \<and> \<not> strip_top_level_array ld \<and> check_only ld = check \<and> in_top_level_array ld \<and> depth ld = 1"

lemma finish_empty:
  "ld_stack ld = [] \<Longrightarrow> finish nums fac t item ld s = (Inr (Some item, ld\<lparr>last_value_was_array := (\<not> check_only ld \<and> last_value_was_array ld)\<rparr>), s)"
  by (cases ld) (simp add: finish_def)

lemma member_step:
  assumes ld: "inside check ld" and h: "hands (ld_parser ld) (tokens_of x) q" and inv: "load_inv fac (ld_keys ld) s" and n: "need x \<le> length (arena s)" and len: "length (tokens_of x) < 2 ^ 64"
  shows "case fault nums 1 x of
      Some f \<Rightarrow> \<exists>e s'. loader_loop nums fac t item ld s = (Inl e, s') \<and> fault_of e = Some f \<and> grows (items s) (items s')
    | None \<Rightarrow> \<exists>item' ld' s'. loader_loop nums fac t item ld s = (Inr (Some item', ld'), s') \<and> inside check ld' \<and> ld_parser ld' = q \<and> load_inv fac (ld_keys ld') s' \<and> moved (need x) s s'
      \<and> (\<not> check \<longrightarrow> (\<exists>a. item' = Some a \<and> denotes nums (items s') a x))"
proof -
  have "value_pos ld x" using ld by (auto simp: inside_def value_pos_def split: jtree.splits)
  moreover have d: "unat (depth ld) = 1" using ld by (simp add: inside_def)
  ultimately have l: "loaded nums fac t item ld s q x" using loads_all [of nums fac x] h inv n len by (auto simp: loads_def MAX_DEPTH_def)
  show ?thesis
  proof (cases "fault nums 1 x")
    case (Some f)
    then show ?thesis using l d by (simp add: loaded_def)
  next
    case None
    with l d obtain t' item' ks s' where r: "loader_loop nums fac t item ld s = finish nums fac t' item' (ld\<lparr>ld_parser := q, ld_keys := ks\<rparr>) s'" "load_inv fac ks s'" "moved (need x) s s'"
      "\<not> check_only ld \<longrightarrow> (\<exists>a. item' = Some a \<and> denotes nums (items s') a x)" by (auto simp: loaded_def)
    moreover have "ld_stack (ld\<lparr>ld_parser := q, ld_keys := ks\<rparr>) = []" using ld by (simp add: inside_def)
    ultimately show ?thesis using None ld by (auto simp: finish_empty inside_def)
  qed
qed

lemma array_end:
  assumes ld: "inside check ld" and h: "hands (ld_parser ld) [tsym End_array] q"
  shows "\<exists>ld'. loader_loop nums fac t item ld s = (Inr (Some None, ld'), s) \<and> outside check ld' \<and> last_value_was_array ld' \<and> ld_parser ld' = q \<and> ld_keys ld' = ld_keys ld"
proof -
  from h obtain t1 where t1: "\<forall>t0. parser_next t0 (ld_parser ld) = Inr (True, t1, q)" "tok_type t1 = End_array" by (rule hands_ConsE) simp
  let ?ld = "ld\<lparr>ld_parser := q, depth := depth ld - 1, in_top_level_array := False, last_value_was_array := True\<rparr>"
  have "load_token nums fac t1 item (ld\<lparr>ld_parser := q\<rparr>) s = (Inr (End_of_array ?ld), s)" using t1(2) ld by (simp add: load_token_def close_array_def inside_def)
  from loop_token(4) [OF t1(1) this] ld show ?thesis by (intro exI [of _ ?ld]) (simp add: inside_def outside_def)
qed

lemma array_open:
  assumes ld: "outside check ld" and h: "hands (ld_parser ld) (tokens_of (Arr xs)) q"
  obtains t1 ld1 where "\<And>t item s. loader_loop nums fac t item ld s = loader_loop nums fac t1 item ld1 s" "inside check ld1" "hands (ld_parser ld1) (elems xs @ [tsym End_array]) q"
    "ld_keys ld1 = ld_keys ld"
proof -
  from h [unfolded tokens_container] obtain t1 p1 where t1: "\<forall>t0. parser_next t0 (ld_parser ld) = Inr (True, t1, p1)" "tok_type t1 = Begin_array" "hands p1 (elems xs @ [tsym End_array]) q"
    by (rule hands_ConsE) simp
  let ?ld = "ld\<lparr>ld_parser := p1, depth := 1, in_top_level_array := True\<rparr>"
  have "load_token nums fac t1 item (ld\<lparr>ld_parser := p1\<rparr>) s = (Inr (Next ?ld), s)" for item s
    using t1(2) ld by (simp add: load_token_def open_array_def check_depth_def bindL_def bindE_def outside_def MAX_DEPTH_def)
  from loop_token(2) [OF t1(1) this] that [of t1 ?ld] show thesis using ld t1(3) by (simp add: inside_def outside_def)
qed


lemma after_member:
  assumes ld: "inside check ld" and h: "hands (ld_parser ld) ((if xs = [] then [] else tsym Value_separator # elems xs) @ [tsym End_array]) q"
  obtains t1 ld1 where "\<And>s. loader_next nums fac ld s = loader_loop nums fac t1 None ld1 s" "inside check ld1" "hands (ld_parser ld1) (elems xs @ [tsym End_array]) q"
    "ld_keys ld1 = ld_keys ld"
proof -
  let ?w = "elems xs @ [tsym End_array]"
  have "hands (ld_parser ld) (if xs = [] then ?w else tsym Value_separator # ?w) q" using h by (cases "xs = []") (simp_all add: elems_def)
  from loop_comma [OF this, of nums fac new_token] obtain t1 p1 where p1: "hands p1 ?w q" "\<forall>item s. loader_loop nums fac new_token item ld s = loader_loop nums fac t1 item (ld\<lparr>ld_parser := p1\<rparr>) s" by blast
  have "loader_next nums fac ld s = loader_loop nums fac t1 None (ld\<lparr>ld_parser := p1\<rparr>) s" for s unfolding loader_next_def using p1(2) by blast
  moreover have "inside check (ld\<lparr>ld_parser := p1\<rparr>)" "hands (ld_parser (ld\<lparr>ld_parser := p1\<rparr>)) ?w q" "ld_keys (ld\<lparr>ld_parser := p1\<rparr>) = ld_keys ld" using ld p1(1) by (simp_all add: inside_def)
  ultimately show thesis by (rule that)
qed

definition scan_cont :: "numbers \<Rightarrow> factory \<Rightarrow> (load_err + (addr option option \<times> loader)) \<times> json_store \<Rightarrow> (load_err + bool \<times> loader) \<times> json_store" where
  "scan_cont nums fac r = (case r of (Inl e, s) \<Rightarrow> (Inl e, s)
    | (Inr (r, scanner), s) \<Rightarrow> (case r of None \<Rightarrow> (Inr (False, scanner), s)
        | Some item \<Rightarrow> if \<not> in_top_level_array scanner then (Inr (True, scanner), s) else scan_value nums fac scanner s))"

lemma scan_value_cont: "scan_value nums fac scanner s = scan_cont nums fac (loader_next nums fac scanner s)"
  by (simp add: scan_value.simps [of nums fac scanner] scan_cont_def)

lemma scan_elems:
  assumes "inside True ld" "hands (ld_parser ld) (elems xs @ [tsym End_array]) q" "load_inv fac (ld_keys ld) s" "sum_list (map need xs) \<le> length (arena s)" "length (elems xs) < 2 ^ 64"
  shows "case first_some (map (fault nums 1) xs) of
      Some f \<Rightarrow> \<exists>e s'. scan_cont nums fac (loader_loop nums fac t item ld s) = (Inl e, s') \<and> fault_of e = Some f \<and> grows (items s) (items s')
    | None \<Rightarrow> \<exists>ld' s'. scan_cont nums fac (loader_loop nums fac t item ld s) = (Inr (True, ld'), s') \<and> outside True ld' \<and> last_value_was_array ld' \<and> ld_parser ld' = q
      \<and> load_inv fac (ld_keys ld') s' \<and> moved (sum_list (map need xs)) s s'"
  using assms
proof (induction xs arbitrary: t item ld s rule: list.induct)
  case Nil
  then have "hands (ld_parser ld) [tsym End_array] q" by (simp add: elems_def)
  from array_end [OF Nil.prems(1) this, of nums fac t item s] Nil.prems(3) show ?case by (auto simp: scan_cont_def outside_def)
next
  case (Cons x xs)
  obtain q1 where h: "hands (ld_parser ld) (tokens_of x) q1" "hands q1 ((if xs = [] then [] else tsym Value_separator # elems xs) @ [tsym End_array]) q"
    using Cons.prems(2) unfolding elems_Cons append_assoc by (auto simp: hands_append)
  have b: "need x \<le> length (arena s)" "length (tokens_of x) < 2 ^ 64" "length (elems xs) < 2 ^ 64"
    using Cons.prems(4,5) by (auto simp: elems_Cons split: if_splits) (simp_all add: elems_def)
  note m = member_step [OF Cons.prems(1) h(1) Cons.prems(3) b(1,2), of nums t item]
  show ?case
  proof (cases "fault nums 1 x")
    case (Some f)
    then show ?thesis using m by (auto simp: scan_cont_def)
  next
    case None
    with m obtain item' ld1 s1 where r: "loader_loop nums fac t item ld s = (Inr (Some item', ld1), s1)" "inside True ld1" "ld_parser ld1 = q1" "load_inv fac (ld_keys ld1) s1" "moved (need x) s s1"
      by auto
    from after_member [OF r(2), of xs q nums fac] h(2) r(3) obtain t2 ld2 where
      a: "\<And>s. loader_next nums fac ld1 s = loader_loop nums fac t2 None ld2 s" "inside True ld2" "hands (ld_parser ld2) (elems xs @ [tsym End_array]) q" "ld_keys ld2 = ld_keys ld1" by auto
    have c: "scan_cont nums fac (loader_loop nums fac t item ld s) = scan_cont nums fac (loader_loop nums fac t2 None ld2 s1)"
      using r(1,2) a(1) by (simp add: scan_cont_def [of nums fac "(Inr (Some item', ld1), s1)"] scan_value_cont inside_def)
    have g: "grows (items s) (items s1)" using r(5) by (simp add: moved_def)
    have n: "sum_list (map need xs) \<le> length (arena s1)" using Cons.prems(4) r(5) by (simp add: moved_def)
    have "load_inv fac (ld_keys ld2) s1" using r(4) a(4) by simp
    note IH = Cons.IH [OF a(2,3) this n b(3), of t2 None]
    show ?thesis
    proof (cases "first_some (map (fault nums 1) xs)")
      case (Some f)
      then show ?thesis using IH None unfolding c by (auto intro: grows_trans [OF g])
    next
      case fn: None
      then show ?thesis using IH None unfolding c by (auto intro: moved_trans [OF r(5)])
    qed
  qed
qed

definition return_cont :: "numbers \<Rightarrow> factory \<Rightarrow> (load_err + (addr option option \<times> loader)) \<times> json_store \<Rightarrow> addr option list \<times> (load_err + loader) \<times> json_store" where
  "return_cont nums fac r = (case r of (Inl e, s) \<Rightarrow> ([], Inl e, s)
    | (Inr (r, ld), s) \<Rightarrow> (case r of None \<Rightarrow> ([], Inr ld, s)
        | Some item \<Rightarrow> if item = None then ([], Inr ld, s) else let (items, x, s) = return_members nums fac ld s in (item # items, x, s)))"

lemma return_members_cont: "return_members nums fac ld s = return_cont nums fac (loader_next nums fac ld s)"
  by (simp add: return_members.simps [of nums fac ld] return_cont_def)

lemma return_elems:
  assumes "inside False ld" "hands (ld_parser ld) (elems xs @ [tsym End_array]) q" "load_inv fac (ld_keys ld) s" "sum_list (map need xs) \<le> length (arena s)" "length (elems xs) < 2 ^ 64"
    "first_some (map (fault nums 1) xs) = None"
  shows "\<exists>as ld' s'. return_cont nums fac (loader_loop nums fac t item ld s) = (map Some as, Inr ld', s') \<and> list_all2 (denotes nums (items s')) as xs
    \<and> outside False ld' \<and> ld_parser ld' = q \<and> load_inv fac (ld_keys ld') s' \<and> moved (sum_list (map need xs)) s s'"
  using assms
proof (induction xs arbitrary: t item ld s rule: list.induct)
  case Nil
  then have "hands (ld_parser ld) [tsym End_array] q" by (simp add: elems_def)
  from array_end [OF Nil.prems(1) this, of nums fac t item s] Nil.prems(3) show ?case by (auto simp: return_cont_def)
next
  case (Cons x xs)
  obtain q1 where h: "hands (ld_parser ld) (tokens_of x) q1" "hands q1 ((if xs = [] then [] else tsym Value_separator # elems xs) @ [tsym End_array]) q"
    using Cons.prems(2) unfolding elems_Cons append_assoc by (auto simp: hands_append)
  have b: "need x \<le> length (arena s)" "length (tokens_of x) < 2 ^ 64" "length (elems xs) < 2 ^ 64"
    using Cons.prems(4,5) by (auto simp: elems_Cons split: if_splits) (simp_all add: elems_def)
  have f: "fault nums 1 x = None" "first_some (map (fault nums 1) xs) = None" using Cons.prems(6) by (simp_all add: first_some_None)
  from member_step [OF Cons.prems(1) h(1) Cons.prems(3) b(1,2), of nums t item] f(1) obtain a ld1 s1 where
    r: "loader_loop nums fac t item ld s = (Inr (Some (Some a), ld1), s1)" "inside False ld1" "ld_parser ld1 = q1" "load_inv fac (ld_keys ld1) s1" "moved (need x) s s1" "denotes nums (items s1) a x"
    by auto
  from after_member [OF r(2), of xs q nums fac] h(2) r(3) obtain t2 ld2 where
    l: "\<And>s. loader_next nums fac ld1 s = loader_loop nums fac t2 None ld2 s" "inside False ld2" "hands (ld_parser ld2) (elems xs @ [tsym End_array]) q" "ld_keys ld2 = ld_keys ld1" by auto
  have n: "sum_list (map need xs) \<le> length (arena s1)" using Cons.prems(4) r(5) by (simp add: moved_def)
  have "load_inv fac (ld_keys ld2) s1" using r(4) l(4) by simp
  from Cons.IH [OF l(2,3) this n b(3) f(2), of t2 None] obtain as ld' s' where
    IH: "return_cont nums fac (loader_loop nums fac t2 None ld2 s1) = (map Some as, Inr ld', s')" "list_all2 (denotes nums (items s')) as xs" "outside False ld'" "ld_parser ld' = q"
      "load_inv fac (ld_keys ld') s'" "moved (sum_list (map need xs)) s1 s'" by blast
  have "return_cont nums fac (loader_loop nums fac t item ld s) = (map Some (a # as), Inr ld', s')"
    using r(1) l(1) IH(1) by (simp add: return_cont_def [of nums fac "(Inr (Some (Some a), ld1), s1)"] return_members_cont)
  moreover have "denotes nums (items s') a x" using denotes_mono [OF r(6)] IH(6) by (simp add: moved_def)
  ultimately show ?case using IH moved_trans [OF r(5) IH(6)] by (intro exI [of _ "a # as"] exI [of _ ld'] exI [of _ s']) simp
qed


section \<open>One top-level value\<close>

lemma moved_mono: "moved m s s' \<Longrightarrow> m \<le> n \<Longrightarrow> moved n s s'"
  by (auto simp: moved_def)

lemma fault_Arr_0: "fault nums 0 (Arr xs) = first_some (map (fault nums 1) xs)"
  by (simp add: MAX_DEPTH_def)

lemma length_elems_tokens: "length (elems xs) \<le> length (tokens_of (Arr xs))"
  by (simp add: tokens_container)

lemma scan_one:
  assumes ld: "outside True ld" and v: "container v" and h: "hands (ld_parser ld) (tokens_of v) q" and inv: "load_inv fac (ld_keys ld) s" and n: "need v \<le> length (arena s)"
    and len: "length (tokens_of v) < 2 ^ 64"
  shows "case fault nums 0 v of
      Some f \<Rightarrow> \<exists>e s'. scan_value nums fac ld s = (Inl e, s') \<and> fault_of e = Some f \<and> grows (items s) (items s')
    | None \<Rightarrow> \<exists>ld' s'. scan_value nums fac ld s = (Inr (True, ld'), s') \<and> outside True ld' \<and> (last_value_was_array ld' \<longleftrightarrow> (\<exists>xs. v = Arr xs)) \<and> ld_parser ld' = q
      \<and> load_inv fac (ld_keys ld') s' \<and> moved (need v) s s'"
proof (cases "\<exists>xs. v = Arr xs")
  case True
  then obtain xs where xs: "v = Arr xs" by blast
  from array_open [OF ld h [unfolded xs], of nums fac] obtain t1 ld1 where l: "\<And>t item s. loader_loop nums fac t item ld s = loader_loop nums fac t1 item ld1 s" "inside True ld1"
    "hands (ld_parser ld1) (elems xs @ [tsym End_array]) q" "ld_keys ld1 = ld_keys ld" by metis
  have c: "scan_value nums fac ld s = scan_cont nums fac (loader_loop nums fac t1 None ld1 s)" unfolding scan_value_cont loader_next_def by (subst l(1)) (rule refl)
  have b: "load_inv fac (ld_keys ld1) s" "sum_list (map need xs) \<le> length (arena s)" "length (elems xs) < 2 ^ 64"
    using inv l(4) n len length_elems_tokens [of xs] by (simp_all add: xs)
  have "moved (sum_list (map need xs)) s s' \<Longrightarrow> moved (Suc (sum_list (map need xs))) s s'" for s' by (erule moved_mono) simp
  with scan_elems [OF l(2,3) b, of nums t1 None] show ?thesis unfolding c xs fault_Arr_0
    by (cases "first_some (map (fault nums 1) xs)") auto
next
  case False
  then have "value_pos ld v" using v ld by (cases v) (auto simp: value_pos_def outside_def)
  moreover have d: "unat (depth ld) = 0" "check_only ld" "ld_stack ld = []" using ld by (simp_all add: outside_def)
  ultimately have l: "loaded nums fac new_token None ld s q v" using loads_all [of nums fac v] h inv n len by (auto simp: loads_def)
  show ?thesis
  proof (cases "fault nums 0 v")
    case (Some f)
    then show ?thesis using l d by (auto simp: loaded_def scan_value_cont scan_cont_def loader_next_def)
  next
    case None
    with l d obtain t' item' ks s' where r: "loader_loop nums fac new_token None ld s = finish nums fac t' item' (ld\<lparr>ld_parser := q, ld_keys := ks\<rparr>) s'" "load_inv fac ks s'" "moved (need v) s s'"
      by (auto simp: loaded_def)
    then show ?thesis using None ld False by (simp add: scan_value_cont scan_cont_def loader_next_def finish_def outside_def)
  qed
qed

lemma return_one:
  assumes ld: "outside False ld" and h: "hands (ld_parser ld) (tokens_of (Arr xs)) q" and inv: "load_inv fac (ld_keys ld) s" and n: "need (Arr xs) \<le> length (arena s)"
    and len: "length (tokens_of (Arr xs)) < 2 ^ 64" and f: "fault nums 0 (Arr xs) = None"
  shows "\<exists>as ld' s'. return_members nums fac ld s = (map Some as, Inr ld', s') \<and> list_all2 (denotes nums (items s')) as xs
    \<and> outside False ld' \<and> ld_parser ld' = q \<and> load_inv fac (ld_keys ld') s' \<and> moved (need (Arr xs)) s s'"
proof -
  from array_open [OF ld h, of nums fac] obtain t1 ld1 where l: "\<And>t item s. loader_loop nums fac t item ld s = loader_loop nums fac t1 item ld1 s" "inside False ld1"
    "hands (ld_parser ld1) (elems xs @ [tsym End_array]) q" "ld_keys ld1 = ld_keys ld" by metis
  have c: "return_members nums fac ld s = return_cont nums fac (loader_loop nums fac t1 None ld1 s)" unfolding return_members_cont loader_next_def by (subst l(1)) (rule refl)
  have b: "load_inv fac (ld_keys ld1) s" "sum_list (map need xs) \<le> length (arena s)" "length (elems xs) < 2 ^ 64"
    using inv l(4) n len length_elems_tokens [of xs] by simp_all
  have "moved (sum_list (map need xs)) s s' \<Longrightarrow> moved (need (Arr xs)) s s'" for s' by (erule moved_mono) simp
  with return_elems [OF l(2,3) b f [unfolded fault_Arr_0], of t1 None] show ?thesis unfolding c by blast
qed


lemma with_stream_simps [simp]:
  "lx_in (pr_lexer (ld_parser (with_stream bs ld))) = bs" "at_value (ld_parser (with_stream bs ld)) = at_value (ld_parser ld)" "outside check (with_stream bs ld) = outside check ld"
  "ld_keys (with_stream bs ld) = ld_keys ld"
  by (simp_all add: with_stream_def at_value_def outside_def)

definition members_inv :: "factory \<Rightarrow> members_state \<Rightarrow> json_store \<Rightarrow> bool" where
  "members_inv fac st s \<longleftrightarrow> at_value (ld_parser (theScanner st)) \<and> at_value (ld_parser (theLoader st)) \<and> outside True (theScanner st) \<and> outside False (theLoader st)
    \<and> load_inv fac (ld_keys (theScanner st)) s \<and> load_inv fac (ld_keys (theLoader st)) s"

text \<open>The scan of the next value, of whatever kind.\<close>

lemma scan_step:
  assumes inv: "members_inv fac st s" and v: "container v" and r: "reads (theStream st) (tokens_of v) bs" and n: "need v \<le> length (arena s)" and len: "length (tokens_of v) < 2 ^ 64"
  shows "case fault nums 0 v of
      Some f \<Rightarrow> \<exists>e s'. scanToNextTopLevelArray nums fac multiple st s = (Inl e, s') \<and> fault_of e = Some f \<and> grows (items s) (items s')
    | None \<Rightarrow> \<exists>s' sc. grows (items s) (items s') \<and> moved (need v) s s' \<and> (let st' = st\<lparr>theScanner := sc, theMembersGotOne := True\<rparr> in members_inv fac st' s'
      \<and> scanToNextTopLevelArray nums fac multiple st s =
          (if \<not> multiple \<and> theMembersGotOne st then (Inl (JNDY0021 None), s') else if \<exists>xs. v = Arr xs then (Inr (True, st'), s')
           else scanToNextTopLevelArray nums fac multiple (st'\<lparr>theStream := bs\<rparr>) s'))"
proof -
  let ?sc = "with_stream (theStream st) (theScanner st)"
  have i: "at_value (ld_parser ?sc)" "outside True ?sc" "load_inv fac (ld_keys ?sc) s" using inv by (simp_all add: members_inv_def)
  from value_hands [OF i(1) _ v, of bs] r obtain q where q: "hands (ld_parser ?sc) (tokens_of v) q" "at_value q" "lx_in (pr_lexer q) = bs" by auto
  note sc = scan_one [OF i(2) v q(1) i(3) n len, of nums]
  show ?thesis
  proof (cases "fault nums 0 v")
    case (Some f)
    then show ?thesis using sc by (auto simp: scanToNextTopLevelArray.simps [of nums fac multiple st] Let_def)
  next
    case None
    with sc obtain sc' s' where sc': "scan_value nums fac ?sc s = (Inr (True, sc'), s')" "outside True sc'" "last_value_was_array sc' \<longleftrightarrow> (\<exists>xs. v = Arr xs)" "ld_parser sc' = q"
      "load_inv fac (ld_keys sc') s'" "moved (need v) s s'" by auto
    let ?st = "st\<lparr>theScanner := sc', theMembersGotOne := True\<rparr>"
    have g: "grows (items s) (items s')" using sc'(6) by (simp add: moved_def)
    have "load_inv fac (ld_keys (theLoader st)) s'" using load_inv_grows [OF _ g] inv sc'(5) by (auto simp: members_inv_def load_inv_def)
    then have "members_inv fac ?st s'" using inv sc' q(2) by (simp add: members_inv_def)
    moreover have "?st\<lparr>theStream := theStream st\<rparr> = ?st" by simp
    moreover have "stream_of sc' = bs" using sc'(4) q(3) by (simp add: stream_of_def)
    ultimately show ?thesis using None g sc' by (auto simp: scanToNextTopLevelArray.simps [of nums fac multiple st] Let_def)
  qed
qed

lemma scan_end:
  assumes inv: "members_inv fac st s" and w: "list_all is_ws (theStream st)"
  shows "\<exists>st'. scanToNextTopLevelArray nums fac multiple st s = (Inr (False, st'), s)"
proof -
  let ?sc = "with_stream (theStream st) (theScanner st)"
  have "at_value (ld_parser ?sc)" using inv by (simp add: members_inv_def)
  from value_end [OF this, of new_token] w obtain p where "parser_next new_token (ld_parser ?sc) = Inr (False, new_token, p)" by auto
  then have "\<exists>sc. scan_value nums fac ?sc s = (Inr (False, sc), s)" by (simp add: scan_value_cont scan_cont_def loader_next_def loader_loop.simps [of nums fac new_token])
  then show ?thesis by (auto simp: scanToNextTopLevelArray.simps [of nums fac multiple st] Let_def)
qed


section \<open>All values\<close>

fun elements :: "jtree \<Rightarrow> jtree list" where
  "elements (Arr xs) = xs" | "elements _ = []"

definition members_of :: "jtree list \<times> load_fault option \<Rightarrow> jtree list \<times> load_fault option" where
  "members_of x = (concat (map elements (fst x)), snd x)"

lemma elements_not_Arr: "\<nexists>xs. v = Arr xs \<Longrightarrow> elements v = []"
  by (cases v) auto

lemma expected_Cons:
  "fault nums 0 v = None \<Longrightarrow> multiple \<or> \<not> got \<Longrightarrow> members_of (expected nums multiple got (v # W)) =
    (elements v @ fst (members_of (expected nums multiple True W)), snd (members_of (expected nums multiple True W)))"
  by (auto simp: members_of_def Let_def split: prod.splits)

lemma as_expected_append:
  assumes "as_expected nums x (ys, e, s')" "list_all2 (denotes nums (items s')) as xs" shows "as_expected nums (xs @ fst x, snd x) (map Some as @ ys, e, s')"
proof -
  from assms(1) obtain bs where "ys = map Some bs" "list_all2 (denotes nums (items s')) bs (fst x)" "case e of None \<Rightarrow> snd x = None | Some e \<Rightarrow> snd x \<noteq> None \<and> fault_of e = snd x"
    unfolding as_expected_def fst_conv snd_conv by blast
  then show ?thesis unfolding as_expected_def fst_conv snd_conv using assms(2) by (intro conjI exI [of _ "as @ bs"]) (simp_all add: list_all2_appendI)
qed

lemma members_results_scan:
  "scanToNextTopLevelArray nums fac multiple st s = scanToNextTopLevelArray nums fac multiple st' s' \<Longrightarrow>
    members_results nums fac multiple st s = members_results nums fac multiple st' s'"
  by (simp add: members_results.simps [of nums fac multiple st s] members_results.simps [of nums fac multiple st' s'])

lemma return_step:
  assumes inv: "members_inv fac st s" and r: "reads (theStream st) (tokens_of (Arr xs)) bs" and n: "need (Arr xs) \<le> length (arena s)" and len: "length (tokens_of (Arr xs)) < 2 ^ 64"
    and f: "fault nums 0 (Arr xs) = None"
  obtains as ld' s' where "return_members nums fac (with_stream (theStream st) (theLoader st)) s = (map Some as, Inr ld', s')" "list_all2 (denotes nums (items s')) as xs"
    "stream_of ld' = bs" "members_inv fac (st\<lparr>theLoader := ld', theStream := bs\<rparr>) s'" "moved (need (Arr xs)) s s'"
proof -
  let ?ld = "with_stream (theStream st) (theLoader st)"
  have i: "at_value (ld_parser ?ld)" "outside False ?ld" "load_inv fac (ld_keys ?ld) s" using inv by (simp_all add: members_inv_def)
  from value_hands [OF i(1), of "Arr xs" bs] r obtain q where q: "hands (ld_parser ?ld) (tokens_of (Arr xs)) q" "at_value q" "lx_in (pr_lexer q) = bs" by auto
  from return_one [OF i(2) q(1) i(3) n len f] obtain as ld' s' where
    m: "return_members nums fac ?ld s = (map Some as, Inr ld', s')" "list_all2 (denotes nums (items s')) as xs" "outside False ld'" "ld_parser ld' = q" "load_inv fac (ld_keys ld') s'"
      "moved (need (Arr xs)) s s'" by blast
  have "grows (items s) (items s')" using m(6) by (simp add: moved_def)
  then have "load_inv fac (ld_keys (theScanner st)) s'" using load_inv_grows [of fac _ s s'] inv m(5) by (auto simp: members_inv_def load_inv_def)
  then have "members_inv fac (st\<lparr>theLoader := ld', theStream := bs\<rparr>) s'" using inv m q(2) by (simp add: members_inv_def)
  moreover have "stream_of ld' = bs" using m(4) q(3) by (simp add: stream_of_def)
  ultimately show thesis using that m(1,2,6) by blast
qed

text \<open>What the iterator does with a value that has no fault and is not one too many, given what it does with the values after it.\<close>

lemma members_value:
  assumes st: "scanToNextTopLevelArray nums fac multiple st s = (if \<exists>xs. v = Arr xs then (Inr (True, st1), s1) else scanToNextTopLevelArray nums fac multiple (st1\<lparr>theStream := bs\<rparr>) s1)"
      "theStream st1 = theStream st" "theMembersGotOne st1" "members_inv fac st1 s1" "reads (theStream st) (tokens_of v) bs"
    and b: "2 * need v + n \<le> length (arena s)" "length (tokens_of v) < 2 ^ 64" and f: "fault nums 0 v = None" and m: "moved (need v) s s1"
    and rest: "\<And>st2 s2. n \<le> length (arena s2) \<Longrightarrow> members_inv fac st2 s2 \<Longrightarrow> theStream st2 = bs \<Longrightarrow> theMembersGotOne st2 \<Longrightarrow>
        \<exists>xs e s'. members_results nums fac multiple st2 s2 = Some (xs, e, s') \<and> as_expected nums x (xs, e, s') \<and> grows (items s2) (items s')"
  shows "\<exists>xs e s'. members_results nums fac multiple st s = Some (xs, e, s') \<and> as_expected nums (elements v @ fst x, snd x) (xs, e, s') \<and> grows (items s) (items s')"
proof (cases "\<exists>xs. v = Arr xs")
  case False
  have r: "members_results nums fac multiple st s = members_results nums fac multiple (st1\<lparr>theStream := bs\<rparr>) s1" using st(1) False by (intro members_results_scan) simp
  have "members_inv fac (st1\<lparr>theStream := bs\<rparr>) s1" "n \<le> length (arena s1)" "grows (items s) (items s1)" using st(4) m b(1) by (simp_all add: members_inv_def moved_def)
  then show ?thesis using rest [of s1 "st1\<lparr>theStream := bs\<rparr>"] st(3) grows_trans unfolding r elements_not_Arr [OF False] by fastforce
next
  case True
  then obtain xs where xs: "v = Arr xs" by blast
  have "need (Arr xs) \<le> length (arena s1)" using b(1) m by (simp add: moved_def xs)
  from return_step [OF st(4) st(5) [folded st(2), unfolded xs] this b(2) [unfolded xs] f [unfolded xs]] obtain as ld' s2 where
    r: "return_members nums fac (with_stream (theStream st1) (theLoader st1)) s1 = (map Some as, Inr ld', s2)" "list_all2 (denotes nums (items s2)) as xs" "stream_of ld' = bs"
      "members_inv fac (st1\<lparr>theLoader := ld', theStream := bs\<rparr>) s2" "moved (need (Arr xs)) s1 s2" by metis
  have "n \<le> length (arena s2)" using b(1) m r(5) by (simp add: moved_def xs)
  from rest [OF this r(4)] st(3) obtain ys e s' where ys: "members_results nums fac multiple (st1\<lparr>theLoader := ld', theStream := bs\<rparr>) s2 = Some (ys, e, s')" "as_expected nums x (ys, e, s')"
    "grows (items s2) (items s')" by auto
  have "members_results nums fac multiple st s = Some (map Some as @ ys, e, s')" using st(1) xs r(1,3) ys(1) by (simp add: members_results.simps [of nums fac multiple st s])
  moreover have "as_expected nums (elements v @ fst x, snd x) (map Some as @ ys, e, s')" using as_expected_append [OF ys(2) list_all2_mono' [OF r(2) ys(3)]] by (simp add: xs)
  moreover have "grows (items s) (items s')" using m r(5) ys(3) by (auto simp: moved_def intro: grows_trans)
  ultimately show ?thesis by blast
qed

lemma members_ok:
  assumes "members_inv fac st s" "list_all container vs" "reads (theStream st) (concat (map tokens_of vs)) rest" "list_all is_ws rest"
    "2 * sum_list (map need vs) \<le> length (arena s)" "length (concat (map tokens_of vs)) < 2 ^ 64"
  shows "\<exists>xs e s'. members_results nums fac multiple st s = Some (xs, e, s') \<and> as_expected nums (members_of (expected nums multiple (theMembersGotOne st) vs)) (xs, e, s')
    \<and> grows (items s) (items s')"
  using assms
proof (induction vs arbitrary: st s rule: list.induct)
  case Nil
  then have "theStream st = rest" by (auto simp: reads_def gives_Nil_iff)
  from scan_end [OF Nil.prems(1), of nums multiple] Nil.prems(4) this obtain st' where "scanToNextTopLevelArray nums fac multiple st s = (Inr (False, st'), s)" by auto
  then show ?case by (simp add: members_results.simps [of nums fac multiple st s] as_expected_def members_of_def)
next
  case (Cons v vs)
  from Cons.prems(3) obtain bs where bs: "reads (theStream st) (tokens_of v) bs" "reads bs (concat (map tokens_of vs)) rest" by (auto elim: reads_append)
  have v: "container v" "need v \<le> length (arena s)" "length (tokens_of v) < 2 ^ 64" using Cons.prems(2,5,6) by simp_all
  note sc = scan_step [OF Cons.prems(1) v(1) bs(1) v(2,3), of nums multiple]
  show ?case
  proof (cases "fault nums 0 v")
    case (Some f)
    with sc obtain e s' where "scanToNextTopLevelArray nums fac multiple st s = (Inl e, s')" "fault_of e = Some f" "grows (items s) (items s')" by auto
    then show ?thesis using Some by (simp add: members_results.simps [of nums fac multiple st s] as_expected_def members_of_def)
  next
    case None
    with sc obtain s1 sc1 where s1: "grows (items s) (items s1)" "moved (need v) s s1" "members_inv fac (st\<lparr>theScanner := sc1, theMembersGotOne := True\<rparr>) s1"
      "scanToNextTopLevelArray nums fac multiple st s =
          (if \<not> multiple \<and> theMembersGotOne st then (Inl (JNDY0021 None), s1) else if \<exists>xs. v = Arr xs then (Inr (True, st\<lparr>theScanner := sc1, theMembersGotOne := True\<rparr>), s1)
           else scanToNextTopLevelArray nums fac multiple (st\<lparr>theScanner := sc1, theMembersGotOne := True, theStream := bs\<rparr>) s1)"
      by (auto simp: Let_def)
    let ?st = "st\<lparr>theScanner := sc1, theMembersGotOne := True\<rparr>"
    show ?thesis
    proof (cases "\<not> multiple \<and> theMembersGotOne st")
      case True
      then show ?thesis using None s1(1,4) by (simp add: members_results.simps [of nums fac False st s] as_expected_def members_of_def)
    next
      case False
      then have x: "members_of (expected nums multiple (theMembersGotOne st) (v # vs)) =
        (elements v @ fst (members_of (expected nums multiple True vs)), snd (members_of (expected nums multiple True vs)))" using expected_Cons [OF None] by blast
      show ?thesis unfolding x
      proof (rule members_value [where ?st1.0 = ?st and ?s1.0 = s1 and bs = bs and n = "2 * sum_list (map need vs)"])
        show "scanToNextTopLevelArray nums fac multiple st s =
          (if \<exists>xs. v = Arr xs then (Inr (True, ?st), s1) else scanToNextTopLevelArray nums fac multiple (?st\<lparr>theStream := bs\<rparr>) s1)" using s1(4) False by simp
        show "2 * need v + 2 * sum_list (map need vs) \<le> length (arena s)" using Cons.prems(5) by simp
        fix st2 :: members_state and s2
        assume "2 * sum_list (map need vs) \<le> length (arena s2)" "members_inv fac st2 s2" "theStream st2 = bs" "theMembersGotOne st2"
        then show "\<exists>xs e s'. members_results nums fac multiple st2 s2 = Some (xs, e, s') \<and> as_expected nums (members_of (expected nums multiple True vs)) (xs, e, s')
          \<and> grows (items s2) (items s')" using Cons.IH [of st2 s2] Cons.prems(2,4,6) bs(2) by simp
      qed (use s1(2,3) bs(1) v(3) None in simp_all)
    qed
  qed
qed

section \<open>Any input\<close>

text \<open>A loader that is between two values of its text.\<close>

definition ready :: "bool \<Rightarrow> loader \<Rightarrow> bool" where
  "ready check ld \<longleftrightarrow> at_value (ld_parser ld) \<and> outside check ld"

lemma ready_with_stream [simp]: "ready check (with_stream bs ld) = ready check ld" "stream_of (with_stream bs ld) = bs"
  by (simp_all add: ready_def with_stream_def outside_def at_value_def stream_of_def)

lemma ready_walked: "ready check ld \<Longrightarrow> walked check (ld_parser ld) [] ld"
  by (simp add: ready_def outside_def walked_def counting_def nesting_def hands_Nil)

text \<open>What has been read between two states of a loader: values, at least one.\<close>

definition has_read :: "bool \<Rightarrow> byte list \<Rightarrow> loader \<Rightarrow> bool" where
  "has_read check bs ld \<longleftrightarrow> ready check ld \<and> (\<exists>vs. list_all container vs \<and> reads bs (concat (map tokens_of vs)) (stream_of ld))"

lemma walked_ready:
  assumes "walked check p ts ld" "ld_stack ld = []" "nesting ld = 0"
  shows "has_read check (lx_in (pr_lexer p)) ld"
proof -
  have "balance (map atok ts) = 0" using assms(1,3) by (simp add: walked_def)
  from balanced_at_value [OF _ _ this, of p "ld_parser ld"] assms(1) have "at_value (ld_parser ld)"
    "\<exists>vs. list_all container vs \<and> reads (lx_in (pr_lexer p)) (concat (map tokens_of vs)) (stream_of ld)" by (auto simp: walked_def stream_of_def)
  moreover have "outside check ld" using assms by (auto simp: walked_def counting_def nesting_def outside_def unat_eq_zero split: if_splits)
  ultimately show ?thesis by (simp add: has_read_def ready_def)
qed

lemma walked_end:
  assumes "at_value p" "hands_out p us p1" "parser_next t0 p1 = Inr (False, t1, ld_parser ld)"
  shows "(\<exists>vs. json_text (lx_in (pr_lexer p)) vs) \<and> list_all is_ws (stream_of ld)"
  using end_text [OF assms] by (simp add: stream_of_def)

lemma scan_walked:
  "scan_value nums fac sc s = (Inr (found, sc'), s') \<Longrightarrow> walked True p ts sc \<Longrightarrow>
    if found then has_read True (lx_in (pr_lexer p)) sc' else \<exists>vs. json_text (lx_in (pr_lexer p)) vs"
proof (induction nums fac sc s arbitrary: ts rule: scan_value.induct)
  case (1 nums fac sc s)
  obtain x s1 where n: "loader_next nums fac sc s = (x, s1)" by fastforce
  then obtain r sc1 where x: "x = Inr (r, sc1)" using "1.prems"(1) by (cases x) (auto simp: scan_value.simps [of nums fac sc])
  note w = loop_walked [OF n [unfolded x loader_next_def] "1.prems"(2)]
  show ?case
  proof (cases r)
    case None
    then have "\<not> found" using "1.prems"(1) n x by (simp add: scan_value.simps [of nums fac sc])
    then show ?thesis using w None end_text "1.prems"(2) by (auto simp: walked_def)
  next
    case (Some i)
    with w obtain us where us: "walked True p us sc1" "ld_stack sc1 = []" by auto
    show ?thesis
    proof (cases "in_top_level_array sc1")
      case True
      then have "scan_value nums fac sc1 s1 = (Inr (found, sc'), s')" using "1.prems"(1) n x Some by (simp add: scan_value.simps [of nums fac sc])
      from "1.IH" [OF n [symmetric] x [unfolded Some] refl refl _ this us(1)] True show ?thesis by blast
    next
      case False
      then have "found" "sc' = sc1" using "1.prems"(1) n x Some by (simp_all add: scan_value.simps [of nums fac sc])
      then show ?thesis using walked_ready [OF us] False us(2) by (simp add: nesting_def)
    qed
  qed
qed

lemma scan_value_reads:
  assumes "scan_value nums fac sc s = (Inr (found, sc'), s')" "ready True sc"
  shows "if found then has_read True (stream_of sc) sc' else \<exists>vs. json_text (stream_of sc) vs"
  using scan_walked [OF assms(1) ready_walked [OF assms(2)]] by (simp add: stream_of_def)

lemma scan_value_ws:
  assumes "ready True sc" "list_all is_ws (stream_of sc)" shows "\<exists>sc'. scan_value nums fac sc s = (Inr (False, sc'), s)"
proof -
  obtain q where "parser_next new_token (ld_parser sc) = Inr (False, new_token, q)" using value_end assms unfolding ready_def stream_of_def by blast
  then have "loader_next nums fac sc s = (Inr (None, sc\<lparr>ld_parser := q\<rparr>), s)" by (simp add: loader_next_def loader_loop.simps [of nums fac new_token None sc])
  then show ?thesis by (simp add: scan_value.simps [of nums fac sc])
qed

lemma scan_next_reads:
  "scanToNextTopLevelArray nums fac m st s = (Inr (found, st'), s') \<Longrightarrow> ready True (theScanner st) \<Longrightarrow>
    theLoader st' = theLoader st \<and>
    (if found then ready True (theScanner st') \<and> \<not> list_all is_ws (theStream st') \<and> (\<exists>vs. list_all container vs \<and> reads (theStream st) (concat (map tokens_of vs)) (theStream st'))
     else \<exists>vs. json_text (theStream st) vs)"
proof (induction nums fac m st s rule: scanToNextTopLevelArray.induct)
  case (1 nums fac m st s)
  let ?sc = "with_stream (theStream st) (theScanner st)"
  obtain x s1 where n: "scan_value nums fac ?sc s = (x, s1)" by fastforce
  then obtain f sc1 where x: "x = Inr (f, sc1)" using "1.prems"(1) by (cases x) (auto simp: scanToNextTopLevelArray.simps [of nums fac m st] Let_def)
  have rd: "ready True ?sc" using "1.prems"(2) by simp
  note v = scan_value_reads [OF n [unfolded x] rd]
  have nws: "\<not> list_all is_ws (theStream st)" if f using scan_value_ws [OF rd, of nums fac s] n x that by auto
  note e = "1.prems"(1) [unfolded scanToNextTopLevelArray.simps [of nums fac m st] Let_def n x]
  consider (End) "\<not> f" | (Array) f "last_value_was_array sc1" "m \<or> \<not> theMembersGotOne st" | (Object) f "\<not> last_value_was_array sc1" "m \<or> \<not> theMembersGotOne st"
    using e by (auto split: if_splits)
  then show ?case
  proof cases
    case End
    then show ?thesis using e v by auto
  next
    case Array
    have "reads (theStream st) (concat (map tokens_of [])) (theStream st)" by (auto simp: reads_def intro!: exI [of _ "[]"] gives_Nil)
    then show ?thesis using e v nws Array by (auto simp: has_read_def intro!: exI [of _ "[]"])
  next
    case Object
    let ?st = "st\<lparr>theScanner := sc1, theMembersGotOne := True, theStream := stream_of sc1\<rparr>"
    have e1: "scanToNextTopLevelArray nums fac m ?st s1 = (Inr (found, st'), s')" using e Object by (auto split: if_splits)
    obtain vs where vs: "ready True sc1" "list_all container vs" "reads (theStream st) (concat (map tokens_of vs)) (stream_of sc1)"
      using v Object(1) by (auto simp: has_read_def)
    from "1.IH" [OF refl n [symmetric] x refl _ _ _ e1] Object vs(1) have IH: "theLoader st' = theLoader st"
      "if found then ready True (theScanner st') \<and> \<not> list_all is_ws (theStream st') \<and> (\<exists>vs. list_all container vs \<and> reads (stream_of sc1) (concat (map tokens_of vs)) (theStream st'))
       else \<exists>vs. json_text (stream_of sc1) vs" by auto
    show ?thesis
    proof (cases found)
      case True
      with IH obtain us where us: "list_all container us" "reads (stream_of sc1) (concat (map tokens_of us)) (theStream st')" by auto
      have "reads (theStream st) (concat (map tokens_of (vs @ us))) (theStream st')" using reads_trans [OF vs(3) us(2)] by simp
      then show ?thesis using IH True vs(2) us(1) by (auto intro!: exI [of _ "vs @ us"])
    next
      case False
      then show ?thesis using IH reads_text [OF vs(3,2)] by auto
    qed
  qed
qed

lemma return_walked:
  "return_members nums fac ld s = (xs, Inr ld', s') \<Longrightarrow> walked False p ts ld \<Longrightarrow>
    has_read False (lx_in (pr_lexer p)) ld' \<and> weight (ld_parser ld') < weight (ld_parser ld)
    \<or> (\<exists>vs. json_text (lx_in (pr_lexer p)) vs) \<and> list_all is_ws (stream_of ld')"
proof (induction nums fac ld s arbitrary: ts xs rule: return_members.induct)
  case (1 nums fac ld s)
  obtain x s1 where n: "loader_next nums fac ld s = (x, s1)" by fastforce
  then obtain r ld1 where x: "x = Inr (r, ld1)" using "1.prems"(1) by (cases x) (auto simp: return_members.simps [of nums fac ld])
  note w = loop_walked [OF n [unfolded x loader_next_def] "1.prems"(2)]
  show ?case
  proof (cases r)
    case None
    then have "ld' = ld1" using "1.prems"(1) n x by (simp add: return_members.simps [of nums fac ld])
    then show ?thesis using w None end_text "1.prems"(2) by (auto simp: walked_def stream_of_def)
  next
    case (Some i)
    with w obtain us where us: "walked False p us ld1" "ld_stack ld1 = []" "i = None \<longrightarrow> nesting ld1 = 0" by auto
    have wt: "weight (ld_parser ld1) < weight (ld_parser ld)" using loader_next_weight n x Some by (simp add: loader_next_def)
    show ?thesis
    proof (cases "i = None")
      case True
      then have "ld' = ld1" using "1.prems"(1) n x Some by (simp add: return_members.simps [of nums fac ld])
      then show ?thesis using walked_ready [OF us(1,2)] us(3) True wt by simp
    next
      case False
      then obtain ys where "return_members nums fac ld1 s1 = (ys, Inr ld', s')"
        using "1.prems"(1) n x Some by (auto simp: return_members.simps [of nums fac ld] split: prod.splits)
      from "1.IH" [OF n [symmetric] x [unfolded Some] refl refl False this us(1)] wt show ?thesis by auto
    qed
  qed
qed

lemma return_members_reads:
  assumes "return_members nums fac ld s = (xs, Inr ld', s')" "ready False ld"
  shows "has_read False (stream_of ld) ld' \<and> length (stream_of ld') < length (stream_of ld) \<or> (\<exists>vs. json_text (stream_of ld) vs) \<and> list_all is_ws (stream_of ld')"
  using return_walked [OF assms(1) ready_walked [OF assms(2)]] assms(2)
  by (auto simp: stream_of_def weight_def has_read_def ready_def at_value_def)

text \<open>The iterator ends on every input, and without an exception only if the input is a sequence of JSON texts.\<close>

lemma members_any:
  assumes "ready True (theScanner st)" "ready False (theLoader st) \<or> list_all is_ws (theStream st)"
  shows "\<exists>xs e s'. members_results nums fac m st s = Some (xs, e, s') \<and> (e = None \<longrightarrow> (\<exists>vs. json_text (theStream st) vs))"
  using assms
proof (induction "length (theStream st)" arbitrary: st s rule: less_induct)
  case less
  obtain x s1 where n: "scanToNextTopLevelArray nums fac m st s = (x, s1)" by fastforce
  show ?case
  proof (cases x)
    case (Inl e)
    then show ?thesis using n by (simp add: members_results.simps [of nums fac m st])
  next
    case (Inr y)
    obtain found st1 where y: "y = (found, st1)" by (cases y)
    note r = scan_next_reads [OF n [unfolded Inr y] less.prems(1)]
    show ?thesis
    proof (cases found)
      case False
      then show ?thesis using n Inr y r by (simp add: members_results.simps [of nums fac m st])
    next
      case True
      with r obtain us where us: "ready True (theScanner st1)" "\<not> list_all is_ws (theStream st1)" "list_all container us" "reads (theStream st) (concat (map tokens_of us)) (theStream st1)"
        "theLoader st1 = theLoader st" by auto
      have len: "length (theStream st1) \<le> length (theStream st)" using reads_length [OF us(4)] .
      have "ready False (theLoader st)"
        using less.prems(2) reads_ws [OF us(4)] us(2) by blast
      then have rd: "ready False (with_stream (theStream st1) (theLoader st1))" using us(5) by simp
      obtain xs z s2 where m: "return_members nums fac (with_stream (theStream st1) (theLoader st1)) s1 = (xs, z, s2)" by (metis prod_cases3)
      show ?thesis
      proof (cases z)
        case (Inl e)
        then show ?thesis using n Inr y True m by (simp add: members_results.simps [of nums fac m st])
      next
        case (Inr ld)
        let ?st = "st1\<lparr>theLoader := ld, theStream := stream_of ld\<rparr>"
        have eq: "members_results nums fac m st s = Option.bind (members_results nums fac m ?st s2) (\<lambda>(ys, e, s). Some (xs @ ys, e, s))"
          using n \<open>x = Inr y\<close> y True m Inr by (simp add: members_results.simps [of nums fac m st])
        from return_members_reads [OF m [unfolded Inr] rd]
        show ?thesis
        proof (elim disjE conjE)
          assume a: "has_read False (stream_of (with_stream (theStream st1) (theLoader st1))) ld"
            "length (stream_of ld) < length (stream_of (with_stream (theStream st1) (theLoader st1)))"
          then have "length (theStream ?st) < length (theStream st)" using len by simp
          then have "\<exists>ys e s'. members_results nums fac m ?st s2 = Some (ys, e, s') \<and> (e = None \<longrightarrow> (\<exists>vs. json_text (theStream ?st) vs))"
            by (rule less.hyps) (use us(1) a(1) in \<open>simp_all add: has_read_def\<close>)
          then obtain ys e s' where IH: "members_results nums fac m ?st s2 = Some (ys, e, s')" "e = None \<longrightarrow> (\<exists>vs. json_text (stream_of ld) vs)" by auto
          moreover have "\<exists>vs. json_text (theStream st) vs" if "json_text (stream_of ld) vs" for vs
          proof -
            from a(1) obtain ws where "list_all container ws" "reads (theStream st1) (concat (map tokens_of ws)) (stream_of ld)" by (auto simp: has_read_def)
            from reads_text [OF us(4,3) reads_text [OF this(2,1) that]] show ?thesis by blast
          qed
          ultimately show ?thesis using eq by auto
        next
          assume a: "\<exists>vs. json_text (stream_of (with_stream (theStream st1) (theLoader st1))) vs" "list_all is_ws (stream_of ld)"
          from a(1) have t: "\<exists>vs. json_text (theStream st) vs" using reads_text [OF us(4,3)] by auto
          have "ready True (with_stream (stream_of ld) (theScanner ?st))" using us(1) by simp
          from scan_value_ws [OF this, of nums fac s2] a(2) obtain sc' where "scan_value nums fac (with_stream (stream_of ld) (theScanner ?st)) s2 = (Inr (False, sc'), s2)" by auto
          then have "members_results nums fac m ?st s2 = Some ([], None, s2)"
            by (simp add: members_results.simps [of nums fac m ?st] scanToNextTopLevelArray.simps [of nums fac m ?st] Let_def)
          then show ?thesis using eq t by auto
        qed
      qed
    qed
  qed
qed

section \<open>Properties\<close>

lemma json_text_reads:
  assumes "json_text bs vs"
  obtains rest where "reads bs (concat (map tokens_of vs)) rest" "list_all is_ws rest" "list_all container vs" "length (concat (map tokens_of vs)) \<le> length bs"
proof -
  from assms obtain ts lx t lx' where ts: "gives (new_lexer bs) ts lx" "next_tok lx = Inr (False, t, lx')" "json_texts True vs" "map atok ts = concat (map tokens_of vs)"
    unfolding json_text_iff by blast
  have "list_all is_ws (lx_in lx)" using ts(2) next_end_iff [of new_token lx] by (auto simp: next_tok_def)
  moreover have "reads bs (concat (map tokens_of vs)) (lx_in lx)" unfolding reads_def using ts(1,4) by blast
  moreover have "list_all container vs" using ts(3) by (simp add: json_texts_def)
  moreover from assms have "length (concat (map tokens_of vs)) \<le> length bs" by (rule json_text_hands)
  ultimately show thesis using that by blast
qed

lemma openParseMembers_inv:
  assumes "store_inv s" "factory_ok fac (items s)"
  shows "members_inv fac (openParseMembers direct inp) s" "theStream (openParseMembers direct inp) = text_bytes (members_input direct inp)" "\<not> theMembersGotOne (openParseMembers direct inp)"
  using assms
  by (simp_all add: openParseMembers_def members_inv_def at_value_def outside_def load_inv_def new_loader_def new_parser_def text_bytes_def stream_of_def skip_utf8_bom_def
      case_prod_unfold Let_def new_token_def cleared_def)

text \<open>No value needs more memory than the bytes of its text.\<close>

lemma length_commas: "\<forall>x\<in>set xs. f x \<le> length (g x) \<Longrightarrow> sum_list (map f xs) \<le> length (commas (map g xs))"
proof (induction xs)
  case (Cons x xs)
  have "f x \<le> length (g x)" "sum_list (map f xs) \<le> length (commas (map g xs))" using Cons by simp_all
  then show ?case by (cases "xs = []") (simp_all add: commas_Cons)
qed simp

lemma need_tokens: "need v \<le> length (tokens_of v)"
proof (induction v)
  case (Arr vs)
  then have "sum_list (map need vs) \<le> length (elems vs)" unfolding elems_def by (intro length_commas) simp
  then show ?case by (simp add: tokens_container)
next
  case (Obj ms)
  then have "sum_list (map (\<lambda>m. Suc (need (snd m))) ms) \<le> length (members ms)" unfolding members_def
    by (intro length_commas) (fastforce simp: pair_tokens_def snds.simps split: prod.splits)
  then show ?case by (simp add: tokens_container)
qed simp_all

lemma need_text:
  assumes "json_text bs vs" shows "sum_list (map need vs) \<le> length bs"
proof -
  have "sum_list (map need vs) \<le> length (concat (map tokens_of vs))" by (induction vs) (simp_all add: add_mono need_tokens)
  also from assms have "\<dots> \<le> length bs" by (rule json_text_hands)
  finally show ?thesis .
qed

lemma tops_False: "tops False vs = vs"
  by (induction "False" vs rule: tops.induct) simp_all

lemma members_text:
  assumes "store_inv s" "factory_ok fac (items s)" "json_text (text_bytes (members_input direct inp)) vs" "length (text_bytes (members_input direct inp)) < 2 ^ 64"
    "2 * length (text_bytes (members_input direct inp)) \<le> length (arena s)"
  shows "\<exists>xs e s'. json_members nums fac direct inp multiple s = Some (xs, e, s') \<and> as_expected nums (members_of (expected nums multiple False vs)) (xs, e, s') \<and> grows (items s) (items s')"
proof -
  note o = openParseMembers_inv [OF assms(1,2), of direct inp]
  have n: "2 * sum_list (map need vs) \<le> length (arena s)" using need_text [OF assms(3)] assms(5) by simp
  from json_text_reads [OF assms(3)] obtain rest where r: "reads (theStream (openParseMembers direct inp)) (concat (map tokens_of vs)) rest" "list_all is_ws rest" "list_all container vs"
    "length (concat (map tokens_of vs)) \<le> length (text_bytes (members_input direct inp))" unfolding o(2) by metis
  from r(4) assms(4) have "length (concat (map tokens_of vs)) < 2 ^ 64" by simp
  from members_ok [OF o(1) r(3,1,2) n this, of nums multiple] show ?thesis using o(3) by (simp add: json_members_def)
qed

lemma members_ends:
  assumes "store_inv s" "factory_ok fac (items s)"
  shows "\<exists>xs e s'. json_members nums fac direct inp multiple s = Some (xs, e, s') \<and> (e = None \<longrightarrow> (\<exists>vs. json_text (text_bytes (members_input direct inp)) vs))"
  using members_any [of "openParseMembers direct inp" nums fac multiple s] openParseMembers_inv [OF assms, of direct inp]
  by (simp add: json_members_def members_inv_def ready_def)

text \<open>
  C10: the streaming evaluation of \<open>members(parse-json(...))\<close> gives what the evaluation by \<open>jn:parse-json\<close> and then \<open>members\<close> would, if there is memory for two items per byte of the
  text. It ends on every input. On a sequence of JSON texts it returns one item per element of the top-level arrays that \<open>jn:parse-json\<close> would return, in order, and each denotes its
  element in the store that the run leaves; an array with a fault returns none of its elements. If it ends without an exception, the input is a sequence of JSON texts. It ends with an exception
  exactly if \<open>jn:parse-json\<close> on the same bytes does, and on a sequence of JSON texts for the same fault.
\<close>

theorem json_members:
  assumes "store_inv s" "factory_ok fac (items s)" "length (text_bytes (members_input direct inp)) < 2 ^ 64"
    "2 * length (text_bytes (members_input direct inp)) \<le> length (arena s)"
  shows "\<exists>xs e s'. json_members nums fac direct inp multiple s = Some (xs, e, s')
    \<and> (\<forall>vs. json_text (text_bytes (members_input direct inp)) vs \<longrightarrow>
        as_expected nums (members_of (expected nums multiple False vs)) (xs, e, s') \<and> grows (items s) (items s'))
    \<and> (e = None \<longrightarrow> (\<exists>vs. json_text (text_bytes (members_input direct inp)) vs))
    \<and> (\<forall>ys d s1. json_parse nums fac (members_input direct inp) None \<lparr>theAllowMultiple = multiple, theInput = False, theGotOne = False\<rparr> s = (ys, d, s1) \<longrightarrow>
        (e = None \<longleftrightarrow> d = None) \<and> ((\<exists>vs. json_text (text_bytes (members_input direct inp)) vs) \<longrightarrow> map_option fault_of e = map_option fault_of d))"
proof -
  let ?bs = "text_bytes (members_input direct inp)" and ?ps = "\<lparr>theAllowMultiple = multiple, theInput = False, theGotOne = False\<rparr>"
  from members_ends [OF assms(1,2)] obtain xs e s' where r: "json_members nums fac direct inp multiple s = Some (xs, e, s')" "e = None \<longrightarrow> (\<exists>vs. json_text ?bs vs)" by blast
  have x: "as_expected nums (members_of (expected nums multiple False vs)) (xs, e, s') \<and> grows (items s) (items s')" if "json_text ?bs vs" for vs
    using members_text [OF assms(1,2) that assms(3,4), of nums multiple] r(1) by simp
  have o: "process_options None ?ps s = (Inr (False, ?ps), s)" by (simp add: process_options_def)
  have same: "(e = None \<longleftrightarrow> d = None) \<and> ((\<exists>vs. json_text ?bs vs) \<longrightarrow> map_option fault_of e = map_option fault_of d)"
    if p: "json_parse nums fac (members_input direct inp) None ?ps s = (ys, d, s1)" for ys d s1
  proof (cases "\<exists>vs. json_text ?bs vs")
    case True
    then obtain vs where vs: "json_text ?bs vs" by blast
    have "sum_list (map need (tops False vs)) \<le> length (arena s)" using need_text [OF vs] assms(4) by (simp add: tops_False)
    from json_parse_loads [OF o assms(1,2) vs assms(3) this, of nums] p have "as_expected nums (expected nums multiple False vs) (ys, d, s1)" by (simp add: tops_False)
    with x [OF vs] True show ?thesis by (cases e; cases d) (auto simp: as_expected_def members_of_def)
  next
    case False
    then show ?thesis using r(2) json_parse_ends [OF o, of nums fac "members_input direct inp" ys s1] p by (cases d) auto
  qed
  show ?thesis using r x same by (intro exI [of _ xs] exI [of _ e] exI [of _ s']) blast
qed

lemma nested_text: "json_text [91, 91, 93, 93] [Arr [Arr []]]"
proof -
  have l: "lexeme Begin_array Non_numeric [] [91]" "lexeme End_array Non_numeric [] [93]" by (simp_all add: lexeme_def structural_text_def)
  have "json_lex lexeme ([] @ [91] @ [] @ [91] @ [] @ [93] @ [] @ [93] @ []) (map tsym [Begin_array, Begin_array, End_array, End_array])"
    using l by (simp only: list.map) (intro json_lex.intros; simp)
  then show ?thesis by (simp add: json_text_def tokens_container elems_def)
qed

theorem json_members_witness:
  "\<exists>a s'. json_members sample_numbers sample_factory True (Text [91, 91, 93, 93]) False sample_store = Some ([Some a], None, s') \<and> denotes sample_numbers (items s') a (Arr [])"
proof -
  have b: "text_bytes (members_input True (Text [91, 91, 93, 93])) = [91, 91, 93, 93]" by (simp add: text_bytes_def skip_bom_bytes_def BOM_def)
  have n: "length (text_bytes (members_input True (Text [91, 91, 93, 93]))) < 2 ^ 64" "2 * length (text_bytes (members_input True (Text [91, 91, 93, 93]))) \<le> length (arena sample_store)"
    unfolding b by (simp_all add: sample_store_def)
  have j: "json_text (text_bytes (members_input True (Text [91, 91, 93, 93]))) [Arr [Arr []]]" unfolding b by (rule nested_text)
  from json_members [OF sample_ok n, of sample_numbers False] obtain xs e s' where
    "json_members sample_numbers sample_factory True (Text [91, 91, 93, 93]) False sample_store = Some (xs, e, s')"
    "as_expected sample_numbers (members_of (expected sample_numbers False False [Arr [Arr []]])) (xs, e, s')"
    by (elim exE conjE) (metis (no_types, lifting) j)
  moreover have "members_of (expected sample_numbers False False [Arr [Arr []]]) = ([Arr []], None)" by (simp add: members_of_def MAX_DEPTH_def)
  ultimately show ?thesis by (auto simp: as_expected_def list_all2_Cons2 split: option.splits)
qed

end
